(* ===== verification/Prelude.thy ===== *)
theory Prelude
  imports Complex_Main "HOL-Library.Word"
begin

unbundle bit_operations_syntax

text \<open>
  Shared vocabulary of the development: the machine types of Go, errors as values, Go maps as
  finite partial functions, the little-endian codec of package \<open>encoding/binary\<close> and the
  generic lemmas on lists, maps and words that the component theories use through the
  collections \<open>go_simps\<close> (rewriting) and \<open>wire_simps\<close> (byte-level codecs).
\<close>

named_theorems go_simps
named_theorems wire_simps

section \<open>Machine types, errors and time\<close>

type_synonym u8 = "8 word"
type_synonym u16 = "16 word"
type_synonym u32 = "32 word"
type_synonym u64 = "64 word"
type_synonym bytes = "u8 list"

text \<open>
  A Go error value is \<open>Err\<close> with the text it was created with; \<open>Wrap\<close> is
  \<open>fmt.Errorf\<close> with \<open>%w\<close>; \<open>Panic\<close> is a run-time panic (a nil dereference
  or an explicit \<open>panic\<close>). A fallible operation returns \<open>Inl\<close> the error or
  \<open>Inr\<close> the value.
\<close>

datatype go_error = Err string | Wrap string go_error | Panic string

type_synonym 'a res = "go_error + 'a"

text \<open>The text of an error, \<open>err.Error()\<close>; a panic is given by its value, and \<open>errPanic\<close> tells it from an error.\<close>

fun errorText :: "go_error \<Rightarrow> string" where
  "errorText (Err msg) = msg"
| "errorText (Wrap pre err) = pre @ errorText err"
| "errorText (Panic msg) = msg"

definition errPanic :: "go_error \<Rightarrow> string option" where
  "errPanic err = (case err of Panic msg \<Rightarrow> Some msg | _ \<Rightarrow> None)"


text \<open>
  \<open>time.Time\<close> is the number of nanoseconds since Go's zero time, so the zero value is 0;
  \<open>time.Duration\<close> is a number of nanoseconds. The clock readings of an operation are
  arguments of its model.
\<close>

type_synonym gotime = int
type_synonym duration = int

abbreviation IsZero :: "gotime \<Rightarrow> bool" where
  "IsZero t \<equiv> t = 0"

text \<open>\<open>strconv.Itoa\<close> on a number that is not negative.\<close>

fun itoa :: "nat \<Rightarrow> string" where
  "itoa n = (if n < 10 then [char_of (48 + n)] else itoa (n div 10) @ [char_of (48 + n mod 10)])"

declare itoa.simps [simp del]

lemma itoa_value: "foldl (\<lambda>m c. 10 * m + (of_char c - 48)) 0 (itoa n) = n"
proof (induction n rule: itoa.induct)
  case (1 n)
  then show ?case
    by (cases "n < 10") (simp_all add: itoa.simps [of n])
qed

lemma itoa_inj: "itoa m = itoa n \<Longrightarrow> m = n"
  by (metis itoa_value)

section \<open>Go maps\<close>

text \<open>
  A Go map is a partial function with a finite domain; \<open>len\<close> is the size of the domain.
  The order in which \<open>range\<close> visits the keys is unspecified, so an operation that
  iterates takes the visiting order as an argument, constrained by \<open>map_order\<close>.
\<close>

definition map_len :: "('k \<rightharpoonup> 'v) \<Rightarrow> nat" where
  "map_len m = card (dom m)"

definition map_order :: "('k \<rightharpoonup> 'v) \<Rightarrow> 'k list \<Rightarrow> bool" where
  "map_order m ks \<longleftrightarrow> distinct ks \<and> set ks = dom m"

lemma map_len_empty [simp, go_simps]: "map_len Map.empty = 0"
  by (simp add: map_len_def)

lemma map_len_insert [go_simps]:
  "finite (dom m) \<Longrightarrow> map_len (m(k \<mapsto> v)) = (if k \<in> dom m then map_len m else Suc (map_len m))"
  by (simp add: map_len_def insert_absorb)

lemma map_len_delete [go_simps]:
  "finite (dom m) \<Longrightarrow> map_len (m(k := None)) = (if k \<in> dom m then map_len m - 1 else map_len m)"
  by (simp add: map_len_def)

lemma map_len_0_iff: "finite (dom m) \<Longrightarrow> map_len m = 0 \<longleftrightarrow> m = Map.empty"
  by (simp add: map_len_def)

lemma finite_dom_word [simp]: "finite (dom (m :: 'a::len word \<rightharpoonup> 'v))"
  by (rule finite_subset [OF subset_UNIV]) simp

lemma map_order_length: "map_order m ks \<Longrightarrow> length ks = map_len m"
  by (metis distinct_card map_len_def map_order_def)

lemma map_order_exists: "finite (dom m) \<Longrightarrow> \<exists>ks. map_order m ks"
  unfolding map_order_def by (metis finite_distinct_list)

section \<open>The little-endian codec\<close>

definition PutUint16 :: "u16 \<Rightarrow> bytes" where
  "PutUint16 v = [ucast v, ucast (drop_bit 8 v)]"

definition PutUint32 :: "u32 \<Rightarrow> bytes" where
  "PutUint32 v = [ucast v, ucast (drop_bit 8 v), ucast (drop_bit 16 v), ucast (drop_bit 24 v)]"

definition Uint16 :: "bytes \<Rightarrow> u16" where
  "Uint16 b = ucast (b ! 0) OR push_bit 8 (ucast (b ! 1))"

definition Uint32 :: "bytes \<Rightarrow> u32" where
  "Uint32 b = ucast (b ! 0) OR push_bit 8 (ucast (b ! 1))
     OR push_bit 16 (ucast (b ! 2)) OR push_bit 24 (ucast (b ! 3))"

text \<open>The slice expression \<open>xs[i:j]\<close>, for \<open>i \<le> j \<le> len xs\<close>.\<close>

definition slice :: "nat \<Rightarrow> nat \<Rightarrow> 'a list \<Rightarrow> 'a list" where
  "slice i j xs = take (j - i) (drop i xs)"

lemma length_slice [simp, wire_simps]: "j \<le> length xs \<Longrightarrow> length (slice i j xs) = j - i"
  by (auto simp: slice_def)

lemma slice_append_left: "j \<le> length xs \<Longrightarrow> slice i j (xs @ ys) = slice i j xs"
  by (simp add: slice_def)

lemma slice_append_right:
  "length xs \<le> i \<Longrightarrow> slice i j (xs @ ys) = slice (i - length xs) (j - length xs) ys"
  by (simp add: slice_def)

lemma slice_all: "j = length xs \<Longrightarrow> slice 0 j xs = xs"
  by (simp add: slice_def)

lemma slice_split:
  assumes "i \<le> j" "j \<le> k"
  shows "slice i k xs = slice i j xs @ slice j k xs"
proof -
  obtain a b where "j = i + a" "k = i + a + b"
    using assms le_Suc_ex by metis
  then show ?thesis
    by (simp add: slice_def take_add add.commute)
qed

lemmas slice_simps = slice_append_left slice_append_right slice_all

lemma length_PutUint16 [simp, wire_simps]: "length (PutUint16 v) = 2"
  by (simp add: PutUint16_def)

lemma length_PutUint32 [simp, wire_simps]: "length (PutUint32 v) = 4"
  by (simp add: PutUint32_def)

lemma Uint16_PutUint16 [simp, wire_simps]: "Uint16 (PutUint16 v) = v"
  unfolding Uint16_def PutUint16_def
  by (rule bit_word_eqI) (auto simp: bit_simps not_less)

lemma Uint32_PutUint32 [simp, wire_simps]: "Uint32 (PutUint32 v) = v"
proof (rule bit_word_eqI)
  fix n assume "n < LENGTH(32)"
  then consider "n < 8" | "8 \<le> n" "n < 16" | "16 \<le> n" "n < 24" | "24 \<le> n" "n < 32"
    by fastforce
  then show "bit (Uint32 (PutUint32 v)) n = bit v n"
    by cases (auto simp: Uint32_def PutUint32_def bit_simps)
qed

lemma bit_u8_beyond: "8 \<le> k \<Longrightarrow> \<not> bit (x :: u8) (k + n)"
  by (simp add: bit_word.rep_eq)

lemma PutUint16_Uint16:
  assumes "length b = 2"
  shows "PutUint16 (Uint16 b) = b"
proof -
  obtain b0 b1 where b: "b = [b0, b1]"
    using assms by (auto simp: numeral_eq_Suc length_Suc_conv)
  have "ucast (Uint16 b) = b0"
    by (rule bit_word_eqI) (simp add: b Uint16_def bit_simps bit_u8_beyond)
  moreover have "ucast (drop_bit 8 (Uint16 b)) = b1"
    by (rule bit_word_eqI) (simp add: b Uint16_def bit_simps bit_u8_beyond)
  ultimately show ?thesis
    by (simp add: b PutUint16_def)
qed

lemma PutUint32_Uint32:
  assumes "length b = 4"
  shows "PutUint32 (Uint32 b) = b"
proof -
  obtain b0 b1 b2 b3 where b: "b = [b0, b1, b2, b3]"
    using assms by (auto simp: numeral_eq_Suc length_Suc_conv)
  note bits = Uint32_def bit_simps bit_u8_beyond
  have "ucast (Uint32 b) = b0"
    by (rule bit_word_eqI) (simp add: b bits)
  moreover have "ucast (drop_bit 8 (Uint32 b)) = b1"
    by (rule bit_word_eqI) (simp add: b bits)
  moreover have "ucast (drop_bit 16 (Uint32 b)) = b2"
    by (rule bit_word_eqI) (simp add: b bits)
  moreover have "ucast (drop_bit 24 (Uint32 b)) = b3"
    by (rule bit_word_eqI) (simp add: b bits)
  ultimately show ?thesis
    by (simp add: b PutUint32_def)
qed

end
