(* ===== verification/GameProtocol.thy ===== *)
theory GameProtocol
  imports Prelude
begin

text \<open>
  The optional game envelope of \<open>gcore/protocol.go\<close>: a 24-byte little-endian header (magic,
  version, flags, message id, sequence, player, room, payload length) followed by the payload.
\<close>

definition GameProtocolMagic :: u32 where "GameProtocolMagic = 0x584E4947"
definition GameProtocolVersion :: u8 where "GameProtocolVersion = 1"
definition GameProtocolHeaderLen :: nat where "GameProtocolHeaderLen = 24"
definition MaxGamePayloadSize :: u32 where "MaxGamePayloadSize = 4 * 1024 * 1024"

lemmas game_consts =
  GameProtocolMagic_def GameProtocolVersion_def GameProtocolHeaderLen_def MaxGamePayloadSize_def

record GameMessage =
  gm_Version :: u8
  gm_Flags :: u8
  gm_MessageID :: u16
  gm_Sequence :: u32
  gm_PlayerID :: u32
  gm_RoomID :: u32
  gm_Payload :: bytes

definition NewGameMessage :: "u16 \<Rightarrow> u32 \<Rightarrow> u32 \<Rightarrow> u32 \<Rightarrow> bytes \<Rightarrow> GameMessage" where
  "NewGameMessage messageID sequence playerID roomID payload =
     \<lparr> gm_Version = GameProtocolVersion, gm_Flags = 0, gm_MessageID = messageID,
       gm_Sequence = sequence, gm_PlayerID = playerID, gm_RoomID = roomID, gm_Payload = payload \<rparr>"

text \<open>
  \<open>Encode\<close> has a pointer receiver and fills in a zero version, so it returns the bytes and the
  receiver afterwards; the buffer is threaded through the two writers.
\<close>

definition writeUint16 :: "bytes \<Rightarrow> u16 \<Rightarrow> bytes" where
  "writeUint16 data value = data @ PutUint16 value"

definition writeUint32 :: "bytes \<Rightarrow> u32 \<Rightarrow> bytes" where
  "writeUint32 data value = data @ PutUint32 value"

definition Encode :: "GameMessage option \<Rightarrow> bytes res \<times> GameMessage option" where
  "Encode gm =
     (case gm of
        None \<Rightarrow> (Inl (Err ''game message is nil''), None)
      | Some gm0 \<Rightarrow>
          (let gm1 = (if gm_Version gm0 = 0 then gm0\<lparr>gm_Version := GameProtocolVersion\<rparr> else gm0)
           in if gm_Version gm1 \<noteq> GameProtocolVersion
              then (Inl (Err ''unsupported game protocol version''), Some gm1)
              else if length (gm_Payload gm1) > unat MaxGamePayloadSize
              then (Inl (Err ''game message payload is too large''), Some gm1)
              else
                let data = writeUint32 [] GameProtocolMagic;
                    data = data @ [gm_Version gm1];
                    data = data @ [gm_Flags gm1];
                    data = writeUint16 data (gm_MessageID gm1);
                    data = writeUint32 data (gm_Sequence gm1);
                    data = writeUint32 data (gm_PlayerID gm1);
                    data = writeUint32 data (gm_RoomID gm1);
                    data = writeUint32 data (of_nat (length (gm_Payload gm1)))
                in (Inr (data @ gm_Payload gm1), Some gm1)))"

definition DecodeGameMessage :: "bytes \<Rightarrow> GameMessage res" where
  "DecodeGameMessage data =
     (if length data < GameProtocolHeaderLen then Inl (Err ''game message header is incomplete'')
      else if Uint32 (slice 0 4 data) \<noteq> GameProtocolMagic then Inl (Err ''invalid game protocol magic'')
      else if data ! 4 \<noteq> GameProtocolVersion then Inl (Err ''unsupported game protocol version'')
      else
        let payloadLen = Uint32 (slice 20 24 data)
        in if payloadLen > MaxGamePayloadSize then Inl (Err ''game message payload is too large'')
           else if GameProtocolHeaderLen + unat payloadLen \<noteq> length data
           then Inl (Err ''game message length is invalid'')
           else Inr \<lparr> gm_Version = data ! 4, gm_Flags = data ! 5,
                      gm_MessageID = Uint16 (slice 6 8 data),
                      gm_Sequence = Uint32 (slice 8 12 data),
                      gm_PlayerID = Uint32 (slice 12 16 data),
                      gm_RoomID = Uint32 (slice 16 20 data),
                      gm_Payload = drop GameProtocolHeaderLen data \<rparr>)"

section \<open>The header layout\<close>

definition game_header :: "GameMessage \<Rightarrow> u32 \<Rightarrow> bytes" where
  "game_header m n = PutUint32 GameProtocolMagic @ [gm_Version m, gm_Flags m] @ PutUint16 (gm_MessageID m)
     @ PutUint32 (gm_Sequence m) @ PutUint32 (gm_PlayerID m) @ PutUint32 (gm_RoomID m) @ PutUint32 n"

lemma length_game_header [simp]: "length (game_header m n) = 24"
  by (simp add: game_header_def)

lemma game_header_fields [wire_simps]:
  "slice 0 4 (game_header m n) = PutUint32 GameProtocolMagic"
  "game_header m n ! 4 = gm_Version m"
  "game_header m n ! 5 = gm_Flags m"
  "slice 6 8 (game_header m n) = PutUint16 (gm_MessageID m)"
  "slice 8 12 (game_header m n) = PutUint32 (gm_Sequence m)"
  "slice 12 16 (game_header m n) = PutUint32 (gm_PlayerID m)"
  "slice 16 20 (game_header m n) = PutUint32 (gm_RoomID m)"
  "slice 20 24 (game_header m n) = PutUint32 n"
  by (simp_all add: game_header_def slice_def nth_append)

lemma Encode_Inr:
  "Encode (Some m) = (Inr bs, m') \<longleftrightarrow>
     (let m1 = (if gm_Version m = 0 then m\<lparr>gm_Version := GameProtocolVersion\<rparr> else m)
      in gm_Version m1 = GameProtocolVersion \<and> length (gm_Payload m) \<le> unat MaxGamePayloadSize
         \<and> bs = game_header m1 (of_nat (length (gm_Payload m))) @ gm_Payload m \<and> m' = Some m1)"
  by (auto simp: Encode_def Let_def writeUint32_def writeUint16_def game_header_def)

lemma payload_len_word:
  assumes "length p \<le> unat MaxGamePayloadSize"
  shows "unat (of_nat (length p) :: u32) = length p" "of_nat (length p) \<le> MaxGamePayloadSize"
proof -
  have "length p < 2 ^ LENGTH(32)"
    using assms by (simp add: MaxGamePayloadSize_def)
  then show "unat (of_nat (length p) :: u32) = length p"
    by (simp add: unat_of_nat)
  then show "of_nat (length p) \<le> MaxGamePayloadSize"
    using assms by (simp add: word_le_nat_alt)
qed

lemma Decode_header:
  assumes "gm_Version m = GameProtocolVersion" and "length p \<le> unat MaxGamePayloadSize"
  shows "DecodeGameMessage (game_header m (of_nat (length p)) @ p) = Inr (m\<lparr>gm_Payload := p\<rparr>)"
  using assms payload_len_word [OF assms(2)]
  by (cases m) (simp add: DecodeGameMessage_def GameProtocolHeaderLen_def slice_append_left nth_append
      game_header_fields Let_def)

lemma Decode_Inr:
  assumes "DecodeGameMessage data = Inr m"
  shows "gm_Version m = GameProtocolVersion" "length (gm_Payload m) \<le> unat MaxGamePayloadSize"
    "data = game_header m (of_nat (length (gm_Payload m))) @ gm_Payload m"
proof -
  note d = assms [unfolded DecodeGameMessage_def GameProtocolHeaderLen_def Let_def]
  let ?n = "Uint32 (slice 20 24 data)"
  have len: "24 \<le> length data" "24 + unat ?n = length data"
    and ok: "Uint32 (slice 0 4 data) = GameProtocolMagic" "data ! 4 = GameProtocolVersion"
      "?n \<le> MaxGamePayloadSize"
    and m: "m = \<lparr> gm_Version = data ! 4, gm_Flags = data ! 5, gm_MessageID = Uint16 (slice 6 8 data),
        gm_Sequence = Uint32 (slice 8 12 data), gm_PlayerID = Uint32 (slice 12 16 data),
        gm_RoomID = Uint32 (slice 16 20 data), gm_Payload = drop 24 data \<rparr>"
    using d by (auto split: if_splits simp: not_less)
  show "gm_Version m = GameProtocolVersion" by (simp add: m ok)
  have pl: "length (gm_Payload m) = unat ?n" using len by (simp add: m)
  then show "length (gm_Payload m) \<le> unat MaxGamePayloadSize"
    using ok(3) by (simp add: word_le_nat_alt)
  have "slice 0 24 data = slice 0 4 data @ slice 4 6 data @ slice 6 8 data @ slice 8 12 data
      @ slice 12 16 data @ slice 16 20 data @ slice 20 24 data"
    by (simp flip: slice_split)
  moreover have "slice 4 6 data = [data ! 4, data ! 5]"
    using len(1) by (simp add: slice_def take_Suc_conv_app_nth numeral_2_eq_2)
  moreover have "slice 0 4 data = PutUint32 GameProtocolMagic"
    using len(1) by (simp flip: ok(1) add: PutUint32_Uint32)
  ultimately have "slice 0 24 data = game_header m ?n"
    using len(1) by (simp add: game_header_def m PutUint32_Uint32 PutUint16_Uint16)
  moreover have "data = slice 0 24 data @ drop 24 data"
    by (simp add: slice_def)
  ultimately show "data = game_header m (of_nat (length (gm_Payload m))) @ gm_Payload m"
    by (simp add: pl) (simp add: m)
qed

section \<open>Properties\<close>

text \<open>envelope round trip. Every message that \<open>Encode\<close> accepts is decoded to the same
  fields and payload, with the version that \<open>Encode\<close> filled in.\<close>

theorem game_encode_decode:
  assumes "Encode (Some m) = (Inr bs, Some m')"
  shows "DecodeGameMessage bs = Inr m'"
  using assms Decode_header by (auto simp: Encode_Inr Let_def split: if_splits)

theorem game_encode_decode_witness:
  "DecodeGameMessage ([0x47, 0x49, 0x4E, 0x58, 1, 3, 0xE9, 3, 7, 0, 0, 0, 5, 0, 0, 0, 9, 0, 0, 0, 2, 0, 0, 0, 10, 11])
   = Inr \<lparr> gm_Version = 1, gm_Flags = 3, gm_MessageID = 1001, gm_Sequence = 7, gm_PlayerID = 5,
           gm_RoomID = 9, gm_Payload = [10, 11] \<rparr>"
proof -
  have "Encode (Some \<lparr> gm_Version = 0, gm_Flags = 3, gm_MessageID = 1001, gm_Sequence = 7,
      gm_PlayerID = 5, gm_RoomID = 9, gm_Payload = [10, 11] \<rparr>)
    = (Inr [0x47, 0x49, 0x4E, 0x58, 1, 3, 0xE9, 3, 7, 0, 0, 0, 5, 0, 0, 0, 9, 0, 0, 0, 2, 0, 0, 0, 10, 11],
       Some \<lparr> gm_Version = 1, gm_Flags = 3, gm_MessageID = 1001, gm_Sequence = 7, gm_PlayerID = 5,
              gm_RoomID = 9, gm_Payload = [10, 11] \<rparr>)"
    by (simp add: Encode_def Let_def writeUint32_def writeUint16_def PutUint32_def PutUint16_def
        game_consts)
  then show ?thesis by (rule game_encode_decode)
qed

text \<open>the envelope has no second representation. Bytes that \<open>DecodeGameMessage\<close> accepts
  are exactly the encoding of the message it returns; in particular every truncated or extended
  encoding is refused.\<close>

theorem game_decode_encode:
  assumes "DecodeGameMessage data = Inr m"
  shows "Encode (Some m) = (Inr data, Some m)"
proof -
  have "gm_Version m \<noteq> 0"
    using Decode_Inr(1) [OF assms] by (simp add: GameProtocolVersion_def)
  with Decode_Inr [OF assms] show ?thesis
    by (simp add: Encode_Inr)
qed

theorem game_decode_encode_witness:
  "Encode (Some (NewGameMessage 2004 1 2 3 [99]))
   = (Inr [0x47, 0x49, 0x4E, 0x58, 1, 0, 0xD4, 7, 1, 0, 0, 0, 2, 0, 0, 0, 3, 0, 0, 0, 1, 0, 0, 0, 99],
      Some (NewGameMessage 2004 1 2 3 [99]))"
proof (rule game_decode_encode)
  show "DecodeGameMessage [0x47, 0x49, 0x4E, 0x58, 1, 0, 0xD4, 7, 1, 0, 0, 0, 2, 0, 0, 0, 3, 0, 0, 0, 1, 0, 0, 0, 99]
      = Inr (NewGameMessage 2004 1 2 3 [99])"
    by (simp add: DecodeGameMessage_def NewGameMessage_def Uint32_def Uint16_def slice_def game_consts)
qed

end
