(* ===== verification/StepSystem.thy ===== *)
theory StepSystem
  imports Main
begin

text \<open>
  Reachability and invariants of step relations. Every component with state is a step system;
  the locale \<open>invariant_system\<close> is the contract between a component, which shows that its
  initial states satisfy an invariant and that its steps keep it, and the properties, which use
  the invariant in every reachable state.
\<close>

inductive reach :: "('s \<Rightarrow> bool) \<Rightarrow> ('s \<Rightarrow> 's \<Rightarrow> bool) \<Rightarrow> 's \<Rightarrow> bool"
  for init :: "'s \<Rightarrow> bool" and step :: "'s \<Rightarrow> 's \<Rightarrow> bool" where
  reach_init: "init s \<Longrightarrow> reach init step s"
| reach_step: "reach init step s \<Longrightarrow> step s t \<Longrightarrow> reach init step t"

lemma reach_steps:
  assumes "step\<^sup>*\<^sup>* s t" "reach init step s"
  shows "reach init step t"
  using assms by (induction rule: rtranclp_induct) (auto intro: reach_step)

locale invariant_system =
  fixes init :: "'s \<Rightarrow> bool" and step :: "'s \<Rightarrow> 's \<Rightarrow> bool" and inv :: "'s \<Rightarrow> bool"
  assumes init_inv: "init s \<Longrightarrow> inv s"
    and step_inv: "inv s \<Longrightarrow> step s t \<Longrightarrow> inv t"
begin

lemma reach_inv: "reach init step s \<Longrightarrow> inv s"
  by (induction rule: reach.induct) (auto intro: init_inv step_inv)

lemma rtranclp_inv: "step\<^sup>*\<^sup>* s t \<Longrightarrow> inv s \<Longrightarrow> inv t"
  by (induction rule: rtranclp_induct) (auto intro: step_inv)

end

text \<open>
  A system refines another one when each of its initial states and steps is, seen through \<open>abs\<close>, one of the
  other, or several steps of it: what holds of the reachable states of the abstract system then holds of it.
\<close>

locale step_refinement =
  fixes cinit :: "'c \<Rightarrow> bool" and cstep :: "'c \<Rightarrow> 'c \<Rightarrow> bool"
    and ainit :: "'a \<Rightarrow> bool" and astep :: "'a \<Rightarrow> 'a \<Rightarrow> bool" and abs :: "'c \<Rightarrow> 'a"
  assumes init_refines: "cinit c \<Longrightarrow> ainit (abs c)"
    and step_refines: "cstep c c' \<Longrightarrow> astep\<^sup>*\<^sup>* (abs c) (abs c')"
begin

lemma reach_refines: "reach cinit cstep c \<Longrightarrow> reach ainit astep (abs c)"
  by (induction rule: reach.induct) (auto intro: reach_init init_refines reach_steps step_refines)

lemma steps_refine: "cstep\<^sup>*\<^sup>* c c' \<Longrightarrow> astep\<^sup>*\<^sup>* (abs c) (abs c')"
  by (induction rule: rtranclp_induct) (auto intro: rtranclp_trans step_refines)

end

end
