(* ===== verification/SessionManager.thy ===== *)
theory SessionManager
  imports Prelude StepSystem
begin

text \<open>
  The in-memory session manager: \<open>session/session.go\<close> and \<open>session/legacy.go\<close>. The state
  is the token table and three indexes (by account, by player, by connection). Every method runs
  under the manager's lock, so each is one atomic step; the clock readings and the random bytes it
  consumes are arguments. The invariant says that the four tables describe one set of sessions, and
  the lookups are then characterised by that set alone.
\<close>

section \<open>State\<close>

record Session =
  ses_Token :: string
  ses_AccountID :: string
  ses_PlayerID :: u64
  ses_ConnID :: u32
  ses_Bound :: bool
  ses_ExpiresAt :: gotime
  ses_CreatedAt :: gotime
  ses_UpdatedAt :: gotime

record Manager =
  sm_legacy :: "u64 option"
  sm_accountPolicy :: u8
  sm_byToken :: "string \<rightharpoonup> Session"
  sm_byAccountID :: "string \<rightharpoonup> string"
  sm_byPlayerID :: "u64 \<rightharpoonup> string"
  sm_byConnID :: "u32 \<rightharpoonup> string"

definition RejectExisting :: u8 where "RejectExisting = 0"
definition ReplaceExisting :: u8 where "ReplaceExisting = 1"

abbreviation ErrAccountActive :: go_error where
  "ErrAccountActive \<equiv> Err ''account already has an active session''"

abbreviation nil_deref :: go_error where
  "nil_deref \<equiv> Panic ''invalid memory address or nil pointer dereference''"

definition New :: "u8 \<Rightarrow> Manager res" where
  "New accountPolicy =
     (if accountPolicy \<noteq> RejectExisting \<and> accountPolicy \<noteq> ReplaceExisting
      then Inl (Err ''invalid account policy'')
      else Inr \<lparr> sm_legacy = None, sm_accountPolicy = accountPolicy, sm_byToken = Map.empty,
                 sm_byAccountID = Map.empty, sm_byPlayerID = Map.empty, sm_byConnID = Map.empty \<rparr>)"

section \<open>Operations\<close>

definition expired :: "Session \<Rightarrow> gotime \<Rightarrow> bool" where
  "expired value now \<longleftrightarrow> \<not> IsZero (ses_ExpiresAt value) \<and> \<not> now < ses_ExpiresAt value"

definition hexdigit :: "nat \<Rightarrow> char" where
  "hexdigit n = ''0123456789abcdef'' ! n"

definition hexEncode :: "bytes \<Rightarrow> string" where
  "hexEncode bs = concat (map (\<lambda>b. [hexdigit (unat b div 16), hexdigit (unat b mod 16)]) bs)"

text \<open>\<open>random\<close> is what \<open>rand.Read\<close> delivers: 24 bytes or an error.\<close>

definition createToken :: "bytes res \<Rightarrow> string res" where
  "createToken random = (case random of Inl err \<Rightarrow> Inl err | Inr data \<Rightarrow> Inr (hexEncode data))"

definition GetByToken :: "Manager \<Rightarrow> string \<Rightarrow> gotime \<Rightarrow> Session res" where
  "GetByToken m token now =
     (case sm_byToken m token of
        None \<Rightarrow> Inl (Err ''session not found'')
      | Some session \<Rightarrow>
          if expired session now then Inl (Err ''session not found'') else Inr session)"

definition GetByConnID :: "Manager \<Rightarrow> u32 \<Rightarrow> gotime \<Rightarrow> Session res" where
  "GetByConnID m connID now =
     (case sm_byConnID m connID of
        None \<Rightarrow> Inl (Err ''session not found'')
      | Some token \<Rightarrow>
          (case sm_byToken m token of
             None \<Rightarrow> Inl nil_deref
           | Some value \<Rightarrow> if expired value now then Inl (Err ''session expired'') else Inr value))"

definition GetByPlayerID :: "Manager \<Rightarrow> u64 \<Rightarrow> gotime \<Rightarrow> Session res" where
  "GetByPlayerID m playerID now =
     (case sm_byPlayerID m playerID of
        None \<Rightarrow> Inl (Err ''session not found'')
      | Some token \<Rightarrow>
          (case sm_byToken m token of
             None \<Rightarrow> Inl nil_deref
           | Some value \<Rightarrow> if expired value now then Inl (Err ''session expired'') else Inr value))"

text \<open>\<open>Touch\<close> and \<open>Bind\<close> read the clock twice, for the expiry check and for the time stamp.\<close>

definition Touch :: "Manager \<Rightarrow> string \<Rightarrow> gotime \<Rightarrow> gotime \<Rightarrow> go_error option \<times> Manager" where
  "Touch m token now1 now2 =
     (case sm_byToken m token of
        None \<Rightarrow> (Some (Err ''session not found''), m)
      | Some session \<Rightarrow>
          if expired session now1 then (Some (Err ''session not found''), m)
          else (None, m\<lparr>sm_byToken := (sm_byToken m)(token \<mapsto> session\<lparr>ses_UpdatedAt := now2\<rparr>)\<rparr>))"

definition removeLocked :: "string \<Rightarrow> Manager \<Rightarrow> Manager" where
  "removeLocked token m =
     (case sm_byToken m token of
        None \<Rightarrow> m
      | Some session \<Rightarrow>
          m\<lparr>sm_byToken := (sm_byToken m)(token := None),
            sm_byAccountID := (sm_byAccountID m)(ses_AccountID session := None),
            sm_byPlayerID := (sm_byPlayerID m)(ses_PlayerID session := None),
            sm_byConnID :=
              (if ses_Bound session \<and> sm_byConnID m (ses_ConnID session) = Some token
               then (sm_byConnID m)(ses_ConnID session := None) else sm_byConnID m)\<rparr>)"

text \<open>The logout operations return a pointer, nil when the index points to no session.\<close>

definition LogoutByToken :: "Manager \<Rightarrow> string \<Rightarrow> Session option res \<times> Manager" where
  "LogoutByToken m token =
     (case sm_byToken m token of
        None \<Rightarrow> (Inl (Err ''session not found''), m)
      | Some session \<Rightarrow> (Inr (Some session), removeLocked token m))"

definition LogoutByConnID :: "Manager \<Rightarrow> u32 \<Rightarrow> Session option res \<times> Manager" where
  "LogoutByConnID m connID =
     (case sm_byConnID m connID of
        None \<Rightarrow> (Inl (Err ''session not found''), m)
      | Some token \<Rightarrow> (Inr (sm_byToken m token), removeLocked token m))"

definition Len :: "Manager \<Rightarrow> nat" where
  "Len m = map_len (sm_byToken m)"

definition observeLegacyID :: "u64 \<Rightarrow> Manager \<Rightarrow> Manager" where
  "observeLegacyID i m =
     (case sm_legacy m of
        None \<Rightarrow> m
      | Some current \<Rightarrow> if current < i then m\<lparr>sm_legacy := Some i\<rparr> else m)"

definition Issue ::
    "Manager \<Rightarrow> string \<Rightarrow> u64 \<Rightarrow> duration \<Rightarrow> bytes res \<Rightarrow> gotime \<Rightarrow> (Session \<times> Session option) res \<times> Manager" where
  "Issue m accountID playerID ttl random now =
     (if accountID = '''' \<or> playerID = 0 \<or> ttl \<le> 0
      then (Inl (Err ''invalid session identity or lifetime''), m)
      else
        (case createToken random of
           Inl err \<Rightarrow> (Inl err, m)
         | Inr token \<Rightarrow>
             let value = \<lparr> ses_Token = token, ses_AccountID = accountID, ses_PlayerID = playerID,
                           ses_ConnID = 0, ses_Bound = False, ses_ExpiresAt = now + ttl,
                           ses_CreatedAt = now, ses_UpdatedAt = now \<rparr>;
                 insert_new = (\<lambda>replaced m1.
                   (Inr (value, replaced),
                    observeLegacyID playerID
                      (m1\<lparr>sm_byToken := (sm_byToken m1)(token \<mapsto> value),
                          sm_byAccountID := (sm_byAccountID m1)(accountID \<mapsto> token),
                          sm_byPlayerID := (sm_byPlayerID m1)(playerID \<mapsto> token)\<rparr>)));
                 by_account = (\<lambda>_::unit.
                   (case sm_byAccountID m accountID of
                      None \<Rightarrow> insert_new None m
                    | Some oldToken \<Rightarrow>
                        (case sm_byToken m oldToken of
                           None \<Rightarrow>
                             if sm_accountPolicy m = RejectExisting then (Inl nil_deref, m)
                             else insert_new None (removeLocked oldToken m)
                         | Some old \<Rightarrow>
                             if sm_accountPolicy m = RejectExisting \<and> \<not> expired old now
                             then (Inl ErrAccountActive, m)
                             else insert_new (Some old) (removeLocked oldToken m))))
             in (case sm_byPlayerID m playerID of
                   None \<Rightarrow> by_account ()
                 | Some oldToken \<Rightarrow>
                     (case sm_byToken m oldToken of
                        None \<Rightarrow> (Inl nil_deref, m)
                      | Some old \<Rightarrow>
                          if ses_AccountID old \<noteq> accountID
                          then (Inl (Err ''player belongs to another account''), m)
                          else by_account ()))))"

definition Bind :: "Manager \<Rightarrow> string \<Rightarrow> u32 \<Rightarrow> gotime \<Rightarrow> gotime \<Rightarrow> Session res \<times> Manager" where
  "Bind m token connID now1 now2 =
     (case sm_byToken m token of
        None \<Rightarrow> (Inl (Err ''invalid or expired token''), m)
      | Some value \<Rightarrow>
          if expired value now1 then (Inl (Err ''invalid or expired token''), m)
          else if ses_Bound value \<and> ses_ConnID value \<noteq> connID
          then (Inl (Err ''token already bound''), m)
          else if sm_byConnID m connID \<noteq> None \<and> sm_byConnID m connID \<noteq> Some token
          then (Inl (Err ''connection already authenticated''), m)
          else
            let value' = value\<lparr>ses_ConnID := connID, ses_Bound := True, ses_UpdatedAt := now2\<rparr>
            in (Inr value',
                m\<lparr>sm_byToken := (sm_byToken m)(token \<mapsto> value'),
                  sm_byConnID := (sm_byConnID m)(connID \<mapsto> token)\<rparr>))"

text \<open>\<open>RemoveExpired\<close> ranges over the token table; \<open>order\<close> is the order of that iteration.\<close>

fun removeExpiredLoop :: "gotime \<Rightarrow> string list \<Rightarrow> Session list \<times> Manager \<Rightarrow> Session list \<times> Manager" where
  "removeExpiredLoop now [] (removed, m) = (removed, m)"
| "removeExpiredLoop now (token # tokens) (removed, m) =
     (case sm_byToken m token of
        None \<Rightarrow> removeExpiredLoop now tokens (removed, m)
      | Some value \<Rightarrow>
          if expired value now
          then removeExpiredLoop now tokens (removed @ [value], removeLocked token m)
          else removeExpiredLoop now tokens (removed, m))"

definition RemoveExpired :: "string list \<Rightarrow> gotime \<Rightarrow> Manager \<Rightarrow> Session list \<times> Manager" where
  "RemoveExpired order now m = removeExpiredLoop now order ([], m)"

subsection \<open>The deprecated automatic numbering\<close>

definition NewManager :: "u64 \<Rightarrow> Manager" where
  "NewManager startPlayerID = (projr (New ReplaceExisting))\<lparr>sm_legacy := Some startPlayerID\<rparr>"

definition Login ::
    "Manager \<Rightarrow> string \<Rightarrow> u32 \<Rightarrow> bytes res \<Rightarrow> gotime \<Rightarrow> (Session \<times> Session option) res \<times> Manager" where
  "Login m accountID connID random now =
     (case sm_legacy m of
        None \<Rightarrow> (Inl (Err ''automatic player IDs require the deprecated NewManager constructor''), m)
      | Some nextPlayerID \<Rightarrow>
          if accountID = '''' then (Inl (Err ''account id is empty''), m)
          else
            (case createToken random of
               Inl err \<Rightarrow> (Inl err, m)
             | Inr token \<Rightarrow>
                 let playerID = nextPlayerID + 1;
                     session = \<lparr> ses_Token = token, ses_AccountID = accountID,
                       ses_PlayerID = playerID, ses_ConnID = connID, ses_Bound = True,
                       ses_ExpiresAt = 0, ses_CreatedAt = now, ses_UpdatedAt = now \<rparr>;
                     m0 = m\<lparr>sm_legacy := Some playerID\<rparr>;
                     (replaced, m1) =
                       (case sm_byAccountID m0 accountID of
                          None \<Rightarrow> (None, m0)
                        | Some oldToken \<Rightarrow> (sm_byToken m0 oldToken, removeLocked oldToken m0));
                     m2 = (case sm_byConnID m1 connID of
                             None \<Rightarrow> m1
                           | Some oldToken \<Rightarrow> removeLocked oldToken m1)
                 in (Inr (session, replaced),
                     m2\<lparr>sm_byToken := (sm_byToken m2)(token \<mapsto> session),
                        sm_byAccountID := (sm_byAccountID m2)(accountID \<mapsto> token),
                        sm_byPlayerID := (sm_byPlayerID m2)(playerID \<mapsto> token),
                        sm_byConnID := (sm_byConnID m2)(connID \<mapsto> token)\<rparr>)))"

section \<open>The invariant\<close>

text \<open>
  The indexes contain exactly the sessions of the token table: every stored session is found by its
  token, account, player and (once bound) connection, and every index entry leads to a session with
  that key. With automatic numbering, no stored player is above the counter.
\<close>

definition session_inv :: "Manager \<Rightarrow> bool" where
  "session_inv m \<longleftrightarrow> finite (dom (sm_byToken m))
     \<and> (\<forall>t s. sm_byToken m t = Some s \<longrightarrow> ses_Token s = t
          \<and> sm_byAccountID m (ses_AccountID s) = Some t
          \<and> sm_byPlayerID m (ses_PlayerID s) = Some t
          \<and> (ses_Bound s \<longrightarrow> sm_byConnID m (ses_ConnID s) = Some t))
     \<and> (\<forall>a t. sm_byAccountID m a = Some t \<longrightarrow> (\<exists>s. sm_byToken m t = Some s \<and> ses_AccountID s = a))
     \<and> (\<forall>p t. sm_byPlayerID m p = Some t \<longrightarrow> (\<exists>s. sm_byToken m t = Some s \<and> ses_PlayerID s = p))
     \<and> (\<forall>c t. sm_byConnID m c = Some t \<longrightarrow>
          (\<exists>s. sm_byToken m t = Some s \<and> ses_Bound s \<and> ses_ConnID s = c))
     \<and> (\<forall>n p. sm_legacy m = Some n \<longrightarrow> p \<in> dom (sm_byPlayerID m) \<longrightarrow> p \<le> n)"

lemma session_invD:
  assumes "session_inv m"
  shows "finite (dom (sm_byToken m))"
    "sm_byToken m t = Some s \<Longrightarrow> ses_Token s = t"
    "sm_byToken m t = Some s \<Longrightarrow> sm_byAccountID m (ses_AccountID s) = Some t"
    "sm_byToken m t = Some s \<Longrightarrow> sm_byPlayerID m (ses_PlayerID s) = Some t"
    "sm_byToken m t = Some s \<Longrightarrow> ses_Bound s \<Longrightarrow> sm_byConnID m (ses_ConnID s) = Some t"
    "sm_byAccountID m a = Some t \<Longrightarrow> \<exists>s. sm_byToken m t = Some s \<and> ses_AccountID s = a"
    "sm_byPlayerID m p = Some t \<Longrightarrow> \<exists>s. sm_byToken m t = Some s \<and> ses_PlayerID s = p"
    "sm_byConnID m c = Some t \<Longrightarrow> \<exists>s. sm_byToken m t = Some s \<and> ses_Bound s \<and> ses_ConnID s = c"
    "sm_legacy m = Some n \<Longrightarrow> p \<in> dom (sm_byPlayerID m) \<Longrightarrow> p \<le> n"
  using assms unfolding session_inv_def by blast+

lemma session_invI:
  assumes "finite (dom (sm_byToken m))"
    and "\<And>t s. sm_byToken m t = Some s \<Longrightarrow> ses_Token s = t"
    and "\<And>t s. sm_byToken m t = Some s \<Longrightarrow> sm_byAccountID m (ses_AccountID s) = Some t"
    and "\<And>t s. sm_byToken m t = Some s \<Longrightarrow> sm_byPlayerID m (ses_PlayerID s) = Some t"
    and "\<And>t s. sm_byToken m t = Some s \<Longrightarrow> ses_Bound s \<Longrightarrow> sm_byConnID m (ses_ConnID s) = Some t"
    and "\<And>a t. sm_byAccountID m a = Some t \<Longrightarrow> \<exists>s. sm_byToken m t = Some s \<and> ses_AccountID s = a"
    and "\<And>p t. sm_byPlayerID m p = Some t \<Longrightarrow> \<exists>s. sm_byToken m t = Some s \<and> ses_PlayerID s = p"
    and "\<And>c t. sm_byConnID m c = Some t \<Longrightarrow>
      \<exists>s. sm_byToken m t = Some s \<and> ses_Bound s \<and> ses_ConnID s = c"
    and "\<And>n p. sm_legacy m = Some n \<Longrightarrow> p \<in> dom (sm_byPlayerID m) \<Longrightarrow> p \<le> n"
  shows "session_inv m"
  using assms unfolding session_inv_def by blast

lemma New_Inr:
  "New pol = Inr m \<Longrightarrow> m = \<lparr> sm_legacy = None, sm_accountPolicy = pol, sm_byToken = Map.empty,
     sm_byAccountID = Map.empty, sm_byPlayerID = Map.empty, sm_byConnID = Map.empty \<rparr>"
  by (auto simp: New_def split: if_splits)

lemma session_inv_New: "New pol = Inr m \<Longrightarrow> session_inv m"
  by (auto dest!: New_Inr simp: session_inv_def)

lemma session_inv_NewManager: "session_inv (NewManager n)"
  by (simp add: NewManager_def New_def session_inv_def)

lemma session_eq_by_index:
  assumes "session_inv m" "sm_byToken m t = Some s" "sm_byToken m t' = Some s'"
    and "ses_AccountID s = ses_AccountID s' \<or> ses_PlayerID s = ses_PlayerID s'
      \<or> (ses_Bound s \<and> ses_Bound s' \<and> ses_ConnID s = ses_ConnID s')"
  shows "t = t'"
  using assms(4) session_invD(3-5) [OF assms(1,2)] session_invD(3-5) [OF assms(1,3)] by auto

subsection \<open>Removing one session\<close>

lemma removeLocked_eq:
  assumes "session_inv m" "sm_byToken m t = Some s"
  shows "removeLocked t m = m\<lparr>sm_byToken := (sm_byToken m)(t := None),
     sm_byAccountID := (sm_byAccountID m)(ses_AccountID s := None),
     sm_byPlayerID := (sm_byPlayerID m)(ses_PlayerID s := None),
     sm_byConnID := (if ses_Bound s then (sm_byConnID m)(ses_ConnID s := None) else sm_byConnID m)\<rparr>"
  using session_invD(5) [OF assms] by (simp add: removeLocked_def assms(2))

lemma removeLocked_byToken [simp]:
  "sm_byToken (removeLocked t m) = (sm_byToken m)(t := None)"
  by (cases "sm_byToken m t") (auto simp: removeLocked_def)

lemma removeLocked_frame [simp]:
  "sm_legacy (removeLocked t m) = sm_legacy m"
  "sm_accountPolicy (removeLocked t m) = sm_accountPolicy m"
  by (auto simp: removeLocked_def split: option.splits)

lemma session_inv_removeLocked:
  assumes inv: "session_inv m"
  shows "session_inv (removeLocked t m)"
proof (cases "sm_byToken m t")
  case None
  with inv show ?thesis by (simp add: removeLocked_def)
next
  case (Some s)
  note rm = removeLocked_eq [OF inv Some]
  have other: "u \<noteq> t \<Longrightarrow> ses_AccountID v \<noteq> ses_AccountID s"
      "u \<noteq> t \<Longrightarrow> ses_PlayerID v \<noteq> ses_PlayerID s"
      "u \<noteq> t \<Longrightarrow> ses_Bound v \<Longrightarrow> ses_Bound s \<Longrightarrow> ses_ConnID v \<noteq> ses_ConnID s"
    if "sm_byToken m u = Some v" for u v
    using session_eq_by_index [OF inv that Some] by auto
  show ?thesis
  proof (rule session_invI)
    show "finite (dom (sm_byToken (removeLocked t m)))"
      using session_invD(1) [OF inv] by simp
  next
    fix n p assume "sm_legacy (removeLocked t m) = Some n" "p \<in> dom (sm_byPlayerID (removeLocked t m))"
    then show "p \<le> n"
      using session_invD(9) [OF inv] by (auto simp: rm split: if_splits)
  next
    fix a u assume "sm_byAccountID (removeLocked t m) a = Some u"
    then show "\<exists>s. sm_byToken (removeLocked t m) u = Some s \<and> ses_AccountID s = a"
      using session_invD(6) [OF inv, of a u] Some by (auto simp: rm split: if_splits)
  next
    fix p u assume "sm_byPlayerID (removeLocked t m) p = Some u"
    then show "\<exists>s. sm_byToken (removeLocked t m) u = Some s \<and> ses_PlayerID s = p"
      using session_invD(7) [OF inv, of p u] Some by (auto simp: rm split: if_splits)
  next
    fix c u assume "sm_byConnID (removeLocked t m) c = Some u"
    then show "\<exists>s. sm_byToken (removeLocked t m) u = Some s \<and> ses_Bound s \<and> ses_ConnID s = c"
      using session_invD(8) [OF inv, of c u] Some by (auto simp: rm split: if_splits)
  next
    fix u v assume "sm_byToken (removeLocked t m) u = Some v" "ses_Bound v"
    then show "sm_byConnID (removeLocked t m) (ses_ConnID v) = Some u"
      using session_invD(5) [OF inv, of u v] other(3) [of u v] by (auto simp: rm split: if_splits)
  qed (use session_invD(2-4) [OF inv] other(1,2) in \<open>auto simp: rm split: if_splits\<close>)
qed

subsection \<open>Adding one session\<close>

definition put_session :: "Session \<Rightarrow> Manager \<Rightarrow> Manager" where
  "put_session s m = m\<lparr>sm_byToken := (sm_byToken m)(ses_Token s \<mapsto> s),
     sm_byAccountID := (sm_byAccountID m)(ses_AccountID s \<mapsto> ses_Token s),
     sm_byPlayerID := (sm_byPlayerID m)(ses_PlayerID s \<mapsto> ses_Token s),
     sm_byConnID := (if ses_Bound s then (sm_byConnID m)(ses_ConnID s \<mapsto> ses_Token s)
                     else sm_byConnID m)\<rparr>"

lemma session_inv_put:
  assumes inv: "session_inv m"
    and fresh: "sm_byToken m (ses_Token s) = None" "sm_byAccountID m (ses_AccountID s) = None"
      "sm_byPlayerID m (ses_PlayerID s) = None" "ses_Bound s \<Longrightarrow> sm_byConnID m (ses_ConnID s) = None"
    and legacy: "\<And>n. sm_legacy m = Some n \<Longrightarrow> ses_PlayerID s \<le> n"
  shows "session_inv (put_session s m)"
  unfolding session_inv_def put_session_def
  using session_invD [OF inv] fresh legacy
  by (auto split: if_splits; metis option.distinct(1))

lemma put_session_frame [simp]:
  "sm_legacy (put_session s m) = sm_legacy m"
  "sm_accountPolicy (put_session s m) = sm_accountPolicy m"
  "sm_byToken (put_session s m) = (sm_byToken m)(ses_Token s \<mapsto> s)"
  by (simp_all add: put_session_def)

lemma observeLegacyID_frame [simp]:
  "sm_byToken (observeLegacyID i m) = sm_byToken m"
  "sm_byAccountID (observeLegacyID i m) = sm_byAccountID m"
  "sm_byPlayerID (observeLegacyID i m) = sm_byPlayerID m"
  "sm_byConnID (observeLegacyID i m) = sm_byConnID m"
  "sm_accountPolicy (observeLegacyID i m) = sm_accountPolicy m"
  by (auto simp: observeLegacyID_def split: option.splits)

lemma observeLegacyID_put: "observeLegacyID i (put_session s m) = put_session s (observeLegacyID i m)"
  by (auto simp: observeLegacyID_def put_session_def split: option.splits)

lemma session_inv_observe:
  assumes "session_inv m"
  shows "session_inv (observeLegacyID i m)"
proof (cases "sm_legacy m")
  case None
  with assms show ?thesis by (simp add: observeLegacyID_def)
next
  case (Some n)
  with assms show ?thesis
    by (auto simp: observeLegacyID_def session_inv_def intro: order_trans less_imp_le)
qed

text \<open>The manager without the session of an account.\<close>

definition drop_account :: "string \<Rightarrow> Manager \<Rightarrow> Manager" where
  "drop_account a m = (case sm_byAccountID m a of None \<Rightarrow> m | Some t \<Rightarrow> removeLocked t m)"

definition session_of_account :: "string \<Rightarrow> Manager \<Rightarrow> Session option" where
  "session_of_account a m = (case sm_byAccountID m a of None \<Rightarrow> None | Some t \<Rightarrow> sm_byToken m t)"

lemma session_inv_drop_account: "session_inv m \<Longrightarrow> session_inv (drop_account a m)"
  by (auto simp: drop_account_def session_inv_removeLocked split: option.splits)

lemma drop_account_lookup:
  assumes inv: "session_inv m"
  shows "sm_byAccountID (drop_account a m) a = None"
    "sm_byToken (drop_account a m) t = (case sm_byToken m t of
       Some s \<Rightarrow> if ses_AccountID s = a then None else Some s | None \<Rightarrow> None)"
proof -
  show "sm_byAccountID (drop_account a m) a = None"
    using session_invD(6) [OF inv, of a]
    by (auto simp: drop_account_def removeLocked_def split: option.splits)
  show "sm_byToken (drop_account a m) t = (case sm_byToken m t of
       Some s \<Rightarrow> if ses_AccountID s = a then None else Some s | None \<Rightarrow> None)"
    using session_invD(3,6) [OF inv, of t] session_invD(6) [OF inv, of a]
    by (fastforce simp: drop_account_def split: option.splits)
qed

lemma drop_account_byPlayerID:
  assumes inv: "session_inv m"
    and own: "\<And>t s. sm_byPlayerID m p = Some t \<Longrightarrow> sm_byToken m t = Some s \<Longrightarrow> ses_AccountID s = a"
  shows "sm_byPlayerID (drop_account a m) p = None"
proof (rule ccontr)
  assume "\<not> ?thesis"
  then obtain t where t: "sm_byPlayerID (drop_account a m) p = Some t" by auto
  then obtain s where s: "sm_byToken (drop_account a m) t = Some s" "ses_PlayerID s = p"
    using session_invD(7) [OF session_inv_drop_account [OF inv]] by blast
  then have "sm_byToken m t = Some s" "ses_AccountID s \<noteq> a"
    by (auto simp: drop_account_lookup [OF inv] split: option.splits if_splits)
  with own session_invD(4) [OF inv] s(2) show False by blast
qed

section \<open>Issue\<close>

definition fresh_session :: "string \<Rightarrow> string \<Rightarrow> u64 \<Rightarrow> duration \<Rightarrow> gotime \<Rightarrow> Session" where
  "fresh_session token accountID playerID ttl now =
     \<lparr> ses_Token = token, ses_AccountID = accountID, ses_PlayerID = playerID, ses_ConnID = 0,
       ses_Bound = False, ses_ExpiresAt = now + ttl, ses_CreatedAt = now, ses_UpdatedAt = now \<rparr>"

lemma Issue_Inl: "Issue m a p ttl random now = (Inl e, m') \<Longrightarrow> m' = m"
  by (auto simp: Issue_def Let_def split: if_splits sum.splits option.splits)

text \<open>The outcome of \<open>Issue\<close> on a consistent manager, branch by branch.\<close>

lemma Issue_cases:
  assumes inv: "session_inv m"
  shows "Issue m a p ttl random now =
     (if a = '''' \<or> p = 0 \<or> ttl \<le> 0 then (Inl (Err ''invalid session identity or lifetime''), m)
      else case createToken random of
        Inl err \<Rightarrow> (Inl err, m)
      | Inr token \<Rightarrow>
          if \<exists>t s. sm_byToken m t = Some s \<and> ses_PlayerID s = p \<and> ses_AccountID s \<noteq> a
          then (Inl (Err ''player belongs to another account''), m)
          else if sm_accountPolicy m = RejectExisting
               \<and> (\<exists>s. session_of_account a m = Some s \<and> \<not> expired s now)
          then (Inl ErrAccountActive, m)
          else (Inr (fresh_session token a p ttl now, session_of_account a m),
                observeLegacyID p (put_session (fresh_session token a p ttl now) (drop_account a m))))"
proof -
  have conflict: "(\<exists>t s. sm_byToken m t = Some s \<and> ses_PlayerID s = p \<and> ses_AccountID s \<noteq> a)
      \<longleftrightarrow> (\<exists>t s. sm_byPlayerID m p = Some t \<and> sm_byToken m t = Some s \<and> ses_AccountID s \<noteq> a)"
    using session_invD(4,7) [OF inv] by fastforce
  have player: "\<exists>s. sm_byToken m t = Some s" if "sm_byPlayerID m p = Some t" for t
    using session_invD(7) [OF inv that] by blast
  have account: "\<exists>s. sm_byToken m t = Some s" if "sm_byAccountID m a = Some t" for t
    using session_invD(6) [OF inv that] by blast
  show ?thesis
    unfolding conflict
    using player account
    by (cases "sm_byPlayerID m p"; cases "sm_byAccountID m a")
       (auto simp: Issue_def Let_def session_of_account_def drop_account_def put_session_def
          fresh_session_def split: sum.splits)
qed

lemma fresh_session_sel [simp]:
  "ses_Token (fresh_session token a p ttl now) = token"
  "ses_AccountID (fresh_session token a p ttl now) = a"
  "ses_PlayerID (fresh_session token a p ttl now) = p"
  "ses_Bound (fresh_session token a p ttl now) = False"
  "ses_ExpiresAt (fresh_session token a p ttl now) = now + ttl"
  by (simp_all add: fresh_session_def)

lemma Issue_Inr:
  assumes "session_inv m" "Issue m a p ttl random now = (Inr (s, replaced), m')"
  obtains token where "createToken random = Inr token" "0 < ttl"
    "s = fresh_session token a p ttl now" "replaced = session_of_account a m"
    "sm_byToken m' = (sm_byToken (drop_account a m))(token \<mapsto> s)"
  using assms(2) that unfolding Issue_cases [OF assms(1)]
  by (auto split: if_splits sum.splits)

lemma session_inv_Issue:
  assumes inv: "session_inv m" and issue: "Issue m a p ttl random now = (r, m')"
    and fresh: "\<And>token. createToken random = Inr token \<Longrightarrow> sm_byToken m token = None"
  shows "session_inv m'"
proof (cases r)
  case (Inl e)
  with issue inv show ?thesis by (auto dest: Issue_Inl)
next
  case (Inr out)
  then obtain token where token: "createToken random = Inr token"
    and own: "\<not> (\<exists>t s. sm_byToken m t = Some s \<and> ses_PlayerID s = p \<and> ses_AccountID s \<noteq> a)"
    and m': "m' = put_session (fresh_session token a p ttl now) (observeLegacyID p (drop_account a m))"
    using issue unfolding Issue_cases [OF inv] observeLegacyID_put
    by (auto split: if_splits sum.splits)
  show ?thesis
    unfolding m'
  proof (rule session_inv_put)
    show "session_inv (observeLegacyID p (drop_account a m))"
      by (intro session_inv_observe session_inv_drop_account inv)
    show "sm_byToken (observeLegacyID p (drop_account a m)) (ses_Token (fresh_session token a p ttl now)) = None"
      using fresh [OF token] by (simp add: drop_account_lookup [OF inv] fresh_session_def)
    show "sm_byPlayerID (observeLegacyID p (drop_account a m)) (ses_PlayerID (fresh_session token a p ttl now)) = None"
      using own by (auto simp: fresh_session_def intro!: drop_account_byPlayerID [OF inv]
          dest: session_invD(7) [OF inv])
    show "ses_PlayerID (fresh_session token a p ttl now) \<le> n"
      if "sm_legacy (observeLegacyID p (drop_account a m)) = Some n" for n
      using that by (auto simp: observeLegacyID_def fresh_session_def split: option.splits if_splits)
  qed (simp_all add: drop_account_lookup [OF inv] fresh_session_def)
qed

section \<open>Bind, Touch, Logout, RemoveExpired and Login\<close>

lemma Bind_Inl: "Bind m token c now1 now2 = (Inl e, m') \<Longrightarrow> m' = m"
  by (auto simp: Bind_def Let_def split: if_splits option.splits)

lemma Bind_Inr:
  assumes "Bind m token c now1 now2 = (Inr s', m')"
  obtains s where "sm_byToken m token = Some s" "\<not> expired s now1"
    "ses_Bound s \<Longrightarrow> ses_ConnID s = c" "sm_byConnID m c \<in> {None, Some token}"
    "s' = s\<lparr>ses_ConnID := c, ses_Bound := True, ses_UpdatedAt := now2\<rparr>"
    "m' = m\<lparr>sm_byToken := (sm_byToken m)(token \<mapsto> s'), sm_byConnID := (sm_byConnID m)(c \<mapsto> token)\<rparr>"
  using assms by (auto simp: Bind_def Let_def split: if_splits option.splits)

lemma session_inv_Bind:
  assumes inv: "session_inv m" and bind: "Bind m token c now1 now2 = (r, m')"
  shows "session_inv m'"
proof (cases r)
  case (Inl e)
  with bind inv show ?thesis by (auto dest: Bind_Inl)
next
  case (Inr s')
  with bind obtain s where s: "sm_byToken m token = Some s" "ses_Bound s \<Longrightarrow> ses_ConnID s = c"
      "sm_byConnID m c \<in> {None, Some token}"
      "s' = s\<lparr>ses_ConnID := c, ses_Bound := True, ses_UpdatedAt := now2\<rparr>"
      "m' = m\<lparr>sm_byToken := (sm_byToken m)(token \<mapsto> s'), sm_byConnID := (sm_byConnID m)(c \<mapsto> token)\<rparr>"
    by (auto elim: Bind_Inr)
  show ?thesis
  proof (rule session_invI)
    fix c' u assume "sm_byConnID m' c' = Some u"
    then show "\<exists>v. sm_byToken m' u = Some v \<and> ses_Bound v \<and> ses_ConnID v = c'"
      using session_invD(8) [OF inv, of c' u] s by (auto split: if_splits)
  next
    fix u v assume "sm_byToken m' u = Some v" "ses_Bound v"
    then show "sm_byConnID m' (ses_ConnID v) = Some u"
      using session_invD(5) [OF inv, of u v] s by (auto split: if_splits)
  next
    fix a u assume "sm_byAccountID m' a = Some u"
    then show "\<exists>v. sm_byToken m' u = Some v \<and> ses_AccountID v = a"
      using session_invD(6) [OF inv, of a u] s by auto
  next
    fix p u assume "sm_byPlayerID m' p = Some u"
    then show "\<exists>v. sm_byToken m' u = Some v \<and> ses_PlayerID v = p"
      using session_invD(7) [OF inv, of p u] s by auto
  qed (use session_invD(1-4,9) [OF inv] s in \<open>auto split: if_splits\<close>)
qed

lemma session_inv_Touch:
  assumes inv: "session_inv m" and touch: "Touch m token now1 now2 = (r, m')"
  shows "session_inv m'"
proof (cases "m' = m")
  case True
  with inv show ?thesis by simp
next
  case False
  with touch obtain s where s: "sm_byToken m token = Some s"
      "m' = m\<lparr>sm_byToken := (sm_byToken m)(token \<mapsto> s\<lparr>ses_UpdatedAt := now2\<rparr>)\<rparr>"
    by (auto simp: Touch_def split: option.splits if_splits)
  show ?thesis
    using session_invD [OF inv] s unfolding session_inv_def
    by (auto split: if_splits) (metis option.inject)+
qed

lemma session_inv_LogoutByToken:
  "session_inv m \<Longrightarrow> LogoutByToken m token = (r, m') \<Longrightarrow> session_inv m'"
  by (auto simp: LogoutByToken_def session_inv_removeLocked split: option.splits)

lemma session_inv_LogoutByConnID:
  "session_inv m \<Longrightarrow> LogoutByConnID m c = (r, m') \<Longrightarrow> session_inv m'"
  by (auto simp: LogoutByConnID_def session_inv_removeLocked split: option.splits)

lemma removeExpiredLoop_spec:
  assumes "session_inv m" "distinct order"
  shows "\<exists>m'. removeExpiredLoop now order (removed, m) =
       (removed @ map (\<lambda>t. the (sm_byToken m t))
          (filter (\<lambda>t. \<exists>s. sm_byToken m t = Some s \<and> expired s now) order), m')
     \<and> session_inv m' \<and> sm_accountPolicy m' = sm_accountPolicy m
     \<and> sm_byToken m' = (\<lambda>t. case sm_byToken m t of
          Some s \<Rightarrow> if t \<in> set order \<and> expired s now then None else Some s | None \<Rightarrow> None)"
  using assms
proof (induction order arbitrary: removed m)
  case Nil
  show ?case
    using Nil.prems by (auto simp: fun_eq_iff split: option.splits)
next
  case (Cons t order)
  show ?case
  proof (cases "\<exists>s. sm_byToken m t = Some s \<and> expired s now")
    case True
    then obtain s where s: "sm_byToken m t = Some s" "expired s now" by blast
    have filt: "filter (\<lambda>u. \<exists>s. sm_byToken (removeLocked t m) u = Some s \<and> expired s now) order
        = filter (\<lambda>u. \<exists>s. sm_byToken m u = Some s \<and> expired s now) order"
      by (rule filter_cong [OF refl]) (use Cons.prems(2) in auto)
    have vals: "map (\<lambda>u. the (sm_byToken (removeLocked t m) u))
          (filter (\<lambda>u. \<exists>s. sm_byToken m u = Some s \<and> expired s now) order)
        = map (\<lambda>u. the (sm_byToken m u)) (filter (\<lambda>u. \<exists>s. sm_byToken m u = Some s \<and> expired s now) order)"
      by (rule map_cong [OF refl]) (use Cons.prems(2) in auto)
    obtain m' where m': "removeExpiredLoop now order (removed @ [s], removeLocked t m)
          = ((removed @ [s]) @ map (\<lambda>u. the (sm_byToken m u))
              (filter (\<lambda>u. \<exists>s. sm_byToken m u = Some s \<and> expired s now) order), m')"
        "session_inv m'" "sm_accountPolicy m' = sm_accountPolicy m"
        "sm_byToken m' = (\<lambda>u. case sm_byToken (removeLocked t m) u of
            Some s \<Rightarrow> if u \<in> set order \<and> expired s now then None else Some s | None \<Rightarrow> None)"
      using Cons.IH [where removed = "removed @ [s]", OF session_inv_removeLocked [OF Cons.prems(1), of t]]
        Cons.prems(2) unfolding filt vals by auto
    have "sm_byToken m' = (\<lambda>u. case sm_byToken m u of
        Some v \<Rightarrow> if u \<in> set (t # order) \<and> expired v now then None else Some v | None \<Rightarrow> None)"
      using s by (intro ext) (simp add: m'(4) split: option.split)
    with m' s show ?thesis by auto
  next
    case False
    obtain m' where m': "removeExpiredLoop now order (removed, m)
          = (removed @ map (\<lambda>u. the (sm_byToken m u))
              (filter (\<lambda>u. \<exists>s. sm_byToken m u = Some s \<and> expired s now) order), m')"
        "session_inv m'" "sm_accountPolicy m' = sm_accountPolicy m"
        "sm_byToken m' = (\<lambda>u. case sm_byToken m u of
            Some s \<Rightarrow> if u \<in> set order \<and> expired s now then None else Some s | None \<Rightarrow> None)"
      using Cons.IH [OF Cons.prems(1), of removed] Cons.prems(2) by auto
    have "sm_byToken m' = (\<lambda>u. case sm_byToken m u of
        Some v \<Rightarrow> if u \<in> set (t # order) \<and> expired v now then None else Some v | None \<Rightarrow> None)"
      using False by (intro ext) (auto simp: m'(4) split: option.split)
    with m' False show ?thesis by (auto split: option.split)
  qed
qed

lemma RemoveExpired_spec:
  assumes "session_inv m" "map_order (sm_byToken m) order"
  obtains m' where
    "RemoveExpired order now m =
       (map (\<lambda>t. the (sm_byToken m t)) (filter (\<lambda>t. expired (the (sm_byToken m t)) now) order), m')"
    "session_inv m'" "sm_accountPolicy m' = sm_accountPolicy m"
    "sm_byToken m' = (\<lambda>t. case sm_byToken m t of
       Some s \<Rightarrow> if expired s now then None else Some s | None \<Rightarrow> None)"
proof -
  have ord: "distinct order" "t \<in> set order \<longleftrightarrow> (\<exists>s. sm_byToken m t = Some s)" for t
    using assms(2) by (auto simp: map_order_def)
  have filt: "filter (\<lambda>t. \<exists>s. sm_byToken m t = Some s \<and> expired s now) order
      = filter (\<lambda>t. expired (the (sm_byToken m t)) now) order"
    using ord(2) by (auto intro!: filter_cong)
  obtain m' where m': "RemoveExpired order now m =
       (map (\<lambda>t. the (sm_byToken m t)) (filter (\<lambda>t. expired (the (sm_byToken m t)) now) order), m')"
      "session_inv m'" "sm_accountPolicy m' = sm_accountPolicy m"
      "sm_byToken m' = (\<lambda>t. case sm_byToken m t of
          Some s \<Rightarrow> if t \<in> set order \<and> expired s now then None else Some s | None \<Rightarrow> None)"
    using removeExpiredLoop_spec [OF assms(1) ord(1), of now "[]"] unfolding filt RemoveExpired_def by auto
  from m'(4) ord(2) have "sm_byToken m' = (\<lambda>t. case sm_byToken m t of
       Some s \<Rightarrow> if expired s now then None else Some s | None \<Rightarrow> None)"
    by (auto simp: fun_eq_iff split: option.splits)
  with m'(1-3) show thesis by (rule that)
qed

definition drop_conn :: "u32 \<Rightarrow> Manager \<Rightarrow> Manager" where
  "drop_conn c m = (case sm_byConnID m c of None \<Rightarrow> m | Some t \<Rightarrow> removeLocked t m)"

lemma session_inv_drop_conn: "session_inv m \<Longrightarrow> session_inv (drop_conn c m)"
  by (auto simp: drop_conn_def session_inv_removeLocked split: option.splits)

lemma drop_conn_frame:
  assumes inv: "session_inv m"
  shows "sm_byConnID (drop_conn c m) c = None"
    "sm_byAccountID m a = None \<Longrightarrow> sm_byAccountID (drop_conn c m) a = None"
    "sm_byPlayerID m p = None \<Longrightarrow> sm_byPlayerID (drop_conn c m) p = None"
    "sm_byToken m t = None \<Longrightarrow> sm_byToken (drop_conn c m) t = None"
    "sm_legacy (drop_conn c m) = sm_legacy m"
  using session_invD(8) [OF inv, of c]
  by (auto simp: drop_conn_def removeLocked_def split: option.splits)

lemma Login_Inr:
  assumes "Login m a c random now = (Inr out, m')"
  obtains n token where "sm_legacy m = Some n" "createToken random = Inr token"
    "m' = put_session \<lparr> ses_Token = token, ses_AccountID = a, ses_PlayerID = n + 1, ses_ConnID = c,
        ses_Bound = True, ses_ExpiresAt = 0, ses_CreatedAt = now, ses_UpdatedAt = now \<rparr>
      (drop_conn c (drop_account a (m\<lparr>sm_legacy := Some (n + 1)\<rparr>)))"
  using assms
  by (auto simp: Login_def Let_def put_session_def drop_conn_def drop_account_def
      split: option.splits if_splits sum.splits prod.splits)

lemma session_inv_Login:
  assumes inv: "session_inv m" and login: "Login m a c random now = (r, m')"
    and fresh: "\<And>token. createToken random = Inr token \<Longrightarrow> sm_byToken m token = None"
    and room: "\<And>n. sm_legacy m = Some n \<Longrightarrow> n < n + 1"
  shows "session_inv m'"
proof (cases r)
  case (Inl e)
  with login inv show ?thesis
    by (auto simp: Login_def Let_def split: option.splits if_splits sum.splits prod.splits)
next
  case (Inr out)
  with login obtain n token where n: "sm_legacy m = Some n" and token: "createToken random = Inr token"
    and m': "m' = put_session \<lparr> ses_Token = token, ses_AccountID = a, ses_PlayerID = n + 1, ses_ConnID = c,
        ses_Bound = True, ses_ExpiresAt = 0, ses_CreatedAt = now, ses_UpdatedAt = now \<rparr>
      (drop_conn c (drop_account a (m\<lparr>sm_legacy := Some (n + 1)\<rparr>)))"
    by (auto elim: Login_Inr)
  let ?m0 = "m\<lparr>sm_legacy := Some (n + 1)\<rparr>"
  let ?m1 = "drop_account a ?m0"
  have inv0: "session_inv ?m0"
    using inv room [OF n] n by (auto simp: session_inv_def intro: order_trans less_imp_le)
  then have inv1: "session_inv ?m1" by (rule session_inv_drop_account)
  have player: "sm_byPlayerID ?m0 (n + 1) = None"
    using session_invD(9) [OF inv n] room [OF n] by (metis Manager.select_convs(5) Manager.surjective
        Manager.update_convs(1) domIff leD)
  then have player1: "sm_byPlayerID ?m1 (n + 1) = None"
    by (intro drop_account_byPlayerID [OF inv0]) auto
  have leg: "sm_legacy ?m1 = Some (n + 1)"
    by (simp add: drop_account_def split: option.splits)
  show ?thesis
    unfolding m'
    by (rule session_inv_put)
       (use fresh [OF token] player1 leg in
         \<open>simp_all add: session_inv_drop_conn [OF inv1] drop_conn_frame [OF inv1]
            drop_account_lookup [OF inv0]\<close>)
qed

section \<open>The manager as a step system\<close>

text \<open>
  One step is one method call. A token that \<open>createToken\<close> produces is new (24 random bytes), and
  the automatic numbering has not run through all 64-bit numbers.
\<close>

definition session_init :: "Manager \<Rightarrow> bool" where
  "session_init m \<longleftrightarrow> (\<exists>pol. New pol = Inr m) \<or> (\<exists>n. m = NewManager n)"

inductive session_step :: "Manager \<Rightarrow> Manager \<Rightarrow> bool" where
  issue: "\<lbrakk>\<And>token. createToken random = Inr token \<Longrightarrow> sm_byToken m token = None;
           Issue m a p ttl random now = (r, m')\<rbrakk> \<Longrightarrow> session_step m m'"
| bind: "Bind m token c now now' = (r', m') \<Longrightarrow> session_step m m'"
| touch: "Touch m token now now' = (e, m') \<Longrightarrow> session_step m m'"
| logout_token: "LogoutByToken m token = (l, m') \<Longrightarrow> session_step m m'"
| logout_conn: "LogoutByConnID m c = (l, m') \<Longrightarrow> session_step m m'"
| remove_expired: "\<lbrakk>map_order (sm_byToken m) order; RemoveExpired order now m = (gone, m')\<rbrakk>
     \<Longrightarrow> session_step m m'"
| login: "\<lbrakk>\<And>token. createToken random = Inr token \<Longrightarrow> sm_byToken m token = None;
           \<And>n. sm_legacy m = Some n \<Longrightarrow> n < n + 1;
           Login m a c random now = (r, m')\<rbrakk> \<Longrightarrow> session_step m m'"

interpretation sess: invariant_system session_init session_step session_inv
proof
  show "session_inv m" if "session_init m" for m
    using that by (auto simp: session_init_def session_inv_New session_inv_NewManager)
  show "session_inv m'" if "session_inv m" "session_step m m'" for m m'
    using that(2,1)
  proof cases
    case (remove_expired order now gone)
    then show ?thesis
      using RemoveExpired_spec [OF that(1) remove_expired(1), of now] by (metis snd_conv)
  qed (auto intro: session_inv_Issue session_inv_Bind session_inv_Touch session_inv_LogoutByToken
       session_inv_LogoutByConnID session_inv_Login)
qed

section \<open>Properties\<close>

lemma lookup_by_index:
  assumes inv: "session_inv m"
  shows "sm_byToken m t = Some s \<longleftrightarrow> s \<in> ran (sm_byToken m) \<and> ses_Token s = t"
    "(\<exists>t. sm_byConnID m c = Some t \<and> sm_byToken m t = Some s)
       \<longleftrightarrow> s \<in> ran (sm_byToken m) \<and> ses_Bound s \<and> ses_ConnID s = c"
    "(\<exists>t. sm_byPlayerID m p = Some t \<and> sm_byToken m t = Some s)
       \<longleftrightarrow> s \<in> ran (sm_byToken m) \<and> ses_PlayerID s = p"
proof -
  show "sm_byToken m t = Some s \<longleftrightarrow> s \<in> ran (sm_byToken m) \<and> ses_Token s = t"
    using session_invD(2) [OF inv] by (auto simp: ran_def)
  show "(\<exists>t. sm_byConnID m c = Some t \<and> sm_byToken m t = Some s)
      \<longleftrightarrow> s \<in> ran (sm_byToken m) \<and> ses_Bound s \<and> ses_ConnID s = c"
    using session_invD(5,8) [OF inv] by (fastforce simp: ran_def)
  show "(\<exists>t. sm_byPlayerID m p = Some t \<and> sm_byToken m t = Some s)
      \<longleftrightarrow> s \<in> ran (sm_byToken m) \<and> ses_PlayerID s = p"
    using session_invD(4,7) [OF inv] by (fastforce simp: ran_def)
qed

text \<open>C6: index coherence. After any sequence of calls the three lookups answer from one and the
  same set of sessions: by token, by connection and by player each finds exactly the unexpired session
  with that key, and no lookup ever follows a dangling index entry (no nil dereference).\<close>

theorem session_lookups_agree:
  assumes "reach session_init session_step m"
  shows "(GetByToken m t now = Inr s
            \<longleftrightarrow> s \<in> ran (sm_byToken m) \<and> ses_Token s = t \<and> \<not> expired s now)
       \<and> (GetByConnID m c now = Inr s
            \<longleftrightarrow> s \<in> ran (sm_byToken m) \<and> ses_Bound s \<and> ses_ConnID s = c \<and> \<not> expired s now)
       \<and> (GetByPlayerID m p now = Inr s
            \<longleftrightarrow> s \<in> ran (sm_byToken m) \<and> ses_PlayerID s = p \<and> \<not> expired s now)
       \<and> GetByConnID m c now \<noteq> Inl nil_deref \<and> GetByPlayerID m p now \<noteq> Inl nil_deref"
proof (intro conjI)
  have inv: "session_inv m" using assms by (rule sess.reach_inv)
  note idx = lookup_by_index [OF inv]
  show "GetByToken m t now = Inr s \<longleftrightarrow> s \<in> ran (sm_byToken m) \<and> ses_Token s = t \<and> \<not> expired s now"
    using idx(1) [of t s] by (auto simp: GetByToken_def split: option.splits)
  show "GetByConnID m c now = Inr s
      \<longleftrightarrow> s \<in> ran (sm_byToken m) \<and> ses_Bound s \<and> ses_ConnID s = c \<and> \<not> expired s now"
    using idx(2) [of c s] by (auto simp: GetByConnID_def split: option.splits)
  show "GetByPlayerID m p now = Inr s \<longleftrightarrow> s \<in> ran (sm_byToken m) \<and> ses_PlayerID s = p \<and> \<not> expired s now"
    using idx(3) [of p s] by (auto simp: GetByPlayerID_def split: option.splits)
  show "GetByConnID m c now \<noteq> Inl nil_deref"
    by (cases "sm_byConnID m c") (auto simp: GetByConnID_def dest!: session_invD(8) [OF inv] split: if_splits)
  show "GetByPlayerID m p now \<noteq> Inl nil_deref"
    by (cases "sm_byPlayerID m p") (auto simp: GetByPlayerID_def dest!: session_invD(7) [OF inv] split: if_splits)
qed

text \<open>A concrete manager: one account with one session, bound to connection 7.\<close>

definition demo_token :: string where
  "demo_token = hexEncode (replicate 24 0xA5)"

definition demo_session :: Session where
  "demo_session = (fresh_session demo_token ''alice'' 11 1000 5)
     \<lparr>ses_ConnID := 7, ses_Bound := True, ses_UpdatedAt := 6\<rparr>"

definition demo_manager :: Manager where
  "demo_manager = \<lparr> sm_legacy = None, sm_accountPolicy = ReplaceExisting,
     sm_byToken = [demo_token \<mapsto> demo_session], sm_byAccountID = [''alice'' \<mapsto> demo_token],
     sm_byPlayerID = [11 \<mapsto> demo_token], sm_byConnID = [7 \<mapsto> demo_token] \<rparr>"

lemma demo_reachable: "reach session_init session_step demo_manager"
proof -
  let ?m0 = "projr (New ReplaceExisting)"
  let ?r = "Inr (replicate 24 0xA5)"
  have "reach session_init session_step ?m0"
    by (rule reach_init) (auto simp: session_init_def New_def RejectExisting_def ReplaceExisting_def)
  moreover have "session_step ?m0 (snd (Issue ?m0 ''alice'' 11 1000 ?r 5))"
    by (rule session_step.issue) (simp_all add: New_def prod_eq_iff)
  ultimately have "reach session_init session_step (snd (Issue ?m0 ''alice'' 11 1000 ?r 5))"
    by (rule reach_step)
  moreover have "session_step (snd (Issue ?m0 ''alice'' 11 1000 ?r 5)) demo_manager"
    by (rule session_step.bind [where token = demo_token and c = 7 and now = 5 and now' = 6])
       (simp add: New_def Issue_def createToken_def Let_def Bind_def demo_manager_def demo_session_def
          demo_token_def fresh_session_def expired_def observeLegacyID_def RejectExisting_def
          ReplaceExisting_def)
  ultimately show ?thesis by (rule reach_step)
qed

lemma demo_tokens_differ: "hexEncode (replicate 24 1) \<noteq> demo_token"
  by code_simp

theorem session_lookups_agree_witness:
  "(GetByToken demo_manager demo_token 100 = Inr demo_session
     \<longleftrightarrow> demo_session \<in> ran (sm_byToken demo_manager) \<and> ses_Token demo_session = demo_token
         \<and> \<not> expired demo_session 100)
   \<and> GetByConnID demo_manager 7 100 \<noteq> Inl nil_deref"
  using session_lookups_agree [OF demo_reachable, of demo_token 100 demo_session 7] by blast

text \<open>a successful \<open>Issue\<close> leaves exactly one session for the account, the new one: its
  token resolves until it expires, the replaced session (returned to the caller) no longer resolves,
  and the sessions of all other accounts are unchanged.\<close>

theorem issue_replaces_account_session:
  assumes "reach session_init session_step m"
    and "Issue m a p ttl random now = (Inr (s, replaced), m')"
    and "\<And>token. createToken random = Inr token \<Longrightarrow> sm_byToken m token = None"
  shows "{v \<in> ran (sm_byToken m'). ses_AccountID v = a} = {s}
       \<and> GetByToken m' (ses_Token s) now = Inr s
       \<and> (\<forall>old. replaced = Some old \<longrightarrow>
            ses_AccountID old = a \<and> GetByToken m' (ses_Token old) now = Inl (Err ''session not found''))
       \<and> (\<forall>v. ses_AccountID v \<noteq> a \<longrightarrow> (v \<in> ran (sm_byToken m') \<longleftrightarrow> v \<in> ran (sm_byToken m)))"
proof -
  have inv: "session_inv m" using assms(1) by (rule sess.reach_inv)
  have inv': "session_inv m'" by (rule session_inv_Issue [OF inv assms(2,3)])
  obtain token where token: "createToken random = Inr token" and ttl: "0 < ttl"
    and s: "s = fresh_session token a p ttl now" "replaced = session_of_account a m"
    and m': "sm_byToken m' = (sm_byToken (drop_account a m))(token \<mapsto> s)"
    by (rule Issue_Inr [OF inv assms(2)])
  have s_a: "ses_AccountID s = a" "ses_Token s = token" "\<not> expired s now"
    using ttl by (simp_all add: s fresh_session_def expired_def)
  have look: "sm_byToken m' t = (if t = token then Some s else case sm_byToken m t of
      Some v \<Rightarrow> if ses_AccountID v = a then None else Some v | None \<Rightarrow> None)" for t
    by (simp add: m' drop_account_lookup [OF inv])
  have ran': "v \<in> ran (sm_byToken m') \<longleftrightarrow> v = s \<or> v \<in> ran (sm_byToken m) \<and> ses_AccountID v \<noteq> a" for v
  proof -
    have "sm_byToken m' t = Some v
        \<longleftrightarrow> t = token \<and> v = s \<or> t \<noteq> token \<and> sm_byToken m t = Some v \<and> ses_AccountID v \<noteq> a" for t
      by (auto simp: look split: option.splits)
    with assms(3) [OF token] have "(\<exists>t. sm_byToken m' t = Some v)
        \<longleftrightarrow> v = s \<or> (\<exists>t. sm_byToken m t = Some v) \<and> ses_AccountID v \<noteq> a"
      by (metis option.distinct(1))
    then show ?thesis
      by (simp add: ran_def)
  qed
  have old: "sm_byToken m (ses_Token old) = Some old \<and> ses_AccountID old = a" if "replaced = Some old" for old
  proof -
    from that s(2) obtain t where t: "sm_byAccountID m a = Some t" "sm_byToken m t = Some old"
      by (auto simp: session_of_account_def split: option.splits)
    with session_invD(6) [OF inv t(1)] session_invD(2) [OF inv t(2)] show ?thesis by auto
  qed
  show ?thesis
  proof (intro conjI allI impI)
    show "{v \<in> ran (sm_byToken m'). ses_AccountID v = a} = {s}"
      using ran' s_a(1) by blast
    show "GetByToken m' (ses_Token s) now = Inr s"
      using s_a by (simp add: GetByToken_def look)
    show "v \<in> ran (sm_byToken m') \<longleftrightarrow> v \<in> ran (sm_byToken m)" if "ses_AccountID v \<noteq> a" for v
      using ran' [of v] that s_a(1) by auto
    fix o1 assume o1: "replaced = Some o1"
    show "ses_AccountID o1 = a"
      using old [OF o1] by simp
    have "ses_Token o1 \<noteq> token"
      using old [OF o1] assms(3) [OF token] by auto
    with old [OF o1] show "GetByToken m' (ses_Token o1) now = Inl (Err ''session not found'')"
      by (simp add: GetByToken_def look)
  qed
qed

theorem issue_replaces_account_session_witness:
  "{v \<in> ran (sm_byToken (snd (Issue demo_manager ''alice'' 11 500 (Inr (replicate 24 1)) 20))).
      ses_AccountID v = ''alice''} = {fresh_session (hexEncode (replicate 24 1)) ''alice'' 11 500 20}"
proof -
  let ?r = "Inr (replicate 24 1)"
  let ?out = "Issue demo_manager ''alice'' 11 500 ?r 20"
  have new: "createToken ?r = Inr token \<Longrightarrow> sm_byToken demo_manager token = None" for token
    using demo_tokens_differ by (auto simp: createToken_def demo_manager_def)
  have "?out = (Inr (fresh_session (hexEncode (replicate 24 1)) ''alice'' 11 500 20, Some demo_session), snd ?out)"
    by (simp add: Issue_def createToken_def Let_def demo_manager_def demo_session_def fresh_session_def
        RejectExisting_def ReplaceExisting_def)
  from issue_replaces_account_session [OF demo_reachable this new] show ?thesis
    by blast
qed

text \<open>under \<open>RejectExisting\<close> an account with an unexpired session cannot log in again: \<open>Issue\<close>
  fails with \<open>ErrAccountActive\<close> and changes nothing, so the active session keeps working.\<close>

theorem issue_rejects_active_account:
  assumes "reach session_init session_step m" and "sm_accountPolicy m = RejectExisting"
    and "v \<in> ran (sm_byToken m)" and "\<not> expired v now"
    and "ses_AccountID v = a" and "a \<noteq> ''''" and "ses_PlayerID v = p" and "p \<noteq> 0" and "0 < ttl"
    and "createToken random = Inr token"
  shows "Issue m a p ttl random now = (Inl ErrAccountActive, m)"
proof -
  have inv: "session_inv m" using assms(1) by (rule sess.reach_inv)
  obtain t where t: "sm_byToken m t = Some v" using assms(3) by (auto simp: ran_def)
  have "session_of_account a m = Some v"
    using session_invD(3) [OF inv t] t assms(5) by (simp add: session_of_account_def)
  moreover have "\<not> (\<exists>t s. sm_byToken m t = Some s \<and> ses_PlayerID s = p \<and> ses_AccountID s \<noteq> a)"
    using session_eq_by_index [OF inv t] t assms(5,7) by (metis option.inject)
  ultimately show ?thesis
    using assms by (simp add: Issue_cases [OF inv])
qed

definition demo_rejecting :: Manager where
  "demo_rejecting = snd (Issue (projr (New RejectExisting)) ''bob'' 12 1000 (Inr (replicate 24 1)) 5)"

lemma demo_rejecting_reachable: "reach session_init session_step demo_rejecting"
proof -
  let ?m0 = "projr (New RejectExisting)"
  have "reach session_init session_step ?m0"
    by (rule reach_init) (auto simp: session_init_def New_def RejectExisting_def ReplaceExisting_def)
  moreover have "session_step ?m0 demo_rejecting"
    unfolding demo_rejecting_def by (rule session_step.issue) (simp_all add: New_def prod_eq_iff)
  ultimately show ?thesis by (rule reach_step)
qed

theorem issue_rejects_active_account_witness:
  "Issue demo_rejecting ''bob'' 12 50 (Inr (replicate 24 2)) 6 = (Inl ErrAccountActive, demo_rejecting)"
proof (rule issue_rejects_active_account [OF demo_rejecting_reachable])
  let ?v = "fresh_session (hexEncode (replicate 24 1)) ''bob'' 12 1000 5"
  show "sm_accountPolicy demo_rejecting = RejectExisting"
    by (simp add: demo_rejecting_def New_def Issue_def createToken_def Let_def)
  show "?v \<in> ran (sm_byToken demo_rejecting)"
    by (simp add: demo_rejecting_def New_def Issue_def createToken_def Let_def fresh_session_def)
  show "createToken (Inr (replicate 24 2)) = Inr (hexEncode (replicate 24 2))"
    by (simp add: createToken_def)
qed (simp_all add: expired_def)

text \<open>C7: authentication cannot be stolen. Whatever token and connection \<open>Bind\<close> is called with, an
  authenticated connection keeps its identity; a token in use on one connection is refused on any
  other; and after a success the connection resolves to the session of that token.\<close>

theorem bind_never_rebinds:
  assumes "reach session_init session_step m" and "Bind m token c' now now' = (r, m')"
  shows "(\<forall>c v. GetByConnID m c t = Inr v \<longrightarrow>
            (\<exists>v'. GetByConnID m' c t = Inr v' \<and> ses_Token v' = ses_Token v
               \<and> ses_AccountID v' = ses_AccountID v \<and> ses_PlayerID v' = ses_PlayerID v))
       \<and> (\<forall>c v. GetByConnID m c now = Inr v \<longrightarrow> ses_Token v = token \<longrightarrow> c \<noteq> c' \<longrightarrow>
            r = Inl (Err ''token already bound''))
       \<and> (\<forall>s. r = Inr s \<longrightarrow> GetByConnID m' c' now = Inr s \<and> ses_Token s = token)"
proof -
  have inv: "session_inv m" using assms(1) by (rule sess.reach_inv)
  have get: "GetByConnID m c t = Inr v \<longleftrightarrow>
      (\<exists>u. sm_byConnID m c = Some u \<and> sm_byToken m u = Some v \<and> \<not> expired v t)" for m c t v
    by (auto simp: GetByConnID_def split: option.splits if_splits)
  have stolen: "r = Inl (Err ''token already bound'')"
    if "GetByConnID m c now = Inr v" "ses_Token v = token" "c \<noteq> c'" for c v
  proof -
    from that(1) obtain u where u: "sm_byConnID m c = Some u" "sm_byToken m u = Some v" "\<not> expired v now"
      by (auto simp: get)
    then have "u = token" "ses_Bound v" "ses_ConnID v = c"
      using session_invD(2) [OF inv u(2)] session_invD(8) [OF inv u(1)] that(2) by auto
    with u that(3) assms(2) show ?thesis by (simp add: Bind_def)
  qed
  show ?thesis
  proof (cases r)
    case (Inl e)
    with assms(2) have "m' = m" by (auto dest: Bind_Inl)
    with Inl stolen show ?thesis by auto
  next
    case (Inr s')
    from assms(2) [unfolded Inr] obtain s where s: "sm_byToken m token = Some s" "\<not> expired s now"
        "ses_Bound s \<Longrightarrow> ses_ConnID s = c'" "sm_byConnID m c' \<in> {None, Some token}"
        "s' = s\<lparr>ses_ConnID := c', ses_Bound := True, ses_UpdatedAt := now'\<rparr>"
        "m' = m\<lparr>sm_byToken := (sm_byToken m)(token \<mapsto> s'), sm_byConnID := (sm_byConnID m)(c' \<mapsto> token)\<rparr>"
      by (rule Bind_Inr) blast
    have exp: "expired s' = expired s" by (simp add: s(5) expired_def fun_eq_iff)
    have keep: "\<exists>v'. GetByConnID m' c t = Inr v' \<and> ses_Token v' = ses_Token v
        \<and> ses_AccountID v' = ses_AccountID v \<and> ses_PlayerID v' = ses_PlayerID v"
      if "GetByConnID m c t = Inr v" for c v
    proof -
      from that obtain u where u: "sm_byConnID m c = Some u" "sm_byToken m u = Some v" "\<not> expired v t"
        by (auto simp: get)
      show ?thesis
      proof (cases "u = token")
        case True
        with u s(1) have v: "v = s" by simp
        with session_invD(8) [OF inv u(1)] u(2) s(3) have "c = c'" by auto
        with u s exp v show ?thesis by (auto simp: get)
      next
        case False
        with u(1) s(4) have "c \<noteq> c'" by auto
        with u False s(6) show ?thesis by (auto simp: get)
      qed
    qed
    have "GetByConnID m' c' now = Inr s' \<and> ses_Token s' = token"
      using s exp session_invD(2) [OF inv s(1)] by (auto simp: get)
    with keep stolen Inr show ?thesis by auto
  qed
qed

theorem bind_never_rebinds_witness:
  "\<exists>v'. GetByConnID (snd (Bind demo_manager demo_token 8 20 20)) 7 20 = Inr v'
      \<and> ses_Token v' = ses_Token demo_session \<and> ses_AccountID v' = ses_AccountID demo_session
      \<and> ses_PlayerID v' = ses_PlayerID demo_session"
proof -
  have "GetByConnID demo_manager 7 20 = Inr demo_session"
    by (simp add: GetByConnID_def demo_manager_def demo_session_def expired_def)
  then show ?thesis
    using bind_never_rebinds [OF demo_reachable, of demo_token 8 20 20
        "fst (Bind demo_manager demo_token 8 20 20)" "snd (Bind demo_manager demo_token 8 20 20)" 20]
    by auto
qed

text \<open>garbage collection is exact. Whatever order the runtime iterates the token table in,
  \<open>RemoveExpired\<close> returns every expired session once and nothing else, and keeps every other
  session.\<close>

theorem remove_expired_exact:
  assumes "reach session_init session_step m" and "map_order (sm_byToken m) order"
    and "RemoveExpired order now m = (gone, m')"
  shows "set gone = {s \<in> ran (sm_byToken m). expired s now} \<and> distinct gone
       \<and> ran (sm_byToken m') = {s \<in> ran (sm_byToken m). \<not> expired s now}"
proof -
  have inv: "session_inv m" using assms(1) by (rule sess.reach_inv)
  have ord: "distinct order" "set order = dom (sm_byToken m)"
    using assms(2) by (auto simp: map_order_def)
  have gone: "gone = map (\<lambda>t. the (sm_byToken m t)) (filter (\<lambda>t. expired (the (sm_byToken m t)) now) order)"
    and m': "sm_byToken m' = (\<lambda>t. case sm_byToken m t of
        Some s \<Rightarrow> if expired s now then None else Some s | None \<Rightarrow> None)"
    using RemoveExpired_spec [OF inv assms(2), of now] assms(3) by (metis prod.inject)+
  have "set gone = {s \<in> ran (sm_byToken m). expired s now}"
    unfolding gone by (force simp: ord(2) ran_def image_iff)
  moreover have "inj_on (\<lambda>t. the (sm_byToken m t)) (set order)"
    unfolding ord(2) by (rule inj_onI) (metis domD option.sel session_invD(2) [OF inv])
  then have "distinct gone"
    unfolding gone using ord(1) by (auto simp: distinct_map intro: inj_on_subset)
  moreover have "ran (sm_byToken m') = {s \<in> ran (sm_byToken m). \<not> expired s now}"
    by (auto simp: m' ran_def split: option.splits if_splits)
  ultimately show ?thesis by blast
qed

theorem remove_expired_exact_witness:
  "set (fst (RemoveExpired [demo_token] 1005 demo_manager)) = {s \<in> ran (sm_byToken demo_manager). expired s 1005}
   \<and> expired demo_session 1005"
proof -
  have "map_order (sm_byToken demo_manager) [demo_token]"
    by (simp add: map_order_def demo_manager_def)
  from remove_expired_exact [OF demo_reachable this surjective_pairing, of 1005] show ?thesis
    by (simp add: demo_session_def expired_def)
qed

end
