(* ===== verification/UnityProtocol.thy ===== *)
theory UnityProtocol
  imports Prelude
begin

text \<open>
  The hand-written Protobuf codec of \<open>examples/unity/protocol.go\<close>: varints, fixed 32-bit and
  length-delimited fields, and the messages built from them. A \<open>float32\<close> is its bit pattern
  (\<open>math.Float32bits\<close> and \<open>math.Float32frombits\<close> are inverse on patterns), an \<open>int32\<close>
  is a 32-bit word read as two's complement, a Go string is its bytes. Unmarshalling overwrites the
  fields of its receiver as it goes, so it returns the error, if any, and the receiver.
\<close>

type_synonym float32 = u32
type_synonym int32 = u32

section \<open>Messages\<close>

record UnityPosition =
  up_X :: float32
  up_Y :: float32
  up_Z :: float32
  up_V :: float32

record UnitySyncPID =
  usp_PID :: int32

record UnityPlayer =
  upl_PID :: int32
  upl_P :: UnityPosition

record UnitySyncPlayers =
  usps_Players :: "UnityPlayer list"

record UnityMovePackage =
  ump_P :: UnityPosition
  ump_ActionData :: int32

record UnityTalk =
  ut_Content :: bytes

record UnityBroadCast =
  ub_PID :: int32
  ub_TP :: int32
  ub_Content :: bytes
  ub_P :: "UnityPosition option"
  ub_ActionData :: int32

record UnityRoomRequest =
  urq_RoomID :: u32

record UnityRoomResponse =
  urs_RoomID :: u32
  urs_Code :: int32
  urs_Message :: bytes
  urs_PlayerCount :: u32

record UnityRoomEvent =
  ure_RoomID :: u32
  ure_PlayerID :: int32
  ure_Content :: bytes

definition zeroPosition :: UnityPosition where
  "zeroPosition = \<lparr> up_X = 0, up_Y = 0, up_Z = 0, up_V = 0 \<rparr>"

definition zeroPlayer :: UnityPlayer where
  "zeroPlayer = \<lparr> upl_PID = 0, upl_P = zeroPosition \<rparr>"

section \<open>Writing fields\<close>

function appendVarintValue :: "bytes \<Rightarrow> u64 \<Rightarrow> bytes" where
  "appendVarintValue data value =
     (if value \<ge> 0x80 then appendVarintValue (data @ [ucast value OR 0x80]) (drop_bit 7 value)
      else data @ [ucast value])"
  by pat_completeness auto
termination
proof (relation "measure (\<lambda>(data, value). unat value)")
  fix data :: bytes and v :: u64
  assume "v \<ge> 0x80"
  then have "unat v \<ge> 128" by (simp add: word_le_nat_alt)
  then have "unat (drop_bit 7 v) < unat v"
    by (simp add: drop_bit_eq_div unat_div)
  then show "((data @ [ucast v OR 0x80], drop_bit 7 v), data, v) \<in> measure (\<lambda>(data, v). unat v)"
    by simp
qed simp

declare appendVarintValue.simps [simp del]

definition appendVarint :: "bytes \<Rightarrow> nat \<Rightarrow> u64 \<Rightarrow> bytes" where
  "appendVarint data fieldNum value = appendVarintValue (data @ [push_bit 3 (of_nat fieldNum)]) value"

definition appendFixed32 :: "bytes \<Rightarrow> nat \<Rightarrow> float32 \<Rightarrow> bytes" where
  "appendFixed32 data fieldNum value = data @ [push_bit 3 (of_nat fieldNum) OR 5] @ PutUint32 value"

definition appendBytes :: "bytes \<Rightarrow> nat \<Rightarrow> bytes \<Rightarrow> bytes" where
  "appendBytes data fieldNum value =
     appendVarintValue (data @ [push_bit 3 (of_nat fieldNum) OR 2]) (of_nat (length value)) @ value"

section \<open>Reading fields\<close>

text \<open>The verb \<open>%d\<close> of the error texts, for the one-digit numbers they are used with.\<close>

definition digit :: "nat \<Rightarrow> string" where
  "digit n = [char_of (48 + n)]"

function readVarintLoop :: "bytes \<Rightarrow> nat \<Rightarrow> nat \<Rightarrow> u64 \<Rightarrow> (u64 \<times> nat) res" where
  "readVarintLoop data offset index value =
     (if 10 \<le> index then Inl (Err ''unity protobuf varint is too long'')
      else if length data \<le> offset then Inl (Err ''unity protobuf varint is incomplete'')
      else
        let current = data ! offset
        in if index = 9 \<and> current > 1 then Inl (Err ''unity protobuf varint overflows uint64'')
           else
             let value' = value OR push_bit (7 * index) (ucast (current AND 0x7f))
             in if current < 0x80 then Inr (value', Suc offset)
                else readVarintLoop data (Suc offset) (Suc index) value')"
  by pat_completeness auto
termination
  by (relation "measure (\<lambda>(data, offset, index, value). 10 - index)") auto

declare readVarintLoop.simps [simp del]

definition readUnityVarint :: "bytes \<Rightarrow> nat \<Rightarrow> (u64 \<times> nat) res" where
  "readUnityVarint data offset = readVarintLoop data offset 0 0"

lemma readVarintLoop_offset:
  "readVarintLoop data offset index value = Inr (v, offset') \<Longrightarrow>
     offset < offset' \<and> offset' \<le> length data \<and> offset' \<le> offset + (10 - index)"
proof (induction data offset index "value" rule: readVarintLoop.induct)
  case (1 data offset index acc)
  show ?case
    using 1(2) 1(1) [OF _ _ refl _ refl]
    by (subst (asm) readVarintLoop.simps) (fastforce simp: Let_def split: if_splits)
qed

text \<open>
  One round of the loop of \<open>decodeUnityFields\<close>: the tag and the value at \<open>offset\<close>, as
  field number, wire type, bytes, number and the offset behind the field.
\<close>

definition readUnityField :: "bytes \<Rightarrow> nat \<Rightarrow> (nat \<times> nat \<times> bytes \<times> u64 \<times> nat) res" where
  "readUnityField data offset0 =
     (case readUnityVarint data offset0 of
        Inl err \<Rightarrow> Inl err
      | Inr (tag, offset) \<Rightarrow>
          let fieldNum = unat (drop_bit 3 tag); wireType = unat (tag AND 7)
          in if fieldNum = 0 then Inl (Err ''unity protobuf field number is invalid'')
             else if wireType = 0 then
               (case readUnityVarint data offset of
                  Inl err \<Rightarrow> Inl err
                | Inr (number, offset') \<Rightarrow> Inr (fieldNum, wireType, [], number, offset'))
             else if wireType = 1 then
               (if offset + 8 > length data then Inl (Err ''unity protobuf fixed64 field is incomplete'')
                else Inr (fieldNum, wireType, slice offset (offset + 8) data, 0, offset + 8))
             else if wireType = 2 then
               (case readUnityVarint data offset of
                  Inl err \<Rightarrow> Inl err
                | Inr (len, offset') \<Rightarrow>
                    if unat len > length data - offset'
                    then Inl (Err ''unity protobuf bytes field is incomplete'')
                    else Inr (fieldNum, wireType, slice offset' (offset' + unat len) data, 0,
                              offset' + unat len))
             else if wireType = 5 then
               (if offset + 4 > length data then Inl (Err ''unity protobuf fixed32 field is incomplete'')
                else Inr (fieldNum, wireType, slice offset (offset + 4) data, 0, offset + 4))
             else Inl (Err (''unity protobuf wire type '' @ digit wireType @ '' is unsupported'')))"

lemma readUnityField_offset:
  assumes "readUnityField data offset = Inr (f, w, bs, n, offset')"
  shows "offset < offset' \<and> offset' \<le> length data"
  using assms
  by (auto simp: readUnityField_def readUnityVarint_def Let_def split: sum.splits if_splits prod.splits
      dest!: readVarintLoop_offset)

type_synonym 's unity_callback = "nat \<Rightarrow> nat \<Rightarrow> bytes \<Rightarrow> u64 \<Rightarrow> 's \<Rightarrow> go_error option \<times> 's"

function decodeLoop :: "'s unity_callback \<Rightarrow> bytes \<Rightarrow> nat \<Rightarrow> 's \<Rightarrow> go_error option \<times> 's" where
  "decodeLoop callback data offset s =
     (if length data \<le> offset then (None, s)
      else
        case readUnityField data offset of
          Inl err \<Rightarrow> (Some err, s)
        | Inr (fieldNum, wireType, value, number, offset') \<Rightarrow>
            (case callback fieldNum wireType value number s of
               (Some err, s') \<Rightarrow> (Some err, s')
             | (None, s') \<Rightarrow> decodeLoop callback data offset' s'))"
  by pat_completeness auto
termination
  by (relation "measure (\<lambda>(callback, data, offset, s). length data - offset)")
     (auto dest!: readUnityField_offset)

declare decodeLoop.simps [simp del]

definition decodeUnityFields :: "bytes \<Rightarrow> 's unity_callback \<Rightarrow> 's \<Rightarrow> go_error option \<times> 's" where
  "decodeUnityFields data callback s = decodeLoop callback data 0 s"

section \<open>Marshal and Unmarshal\<close>

text \<open>
  \<open>uint64(int64(x))\<close> sign-extends an \<open>int32\<close>; \<open>int32(number)\<close> and
  \<open>uint32(number)\<close> keep the low 32 bits. A \<open>Marshal\<close> returns its bytes or an error;
  an \<open>Unmarshal\<close> gets its receiver as a pointer, which may be nil.
\<close>

definition int32_u64 :: "int32 \<Rightarrow> u64" where
  "int32_u64 x = scast x"

definition u64_int32 :: "u64 \<Rightarrow> int32" where
  "u64_int32 x = ucast x"

definition MarshalPosition :: "UnityPosition \<Rightarrow> bytes res" where
  "MarshalPosition p =
     (let data = [];
          data = appendFixed32 data 1 (up_X p);
          data = appendFixed32 data 2 (up_Y p);
          data = appendFixed32 data 3 (up_Z p);
          data = appendFixed32 data 4 (up_V p)
      in Inr data)"

definition positionField :: "UnityPosition unity_callback" where
  "positionField fieldNum wireType value number p =
     (if fieldNum \<in> {1, 2, 3, 4} then
        (if wireType \<noteq> 5 \<or> length value \<noteq> 4
         then (Some (Err (''unity position field '' @ digit fieldNum @ '' has invalid wire type'')), p)
         else
           let fieldValue = Uint32 value
           in if fieldNum = 1 then (None, p\<lparr>up_X := fieldValue\<rparr>)
              else if fieldNum = 2 then (None, p\<lparr>up_Y := fieldValue\<rparr>)
              else if fieldNum = 3 then (None, p\<lparr>up_Z := fieldValue\<rparr>)
              else (None, p\<lparr>up_V := fieldValue\<rparr>))
      else (None, p))"

fun UnmarshalPosition :: "bytes \<Rightarrow> UnityPosition option \<Rightarrow> go_error option \<times> UnityPosition option" where
  "UnmarshalPosition data None = (Some (Err ''unity position is nil''), None)"
| "UnmarshalPosition data (Some p) = apsnd Some (decodeUnityFields data positionField p)"

definition MarshalSyncPID :: "UnitySyncPID \<Rightarrow> bytes res" where
  "MarshalSyncPID m = Inr (appendVarint [] 1 (int32_u64 (usp_PID m)))"

definition syncPIDField :: "UnitySyncPID unity_callback" where
  "syncPIDField fieldNum wireType value number m =
     (if fieldNum = 1 then
        (if wireType \<noteq> 0 then (Some (Err ''unity sync pid has invalid pid wire type''), m)
         else (None, m\<lparr>usp_PID := u64_int32 number\<rparr>))
      else (None, m))"

fun UnmarshalSyncPID :: "bytes \<Rightarrow> UnitySyncPID option \<Rightarrow> go_error option \<times> UnitySyncPID option" where
  "UnmarshalSyncPID data None = (Some (Err ''unity sync pid is nil''), None)"
| "UnmarshalSyncPID data (Some m) = apsnd Some (decodeUnityFields data syncPIDField m)"

definition MarshalPlayer :: "UnityPlayer \<Rightarrow> bytes res" where
  "MarshalPlayer m =
     (case MarshalPosition (upl_P m) of
        Inl err \<Rightarrow> Inl err
      | Inr position \<Rightarrow>
          let data = appendVarint [] 1 (int32_u64 (upl_PID m));
              data = appendBytes data 2 position
          in Inr data)"

definition playerField :: "UnityPlayer unity_callback" where
  "playerField fieldNum wireType value number m =
     (if fieldNum = 1 then
        (if wireType \<noteq> 0 then (Some (Err ''unity player has invalid pid wire type''), m)
         else (None, m\<lparr>upl_PID := u64_int32 number\<rparr>))
      else if fieldNum = 2 then
        (if wireType \<noteq> 2 then (Some (Err ''unity player has invalid position wire type''), m)
         else case UnmarshalPosition value (Some (upl_P m)) of (err, p) \<Rightarrow> (err, m\<lparr>upl_P := the p\<rparr>))
      else (None, m))"

fun UnmarshalPlayer :: "bytes \<Rightarrow> UnityPlayer option \<Rightarrow> go_error option \<times> UnityPlayer option" where
  "UnmarshalPlayer data None = (Some (Err ''unity player is nil''), None)"
| "UnmarshalPlayer data (Some m) = apsnd Some (decodeUnityFields data playerField m)"

fun marshalPlayers :: "bytes \<Rightarrow> UnityPlayer list \<Rightarrow> bytes res" where
  "marshalPlayers data [] = Inr data"
| "marshalPlayers data (player # players) =
     (case MarshalPlayer player of
        Inl err \<Rightarrow> Inl err
      | Inr playerData \<Rightarrow> marshalPlayers (appendBytes data 1 playerData) players)"

definition MarshalSyncPlayers :: "UnitySyncPlayers \<Rightarrow> bytes res" where
  "MarshalSyncPlayers m = marshalPlayers [] (usps_Players m)"

definition syncPlayersField :: "UnitySyncPlayers unity_callback" where
  "syncPlayersField fieldNum wireType value number m =
     (if fieldNum = 1 then
        (if wireType \<noteq> 2 then (Some (Err ''unity sync players has invalid player wire type''), m)
         else case UnmarshalPlayer value (Some zeroPlayer) of
             (Some err, _) \<Rightarrow> (Some err, m)
           | (None, player) \<Rightarrow> (None, m\<lparr>usps_Players := usps_Players m @ [the player]\<rparr>))
      else (None, m))"

fun UnmarshalSyncPlayers ::
  "bytes \<Rightarrow> UnitySyncPlayers option \<Rightarrow> go_error option \<times> UnitySyncPlayers option" where
  "UnmarshalSyncPlayers data None = (Some (Err ''unity sync players is nil''), None)"
| "UnmarshalSyncPlayers data (Some m) =
     apsnd Some (decodeUnityFields data syncPlayersField (m\<lparr>usps_Players := []\<rparr>))"

definition MarshalMovePackage :: "UnityMovePackage \<Rightarrow> bytes res" where
  "MarshalMovePackage m =
     (case MarshalPosition (ump_P m) of
        Inl err \<Rightarrow> Inl err
      | Inr position \<Rightarrow>
          let data = appendBytes [] 1 position;
              data = appendVarint data 2 (int32_u64 (ump_ActionData m))
          in Inr data)"

definition movePackageField :: "UnityMovePackage unity_callback" where
  "movePackageField fieldNum wireType value number m =
     (if fieldNum = 1 then
        (if wireType \<noteq> 2 then (Some (Err ''unity move package has invalid position wire type''), m)
         else case UnmarshalPosition value (Some (ump_P m)) of (err, p) \<Rightarrow> (err, m\<lparr>ump_P := the p\<rparr>))
      else if fieldNum = 2 then
        (if wireType \<noteq> 0 then (Some (Err ''unity move package has invalid action wire type''), m)
         else (None, m\<lparr>ump_ActionData := u64_int32 number\<rparr>))
      else (None, m))"

fun UnmarshalMovePackage ::
  "bytes \<Rightarrow> UnityMovePackage option \<Rightarrow> go_error option \<times> UnityMovePackage option" where
  "UnmarshalMovePackage data None = (Some (Err ''unity move package is nil''), None)"
| "UnmarshalMovePackage data (Some m) = apsnd Some (decodeUnityFields data movePackageField m)"

definition MarshalTalk :: "UnityTalk \<Rightarrow> bytes res" where
  "MarshalTalk m = Inr (appendBytes [] 1 (ut_Content m))"

definition talkField :: "UnityTalk unity_callback" where
  "talkField fieldNum wireType value number m =
     (if fieldNum = 1 then
        (if wireType \<noteq> 2 then (Some (Err ''unity talk has invalid content wire type''), m)
         else (None, m\<lparr>ut_Content := value\<rparr>))
      else (None, m))"

fun UnmarshalTalk :: "bytes \<Rightarrow> UnityTalk option \<Rightarrow> go_error option \<times> UnityTalk option" where
  "UnmarshalTalk data None = (Some (Err ''unity talk is nil''), None)"
| "UnmarshalTalk data (Some m) = apsnd Some (decodeUnityFields data talkField m)"

definition MarshalBroadCast :: "UnityBroadCast \<Rightarrow> bytes res" where
  "MarshalBroadCast m =
     (let data = [];
          data = appendVarint data 1 (int32_u64 (ub_PID m));
          data = appendVarint data 2 (int32_u64 (ub_TP m));
          data = (if ub_Content m \<noteq> [] then appendBytes data 3 (ub_Content m) else data)
      in case (case ub_P m of
                 None \<Rightarrow> Inr data
               | Some p \<Rightarrow> (case MarshalPosition p of
                     Inl err \<Rightarrow> Inl err
                   | Inr position \<Rightarrow> Inr (appendBytes data 4 position))) of
           Inl err \<Rightarrow> Inl err
         | Inr data \<Rightarrow>
             Inr (if ub_ActionData m \<noteq> 0 then appendVarint data 5 (int32_u64 (ub_ActionData m)) else data))"

definition broadCastField :: "UnityBroadCast unity_callback" where
  "broadCastField fieldNum wireType value number m =
     (if fieldNum \<in> {1, 2, 5} then
        (if wireType \<noteq> 0
         then (Some (Err (''unity broadcast field '' @ digit fieldNum @ '' has invalid wire type'')), m)
         else if fieldNum = 1 then (None, m\<lparr>ub_PID := u64_int32 number\<rparr>)
         else if fieldNum = 2 then (None, m\<lparr>ub_TP := u64_int32 number\<rparr>)
         else (None, m\<lparr>ub_ActionData := u64_int32 number\<rparr>))
      else if fieldNum = 3 then
        (if wireType \<noteq> 2 then (Some (Err ''unity broadcast has invalid content wire type''), m)
         else (None, m\<lparr>ub_Content := value\<rparr>))
      else if fieldNum = 4 then
        (if wireType \<noteq> 2 then (Some (Err ''unity broadcast has invalid position wire type''), m)
         else case UnmarshalPosition value (Some zeroPosition) of
             (Some err, _) \<Rightarrow> (Some err, m)
           | (None, position) \<Rightarrow> (None, m\<lparr>ub_P := position\<rparr>))
      else (None, m))"

fun UnmarshalBroadCast :: "bytes \<Rightarrow> UnityBroadCast option \<Rightarrow> go_error option \<times> UnityBroadCast option" where
  "UnmarshalBroadCast data None = (Some (Err ''unity broadcast is nil''), None)"
| "UnmarshalBroadCast data (Some m) = apsnd Some (decodeUnityFields data broadCastField m)"

definition MarshalRoomRequest :: "UnityRoomRequest \<Rightarrow> bytes res" where
  "MarshalRoomRequest m = Inr (appendVarint [] 1 (ucast (urq_RoomID m)))"

definition roomRequestField :: "UnityRoomRequest unity_callback" where
  "roomRequestField fieldNum wireType value number m =
     (if fieldNum = 1 then
        (if wireType \<noteq> 0 then (Some (Err ''unity room request has invalid room id wire type''), m)
         else (None, m\<lparr>urq_RoomID := ucast number\<rparr>))
      else (None, m))"

fun UnmarshalRoomRequest ::
  "bytes \<Rightarrow> UnityRoomRequest option \<Rightarrow> go_error option \<times> UnityRoomRequest option" where
  "UnmarshalRoomRequest data None = (Some (Err ''unity room request is nil''), None)"
| "UnmarshalRoomRequest data (Some m) = apsnd Some (decodeUnityFields data roomRequestField m)"

definition MarshalRoomResponse :: "UnityRoomResponse \<Rightarrow> bytes res" where
  "MarshalRoomResponse m =
     (let data = appendVarint [] 1 (ucast (urs_RoomID m));
          data = appendVarint data 2 (int32_u64 (urs_Code m));
          data = (if urs_Message m \<noteq> [] then appendBytes data 3 (urs_Message m) else data);
          data = appendVarint data 4 (ucast (urs_PlayerCount m))
      in Inr data)"

definition roomResponseField :: "UnityRoomResponse unity_callback" where
  "roomResponseField fieldNum wireType value number m =
     (if fieldNum \<in> {1, 2, 4} then
        (if wireType \<noteq> 0
         then (Some (Err (''unity room response field '' @ digit fieldNum @ '' has invalid wire type'')), m)
         else if fieldNum = 1 then (None, m\<lparr>urs_RoomID := ucast number\<rparr>)
         else if fieldNum = 2 then (None, m\<lparr>urs_Code := u64_int32 number\<rparr>)
         else (None, m\<lparr>urs_PlayerCount := ucast number\<rparr>))
      else if fieldNum = 3 then
        (if wireType \<noteq> 2 then (Some (Err ''unity room response has invalid message wire type''), m)
         else (None, m\<lparr>urs_Message := value\<rparr>))
      else (None, m))"

fun UnmarshalRoomResponse ::
  "bytes \<Rightarrow> UnityRoomResponse option \<Rightarrow> go_error option \<times> UnityRoomResponse option" where
  "UnmarshalRoomResponse data None = (Some (Err ''unity room response is nil''), None)"
| "UnmarshalRoomResponse data (Some m) = apsnd Some (decodeUnityFields data roomResponseField m)"

definition MarshalRoomEvent :: "UnityRoomEvent \<Rightarrow> bytes res" where
  "MarshalRoomEvent m =
     (let data = appendVarint [] 1 (ucast (ure_RoomID m));
          data = appendVarint data 2 (int32_u64 (ure_PlayerID m));
          data = (if ure_Content m \<noteq> [] then appendBytes data 3 (ure_Content m) else data)
      in Inr data)"

definition roomEventField :: "UnityRoomEvent unity_callback" where
  "roomEventField fieldNum wireType value number m =
     (if fieldNum \<in> {1, 2} then
        (if wireType \<noteq> 0
         then (Some (Err (''unity room event field '' @ digit fieldNum @ '' has invalid wire type'')), m)
         else if fieldNum = 1 then (None, m\<lparr>ure_RoomID := ucast number\<rparr>)
         else (None, m\<lparr>ure_PlayerID := u64_int32 number\<rparr>))
      else if fieldNum = 3 then
        (if wireType \<noteq> 2 then (Some (Err ''unity room event has invalid content wire type''), m)
         else (None, m\<lparr>ure_Content := value\<rparr>))
      else (None, m))"

fun UnmarshalRoomEvent :: "bytes \<Rightarrow> UnityRoomEvent option \<Rightarrow> go_error option \<times> UnityRoomEvent option" where
  "UnmarshalRoomEvent data None = (Some (Err ''unity room event is nil''), None)"
| "UnmarshalRoomEvent data (Some m) = apsnd Some (decodeUnityFields data roomEventField m)"

section \<open>Reading back what was written\<close>

abbreviation varint :: "u64 \<Rightarrow> bytes" where
  "varint v \<equiv> appendVarintValue [] v"

lemma appendVarintValue_prefix: "appendVarintValue (pre @ data) v = pre @ appendVarintValue data v"
proof (induction data v rule: appendVarintValue.induct)
  case (1 data v)
  then show ?case
    by (subst (1 2) appendVarintValue.simps) simp
qed

lemma appendVarintValue_append: "appendVarintValue data v = data @ varint v"
  using appendVarintValue_prefix [of data "[]" v] by simp

lemma varint_unfold:
  "varint v = (if v \<ge> 0x80 then (ucast v OR 0x80) # varint (drop_bit 7 v) else [ucast v])"
  by (subst appendVarintValue.simps) (simp add: appendVarintValue_append [of "[_]"])

lemma varint_not_Nil [simp]: "varint v \<noteq> []"
  by (subst varint_unfold) simp

lemma varint_small: "v < 0x80 \<Longrightarrow> varint v = [ucast v]"
  by (subst varint_unfold) (simp add: not_le [symmetric])

lemma below_bit: "(x :: 'a::len word) < push_bit k 1 \<Longrightarrow> k \<le> n \<Longrightarrow> \<not> bit x n"
proof -
  assume x: "x < push_bit k 1" and "k \<le> n"
  have "drop_bit k x = 0"
    using x by (simp add: drop_bit_eq_div push_bit_eq_mult div_word_less)
  then have "\<not> bit (drop_bit k x) (n - k)" by simp
  with \<open>k \<le> n\<close> show ?thesis by (simp add: bit_drop_bit_eq)
qed

lemma u8_continuation:
  "\<not> ((c :: u8) OR 0x80) < 0x80" "(c OR 0x80) AND 0x7f = c AND 0x7f"
proof -
  have "bit (c OR 0x80) 7" by (simp add: bit_simps)
  then show "\<not> ((c :: u8) OR 0x80) < 0x80"
    using below_bit [of "c OR 0x80" 7 7] by (auto simp: push_bit_eq_mult)
  show "(c OR 0x80) AND 0x7f = c AND 0x7f"
    by (simp add: bit.conj_disj_distrib2)
qed

lemma mask_7f: "(x :: 'a::len word) AND 0x7f = take_bit 7 x"
  by (simp add: take_bit_eq_mask mask_eq_exp_minus_1)

lemma varint_group_join:
  "push_bit k (ucast (ucast v AND 0x7f :: u8)) OR push_bit (k + 7) (drop_bit 7 v) = push_bit k (v :: u64)"
proof (rule bit_word_eqI)
  fix n assume "n < LENGTH(64)"
  show "bit (push_bit k (ucast (ucast v AND 0x7f :: u8)) OR push_bit (k + 7) (drop_bit 7 v)) n
      = bit (push_bit k v) n"
  proof (cases "n < k + 7")
    case False
    then have "7 + (n - (k + 7)) = n - k" by simp
    then show ?thesis by (auto simp: mask_7f bit_simps)
  qed (auto simp: mask_7f bit_simps)
qed

lemma varint_last_group:
  assumes "v < 0x80"
  shows "ucast (ucast v AND 0x7f :: u8) = (v :: u64)"
proof (rule bit_word_eqI)
  fix n assume "n < LENGTH(64)"
  have "7 \<le> n \<Longrightarrow> \<not> bit v n"
    using below_bit [of v 7 n] assms by (simp add: push_bit_eq_mult)
  then show "bit (ucast (ucast v AND 0x7f :: u8) :: u64) n = bit v n"
    by (cases "n < 7") (auto simp: mask_7f bit_simps)
qed

lemma readVarintLoop_varint:
  assumes "i < 10" "unat v < 2 ^ (64 - 7 * i)" "drop offset data = varint v @ rest"
  shows "readVarintLoop data offset i acc
           = Inr (acc OR push_bit (7 * i) v, offset + length (varint v))"
  using assms
proof (induction "unat v" arbitrary: v offset i acc rule: less_induct)
  case less
  have len: "offset < length data"
    using less.prems(3) by (metis append_is_Nil_conv drop_all not_less varint_not_Nil)
  have first: "data ! offset = hd (varint v)" and later: "drop (Suc offset) data = tl (varint v) @ rest"
    using less.prems(3) len
    by (metis hd_append2 hd_drop_conv_nth varint_not_Nil, metis drop_Suc tl_append2 tl_drop varint_not_Nil)
  show ?case
  proof (cases "v < 0x80")
    case True
    then have v: "varint v = [ucast v]" by (rule varint_small)
    have un: "unat (ucast v :: u8) = unat v"
      using True by (simp add: word_less_nat_alt unsigned_ucast_eq take_bit_nat_eq_self)
    then have "(ucast v :: u8) < 0x80"
      using True by (simp add: word_less_nat_alt)
    moreover have "i = 9 \<Longrightarrow> \<not> (ucast v :: u8) > 1"
      using less.prems(2) un by (simp add: word_less_nat_alt)
    ultimately show ?thesis
      using less.prems(1) len first v
      by (subst readVarintLoop.simps) (auto simp: Let_def varint_last_group [OF True])
  next
    case False
    then have v: "varint v = (ucast v OR 0x80) # varint (drop_bit 7 v)"
      by (subst varint_unfold) (simp add: not_less)
    have ge: "unat v \<ge> 128" using False by (simp add: word_le_nat_alt not_less)
    have i: "i < 9"
    proof (rule ccontr)
      assume "\<not> i < 9"
      then have "i = 9" using less.prems(1) by simp
      then show False using less.prems(2) ge by simp
    qed
    have un: "unat (drop_bit 7 v) = unat v div 128"
      by (simp add: drop_bit_eq_div unat_div)
    have "(64 :: nat) - 7 * i = (64 - 7 * Suc i) + 7" using i by simp
    then have "unat v < 2 ^ (64 - 7 * Suc i) * 128"
      using less.prems(2) by (simp only: power_add) simp
    then have lt: "unat (drop_bit 7 v) < 2 ^ (64 - 7 * Suc i)"
      unfolding un by (simp add: less_mult_imp_div_less)
    have "readVarintLoop data (Suc offset) (Suc i) acc'
        = Inr (acc' OR push_bit (7 * Suc i) (drop_bit 7 v), Suc offset + length (varint (drop_bit 7 v)))" for acc'
      by (rule less.hyps) (use un ge i lt later v in auto)
    then show ?thesis
      using i len first v
      by (subst readVarintLoop.simps)
         (simp add: Let_def u8_continuation or.assoc varint_group_join [of "7 * i", simplified add.commute])
  qed
qed

lemma readUnityVarint_varint:
  assumes "drop offset data = varint v @ rest"
  shows "readUnityVarint data offset = Inr (v, offset + length (varint v))"
  unfolding readUnityVarint_def
  by (subst readVarintLoop_varint) (use assms in \<open>auto intro: unsigned_less [of v, simplified]\<close>)

lemma length_varint: "length (varint v) \<le> 10"
  using readVarintLoop_offset [OF readUnityVarint_varint [of 0 "varint v" v "[]", unfolded readUnityVarint_def]]
  by simp

text \<open>The decoder depends only on the bytes from the offset on.\<close>

lemma readVarintLoop_shift:
  "readVarintLoop data (k + offset) index acc
     = map_sum id (apsnd ((+) k)) (readVarintLoop (drop k data) offset index acc)"
proof (induction "10 - index" arbitrary: offset index acc rule: less_induct)
  case less
  have "k < length data \<Longrightarrow> data ! (k + offset) = drop k data ! offset" by simp
  then show ?case
    using less [of "Suc index" "Suc offset"]
    by (subst (1 2) readVarintLoop.simps) (auto simp: Let_def not_le)
qed

lemma readUnityVarint_shift:
  "readUnityVarint data (k + offset) = map_sum id (apsnd ((+) k)) (readUnityVarint (drop k data) offset)"
  by (simp add: readUnityVarint_def readVarintLoop_shift)

lemma slice_shift: "slice (k + i) (k + j) xs = slice i j (drop k xs)"
  by (simp add: slice_def add.commute)

lemma readUnityField_shift:
  assumes "k \<le> length data"
  shows "readUnityField data (k + offset)
     = map_sum id (\<lambda>(f, w, v, n, offset'). (f, w, v, n, k + offset')) (readUnityField (drop k data) offset)"
proof (cases "readUnityVarint (drop k data) offset")
  case (Inl err)
  then show ?thesis by (simp add: readUnityField_def readUnityVarint_shift)
next
  case (Inr r)
  obtain tag o1 where r: "r = (tag, o1)" by (cases r)
  have bound: "length data < k + x \<longleftrightarrow> length data - k < x" for x
    using assms by linarith
  show ?thesis
    by (cases "readUnityVarint (drop k data) o1")
       (simp_all add: readUnityField_def readUnityVarint_shift Inr r Let_def add.assoc bound slice_shift split_beta)
qed

lemma decodeLoop_shift:
  assumes "k \<le> length data"
  shows "decodeLoop callback data (k + offset) s = decodeLoop callback (drop k data) offset s"
proof (induction callback "drop k data" offset s rule: decodeLoop.induct)
  case (1 callback offset s)
  then show ?case
    using assms
    by (subst (1 2) decodeLoop.simps)
       (auto simp: readUnityField_shift split: sum.splits prod.splits option.splits)
qed

text \<open>What the decoder does with one field that the encoder wrote in front of \<open>rest\<close>.\<close>

definition andThen ::
  "'s unity_callback \<Rightarrow> nat \<Rightarrow> nat \<Rightarrow> bytes \<Rightarrow> u64 \<Rightarrow> bytes \<Rightarrow> 's \<Rightarrow> go_error option \<times> 's" where
  "andThen callback f w value number rest s =
     (case callback f w value number s of
        (Some err, s') \<Rightarrow> (Some err, s')
      | (None, s') \<Rightarrow> decodeLoop callback rest 0 s')"

lemma decodeLoop_end [simp, wire_simps]: "decodeLoop callback [] offset s = (None, s)"
  by (subst decodeLoop.simps) simp

lemma decodeLoop_field:
  assumes "readUnityField (field @ rest) 0 = Inr (f, w, v, n, length field)" "field \<noteq> []"
  shows "decodeLoop callback (field @ rest) 0 s = andThen callback f w v n rest s"
proof -
  have "decodeLoop callback (field @ rest) (length field) s' = decodeLoop callback rest 0 s'" for s'
    using decodeLoop_shift [of "length field" "field @ rest" callback 0 s'] by simp
  then show ?thesis
    using assms by (subst decodeLoop.simps) (simp add: andThen_def split: option.splits prod.splits)
qed

lemma readUnityVarint_byte:
  assumes "c < 0x80"
  shows "readUnityVarint (c # rest) 0 = Inr (ucast c, 1)"
proof -
  have "unat c < 2 ^ LENGTH(8)" by (rule unsigned_less)
  then have "unat (ucast c :: u64) = unat c"
    by (simp add: unsigned_ucast_eq take_bit_nat_eq_self)
  then have "(ucast c :: u64) < 0x80"
    using assms by (simp add: word_less_nat_alt)
  moreover have "ucast (ucast c :: u64) = c"
    by (rule bit_word_eqI) (simp add: bit_simps)
  ultimately show ?thesis
    using readUnityVarint_varint [of 0 "c # rest" "ucast c" rest] by (simp add: varint_small)
qed

lemma field_cases: "f \<in> {1..5} \<Longrightarrow> f = 1 \<or> f = 2 \<or> f = 3 \<or> f = 4 \<or> f = (5 :: nat)"
  by auto

lemma readUnityVarint_tag:
  assumes "f \<in> {1..5}" "w \<in> {0, 2, 5}"
  shows "readUnityVarint ((push_bit 3 (of_nat f) OR w) # rest) 0 = Inr (push_bit 3 (of_nat f) OR ucast w, 1)"
    and "unat (drop_bit 3 (push_bit 3 (of_nat f) OR ucast w :: u64)) = f"
    and "(push_bit 3 (of_nat f) OR ucast w) AND 7 = (ucast w :: u64)"
  using field_cases [OF assms(1)] assms(2)
  by (auto simp: readUnityVarint_byte)

text \<open>The bytes of one field, and the encoder as appending them.\<close>

definition varint_field :: "nat \<Rightarrow> u64 \<Rightarrow> bytes" where
  "varint_field f v = push_bit 3 (of_nat f) # varint v"

definition fixed32_field :: "nat \<Rightarrow> float32 \<Rightarrow> bytes" where
  "fixed32_field f v = (push_bit 3 (of_nat f) OR 5) # PutUint32 v"

definition bytes_field :: "nat \<Rightarrow> bytes \<Rightarrow> bytes" where
  "bytes_field f v = (push_bit 3 (of_nat f) OR 2) # varint (of_nat (length v)) @ v"

lemma append_field [wire_simps]:
  "appendVarint data f v = data @ varint_field f v"
  "appendFixed32 data f x = data @ fixed32_field f x"
  "appendBytes data f b = data @ bytes_field f b"
  by (simp_all add: appendVarint_def varint_field_def appendFixed32_def fixed32_field_def
      appendBytes_def bytes_field_def appendVarintValue_append [of "data @ _"])

lemma length_fixed32_field [simp, wire_simps]: "length (fixed32_field f v) = 5"
  by (simp add: fixed32_field_def)

lemma length_varint_field: "length (varint_field f v) \<le> 11"
  using length_varint [of v] by (simp add: varint_field_def)

lemma length_bytes_field: "length (bytes_field f v) \<le> 11 + length v"
  using length_varint [of "of_nat (length v)"] by (simp add: bytes_field_def)

lemma decode_varint_field [wire_simps]:
  assumes "f \<in> {1..5}"
  shows "decodeLoop callback (varint_field f v @ rest) 0 s = andThen callback f 0 [] v rest s"
proof (rule decodeLoop_field)
  have "readUnityVarint ((push_bit 3 (of_nat f)) # varint v @ rest) 1 = Inr (v, 1 + length (varint v))"
    by (rule readUnityVarint_varint [where rest = rest]) simp
  then show "readUnityField (varint_field f v @ rest) 0 = Inr (f, 0, [], v, length (varint_field f v))"
    using readUnityVarint_tag [OF assms, of 0] assms
    by (simp add: readUnityField_def varint_field_def)
qed (simp add: varint_field_def)

lemma decode_fixed32_field [wire_simps]:
  assumes "f \<in> {1..5}"
  shows "decodeLoop callback (fixed32_field f v @ rest) 0 s = andThen callback f 5 (PutUint32 v) 0 rest s"
proof (rule decodeLoop_field)
  show "readUnityField (fixed32_field f v @ rest) 0
      = Inr (f, 5, PutUint32 v, 0, length (fixed32_field f v))"
    using readUnityVarint_tag [OF assms, of 5] assms
    by (simp add: readUnityField_def fixed32_field_def slice_def)
qed (simp add: fixed32_field_def)

lemma decode_bytes_field [wire_simps]:
  assumes "f \<in> {1..5}" "length v < 2 ^ 63"
  shows "decodeLoop callback (bytes_field f v @ rest) 0 s = andThen callback f 2 v 0 rest s"
proof (rule decodeLoop_field)
  let ?len = "of_nat (length v) :: u64"
  have "readUnityVarint ((push_bit 3 (of_nat f) OR 2) # varint ?len @ v @ rest) 1
      = Inr (?len, 1 + length (varint ?len))"
    by (rule readUnityVarint_varint [where rest = "v @ rest"]) simp
  moreover have "unat ?len = length v"
    using assms(2) by (simp add: unat_of_nat)
  ultimately show "readUnityField (bytes_field f v @ rest) 0 = Inr (f, 2, v, 0, length (bytes_field f v))"
    using readUnityVarint_tag [OF assms(1), of 2] assms(1)
    by (simp add: readUnityField_def bytes_field_def slice_def)
qed (simp add: bytes_field_def)

lemmas decode_last_field [wire_simps] =
  decode_varint_field [where rest = "[]", simplified append_Nil2]
  decode_fixed32_field [where rest = "[]", simplified append_Nil2]
  decode_bytes_field [where rest = "[]", simplified append_Nil2]

lemma int32_roundtrip [simp, wire_simps]: "u64_int32 (int32_u64 x) = x"
  unfolding u64_int32_def int32_u64_def
  by (rule bit_word_eqI) (auto simp: bit_simps)

lemma u32_roundtrip [simp, wire_simps]: "ucast (ucast x :: u64) = (x :: u32)"
  by (rule bit_word_eqI) (simp add: bit_simps)

lemma position_roundtrip:
  assumes "MarshalPosition p = Inr pos"
  shows "decodeLoop positionField pos 0 p0 = (None, p)" "length pos = 20"
  using assms
  by (auto simp: MarshalPosition_def wire_simps andThen_def positionField_def)


lemmas message_simps = decodeUnityFields_def wire_simps andThen_def Let_def

lemma player_roundtrip:
  assumes "MarshalPlayer m = Inr data"
  shows "decodeLoop playerField data 0 m0 = (None, m)" "length data \<le> 42"
proof -
  obtain pos where pos: "MarshalPosition (upl_P m) = Inr pos"
    by (simp add: MarshalPosition_def)
  note back_pos = position_roundtrip [OF pos]
  have data: "data = varint_field 1 (int32_u64 (upl_PID m)) @ bytes_field 2 pos"
    using assms by (simp add: MarshalPlayer_def pos append_field)
  show "decodeLoop playerField data 0 m0 = (None, m)"
    by (simp add: data message_simps playerField_def back_pos)
  show "length data \<le> 42"
    using length_varint_field [of 1 "int32_u64 (upl_PID m)"] length_bytes_field [of 2 pos] back_pos(2)
    by (simp add: data)
qed

lemma marshalPlayers_decode:
  "marshalPlayers data players = Inr data' \<Longrightarrow>
     \<exists>tl. data' = data @ tl \<and>
       decodeLoop syncPlayersField tl 0 m = (None, m\<lparr>usps_Players := usps_Players m @ players\<rparr>)"
proof (induction players arbitrary: data m)
  case (Cons player players)
  obtain pd where pd: "MarshalPlayer player = Inr pd"
    by (simp add: MarshalPlayer_def MarshalPosition_def)
  then obtain tl where tl: "data' = (data @ bytes_field 1 pd) @ tl"
    and dec: "decodeLoop syncPlayersField tl 0 (m\<lparr>usps_Players := usps_Players m @ [player]\<rparr>)
      = (None, m\<lparr>usps_Players := (usps_Players m @ [player]) @ players\<rparr>)"
    using Cons.IH [of "data @ bytes_field 1 pd" "m\<lparr>usps_Players := usps_Players m @ [player]\<rparr>"] Cons.prems
    by (auto simp: append_field)
  have "decodeLoop syncPlayersField (bytes_field 1 pd @ tl) 0 m
      = (None, m\<lparr>usps_Players := usps_Players m @ player # players\<rparr>)"
    using dec player_roundtrip [OF pd] by (simp add: message_simps syncPlayersField_def)
  with tl show ?case by auto
qed auto

lemma broadcast_decode:
  assumes "length (ub_Content m) < 2 ^ 63" "MarshalBroadCast m = Inr data"
    and "ub_Content m0 = []" "ub_P m0 = None" "ub_ActionData m0 = 0"
  shows "UnmarshalBroadCast data (Some m0) = (None, Some m)"
proof (cases "ub_P m")
  case None
  then show ?thesis
    using assms
    by (cases "ub_Content m = []"; cases "ub_ActionData m = 0")
       (auto simp: MarshalBroadCast_def message_simps broadCastField_def)
next
  case (Some p)
  obtain pos where pos: "MarshalPosition p = Inr pos"
    by (simp add: MarshalPosition_def)
  show ?thesis
    using assms Some
    by (cases "ub_Content m = []"; cases "ub_ActionData m = 0")
       (auto simp: MarshalBroadCast_def pos message_simps broadCastField_def position_roundtrip [OF pos])
qed

section \<open>Properties\<close>

text \<open>C37: A broadcast that is marshalled and then unmarshalled into a fresh value comes back unchanged,
  for negative numbers too and with every combination of its optional content, position and action.\<close>
theorem unity_broadcast_roundtrip:
  assumes "length (ub_Content m) < 2 ^ 63" "MarshalBroadCast m = Inr data"
    and "ub_Content m0 = []" "ub_P m0 = None" "ub_ActionData m0 = 0"
  shows "UnmarshalBroadCast data (Some m0) = (None, Some m)"
  by (rule broadcast_decode [OF assms])

definition demo_broadcast :: UnityBroadCast where
  "demo_broadcast = \<lparr> ub_PID = -1, ub_TP = 2, ub_Content = [0x68, 0x69],
     ub_P = Some \<lparr> up_X = 1, up_Y = 2, up_Z = 3, up_V = 4 \<rparr>, ub_ActionData = 0 \<rparr>"

definition fresh_broadcast :: UnityBroadCast where
  "fresh_broadcast = \<lparr> ub_PID = 0, ub_TP = 0, ub_Content = [], ub_P = None, ub_ActionData = 0 \<rparr>"

theorem unity_broadcast_roundtrip_witness:
  "\<exists>data. MarshalBroadCast demo_broadcast = Inr data \<and>
     UnmarshalBroadCast data (Some fresh_broadcast) = (None, Some demo_broadcast)"
proof -
  obtain data where "MarshalBroadCast demo_broadcast = Inr data"
    by (auto simp: MarshalBroadCast_def demo_broadcast_def MarshalPosition_def Let_def)
  with unity_broadcast_roundtrip [of demo_broadcast data fresh_broadcast]
  show ?thesis by (simp add: demo_broadcast_def fresh_broadcast_def)
qed

text \<open>A player list that is marshalled and then unmarshalled comes back with the same players in the
  same order, and what the receiver held before is gone.\<close>
theorem unity_sync_players_roundtrip:
  assumes "MarshalSyncPlayers m = Inr data"
  shows "UnmarshalSyncPlayers data (Some m0) = (None, Some m)"
  using marshalPlayers_decode [of "[]" "usps_Players m" data "m0\<lparr>usps_Players := []\<rparr>"] assms
  by (simp add: MarshalSyncPlayers_def decodeUnityFields_def)

definition demo_players :: UnitySyncPlayers where
  "demo_players = \<lparr> usps_Players = [zeroPlayer\<lparr>upl_PID := -7\<rparr>, zeroPlayer\<lparr>upl_PID := 9\<rparr>] \<rparr>"

theorem unity_sync_players_roundtrip_witness:
  "\<exists>data. MarshalSyncPlayers demo_players = Inr data \<and>
     UnmarshalSyncPlayers data (Some demo_players) = (None, Some demo_players)"
proof -
  obtain data where "MarshalSyncPlayers demo_players = Inr data"
    by (auto simp: MarshalSyncPlayers_def demo_players_def MarshalPlayer_def MarshalPosition_def Let_def)
  with unity_sync_players_roundtrip show ?thesis by blast
qed

text \<open>Every room request, room response and room event that is marshalled and then unmarshalled into a
  fresh value comes back unchanged.\<close>
theorem unity_room_messages_roundtrip:
  assumes "length (urs_Message rs) < 2 ^ 63" "length (ure_Content ev) < 2 ^ 63"
    and "MarshalRoomRequest rq = Inr d1" "MarshalRoomResponse rs = Inr d2" "MarshalRoomEvent ev = Inr d3"
    and "urs_Message rs0 = []" "ure_Content ev0 = []"
  shows "UnmarshalRoomRequest d1 (Some rq0) = (None, Some rq) \<and>
    UnmarshalRoomResponse d2 (Some rs0) = (None, Some rs) \<and>
    UnmarshalRoomEvent d3 (Some ev0) = (None, Some ev)"
proof (intro conjI)
  show "UnmarshalRoomRequest d1 (Some rq0) = (None, Some rq)"
    using assms(3) by (auto simp: MarshalRoomRequest_def message_simps roomRequestField_def)
  show "UnmarshalRoomResponse d2 (Some rs0) = (None, Some rs)"
    using assms(1,4,6)
    by (cases "urs_Message rs = []") (auto simp: MarshalRoomResponse_def message_simps roomResponseField_def)
  show "UnmarshalRoomEvent d3 (Some ev0) = (None, Some ev)"
    using assms(2,5,7)
    by (cases "ure_Content ev = []") (auto simp: MarshalRoomEvent_def message_simps roomEventField_def)
qed

theorem unity_room_messages_roundtrip_witness:
  "\<exists>d1 d2 d3. MarshalRoomRequest \<lparr> urq_RoomID = 7 \<rparr> = Inr d1 \<and>
     MarshalRoomResponse \<lparr> urs_RoomID = 7, urs_Code = -1, urs_Message = [0x6e, 0x6f], urs_PlayerCount = 2 \<rparr> = Inr d2 \<and>
     MarshalRoomEvent \<lparr> ure_RoomID = 7, ure_PlayerID = 3, ure_Content = [] \<rparr> = Inr d3 \<and>
     UnmarshalRoomResponse d2 (Some \<lparr> urs_RoomID = 0, urs_Code = 0, urs_Message = [], urs_PlayerCount = 0 \<rparr>)
       = (None, Some \<lparr> urs_RoomID = 7, urs_Code = -1, urs_Message = [0x6e, 0x6f], urs_PlayerCount = 2 \<rparr>)"
proof -
  obtain d1 d2 d3 where ms: "MarshalRoomRequest \<lparr> urq_RoomID = 7 \<rparr> = Inr d1"
    "MarshalRoomResponse \<lparr> urs_RoomID = 7, urs_Code = -1, urs_Message = [0x6e, 0x6f], urs_PlayerCount = 2 \<rparr> = Inr d2"
    "MarshalRoomEvent \<lparr> ure_RoomID = 7, ure_PlayerID = 3, ure_Content = [] \<rparr> = Inr d3"
    by (simp add: MarshalRoomRequest_def MarshalRoomResponse_def MarshalRoomEvent_def Let_def)
  with unity_room_messages_roundtrip [OF _ _ ms,
      of "\<lparr> urs_RoomID = 0, urs_Code = 0, urs_Message = [], urs_PlayerCount = 0 \<rparr>"
         "\<lparr> ure_RoomID = 0, ure_PlayerID = 0, ure_Content = [] \<rparr>" "\<lparr> urq_RoomID = 0 \<rparr>"]
  show ?thesis by simp
qed

text \<open>Every player announcement, player, movement and chat message that is marshalled and then
  unmarshalled comes back unchanged, whatever the receiver held before.\<close>
theorem unity_player_messages_roundtrip:
  assumes "length (ut_Content t) < 2 ^ 63"
    and "MarshalSyncPID pid = Inr d1" "MarshalPlayer pl = Inr d2" "MarshalMovePackage mv = Inr d3"
    and "MarshalTalk t = Inr d4"
  shows "UnmarshalSyncPID d1 (Some pid0) = (None, Some pid) \<and>
    UnmarshalPlayer d2 (Some pl0) = (None, Some pl) \<and>
    UnmarshalMovePackage d3 (Some mv0) = (None, Some mv) \<and>
    UnmarshalTalk d4 (Some t0) = (None, Some t)"
proof (intro conjI)
  show "UnmarshalSyncPID d1 (Some pid0) = (None, Some pid)"
    using assms(2) by (auto simp: MarshalSyncPID_def message_simps syncPIDField_def)
  show "UnmarshalPlayer d2 (Some pl0) = (None, Some pl)"
    using player_roundtrip [OF assms(3)] by (simp add: decodeUnityFields_def)
  obtain pos where pos: "MarshalPosition (ump_P mv) = Inr pos"
    by (simp add: MarshalPosition_def)
  show "UnmarshalMovePackage d3 (Some mv0) = (None, Some mv)"
    using assms(4)
    by (auto simp: MarshalMovePackage_def pos message_simps movePackageField_def position_roundtrip [OF pos])
  show "UnmarshalTalk d4 (Some t0) = (None, Some t)"
    using assms(1,5) by (auto simp: MarshalTalk_def message_simps talkField_def)
qed

theorem unity_player_messages_roundtrip_witness:
  "\<exists>d1 d2 d3 d4. MarshalSyncPID \<lparr> usp_PID = -5 \<rparr> = Inr d1 \<and> MarshalPlayer zeroPlayer = Inr d2 \<and>
     MarshalMovePackage \<lparr> ump_P = zeroPosition, ump_ActionData = 3 \<rparr> = Inr d3 \<and>
     MarshalTalk \<lparr> ut_Content = [0x68] \<rparr> = Inr d4 \<and>
     UnmarshalTalk d4 (Some \<lparr> ut_Content = [] \<rparr>) = (None, Some \<lparr> ut_Content = [0x68] \<rparr>)"
proof -
  obtain d1 d2 d3 d4 where ms: "MarshalSyncPID \<lparr> usp_PID = -5 \<rparr> = Inr d1" "MarshalPlayer zeroPlayer = Inr d2"
    "MarshalMovePackage \<lparr> ump_P = zeroPosition, ump_ActionData = 3 \<rparr> = Inr d3"
    "MarshalTalk \<lparr> ut_Content = [0x68] \<rparr> = Inr d4"
    by (simp add: MarshalSyncPID_def MarshalPlayer_def MarshalMovePackage_def MarshalTalk_def
        MarshalPosition_def Let_def)
  with unity_player_messages_roundtrip [OF _ ms, of "\<lparr> usp_PID = 0 \<rparr>" zeroPlayer
      "\<lparr> ump_P = zeroPosition, ump_ActionData = 0 \<rparr>" "\<lparr> ut_Content = [] \<rparr>"]
  show ?thesis by simp
qed

text \<open>A field with a number the message does not know is skipped by its length, whatever its wire
  type: decoding goes on behind it with the receiver unchanged.\<close>
theorem unity_unknown_field_skipped:
  assumes "readUnityField data 0 = Inr (f, w, v, n, next)" "f > 5"
  shows "UnmarshalBroadCast data (Some b) = UnmarshalBroadCast (drop next data) (Some b) \<and>
    UnmarshalRoomResponse data (Some r) = UnmarshalRoomResponse (drop next data) (Some r) \<and>
    UnmarshalPlayer data (Some p) = UnmarshalPlayer (drop next data) (Some p) \<and>
    UnmarshalMovePackage data (Some m) = UnmarshalMovePackage (drop next data) (Some m)"
proof -
  have skip: "decodeLoop callback data 0 s = decodeLoop callback (drop next data) 0 s"
    if "callback f w v n s = (None, s)" for callback :: "'s unity_callback" and s
    using decodeLoop_shift [of "next" data callback 0 s] readUnityField_offset [OF assms(1)] assms(1) that
    by (subst decodeLoop.simps) auto
  show ?thesis
    using assms(2)
    by (simp add: decodeUnityFields_def skip broadCastField_def roomResponseField_def playerField_def
        movePackageField_def)
qed

theorem unity_unknown_field_skipped_witness:
  "readUnityField [0x32, 1, 0xff, 8, 5] 0 = Inr (6, 2, [0xff], 0, 3) \<and>
   UnmarshalBroadCast [0x32, 1, 0xff, 8, 5] (Some fresh_broadcast)
     = UnmarshalBroadCast [8, 5] (Some fresh_broadcast)"
proof -
  have "readUnityField [0x32, 1, 0xff, 8, 5] 0 = Inr (6, 2, [0xff], 0, 3)" by code_simp
  with unity_unknown_field_skipped [OF this, of fresh_broadcast] show ?thesis by simp
qed

end
