(* ===== verification/Config.thy ===== *)
theory Config
  imports Prelude
begin

text \<open>
  The service configuration: \<open>utils/globalobj.go\<close> and \<open>gnet/config.go\<close>. The file
  system and \<open>json.Unmarshal\<close> are arguments of the loading operations: \<open>fs\<close> gives the
  contents of a path, and \<open>unmarshal data c\<close> the configuration \<open>c\<close> with the fields
  present in \<open>data\<close> overwritten, with the error it reports, if any.
\<close>

record Config =
  Host :: string
  TcpPort :: int
  Name :: string
  MaxPacketSize :: u32
  MaxMsgChanLen :: u32
  MaxConn :: int
  WorkerPoolSize :: u32
  MaxWorkerTaskLen :: u32
  WorkerTaskQueueWaitTime :: u32
  HeartbeatMax :: int
  WriteTimeout :: u32
  SendTimeout :: u32
  MessageRateLimit :: int
  MessageRateBurst :: int

definition DefaultConfig :: Config where
  "DefaultConfig = \<lparr>
     Host = ''0.0.0.0'', TcpPort = 7777, Name = ''ZinxServerApp'',
     MaxPacketSize = 4096, MaxMsgChanLen = 1024, MaxConn = 12000,
     WorkerPoolSize = 10, MaxWorkerTaskLen = 1024, WorkerTaskQueueWaitTime = 100,
     HeartbeatMax = 10, WriteTimeout = 0, SendTimeout = 0,
     MessageRateLimit = 0, MessageRateBurst = 0 \<rparr>"

definition LoadConfig ::
    "(string \<Rightarrow> bytes res) \<Rightarrow> (bytes \<Rightarrow> Config \<Rightarrow> Config \<times> go_error option) \<Rightarrow> string
     \<Rightarrow> Config \<times> go_error option" where
  "LoadConfig fs unmarshal path =
     (case fs path of
        Inl err \<Rightarrow> (DefaultConfig, Some err)
      | Inr data \<Rightarrow> unmarshal data DefaultConfig)"

text \<open>
  \<open>Reload\<close> overwrites the receiver; its only failure is the panic on a malformed file. A
  missing file is not an error: the receiver stays as it is.
\<close>

definition Reload ::
    "(string \<Rightarrow> bytes res) \<Rightarrow> (bytes \<Rightarrow> Config \<Rightarrow> Config \<times> go_error option) \<Rightarrow> Config
     \<Rightarrow> Config \<times> go_error option" where
  "Reload fs unmarshal g =
     (let data = (case fs ''config/ginx.json'' of
                    Inr d \<Rightarrow> Inr d
                  | Inl _ \<Rightarrow> fs ''../config/ginx.json'')
      in case data of
           Inl _ \<Rightarrow> (g, None)
         | Inr d \<Rightarrow>
             (case unmarshal d g of
                (g', None) \<Rightarrow> (g', None)
              | (g', Some err) \<Rightarrow> (g', Some (Panic ''json''))))"

text \<open>
  A nil instance configuration stands for the process-wide \<open>utils.GlobalObject\<close>, which is
  the argument \<open>g\<close> of every operation that reads the configuration.
\<close>

definition effectiveConfig :: "Config \<Rightarrow> Config option \<Rightarrow> Config" where
  "effectiveConfig g c = (case c of Some config \<Rightarrow> config | None \<Rightarrow> g)"

lemma effectiveConfig_simps [simp]:
  "effectiveConfig g (Some c) = c" "effectiveConfig g None = g"
  by (simp_all add: effectiveConfig_def)

lemma Reload_missing:
  assumes "fs ''config/ginx.json'' = Inl e" "fs ''../config/ginx.json'' = Inl e'"
  shows "Reload fs unmarshal g = (g, None)"
  using assms by (simp add: Reload_def)

end
