(* ===== verification/DataPack.thy ===== *)
theory DataPack
  imports Config
begin

text \<open>
  The TCP framing of \<open>gnet/message.go\<close> and \<open>gnet/datapack.go\<close>: a packet is the payload
  length and the message id, four little-endian bytes each, followed by the payload. A reader is
  the sequence of chunks that successive \<open>Read\<close> calls deliver, followed by an error; the main
  results say that packing and reading are inverse on every fragmentation of the stream.
\<close>

section \<open>Messages\<close>

record Message =
  msg_Id :: u32
  msg_Data :: bytes
  msg_DataLen :: u32

definition NewMsgPackage :: "u32 \<Rightarrow> bytes \<Rightarrow> Message" where
  "NewMsgPackage i data = \<lparr> msg_Id = i, msg_Data = data, msg_DataLen = of_nat (length data) \<rparr>"

definition GetDataLen :: "Message \<Rightarrow> u32" where "GetDataLen m = msg_DataLen m"
definition GetMsgID :: "Message \<Rightarrow> u32" where "GetMsgID m = msg_Id m"
definition GetData :: "Message \<Rightarrow> bytes" where "GetData m = msg_Data m"
definition SetDataLen :: "u32 \<Rightarrow> Message \<Rightarrow> Message" where "SetDataLen n m = m\<lparr>msg_DataLen := n\<rparr>"
definition SetMsgID :: "u32 \<Rightarrow> Message \<Rightarrow> Message" where "SetMsgID i m = m\<lparr>msg_Id := i\<rparr>"
definition SetData :: "bytes \<Rightarrow> Message \<Rightarrow> Message" where "SetData d m = m\<lparr>msg_Data := d\<rparr>"

lemmas message_defs [go_simps] =
  NewMsgPackage_def GetDataLen_def GetMsgID_def GetData_def SetDataLen_def SetMsgID_def SetData_def

section \<open>Readers\<close>

text \<open>
  The part of \<open>io\<close> the codec uses. Each chunk is what one \<open>Read\<close> returns when the buffer
  is large enough; a smaller buffer takes a prefix of it. \<open>rd_err\<close> is the error reported once
  the chunks are used up (\<open>io.EOF\<close>, a deadline, a closed socket).
\<close>

record reader =
  rd_chunks :: "bytes list"
  rd_err :: go_error

abbreviation io_EOF :: go_error where "io_EOF \<equiv> Err ''EOF''"
abbreviation io_ErrUnexpectedEOF :: go_error where "io_ErrUnexpectedEOF \<equiv> Err ''unexpected EOF''"

fun read_full_loop :: "nat \<Rightarrow> bytes \<Rightarrow> bytes list \<Rightarrow> bytes option \<times> bytes \<times> bytes list" where
  "read_full_loop need acc [] = (if need = 0 then Some acc else None, acc, [])"
| "read_full_loop need acc (c # cs) =
     (if need = 0 then (Some acc, acc, c # cs)
      else if length c \<le> need then read_full_loop (need - length c) (acc @ c) cs
      else (Some (acc @ take need c), acc @ take need c, drop need c # cs))"

definition ReadFull :: "nat \<Rightarrow> reader \<Rightarrow> bytes res \<times> reader" where
  "ReadFull n r =
     (case read_full_loop n [] (rd_chunks r) of
        (Some bs, _, cs) \<Rightarrow> (Inr bs, r\<lparr>rd_chunks := cs\<rparr>)
      | (None, got, cs) \<Rightarrow>
          (Inl (if got \<noteq> [] \<and> rd_err r = io_EOF then io_ErrUnexpectedEOF else rd_err r),
           r\<lparr>rd_chunks := cs\<rparr>))"

section \<open>The codec\<close>

record DataPack =
  dp_config :: "Config option"

definition GetHeadLen :: "DataPack \<Rightarrow> u32" where
  "GetHeadLen d = 8"

definition NewDataPack :: DataPack where
  "NewDataPack = \<lparr> dp_config = None \<rparr>"

definition zeroConfig :: Config where
  "zeroConfig = \<lparr> Host = [], TcpPort = 0, Name = [], MaxPacketSize = 0, MaxMsgChanLen = 0,
     MaxConn = 0, WorkerPoolSize = 0, MaxWorkerTaskLen = 0, WorkerTaskQueueWaitTime = 0,
     HeartbeatMax = 0, WriteTimeout = 0, SendTimeout = 0, MessageRateLimit = 0,
     MessageRateBurst = 0 \<rparr>"

definition NewDataPackWithLimit :: "u32 \<Rightarrow> DataPack" where
  "NewDataPackWithLimit maxPacketSize =
     \<lparr> dp_config = Some (zeroConfig\<lparr>MaxPacketSize := maxPacketSize\<rparr>) \<rparr>"

definition Pack :: "Config \<Rightarrow> DataPack \<Rightarrow> Message option \<Rightarrow> bytes res" where
  "Pack g d msg =
     (case msg of
        None \<Rightarrow> Inl (Err ''message is nil'')
      | Some m \<Rightarrow>
          if GetDataLen m \<noteq> of_nat (length (GetData m))
          then Inl (Err ''message data length does not match payload'')
          else
            let maxPacketSize = MaxPacketSize (effectiveConfig g (dp_config d))
            in if maxPacketSize > 0 \<and> GetDataLen m > maxPacketSize
               then Inl (Err ''too large msg data sent'')
               else Inr (PutUint32 (GetDataLen m) @ PutUint32 (GetMsgID m) @ GetData m))"

definition Unpack :: "Config \<Rightarrow> DataPack \<Rightarrow> bytes \<Rightarrow> Message res" where
  "Unpack g d bd =
     (if of_nat (length bd) \<noteq> GetHeadLen d then Inl (Err ''invalid message header length'')
      else
        let message = \<lparr> msg_Id = Uint32 (slice 4 8 bd), msg_Data = [],
                        msg_DataLen = Uint32 (slice 0 4 bd) \<rparr>;
            maxPacketSize = MaxPacketSize (effectiveConfig g (dp_config d))
        in if maxPacketSize > 0 \<and> msg_DataLen message > maxPacketSize
           then Inl (Err ''too large msg data received'')
           else Inr message)"

definition ReadMessage :: "Config \<Rightarrow> DataPack \<Rightarrow> reader option \<Rightarrow> Message res \<times> reader option" where
  "ReadMessage g d reader =
     (case reader of
        None \<Rightarrow> (Inl (Err ''message reader is nil''), None)
      | Some r \<Rightarrow>
          (case ReadFull (unat (GetHeadLen d)) r of
             (Inl err, r1) \<Rightarrow> (Inl err, Some r1)
           | (Inr header, r1) \<Rightarrow>
               (case Unpack g d header of
                  Inl err \<Rightarrow> (Inl err, Some r1)
                | Inr message \<Rightarrow>
                    if GetDataLen message = 0 then (Inr (SetData [] message), Some r1)
                    else (case ReadFull (unat (GetDataLen message)) r1 of
                            (Inl err, r2) \<Rightarrow> (Inl err, Some r2)
                          | (Inr data, r2) \<Rightarrow> (Inr (SetData data message), Some r2)))))"

section \<open>Reading is independent of the fragmentation\<close>

definition rd_bytes :: "reader \<Rightarrow> bytes" where
  "rd_bytes r = concat (rd_chunks r)"

lemma read_full_loop_spec:
  "read_full_loop need acc cs = (out, got, cs') \<Longrightarrow>
     (if need \<le> length (concat cs)
      then out = Some (acc @ take need (concat cs)) \<and> concat cs' = drop need (concat cs)
      else out = None \<and> got = acc @ concat cs \<and> cs' = [])"
proof (induction need acc cs rule: read_full_loop.induct)
  case (1 need acc)
  then show ?case by (auto split: if_splits)
next
  case (2 need acc c cs)
  then show ?case by (auto split: if_splits)
qed

text \<open>\<open>io.ReadFull\<close>: the first \<open>n\<close> bytes of the stream however they are chunked, and an
  error exactly when the stream is too short.\<close>

lemma ReadFull_enough:
  assumes "n \<le> length (rd_bytes r)"
  shows "\<exists>r'. ReadFull n r = (Inr (take n (rd_bytes r)), r') \<and> rd_bytes r' = drop n (rd_bytes r)
           \<and> rd_err r' = rd_err r"
proof -
  obtain out got cs where l: "read_full_loop n [] (rd_chunks r) = (out, got, cs)"
    by (metis prod_cases3)
  from read_full_loop_spec [OF l] assms show ?thesis
    by (auto simp: ReadFull_def l rd_bytes_def)
qed

lemma ReadFull_short:
  assumes "length (rd_bytes r) < n"
  shows "ReadFull n r =
           (Inl (if rd_bytes r \<noteq> [] \<and> rd_err r = io_EOF then io_ErrUnexpectedEOF else rd_err r),
            r\<lparr>rd_chunks := []\<rparr>)"
proof -
  obtain out got cs where l: "read_full_loop n [] (rd_chunks r) = (out, got, cs)"
    by (metis prod_cases3)
  from read_full_loop_spec [OF l] assms show ?thesis
    by (auto simp: ReadFull_def l rd_bytes_def)
qed

section \<open>Packing and reading are inverse\<close>

text \<open>The size limit of a codec; a limit of 0 means no limit.\<close>

definition within_limit :: "Config \<Rightarrow> DataPack \<Rightarrow> u32 \<Rightarrow> bool" where
  "within_limit g d n \<longleftrightarrow>
     (let mx = MaxPacketSize (effectiveConfig g (dp_config d)) in mx = 0 \<or> n \<le> mx)"

text \<open>The bytes of a well-formed packet.\<close>

definition packet :: "Message \<Rightarrow> bytes" where
  "packet m = PutUint32 (msg_DataLen m) @ PutUint32 (msg_Id m) @ msg_Data m"

definition framed :: "Message \<Rightarrow> bool" where
  "framed m \<longleftrightarrow> length (msg_Data m) = unat (msg_DataLen m)"

lemma length_packet [simp, wire_simps]: "length (packet m) = 8 + length (msg_Data m)"
  by (simp add: packet_def)

lemma Pack_eq [go_simps]:
  "Pack g d (Some m) =
     (if msg_DataLen m \<noteq> of_nat (length (msg_Data m))
      then Inl (Err ''message data length does not match payload'')
      else if \<not> within_limit g d (msg_DataLen m) then Inl (Err ''too large msg data sent'')
      else Inr (packet m))"
  by (auto simp: Pack_def within_limit_def packet_def message_defs Let_def not_le word_gt_0)

lemma Unpack_eq [go_simps]:
  assumes "length bd = 8"
  shows "Unpack g d bd =
     (if \<not> within_limit g d (Uint32 (slice 0 4 bd)) then Inl (Err ''too large msg data received'')
      else Inr \<lparr> msg_Id = Uint32 (slice 4 8 bd), msg_Data = [], msg_DataLen = Uint32 (slice 0 4 bd) \<rparr>)"
  using assms by (auto simp: Unpack_def GetHeadLen_def within_limit_def Let_def not_le word_gt_0)

lemma header_slices [simp]:
  "slice 0 4 (PutUint32 a @ PutUint32 b) = PutUint32 a"
  "slice 4 8 (PutUint32 a @ PutUint32 b) = PutUint32 b"
  by (simp_all add: slice_def)

lemma header_split:
  assumes "length bd = 8"
  shows "bd = PutUint32 (Uint32 (slice 0 4 bd)) @ PutUint32 (Uint32 (slice 4 8 bd))"
proof -
  have "length (slice 0 4 bd) = 4" "length (slice 4 8 bd) = 4"
    using assms by simp_all
  moreover have "bd = slice 0 4 bd @ slice 4 8 bd"
    using assms by (simp add: slice_def)
  ultimately show ?thesis
    by (simp add: PutUint32_Uint32)
qed

lemma framed_of_Pack:
  assumes "Pack g d (Some m) = Inr p" and "length (msg_Data m) < 2 ^ 32"
  shows "framed m \<and> p = packet m \<and> within_limit g d (msg_DataLen m)"
  using assms by (auto simp: Pack_eq framed_def unat_of_nat split: if_splits)

text \<open>Reading at the front of a stream that starts with a packet.\<close>

lemma ReadMessage_packet:
  assumes fr: "framed m" and lim: "within_limit g d (msg_DataLen m)"
    and bytes: "rd_bytes r = packet m @ rest"
  shows "\<exists>r'. ReadMessage g d (Some r) = (Inr m, Some r') \<and> rd_bytes r' = rest \<and> rd_err r' = rd_err r"
proof -
  let ?h = "PutUint32 (msg_DataLen m) @ PutUint32 (msg_Id m)"
  obtain r1 where r1: "ReadFull 8 r = (Inr ?h, r1)" "rd_bytes r1 = msg_Data m @ rest"
      "rd_err r1 = rd_err r"
    using ReadFull_enough [of 8 r] by (auto simp: bytes packet_def)
  have un: "Unpack g d ?h = Inr \<lparr> msg_Id = msg_Id m, msg_Data = [], msg_DataLen = msg_DataLen m \<rparr>"
    using lim by (simp add: Unpack_eq)
  show ?thesis
  proof (cases "msg_DataLen m = 0")
    case True
    with fr have "msg_Data m = []" by (simp add: framed_def)
    with True r1 un show ?thesis
      by (cases m) (auto simp: ReadMessage_def GetHeadLen_def message_defs)
  next
    case False
    obtain r2 where "ReadFull (unat (msg_DataLen m)) r1 = (Inr (msg_Data m), r2)"
        "rd_bytes r2 = rest" "rd_err r2 = rd_err r1"
      using ReadFull_enough [of "unat (msg_DataLen m)" r1] fr by (auto simp: r1 framed_def)
    with False r1 un show ?thesis
      by (cases m) (auto simp: ReadMessage_def GetHeadLen_def message_defs)
  qed
qed

text \<open>Conversely, whatever \<open>ReadMessage\<close> accepts is the packet of the message it returns.\<close>

lemma ReadMessage_sound:
  assumes rd: "ReadMessage g d (Some r) = (Inr m, Some r')"
  shows "framed m \<and> within_limit g d (msg_DataLen m) \<and> rd_bytes r = packet m @ rd_bytes r'"
proof -
  let ?bs = "rd_bytes r" and ?h = "take 8 (rd_bytes r)"
  have len: "8 \<le> length ?bs"
    using rd ReadFull_short [of r 8]
    by (cases "8 \<le> length ?bs") (auto simp: ReadMessage_def GetHeadLen_def)
  then obtain r1 where r1: "ReadFull 8 r = (Inr ?h, r1)" "rd_bytes r1 = drop 8 ?bs"
    using ReadFull_enough by blast
  let ?n = "Uint32 (slice 0 4 ?h)" and ?id = "Uint32 (slice 4 8 ?h)"
  have lim: "within_limit g d ?n"
    using rd r1 len by (auto simp: ReadMessage_def GetHeadLen_def Unpack_eq split: if_splits)
  have head: "?h = PutUint32 ?n @ PutUint32 ?id"
    using len by (intro header_split) simp
  have enough: "unat ?n \<le> length (drop 8 ?bs)"
  proof (rule ccontr)
    assume "\<not> ?thesis"
    then have short: "length (rd_bytes r1) < unat ?n" by (simp add: r1)
    then have "?n \<noteq> 0" by auto
    with rd r1 len lim ReadFull_short [OF short] show False
      by (auto simp: ReadMessage_def GetHeadLen_def Unpack_eq message_defs)
  qed
  then obtain r2 where r2: "ReadFull (unat ?n) r1 = (Inr (take (unat ?n) (drop 8 ?bs)), r2)"
      "rd_bytes r2 = drop (unat ?n) (drop 8 ?bs)"
    using ReadFull_enough [of "unat ?n" r1] by (auto simp: r1)
  have m: "m = \<lparr> msg_Id = ?id, msg_Data = take (unat ?n) (drop 8 ?bs), msg_DataLen = ?n \<rparr>"
    and r': "rd_bytes r' = drop (unat ?n) (drop 8 ?bs)"
    using rd r1 r2 len lim
    by (auto simp: ReadMessage_def GetHeadLen_def Unpack_eq message_defs split: if_splits)
  have "?bs = ?h @ take (unat ?n) (drop 8 ?bs) @ drop (unat ?n) (drop 8 ?bs)"
    by (simp only: append_take_drop_id)
  moreover have "packet m = ?h @ take (unat ?n) (drop 8 ?bs)"
    by (subst head) (simp add: m packet_def)
  ultimately show ?thesis
    using lim enough by (simp add: m r' framed_def)
qed

section \<open>Streams of messages\<close>

fun PackAll :: "Config \<Rightarrow> DataPack \<Rightarrow> Message list \<Rightarrow> bytes res" where
  "PackAll g d [] = Inr []"
| "PackAll g d (m # ms) =
     (case Pack g d (Some m) of
        Inl e \<Rightarrow> Inl e
      | Inr p \<Rightarrow> (case PackAll g d ms of Inl e \<Rightarrow> Inl e | Inr ps \<Rightarrow> Inr (p @ ps)))"

fun ReadMessages :: "nat \<Rightarrow> Config \<Rightarrow> DataPack \<Rightarrow> reader option \<Rightarrow> Message list res \<times> reader option" where
  "ReadMessages 0 g d r = (Inr [], r)"
| "ReadMessages (Suc n) g d r =
     (case ReadMessage g d r of
        (Inl e, r1) \<Rightarrow> (Inl e, r1)
      | (Inr m, r1) \<Rightarrow>
          (case ReadMessages n g d r1 of
             (Inl e, r2) \<Rightarrow> (Inl e, r2)
           | (Inr ms, r2) \<Rightarrow> (Inr (m # ms), r2)))"

lemma PackAll_Inr:
  assumes "PackAll g d ms = Inr ps" and "\<forall>m \<in> set ms. length (msg_Data m) < 2 ^ 32"
  shows "ps = concat (map packet ms) \<and> (\<forall>m \<in> set ms. framed m \<and> within_limit g d (msg_DataLen m))"
  using assms
proof (induction ms arbitrary: ps)
  case Nil
  then show ?case by simp
next
  case (Cons m ms)
  then obtain p ps' where p: "Pack g d (Some m) = Inr p" "PackAll g d ms = Inr ps'" "ps = p @ ps'"
    by (auto split: sum.splits)
  moreover from this Cons.prems have "framed m \<and> p = packet m \<and> within_limit g d (msg_DataLen m)"
    by (intro framed_of_Pack) auto
  ultimately show ?case
    using Cons.IH [of ps'] Cons.prems by auto
qed

lemma ReadMessages_packets:
  assumes "\<forall>m \<in> set ms. framed m \<and> within_limit g d (msg_DataLen m)"
    and "rd_bytes r = concat (map packet ms) @ rest"
  shows "\<exists>r'. ReadMessages (length ms) g d (Some r) = (Inr ms, Some r') \<and> rd_bytes r' = rest"
  using assms
proof (induction ms arbitrary: r)
  case Nil
  then show ?case by simp
next
  case (Cons m ms)
  then obtain r1 where r1: "ReadMessage g d (Some r) = (Inr m, Some r1)"
      "rd_bytes r1 = concat (map packet ms) @ rest"
    using ReadMessage_packet [of m g d r "concat (map packet ms) @ rest"] by auto
  moreover from this obtain r' where
      "ReadMessages (length ms) g d (Some r1) = (Inr ms, Some r')" "rd_bytes r' = rest"
    using Cons.IH [of r1] Cons.prems by auto
  ultimately show ?case by simp
qed

section \<open>Properties\<close>

text \<open>C1: framing round trip. Messages that were packed one after the other are read back in the
  same order and with the same contents, whatever chunks the stream arrives in (half packets and
  coalesced packets), and the reader is left exactly behind the last of them.\<close>

theorem framing_roundtrip:
  assumes "PackAll g d ms = Inr ps" and "\<forall>m \<in> set ms. length (msg_Data m) < 2 ^ 32"
    and "concat (rd_chunks r) = ps @ rest"
  shows "\<exists>r'. ReadMessages (length ms) g d (Some r) = (Inr ms, Some r') \<and> concat (rd_chunks r') = rest"
proof -
  from PackAll_Inr [OF assms(1,2)] assms(3)
  show ?thesis
    using ReadMessages_packets [of ms g d r rest] by (auto simp: rd_bytes_def)
qed

theorem framing_roundtrip_witness:
  "\<exists>r'. ReadMessages (length [NewMsgPackage 7 [65, 66], NewMsgPackage 9 []]) DefaultConfig NewDataPack
          (Some \<lparr> rd_chunks = [[2, 0], [0, 0, 7, 0, 0, 0, 65], [66, 0, 0, 0, 0, 9], [0, 0, 0, 1]],
                  rd_err = io_EOF \<rparr>)
        = (Inr [NewMsgPackage 7 [65, 66], NewMsgPackage 9 []], Some r')
      \<and> concat (rd_chunks r') = [1]"
proof -
  have "PackAll DefaultConfig NewDataPack [NewMsgPackage 7 [65, 66], NewMsgPackage 9 []]
      = Inr [2, 0, 0, 0, 7, 0, 0, 0, 65, 66, 0, 0, 0, 0, 9, 0, 0, 0]"
    by code_simp
  moreover have "\<forall>m \<in> set [NewMsgPackage 7 [65, 66], NewMsgPackage 9 []]. length (msg_Data m) < 2 ^ 32"
    by (simp add: NewMsgPackage_def)
  moreover have "concat (rd_chunks \<lparr> rd_chunks = [[2, 0], [0, 0, 7, 0, 0, 0, 65], [66, 0, 0, 0, 0, 9],
      [0, 0, 0, 1]], rd_err = io_EOF \<rparr>) = [2, 0, 0, 0, 7, 0, 0, 0, 65, 66, 0, 0, 0, 0, 9, 0, 0, 0] @ [1]"
    by simp
  ultimately show ?thesis
    by (rule framing_roundtrip)
qed

text \<open>framing soundness. A message \<open>ReadMessage\<close> returns carries exactly as many payload
  bytes as its header announces, respects the size limit, and packing it again yields byte for
  byte what was consumed from the stream.\<close>

theorem read_then_pack_identity:
  assumes "ReadMessage g d (Some r) = (Inr m, Some r')"
  shows "\<exists>p. Pack g d (Some m) = Inr p \<and> concat (rd_chunks r) = p @ concat (rd_chunks r')
          \<and> length (msg_Data m) = unat (msg_DataLen m)"
  using ReadMessage_sound [OF assms] by (auto simp: Pack_eq framed_def rd_bytes_def)

theorem read_then_pack_identity_witness:
  "\<exists>p. Pack DefaultConfig NewDataPack (Some (NewMsgPackage 7 [65])) = Inr p
     \<and> [1, 0, 0, 0, 7, 0, 0, 0, 65, 99] = p @ [99]
     \<and> length (msg_Data (NewMsgPackage 7 [65])) = unat (msg_DataLen (NewMsgPackage 7 [65]))"
  using read_then_pack_identity [of DefaultConfig NewDataPack
      "\<lparr> rd_chunks = [[1, 0, 0, 0, 7], [0, 0, 0], [65, 99]], rd_err = io_EOF \<rparr>"
      "NewMsgPackage 7 [65]" "\<lparr> rd_chunks = [[99]], rd_err = io_EOF \<rparr>"]
  by (simp add: ReadMessage_def ReadFull_def GetHeadLen_def Unpack_def message_defs NewDataPack_def
      DefaultConfig_def Uint32_def slice_def)

text \<open>an announced payload above the limit is refused from the header alone: exactly the
  eight header bytes have been consumed, no payload byte has been read.\<close>

theorem oversized_rejected_from_header:
  assumes "rd_bytes r = PutUint32 n @ PutUint32 i @ rest"
    and "MaxPacketSize (effectiveConfig g (dp_config d)) > 0"
    and "n > MaxPacketSize (effectiveConfig g (dp_config d))"
  shows "\<exists>r'. ReadMessage g d (Some r) = (Inl (Err ''too large msg data received''), Some r')
           \<and> rd_bytes r' = rest"
proof -
  obtain r1 where "ReadFull 8 r = (Inr (PutUint32 n @ PutUint32 i), r1)" "rd_bytes r1 = rest"
    using ReadFull_enough [of 8 r] by (auto simp: assms(1))
  moreover have "\<not> within_limit g d n"
    using assms(2,3) by (simp add: within_limit_def Let_def word_gt_0)
  ultimately show ?thesis
    by (simp add: ReadMessage_def GetHeadLen_def Unpack_eq)
qed

theorem oversized_rejected_from_header_witness:
  "\<exists>r'. ReadMessage DefaultConfig NewDataPack
          (Some \<lparr> rd_chunks = [PutUint32 4097, PutUint32 3, [1, 2]], rd_err = io_EOF \<rparr>)
        = (Inl (Err ''too large msg data received''), Some r') \<and> rd_bytes r' = [1, 2]"
  using oversized_rejected_from_header [of
      "\<lparr> rd_chunks = [PutUint32 4097, PutUint32 3, [1, 2]], rd_err = io_EOF \<rparr>" 4097 3 "[1, 2]"
      DefaultConfig NewDataPack]
  by (simp add: rd_bytes_def NewDataPack_def DefaultConfig_def)

text \<open>C40: the length field is 32 bits wide. A payload of at least 4 GiB passes every check of
  \<open>Pack\<close> under its length modulo \<open>2 ^ 32\<close>, and the packet announces only that many bytes,
  so the receiver takes the rest of the payload for the next packet.\<close>

theorem pack_length_wraps:
  assumes "2 ^ 32 \<le> length data" and "Pack g d (Some (NewMsgPackage i data)) = Inr p"
    and "rd_bytes r = p"
  shows "\<exists>r'. ReadMessage g d (Some r)
            = (Inr (NewMsgPackage i (take (length data mod 2 ^ 32) data)), Some r')
          \<and> rd_bytes r' = drop (length data mod 2 ^ 32) data \<and> rd_bytes r' \<noteq> []"
proof -
  let ?k = "length data mod 2 ^ 32"
  let ?m = "NewMsgPackage i (take ?k data)"
  have k: "?k < length data"
    using assms(1) by (meson mod_less_divisor less_le_trans pos2 zero_less_power)
  then have wrap: "msg_DataLen (NewMsgPackage i data) = msg_DataLen ?m"
    by (simp add: NewMsgPackage_def word_of_nat_eq_iff take_bit_eq_mod)
  have "packet (NewMsgPackage i data) = packet ?m @ drop ?k data"
    using wrap by (simp add: packet_def) (simp add: NewMsgPackage_def)
  moreover have "p = packet (NewMsgPackage i data)" "within_limit g d (msg_DataLen ?m)"
    using assms(2) wrap by (auto simp: Pack_eq split: if_splits)
  moreover have "framed ?m"
    by (simp add: framed_def NewMsgPackage_def unat_of_nat min_def)
  ultimately show ?thesis
    using ReadMessage_packet [of ?m g d r "drop ?k data"] assms(3) k by auto
qed

theorem pack_length_wraps_witness:
  "\<exists>r'. ReadMessage DefaultConfig NewDataPack
          (Some \<lparr> rd_chunks = [packet (NewMsgPackage 5 (replicate (2 ^ 32 + 3) 1))], rd_err = io_EOF \<rparr>)
        = (Inr (NewMsgPackage 5 (take ((2 ^ 32 + 3) mod 2 ^ 32) (replicate (2 ^ 32 + 3) 1))), Some r')
      \<and> rd_bytes r' = drop ((2 ^ 32 + 3) mod 2 ^ 32) (replicate (2 ^ 32 + 3) 1) \<and> rd_bytes r' \<noteq> []"
proof -
  let ?data = "replicate (2 ^ 32 + 3) 1 :: bytes"
  have "Pack DefaultConfig NewDataPack (Some (NewMsgPackage 5 ?data)) = Inr (packet (NewMsgPackage 5 ?data))"
    unfolding Pack_eq
    by (simp add: within_limit_def NewMsgPackage_def NewDataPack_def DefaultConfig_def
        del: replicate.simps replicate_Suc)
  from pack_length_wraps [OF _ this, of "\<lparr> rd_chunks = [packet (NewMsgPackage 5 ?data)], rd_err = io_EOF \<rparr>"]
  show ?thesis
    unfolding length_replicate rd_bytes_def by simp
qed

end
