(* ===== verification/Metrics.thy ===== *)
theory Metrics
  imports Prelude
begin

text \<open>
  The run-time counters of \<open>metrics/metrics.go\<close>. Each counter is a 64-bit atomic that wraps;
  \<open>connections\<close> is read as a signed number. Every method accepts a nil receiver, so the
  receiver is an option.
\<close>

record Metrics =
  mt_connections :: u64
  mt_messages :: u64
  mt_bytesIn :: u64
  mt_bytesOut :: u64
  mt_routerPanics :: u64

record Snapshot =
  sn_Connections :: int
  sn_Messages :: nat
  sn_BytesIn :: nat
  sn_BytesOut :: nat
  sn_RouterPanics :: nat

definition zeroMetrics :: Metrics where
  "zeroMetrics = \<lparr> mt_connections = 0, mt_messages = 0, mt_bytesIn = 0, mt_bytesOut = 0,
     mt_routerPanics = 0 \<rparr>"

definition AddConnections :: "int \<Rightarrow> Metrics option \<Rightarrow> Metrics option" where
  "AddConnections delta m = map_option (\<lambda>m. m\<lparr>mt_connections := mt_connections m + of_int delta\<rparr>) m"

definition IncMessages :: "Metrics option \<Rightarrow> Metrics option" where
  "IncMessages m = map_option (\<lambda>m. m\<lparr>mt_messages := mt_messages m + 1\<rparr>) m"

definition AddBytesIn :: "u64 \<Rightarrow> Metrics option \<Rightarrow> Metrics option" where
  "AddBytesIn value m = map_option (\<lambda>m. m\<lparr>mt_bytesIn := mt_bytesIn m + value\<rparr>) m"

definition AddBytesOut :: "u64 \<Rightarrow> Metrics option \<Rightarrow> Metrics option" where
  "AddBytesOut value m = map_option (\<lambda>m. m\<lparr>mt_bytesOut := mt_bytesOut m + value\<rparr>) m"

definition IncRouterPanics :: "Metrics option \<Rightarrow> Metrics option" where
  "IncRouterPanics m = map_option (\<lambda>m. m\<lparr>mt_routerPanics := mt_routerPanics m + 1\<rparr>) m"

definition TakeSnapshot :: "Metrics option \<Rightarrow> Snapshot" where
  "TakeSnapshot m =
     (case m of
        None \<Rightarrow> \<lparr> sn_Connections = 0, sn_Messages = 0, sn_BytesIn = 0, sn_BytesOut = 0,
                  sn_RouterPanics = 0 \<rparr>
      | Some m \<Rightarrow> \<lparr> sn_Connections = sint (mt_connections m), sn_Messages = unat (mt_messages m),
                    sn_BytesIn = unat (mt_bytesIn m), sn_BytesOut = unat (mt_bytesOut m),
                    sn_RouterPanics = unat (mt_routerPanics m) \<rparr>)"

lemmas metrics_defs [go_simps] =
  AddConnections_def IncMessages_def AddBytesIn_def AddBytesOut_def IncRouterPanics_def

text \<open>The gauge read back is the number of opened minus closed connections, while that number
  fits in 63 bits.\<close>

lemma snapshot_gauge:
  assumes "mt_connections m = of_nat n" and "n < 2 ^ 63"
  shows "sn_Connections (TakeSnapshot (Some m)) = int n"
proof -
  have "sint (of_nat n :: u64) = int n"
    using assms(2) by (simp add: signed_of_nat signed_take_bit_int_eq_self)
  with assms(1) show ?thesis
    by (simp add: TakeSnapshot_def)
qed

end
