(* ===== verification/TokenBucket.thy ===== *)
theory TokenBucket
  imports Prelude "HOL-Library.Signed_Division"
begin

text \<open>
  The token bucket of \<open>limit/token_bucket.go\<close>. \<open>float64\<close> values are reals; every
  arithmetic operation rounds its exact result with \<open>rnd\<close>, an argument of the model. The laws
  used of it are those of IEEE rounding (\<open>rounding\<close>): monotone, exact on values already
  rounded, and exact on 0. The quantitative bound of this theory is for exact arithmetic; that for rounding to the
  nearest float64 is in \<open>RateBound\<close>.
\<close>

definition rounding :: "(real \<Rightarrow> real) \<Rightarrow> bool" where
  "rounding rnd \<longleftrightarrow> mono rnd \<and> rnd 0 = 0 \<and> (\<forall>x. rnd (rnd x) = rnd x)"

record TokenBucket =
  tb_rate :: real
  tb_burst :: real
  tb_tokens :: real
  tb_lastRefill :: gotime

definition NewTokenBucket :: "(real \<Rightarrow> real) \<Rightarrow> gotime \<Rightarrow> int \<Rightarrow> int \<Rightarrow> TokenBucket res" where
  "NewTokenBucket rnd now rate burst =
     (if rate \<le> 0 then Inl (Err ''token bucket rate must be positive'')
      else if burst \<le> 0 then Inl (Err ''token bucket burst must be positive'')
      else Inr \<lparr> tb_rate = rnd (of_int rate), tb_burst = rnd (of_int burst),
                 tb_tokens = rnd (of_int burst), tb_lastRefill = now \<rparr>)"

text \<open>\<open>time.Duration.Seconds\<close>: whole seconds and nanoseconds converted separately.\<close>

definition Seconds :: "(real \<Rightarrow> real) \<Rightarrow> duration \<Rightarrow> real" where
  "Seconds rnd d = rnd (rnd (of_int (d sdiv 1000000000)) + rnd (rnd (of_int (d smod 1000000000)) / 1000000000))"

definition refill :: "(real \<Rightarrow> real) \<Rightarrow> gotime \<Rightarrow> TokenBucket \<Rightarrow> TokenBucket" where
  "refill rnd now tb =
     (let elapsed = Seconds rnd (now - tb_lastRefill tb)
      in if elapsed \<le> 0 then tb
         else
           let tokens = rnd (tb_tokens tb + rnd (elapsed * tb_rate tb));
               tokens = (if tokens > tb_burst tb then tb_burst tb else tokens)
           in tb\<lparr>tb_tokens := tokens, tb_lastRefill := now\<rparr>)"

text \<open>A nil bucket refuses everything.\<close>

definition AllowN :: "(real \<Rightarrow> real) \<Rightarrow> gotime \<Rightarrow> int \<Rightarrow> TokenBucket option \<Rightarrow> bool \<times> TokenBucket option" where
  "AllowN rnd now count bucket =
     (case bucket of
        None \<Rightarrow> (False, None)
      | Some tb \<Rightarrow>
          if count \<le> 0 then (False, Some tb)
          else
            let tb1 = refill rnd now tb
            in if rnd (of_int count) > tb_tokens tb1 then (False, Some tb1)
               else (True, Some (tb1\<lparr>tb_tokens := rnd (tb_tokens tb1 - rnd (of_int count))\<rparr>)))"

definition Allow :: "(real \<Rightarrow> real) \<Rightarrow> gotime \<Rightarrow> TokenBucket option \<Rightarrow> bool \<times> TokenBucket option" where
  "Allow rnd now bucket = AllowN rnd now 1 bucket"

text \<open>A sequence of calls, each with the clock reading it makes.\<close>

fun AllowRun :: "(real \<Rightarrow> real) \<Rightarrow> (gotime \<times> int) list \<Rightarrow> TokenBucket option \<Rightarrow> bool list \<times> TokenBucket option" where
  "AllowRun rnd [] bucket = ([], bucket)"
| "AllowRun rnd ((now, count) # calls) bucket =
     (case AllowN rnd now count bucket of
        (ok, bucket1) \<Rightarrow>
          (case AllowRun rnd calls bucket1 of (oks, bucket2) \<Rightarrow> (ok # oks, bucket2)))"

section \<open>The invariant\<close>

definition bucket_inv :: "(real \<Rightarrow> real) \<Rightarrow> TokenBucket \<Rightarrow> bool" where
  "bucket_inv rnd tb \<longleftrightarrow> 0 \<le> tb_tokens tb \<and> tb_tokens tb \<le> tb_burst tb
     \<and> rnd (tb_burst tb) = tb_burst tb \<and> 0 \<le> tb_rate tb"

lemma rounding_nonneg: "rounding rnd \<Longrightarrow> 0 \<le> x \<Longrightarrow> 0 \<le> rnd x"
  by (metis monoD rounding_def)

lemma bucket_inv_new:
  assumes "rounding rnd" "NewTokenBucket rnd now rate burst = Inr tb"
  shows "bucket_inv rnd tb"
  using assms rounding_nonneg [OF assms(1), of "of_int rate"] rounding_nonneg [OF assms(1), of "of_int burst"]
  by (auto simp: NewTokenBucket_def bucket_inv_def rounding_def split: if_splits)

lemma refill_fields [simp]:
  "tb_rate (refill rnd now tb) = tb_rate tb" "tb_burst (refill rnd now tb) = tb_burst tb"
  by (simp_all add: refill_def Let_def)

lemma rounding_mono: "rounding rnd \<Longrightarrow> x \<le> y \<Longrightarrow> rnd x \<le> rnd y"
  by (auto simp: rounding_def mono_def)

lemma bucket_inv_refill:
  assumes "rounding rnd" "bucket_inv rnd tb"
  shows "bucket_inv rnd (refill rnd now tb)"
proof (cases "Seconds rnd (now - tb_lastRefill tb) \<le> 0")
  case True
  with assms show ?thesis by (simp add: refill_def)
next
  case False
  let ?t = "rnd (tb_tokens tb + rnd (Seconds rnd (now - tb_lastRefill tb) * tb_rate tb))"
  have "0 \<le> Seconds rnd (now - tb_lastRefill tb) * tb_rate tb" "0 \<le> tb_tokens tb"
    using assms(2) False by (simp_all add: bucket_inv_def)
  then have "0 \<le> ?t"
    by (intro rounding_nonneg [OF assms(1)] add_nonneg_nonneg)
  moreover have "refill rnd now tb
      = tb\<lparr>tb_tokens := (if ?t > tb_burst tb then tb_burst tb else ?t), tb_lastRefill := now\<rparr>"
    using False by (simp add: refill_def Let_def)
  ultimately show ?thesis
    using assms(2) by (simp add: bucket_inv_def)
qed

lemma AllowN_cases:
  fixes rnd now count tb
  obtains "AllowN rnd now count (Some tb) = (False, Some tb)" "count \<le> 0"
  | "AllowN rnd now count (Some tb) = (False, Some (refill rnd now tb))" "0 < count"
  | "AllowN rnd now count (Some tb) = (True, Some ((refill rnd now tb)
        \<lparr>tb_tokens := rnd (tb_tokens (refill rnd now tb) - rnd (of_int count))\<rparr>))"
      "0 < count" "rnd (of_int count) \<le> tb_tokens (refill rnd now tb)"
  by (cases "count \<le> 0"; cases "tb_tokens (refill rnd now tb) < rnd (of_int count)")
     (auto simp: AllowN_def Let_def not_less intro: that)

lemma AllowN_Some:
  fixes rnd now count tb
  obtains ok tb' where "AllowN rnd now count (Some tb) = (ok, Some tb')"
  using AllowN_cases [where rnd = rnd and now = now and count = count and tb = tb] by metis

lemma bucket_inv_AllowN:
  assumes r: "rounding rnd" and inv: "bucket_inv rnd tb" and a: "AllowN rnd now count (Some tb) = (ok, Some tb')"
  shows "bucket_inv rnd tb' \<and> tb_burst tb' = tb_burst tb"
proof -
  have inv1: "bucket_inv rnd (refill rnd now tb)" using r inv by (rule bucket_inv_refill)
  let ?t = "tb_tokens (refill rnd now tb)"
  show ?thesis
  proof (cases rule: AllowN_cases [where rnd = rnd and now = now and count = count and tb = tb])
    case 3
    have "0 \<le> rnd (of_int count)"
      using 3(2) by (intro rounding_nonneg [OF r]) simp
    then have "rnd (?t - rnd (of_int count)) \<le> rnd (tb_burst tb)"
      using inv1 by (intro rounding_mono [OF r]) (simp add: bucket_inv_def)
    moreover have "0 \<le> rnd (?t - rnd (of_int count))"
      using 3(3) by (intro rounding_nonneg [OF r]) simp
    ultimately show ?thesis
      using a inv1 3(1) by (auto simp: bucket_inv_def)
  qed (use a inv inv1 in auto)
qed

lemma bucket_inv_AllowRun:
  assumes "rounding rnd" "bucket_inv rnd tb" "AllowRun rnd calls (Some tb) = (oks, Some tb')"
  shows "bucket_inv rnd tb' \<and> tb_burst tb' = tb_burst tb"
  using assms(2,3)
proof (induction calls arbitrary: tb oks)
  case (Cons call calls)
  obtain ok tb1 where "AllowN rnd (fst call) (snd call) (Some tb) = (ok, Some tb1)"
    by (rule AllowN_Some)
  with Cons.prems Cons.IH [of tb1] bucket_inv_AllowN [OF assms(1) Cons.prems(1)] show ?case
    by (cases call) (auto split: prod.splits)
qed simp

section \<open>The rate bound in exact arithmetic\<close>

lemma Seconds_exact: "Seconds (\<lambda>x. x) d = of_int d / 1000000000"
proof -
  have "d = d sdiv 1000000000 * 1000000000 + d smod 1000000000"
    by (simp add: sdiv_mult_smod_eq)
  then have "(of_int d :: real) = of_int (d sdiv 1000000000) * 1000000000 + of_int (d smod 1000000000)"
    by (metis (no_types, lifting) of_int_add of_int_mult of_int_numeral)
  then show ?thesis
    by (simp add: Seconds_def field_simps)
qed

definition granted :: "(gotime \<times> int) list \<Rightarrow> bool list \<Rightarrow> int" where
  "granted calls oks = (\<Sum>(call, ok) \<leftarrow> zip calls oks. if ok then snd call else 0)"

text \<open>The potential of a bucket: the tokens it would have without the cap, measured from an
  origin of time. A call never increases it, and a granted call decreases it by its count.\<close>

definition potential :: "TokenBucket \<Rightarrow> real" where
  "potential tb = tb_tokens tb - tb_rate tb * of_int (tb_lastRefill tb) / 1000000000"

lemma refill_potential:
  assumes "0 \<le> tb_rate tb"
  shows "potential (refill (\<lambda>x. x) now tb) \<le> potential tb"
    "tb_lastRefill (refill (\<lambda>x. x) now tb) \<le> max now (tb_lastRefill tb)"
  by (auto simp: refill_def Let_def Seconds_exact potential_def field_simps)

lemma AllowN_potential:
  assumes "0 \<le> tb_rate tb" and a: "AllowN (\<lambda>x. x) now count (Some tb) = (ok, Some tb')"
  shows "potential tb' + (if ok then of_int count else 0) \<le> potential tb"
    "tb_lastRefill tb' \<le> max now (tb_lastRefill tb)" "tb_rate tb' = tb_rate tb"
  using refill_potential [OF assms(1), of now] a
  by (auto simp: AllowN_def Let_def potential_def split: if_splits)

lemma AllowRun_Some: "\<exists>oks tb'. AllowRun rnd calls (Some tb) = (oks, Some tb')"
proof (induction calls arbitrary: tb)
  case (Cons call calls)
  obtain now count where call: "call = (now, count)" by fastforce
  obtain ok tb1 where "AllowN rnd now count (Some tb) = (ok, Some tb1)"
    by (rule AllowN_Some)
  moreover obtain oks tb2 where "AllowRun rnd calls (Some tb1) = (oks, Some tb2)"
    using Cons.IH by blast
  ultimately show ?case by (simp add: call)
qed simp

lemma AllowRun_potential:
  assumes "0 \<le> tb_rate tb" and "AllowRun (\<lambda>x. x) calls (Some tb) = (oks, Some tb')"
  shows "potential tb' + of_int (granted calls oks) \<le> potential tb
     \<and> tb_rate tb' = tb_rate tb
     \<and> ((\<forall>(now, _) \<in> set calls. now \<le> T) \<longrightarrow> tb_lastRefill tb \<le> T \<longrightarrow> tb_lastRefill tb' \<le> T)"
  using assms
proof (induction calls arbitrary: tb oks)
  case Nil
  then show ?case by (simp add: granted_def)
next
  case (Cons call calls)
  obtain now count where call: "call = (now, count)" by fastforce
  obtain ok tb1 where ok: "AllowN (\<lambda>x. x) now count (Some tb) = (ok, Some tb1)"
    by (rule AllowN_Some)
  obtain oks1 where oks1: "AllowRun (\<lambda>x. x) calls (Some tb1) = (oks1, Some tb')" "oks = ok # oks1"
    using Cons.prems(2) by (auto simp: call ok split: prod.splits)
  note step = AllowN_potential [OF Cons.prems(1) ok]
  have ih: "potential tb' + of_int (granted calls oks1) \<le> potential tb1"
      "tb_rate tb' = tb_rate tb1"
      "(\<forall>(now, _) \<in> set calls. now \<le> T) \<longrightarrow> tb_lastRefill tb1 \<le> T \<longrightarrow> tb_lastRefill tb' \<le> T"
    using Cons.IH [OF _ oks1(1)] step(3) Cons.prems(1) by auto
  have "granted (call # calls) oks = (if ok then count else 0) + granted calls oks1"
    by (simp add: granted_def oks1(2) call)
  with ih step show ?case
    by (auto simp: call)
qed

lemma granted_bound:
  assumes "NewTokenBucket (\<lambda>x. x) start rate burst = Inr tb"
    and "AllowRun (\<lambda>x. x) calls (Some tb) = (oks, bucket)"
    and "\<forall>(now, count) \<in> set calls. now \<le> T" and "start \<le> T"
  shows "of_int (granted calls oks) \<le> (of_int burst + of_int rate * (of_int (T - start) / 1000000000) :: real)"
proof -
  obtain tb' where run: "AllowRun (\<lambda>x. x) calls (Some tb) = (oks, Some tb')"
    using assms(2) AllowRun_Some [of "\<lambda>x. x" calls tb] by auto
  have tb: "tb_rate tb = of_int rate" "tb_tokens tb = of_int burst" "tb_lastRefill tb = start" "0 < rate"
    using assms(1) by (auto simp: NewTokenBucket_def split: if_splits)
  have id: "rounding (\<lambda>x. x)"
    by (simp add: rounding_def mono_def)
  have "0 \<le> tb_tokens tb'"
    using bucket_inv_AllowRun [OF id bucket_inv_new [OF id assms(1)] run] by (simp add: bucket_inv_def)
  moreover have pot: "potential tb' + of_int (granted calls oks) \<le> potential tb"
    and tb': "tb_rate tb' = tb_rate tb" "tb_lastRefill tb' \<le> T"
    using AllowRun_potential [OF _ run, of T] assms(3,4) tb by auto
  moreover have "of_int rate * of_int (tb_lastRefill tb') / 1000000000
      \<le> (of_int rate * of_int T / 1000000000 :: real)"
    using tb(4) tb'(2) by (intro divide_right_mono mult_left_mono) auto
  moreover have "of_int rate * (of_int (T - start) / 1000000000)
      = (of_int rate * of_int T / 1000000000 - of_int rate * of_int start / 1000000000 :: real)"
    by (simp add: field_simps)
  ultimately show ?thesis
    unfolding potential_def tb tb'(1) by linarith
qed

section \<open>Properties\<close>

text \<open>a bucket never holds a negative number of tokens nor more than its burst, whatever the
  clock does and whatever the rounding of the floating-point unit.\<close>

theorem token_bucket_bounded:
  assumes "rounding rnd" and "NewTokenBucket rnd start rate burst = Inr tb"
    and "AllowRun rnd calls (Some tb) = (oks, Some tb')"
  shows "0 \<le> tb_tokens tb' \<and> tb_tokens tb' \<le> rnd (of_int burst)"
proof -
  have "tb_burst tb = rnd (of_int burst)"
    using assms(2) by (auto simp: NewTokenBucket_def split: if_splits)
  with bucket_inv_AllowRun [OF assms(1) bucket_inv_new [OF assms(1,2)] assms(3)] show ?thesis
    by (simp add: bucket_inv_def)
qed

theorem token_bucket_bounded_witness:
  "0 \<le> tb_tokens \<lparr> tb_rate = 2, tb_burst = 3, tb_tokens = 1, tb_lastRefill = 1000000000 \<rparr>
   \<and> tb_tokens \<lparr> tb_rate = 2, tb_burst = 3, tb_tokens = 1, tb_lastRefill = 1000000000 \<rparr> \<le> of_int 3"
proof (rule token_bucket_bounded [of "\<lambda>x. x"])
  show "rounding (\<lambda>x. x)" by (simp add: rounding_def mono_def)
  show "NewTokenBucket (\<lambda>x. x) 0 2 3 = Inr \<lparr> tb_rate = 2, tb_burst = 3, tb_tokens = 3, tb_lastRefill = 0 \<rparr>"
    by (simp add: NewTokenBucket_def)
  show "AllowRun (\<lambda>x. x) [(0, 3), (0, 1), (1000000000, 0), (1000000000, 1)]
      (Some \<lparr> tb_rate = 2, tb_burst = 3, tb_tokens = 3, tb_lastRefill = 0 \<rparr>)
    = ([True, False, False, True],
       Some \<lparr> tb_rate = 2, tb_burst = 3, tb_tokens = 1, tb_lastRefill = 1000000000 \<rparr>)"
    by (simp add: AllowN_def refill_def Seconds_exact Let_def)
qed

text \<open>rate limiting. In exact arithmetic, the tokens granted between the creation of a bucket
  and any later instant \<open>T\<close> never exceed the burst plus the rate times the elapsed seconds; a clock
  that runs backwards in between gains nothing.\<close>

theorem token_bucket_rate_bound:
  assumes "NewTokenBucket (\<lambda>x. x) start rate burst = Inr tb"
    and "AllowRun (\<lambda>x. x) calls (Some tb) = (oks, bucket)"
    and "\<forall>(now, count) \<in> set calls. now \<le> T" and "start \<le> T"
  shows "of_int (granted calls oks) \<le> (of_int burst + of_int rate * (of_int (T - start) / 1000000000) :: real)"
  using granted_bound [OF assms] .

theorem token_bucket_rate_bound_witness:
  "of_int (granted [(0, 3), (0, 1), (1000000000, 1)] [True, False, True])
     \<le> (of_int 3 + of_int 2 * (of_int (1000000000 - 0) / 1000000000) :: real)"
proof (rule token_bucket_rate_bound)
  show "NewTokenBucket (\<lambda>x. x) 0 2 3 = Inr \<lparr> tb_rate = 2, tb_burst = 3, tb_tokens = 3, tb_lastRefill = 0 \<rparr>"
    by (simp add: NewTokenBucket_def)
  show "AllowRun (\<lambda>x. x) [(0, 3), (0, 1), (1000000000, 1)]
      (Some \<lparr> tb_rate = 2, tb_burst = 3, tb_tokens = 3, tb_lastRefill = 0 \<rparr>)
    = ([True, False, True],
       Some \<lparr> tb_rate = 2, tb_burst = 3, tb_tokens = 1, tb_lastRefill = 1000000000 \<rparr>)"
    by (simp add: AllowN_def refill_def Seconds_exact Let_def)
qed simp_all

end
