(* ===== verification/Connection.thy ===== *)
theory Connection
  imports DataPack Metrics TokenBucket StepSystem "HOL-Library.Sublist"
begin

text \<open>
  The connection of \<open>gnet/connection.go\<close>: its outbound queue, the senders that compete for it,
  the writer and the reader goroutine, and \<open>Stop\<close>. The operations are functions on the
  connection; the concurrent behaviour of \<open>send\<close>, the writer and \<open>Stop\<close> is the step
  relation \<open>conn_step\<close>, one step per access to shared state.
\<close>

abbreviation ErrConnectionClosed :: go_error where
  "ErrConnectionClosed \<equiv> Err ''connection closed''"

abbreviation ErrSendQueueFull :: go_error where
  "ErrSendQueueFull \<equiv> Err ''Connection outbound msg queue is full''"

abbreviation ErrWorkerStopped :: go_error where
  "ErrWorkerStopped \<equiv> Err ''worker pool stopped''"

section \<open>The socket\<close>

text \<open>
  The TCP socket as the source uses it. \<open>sk_out\<close> is what \<open>Write\<close> has handed to the
  network; \<open>sk_script\<close> decides how the next calls of \<open>Write\<close> end: the number of bytes
  taken at most, and the error reported. When it is used up, calls take everything. \<open>sk_in\<close> is the
  stream from the peer.
\<close>

record socket =
  sk_out :: bytes
  sk_script :: "(nat \<times> go_error option) list"
  sk_closed :: bool
  sk_in :: reader

definition Write :: "bytes \<Rightarrow> socket \<Rightarrow> (int \<times> go_error option) \<times> socket" where
  "Write data sk =
     (if sk_closed sk then ((0, Some (Err ''use of closed network connection'')), sk)
      else case sk_script sk of
          [] \<Rightarrow> ((int (length data), None), sk\<lparr>sk_out := sk_out sk @ data\<rparr>)
        | (n, err) # script \<Rightarrow>
            ((int (min n (length data)), err),
             sk\<lparr>sk_out := sk_out sk @ take n data, sk_script := script\<rparr>))"

abbreviation io_ErrShortWrite :: go_error where "io_ErrShortWrite \<equiv> Err ''short write''"

function writeFull :: "bytes \<Rightarrow> socket \<Rightarrow> go_error option \<times> socket" where
  "writeFull data sk =
     (if data = [] then (None, sk)
      else case Write data sk of
          ((written, Some err), sk') \<Rightarrow> (Some err, sk')
        | ((written, None), sk') \<Rightarrow>
            if written \<le> 0 then (Some io_ErrShortWrite, sk')
            else writeFull (drop (nat written) data) sk')"
  by pat_completeness auto
termination
  by (relation "measure (\<lambda>(data, sk). length data)") auto

declare writeFull.simps [simp del]

section \<open>The connection\<close>

text \<open>
  The writer goroutine is not started, waits in its \<open>select\<close>, holds a packet it took from the
  queue, or has returned.
\<close>

datatype writer = WriterNone | WriterSelect | WriterGot bytes | WriterDone

record 'p Connection =
  cn_Conn :: socket
  cn_ConnID :: u32
  cn_isClosed :: bool
  cn_ExitBuffChan :: "bool list"
  cn_exitClosed :: bool
  cn_msgChan :: "bytes list"
  cn_msgChanCap :: nat
  cn_sendGate :: bool
  cn_cancelled :: bool
  cn_property :: "string \<rightharpoonup> 'p"
  cn_metrics :: "Metrics option"
  cn_requestLimit :: "TokenBucket option"
  cn_config :: "Config option"
  cn_dataPack :: DataPack
  cn_writer :: writer

definition newConnection ::
  "Config \<Rightarrow> (real \<Rightarrow> real) \<Rightarrow> gotime \<Rightarrow> socket \<Rightarrow> u32 \<Rightarrow> Config option \<Rightarrow> 'p Connection" where
  "newConnection g rnd now conn connID config =
     (let settings = effectiveConfig g config;
          requestLimit =
            (if MessageRateLimit settings > 0 then
               let burst = MessageRateBurst settings;
                   burst = (if burst \<le> 0 then MessageRateLimit settings else burst)
               in (case NewTokenBucket rnd now (MessageRateLimit settings) burst of
                     Inl _ \<Rightarrow> None
                   | Inr bucket \<Rightarrow> Some bucket)
             else None)
      in \<lparr> cn_Conn = conn, cn_ConnID = connID, cn_isClosed = False, cn_ExitBuffChan = [],
           cn_exitClosed = False, cn_msgChan = [], cn_msgChanCap = unat (MaxMsgChanLen settings),
           cn_sendGate = False, cn_cancelled = False, cn_property = Map.empty, cn_metrics = None,
           cn_requestLimit = requestLimit, cn_config = config,
           cn_dataPack = \<lparr> dp_config = config \<rparr>, cn_writer = WriterNone \<rparr>)"

definition setMetrics :: "Metrics option \<Rightarrow> 'p Connection \<Rightarrow> 'p Connection" where
  "setMetrics value c = c\<lparr>cn_metrics := value\<rparr>"

definition GetConnId :: "'p Connection \<Rightarrow> u32" where
  "GetConnId c = cn_ConnID c"

definition SetProperty :: "string \<Rightarrow> 'p \<Rightarrow> 'p Connection \<Rightarrow> 'p Connection" where
  "SetProperty key val c = c\<lparr>cn_property := (cn_property c)(key \<mapsto> val)\<rparr>"

definition GetProperty :: "string \<Rightarrow> 'p Connection \<Rightarrow> 'p res" where
  "GetProperty key c =
     (case cn_property c key of Some val \<Rightarrow> Inr val | None \<Rightarrow> Inl (Err ''property not found''))"

definition RemoveProperty :: "string \<Rightarrow> 'p Connection \<Rightarrow> 'p Connection" where
  "RemoveProperty key c = c\<lparr>cn_property := (cn_property c)(key := None)\<rparr>"

text \<open>
  \<open>Stop\<close> runs its body once; \<open>isClosed\<close> is set by nothing else, so it also tells whether the
  body has run. The channel has room for the one value that is ever sent to it.
\<close>

definition Stop :: "'p Connection \<Rightarrow> 'p Connection" where
  "Stop c =
     (if cn_isClosed c then c
      else c\<lparr>cn_isClosed := True, cn_cancelled := True, cn_Conn := (cn_Conn c)\<lparr>sk_closed := True\<rparr>,
             cn_ExitBuffChan := cn_ExitBuffChan c @ [True], cn_exitClosed := True\<rparr>)"

definition startWriter :: "'p Connection \<Rightarrow> 'p Connection" where
  "startWriter c = c\<lparr>cn_writer := WriterSelect\<rparr>"

section \<open>Sending\<close>

text \<open>
  The channel send \<open>c.msgChan <- msg\<close>, when it is ready: there is room in the buffer, or, for a
  channel without buffer, the writer waits for a packet.
\<close>

definition offer :: "bytes \<Rightarrow> 'p Connection \<Rightarrow> 'p Connection option" where
  "offer msg c =
     (if cn_msgChanCap c = 0
      then (if cn_writer c = WriterSelect then Some (c\<lparr>cn_writer := WriterGot msg\<rparr>) else None)
      else (if length (cn_msgChan c) < cn_msgChanCap c
            then Some (c\<lparr>cn_msgChan := cn_msgChan c @ [msg]\<rparr>) else None))"

text \<open>
  \<open>SendBuffMsg\<close> when no other goroutine runs in between: \<open>send\<close> with a background context
  and \<open>nonblocking\<close>.
\<close>

definition SendBuffMsg :: "Config \<Rightarrow> u32 \<Rightarrow> bytes \<Rightarrow> 'p Connection \<Rightarrow> go_error option \<times> 'p Connection" where
  "SendBuffMsg g msgId data c =
     (if cn_isClosed c then (Some ErrConnectionClosed, c)
      else if cn_sendGate c then (Some ErrSendQueueFull, c)
      else
        case Pack g (cn_dataPack c) (Some (NewMsgPackage msgId data)) of
          Inl err \<Rightarrow> (Some (Wrap ''pack message: '' err), c)
        | Inr msg \<Rightarrow>
            (case offer msg c of
               None \<Rightarrow> (Some ErrSendQueueFull, c)
             | Some c' \<Rightarrow> (None, c'\<lparr>cn_metrics := AddBytesOut (of_nat (length msg)) (cn_metrics c')\<rparr>)))"

text \<open>
  A call of \<open>send\<close> in progress. \<open>sd_ctxErr\<close> is \<open>ctx.Err()\<close>, which the environment may set
  at any time in a blocking call (a non-blocking one has the background context). The program counter names the next access to shared state: the check of
  \<open>isClosed\<close> at the start, the \<open>select\<close> on the gate, the second check with the packing, the
  \<open>select\<close> on the queue, and the deferred release of the gate.
\<close>

datatype send_pc =
    SendStart
  | SendGate
  | SendLocked
  | SendPacked bytes
  | SendRelease "go_error option"
  | SendDone "go_error option"

record sender =
  sd_ctxErr :: "go_error option"
  sd_msgId :: u32
  sd_data :: bytes
  sd_nonblocking :: bool
  sd_pc :: send_pc

text \<open>Which ready case a \<open>select\<close> takes.\<close>

datatype choice = ChooseSend | ChooseCtx | ChooseConn | ChooseDefault

fun sendStep :: "Config \<Rightarrow> choice \<Rightarrow> sender \<Rightarrow> 'p Connection \<Rightarrow> (sender \<times> 'p Connection) option" where
  "sendStep g ch s c =
     (case sd_pc s of
        SendStart \<Rightarrow>
          if cn_isClosed c then Some (s\<lparr>sd_pc := SendDone (Some ErrConnectionClosed)\<rparr>, c)
          else if sd_ctxErr s \<noteq> None then Some (s\<lparr>sd_pc := SendDone (sd_ctxErr s)\<rparr>, c)
          else Some (s\<lparr>sd_pc := SendGate\<rparr>, c)
      | SendGate \<Rightarrow>
          (case ch of
             ChooseSend \<Rightarrow>
               if cn_sendGate c then None
               else Some (s\<lparr>sd_pc := SendLocked\<rparr>, c\<lparr>cn_sendGate := True\<rparr>)
           | ChooseDefault \<Rightarrow>
               if sd_nonblocking s \<and> cn_sendGate c
               then Some (s\<lparr>sd_pc := SendDone (Some ErrSendQueueFull)\<rparr>, c) else None
           | ChooseCtx \<Rightarrow>
               if \<not> sd_nonblocking s \<and> sd_ctxErr s \<noteq> None
               then Some (s\<lparr>sd_pc := SendDone (sd_ctxErr s)\<rparr>, c) else None
           | ChooseConn \<Rightarrow>
               if \<not> sd_nonblocking s \<and> cn_cancelled c
               then Some (s\<lparr>sd_pc := SendDone (Some ErrConnectionClosed)\<rparr>, c) else None)
      | SendLocked \<Rightarrow>
          if cn_isClosed c then Some (s\<lparr>sd_pc := SendRelease (Some ErrConnectionClosed)\<rparr>, c)
          else if sd_ctxErr s \<noteq> None then Some (s\<lparr>sd_pc := SendRelease (sd_ctxErr s)\<rparr>, c)
          else
            (case Pack g (cn_dataPack c) (Some (NewMsgPackage (sd_msgId s) (sd_data s))) of
               Inl err \<Rightarrow> Some (s\<lparr>sd_pc := SendRelease (Some (Wrap ''pack message: '' err))\<rparr>, c)
             | Inr msg \<Rightarrow> Some (s\<lparr>sd_pc := SendPacked msg\<rparr>, c))
      | SendPacked msg \<Rightarrow>
          (case ch of
             ChooseSend \<Rightarrow>
               (case offer msg c of
                  None \<Rightarrow> None
                | Some c' \<Rightarrow>
                    Some (s\<lparr>sd_pc := SendRelease None\<rparr>,
                          c'\<lparr>cn_metrics := AddBytesOut (of_nat (length msg)) (cn_metrics c')\<rparr>))
           | ChooseDefault \<Rightarrow>
               if sd_nonblocking s \<and> offer msg c = None
               then Some (s\<lparr>sd_pc := SendRelease (Some ErrSendQueueFull)\<rparr>, c) else None
           | ChooseCtx \<Rightarrow>
               if \<not> sd_nonblocking s \<and> sd_ctxErr s \<noteq> None
               then Some (s\<lparr>sd_pc := SendRelease (sd_ctxErr s)\<rparr>, c) else None
           | ChooseConn \<Rightarrow>
               if \<not> sd_nonblocking s \<and> cn_cancelled c
               then Some (s\<lparr>sd_pc := SendRelease (Some ErrConnectionClosed)\<rparr>, c) else None)
      | SendRelease result \<Rightarrow> Some (s\<lparr>sd_pc := SendDone result\<rparr>, c\<lparr>cn_sendGate := False\<rparr>)
      | SendDone result \<Rightarrow> None)"

declare sendStep.simps [simp del]

section \<open>The writer\<close>

datatype writer_choice = TakeData | TakeExit | Proceed

text \<open>
  One step of \<open>StartWriter\<close>: the \<open>select\<close>, or the handling of the packet taken from the queue.
  \<open>deadlineErr\<close> tells whether \<open>SetWriteDeadline\<close> fails. Every way out runs the deferred
  \<open>Stop\<close>.
\<close>

definition writerExit :: "'p Connection \<Rightarrow> 'p Connection" where
  "writerExit c = Stop (c\<lparr>cn_writer := WriterDone\<rparr>)"

fun writerStep :: "Config \<Rightarrow> writer_choice \<Rightarrow> bool \<Rightarrow> 'p Connection \<Rightarrow> 'p Connection option" where
  "writerStep g ch deadlineErr c =
     (case cn_writer c of
        WriterSelect \<Rightarrow>
          (case ch of
             TakeData \<Rightarrow>
               (case cn_msgChan c of
                  [] \<Rightarrow> None
                | data # rest \<Rightarrow> Some (c\<lparr>cn_msgChan := rest, cn_writer := WriterGot data\<rparr>))
           | TakeExit \<Rightarrow>
               if cn_ExitBuffChan c \<noteq> [] \<or> cn_exitClosed c
               then Some (writerExit (c\<lparr>cn_ExitBuffChan := tl (cn_ExitBuffChan c)\<rparr>)) else None
           | Proceed \<Rightarrow> None)
      | WriterGot data \<Rightarrow>
          if cn_isClosed c then Some (writerExit c)
          else if WriteTimeout (effectiveConfig g (cn_config c)) > 0 \<and> deadlineErr then Some (writerExit c)
          else
            (case writeFull data (cn_Conn c) of
               (Some err, sk) \<Rightarrow> Some (writerExit (c\<lparr>cn_Conn := sk\<rparr>))
             | (None, sk) \<Rightarrow> Some (c\<lparr>cn_Conn := sk, cn_writer := WriterSelect\<rparr>))
      | _ \<Rightarrow> None)"

declare writerStep.simps [simp del]

section \<open>The reader\<close>





section \<open>The concurrent system\<close>

text \<open>
  The connection with the calls of \<open>send\<close> made so far, by number, and, for the statements only,
  the log of the messages that entered the queue with the number of the call that sent them.
\<close>

record 'p conn_sys =
  cs_conn :: "'p Connection"
  cs_senders :: "nat \<rightharpoonup> sender"
  cs_accepted :: "(nat \<times> Message) list"

definition sender_msg :: "sender \<Rightarrow> Message" where
  "sender_msg s = NewMsgPackage (sd_msgId s) (sd_data s)"

definition newSender :: "bool \<Rightarrow> u32 \<Rightarrow> bytes \<Rightarrow> sender" where
  "newSender nonblocking msgId data =
     \<lparr> sd_ctxErr = None, sd_msgId = msgId, sd_data = data, sd_nonblocking = nonblocking, sd_pc = SendStart \<rparr>"

text \<open>The send that put a packet into the queue.\<close>

definition entered :: "sender \<Rightarrow> sender \<Rightarrow> bool" where
  "entered s s' \<longleftrightarrow> (case sd_pc s of SendPacked msg \<Rightarrow> True | _ \<Rightarrow> False) \<and> sd_pc s' = SendRelease None"

inductive conn_step :: "Config \<Rightarrow> 'p conn_sys \<Rightarrow> 'p conn_sys \<Rightarrow> bool" for g :: Config where
  call_send:
    "cs_senders y t = None \<Longrightarrow>
     conn_step g y (y\<lparr>cs_senders := (cs_senders y)(t \<mapsto> newSender nonblocking msgId data)\<rparr>)"
| send_step:
    "cs_senders y t = Some s \<Longrightarrow> sendStep g ch s (cs_conn y) = Some (s', c') \<Longrightarrow>
     conn_step g y (y\<lparr>cs_conn := c', cs_senders := (cs_senders y)(t \<mapsto> s'),
       cs_accepted := (if entered s s' then cs_accepted y @ [(t, sender_msg s)] else cs_accepted y)\<rparr>)"
| ctx_done:
    "cs_senders y t = Some s \<Longrightarrow> \<not> sd_nonblocking s \<Longrightarrow>
     conn_step g y (y\<lparr>cs_senders := (cs_senders y)(t \<mapsto> s\<lparr>sd_ctxErr := Some err\<rparr>)\<rparr>)"
| start_writer:
    "cn_writer (cs_conn y) = WriterNone \<Longrightarrow> conn_step g y (y\<lparr>cs_conn := startWriter (cs_conn y)\<rparr>)"
| writer_step:
    "writerStep g wch deadlineErr (cs_conn y) = Some c' \<Longrightarrow> conn_step g y (y\<lparr>cs_conn := c'\<rparr>)"
| stop_step:
    "conn_step g y (y\<lparr>cs_conn := Stop (cs_conn y)\<rparr>)"
| set_property:
    "conn_step g y (y\<lparr>cs_conn := SetProperty key val (cs_conn y)\<rparr>)"
| remove_property:
    "conn_step g y (y\<lparr>cs_conn := RemoveProperty key (cs_conn y)\<rparr>)"

definition conn_init :: "Config \<Rightarrow> 'p conn_sys \<Rightarrow> bool" where
  "conn_init g y \<longleftrightarrow>
     (\<exists>rnd now sk connID config ms. sk_out sk = [] \<and>
        cs_conn y = setMetrics ms (newConnection g rnd now sk connID config)) \<and>
     cs_senders y = Map.empty \<and> cs_accepted y = []"

section \<open>The socket takes a prefix\<close>

lemma Write_out:
  "Write data sk = ((n, err), sk') \<Longrightarrow> sk_out sk' = sk_out sk @ take (nat n) data \<and> 0 \<le> n"
  by (auto simp: Write_def min_def split: if_splits list.splits)

lemma writeFull_out:
  "writeFull data sk = (err, sk') \<Longrightarrow>
     \<exists>k. sk_out sk' = sk_out sk @ take k data \<and> (err = None \<longrightarrow> take k data = data)"
proof (induction "length data" arbitrary: data sk rule: less_induct)
  case less
  show ?case
  proof (cases "data = []")
    case True
    with less.prems show ?thesis by (simp add: writeFull.simps)
  next
    case False
    obtain n e sk1 where w: "Write data sk = ((n, e), sk1)" by (metis prod.exhaust)
    note out = Write_out [OF w]
    show ?thesis
    proof (cases "e = None \<and> 0 < n")
      case True
      then have "writeFull (drop (nat n) data) sk1 = (err, sk')"
        using less.prems \<open>data \<noteq> []\<close> w by (subst (asm) writeFull.simps) simp
      then obtain k where "sk_out sk' = sk_out sk1 @ take k (drop (nat n) data)"
        "err = None \<longrightarrow> take k (drop (nat n) data) = drop (nat n) data"
        using less.hyps [of "drop (nat n) data" sk1] True \<open>data \<noteq> []\<close> by auto
      then show ?thesis
        using out by (intro exI [of _ "nat n + k"]) (auto simp: take_add)
    next
      case False
      then show ?thesis
        using less.prems \<open>data \<noteq> []\<close> w out
        by (subst (asm) writeFull.simps) (auto split: option.splits if_splits)
    qed
  qed
qed

section \<open>The invariant\<close>

text \<open>The packets that entered the queue, in order.\<close>

definition packets :: "'p conn_sys \<Rightarrow> bytes list" where
  "packets y = map (packet \<circ> snd) (cs_accepted y)"

text \<open>
  The queue is within its capacity; the packets that entered it are those written, the one the writer
  holds, and those in the queue, in this order. Once the writer has returned, what was written is a
  prefix of them.
\<close>

fun stream_ok :: "writer \<Rightarrow> bytes list \<Rightarrow> bytes \<Rightarrow> bytes list \<Rightarrow> bool" where
  "stream_ok WriterDone queue out ps \<longleftrightarrow> prefix out (concat ps)"
| "stream_ok (WriterGot data) queue out ps \<longleftrightarrow> (\<exists>qs. ps = qs @ data # queue \<and> out = concat qs)"
| "stream_ok _ queue out ps \<longleftrightarrow> (\<exists>qs. ps = qs @ queue \<and> out = concat qs)"

definition stream_inv :: "'p conn_sys \<Rightarrow> bool" where
  "stream_inv y \<longleftrightarrow>
     stream_ok (cn_writer (cs_conn y)) (cn_msgChan (cs_conn y)) (sk_out (cn_Conn (cs_conn y))) (packets y)"

definition queue_inv :: "'p conn_sys \<Rightarrow> bool" where
  "queue_inv y \<longleftrightarrow> length (cn_msgChan (cs_conn y)) \<le> cn_msgChanCap (cs_conn y)"

text \<open>A call that is between taking and releasing the gate, and one that put its message into the queue.\<close>

definition holding :: "sender \<Rightarrow> bool" where
  "holding s \<longleftrightarrow> (case sd_pc s of SendLocked \<Rightarrow> True | SendPacked _ \<Rightarrow> True | SendRelease _ \<Rightarrow> True | _ \<Rightarrow> False)"

definition delivered :: "sender \<Rightarrow> bool" where
  "delivered s \<longleftrightarrow> sd_pc s = SendRelease None \<or> sd_pc s = SendDone None"

definition holders :: "(nat \<rightharpoonup> sender) \<Rightarrow> nat set" where
  "holders m = {t. \<exists>s. m t = Some s \<and> holding s}"

definition gate_inv :: "'p conn_sys \<Rightarrow> bool" where
  "gate_inv y \<longleftrightarrow> (if cn_sendGate (cs_conn y) then \<exists>t. holders (cs_senders y) = {t} else holders (cs_senders y) = {})"

definition packed_ok :: "Config \<Rightarrow> DataPack \<Rightarrow> sender \<Rightarrow> bool" where
  "packed_ok g d s \<longleftrightarrow> (\<forall>msg. sd_pc s = SendPacked msg \<longrightarrow> Pack g d (Some (sender_msg s)) = Inr msg)"

definition log_inv :: "Config \<Rightarrow> 'p conn_sys \<Rightarrow> bool" where
  "log_inv g y \<longleftrightarrow>
     (\<forall>t s. cs_senders y t = Some s \<longrightarrow> packed_ok g (cn_dataPack (cs_conn y)) s) \<and>
     distinct (map fst (cs_accepted y)) \<and>
     (\<forall>t m. (t, m) \<in> set (cs_accepted y) \<longleftrightarrow>
        (\<exists>s. cs_senders y t = Some s \<and> delivered s \<and> m = sender_msg s)) \<and>
     (\<forall>t m. (t, m) \<in> set (cs_accepted y) \<longrightarrow> Pack g (cn_dataPack (cs_conn y)) (Some m) = Inr (packet m))"

lemma Stop_fields [simp]:
  "cn_msgChan (Stop c) = cn_msgChan c" "cn_msgChanCap (Stop c) = cn_msgChanCap c"
  "cn_sendGate (Stop c) = cn_sendGate c" "cn_writer (Stop c) = cn_writer c"
  "cn_dataPack (Stop c) = cn_dataPack c" "sk_out (cn_Conn (Stop c)) = sk_out (cn_Conn c)"
  "cn_isClosed (Stop c)" "cn_ConnID (Stop c) = cn_ConnID c" "cn_property (Stop c) = cn_property c"
  "cn_metrics (Stop c) = cn_metrics c" "cn_config (Stop c) = cn_config c"
  by (simp_all add: Stop_def)

lemma Stop_Stop [simp]: "Stop (Stop c) = Stop c"
  by (simp add: Stop_def)

lemma property_fields [simp]:
  "cn_msgChan (SetProperty k v c) = cn_msgChan c" "cn_msgChanCap (SetProperty k v c) = cn_msgChanCap c"
  "cn_sendGate (SetProperty k v c) = cn_sendGate c" "cn_writer (SetProperty k v c) = cn_writer c"
  "cn_dataPack (SetProperty k v c) = cn_dataPack c" "cn_Conn (SetProperty k v c) = cn_Conn c"
  "cn_msgChan (RemoveProperty k c) = cn_msgChan c" "cn_msgChanCap (RemoveProperty k c) = cn_msgChanCap c"
  "cn_sendGate (RemoveProperty k c) = cn_sendGate c" "cn_writer (RemoveProperty k c) = cn_writer c"
  "cn_dataPack (RemoveProperty k c) = cn_dataPack c" "cn_Conn (RemoveProperty k c) = cn_Conn c"
  by (simp_all add: SetProperty_def RemoveProperty_def)

lemma packet_of_Pack: "Pack g d (Some m) = Inr p \<Longrightarrow> p = packet m"
  by (simp add: Pack_eq split: if_splits)

text \<open>What one step of a call does to the connection and to the call.\<close>

lemma sendStep_cases:
  assumes "sendStep g ch s c = Some (s', c')"
  obtains (enter) msg c1 where "sd_pc s = SendPacked msg" "offer msg c = Some c1" "cn_sendGate c1 = cn_sendGate c"
      "s' = s\<lparr>sd_pc := SendRelease None\<rparr>"
      "c' = c1\<lparr>cn_metrics := AddBytesOut (of_nat (length msg)) (cn_metrics c1)\<rparr>"
  | (take_gate) "sd_pc s = SendGate" "\<not> cn_sendGate c" "s' = s\<lparr>sd_pc := SendLocked\<rparr>" "c' = c\<lparr>cn_sendGate := True\<rparr>"
  | (release) r where "sd_pc s = SendRelease r" "s' = s\<lparr>sd_pc := SendDone r\<rparr>" "c' = c\<lparr>cn_sendGate := False\<rparr>"
  | (pack) msg where "sd_pc s = SendLocked" "Pack g (cn_dataPack c) (Some (sender_msg s)) = Inr msg"
      "s' = s\<lparr>sd_pc := SendPacked msg\<rparr>" "c' = c"
  | (fail) e where "sd_pc s = SendLocked \<or> (\<exists>msg. sd_pc s = SendPacked msg)"
      "s' = s\<lparr>sd_pc := SendRelease (Some e)\<rparr>" "c' = c"
  | (refuse) e where "sd_pc s = SendStart \<or> sd_pc s = SendGate" "s' = s\<lparr>sd_pc := SendDone (Some e)\<rparr>" "c' = c"
  | (go_on) "sd_pc s = SendStart" "s' = s\<lparr>sd_pc := SendGate\<rparr>" "c' = c"
proof (cases "sd_pc s")
  case SendStart
  with assms have "c' = c \<and> (s' = s\<lparr>sd_pc := SendGate\<rparr> \<or> (\<exists>e. s' = s\<lparr>sd_pc := SendDone (Some e)\<rparr>))"
    by (auto simp: sendStep.simps split: if_splits)
  with SendStart that(6,7) show thesis by blast
next
  case SendGate
  with assms have "(\<not> cn_sendGate c \<and> s' = s\<lparr>sd_pc := SendLocked\<rparr> \<and> c' = c\<lparr>cn_sendGate := True\<rparr>)
      \<or> (c' = c \<and> (\<exists>e. s' = s\<lparr>sd_pc := SendDone (Some e)\<rparr>))"
    by (cases ch) (auto simp: sendStep.simps split: if_splits)
  with SendGate that(2,6) show thesis by blast
next
  case SendLocked
  with assms have "c' = c \<and> ((\<exists>msg. Pack g (cn_dataPack c) (Some (sender_msg s)) = Inr msg \<and> s' = s\<lparr>sd_pc := SendPacked msg\<rparr>)
      \<or> (\<exists>e. s' = s\<lparr>sd_pc := SendRelease (Some e)\<rparr>))"
    by (auto simp: sendStep.simps sender_msg_def split: if_splits sum.splits)
  with SendLocked that(4,5) show thesis by blast
next
  case (SendPacked msg)
  with assms have "(\<exists>c1. offer msg c = Some c1 \<and> s' = s\<lparr>sd_pc := SendRelease None\<rparr>
        \<and> c' = c1\<lparr>cn_metrics := AddBytesOut (of_nat (length msg)) (cn_metrics c1)\<rparr>)
      \<or> (c' = c \<and> (\<exists>e. s' = s\<lparr>sd_pc := SendRelease (Some e)\<rparr>))"
    by (cases ch) (auto simp: sendStep.simps split: if_splits option.splits)
  moreover have "offer msg c = Some c1 \<Longrightarrow> cn_sendGate c1 = cn_sendGate c" for c1
    by (auto simp: offer_def split: if_splits)
  ultimately show thesis using SendPacked that(1,5) by blast
next
  case (SendRelease r)
  with assms that(3) show thesis by (simp add: sendStep.simps)
next
  case (SendDone r)
  with assms show thesis by (simp add: sendStep.simps)
qed

text \<open>What one step of the writer does.\<close>

lemma writerStep_cases:
  assumes "writerStep g ch de c = Some c'"
  obtains (taken) data rest where "cn_writer c = WriterSelect" "cn_msgChan c = data # rest"
      "c' = c\<lparr>cn_msgChan := rest, cn_writer := WriterGot data\<rparr>"
  | (exit) "cn_writer c = WriterSelect" "c' = writerExit (c\<lparr>cn_ExitBuffChan := tl (cn_ExitBuffChan c)\<rparr>)"
  | (drop_packet) data where "cn_writer c = WriterGot data" "c' = writerExit c"
  | (broken) data err sk where "cn_writer c = WriterGot data" "writeFull data (cn_Conn c) = (Some err, sk)"
      "c' = writerExit (c\<lparr>cn_Conn := sk\<rparr>)"
  | (written) data sk where "cn_writer c = WriterGot data" "writeFull data (cn_Conn c) = (None, sk)"
      "c' = c\<lparr>cn_Conn := sk, cn_writer := WriterSelect\<rparr>"
proof (cases "cn_writer c")
  case WriterSelect
  with assms that(1,2) show thesis
    by (cases ch) (auto simp: writerStep.simps split: if_splits list.splits)
next
  case (WriterGot data)
  obtain e sk where w: "writeFull data (cn_Conn c) = (e, sk)" by fastforce
  with assms WriterGot have "c' = writerExit c \<or> (case e of
      Some err \<Rightarrow> c' = writerExit (c\<lparr>cn_Conn := sk\<rparr>)
    | None \<Rightarrow> c' = c\<lparr>cn_Conn := sk, cn_writer := WriterSelect\<rparr>)"
    by (auto simp: writerStep.simps split: if_splits option.splits)
  with WriterGot w that(3,4,5) show thesis by (cases e) auto
qed (use assms in \<open>simp_all add: writerStep.simps\<close>)

lemma entered_iff:
  assumes "sendStep g ch s c = Some (s', c')"
  shows "entered s s' \<longleftrightarrow> delivered s' \<and> \<not> delivered s"
  using assms by (cases rule: sendStep_cases) (auto simp: entered_def delivered_def)

lemma offer_fields:
  assumes "offer msg c = Some c1"
  shows "cn_cancelled c1 = cn_cancelled c" "cn_isClosed c1 = cn_isClosed c"
    "cn_exitClosed c1 = cn_exitClosed c" "cn_ExitBuffChan c1 = cn_ExitBuffChan c"
    "cn_dataPack c1 = cn_dataPack c" "cn_Conn c1 = cn_Conn c" "cn_msgChanCap c1 = cn_msgChanCap c"
    "cn_ConnID c1 = cn_ConnID c" "cn_property c1 = cn_property c" "cn_sendGate c1 = cn_sendGate c"
    "cn_requestLimit c1 = cn_requestLimit c" "cn_config c1 = cn_config c" "cn_metrics c1 = cn_metrics c"
  using assms by (auto simp: offer_def split: if_splits)

lemma sendStep_sender:
  assumes "sendStep g ch s c = Some (s', c')"
  shows "sender_msg s' = sender_msg s" "cn_dataPack c' = cn_dataPack c" "cn_Conn c' = cn_Conn c"
    "cn_msgChanCap c' = cn_msgChanCap c"
  using assms by (cases rule: sendStep_cases; simp add: sender_msg_def offer_fields)+

lemma writerExit_fields [simp]:
  "cn_msgChan (writerExit c) = cn_msgChan c" "cn_msgChanCap (writerExit c) = cn_msgChanCap c"
  "cn_sendGate (writerExit c) = cn_sendGate c" "cn_writer (writerExit c) = WriterDone"
  "cn_dataPack (writerExit c) = cn_dataPack c" "sk_out (cn_Conn (writerExit c)) = sk_out (cn_Conn c)"
  by (simp_all add: writerExit_def)

lemma stream_inv_send:
  assumes step: "sendStep g ch s (cs_conn y) = Some (s', c')" and s: "cs_senders y t = Some s"
    and inv: "stream_inv y" "queue_inv y" "log_inv g y"
  shows "stream_inv (y\<lparr>cs_conn := c', cs_senders := (cs_senders y)(t \<mapsto> s'),
    cs_accepted := (if entered s s' then cs_accepted y @ [(t, sender_msg s)] else cs_accepted y)\<rparr>)"
  using step
proof (cases rule: sendStep_cases)
  case (enter msg c1)
  have "packed_ok g (cn_dataPack (cs_conn y)) s" using inv(3) s by (simp add: log_inv_def)
  then have "msg = packet (sender_msg s)"
    using enter(1) packet_of_Pack by (simp add: packed_ok_def)
  then show ?thesis
    using inv(1,2) enter
    by (cases "cn_writer (cs_conn y)")
       (auto simp: stream_inv_def queue_inv_def entered_def packets_def offer_def split: if_splits)
qed (use inv(1) in \<open>auto simp: stream_inv_def entered_def packets_def\<close>)

lemma stream_inv_writer:
  assumes "writerStep g ch de (cs_conn y) = Some c'" "stream_inv y"
  shows "stream_inv (y\<lparr>cs_conn := c'\<rparr>)"
  using assms(1)
proof (cases rule: writerStep_cases)
  case (broken data err sk)
  then obtain ps where ps: "packets y = ps @ data # cn_msgChan (cs_conn y)" "sk_out (cn_Conn (cs_conn y)) = concat ps"
    using assms(2) by (auto simp: stream_inv_def)
  obtain k where "sk_out sk = concat ps @ take k data"
    using writeFull_out [OF broken(2)] ps(2) by auto
  moreover have "packets (y\<lparr>cs_conn := c'\<rparr>) = packets y" by (simp add: packets_def)
  ultimately show ?thesis
    using ps(1) take_is_prefix [of k data] by (simp add: stream_inv_def broken(3) prefix_prefix)
next
  case (written data sk)
  then obtain ps where ps: "packets y = ps @ data # cn_msgChan (cs_conn y)" "sk_out (cn_Conn (cs_conn y)) = concat ps"
    using assms(2) by (auto simp: stream_inv_def)
  have "sk_out sk = concat (ps @ [data])"
    using writeFull_out [OF written(2)] ps(2) by auto
  moreover have "packets (y\<lparr>cs_conn := c'\<rparr>) = (ps @ [data]) @ cn_msgChan (cs_conn y)"
    using ps(1) by (simp add: packets_def)
  ultimately show ?thesis
    by (auto simp: stream_inv_def written(3))
qed (use assms(2) in \<open>auto simp: stream_inv_def packets_def\<close>)

lemma stream_inv_step:
  assumes "conn_step g y y'" "stream_inv y" "queue_inv y" "log_inv g y"
  shows "stream_inv y'"
  using assms(1)
proof (cases rule: conn_step.cases)
  case (send_step t s ch s' c')
  then show ?thesis using stream_inv_send [OF send_step(3,2) assms(2-4)] by simp
next
  case (writer_step wch de c')
  then show ?thesis using stream_inv_writer assms(2) by blast
next
  case start_writer
  then show ?thesis
    using assms(2) by (auto simp: stream_inv_def packets_def startWriter_def)
qed (use assms(2) in \<open>auto simp: stream_inv_def packets_def\<close>)

lemma queue_inv_step:
  assumes "conn_step g y y'" "queue_inv y"
  shows "queue_inv y'"
  using assms(1)
proof (cases rule: conn_step.cases)
  case (send_step t s ch s' c')
  from send_step(3) show ?thesis
    by (cases rule: sendStep_cases)
       (use assms(2) send_step(1) in \<open>auto simp: queue_inv_def offer_def split: if_splits\<close>)
next
  case (writer_step wch de c')
  from writer_step(2) show ?thesis
    by (cases rule: writerStep_cases) (use assms(2) writer_step(1) in \<open>auto simp: queue_inv_def\<close>)
qed (use assms(2) in \<open>auto simp: queue_inv_def startWriter_def\<close>)

lemma holders_update [simp]:
  "holders (m(t \<mapsto> s)) = (if holding s then insert t (holders m) else holders m - {t})"
  by (auto simp: holders_def)

lemma sendStep_gate:
  assumes "sendStep g ch s c = Some (s', c')"
  shows "(\<not> cn_sendGate c \<and> cn_sendGate c' \<and> holding s' \<and> \<not> holding s)
    \<or> (\<not> cn_sendGate c' \<and> holding s \<and> \<not> holding s')
    \<or> (cn_sendGate c' = cn_sendGate c \<and> holding s' = holding s)"
  using assms by (cases rule: sendStep_cases) (auto simp: holding_def)

lemma gate_inv_step:
  assumes "conn_step g y y'" "gate_inv y"
  shows "gate_inv y'"
  using assms(1)
proof (cases rule: conn_step.cases)
  case (send_step t s ch s' c')
  have "t \<in> holders (cs_senders y) \<longleftrightarrow> holding s" using send_step(2) by (simp add: holders_def)
  then show ?thesis
    using sendStep_gate [OF send_step(3)] assms(2)
    by (auto simp: send_step(1) gate_inv_def insert_absorb split: if_splits)
next
  case (writer_step wch de c')
  from writer_step(2) have "cn_sendGate c' = cn_sendGate (cs_conn y)"
    by (cases rule: writerStep_cases) simp_all
  then show ?thesis using assms(2) by (simp add: writer_step(1) gate_inv_def)
next
  case (call_send t nb i d)
  have "holders (cs_senders y') = holders (cs_senders y)"
    using call_send(2) by (auto simp: call_send(1) holders_def newSender_def holding_def)
  then show ?thesis using assms(2) by (simp add: call_send(1) gate_inv_def)
next
  case (ctx_done t s err)
  have "holders (cs_senders y') = holders (cs_senders y)"
    using ctx_done(2) by (auto simp: ctx_done(1) holders_def holding_def)
  then show ?thesis using assms(2) by (simp add: ctx_done(1) gate_inv_def)
qed (use assms(2) in \<open>simp_all add: gate_inv_def startWriter_def\<close>)

text \<open>The parts of \<open>log_inv\<close> over the calls, the log and the codec.\<close>

lemma log_inv_send:
  assumes step: "sendStep g ch s (cs_conn y) = Some (s', c')" and s: "cs_senders y t = Some s"
    and inv: "log_inv g y"
  shows "log_inv g (y\<lparr>cs_conn := c', cs_senders := (cs_senders y)(t \<mapsto> s'),
    cs_accepted := (if entered s s' then cs_accepted y @ [(t, sender_msg s)] else cs_accepted y)\<rparr>)"
proof -
  let ?y = "y\<lparr>cs_conn := c', cs_senders := (cs_senders y)(t \<mapsto> s'),
    cs_accepted := (if entered s s' then cs_accepted y @ [(t, sender_msg s)] else cs_accepted y)\<rparr>"
  note same = sendStep_sender [OF step]
  note ent = entered_iff [OF step]
  have mem: "(u, m) \<in> set (cs_accepted y) \<longleftrightarrow>
      (\<exists>s. cs_senders y u = Some s \<and> delivered s \<and> m = sender_msg s)" for u m
    using inv by (simp add: log_inv_def)
  have keep: "delivered s \<Longrightarrow> delivered s'"
    using step by (cases rule: sendStep_cases) (auto simp: delivered_def)
  have fresh: "entered s s' \<Longrightarrow> t \<notin> fst ` set (cs_accepted y)"
    using mem ent s by fastforce
  have ok: "packed_ok g (cn_dataPack c') s'"
    using step by (cases rule: sendStep_cases) (auto simp: packed_ok_def sender_msg_def)
  have packs: "entered s s' \<Longrightarrow> Pack g (cn_dataPack (cs_conn y)) (Some (sender_msg s)) = Inr (packet (sender_msg s))"
    using inv s packet_of_Pack
    by (fastforce simp: log_inv_def packed_ok_def entered_def split: send_pc.splits)
  have "\<forall>u r. cs_senders ?y u = Some r \<longrightarrow> packed_ok g (cn_dataPack (cs_conn ?y)) r"
    using inv ok by (auto simp: log_inv_def same(2))
  moreover have "distinct (map fst (cs_accepted ?y))"
    using inv fresh by (simp add: log_inv_def)
  moreover have "(u, m) \<in> set (cs_accepted ?y) \<longleftrightarrow>
      (\<exists>r. cs_senders ?y u = Some r \<and> delivered r \<and> m = sender_msg r)" for u m
    using mem [of u m] ent keep s same(1) by (cases "u = t") auto
  moreover have "(u, m) \<in> set (cs_accepted ?y) \<Longrightarrow> Pack g (cn_dataPack (cs_conn ?y)) (Some m) = Inr (packet m)" for u m
  proof -
    assume "(u, m) \<in> set (cs_accepted ?y)"
    then consider "(u, m) \<in> set (cs_accepted y)" | "entered s s'" "m = sender_msg s"
      by (auto split: if_splits)
    then show ?thesis
      using inv packs same(2) by cases (auto simp: log_inv_def simp del: split_paired_All)
  qed
  ultimately show ?thesis
    unfolding log_inv_def by blast
qed

lemma log_inv_conn:
  assumes "log_inv g y" "cn_dataPack c' = cn_dataPack (cs_conn y)"
  shows "log_inv g (y\<lparr>cs_conn := c'\<rparr>)"
  using assms by (simp add: log_inv_def)

lemma log_inv_step:
  assumes "conn_step g y y'" "log_inv g y"
  shows "log_inv g y'"
  using assms(1)
proof (cases rule: conn_step.cases)
  case (send_step t s ch s' c')
  then show ?thesis using log_inv_send assms(2) by blast
next
  case (writer_step wch de c')
  from writer_step(2) have "cn_dataPack c' = cn_dataPack (cs_conn y)"
    by (cases rule: writerStep_cases) simp_all
  then show ?thesis using log_inv_conn assms(2) writer_step(1) by blast
next
  case (call_send t nb i d)
  have "log_inv g (y\<lparr>cs_senders := (cs_senders y)(t \<mapsto> newSender nb i d)\<rparr>)"
    using assms(2) call_send(2)
    by (auto simp: log_inv_def packed_ok_def newSender_def delivered_def)
  then show ?thesis by (simp add: call_send(1))
next
  case (ctx_done t s err)
  have "delivered (s\<lparr>sd_ctxErr := Some err\<rparr>) = delivered s" "sender_msg (s\<lparr>sd_ctxErr := Some err\<rparr>) = sender_msg s"
    "sd_pc (s\<lparr>sd_ctxErr := Some err\<rparr>) = sd_pc s"
    by (simp_all add: delivered_def sender_msg_def)
  then show ?thesis
    using assms(2) ctx_done(2) unfolding ctx_done(1) log_inv_def packed_ok_def
    by auto
qed (use assms(2) in \<open>simp_all add: log_inv_conn startWriter_def\<close>)

text \<open>\<open>Stop\<close> closes everything at once, and the one value it sends finds room in its channel.\<close>

definition stop_ok :: "'p Connection \<Rightarrow> bool" where
  "stop_ok c \<longleftrightarrow>
     cn_cancelled c = cn_isClosed c \<and> cn_exitClosed c = cn_isClosed c \<and>
     (cn_isClosed c \<longrightarrow> sk_closed (cn_Conn c)) \<and>
     length (cn_ExitBuffChan c) \<le> 1 \<and> (\<not> cn_isClosed c \<longrightarrow> cn_ExitBuffChan c = [])"

abbreviation stop_inv :: "'p conn_sys \<Rightarrow> bool" where
  "stop_inv y \<equiv> stop_ok (cs_conn y)"

lemma sendStep_stop_fields:
  assumes "sendStep g ch s c = Some (s', c')"
  shows "cn_cancelled c' = cn_cancelled c \<and> cn_isClosed c' = cn_isClosed c \<and>
    cn_exitClosed c' = cn_exitClosed c \<and> cn_ExitBuffChan c' = cn_ExitBuffChan c"
  using assms by (cases rule: sendStep_cases) (simp_all add: offer_fields)

lemma Write_closed: "Write data sk = (r, sk') \<Longrightarrow> sk_closed sk' = sk_closed sk"
  by (auto simp: Write_def split: if_splits list.splits)

lemma writeFull_closed: "writeFull data sk = (err, sk') \<Longrightarrow> sk_closed sk' = sk_closed sk"
proof (induction "length data" arbitrary: data sk rule: less_induct)
  case less
  obtain n e sk1 where w: "Write data sk = ((n, e), sk1)" by (metis prod.exhaust)
  have "data \<noteq> [] \<Longrightarrow> 0 < n \<Longrightarrow> length (drop (nat n) data) < length data" by simp
  then show ?case
    using less.prems [unfolded writeFull.simps [of data sk]] Write_closed [OF w]
      less.hyps [of "drop (nat n) data" sk1] w
    by (auto split: if_splits option.splits)
qed

lemma stop_ok_Stop: "stop_ok c \<Longrightarrow> stop_ok (Stop c)"
  by (simp add: stop_ok_def Stop_def)

lemma stop_ok_writerStep:
  assumes "writerStep g ch de c = Some c'" "stop_ok c"
  shows "stop_ok c'"
  using assms(1)
proof (cases rule: writerStep_cases)
  case (broken data err sk)
  have "stop_ok (c\<lparr>cn_Conn := sk, cn_writer := WriterDone\<rparr>)"
    using assms(2) writeFull_closed [OF broken(2)] by (simp add: stop_ok_def)
  then show ?thesis by (simp add: broken(3) writerExit_def stop_ok_Stop)
next
  case (written data sk)
  then show ?thesis using assms(2) writeFull_closed [OF written(2)] by (simp add: stop_ok_def)
next
  case exit
  have "stop_ok (c\<lparr>cn_ExitBuffChan := tl (cn_ExitBuffChan c), cn_writer := WriterDone\<rparr>)"
    using assms(2) by (auto simp: stop_ok_def)
  then show ?thesis by (simp add: exit(2) writerExit_def stop_ok_Stop)
next
  case (drop_packet data)
  have "stop_ok (c\<lparr>cn_writer := WriterDone\<rparr>)" using assms(2) by (simp add: stop_ok_def)
  then show ?thesis by (simp add: drop_packet(2) writerExit_def stop_ok_Stop)
qed (use assms(2) in \<open>simp add: stop_ok_def\<close>)

lemma stop_inv_step:
  assumes "conn_step g y y'" "stop_inv y"
  shows "stop_inv y'"
  using assms(1)
proof (cases rule: conn_step.cases)
  case (send_step t s ch s' c')
  then show ?thesis
    using assms(2) sendStep_stop_fields [OF send_step(3)] sendStep_sender(3) [OF send_step(3)]
    by (simp add: stop_ok_def)
next
  case (writer_step wch de c')
  then show ?thesis using stop_ok_writerStep assms(2) by simp
qed (use assms(2) in \<open>simp_all add: Stop_def stop_ok_def startWriter_def SetProperty_def RemoveProperty_def\<close>)

definition conn_inv :: "Config \<Rightarrow> 'p conn_sys \<Rightarrow> bool" where
  "conn_inv g y \<longleftrightarrow> stream_inv y \<and> queue_inv y \<and> gate_inv y \<and> log_inv g y \<and> stop_inv y"

lemma conn_inv_init: "conn_init g y \<Longrightarrow> conn_inv g y"
  by (auto simp: conn_init_def conn_inv_def stream_inv_def queue_inv_def gate_inv_def log_inv_def
      packets_def holders_def stop_ok_def setMetrics_def newConnection_def Let_def)

lemma conn_inv_step: "conn_inv g y \<Longrightarrow> conn_step g y y' \<Longrightarrow> conn_inv g y'"
  unfolding conn_inv_def
  by (blast intro: stream_inv_step queue_inv_step gate_inv_step log_inv_step stop_inv_step)

interpretation conn: invariant_system "conn_init g" "conn_step g" "conn_inv g" for g
  by unfold_locales (fact conn_inv_init, fact conn_inv_step)

section \<open>Consequences of the invariant\<close>

lemma prefix_concat_split:
  "prefix out (concat ps) \<Longrightarrow>
     \<exists>k rest. k \<le> length ps \<and> out = concat (take k ps) @ rest \<and>
       (rest = [] \<or> k < length ps \<and> strict_prefix rest (ps ! k))"
proof (induction ps arbitrary: out)
  case Nil
  then show ?case by (intro exI [of _ 0]) simp
next
  case (Cons p ps)
  show ?case
  proof (cases "prefix p out")
    case True
    then obtain out' where out: "out = p @ out'" by (auto simp: prefix_def)
    with Cons.prems have "prefix out' (concat ps)" by simp
    from Cons.IH [OF this] obtain k rest where "k \<le> length ps" "out' = concat (take k ps) @ rest"
      "rest = [] \<or> k < length ps \<and> strict_prefix rest (ps ! k)" by blast
    then show ?thesis using out by (intro exI [of _ "Suc k"] exI [of _ rest]) auto
  next
    case False
    have "prefix out p \<or> prefix p out"
      using Cons.prems prefix_same_cases [of out "concat (p # ps)" p] by auto
    with False have "strict_prefix out p" by (auto simp: strict_prefix_def)
    then show ?thesis by (intro exI [of _ 0] exI [of _ out]) auto
  qed
qed

lemma stream_prefix:
  assumes "stream_inv y"
  shows "prefix (sk_out (cn_Conn (cs_conn y))) (concat (packets y))"
  using assms by (cases "cn_writer (cs_conn y)") (auto simp: stream_inv_def)

lemma accepted_framed:
  assumes "log_inv g y" "(t, m) \<in> set (cs_accepted y)" "length (msg_Data m) < 2 ^ 32"
  shows "framed m \<and> within_limit g (cn_dataPack (cs_conn y)) (msg_DataLen m)"
proof -
  have "Pack g (cn_dataPack (cs_conn y)) (Some m) = Inr (packet m)"
    using assms(1,2) unfolding log_inv_def by blast
  with framed_of_Pack [OF this assms(3)] show ?thesis by simp
qed

lemma filter_fst_unique:
  "distinct (map fst xs) \<Longrightarrow> (t, v) \<in> set xs \<Longrightarrow> filter (\<lambda>e. fst e = t) xs = [(t, v)]"
  by (induction xs) (auto simp: filter_empty_conv image_iff)

text \<open>How many own steps a call of \<open>send\<close> has left at most.\<close>

fun send_rank :: "send_pc \<Rightarrow> nat" where
  "send_rank SendStart = 5"
| "send_rank SendGate = 4"
| "send_rank SendLocked = 3"
| "send_rank (SendPacked msg) = 2"
| "send_rank (SendRelease result) = 1"
| "send_rank (SendDone result) = 0"

lemma sendStep_rank: "sendStep g ch s c = Some (s', c') \<Longrightarrow> send_rank (sd_pc s') < send_rank (sd_pc s)"
  by (erule sendStep_cases) auto

lemma sendStep_enabled:
  assumes "cn_cancelled c" "cn_isClosed c" "send_rank (sd_pc s) > 0"
  shows "\<exists>ch s' c'. sendStep g ch s c = Some (s', c')"
proof -
  have "\<exists>ch. sendStep g ch s c \<noteq> None"
  proof (cases "sd_pc s")
    case SendGate
    then have "sendStep g (if sd_nonblocking s then if cn_sendGate c then ChooseDefault else ChooseSend
        else ChooseConn) s c \<noteq> None"
      using assms(1) by (simp add: sendStep.simps)
    then show ?thesis by blast
  next
    case (SendPacked msg)
    then have "sendStep g (if sd_nonblocking s then if offer msg c = None then ChooseDefault else ChooseSend
        else ChooseConn) s c \<noteq> None"
      using assms(1) by (auto simp: sendStep.simps split: option.splits)
    then show ?thesis by blast
  qed (use assms in \<open>simp_all add: sendStep.simps\<close>)
  then show ?thesis by fast
qed

text \<open>The calls that are about to put their packet into the queue.\<close>

definition packed :: "(nat \<rightharpoonup> sender) \<Rightarrow> nat set" where
  "packed m = {t. \<exists>s msg. m t = Some s \<and> sd_pc s = SendPacked msg}"

lemma packed_update [simp]:
  "packed (m(t \<mapsto> s)) = (if \<exists>msg. sd_pc s = SendPacked msg then insert t (packed m) else packed m - {t})"
  by (auto simp: packed_def)

lemma packed_holders: "packed m \<subseteq> holders m"
  by (auto simp: packed_def holders_def holding_def)

lemma sendStep_closed:
  assumes "sendStep g ch s c = Some (s', c')" "cn_isClosed c"
  shows "\<not> (\<exists>msg. sd_pc s' = SendPacked msg)" "entered s s' \<Longrightarrow> \<exists>msg. sd_pc s = SendPacked msg"
proof -
  show "\<not> (\<exists>msg. sd_pc s' = SendPacked msg)"
    using assms(1)
  proof (cases rule: sendStep_cases)
    case (pack msg)
    have "sd_pc s' = SendRelease (Some ErrConnectionClosed)"
      using assms pack(1) by (auto simp: sendStep.simps)
    with pack show ?thesis by simp
  qed simp_all
  show "entered s s' \<Longrightarrow> \<exists>msg. sd_pc s = SendPacked msg"
    by (auto simp: entered_def split: send_pc.splits)
qed

definition packed_le :: "(nat \<rightharpoonup> sender) \<Rightarrow> (nat \<rightharpoonup> sender) \<Rightarrow> bool" where
  "packed_le m' m \<longleftrightarrow>
     (\<forall>t s' msg. m' t = Some s' \<and> sd_pc s' = SendPacked msg \<longrightarrow>
        (\<exists>s. m t = Some s \<and> sd_pc s = SendPacked msg \<and> sender_msg s = sender_msg s'))"

lemma packed_le_simps:
  "packed_le m m"
  "packed_le m2 m1 \<Longrightarrow> packed_le m1 m \<Longrightarrow> packed_le m2 m"
  "packed_le m' m \<Longrightarrow> packed m' \<subseteq> packed m"
  "packed_le m' m \<Longrightarrow> \<not> (\<exists>msg. sd_pc s = SendPacked msg) \<Longrightarrow> packed_le (m'(t \<mapsto> s)) m"
  unfolding packed_le_def packed_def by (blast, metis, blast, auto)

lemma closed_step:
  assumes "conn_step g y y'" "cn_isClosed (cs_conn y)"
  shows "cn_isClosed (cs_conn y') \<and> sk_out (cn_Conn (cs_conn y')) = sk_out (cn_Conn (cs_conn y)) \<and>
    packed_le (cs_senders y') (cs_senders y) \<and>
    (cs_accepted y' = cs_accepted y \<or>
     (\<exists>t s msg. cs_senders y t = Some s \<and> sd_pc s = SendPacked msg \<and>
        cs_accepted y' = cs_accepted y @ [(t, sender_msg s)] \<and> t \<notin> packed (cs_senders y')))"
  using assms(1)
proof (cases rule: conn_step.cases)
  case (send_step t s ch s' c')
  note closed = sendStep_closed [OF send_step(3) assms(2)]
  have "packed_le (cs_senders y') (cs_senders y)"
    using closed(1) by (simp add: send_step(1) packed_le_simps)
  then show ?thesis
    using closed assms(2) send_step sendStep_stop_fields [OF send_step(3)] sendStep_sender(3) [OF send_step(3)]
    by (cases "entered s s'") auto
next
  case (writer_step wch de c')
  from writer_step(2) have "cn_isClosed c' \<and> sk_out (cn_Conn c') = sk_out (cn_Conn (cs_conn y))"
    using assms(2) by (cases "cn_writer (cs_conn y)"; cases wch)
      (auto simp: writerStep.simps writerExit_def split: if_splits list.splits)
  then show ?thesis by (simp add: writer_step(1) packed_le_simps)
next
  case (call_send t nb i d)
  then show ?thesis using assms(2) by (auto simp: newSender_def intro!: packed_le_simps)
next
  case (ctx_done t s err)
  then have "packed_le (cs_senders y') (cs_senders y)"
    by (auto simp: packed_le_def sender_msg_def)
  then show ?thesis using ctx_done assms(2) by simp
qed (use assms(2) in \<open>simp_all add: packed_le_simps startWriter_def SetProperty_def RemoveProperty_def\<close>)

lemma closed_steps:
  assumes "(conn_step g)\<^sup>*\<^sup>* y y'" "cn_isClosed (cs_conn y)" "packed (cs_senders y) \<subseteq> {u}"
  shows "cn_isClosed (cs_conn y') \<and> sk_out (cn_Conn (cs_conn y')) = sk_out (cn_Conn (cs_conn y)) \<and>
    packed_le (cs_senders y') (cs_senders y) \<and>
    (cs_accepted y' = cs_accepted y \<or>
     (\<exists>t s msg. cs_senders y t = Some s \<and> sd_pc s = SendPacked msg \<and>
        cs_accepted y' = cs_accepted y @ [(t, sender_msg s)] \<and> packed (cs_senders y') = {}))"
  using assms(1)
proof (induction rule: rtranclp_induct)
  case base
  then show ?case using assms(2) by (simp add: packed_le_simps)
next
  case (step y1 y2)
  have st: "cn_isClosed (cs_conn y2)" "sk_out (cn_Conn (cs_conn y2)) = sk_out (cn_Conn (cs_conn y1))"
    "packed_le (cs_senders y2) (cs_senders y1)"
    and acc: "cs_accepted y2 = cs_accepted y1 \<or>
     (\<exists>t s msg. cs_senders y1 t = Some s \<and> sd_pc s = SendPacked msg \<and>
        cs_accepted y2 = cs_accepted y1 @ [(t, sender_msg s)] \<and> t \<notin> packed (cs_senders y2))"
    using closed_step [OF step.hyps(2)] step.IH by blast+
  have le: "packed_le (cs_senders y2) (cs_senders y)"
    using st(3) step.IH packed_le_simps(2) by blast
  have sub: "packed (cs_senders y2) \<subseteq> packed (cs_senders y1)" "packed (cs_senders y2) \<subseteq> {u}"
    using packed_le_simps(3) [OF st(3)] packed_le_simps(3) [OF le] assms(3) by blast+
  consider (same) "cs_accepted y2 = cs_accepted y1"
    | (more) t s msg where "cs_senders y1 t = Some s" "sd_pc s = SendPacked msg"
        "cs_accepted y2 = cs_accepted y1 @ [(t, sender_msg s)]" "t \<notin> packed (cs_senders y2)"
    using acc by blast
  then show ?case
  proof cases
    case same
    then show ?thesis using step.IH st le sub(1) by auto
  next
    case more
    then have t: "t \<in> packed (cs_senders y1)" by (auto simp: packed_def)
    then have "cs_accepted y1 = cs_accepted y" using step.IH by auto
    moreover obtain r where "cs_senders y t = Some r" "sd_pc r = SendPacked msg" "sender_msg r = sender_msg s"
      using more(1,2) step.IH unfolding packed_le_def by blast
    moreover have "packed (cs_senders y1) \<subseteq> {u}"
      using step.IH packed_le_simps(3) assms(3) by blast
    then have "packed (cs_senders y2) = {}" using t sub(1) more(4) by auto
    ultimately show ?thesis using step.IH st le more(3) by auto
  qed
qed

text \<open>A way to run the system on a given list of actions.\<close>

datatype conn_action =
    CallSend nat bool u32 bytes
  | StepSend nat choice
  | StartWriter
  | StepWriter writer_choice
  | CallStop

fun execAction :: "Config \<Rightarrow> conn_action \<Rightarrow> 'p conn_sys \<Rightarrow> 'p conn_sys option" where
  "execAction g (CallSend t nonblocking msgId data) y =
     (if cs_senders y t = None
      then Some (y\<lparr>cs_senders := (cs_senders y)(t \<mapsto> newSender nonblocking msgId data)\<rparr>) else None)"
| "execAction g (StepSend t ch) y =
     (case cs_senders y t of
        None \<Rightarrow> None
      | Some s \<Rightarrow>
          (case sendStep g ch s (cs_conn y) of
             None \<Rightarrow> None
           | Some (s', c') \<Rightarrow>
               Some (y\<lparr>cs_conn := c', cs_senders := (cs_senders y)(t \<mapsto> s'),
                 cs_accepted := (if entered s s' then cs_accepted y @ [(t, sender_msg s)] else cs_accepted y)\<rparr>)))"
| "execAction g StartWriter y =
     (if cn_writer (cs_conn y) = WriterNone then Some (y\<lparr>cs_conn := startWriter (cs_conn y)\<rparr>) else None)"
| "execAction g (StepWriter ch) y =
     map_option (\<lambda>c'. y\<lparr>cs_conn := c'\<rparr>) (writerStep g ch False (cs_conn y))"
| "execAction g CallStop y = Some (y\<lparr>cs_conn := Stop (cs_conn y)\<rparr>)"

fun execActions :: "Config \<Rightarrow> conn_action list \<Rightarrow> 'p conn_sys \<Rightarrow> 'p conn_sys option" where
  "execActions g [] y = Some y"
| "execActions g (a # as) y = Option.bind (execAction g a y) (execActions g as)"

lemma execAction_step: "execAction g a y = Some y' \<Longrightarrow> conn_step g y y'"
proof (cases a)
  case (StepSend t ch)
  assume "execAction g a y = Some y'"
  with StepSend obtain s s' c' where "cs_senders y t = Some s" "sendStep g ch s (cs_conn y) = Some (s', c')"
    "y' = y\<lparr>cs_conn := c', cs_senders := (cs_senders y)(t \<mapsto> s'),
       cs_accepted := (if entered s s' then cs_accepted y @ [(t, sender_msg s)] else cs_accepted y)\<rparr>"
    by (auto split: option.splits prod.splits)
  then show ?thesis using conn_step.send_step by metis
qed (auto intro: conn_step.intros split: if_splits)

lemma execActions_reach:
  "reach (conn_init g) (conn_step g) y \<Longrightarrow> execActions g as y = Some y' \<Longrightarrow> reach (conn_init g) (conn_step g) y'"
proof (induction as arbitrary: y)
  case (Cons a as)
  then obtain y1 where "execAction g a y = Some y1" "execActions g as y1 = Some y'"
    by (auto simp: Option.bind_eq_Some_conv)
  then show ?case using Cons.IH Cons.prems(1) execAction_step reach_step by metis
qed simp

definition demo_socket :: socket where
  "demo_socket = \<lparr> sk_out = [], sk_script = [(3, None)], sk_closed = False,
     sk_in = \<lparr> rd_chunks = [], rd_err = io_EOF \<rparr> \<rparr>"

definition demo_conn :: "nat conn_sys" where
  "demo_conn = \<lparr>
     cs_conn = setMetrics (Some zeroMetrics) (newConnection DefaultConfig (\<lambda>x. x) 0 demo_socket 7 None),
     cs_senders = Map.empty, cs_accepted = [] \<rparr>"

lemma demo_conn_reach: "reach (conn_init DefaultConfig) (conn_step DefaultConfig) demo_conn"
proof (rule reach_init)
  have "sk_out demo_socket = []" by (simp add: demo_socket_def)
  then show "conn_init DefaultConfig demo_conn"
    unfolding conn_init_def demo_conn_def conn_sys.simps by blast
qed

definition demo_send :: "conn_action list" where
  "demo_send = [StartWriter, CallSend 0 True 9 [65], StepSend 0 ChooseSend, StepSend 0 ChooseSend,
     StepSend 0 ChooseSend]"

definition demo_write :: "conn_action list" where
  "demo_write = [StepSend 0 ChooseSend, StepSend 0 ChooseSend, StepWriter TakeData, StepWriter Proceed]"

definition demo_view :: "nat conn_sys \<Rightarrow> send_pc option \<times> (nat \<times> Message) list \<times> bytes" where
  "demo_view y = (map_option sd_pc (cs_senders y 0), cs_accepted y, sk_out (cn_Conn (cs_conn y)))"

lemma demo_run:
  "map_option demo_view (execActions DefaultConfig demo_send demo_conn)
     = Some (Some (SendPacked [1, 0, 0, 0, 9, 0, 0, 0, 65]), [], [])"
  "map_option demo_view (execActions DefaultConfig (demo_send @ demo_write) demo_conn)
     = Some (Some (SendDone None), [(0, NewMsgPackage 9 [65])], [1, 0, 0, 0, 9, 0, 0, 0, 65])"
  by code_simp+

lemma demo_reached:
  obtains y :: "nat conn_sys" and s where "reach (conn_init DefaultConfig) (conn_step DefaultConfig) y"
    "cs_senders y 0 = Some s" "sd_pc s = SendPacked [1, 0, 0, 0, 9, 0, 0, 0, 65]" "cs_accepted y = []"
proof -
  obtain y where "execActions DefaultConfig demo_send demo_conn = Some y"
    "demo_view y = (Some (SendPacked [1, 0, 0, 0, 9, 0, 0, 0, 65]), [], [])"
    using demo_run(1) by blast
  with that execActions_reach [OF demo_conn_reach] show thesis by (auto simp: demo_view_def)
qed

lemma demo_written:
  obtains y :: "nat conn_sys" and s where "reach (conn_init DefaultConfig) (conn_step DefaultConfig) y"
    "cs_senders y 0 = Some s" "sd_pc s = SendDone None" "cs_accepted y = [(0, NewMsgPackage 9 [65])]"
    "sk_out (cn_Conn (cs_conn y)) = [1, 0, 0, 0, 9, 0, 0, 0, 65]"
proof -
  obtain y where "execActions DefaultConfig (demo_send @ demo_write) demo_conn = Some y"
    "demo_view y = (Some (SendDone None), [(0, NewMsgPackage 9 [65])], [1, 0, 0, 0, 9, 0, 0, 0, 65])"
    using demo_run(2) by blast
  with that execActions_reach [OF demo_conn_reach] show thesis by (auto simp: demo_view_def)
qed

lemma demo_run_stop:
  "map_option (\<lambda>y. (map_option sd_pc (cs_senders y 0), cn_isClosed (cs_conn y)))
     (execActions DefaultConfig (demo_send @ [CallStop]) demo_conn)
     = Some (Some (SendPacked [1, 0, 0, 0, 9, 0, 0, 0, 65]), True)"
  by code_simp

lemma demo_stopped:
  obtains y :: "nat conn_sys" and s where "reach (conn_init DefaultConfig) (conn_step DefaultConfig) y"
    "cn_isClosed (cs_conn y)" "cs_senders y 0 = Some s" "sd_pc s = SendPacked [1, 0, 0, 0, 9, 0, 0, 0, 65]"
proof -
  obtain y where "execActions DefaultConfig (demo_send @ [CallStop]) demo_conn = Some y"
    "map_option sd_pc (cs_senders y 0) = Some (SendPacked [1, 0, 0, 0, 9, 0, 0, 0, 65])" "cn_isClosed (cs_conn y)"
    using demo_run_stop by blast
  with that execActions_reach [OF demo_conn_reach] show thesis by auto
qed

text \<open>The steps of one call with no step of another goroutine in between.\<close>

fun runSend :: "Config \<Rightarrow> choice list \<Rightarrow> sender \<Rightarrow> 'p Connection \<Rightarrow> (sender \<times> 'p Connection) option" where
  "runSend g [] s c = Some (s, c)"
| "runSend g (ch # chs) s c =
     (case sendStep g ch s c of None \<Rightarrow> None | Some (s', c') \<Rightarrow> runSend g chs s' c')"

section \<open>Properties\<close>

text \<open>C2: the outbound stream is intact. Whatever the interleaving of senders, writer, short writes and
  \<open>Stop\<close>, the peer that reads what was written gets, message by message and in the order in which
  they entered the queue, the messages sent; what follows is at most a proper part of the next
  packet.\<close>
theorem connection_stream_intact:
  assumes "reach (conn_init g) (conn_step g) y"
    and "\<forall>(t, m) \<in> set (cs_accepted y). length (msg_Data m) < 2 ^ 32"
    and "rd_bytes r = sk_out (cn_Conn (cs_conn y))"
  shows "\<exists>k r'. k \<le> length (cs_accepted y) \<and>
     ReadMessages k g (cn_dataPack (cs_conn y)) (Some r) = (Inr (map snd (take k (cs_accepted y))), Some r') \<and>
     (rd_bytes r' = [] \<or> k < length (cs_accepted y) \<and>
        strict_prefix (rd_bytes r') (packet (snd (cs_accepted y ! k))))"
proof -
  let ?d = "cn_dataPack (cs_conn y)"
  have inv: "stream_inv y" "log_inv g y"
    using conn.reach_inv [OF assms(1)] by (simp_all add: conn_inv_def)
  obtain k rest where k: "k \<le> length (packets y)"
    "sk_out (cn_Conn (cs_conn y)) = concat (take k (packets y)) @ rest"
    "rest = [] \<or> k < length (packets y) \<and> strict_prefix rest (packets y ! k)"
    using prefix_concat_split [OF stream_prefix [OF inv(1)]] by blast
  let ?ms = "map snd (take k (cs_accepted y))"
  have "concat (take k (packets y)) = concat (map packet ?ms)"
    by (simp add: packets_def take_map)
  moreover have "\<forall>m \<in> set ?ms. framed m \<and> within_limit g ?d (msg_DataLen m)"
    using accepted_framed [OF inv(2)] assms(2) by (fastforce dest: in_set_takeD)
  ultimately obtain r' where "ReadMessages (length ?ms) g ?d (Some r) = (Inr ?ms, Some r')" "rd_bytes r' = rest"
    using ReadMessages_packets [of ?ms g ?d r rest] assms(3) k(2) by auto
  then show ?thesis
    using k by (intro exI [of _ k] exI [of _ r']) (auto simp: packets_def)
qed

theorem connection_stream_intact_witness:
  "\<exists>(y :: nat conn_sys) k r'. k \<le> 1 \<and>
     ReadMessages k DefaultConfig (cn_dataPack (cs_conn y))
       (Some \<lparr> rd_chunks = [[1, 0, 0, 0, 9, 0, 0, 0, 65]], rd_err = io_EOF \<rparr>)
     = (Inr (take k [NewMsgPackage 9 [65]]), Some r')"
proof -
  obtain y :: "nat conn_sys" and s where y: "reach (conn_init DefaultConfig) (conn_step DefaultConfig) y"
    "cs_accepted y = [(0, NewMsgPackage 9 [65])]" "sk_out (cn_Conn (cs_conn y)) = [1, 0, 0, 0, 9, 0, 0, 0, 65]"
    by (rule demo_written)
  have "\<forall>(t, m) \<in> set (cs_accepted y). length (msg_Data m) < 2 ^ 32"
    by (simp add: y(2) NewMsgPackage_def)
  from connection_stream_intact [OF y(1) this, of "\<lparr> rd_chunks = [[1, 0, 0, 0, 9, 0, 0, 0, 65]], rd_err = io_EOF \<rparr>"]
  obtain k r' where "k \<le> 1" "ReadMessages k DefaultConfig (cn_dataPack (cs_conn y))
      (Some \<lparr> rd_chunks = [[1, 0, 0, 0, 9, 0, 0, 0, 65]], rd_err = io_EOF \<rparr>)
    = (Inr (map snd (take k (cs_accepted y))), Some r')"
    by (auto simp: rd_bytes_def y(2,3))
  then show ?thesis unfolding y(2) by (auto simp: take_map [symmetric])
qed

text \<open>a call of \<open>send\<close> returns nil exactly when its message entered the queue, and then it entered
  once; the queue never holds more than \<open>MaxMsgChanLen\<close> packets.\<close>
theorem send_result_tells_queueing:
  assumes "reach (conn_init g) (conn_step g) y"
    and "cs_senders y t = Some s" "sd_pc s = SendDone result"
  shows "filter (\<lambda>e. fst e = t) (cs_accepted y) = (if result = None then [(t, sender_msg s)] else []) \<and>
     length (cn_msgChan (cs_conn y)) \<le> cn_msgChanCap (cs_conn y)"
proof
  have inv: "log_inv g y" "queue_inv y"
    using conn.reach_inv [OF assms(1)] by (simp_all add: conn_inv_def)
  have mem: "(t, m) \<in> set (cs_accepted y) \<longleftrightarrow> result = None \<and> m = sender_msg s" for m
    using inv(1) assms(2,3) by (auto simp: log_inv_def delivered_def)
  have dist: "distinct (map fst (cs_accepted y))"
    using inv(1) by (simp add: log_inv_def)
  show "filter (\<lambda>e. fst e = t) (cs_accepted y) = (if result = None then [(t, sender_msg s)] else [])"
  proof (cases "result = None")
    case True
    with mem have "(t, sender_msg s) \<in> set (cs_accepted y)" by simp
    from filter_fst_unique [OF dist this] True show ?thesis by simp
  next
    case False
    with mem show ?thesis by (auto simp: filter_empty_conv)
  qed
  show "length (cn_msgChan (cs_conn y)) \<le> cn_msgChanCap (cs_conn y)"
    using inv(2) by (simp add: queue_inv_def)
qed

theorem send_result_tells_queueing_witness:
  "\<exists>y :: nat conn_sys. filter (\<lambda>e. fst e = 0) (cs_accepted y) = [(0, NewMsgPackage 9 [65])] \<and>
     length (cn_msgChan (cs_conn y)) \<le> cn_msgChanCap (cs_conn y)"
proof -
  obtain y :: "nat conn_sys" and s where y: "reach (conn_init DefaultConfig) (conn_step DefaultConfig) y"
    "cs_senders y 0 = Some s" "sd_pc s = SendDone None" "cs_accepted y = [(0, NewMsgPackage 9 [65])]"
    by (rule demo_written)
  from send_result_tells_queueing [OF y(1-3)] y(4) show ?thesis
    by (intro exI [of _ y]) simp
qed

text \<open>at most one call of \<open>send\<close> is between taking and releasing the gate.\<close>
theorem send_gate_exclusive:
  assumes "reach (conn_init g) (conn_step g) y"
    and "cs_senders y t = Some s" "holding s" "cs_senders y u = Some r" "holding r"
  shows "t = u \<and> cn_sendGate (cs_conn y)"
proof -
  have "gate_inv y" using conn.reach_inv [OF assms(1)] by (simp add: conn_inv_def)
  moreover have "t \<in> holders (cs_senders y)" "u \<in> holders (cs_senders y)"
    using assms(2-5) by (auto simp: holders_def)
  ultimately show ?thesis by (auto simp: gate_inv_def split: if_splits)
qed

theorem send_gate_exclusive_witness:
  "\<exists>(y :: nat conn_sys) s. cs_senders y 0 = Some s \<and> holding s \<and> cn_sendGate (cs_conn y)"
proof -
  obtain y :: "nat conn_sys" and s where y: "reach (conn_init DefaultConfig) (conn_step DefaultConfig) y"
    "cs_senders y 0 = Some s" "sd_pc s = SendPacked [1, 0, 0, 0, 9, 0, 0, 0, 65]"
    by (rule demo_reached)
  then have "holding s" by (simp add: holding_def)
  with send_gate_exclusive [OF y(1,2) _ y(2)] y(2) show ?thesis by blast
qed

text \<open>C29: \<open>Stop\<close> releases every sender. In a closed connection a call of \<open>send\<close> that has not
  returned always has a step to take, and every step brings it closer to its end, so it returns
  after at most five of its own steps.\<close>
theorem stop_releases_senders:
  assumes "reach (conn_init g) (conn_step g) y" "cn_isClosed (cs_conn y)"
    and "cs_senders y t = Some s" "send_rank (sd_pc s) > 0"
  shows "(\<exists>ch s' c'. sendStep g ch s (cs_conn y) = Some (s', c')) \<and>
    (\<forall>ch s' c'. sendStep g ch s (cs_conn y) = Some (s', c') \<longrightarrow> send_rank (sd_pc s') < send_rank (sd_pc s)) \<and>
    send_rank (sd_pc s) \<le> 5"
proof (intro conjI allI impI)
  have "cn_cancelled (cs_conn y)"
    using conn.reach_inv [OF assms(1)] assms(2) by (simp add: conn_inv_def stop_ok_def)
  then show "\<exists>ch s' c'. sendStep g ch s (cs_conn y) = Some (s', c')"
    using assms(2,4) by (rule sendStep_enabled)
  show "sendStep g ch s (cs_conn y) = Some (s', c') \<Longrightarrow> send_rank (sd_pc s') < send_rank (sd_pc s)" for ch s' c'
    by (rule sendStep_rank)
  show "send_rank (sd_pc s) \<le> 5" by (cases "sd_pc s") simp_all
qed

theorem stop_releases_senders_witness:
  "\<exists>(y :: nat conn_sys) s. cn_isClosed (cs_conn y) \<and> cs_senders y 0 = Some s \<and>
     (\<exists>ch s' c'. sendStep DefaultConfig ch s (cs_conn y) = Some (s', c'))"
proof -
  obtain y :: "nat conn_sys" and s where y: "reach (conn_init DefaultConfig) (conn_step DefaultConfig) y"
    "cn_isClosed (cs_conn y)" "cs_senders y 0 = Some s" "sd_pc s = SendPacked [1, 0, 0, 0, 9, 0, 0, 0, 65]"
    by (rule demo_stopped)
  then have "send_rank (sd_pc s) > 0" by simp
  from stop_releases_senders [OF y(1-3) this] y(2,3) show ?thesis by blast
qed

text \<open>after \<open>Stop\<close> nothing more is written, and at most one more message enters the queue: that
  of a call which had already packed it.\<close>
theorem stop_ends_stream:
  assumes "reach (conn_init g) (conn_step g) y" "cn_isClosed (cs_conn y)" "(conn_step g)\<^sup>*\<^sup>* y y'"
  shows "cn_isClosed (cs_conn y') \<and> sk_out (cn_Conn (cs_conn y')) = sk_out (cn_Conn (cs_conn y)) \<and>
    (cs_accepted y' = cs_accepted y \<or>
     (\<exists>t s msg. cs_senders y t = Some s \<and> sd_pc s = SendPacked msg \<and>
        cs_accepted y' = cs_accepted y @ [(t, sender_msg s)]))"
proof -
  have "gate_inv y" using conn.reach_inv [OF assms(1)] by (simp add: conn_inv_def)
  then obtain u where one: "packed (cs_senders y) \<subseteq> {u}"
    using packed_holders [of "cs_senders y"] by (auto simp: gate_inv_def split: if_splits)
  from closed_steps [OF assms(3,2) one] show ?thesis by blast
qed

theorem stop_ends_stream_witness:
  "\<exists>y :: nat conn_sys. cn_isClosed (cs_conn y) \<and>
     (\<forall>y'. conn_step DefaultConfig y y' \<longrightarrow> sk_out (cn_Conn (cs_conn y')) = sk_out (cn_Conn (cs_conn y)))"
proof -
  obtain y :: "nat conn_sys" and s where y: "reach (conn_init DefaultConfig) (conn_step DefaultConfig) y"
    "cn_isClosed (cs_conn y)" "cs_senders y 0 = Some s" "sd_pc s = SendPacked [1, 0, 0, 0, 9, 0, 0, 0, 65]"
    by (rule demo_stopped)
  from stop_ends_stream [OF y(1,2) r_into_rtranclp] y(2) show ?thesis by blast
qed

text \<open>\<open>SendBuffMsg\<close> as one function is the sequence of steps of a non-blocking call that no other
  goroutine interrupts: from every state of the connection such a sequence ends with the same result
  and leaves the same connection.\<close>
theorem send_buff_msg_refines:
  "\<exists>chs s'. runSend g chs (newSender True msgId data) c
      = Some (s', snd (SendBuffMsg g msgId data c)) \<and> sd_pc s' = SendDone (fst (SendBuffMsg g msgId data c))"
proof (cases "cn_isClosed c \<or> cn_sendGate c")
  case True
  show ?thesis
  proof (cases "cn_isClosed c")
    case True
    then show ?thesis
      by (intro exI [of _ "[ChooseSend]"]) (simp add: sendStep.simps newSender_def SendBuffMsg_def)
  next
    case False
    with \<open>cn_isClosed c \<or> cn_sendGate c\<close> show ?thesis
      by (intro exI [of _ "[ChooseSend, ChooseDefault]"]) (simp add: sendStep.simps newSender_def SendBuffMsg_def)
  qed
next
  case False
  have gate: "c\<lparr>cn_sendGate := True, cn_sendGate := False\<rparr> = c" using False by simp
  show ?thesis
  proof (cases "Pack g (cn_dataPack c) (Some (NewMsgPackage msgId data))")
    case (Inl err)
    with False gate show ?thesis
      by (intro exI [of _ "[ChooseSend, ChooseSend, ChooseSend, ChooseSend]"])
         (simp add: sendStep.simps newSender_def SendBuffMsg_def)
  next
    case (Inr msg)
    show ?thesis
      using False gate Inr
      by (intro exI [of _ "[ChooseSend, ChooseSend, ChooseSend,
            if offer msg c = None then ChooseDefault else ChooseSend, ChooseSend]"])
         (auto simp: sendStep.simps newSender_def SendBuffMsg_def offer_def)
  qed
qed















end
