(* ===== verification/ConnStore.thy ===== *)
theory ConnStore
  imports Connection
begin

text \<open>
  Connections as the other components see them: values of the interface \<open>gface.IConnection\<close> are
  references into a store of connection objects. The locale \<open>buffered_sender\<close> is the part of that
  interface on which broadcasting relies; \<open>SendBuffMsg\<close> on the store is its implementation.
\<close>

text \<open>A non-nil interface value: the object it points to and the connection id that object answers.\<close>

record iconn =
  ic_ref :: nat
  ic_connID :: u32

type_synonym 'p conn_store = "nat \<rightharpoonup> 'p Connection"

abbreviation conn_at :: "'p conn_store \<Rightarrow> iconn \<Rightarrow> 'p Connection option" where
  "conn_at w i \<equiv> w (ic_ref i)"

section \<open>Calls through the interface\<close>

text \<open>A call on a reference that points nowhere is a nil dereference.\<close>

definition storeSend ::
  "Config \<Rightarrow> u32 \<Rightarrow> bytes \<Rightarrow> iconn \<Rightarrow> 'p conn_store \<Rightarrow> go_error option \<times> 'p conn_store" where
  "storeSend g msgId data i w =
     (case conn_at w i of
        None \<Rightarrow> (Some (Panic ''nil pointer dereference''), w)
      | Some c \<Rightarrow> (case SendBuffMsg g msgId data c of (err, c') \<Rightarrow> (err, w(ic_ref i \<mapsto> c'))))"

definition storeStop :: "iconn \<Rightarrow> 'p conn_store \<Rightarrow> 'p conn_store" where
  "storeStop i w = (case conn_at w i of None \<Rightarrow> w | Some c \<Rightarrow> w(ic_ref i \<mapsto> Stop c))"

text \<open>The packets accepted by a connection and not yet written.\<close>

definition outbox_of :: "'p Connection \<Rightarrow> bytes list" where
  "outbox_of c = (case cn_writer c of WriterGot data \<Rightarrow> data # cn_msgChan c | _ \<Rightarrow> cn_msgChan c)"

definition outbox :: "iconn \<Rightarrow> 'p conn_store \<Rightarrow> bytes list" where
  "outbox i w = (case conn_at w i of None \<Rightarrow> [] | Some c \<Rightarrow> outbox_of c)"

definition store_wf :: "'p conn_store \<Rightarrow> bool" where
  "store_wf w \<longleftrightarrow> (\<forall>c \<in> ran w. length (cn_msgChan c) \<le> cn_msgChanCap c)"

section \<open>The interface of buffered senders\<close>

lemma subseq_set_subset: "subseq xs ys \<Longrightarrow> set xs \<subseteq> set ys"
  by (induction rule: list_emb.induct) auto

lemma subseq_sorted_wrt: "subseq xs ys \<Longrightarrow> sorted_wrt P ys \<Longrightarrow> sorted_wrt P xs"
  by (induction rule: list_emb.induct) (auto dest: subseq_set_subset)

text \<open>
  What a client may rely on: a send either fails and leaves every outbox as it was, or appends exactly
  one packet to the outbox of its receiver and to no other.
\<close>

locale buffered_sender =
  fixes send :: "u32 \<Rightarrow> bytes \<Rightarrow> 'i \<Rightarrow> 'w \<Rightarrow> go_error option \<times> 'w"
    and box :: "'i \<Rightarrow> 'w \<Rightarrow> bytes list"
    and frame :: "u32 \<Rightarrow> bytes \<Rightarrow> bytes"
    and same :: "'i \<Rightarrow> 'i \<Rightarrow> bool"
    and wf :: "'w \<Rightarrow> bool"
  assumes same_refl: "same i i"
    and send_wf: "wf w \<Longrightarrow> send m d i w = (err, w') \<Longrightarrow> wf w'"
    and send_ok: "wf w \<Longrightarrow> send m d i w = (None, w') \<Longrightarrow> box i w' = box i w @ [frame m d]"
    and send_fail: "wf w \<Longrightarrow> send m d i w = (Some e, w') \<Longrightarrow> box j w' = box j w"
    and send_other: "wf w \<Longrightarrow> send m d i w = (err, w') \<Longrightarrow> \<not> same i j \<Longrightarrow> box j w' = box j w"
begin

text \<open>Sending one message to a list of receivers, collecting the failures.\<close>

fun send_all :: "u32 \<Rightarrow> bytes \<Rightarrow> 'i list \<Rightarrow> 'w \<Rightarrow> ('i \<times> go_error) list \<times> 'w" where
  "send_all m d [] w = ([], w)"
| "send_all m d (i # is) w =
     (case send m d i w of
        (err, w1) \<Rightarrow>
          (case send_all m d is w1 of
             (errs, w2) \<Rightarrow> (case err of None \<Rightarrow> errs | Some e \<Rightarrow> (i, e) # errs, w2)))"

lemma send_all_wf: "wf w \<Longrightarrow> send_all m d is w = (errs, w') \<Longrightarrow> wf w'"
proof (induction "is" arbitrary: w errs w')
  case (Cons i "is")
  then show ?case using send_wf [OF Cons.prems(1)] by (fastforce split: prod.splits)
qed simp

lemma send_all_other:
  "wf w \<Longrightarrow> send_all m d is w = (errs, w') \<Longrightarrow> (\<And>i. i \<in> set is \<Longrightarrow> \<not> same i j) \<Longrightarrow> box j w' = box j w"
proof (induction "is" arbitrary: w errs w')
  case (Cons i "is")
  obtain err w1 where s: "send m d i w = (err, w1)" by fastforce
  obtain errs1 where "send_all m d is w1 = (errs1, w')"
    using Cons.prems(2) s by (auto split: prod.splits)
  then have "box j w' = box j w1"
    using Cons.IH [of w1 errs1 w'] Cons.prems(3) send_wf [OF Cons.prems(1) s] by auto
  then show ?case using send_other [OF Cons.prems(1) s] Cons.prems(3) by simp
qed simp

lemma send_all_errs: "send_all m d is w = (errs, w') \<Longrightarrow> subseq (map fst errs) is"
proof (induction "is" arbitrary: w errs)
  case (Cons i "is")
  obtain err w1 where s: "send m d i w = (err, w1)" by fastforce
  obtain errs1 where "send_all m d is w1 = (errs1, w')" "errs = (case err of None \<Rightarrow> errs1 | Some e \<Rightarrow> (i, e) # errs1)"
    using Cons.prems s by (auto split: prod.splits)
  with Cons.IH show ?case by (cases err) auto
qed simp

text \<open>Every receiver gets the message exactly once, unless its failure is reported.\<close>

lemma send_all_delivers:
  assumes "wf w" "send_all m d is w = (errs, w')" "distinct is"
    and "\<And>i j. i \<in> set is \<Longrightarrow> j \<in> set is \<Longrightarrow> same i j \<Longrightarrow> i = j" and "i \<in> set is"
  shows "box i w' = (if i \<in> set (map fst errs) then box i w else box i w @ [frame m d])"
  using assms
proof (induction "is" arbitrary: w errs)
  case (Cons k "is")
  obtain err w1 where s: "send m d k w = (err, w1)" by fastforce
  obtain errs1 where rest: "send_all m d is w1 = (errs1, w')"
    and errs: "errs = (case err of None \<Rightarrow> errs1 | Some e \<Rightarrow> (k, e) # errs1)"
    using Cons.prems(2) s by (auto split: prod.splits)
  note wf1 = send_wf [OF Cons.prems(1) s]
  show ?case
  proof (cases "i = k")
    case True
    have "k \<notin> set (map fst errs1)"
      using subseq_set_subset [OF send_all_errs [OF rest]] Cons.prems(3) by auto
    moreover have "box k w' = box k w1"
      using send_all_other [OF wf1 rest, of k] Cons.prems(3,4) by (metis distinct.simps(2) list.set_intros)
    ultimately show ?thesis
      using True errs send_ok [OF Cons.prems(1)] send_fail [OF Cons.prems(1)] s by (cases err) auto
  next
    case False
    then have "box i w1 = box i w"
      using send_other [OF Cons.prems(1) s] Cons.prems(4,5) by (metis list.set_intros(1))
    moreover have "box i w' = (if i \<in> set (map fst errs1) then box i w1 else box i w1 @ [frame m d])"
      using Cons.IH [OF wf1 rest] Cons.prems(3-5) False by simp
    ultimately show ?thesis using False errs by (cases err) auto
  qed
qed simp

end

section \<open>The connections implement it\<close>

lemma SendBuffMsg_fail: "SendBuffMsg g m d c = (Some e, c') \<Longrightarrow> c' = c"
  by (auto simp: SendBuffMsg_def split: if_splits sum.splits option.splits)

lemma SendBuffMsg_ok:
  assumes "SendBuffMsg g m d c = (None, c')" "length (cn_msgChan c) \<le> cn_msgChanCap c"
  shows "outbox_of c' = outbox_of c @ [packet (NewMsgPackage m d)]"
    "length (cn_msgChan c') \<le> cn_msgChanCap c'" "cn_ConnID c' = cn_ConnID c" "\<not> cn_isClosed c"
proof -
  obtain msg c1 where "Pack g (cn_dataPack c) (Some (NewMsgPackage m d)) = Inr msg" and o: "offer msg c = Some c1"
    and c': "c' = c1\<lparr>cn_metrics := AddBytesOut (of_nat (length msg)) (cn_metrics c1)\<rparr>" and open_c: "\<not> cn_isClosed c"
    using assms(1) by (auto simp: SendBuffMsg_def split: if_splits sum.splits option.splits)
  then have msg: "msg = packet (NewMsgPackage m d)" by (simp add: packet_of_Pack)
  show "outbox_of c' = outbox_of c @ [packet (NewMsgPackage m d)]"
    "length (cn_msgChan c') \<le> cn_msgChanCap c'" "cn_ConnID c' = cn_ConnID c"
    using o assms(2) by (auto simp: c' msg offer_def outbox_of_def split: if_splits writer.splits)
  show "\<not> cn_isClosed c" by (rule open_c)
qed

lemma storeSend_cases:
  assumes "store_wf w" "storeSend g m d i w = (err, w')"
  shows "store_wf w' \<and> (err = None \<longrightarrow> outbox i w' = outbox i w @ [packet (NewMsgPackage m d)]) \<and>
    (err \<noteq> None \<longrightarrow> outbox j w' = outbox j w) \<and> (ic_ref i \<noteq> ic_ref j \<longrightarrow> outbox j w' = outbox j w)"
proof (cases "conn_at w i")
  case None
  then show ?thesis using assms by (auto simp: storeSend_def)
next
  case (Some c)
  obtain c' where send: "SendBuffMsg g m d c = (err, c')" and w': "w' = w(ic_ref i \<mapsto> c')"
    using assms(2) Some by (auto simp: storeSend_def split: prod.splits)
  have wf: "length (cn_msgChan c) \<le> cn_msgChanCap c"
    using assms(1) Some by (auto simp: store_wf_def ranI)
  show ?thesis
  proof (cases err)
    case None
    note ok = SendBuffMsg_ok [OF send [unfolded None] wf]
    have "store_wf w'"
      using assms(1) ok(2) unfolding store_wf_def w' by (auto simp: ran_def)
    then show ?thesis using None Some ok(1) by (simp add: w' outbox_def)
  next
    case (Some e)
    then have "w' = w" using SendBuffMsg_fail send w' \<open>conn_at w i = Some c\<close> by fastforce
    then show ?thesis using assms(1) Some by simp
  qed
qed

interpretation store: buffered_sender "storeSend g" outbox "\<lambda>m d. packet (NewMsgPackage m d)"
    "\<lambda>i j. ic_ref i = ic_ref j" store_wf for g
proof
  show "store_wf w \<Longrightarrow> storeSend g m d i w = (err, w') \<Longrightarrow> store_wf w'" for w m d i err w'
    using storeSend_cases by blast
  show "store_wf w \<Longrightarrow> storeSend g m d i w = (None, w') \<Longrightarrow> outbox i w' = outbox i w @ [packet (NewMsgPackage m d)]"
    for w m d i w' using storeSend_cases by blast
  show "store_wf w \<Longrightarrow> storeSend g m d i w = (Some e, w') \<Longrightarrow> outbox j w' = outbox j w" for w m d i e w' j
    using storeSend_cases [of w g m d i "Some e" w' j] by simp
  show "store_wf w \<Longrightarrow> storeSend g m d i w = (err, w') \<Longrightarrow> ic_ref i \<noteq> ic_ref j \<Longrightarrow> outbox j w' = outbox j w"
    for w m d i err w' j using storeSend_cases by blast
qed simp

end
