(* ===== verification/ConnManager.thy ===== *)
theory ConnManager
  imports ConnStore
begin

text \<open>
  The connection manager of \<open>gnet/connmanager.go\<close>: the connections of a server by connection
  id, bounded by \<open>MaxConn\<close>.
\<close>

record ConnManager =
  cm_connections :: "u32 \<rightharpoonup> iconn"
  cm_config :: "Config option"

definition newConnManager :: "Config option \<Rightarrow> ConnManager" where
  "newConnManager config = \<lparr> cm_connections = Map.empty, cm_config = config \<rparr>"

definition NewConnManager :: ConnManager where
  "NewConnManager = newConnManager None"

definition Add :: "Config \<Rightarrow> iconn option \<Rightarrow> ConnManager \<Rightarrow> go_error option \<times> ConnManager" where
  "Add g conn cm =
     (case conn of
        None \<Rightarrow> (Some (Err ''connection is nil''), cm)
      | Some conn \<Rightarrow>
          let connID = ic_connID conn
          in if cm_connections cm connID \<noteq> None then (Some (Err ''connection id already exists''), cm)
             else
               let maxConn = MaxConn (effectiveConfig g (cm_config cm))
               in if maxConn > 0 \<and> int (map_len (cm_connections cm)) \<ge> maxConn
                  then (Some (Err ''maximum connections reached''), cm)
                  else (None, cm\<lparr>cm_connections := (cm_connections cm)(connID \<mapsto> conn)\<rparr>))"

definition Remove :: "u32 \<Rightarrow> ConnManager \<Rightarrow> ConnManager" where
  "Remove connID cm = cm\<lparr>cm_connections := (cm_connections cm)(connID := None)\<rparr>"

definition Get :: "u32 \<Rightarrow> ConnManager \<Rightarrow> iconn res" where
  "Get connID cm =
     (case cm_connections cm connID of
        None \<Rightarrow> Inl (Err ''connection not found'')
      | Some conn \<Rightarrow> Inr conn)"

definition ConnLen :: "ConnManager \<Rightarrow> nat" where
  "ConnLen cm = map_len (cm_connections cm)"

text \<open>
  \<open>ClearConn\<close> collects the connections while it holds the lock, in the order \<open>ks\<close> in which the map
  is visited, and stops them after releasing it.
\<close>

fun stopAll :: "iconn list \<Rightarrow> 'p conn_store \<Rightarrow> 'p conn_store" where
  "stopAll [] w = w"
| "stopAll (conn # conns) w = stopAll conns (storeStop conn w)"

definition ClearConn :: "u32 list \<Rightarrow> ConnManager \<Rightarrow> 'p conn_store \<Rightarrow> ConnManager \<times> 'p conn_store" where
  "ClearConn ks cm w =
     (let connections = map (\<lambda>k. the (cm_connections cm k)) ks
      in (cm\<lparr>cm_connections := Map.empty\<rparr>, stopAll connections w))"

section \<open>The manager as a step system\<close>

inductive cm_step :: "Config \<Rightarrow> ConnManager \<Rightarrow> ConnManager \<Rightarrow> bool" for g :: Config where
  step_add: "cm_step g cm (snd (Add g conn cm))"
| step_remove: "cm_step g cm (Remove connID cm)"
| step_clear: "map_order (cm_connections cm) ks \<Longrightarrow> cm_step g cm (fst (ClearConn ks cm (w :: unit conn_store)))"

text \<open>Finitely many connections, each filed under its own id, and no more of them than allowed.\<close>

definition cm_inv :: "Config \<Rightarrow> ConnManager \<Rightarrow> bool" where
  "cm_inv g cm \<longleftrightarrow>
     finite (dom (cm_connections cm)) \<and>
     (\<forall>k conn. cm_connections cm k = Some conn \<longrightarrow> ic_connID conn = k) \<and>
     (MaxConn (effectiveConfig g (cm_config cm)) > 0 \<longrightarrow>
        int (map_len (cm_connections cm)) \<le> MaxConn (effectiveConfig g (cm_config cm)))"

lemma Add_cases:
  assumes "Add g conn cm = (err, cm')"
  obtains (refused) e where "err = Some e" "cm' = cm"
  | (added) c where "conn = Some c" "err = None" "cm_connections cm (ic_connID c) = None"
      "MaxConn (effectiveConfig g (cm_config cm)) > 0 \<Longrightarrow>
         int (map_len (cm_connections cm)) < MaxConn (effectiveConfig g (cm_config cm))"
      "cm' = cm\<lparr>cm_connections := (cm_connections cm)(ic_connID c \<mapsto> c)\<rparr>"
  using assms by (auto simp: Add_def Let_def split: option.splits if_splits)

lemma cm_inv_Add: "cm_inv g cm \<Longrightarrow> cm_inv g (snd (Add g conn cm))"
proof -
  assume inv: "cm_inv g cm"
  obtain err cm' where "Add g conn cm = (err, cm')" by fastforce
  then show ?thesis
  proof (cases rule: Add_cases)
    case (added c)
    then have "ic_connID c \<notin> dom (cm_connections cm)" by auto
    then show ?thesis
      using added inv \<open>Add g conn cm = (err, cm')\<close> by (auto simp: cm_inv_def map_len_insert)
  qed (use inv \<open>Add g conn cm = (err, cm')\<close> in simp)
qed

lemma cm_inv_Remove: "cm_inv g cm \<Longrightarrow> cm_inv g (Remove connID cm)"
  by (auto simp: cm_inv_def Remove_def map_len_delete)

interpretation cms: invariant_system "\<lambda>cm. \<exists>config. cm = newConnManager config" "cm_step g" "cm_inv g" for g :: Config
proof
  show "\<exists>config. cm = newConnManager config \<Longrightarrow> cm_inv g cm" for cm
    by (auto simp: cm_inv_def newConnManager_def)
  show "cm_inv g cm \<Longrightarrow> cm_step g cm cm' \<Longrightarrow> cm_inv g cm'" for cm cm'
    by (erule cm_step.cases)
       (auto simp: cm_inv_Add cm_inv_Remove, auto simp: cm_inv_def ClearConn_def)
qed

section \<open>Stopping all connections\<close>

lemma storeStop_at: "storeStop i w r = (if r = ic_ref i then map_option Stop (w r) else w r)"
  by (auto simp: storeStop_def split: option.splits)

lemma stopAll_at:
  "stopAll conns w r = (if r \<in> ic_ref ` set conns then map_option Stop (w r) else w r)"
  by (induction conns arbitrary: w) (auto simp: storeStop_at option.map_comp o_def)

section \<open>Properties\<close>

text \<open>after any sequence of \<open>Add\<close>, \<open>Remove\<close> and \<open>ClearConn\<close> the manager holds at most
  \<open>MaxConn\<close> connections, every lookup returns a connection with the id looked up, and a successful
  \<open>Add\<close> makes exactly that connection found under its id while every other lookup stays the same.\<close>
theorem conn_manager_bounded_and_consistent:
  assumes "reach (\<lambda>cm. \<exists>config. cm = newConnManager config) (cm_step g) cm"
    and "Add g (Some conn) cm = (None, cm')"
  shows "(MaxConn (effectiveConfig g (cm_config cm')) > 0 \<longrightarrow>
       int (ConnLen cm') \<le> MaxConn (effectiveConfig g (cm_config cm'))) \<and>
    (\<forall>k c. Get k cm' = Inr c \<longrightarrow> ic_connID c = k) \<and>
    (\<forall>k. Get k cm' = (if k = ic_connID conn then Inr conn else Get k cm)) \<and>
    ConnLen cm' = Suc (ConnLen cm)"
proof -
  have "cm_step g cm cm'" using cm_step.step_add [of g cm "Some conn"] assms(2) by simp
  then have inv: "cm_inv g cm'" using cms.reach_inv reach_step [OF assms(1)] by blast
  from assms(2) have added: "cm_connections cm (ic_connID conn) = None"
    "cm' = cm\<lparr>cm_connections := (cm_connections cm)(ic_connID conn \<mapsto> conn)\<rparr>"
    by (cases rule: Add_cases; simp)+
  have "finite (dom (cm_connections cm))"
    using cms.reach_inv [OF assms(1)] by (simp add: cm_inv_def)
  with added have len: "map_len (cm_connections cm') = Suc (map_len (cm_connections cm))"
    by (simp add: map_len_insert domIff)
  have "Get k cm' = (if k = ic_connID conn then Inr conn else Get k cm)" for k
    by (simp add: Get_def added(2))
  moreover have "ic_connID c = k" if "Get k cm' = Inr c" for k c
    using that inv by (auto simp: Get_def cm_inv_def split: option.splits)
  moreover have "MaxConn (effectiveConfig g (cm_config cm')) > 0 \<longrightarrow>
      int (ConnLen cm') \<le> MaxConn (effectiveConfig g (cm_config cm'))"
    using inv unfolding cm_inv_def ConnLen_def by blast
  moreover have "ConnLen cm' = Suc (ConnLen cm)"
    using len by (simp add: ConnLen_def)
  ultimately show ?thesis by blast
qed

text \<open>\<open>ClearConn\<close> empties the manager and stops every connection that was registered, in whatever
  order the map is visited, and touches no other connection.\<close>
theorem clear_conn_stops_exactly_registered:
  assumes "map_order (cm_connections cm) ks" "ClearConn ks cm w = (cm', w')"
  shows "ConnLen cm' = 0 \<and>
    (\<forall>r. w' r = (if \<exists>k conn. cm_connections cm k = Some conn \<and> ic_ref conn = r
                 then map_option Stop (w r) else w r))"
proof -
  have w': "w' = stopAll (map (\<lambda>k. the (cm_connections cm k)) ks) w"
    and cm': "cm' = cm\<lparr>cm_connections := Map.empty\<rparr>"
    using assms(2) by (auto simp: ClearConn_def Let_def)
  have "r \<in> ic_ref ` set (map (\<lambda>k. the (cm_connections cm k)) ks) \<longleftrightarrow>
      (\<exists>k conn. cm_connections cm k = Some conn \<and> ic_ref conn = r)" for r
    using assms(1) by (force simp: map_order_def image_iff)
  then show ?thesis
    unfolding w' stopAll_at by (simp add: cm' ConnLen_def)
qed

theorem conn_manager_bounded_and_consistent_witness:
  "\<exists>cm'. Add DefaultConfig (Some \<lparr> ic_ref = 0, ic_connID = 7 \<rparr>) NewConnManager = (None, cm') \<and>
     Get 7 cm' = Inr \<lparr> ic_ref = 0, ic_connID = 7 \<rparr> \<and> ConnLen cm' = Suc (ConnLen NewConnManager)"
proof -
  obtain cm' where add: "Add DefaultConfig (Some \<lparr> ic_ref = 0, ic_connID = 7 \<rparr>) NewConnManager = (None, cm')"
    by (simp add: Add_def NewConnManager_def newConnManager_def DefaultConfig_def)
  have "reach (\<lambda>cm. \<exists>config. cm = newConnManager config) (cm_step DefaultConfig) NewConnManager"
    by (rule reach_init) (auto simp: NewConnManager_def)
  from conn_manager_bounded_and_consistent [OF this add] add show ?thesis by simp
qed

theorem clear_conn_stops_exactly_registered_witness:
  "\<exists>cm' w'. ClearConn [7] (newConnManager None\<lparr>cm_connections := [7 \<mapsto> \<lparr> ic_ref = 0, ic_connID = 7 \<rparr>]\<rparr>)
       [0 \<mapsto> cs_conn demo_conn, 1 \<mapsto> cs_conn demo_conn] = (cm', w') \<and>
     w' 0 = Some (Stop (cs_conn demo_conn)) \<and> w' 1 = Some (cs_conn demo_conn)"
proof -
  let ?cm = "newConnManager None\<lparr>cm_connections := [7 \<mapsto> \<lparr> ic_ref = 0, ic_connID = 7 \<rparr>]\<rparr>"
  obtain cm' w' where clear: "ClearConn [7] ?cm [0 \<mapsto> cs_conn demo_conn, 1 \<mapsto> cs_conn demo_conn] = (cm', w')"
    by fastforce
  have "map_order (cm_connections ?cm) [7]" by (simp add: map_order_def)
  from clear_conn_stops_exactly_registered [OF this clear] clear show ?thesis by auto
qed

end
