(* ===== verification/Room.thy ===== *)
theory Room
  imports ConnStore "HOL-Library.Multiset"
begin

text \<open>
  Rooms and the room manager of \<open>gcore/room.go\<close>. A room holds references to its member
  connections; the manager holds references to rooms, which callers keep as well, so rooms live in a
  store and a removed room is still an object. Broadcasting goes through the interface
  \<open>buffered_sender\<close> of the connections.
\<close>

section \<open>Rooms\<close>

type_synonym RoomState = u8

abbreviation RoomStateWaiting :: RoomState where "RoomStateWaiting \<equiv> 0"
abbreviation RoomStateRunning :: RoomState where "RoomStateRunning \<equiv> 1"
abbreviation RoomStateClosed :: RoomState where "RoomStateClosed \<equiv> 2"

definition RoomState_String :: "RoomState \<Rightarrow> string" where
  "RoomState_String rs =
     (if rs = RoomStateWaiting then ''waiting''
      else if rs = RoomStateRunning then ''running''
      else if rs = RoomStateClosed then ''closed''
      else ''unknown'')"

record BroadcastError =
  be_ConnID :: u32
  be_Err :: go_error

record Room =
  rm_ID :: u32
  rm_MaxPlayers :: int
  rm_state :: RoomState
  rm_members :: "u32 \<rightharpoonup> iconn"

definition NewRoom :: "u32 \<Rightarrow> int \<Rightarrow> Room" where
  "NewRoom roomID maxPlayers =
     \<lparr> rm_ID = roomID, rm_MaxPlayers = maxPlayers, rm_state = RoomStateWaiting, rm_members = Map.empty \<rparr>"

definition Join :: "iconn option \<Rightarrow> Room \<Rightarrow> go_error option \<times> Room" where
  "Join connection r =
     (case connection of
        None \<Rightarrow> (Some (Err ''room connection is nil''), r)
      | Some conn \<Rightarrow>
          if rm_state r = RoomStateClosed then (Some (Err ''room is closed''), r)
          else if rm_members r (ic_connID conn) \<noteq> None
          then (Some (Err ''connection already joined room''), r)
          else if rm_MaxPlayers r > 0 \<and> int (map_len (rm_members r)) \<ge> rm_MaxPlayers r
          then (Some (Err ''room is full''), r)
          else (None, r\<lparr>rm_members := (rm_members r)(ic_connID conn \<mapsto> conn)\<rparr>))"

definition Leave :: "u32 \<Rightarrow> Room \<Rightarrow> go_error option \<times> Room" where
  "Leave connID r =
     (if rm_members r connID = None then (Some (Err ''connection is not in room''), r)
      else (None, r\<lparr>rm_members := (rm_members r)(connID := None)\<rparr>))"

definition Start :: "Room \<Rightarrow> go_error option \<times> Room" where
  "Start r =
     (if rm_state r = RoomStateClosed then (Some (Err ''room is closed''), r)
      else (None, r\<lparr>rm_state := RoomStateRunning\<rparr>))"

definition Close :: "Room \<Rightarrow> Room" where
  "Close r = r\<lparr>rm_state := RoomStateClosed, rm_members := Map.empty\<rparr>"

definition State :: "Room \<Rightarrow> RoomState" where
  "State r = rm_state r"

definition PlayerCount :: "Room \<Rightarrow> nat" where
  "PlayerCount r = map_len (rm_members r)"

text \<open>\<open>Members\<close> visits the map in the order \<open>ks\<close> and sorts the ids it collected.\<close>

definition Members :: "u32 list \<Rightarrow> Room \<Rightarrow> iconn list" where
  "Members ks r = map (\<lambda>connID. the (rm_members r connID)) (sort ks)"

fun broadcastLoop ::
  "Config \<Rightarrow> u32 \<Rightarrow> bytes \<Rightarrow> u32 \<Rightarrow> bool \<Rightarrow> iconn list \<Rightarrow> BroadcastError list \<Rightarrow> 'p conn_store
   \<Rightarrow> BroadcastError list \<times> 'p conn_store" where
  "broadcastLoop g msgID data excludeConnID exclude [] errorsFound w = (errorsFound, w)"
| "broadcastLoop g msgID data excludeConnID exclude (connection # members) errorsFound w =
     (if exclude \<and> ic_connID connection = excludeConnID
      then broadcastLoop g msgID data excludeConnID exclude members errorsFound w
      else
        case storeSend g msgID data connection w of
          (Some err, w') \<Rightarrow>
            broadcastLoop g msgID data excludeConnID exclude members
              (errorsFound @ [\<lparr> be_ConnID = ic_connID connection, be_Err = err \<rparr>]) w'
        | (None, w') \<Rightarrow> broadcastLoop g msgID data excludeConnID exclude members errorsFound w')"

definition broadcast ::
  "Config \<Rightarrow> u32 \<Rightarrow> bytes \<Rightarrow> u32 \<Rightarrow> bool \<Rightarrow> u32 list \<Rightarrow> Room \<Rightarrow> 'p conn_store
   \<Rightarrow> BroadcastError list \<times> 'p conn_store" where
  "broadcast g msgID data excludeConnID exclude ks r w =
     broadcastLoop g msgID data excludeConnID exclude (Members ks r) [] w"

definition Broadcast ::
  "Config \<Rightarrow> u32 \<Rightarrow> bytes \<Rightarrow> u32 list \<Rightarrow> Room \<Rightarrow> 'p conn_store \<Rightarrow> BroadcastError list \<times> 'p conn_store" where
  "Broadcast g msgID data ks r w = broadcast g msgID data 0 False ks r w"

definition BroadcastExcept ::
  "Config \<Rightarrow> u32 \<Rightarrow> u32 \<Rightarrow> bytes \<Rightarrow> u32 list \<Rightarrow> Room \<Rightarrow> 'p conn_store \<Rightarrow> BroadcastError list \<times> 'p conn_store" where
  "BroadcastExcept g excludeConnID msgID data ks r w = broadcast g msgID data excludeConnID True ks r w"

section \<open>The room manager\<close>

record RoomManager =
  rg_rooms :: "u32 \<rightharpoonup> nat"
  rg_heap :: "nat \<rightharpoonup> Room"
  rg_next :: nat

definition NewRoomManager :: RoomManager where
  "NewRoomManager = \<lparr> rg_rooms = Map.empty, rg_heap = Map.empty, rg_next = 0 \<rparr>"

definition CreateRoom :: "u32 \<Rightarrow> int \<Rightarrow> RoomManager \<Rightarrow> nat res \<times> RoomManager" where
  "CreateRoom roomID maxPlayers rg =
     (if rg_rooms rg roomID \<noteq> None then (Inl (Err ''room already exists''), rg)
      else
        let room = rg_next rg
        in (Inr room,
            rg\<lparr>rg_rooms := (rg_rooms rg)(roomID \<mapsto> room),
               rg_heap := (rg_heap rg)(room \<mapsto> NewRoom roomID maxPlayers), rg_next := Suc room\<rparr>))"

definition GetRoom :: "u32 \<Rightarrow> RoomManager \<Rightarrow> nat res" where
  "GetRoom roomID rg =
     (case rg_rooms rg roomID of None \<Rightarrow> Inl (Err ''room not found'') | Some room \<Rightarrow> Inr room)"

definition RemoveRoom :: "u32 \<Rightarrow> RoomManager \<Rightarrow> go_error option \<times> RoomManager" where
  "RemoveRoom roomID rg =
     (case rg_rooms rg roomID of
        None \<Rightarrow> (Some (Err ''room not found''), rg)
      | Some room \<Rightarrow>
          (None, rg\<lparr>rg_rooms := (rg_rooms rg)(roomID := None),
                    rg_heap := (rg_heap rg)(room := map_option Close (rg_heap rg room))\<rparr>))"

definition RoomLen :: "RoomManager \<Rightarrow> nat" where
  "RoomLen rg = map_len (rg_rooms rg)"

section \<open>The rooms as a step system\<close>

text \<open>
  Calls on the manager, and calls on any room object through a reference obtained before, whether the
  room is still registered or not.
\<close>

definition on_room :: "nat \<Rightarrow> (Room \<Rightarrow> Room) \<Rightarrow> RoomManager \<Rightarrow> RoomManager" where
  "on_room room f rg = rg\<lparr>rg_heap := (rg_heap rg)(room := map_option f (rg_heap rg room))\<rparr>"

inductive room_step :: "RoomManager \<Rightarrow> RoomManager \<Rightarrow> bool" where
  step_create: "room_step rg (snd (CreateRoom roomID maxPlayers rg))"
| step_remove: "room_step rg (snd (RemoveRoom roomID rg))"
| step_join: "room_step rg (on_room room (snd \<circ> Join conn) rg)"
| step_leave: "room_step rg (on_room room (snd \<circ> Leave connID) rg)"
| step_start: "room_step rg (on_room room (snd \<circ> Start) rg)"
| step_close: "room_step rg (on_room room Close rg)"

text \<open>
  A room files its members under their ids, has no more of them than it allows, is in one of the three
  states, and is empty once closed. A registered room is filed under its own id; a reference that was
  never handed out points nowhere.
\<close>

definition room_ok :: "Room \<Rightarrow> bool" where
  "room_ok r \<longleftrightarrow>
     (\<forall>k conn. rm_members r k = Some conn \<longrightarrow> ic_connID conn = k) \<and>
     (rm_MaxPlayers r > 0 \<longrightarrow> int (map_len (rm_members r)) \<le> rm_MaxPlayers r) \<and>
     rm_state r \<in> {RoomStateWaiting, RoomStateRunning, RoomStateClosed} \<and>
     (rm_state r = RoomStateClosed \<longrightarrow> rm_members r = Map.empty)"

definition room_inv :: "RoomManager \<Rightarrow> bool" where
  "room_inv rg \<longleftrightarrow>
     (\<forall>room r. rg_heap rg room = Some r \<longrightarrow> room_ok r \<and> room < rg_next rg) \<and>
     (\<forall>roomID room. rg_rooms rg roomID = Some room \<longrightarrow>
        (\<exists>r. rg_heap rg room = Some r \<and> rm_ID r = roomID))"

lemma room_inv_heap: "room_inv rg \<Longrightarrow> rg_heap rg room = Some r \<Longrightarrow> room_ok r \<and> room < rg_next rg"
  unfolding room_inv_def by blast

lemma room_inv_rooms:
  "room_inv rg \<Longrightarrow> rg_rooms rg roomID = Some room \<Longrightarrow> \<exists>r. rg_heap rg room = Some r \<and> rm_ID r = roomID"
  unfolding room_inv_def by blast

lemma room_ok_New: "room_ok (NewRoom roomID maxPlayers)"
  by (simp add: room_ok_def NewRoom_def)

lemma room_ok_Join: "room_ok r \<Longrightarrow> room_ok (snd (Join conn r))"
  by (auto simp: room_ok_def Join_def map_len_insert split: option.splits)

lemma room_ok_Leave: "room_ok r \<Longrightarrow> room_ok (snd (Leave connID r))"
  by (auto simp: room_ok_def Leave_def map_len_delete)

lemma room_ok_Start: "room_ok r \<Longrightarrow> room_ok (snd (Start r))"
  by (auto simp: room_ok_def Start_def)

lemma room_ok_Close: "room_ok (Close r)"
  by (auto simp: room_ok_def Close_def)

lemmas room_ok_intros = room_ok_New room_ok_Join room_ok_Leave room_ok_Start room_ok_Close

lemma room_ids [simp]:
  "rm_ID (snd (Join conn r)) = rm_ID r" "rm_ID (snd (Leave connID r)) = rm_ID r"
  "rm_ID (snd (Start r)) = rm_ID r" "rm_ID (Close r) = rm_ID r"
  by (auto simp: Join_def Leave_def Start_def Close_def split: option.splits)

lemma room_inv_on_room:
  assumes "room_inv rg" "\<And>r. room_ok r \<Longrightarrow> room_ok (f r)" "\<And>r. rm_ID (f r) = rm_ID r"
  shows "room_inv (on_room room f rg)"
  unfolding room_inv_def
proof (intro conjI allI impI)
  fix i r assume "rg_heap (on_room room f rg) i = Some r"
  then obtain r0 where "rg_heap rg i = Some r0" "r = r0 \<or> r = f r0"
    by (auto simp: on_room_def split: if_splits)
  with assms(1,2) show "room_ok r" "i < rg_next (on_room room f rg)"
    using room_inv_heap [OF assms(1)] by (auto simp: on_room_def)
next
  fix roomID i assume "rg_rooms (on_room room f rg) roomID = Some i"
  then obtain r0 where "rg_heap rg i = Some r0" "rm_ID r0 = roomID"
    using room_inv_rooms [OF assms(1)] by (auto simp: on_room_def)
  then show "\<exists>r. rg_heap (on_room room f rg) i = Some r \<and> rm_ID r = roomID"
    using assms(3) by (auto simp: on_room_def)
qed

lemma room_inv_Create:
  assumes "room_inv rg"
  shows "room_inv (snd (CreateRoom roomID maxPlayers rg))"
proof (cases "rg_rooms rg roomID")
  case None
  have fresh: "rg_heap rg (rg_next rg) = None"
    using room_inv_heap [OF assms] by (metis less_irrefl not_None_eq)
  then have "rg_rooms rg i \<noteq> Some (rg_next rg)" for i
    using room_inv_rooms [OF assms] by fastforce
  moreover have "rm_ID (NewRoom roomID maxPlayers) = roomID" by (simp add: NewRoom_def)
  ultimately show ?thesis
    using assms None room_ok_New [of roomID maxPlayers]
    by (auto simp: room_inv_def CreateRoom_def Let_def less_SucI)
qed (use assms in \<open>simp add: CreateRoom_def\<close>)

lemma room_inv_Remove:
  assumes "room_inv rg"
  shows "room_inv (snd (RemoveRoom roomID rg))"
proof (cases "rg_rooms rg roomID")
  case (Some room)
  have "room_inv (on_room room Close rg)"
    using assms by (rule room_inv_on_room) (simp_all add: room_ok_Close)
  then show ?thesis
    using Some by (auto simp: room_inv_def RemoveRoom_def on_room_def)
qed (use assms in \<open>simp add: RemoveRoom_def\<close>)

interpretation rooms: invariant_system "\<lambda>rg. rg = NewRoomManager" room_step room_inv
proof
  show "rg = NewRoomManager \<Longrightarrow> room_inv rg" for rg
    by (simp add: room_inv_def NewRoomManager_def)
  show "room_inv rg \<Longrightarrow> room_step rg rg' \<Longrightarrow> room_inv rg'" for rg rg'
    by (erule room_step.cases)
       (auto simp: room_inv_Create room_inv_Remove intro!: room_inv_on_room room_ok_intros)
qed

section \<open>Closed rooms\<close>

definition closed_at :: "nat \<Rightarrow> RoomManager \<Rightarrow> bool" where
  "closed_at room rg \<longleftrightarrow>
     (\<exists>r. rg_heap rg room = Some r \<and> rm_state r = RoomStateClosed \<and> rm_members r = Map.empty)"

lemma closed_room_fixed:
  assumes "rm_state r = RoomStateClosed" "rm_members r = Map.empty"
  shows "snd (Join conn r) = r" "snd (Leave connID r) = r" "snd (Start r) = r" "Close r = r"
  using assms by (auto simp: Join_def Leave_def Start_def Close_def split: option.splits)

lemma closed_at_step:
  assumes "closed_at room rg" "room_inv rg" "room_step rg rg'"
  shows "closed_at room rg'"
proof -
  obtain r where r: "rg_heap rg room = Some r" "rm_state r = RoomStateClosed" "rm_members r = Map.empty"
    using assms(1) by (auto simp: closed_at_def)
  then have "room < rg_next rg" using room_inv_heap [OF assms(2)] by blast
  from assms(3) this r show ?thesis
    by (cases rule: room_step.cases)
       (auto simp: closed_at_def CreateRoom_def RemoveRoom_def on_room_def closed_room_fixed Let_def
          split: option.splits if_splits)
qed

lemma closed_at_steps:
  assumes "room_step\<^sup>*\<^sup>* rg rg'" "closed_at room rg" "room_inv rg"
  shows "closed_at room rg'"
  using assms by (induction rule: rtranclp_induct) (auto intro: closed_at_step rooms.rtranclp_inv)

section \<open>Broadcasting through the interface\<close>

lemma broadcastLoop_send_all:
  "buffered_sender.send_all (storeSend g) m d (filter (\<lambda>i. \<not> (b \<and> ic_connID i = ex)) is) w = (errs, w') \<Longrightarrow>
   broadcastLoop g m d ex b is acc w
     = (acc @ map (\<lambda>(i, e). \<lparr> be_ConnID = ic_connID i, be_Err = e \<rparr>) errs, w')"
proof (induction "is" arbitrary: acc w errs)
  case (Cons i "is")
  obtain err w1 where s: "storeSend g m d i w = (err, w1)" by fastforce
  show ?case
    using Cons s by (cases err) (auto split: if_splits prod.splits)
qed simp

lemma Members_ids:
  assumes "room_ok r" "map_order (rm_members r) ks"
  shows "map ic_connID (Members ks r) = sort ks" "set (Members ks r) = ran (rm_members r)"
proof -
  have ks: "k \<in> set ks \<Longrightarrow> \<exists>i. rm_members r k = Some i \<and> ic_connID i = k" for k
    using assms by (auto simp: map_order_def room_ok_def)
  then have "map (ic_connID \<circ> (\<lambda>k. the (rm_members r k))) (sort ks) = map id (sort ks)"
    by (intro map_cong) fastforce+
  then show "map ic_connID (Members ks r) = sort ks"
    by (simp add: Members_def)
  show "set (Members ks r) = ran (rm_members r)"
    using ks assms(2) by (force simp: Members_def map_order_def ran_def image_iff)
qed

section \<open>Properties\<close>

text \<open>in every reachable state a room has at most \<open>MaxPlayers\<close> members, each filed under its own
  connection id; a closed room is empty, refuses everyone, and stays closed and empty whatever is called
  afterwards, through a reference kept from before its removal too.\<close>
theorem room_capacity_and_closing:
  assumes "reach (\<lambda>rg. rg = NewRoomManager) room_step rg" "rg_heap rg room = Some r"
    and "room_step\<^sup>*\<^sup>* rg rg'"
  shows "(rm_MaxPlayers r > 0 \<longrightarrow> int (PlayerCount r) \<le> rm_MaxPlayers r) \<and>
    (\<forall>k conn. rm_members r k = Some conn \<longrightarrow> ic_connID conn = k) \<and>
    (State r = RoomStateClosed \<longrightarrow>
       PlayerCount r = 0 \<and> (\<forall>conn. fst (Join (Some conn) r) = Some (Err ''room is closed'')) \<and>
       (\<exists>r'. rg_heap rg' room = Some r' \<and> State r' = RoomStateClosed \<and> PlayerCount r' = 0))"
proof -
  have inv: "room_inv rg" using rooms.reach_inv [OF assms(1)] .
  then have ok: "room_ok r" using room_inv_heap assms(2) by blast
  have "rm_state r = RoomStateClosed \<Longrightarrow> closed_at room rg'"
    using closed_at_steps [OF assms(3) _ inv] ok assms(2) by (auto simp: closed_at_def room_ok_def)
  with ok show ?thesis
    by (auto simp: room_ok_def State_def PlayerCount_def Join_def closed_at_def)
qed

text \<open>removing a room closes the very object other parts may still hold: it disappears from the manager,
  and through the old reference it is closed and empty from then on.\<close>
theorem remove_room_closes_object:
  assumes "reach (\<lambda>rg. rg = NewRoomManager) room_step rg" "GetRoom roomID rg = Inr room"
    and "RemoveRoom roomID rg = (err, rg1)" "room_step\<^sup>*\<^sup>* rg1 rg'"
  shows "err = None \<and> GetRoom roomID rg1 = Inl (Err ''room not found'') \<and> Suc (RoomLen rg1) = RoomLen rg \<and>
    (\<exists>r. rg_heap rg' room = Some r \<and> State r = RoomStateClosed \<and> PlayerCount r = 0)"
proof -
  have inv: "room_inv rg" using rooms.reach_inv [OF assms(1)] .
  have reg: "rg_rooms rg roomID = Some room"
    using assms(2) by (simp add: GetRoom_def split: option.splits)
  then obtain r where r: "rg_heap rg room = Some r" using room_inv_rooms [OF inv] by blast
  have rg1: "err = None" "rg1 = rg\<lparr>rg_rooms := (rg_rooms rg)(roomID := None),
      rg_heap := (rg_heap rg)(room := Some (Close r))\<rparr>"
    using assms(3) reg r by (auto simp: RemoveRoom_def)
  have "room_inv rg1" using room_inv_Remove [OF inv, of roomID] assms(3) by simp
  moreover have "closed_at room rg1" by (simp add: closed_at_def rg1 Close_def)
  ultimately have "closed_at room rg'" using closed_at_steps [OF assms(4)] by blast
  moreover have "map_len (rg_rooms rg) > 0"
    using reg map_len_0_iff [of "rg_rooms rg"] by (metis finite_dom_word gr0I option.distinct(1))
  ultimately show ?thesis
    using reg by (auto simp: rg1 GetRoom_def RoomLen_def map_len_delete closed_at_def State_def PlayerCount_def domIff)
qed

text \<open>C10: a broadcast puts the message exactly once into the queue of every member except the excluded one,
  unless the failure of that member is reported; failures are reported at most once per member, in
  ascending order of the ids, whatever order the map is visited in; no other connection gets
  anything.\<close>
theorem broadcast_reaches_members:
  assumes "room_ok r" "store_wf w" "map_order (rm_members r) ks"
    and "\<forall>i \<in> ran (rm_members r). \<exists>c. conn_at w i = Some c \<and> cn_ConnID c = ic_connID i"
    and "broadcast g msgID data excludeConnID exclude ks r w = (errs, w')"
  shows "(\<forall>i \<in> ran (rm_members r).
       outbox i w' =
         (if exclude \<and> ic_connID i = excludeConnID \<or> ic_connID i \<in> set (map be_ConnID errs) then outbox i w
          else outbox i w @ [packet (NewMsgPackage msgID data)])) \<and>
    (\<forall>j. ic_ref j \<notin> ic_ref ` ran (rm_members r) \<longrightarrow> outbox j w' = outbox j w) \<and>
    sorted_wrt (<) (map be_ConnID errs) \<and> set (map be_ConnID errs) \<subseteq> dom (rm_members r) \<and>
    (exclude \<longrightarrow> excludeConnID \<notin> set (map be_ConnID errs))"
proof -
  let ?P = "\<lambda>i. \<not> (exclude \<and> ic_connID i = excludeConnID)"
  let ?is = "filter ?P (Members ks r)"
  note mem = Members_ids [OF assms(1,3)]
  obtain es w1 where all: "buffered_sender.send_all (storeSend g) msgID data ?is w = (es, w1)" by fastforce
  from broadcastLoop_send_all [OF all, of "[]"] assms(5)
  have errs: "errs = map (\<lambda>(i, e). \<lparr> be_ConnID = ic_connID i, be_Err = e \<rparr>) es" and w1: "w1 = w'"
    by (auto simp: broadcast_def)
  have ids: "map be_ConnID errs = map ic_connID (map fst es)"
    by (simp add: errs split_beta o_def)
  have inj: "i = j" if "i \<in> set ?is" "j \<in> set ?is" "ic_connID i = ic_connID j" for i j
    using that assms(1) by (auto simp: mem(2) room_ok_def ran_def)
  have ref: "i = j" if "i \<in> ran (rm_members r)" "j \<in> ran (rm_members r)" "ic_ref i = ic_ref j" for i j
    using that assms(4) by (metis iconn.equality option.inject unit.exhaust)
  have "sorted_wrt (<) (map ic_connID (Members ks r))"
    using assms(3) by (simp add: mem(1) map_order_def strict_sorted_iff)
  then have srt: "sorted_wrt (<) (map ic_connID ?is)"
    by (simp add: sorted_wrt_map sorted_wrt_filter)
  then have dist: "distinct ?is"
    by (metis distinct_map strict_sorted_iff)
  note sub = store.send_all_errs [OF all]
  have es: "set (map fst es) \<subseteq> set ?is" using subseq_set_subset [OF sub] .
  have box: "outbox i w' = (if i \<in> set (map fst es) then outbox i w else outbox i w @ [packet (NewMsgPackage msgID data)])"
    if "i \<in> set ?is" for i
    using store.send_all_delivers [OF assms(2) all dist _ that] ref w1 mem(2) by auto
  have other: "outbox j w' = outbox j w" if "\<And>i. i \<in> set ?is \<Longrightarrow> ic_ref i \<noteq> ic_ref j" for j
    using store.send_all_other [OF assms(2) all, of j] that w1 by auto
  have "outbox i w' = (if exclude \<and> ic_connID i = excludeConnID \<or> ic_connID i \<in> set (map be_ConnID errs) then outbox i w
          else outbox i w @ [packet (NewMsgPackage msgID data)])" if i: "i \<in> ran (rm_members r)" for i
  proof (cases "?P i")
    case True
    then have "i \<in> set ?is" using i mem(2) by simp
    moreover have "ic_connID i \<in> set (map be_ConnID errs) \<longleftrightarrow> i \<in> set (map fst es)"
      unfolding ids using inj [OF \<open>i \<in> set ?is\<close>] es by (auto simp: image_iff)
    ultimately show ?thesis using box True by auto
  next
    case False
    then have "ic_ref k \<noteq> ic_ref i" if "k \<in> set ?is" for k
      using that ref [of k i] i mem(2) by auto
    with False other show ?thesis by auto
  qed
  moreover have "outbox j w' = outbox j w" if "ic_ref j \<notin> ic_ref ` ran (rm_members r)" for j
    using other [of j] that mem(2) by (metis filter_is_subset image_eqI subsetD)
  moreover have "sorted_wrt (<) (map be_ConnID errs)"
    unfolding ids using subseq_sorted_wrt [OF subseq_map [OF sub] srt] .
  moreover have "ic_connID i \<in> dom (rm_members r)" if "i \<in> set ?is" for i
    using that assms(1) by (auto simp: mem(2) room_ok_def ran_def)
  then have "set (map be_ConnID errs) \<subseteq> dom (rm_members r)" unfolding ids using es by auto
  moreover have "exclude \<longrightarrow> excludeConnID \<notin> set (map be_ConnID errs)"
    unfolding ids using es by fastforce
  ultimately show ?thesis by blast
qed

text \<open>A store with two connections, of which the second is closed, and a room with both.\<close>

definition demo_store :: "nat conn_store" where
  "demo_store = [0 \<mapsto> newConnection DefaultConfig (\<lambda>x. x) 0 demo_socket 7 None,
                 1 \<mapsto> Stop (newConnection DefaultConfig (\<lambda>x. x) 0 demo_socket 3 None)]"

definition demo_room :: Room where
  "demo_room = snd (Join (Some \<lparr> ic_ref = 1, ic_connID = 3 \<rparr>)
     (snd (Join (Some \<lparr> ic_ref = 0, ic_connID = 7 \<rparr>) (NewRoom 1 2))))"

lemma demo_room_members:
  "rm_members demo_room = [7 \<mapsto> \<lparr> ic_ref = 0, ic_connID = 7 \<rparr>, 3 \<mapsto> \<lparr> ic_ref = 1, ic_connID = 3 \<rparr>]"
  by (simp add: demo_room_def Join_def NewRoom_def map_len_insert)

theorem broadcast_reaches_members_witness:
  "\<exists>errs w'. broadcast DefaultConfig 9 [65] 0 False [3, 7] demo_room demo_store = (errs, w') \<and>
     outbox \<lparr> ic_ref = 0, ic_connID = 7 \<rparr> w' =
       (if 7 \<in> set (map be_ConnID errs) then [] else [packet (NewMsgPackage 9 [65])]) \<and>
     sorted_wrt (<) (map be_ConnID errs)"
proof -
  obtain errs w' where run: "broadcast DefaultConfig 9 [65] 0 False [3, 7] demo_room demo_store = (errs, w')"
    by fastforce
  have ok: "room_ok demo_room"
    unfolding demo_room_def by (intro room_ok_Join room_ok_New)
  have rng: "ran (rm_members demo_room) = {\<lparr> ic_ref = 0, ic_connID = 7 \<rparr>, \<lparr> ic_ref = 1, ic_connID = 3 \<rparr>}"
    unfolding demo_room_members by auto
  have wf: "store_wf demo_store"
    by (auto simp: store_wf_def demo_store_def ran_def newConnection_def Let_def)
  have order: "map_order (rm_members demo_room) [3, 7]"
    by (auto simp: demo_room_members map_order_def)
  have faithful: "\<forall>i \<in> ran (rm_members demo_room). \<exists>c. conn_at demo_store i = Some c \<and> cn_ConnID c = ic_connID i"
    unfolding rng by (simp add: demo_store_def newConnection_def Let_def)
  have empty: "outbox \<lparr> ic_ref = 0, ic_connID = 7 \<rparr> demo_store = []"
    by (simp add: outbox_def outbox_of_def demo_store_def newConnection_def Let_def)
  from broadcast_reaches_members [OF ok wf order faithful run] show ?thesis
    using run empty unfolding rng by simp
qed

lemma demo_rooms_reach:
  "reach (\<lambda>rg. rg = NewRoomManager) room_step (snd (CreateRoom 5 2 NewRoomManager))"
  by (rule reach_step [where s = NewRoomManager]) (auto intro: reach_init step_create)

theorem room_capacity_and_closing_witness:
  "\<exists>r. rg_heap (snd (CreateRoom 5 2 NewRoomManager)) 0 = Some r \<and> int (PlayerCount r) \<le> 2"
proof -
  have "rg_heap (snd (CreateRoom 5 2 NewRoomManager)) 0 = Some (NewRoom 5 2)"
    by (simp add: CreateRoom_def NewRoomManager_def)
  from room_capacity_and_closing [OF demo_rooms_reach this rtranclp.rtrancl_refl] this
  show ?thesis by (simp add: NewRoom_def)
qed

theorem remove_room_closes_object_witness:
  "\<exists>rg1 r. RemoveRoom 5 (snd (CreateRoom 5 2 NewRoomManager)) = (None, rg1) \<and>
     rg_heap rg1 0 = Some r \<and> State r = RoomStateClosed"
proof -
  have "GetRoom 5 (snd (CreateRoom 5 2 NewRoomManager)) = Inr 0"
    by (simp add: GetRoom_def CreateRoom_def NewRoomManager_def)
  from remove_room_closes_object [OF demo_rooms_reach this _ rtranclp.rtrancl_refl] show ?thesis
    by (cases "RemoveRoom 5 (snd (CreateRoom 5 2 NewRoomManager))") auto
qed

end
