(* ===== verification/MsgHandle.thy ===== *)
theory MsgHandle
  imports ConnStore "HOL-Library.Multiset"
begin

text \<open>
  The message handler of \<open>gnet/msghandler.go\<close>: the routers by message id, the execution of one
  request with recovery from panics, and the worker pool with one queue per worker. The operations are
  functions on the handler; \<open>pool_step\<close> interleaves the goroutines that hand requests over, the
  workers, and starting and stopping the pool.
\<close>

section \<open>Requests and routers\<close>

record Request =
  rq_conn :: iconn
  rq_data :: Message

definition RequestMsgID :: "Request \<Rightarrow> u32" where
  "RequestMsgID r = GetMsgID (rq_data r)"

definition RequestData :: "Request \<Rightarrow> bytes" where
  "RequestData r = GetData (rq_data r)"

text \<open>
  A router is application code: each of its functions transforms the application state \<open>'s\<close> and may
  panic with a value (\<open>Some\<close>).
\<close>

type_synonym 's handlerFun = "Request \<Rightarrow> 's \<Rightarrow> string option \<times> 's"

record 's IRouter =
  PreHandle :: "'s handlerFun"
  Handle :: "'s handlerFun"
  PostHandle :: "'s handlerFun"

definition BaseRouter :: "'s IRouter" where
  "BaseRouter = \<lparr> PreHandle = (\<lambda>request s. (None, s)), Handle = (\<lambda>request s. (None, s)),
     PostHandle = (\<lambda>request s. (None, s)) \<rparr>"

section \<open>The handler\<close>

text \<open>A task queue: its buffer, its capacity, and whether it was closed.\<close>

record task_queue =
  tq_buf :: "Request list"
  tq_cap :: nat
  tq_closed :: bool

record 's MsgHandle =
  mh_Apis :: "u32 \<rightharpoonup> 's IRouter"
  mh_WorkerPoolSize :: u32
  mh_TaskQueue :: "task_queue list"
  mh_workerPoolOnce :: bool
  mh_workerPoolStarted :: bool
  mh_stopPoolOnce :: bool
  mh_stopChan :: bool
  mh_panicHandler :: "(Request \<Rightarrow> string \<Rightarrow> 's \<Rightarrow> string option \<times> 's) option"
  mh_metrics :: "Metrics option"
  mh_config :: "Config option"

text \<open>
  \<open>TaskQueue\<close> is allocated with one nil channel per worker; a nil channel is a queue without buffer
  that nobody serves.
\<close>

definition nil_queue :: task_queue where
  "nil_queue = \<lparr> tq_buf = [], tq_cap = 0, tq_closed = False \<rparr>"

definition newMsgHandle :: "Config \<Rightarrow> Config option \<Rightarrow> 's MsgHandle" where
  "newMsgHandle g config =
     (let settings = effectiveConfig g config
      in \<lparr> mh_Apis = Map.empty, mh_WorkerPoolSize = WorkerPoolSize settings,
           mh_TaskQueue = replicate (unat (WorkerPoolSize settings)) nil_queue,
           mh_workerPoolOnce = False, mh_workerPoolStarted = False, mh_stopPoolOnce = False,
           mh_stopChan = False, mh_panicHandler = None, mh_metrics = None, mh_config = config \<rparr>)"

definition SetMetrics :: "Metrics option \<Rightarrow> 's MsgHandle \<Rightarrow> 's MsgHandle" where
  "SetMetrics value mh = mh\<lparr>mh_metrics := value\<rparr>"

definition SetPanicHandler ::
  "(Request \<Rightarrow> string \<Rightarrow> 's \<Rightarrow> string option \<times> 's) option \<Rightarrow> 's MsgHandle \<Rightarrow> 's MsgHandle" where
  "SetPanicHandler handler mh = mh\<lparr>mh_panicHandler := handler\<rparr>"

definition AddRouter :: "u32 \<Rightarrow> 's IRouter \<Rightarrow> 's MsgHandle \<Rightarrow> 's MsgHandle res" where
  "AddRouter msgId router mh =
     (if mh_Apis mh msgId \<noteq> None then Inl (Panic (''repeated api , msgId = '' @ itoa (unat msgId)))
      else Inr (mh\<lparr>mh_Apis := (mh_Apis mh)(msgId \<mapsto> router)\<rparr>))"

text \<open>The functions of a router in sequence; a panic skips the rest.\<close>

fun runMethods :: "'s handlerFun list \<Rightarrow> Request \<Rightarrow> 's \<Rightarrow> string option \<times> 's" where
  "runMethods [] request s = (None, s)"
| "runMethods (f # fs) request s =
     (case f request s of
        (Some p, s') \<Rightarrow> (Some p, s')
      | (None, s') \<Rightarrow> runMethods fs request s')"

text \<open>
  \<open>DoMsgHandler\<close>. The deferred function recovers from a panic of the router, counts it and calls the
  panic handler, if one is set. The first component is the panic that leaves the function, which
  only the panic handler can cause; it ends the process.
\<close>

definition DoMsgHandler ::
  "Request option \<Rightarrow> 's MsgHandle \<Rightarrow> 's \<Rightarrow> string option \<times> 's MsgHandle \<times> 's" where
  "DoMsgHandler request mh s =
     (case request of
        None \<Rightarrow> (None, mh, s)
      | Some request \<Rightarrow>
          (case mh_Apis mh (RequestMsgID request) of
             None \<Rightarrow> (None, mh, s)
           | Some handler \<Rightarrow>
               (case runMethods [PreHandle handler, Handle handler, PostHandle handler] request s of
                  (None, s') \<Rightarrow> (None, mh, s')
                | (Some recovered, s') \<Rightarrow>
                    let mh' = mh\<lparr>mh_metrics := IncRouterPanics (mh_metrics mh)\<rparr>
                    in (case mh_panicHandler mh of
                          None \<Rightarrow> (None, mh', s')
                        | Some handlerFunc \<Rightarrow>
                            (case handlerFunc request recovered s' of (p, s'') \<Rightarrow> (p, mh', s''))))))"

section \<open>The worker pool\<close>

definition StartWorkerPool :: "Config \<Rightarrow> 's MsgHandle \<Rightarrow> 's MsgHandle" where
  "StartWorkerPool g mh =
     (if mh_WorkerPoolSize mh = 0 then mh
      else if mh_workerPoolOnce mh then mh
      else
        let mh = mh\<lparr>mh_workerPoolOnce := True\<rparr>
        in if mh_stopChan mh then mh
           else mh\<lparr>mh_TaskQueue :=
                     replicate (unat (mh_WorkerPoolSize mh))
                       \<lparr> tq_buf = [], tq_cap = unat (MaxWorkerTaskLen (effectiveConfig g (mh_config mh))),
                         tq_closed = False \<rparr>,
                   mh_workerPoolStarted := True\<rparr>)"

definition beginStop :: "'s MsgHandle \<Rightarrow> 's MsgHandle" where
  "beginStop mh = mh\<lparr>mh_stopChan := True\<rparr>"

text \<open>The body of \<open>stopPoolOnce\<close> in \<open>StopWorkerPool\<close>; the wait that follows is a guard of the system.\<close>

definition closeQueues :: "'s MsgHandle \<Rightarrow> 's MsgHandle" where
  "closeQueues mh =
     (if mh_stopPoolOnce mh then mh
      else
        let mh = mh\<lparr>mh_stopPoolOnce := True\<rparr>
        in if mh_workerPoolStarted mh
           then mh\<lparr>mh_TaskQueue := map (\<lambda>q. q\<lparr>tq_closed := True\<rparr>) (mh_TaskQueue mh),
                   mh_workerPoolStarted := False\<rparr>
           else mh)"

section \<open>Handing over a request\<close>

text \<open>
  \<open>SendMsgToTaskQueue\<close> holds the read lock from its first check until it returns. It decides at once
  when the pool is stopped or was never started (then a goroutine of its own handles the request), and
  otherwise waits in a \<open>select\<close> on the queue of the worker the connection belongs to.
\<close>

datatype admission = Stopped | Direct | Queue nat

definition admit :: "Request \<Rightarrow> 's MsgHandle \<Rightarrow> admission" where
  "admit request mh =
     (if mh_stopChan mh then Stopped
      else if \<not> mh_workerPoolStarted mh then Direct
      else Queue (unat (ic_connID (rq_conn request) mod mh_WorkerPoolSize mh)))"

datatype queue_case = CaseQueue | CaseStop | CaseCtx | CaseTimer

text \<open>
  One way the \<open>select\<close> can end, with the result of the call and the queue behind it; \<open>None\<close> when
  the case is not ready. \<open>idle\<close> tells whether the worker waits at its queue, \<open>ctxErr\<close> is the error
  of the request's context. A send to a closed channel panics. Through a channel without buffer the
  request goes to the waiting worker, which is the only one to see it in \<open>tq_buf\<close>.
\<close>

definition queueRoom :: "bool \<Rightarrow> task_queue \<Rightarrow> bool" where
  "queueRoom idle q \<longleftrightarrow> length (tq_buf q) < tq_cap q \<or> tq_cap q = 0 \<and> idle \<and> tq_buf q = []"

definition offerTask ::
  "Config \<Rightarrow> queue_case \<Rightarrow> bool \<Rightarrow> go_error option \<Rightarrow> Request \<Rightarrow> task_queue \<Rightarrow> 's MsgHandle
   \<Rightarrow> (go_error option \<times> task_queue) option" where
  "offerTask g ch idle ctxErr request q mh =
     (let waitTime = WorkerTaskQueueWaitTime (effectiveConfig g (mh_config mh))
      in if ch = CaseQueue then
           (if tq_closed q then Some (Some (Panic ''send on closed channel''), q)
            else if queueRoom idle q then Some (None, q\<lparr>tq_buf := tq_buf q @ [request]\<rparr>)
            else if waitTime = 0 then Some (Some (Err ''worker task queue is full''), q)
            else None)
         else if waitTime = 0 then None
         else
           (case ch of
              CaseStop \<Rightarrow> if mh_stopChan mh then Some (Some ErrWorkerStopped, q) else None
            | CaseCtx \<Rightarrow> (case ctxErr of None \<Rightarrow> None | Some e \<Rightarrow> Some (Some e, q))
            | _ \<Rightarrow> Some (Some (Err ''worker task queue wait timeout''), q)))"

section \<open>The concurrent system\<close>

datatype call_pc = Entering | Selecting nat | Returned "go_error option"

record call =
  ca_request :: Request
  ca_ctxErr :: "go_error option"
  ca_pc :: call_pc

datatype worker_state = WorkerIdle | WorkerBusy Request | WorkerExited

text \<open>
  The handler with the calls of \<open>SendMsgToTaskQueue\<close> by number, the workers, the goroutines that handle
  a request directly, and the application state. For the statements only there are five logs: the
  requests whose call of \<open>SendMsgToTaskQueue\<close> returned nil, those whose handler has returned, wherever
  they ran, and, for the queues, those that entered one, that a worker took out, and that a worker
  finished.
\<close>

record 's pool_sys =
  ps_mh :: "'s MsgHandle"
  ps_calls :: "nat \<rightharpoonup> call"
  ps_workers :: "worker_state list"
  ps_direct :: "Request list"
  ps_app :: 's
  ps_accepted :: "Request list"
  ps_handled :: "Request list"
  ps_queued :: "Request list"
  ps_begun :: "Request list"
  ps_finished :: "Request list"

text \<open>The write lock is free when no call is inside its \<open>select\<close>.\<close>

definition lock_free :: "'s pool_sys \<Rightarrow> bool" where
  "lock_free y \<longleftrightarrow> (\<forall>t ca i. ps_calls y t = Some ca \<longrightarrow> ca_pc ca \<noteq> Selecting i)"

abbreviation queue_at :: "'s pool_sys \<Rightarrow> nat \<Rightarrow> task_queue" where
  "queue_at y i \<equiv> mh_TaskQueue (ps_mh y) ! i"

definition set_queue :: "nat \<Rightarrow> task_queue \<Rightarrow> 's MsgHandle \<Rightarrow> 's MsgHandle" where
  "set_queue i q mh = mh\<lparr>mh_TaskQueue := (mh_TaskQueue mh)[i := q]\<rparr>"

inductive pool_step :: "Config \<Rightarrow> 's pool_sys \<Rightarrow> 's pool_sys \<Rightarrow> bool" for g :: Config where
  call_step:
    "ps_calls y t = None \<Longrightarrow>
     pool_step g y (y\<lparr>ps_calls := (ps_calls y)(t \<mapsto> \<lparr> ca_request = request, ca_ctxErr = None, ca_pc = Entering \<rparr>)\<rparr>)"
| refuse_step:
    "ps_calls y t = Some ca \<Longrightarrow> ca_pc ca = Entering \<Longrightarrow> admit (ca_request ca) (ps_mh y) = Stopped \<Longrightarrow>
     pool_step g y (y\<lparr>ps_calls := (ps_calls y)(t \<mapsto> ca\<lparr>ca_pc := Returned (Some ErrWorkerStopped)\<rparr>)\<rparr>)"
| direct_step:
    "ps_calls y t = Some ca \<Longrightarrow> ca_pc ca = Entering \<Longrightarrow> admit (ca_request ca) (ps_mh y) = Direct \<Longrightarrow>
     pool_step g y (y\<lparr>ps_calls := (ps_calls y)(t \<mapsto> ca\<lparr>ca_pc := Returned None\<rparr>),
       ps_direct := ps_direct y @ [ca_request ca], ps_accepted := ps_accepted y @ [ca_request ca]\<rparr>)"
| wait_step:
    "ps_calls y t = Some ca \<Longrightarrow> ca_pc ca = Entering \<Longrightarrow> admit (ca_request ca) (ps_mh y) = Queue i \<Longrightarrow>
     pool_step g y (y\<lparr>ps_calls := (ps_calls y)(t \<mapsto> ca\<lparr>ca_pc := Selecting i\<rparr>)\<rparr>)"
| select_step:
    "ps_calls y t = Some ca \<Longrightarrow> ca_pc ca = Selecting i \<Longrightarrow>
     offerTask g ch (ps_workers y ! i = WorkerIdle) (ca_ctxErr ca) (ca_request ca) (queue_at y i) (ps_mh y)
       = Some (err, q) \<Longrightarrow>
     pool_step g y (y\<lparr>ps_mh := set_queue i q (ps_mh y),
       ps_calls := (ps_calls y)(t \<mapsto> ca\<lparr>ca_pc := Returned err\<rparr>),
       ps_accepted := (if err = None then ps_accepted y @ [ca_request ca] else ps_accepted y),
       ps_queued := (if err = None then ps_queued y @ [ca_request ca] else ps_queued y)\<rparr>)"
| ctx_step:
    "ps_calls y t = Some ca \<Longrightarrow>
     pool_step g y (y\<lparr>ps_calls := (ps_calls y)(t \<mapsto> ca\<lparr>ca_ctxErr := Some e\<rparr>)\<rparr>)"
| start_step:
    "lock_free y \<Longrightarrow> mh' = StartWorkerPool g (ps_mh y) \<Longrightarrow>
     pool_step g y (y\<lparr>ps_mh := mh',
       ps_workers := (if mh_workerPoolStarted mh' \<and> \<not> mh_workerPoolStarted (ps_mh y)
                      then replicate (unat (mh_WorkerPoolSize mh')) WorkerIdle else ps_workers y)\<rparr>)"
| begin_stop_step:
    "pool_step g y (y\<lparr>ps_mh := beginStop (ps_mh y)\<rparr>)"
| close_step:
    "lock_free y \<Longrightarrow> mh_stopChan (ps_mh y) \<Longrightarrow> pool_step g y (y\<lparr>ps_mh := closeQueues (ps_mh y)\<rparr>)"
| take_step:
    "i < length (ps_workers y) \<Longrightarrow> ps_workers y ! i = WorkerIdle \<Longrightarrow> tq_buf (queue_at y i) = r # rest \<Longrightarrow>
     pool_step g y (y\<lparr>ps_mh := set_queue i ((queue_at y i)\<lparr>tq_buf := rest\<rparr>) (ps_mh y),
       ps_workers := (ps_workers y)[i := WorkerBusy r], ps_begun := ps_begun y @ [r]\<rparr>)"
| exit_step:
    "i < length (ps_workers y) \<Longrightarrow> ps_workers y ! i = WorkerIdle \<Longrightarrow> tq_buf (queue_at y i) = [] \<Longrightarrow>
     tq_closed (queue_at y i) \<Longrightarrow>
     pool_step g y (y\<lparr>ps_workers := (ps_workers y)[i := WorkerExited]\<rparr>)"
| run_step:
    "i < length (ps_workers y) \<Longrightarrow> ps_workers y ! i = WorkerBusy r \<Longrightarrow>
     DoMsgHandler (Some r) (ps_mh y) (ps_app y) = (None, mh', s') \<Longrightarrow>
     pool_step g y (y\<lparr>ps_mh := mh', ps_app := s', ps_workers := (ps_workers y)[i := WorkerIdle],
       ps_handled := ps_handled y @ [r], ps_finished := ps_finished y @ [r]\<rparr>)"
| run_direct_step:
    "ps_direct y = xs @ r # ys \<Longrightarrow> DoMsgHandler (Some r) (ps_mh y) (ps_app y) = (None, mh', s') \<Longrightarrow>
     pool_step g y (y\<lparr>ps_mh := mh', ps_app := s', ps_direct := xs @ ys,
       ps_handled := ps_handled y @ [r]\<rparr>)"

text \<open>
  \<open>workerPoolWait\<close> counts the workers and the goroutines that handle a request directly; the wait at the
  end of \<open>StopWorkerPool\<close> passes when all of them have returned.
\<close>

definition pool_idle :: "'s pool_sys \<Rightarrow> bool" where
  "pool_idle p \<longleftrightarrow> list_all (\<lambda>st. st = WorkerExited) (ps_workers p) \<and> ps_direct p = []"

definition pool_init :: "Config \<Rightarrow> 's pool_sys \<Rightarrow> bool" where
  "pool_init g y \<longleftrightarrow>
     (\<exists>config apis ms ph. ps_mh y = (newMsgHandle g config)\<lparr>mh_Apis := apis, mh_metrics := ms, mh_panicHandler := ph\<rparr>) \<and>
     ps_calls y = Map.empty \<and> ps_workers y = [] \<and> ps_direct y = [] \<and>
     ps_accepted y = [] \<and> ps_handled y = [] \<and> ps_queued y = [] \<and> ps_begun y = [] \<and> ps_finished y = []"

section \<open>The invariant\<close>

text \<open>The worker a request belongs to, and the requests of one worker in a log.\<close>

definition worker_of :: "u32 \<Rightarrow> Request \<Rightarrow> nat" where
  "worker_of n r = unat (ic_connID (rq_conn r) mod n)"

abbreviation pool_size :: "'s pool_sys \<Rightarrow> u32" where
  "pool_size y \<equiv> mh_WorkerPoolSize (ps_mh y)"

abbreviation log_of :: "'s pool_sys \<Rightarrow> nat \<Rightarrow> Request list \<Rightarrow> Request list" where
  "log_of y i xs \<equiv> filter (\<lambda>r. worker_of (pool_size y) r = i) xs"

definition busy_with :: "worker_state \<Rightarrow> Request list" where
  "busy_with st = (case st of WorkerBusy r \<Rightarrow> [r] | _ \<Rightarrow> [])"

text \<open>
  While the pool runs every queue is open and has a worker; a closed queue means that the stop signal
  was given; a call waits only at the queue of its worker, while the pool runs.
\<close>

definition handler_ok :: "'s MsgHandle \<Rightarrow> worker_state list \<Rightarrow> bool" where
  "handler_ok mh ws \<longleftrightarrow>
     length (mh_TaskQueue mh) = unat (mh_WorkerPoolSize mh) \<and>
     (mh_workerPoolStarted mh \<longrightarrow> mh_workerPoolOnce mh \<and> mh_WorkerPoolSize mh \<noteq> 0 \<and> ws \<noteq> [] \<and>
        set (map tq_closed (mh_TaskQueue mh)) \<subseteq> {False}) \<and>
     (ws \<noteq> [] \<longrightarrow> length ws = unat (mh_WorkerPoolSize mh) \<and> mh_workerPoolOnce mh) \<and>
     (mh_stopPoolOnce mh \<longrightarrow> mh_stopChan mh \<and> \<not> mh_workerPoolStarted mh) \<and>
     (ws \<noteq> [] \<and> \<not> mh_workerPoolStarted mh \<longrightarrow> mh_stopChan mh \<and> set (map tq_closed (mh_TaskQueue mh)) \<subseteq> {True})"

definition calls_ok :: "bool \<Rightarrow> u32 \<Rightarrow> (nat \<rightharpoonup> call) \<Rightarrow> bool" where
  "calls_ok started n m \<longleftrightarrow>
     (\<forall>t ca i. m t = Some ca \<and> ca_pc ca = Selecting i \<longrightarrow> started \<and> worker_of n (ca_request ca) = i)"

text \<open>
  The requests that entered the queue of a worker are, in order, those it finished, the one it works on,
  and those in the queue. A worker that has returned left nothing behind.
\<close>

definition lane_ok ::
  "u32 \<Rightarrow> nat \<Rightarrow> task_queue \<Rightarrow> worker_state \<Rightarrow> Request list \<Rightarrow> Request list \<Rightarrow> Request list \<Rightarrow> bool" where
  "lane_ok n i q st accepted begun finished \<longleftrightarrow>
     filter (\<lambda>r. worker_of n r = i) accepted = filter (\<lambda>r. worker_of n r = i) begun @ tq_buf q \<and>
     filter (\<lambda>r. worker_of n r = i) begun = filter (\<lambda>r. worker_of n r = i) finished @ busy_with st \<and>
     (st = WorkerExited \<longrightarrow> tq_closed q \<and> tq_buf q = [])"

definition lanes_ok :: "'s pool_sys \<Rightarrow> bool" where
  "lanes_ok y \<longleftrightarrow>
     (\<forall>i < length (ps_workers y).
        lane_ok (pool_size y) i (queue_at y i) (ps_workers y ! i) (ps_queued y) (ps_begun y) (ps_finished y)) \<and>
     (ps_workers y = [] \<longrightarrow> ps_queued y = [] \<and> ps_begun y = [] \<and> ps_finished y = [])"

definition pool_inv :: "'s pool_sys \<Rightarrow> bool" where
  "pool_inv y \<longleftrightarrow> handler_ok (ps_mh y) (ps_workers y) \<and>
     calls_ok (mh_workerPoolStarted (ps_mh y)) (pool_size y) (ps_calls y) \<and> lanes_ok y"

lemma worker_of_less: "n \<noteq> 0 \<Longrightarrow> worker_of n r < unat n"
  by (simp add: worker_of_def unat_mod unat_gt_0)

lemma DoMsgHandler_fields:
  assumes "DoMsgHandler request mh s = (p, mh', s')"
  obtains ms where "mh' = mh\<lparr>mh_metrics := ms\<rparr>"
proof -
  have "mh' = mh\<lparr>mh_metrics := mh_metrics mh\<rparr> \<or> mh' = mh\<lparr>mh_metrics := IncRouterPanics (mh_metrics mh)\<rparr>"
    using assms by (auto simp: DoMsgHandler_def Let_def split: option.splits prod.splits)
  with that show thesis by blast
qed

lemma set_queue_fields [simp]:
  "mh_WorkerPoolSize (set_queue i q mh) = mh_WorkerPoolSize mh" "mh_stopChan (set_queue i q mh) = mh_stopChan mh"
  "mh_workerPoolStarted (set_queue i q mh) = mh_workerPoolStarted mh"
  "mh_workerPoolOnce (set_queue i q mh) = mh_workerPoolOnce mh" "mh_stopPoolOnce (set_queue i q mh) = mh_stopPoolOnce mh"
  "mh_TaskQueue (set_queue i q mh) = (mh_TaskQueue mh)[i := q]"
  by (simp_all add: set_queue_def)

lemma offerTask_cases:
  assumes "offerTask g ch idle ctxErr request q mh = Some (err, q')"
  shows "if err = None then q' = q\<lparr>tq_buf := tq_buf q @ [request]\<rparr> \<and> \<not> tq_closed q \<and> queueRoom idle q else q' = q"
  using assms by (cases ch) (auto simp: offerTask_def Let_def split: if_splits option.splits)

lemma offerTask_closed:
  assumes "offerTask g ch idle ctxErr request q mh = Some (err, q')"
  shows "tq_closed q' = tq_closed q"
  using offerTask_cases [OF assms] by (auto split: if_splits)

lemma calls_ok_update:
  "calls_ok started n m \<Longrightarrow>
   (\<And>i. ca_pc ca = Selecting i \<Longrightarrow> started \<and> worker_of n (ca_request ca) = i) \<Longrightarrow>
   calls_ok started n (m(t \<mapsto> ca))"
  by (auto simp: calls_ok_def)

lemma calls_ok_free: "lock_free y \<Longrightarrow> calls_ok b n (ps_calls y)"
  by (auto simp: lock_free_def calls_ok_def)

lemma pool_inv_with_calls:
  assumes "pool_inv y" "\<And>i. ca_pc ca = Selecting i \<Longrightarrow>
    mh_workerPoolStarted (ps_mh y) \<and> worker_of (pool_size y) (ca_request ca) = i"
  shows "pool_inv (y\<lparr>ps_calls := (ps_calls y)(t \<mapsto> ca), ps_direct := d, ps_accepted := a\<rparr>)"
  using assms calls_ok_update by (simp add: pool_inv_def lanes_ok_def)

lemma handler_ok_metrics: "handler_ok (mh\<lparr>mh_metrics := ms\<rparr>) ws = handler_ok mh ws"
  by (simp add: handler_ok_def)

lemma pool_inv_same_handler:
  assumes "pool_inv y" "mh' = (ps_mh y)\<lparr>mh_metrics := ms\<rparr>"
  shows "pool_inv (y\<lparr>ps_mh := mh', ps_app := s', ps_direct := d, ps_handled := h\<rparr>)"
  using assms by (simp add: pool_inv_def lanes_ok_def handler_ok_metrics)

lemma handler_ok_set_queue:
  assumes "handler_ok mh ws" "i < length (mh_TaskQueue mh)" "tq_closed q = tq_closed (mh_TaskQueue mh ! i)"
    and "length ws' = length ws"
  shows "handler_ok (set_queue i q mh) ws'"
proof -
  have "map tq_closed ((mh_TaskQueue mh)[i := q]) = map tq_closed (mh_TaskQueue mh)"
    using assms(2,3) by (simp add: map_update list_update_same_conv)
  moreover have "ws' = [] \<longleftrightarrow> ws = []" using assms(4) by auto
  ultimately show ?thesis
    using assms(1,4) unfolding handler_ok_def set_queue_fields by simp
qed

lemma pool_lane:
  "pool_inv y \<Longrightarrow> i < length (ps_workers y) \<Longrightarrow>
   lane_ok (pool_size y) i (queue_at y i) (ps_workers y ! i) (ps_queued y) (ps_begun y) (ps_finished y)"
  by (simp add: pool_inv_def lanes_ok_def)

lemma lanes_ok_update:
  assumes "pool_inv y" "length (ps_workers y') = length (ps_workers y)"
    and "ps_workers y = [] \<Longrightarrow> ps_queued y' = ps_queued y \<and> ps_begun y' = ps_begun y \<and> ps_finished y' = ps_finished y"
    and "\<And>j. j < length (ps_workers y) \<Longrightarrow>
      lane_ok (pool_size y) j (queue_at y j) (ps_workers y ! j) (ps_queued y) (ps_begun y) (ps_finished y) \<Longrightarrow>
      lane_ok (pool_size y') j (queue_at y' j) (ps_workers y' ! j) (ps_queued y') (ps_begun y') (ps_finished y')"
  shows "lanes_ok y'"
  using assms(2-4) pool_lane [OF assms(1)] assms(1) unfolding lanes_ok_def pool_inv_def
  by (metis length_0_conv)

lemma lane_ok_queued:
  assumes "lane_ok n i q st acc beg fin" "r \<in> set (tq_buf q)"
  shows "worker_of n r = i"
proof -
  have "r \<in> set (filter (\<lambda>r. worker_of n r = i) acc)"
    using assms by (simp only: lane_ok_def set_append Un_iff) simp
  then show ?thesis by simp
qed

lemma lane_ok_busy:
  assumes "lane_ok n i q (WorkerBusy r) acc beg fin"
  shows "worker_of n r = i"
proof -
  have "r \<in> set (filter (\<lambda>r. worker_of n r = i) beg)"
    using assms by (simp only: lane_ok_def set_append Un_iff) (simp add: busy_with_def)
  then show ?thesis by simp
qed

lemma pool_inv_select:
  assumes inv: "pool_inv y" and ca: "ps_calls y t = Some ca" "ca_pc ca = Selecting i"
    and off: "offerTask g ch idle ctxErr (ca_request ca) (queue_at y i) (ps_mh y) = Some (err, q)"
  shows "pool_inv (y\<lparr>ps_mh := set_queue i q (ps_mh y), ps_calls := (ps_calls y)(t \<mapsto> ca\<lparr>ca_pc := Returned err\<rparr>),
       ps_accepted := (if err = None then ps_accepted y @ [ca_request ca] else ps_accepted y),
       ps_queued := (if err = None then ps_queued y @ [ca_request ca] else ps_queued y)\<rparr>)"
proof -
  let ?y = "y\<lparr>ps_mh := set_queue i q (ps_mh y), ps_calls := (ps_calls y)(t \<mapsto> ca\<lparr>ca_pc := Returned err\<rparr>),
       ps_accepted := (if err = None then ps_accepted y @ [ca_request ca] else ps_accepted y),
       ps_queued := (if err = None then ps_queued y @ [ca_request ca] else ps_queued y)\<rparr>"
  note inv' = inv [unfolded pool_inv_def]
  have run: "mh_workerPoolStarted (ps_mh y)" and i: "worker_of (pool_size y) (ca_request ca) = i"
    using inv' ca by (auto simp: calls_ok_def)
  have len: "length (mh_TaskQueue (ps_mh y)) = unat (pool_size y)" "length (ps_workers y) = unat (pool_size y)"
    and "pool_size y \<noteq> 0"
    using inv' run by (auto simp: handler_ok_def)
  then have less: "i < unat (pool_size y)" using i worker_of_less by blast
  have "handler_ok (ps_mh ?y) (ps_workers ?y)"
    using handler_ok_set_queue [of "ps_mh y" "ps_workers y" i q] inv' less len(1) offerTask_closed [OF off] by simp
  moreover have "calls_ok (mh_workerPoolStarted (ps_mh ?y)) (pool_size ?y) (ps_calls ?y)"
    using inv' by (auto intro!: calls_ok_update)
  moreover have "lanes_ok ?y"
  proof (rule lanes_ok_update [OF inv])
    show "lane_ok (pool_size ?y) j (queue_at ?y j) (ps_workers ?y ! j) (ps_queued ?y) (ps_begun ?y) (ps_finished ?y)"
      if "j < length (ps_workers y)"
        "lane_ok (pool_size y) j (queue_at y j) (ps_workers y ! j) (ps_queued y) (ps_begun y) (ps_finished y)" for j
      using that i less len offerTask_cases [OF off]
      by (cases "j = i") (auto simp: lane_ok_def split: if_splits)
  qed (use len less in \<open>simp_all\<close>)
  ultimately show ?thesis by (simp add: pool_inv_def)
qed

lemma pool_inv_start:
  assumes inv: "pool_inv y" and free: "lock_free y" and mh': "mh' = StartWorkerPool g (ps_mh y)"
  shows "pool_inv (y\<lparr>ps_mh := mh',
       ps_workers := (if mh_workerPoolStarted mh' \<and> \<not> mh_workerPoolStarted (ps_mh y)
                      then replicate (unat (mh_WorkerPoolSize mh')) WorkerIdle else ps_workers y)\<rparr>)"
proof (cases "mh_WorkerPoolSize (ps_mh y) = 0 \<or> mh_workerPoolOnce (ps_mh y) \<or> mh_stopChan (ps_mh y)")
  case True
  then have "mh' = ps_mh y \<or> mh' = (ps_mh y)\<lparr>mh_workerPoolOnce := True\<rparr>"
    by (auto simp: mh' StartWorkerPool_def Let_def)
  then show ?thesis
  proof
    assume "mh' = ps_mh y"
    with inv show ?thesis by simp
  next
    assume "mh' = (ps_mh y)\<lparr>mh_workerPoolOnce := True\<rparr>"
    with inv show ?thesis by (simp add: pool_inv_def lanes_ok_def handler_ok_def)
  qed
next
  case False
  let ?n = "unat (pool_size y)"
  have none: "ps_workers y = []" "\<not> mh_workerPoolStarted (ps_mh y)" "\<not> mh_stopPoolOnce (ps_mh y)"
    using inv False by (auto simp: pool_inv_def handler_ok_def)
  have logs: "ps_queued y = []" "ps_begun y = []" "ps_finished y = []"
    using inv none(1) by (auto simp: pool_inv_def lanes_ok_def)
  define q where "q = \<lparr> tq_buf = [], tq_cap = unat (MaxWorkerTaskLen (effectiveConfig g (mh_config (ps_mh y)))),
    tq_closed = False \<rparr>"
  have q: "mh_TaskQueue mh' = replicate ?n q" "tq_buf q = []" "\<not> tq_closed q"
    and new: "mh_workerPoolStarted mh'" "mh_WorkerPoolSize mh' = pool_size y" "mh_workerPoolOnce mh'"
      "\<not> mh_stopPoolOnce mh'"
    using False none(3) by (auto simp: mh' q_def StartWorkerPool_def Let_def)
  have n: "?n \<noteq> 0" using False by (simp add: unat_eq_zero)
  let ?y = "y\<lparr>ps_mh := mh', ps_workers := replicate ?n WorkerIdle\<rparr>"
  have "handler_ok mh' (replicate ?n WorkerIdle)"
    using q new n False by (auto simp: handler_ok_def)
  moreover have "lanes_ok ?y"
    using q new n by (simp add: lanes_ok_def lane_ok_def busy_with_def logs)
  ultimately have "pool_inv ?y"
    using calls_ok_free [OF free] by (simp add: pool_inv_def)
  then show ?thesis using new none by simp
qed

lemma handler_ok_close:
  assumes "handler_ok mh ws" "mh_stopChan mh"
  shows "handler_ok (closeQueues mh) ws"
proof (cases "mh_stopPoolOnce mh \<or> \<not> mh_workerPoolStarted mh")
  case True
  then have "closeQueues mh = mh \<or> closeQueues mh = mh\<lparr>mh_stopPoolOnce := True\<rparr> \<and> \<not> mh_workerPoolStarted mh"
    by (auto simp: closeQueues_def)
  then show ?thesis
    using assms by (elim disjE conjE) (simp_all add: handler_ok_def)
next
  case False
  have "set (map (tq_closed \<circ> (\<lambda>q. q\<lparr>tq_closed := True\<rparr>)) (mh_TaskQueue mh)) \<subseteq> {True}" by auto
  with False assms show ?thesis
    by (simp add: closeQueues_def handler_ok_def)
qed

lemma closeQueues_fields [simp]:
  "mh_WorkerPoolSize (closeQueues mh) = mh_WorkerPoolSize mh"
  "length (mh_TaskQueue (closeQueues mh)) = length (mh_TaskQueue mh)"
  "i < length (mh_TaskQueue mh) \<Longrightarrow> tq_buf (mh_TaskQueue (closeQueues mh) ! i) = tq_buf (mh_TaskQueue mh ! i)"
  "i < length (mh_TaskQueue mh) \<Longrightarrow> tq_closed (mh_TaskQueue mh ! i) \<Longrightarrow> tq_closed (mh_TaskQueue (closeQueues mh) ! i)"
  by (simp_all add: closeQueues_def Let_def)

lemma pool_inv_close:
  assumes "pool_inv y" "lock_free y" "mh_stopChan (ps_mh y)"
  shows "pool_inv (y\<lparr>ps_mh := closeQueues (ps_mh y)\<rparr>)"
proof -
  let ?y = "y\<lparr>ps_mh := closeQueues (ps_mh y)\<rparr>"
  have "handler_ok (ps_mh ?y) (ps_workers ?y)"
    using handler_ok_close [of "ps_mh y" "ps_workers y"] assms(1,3) by (simp add: pool_inv_def)
  moreover have len: "ps_workers y \<noteq> [] \<Longrightarrow> length (mh_TaskQueue (ps_mh y)) = length (ps_workers y)"
    using assms(1) by (auto simp: pool_inv_def handler_ok_def)
  have "lanes_ok ?y"
  proof (rule lanes_ok_update [OF assms(1)])
    show "lane_ok (pool_size ?y) j (queue_at ?y j) (ps_workers ?y ! j) (ps_queued ?y) (ps_begun ?y) (ps_finished ?y)"
      if "j < length (ps_workers y)"
        "lane_ok (pool_size y) j (queue_at y j) (ps_workers y ! j) (ps_queued y) (ps_begun y) (ps_finished y)" for j
    proof -
      have "j < length (mh_TaskQueue (ps_mh y))" using len that(1) by fastforce
      then show ?thesis using that(2) by (simp add: lane_ok_def)
    qed
  qed simp_all
  ultimately show ?thesis
    using calls_ok_free [OF assms(2)] by (simp add: pool_inv_def)
qed

lemma pool_inv_take:
  assumes "pool_inv y" "i < length (ps_workers y)" "ps_workers y ! i = WorkerIdle"
    and "tq_buf (queue_at y i) = r # rest"
  shows "pool_inv (y\<lparr>ps_mh := set_queue i ((queue_at y i)\<lparr>tq_buf := rest\<rparr>) (ps_mh y),
       ps_workers := (ps_workers y)[i := WorkerBusy r], ps_begun := ps_begun y @ [r]\<rparr>)"
proof -
  let ?y = "y\<lparr>ps_mh := set_queue i ((queue_at y i)\<lparr>tq_buf := rest\<rparr>) (ps_mh y),
       ps_workers := (ps_workers y)[i := WorkerBusy r], ps_begun := ps_begun y @ [r]\<rparr>"
  note inv' = assms(1) [unfolded pool_inv_def]
  have len: "length (mh_TaskQueue (ps_mh y)) = length (ps_workers y)"
    using inv' assms(2) by (auto simp: handler_ok_def)
  have r: "worker_of (pool_size y) r = i"
    using lane_ok_queued [OF pool_lane [OF assms(1,2)]] assms(4) by simp
  have "handler_ok (ps_mh ?y) (ps_workers ?y)"
    using handler_ok_set_queue [of "ps_mh y" "ps_workers y" i] inv' len assms(2) by simp
  moreover have "lanes_ok ?y"
  proof (rule lanes_ok_update [OF assms(1)])
    show "lane_ok (pool_size ?y) j (queue_at ?y j) (ps_workers ?y ! j) (ps_queued ?y) (ps_begun ?y) (ps_finished ?y)"
      if "j < length (ps_workers y)"
        "lane_ok (pool_size y) j (queue_at y j) (ps_workers y ! j) (ps_queued y) (ps_begun y) (ps_finished y)" for j
      using that r len assms(3,4) by (cases "j = i") (auto simp: lane_ok_def busy_with_def)
  qed (use assms(2) in \<open>auto\<close>)
  ultimately show ?thesis using inv' by (simp add: pool_inv_def)
qed

lemma pool_inv_exit:
  assumes "pool_inv y" "i < length (ps_workers y)" "ps_workers y ! i = WorkerIdle"
    and "tq_buf (queue_at y i) = []" "tq_closed (queue_at y i)"
  shows "pool_inv (y\<lparr>ps_workers := (ps_workers y)[i := WorkerExited]\<rparr>)"
proof -
  let ?y = "y\<lparr>ps_workers := (ps_workers y)[i := WorkerExited]\<rparr>"
  note inv' = assms(1) [unfolded pool_inv_def]
  have "handler_ok (ps_mh ?y) (ps_workers ?y)" using inv' by (simp add: handler_ok_def)
  moreover have "lanes_ok ?y"
  proof (rule lanes_ok_update [OF assms(1)])
    show "lane_ok (pool_size ?y) j (queue_at ?y j) (ps_workers ?y ! j) (ps_queued ?y) (ps_begun ?y) (ps_finished ?y)"
      if "j < length (ps_workers y)"
        "lane_ok (pool_size y) j (queue_at y j) (ps_workers y ! j) (ps_queued y) (ps_begun y) (ps_finished y)" for j
      using that assms(3-5) by (cases "j = i") (auto simp: lane_ok_def busy_with_def)
  qed (use assms(2) in \<open>auto\<close>)
  ultimately show ?thesis using inv' by (simp add: pool_inv_def)
qed

lemma pool_inv_run:
  assumes "pool_inv y" "i < length (ps_workers y)" "ps_workers y ! i = WorkerBusy r"
    and "mh' = (ps_mh y)\<lparr>mh_metrics := ms\<rparr>"
  shows "pool_inv (y\<lparr>ps_mh := mh', ps_app := s', ps_workers := (ps_workers y)[i := WorkerIdle],
       ps_handled := ps_handled y @ [r], ps_finished := ps_finished y @ [r]\<rparr>)"
proof -
  let ?y = "y\<lparr>ps_mh := mh', ps_app := s', ps_workers := (ps_workers y)[i := WorkerIdle],
       ps_handled := ps_handled y @ [r], ps_finished := ps_finished y @ [r]\<rparr>"
  note inv' = assms(1) [unfolded pool_inv_def]
  have r: "worker_of (pool_size y) r = i"
    using pool_lane [OF assms(1,2)] assms(3) lane_ok_busy by metis
  have "handler_ok (ps_mh ?y) (ps_workers ?y)" using inv' assms(4) by (simp add: handler_ok_def)
  moreover have "lanes_ok ?y"
  proof (rule lanes_ok_update [OF assms(1)])
    show "lane_ok (pool_size ?y) j (queue_at ?y j) (ps_workers ?y ! j) (ps_queued ?y) (ps_begun ?y) (ps_finished ?y)"
      if "j < length (ps_workers y)"
        "lane_ok (pool_size y) j (queue_at y j) (ps_workers y ! j) (ps_queued y) (ps_begun y) (ps_finished y)" for j
      using that r assms(3,4) by (cases "j = i") (auto simp: lane_ok_def busy_with_def)
  qed (use assms(2) in \<open>auto\<close>)
  ultimately show ?thesis using inv' assms(4) by (simp add: pool_inv_def)
qed

lemma pool_inv_step:
  assumes "pool_inv y" "pool_step g y y'"
  shows "pool_inv y'"
  using assms(2)
proof (cases rule: pool_step.cases)
  case (call_step t request)
  then show ?thesis
    using pool_inv_with_calls [OF assms(1), where ca = "\<lparr> ca_request = request, ca_ctxErr = None, ca_pc = Entering \<rparr>" and t = t and d = "ps_direct y" and a = "ps_accepted y"]
    by simp
next
  case (refuse_step t ca)
  then show ?thesis
    using pool_inv_with_calls [OF assms(1), where ca = "ca\<lparr>ca_pc := Returned (Some ErrWorkerStopped)\<rparr>" and t = t and d = "ps_direct y" and a = "ps_accepted y"] by simp
next
  case (direct_step t ca)
  then show ?thesis
    using pool_inv_with_calls [OF assms(1), where ca = "ca\<lparr>ca_pc := Returned None\<rparr>" and t = t and d = "ps_direct y @ [ca_request ca]" and a = "ps_accepted y @ [ca_request ca]"] by simp
next
  case (wait_step t ca i)
  then have "mh_workerPoolStarted (ps_mh y) \<and> worker_of (pool_size y) (ca_request ca) = i"
    by (auto simp: admit_def worker_of_def split: if_splits)
  then show ?thesis
    using pool_inv_with_calls [OF assms(1), where ca = "ca\<lparr>ca_pc := Selecting i\<rparr>" and t = t and d = "ps_direct y" and a = "ps_accepted y"] wait_step(1) by simp
next
  case (select_step t ca i ch err q)
  then show ?thesis using pool_inv_select [OF assms(1)] by blast
next
  case (ctx_step t ca e)
  then have "ca_pc ca = Selecting i \<Longrightarrow> mh_workerPoolStarted (ps_mh y) \<and> worker_of (pool_size y) (ca_request ca) = i" for i
    using assms(1) by (auto simp: pool_inv_def calls_ok_def)
  then show ?thesis
    using pool_inv_with_calls [OF assms(1), where ca = "ca\<lparr>ca_ctxErr := Some e\<rparr>" and t = t and d = "ps_direct y" and a = "ps_accepted y"] ctx_step(1) by simp
next
  case (start_step mh')
  then show ?thesis using pool_inv_start [OF assms(1)] by blast
next
  case begin_stop_step
  then show ?thesis using assms(1) by (simp add: pool_inv_def lanes_ok_def handler_ok_def beginStop_def)
next
  case close_step
  then show ?thesis using pool_inv_close [OF assms(1)] by blast
next
  case (take_step i r rest)
  then show ?thesis using pool_inv_take [OF assms(1)] by blast
next
  case (exit_step i)
  then show ?thesis using pool_inv_exit [OF assms(1)] by blast
next
  case (run_step i r mh' s')
  from run_step(4) obtain ms where "mh' = (ps_mh y)\<lparr>mh_metrics := ms\<rparr>" by (rule DoMsgHandler_fields)
  then show ?thesis using pool_inv_run [OF assms(1) run_step(2,3)] run_step(1) by blast
next
  case (run_direct_step xs r ys mh' s')
  from run_direct_step(3) obtain ms where "mh' = (ps_mh y)\<lparr>mh_metrics := ms\<rparr>" by (rule DoMsgHandler_fields)
  then show ?thesis using pool_inv_same_handler [OF assms(1)] run_direct_step(1) by blast
qed

lemma pool_inv_init: "pool_init g y \<Longrightarrow> pool_inv y"
  by (auto simp: pool_init_def pool_inv_def handler_ok_def calls_ok_def lanes_ok_def newMsgHandle_def Let_def)

interpretation pool: invariant_system "pool_init g" "pool_step g" pool_inv for g
  by unfold_locales (fact pool_inv_init, fact pool_inv_step)

text \<open>
  Every request that was accepted is in one place: it was handled, or it waits in a queue, or a worker or
  a goroutine of its own works on it. The queues are accounted for by \<open>lanes_ok\<close>; the rest is a balance
  of the logs.
\<close>

definition tally_ok :: "'s pool_sys \<Rightarrow> bool" where
  "tally_ok y \<longleftrightarrow>
     mset (ps_accepted y) + mset (ps_finished y) = mset (ps_queued y) + mset (ps_handled y) + mset (ps_direct y)"

lemma tally_ok_step: "tally_ok y \<Longrightarrow> pool_step g y y' \<Longrightarrow> tally_ok y'"
  by (erule pool_step.cases) (auto simp: tally_ok_def)

lemma tally_ok_init: "pool_init g y \<Longrightarrow> tally_ok y"
  by (auto simp: pool_init_def tally_ok_def)

interpretation tally: invariant_system "pool_init g" "pool_step g" tally_ok for g
  by unfold_locales (fact tally_ok_init, fact tally_ok_step)

section \<open>Properties\<close>

abbreviation of_conn :: "u32 \<Rightarrow> Request list \<Rightarrow> Request list" where
  "of_conn k xs \<equiv> filter (\<lambda>r. ic_connID (rq_conn r) = k) xs"

lemma of_conn_lane:
  "of_conn k (filter (\<lambda>r. worker_of n r = unat (k mod n)) xs) = of_conn k xs"
  by (induction xs) (auto simp: worker_of_def)

text \<open>A run of a pool with one worker: it is started, gets a request, handles it, and is stopped.\<close>

definition demo_config :: Config where
  "demo_config = DefaultConfig\<lparr>WorkerPoolSize := 1, MaxWorkerTaskLen := 1\<rparr>"

definition demo_request :: Request where
  "demo_request = \<lparr> rq_conn = \<lparr> ic_ref = 0, ic_connID = 7 \<rparr>, rq_data = NewMsgPackage 9 [65] \<rparr>"

definition demo_call :: "call_pc \<Rightarrow> call" where
  "demo_call pc = \<lparr> ca_request = demo_request, ca_ctxErr = None, ca_pc = pc \<rparr>"

definition demo_handler :: "bool \<Rightarrow> Request list \<Rightarrow> bool \<Rightarrow> nat MsgHandle" where
  "demo_handler stopping buf shut =
     (newMsgHandle demo_config None)\<lparr>
       mh_TaskQueue := [\<lparr> tq_buf = buf, tq_cap = 1, tq_closed = shut \<rparr>], mh_workerPoolOnce := True,
       mh_workerPoolStarted := \<not> shut, mh_stopPoolOnce := shut, mh_stopChan := stopping\<rparr>"

definition demo_pool :: "nat MsgHandle \<Rightarrow> (nat \<rightharpoonup> call) \<Rightarrow> worker_state list \<Rightarrow> Request list \<Rightarrow> Request list \<Rightarrow>
    Request list \<Rightarrow> nat pool_sys" where
  "demo_pool mh calls ws acc beg fin =
     \<lparr> ps_mh = mh, ps_calls = calls, ps_workers = ws, ps_direct = [], ps_app = 0, ps_accepted = acc, ps_handled = fin,
       ps_queued = acc, ps_begun = beg, ps_finished = fin \<rparr>"

abbreviation demo_reach :: "nat pool_sys \<Rightarrow> bool" where
  "demo_reach y \<equiv> reach (pool_init demo_config) (pool_step demo_config) y"

lemmas demo_pool_defs = demo_pool_def demo_handler_def newMsgHandle_def demo_config_def DefaultConfig_def
  demo_call_def Let_def

lemma demo_pool_init: "demo_reach (demo_pool (newMsgHandle demo_config None) Map.empty [] [] [] [])"
proof (rule reach_init)
  have "newMsgHandle demo_config None
      = (newMsgHandle demo_config None)\<lparr>mh_Apis := Map.empty, mh_metrics := None, mh_panicHandler := None\<rparr>"
    by (simp add: newMsgHandle_def)
  then show "pool_init demo_config (demo_pool (newMsgHandle demo_config None) Map.empty [] [] [] [])"
    unfolding pool_init_def demo_pool_def pool_sys.simps by blast
qed

lemma demo_pool_started: "demo_reach (demo_pool (demo_handler False [] False) Map.empty [WorkerIdle] [] [] [])"
proof (rule reach_step [OF demo_pool_init])
  let ?y = "demo_pool (newMsgHandle demo_config None) Map.empty [] [] [] []"
  have "StartWorkerPool demo_config (ps_mh ?y) = demo_handler False [] False"
    by (simp add: demo_pool_defs StartWorkerPool_def)
  then show "pool_step demo_config ?y (demo_pool (demo_handler False [] False) Map.empty [WorkerIdle] [] [] [])"
    using start_step [of ?y "demo_handler False [] False" demo_config]
    by (simp add: demo_pool_defs lock_free_def)
qed

lemma demo_pool_waiting:
  "demo_reach (demo_pool (demo_handler False [] False) [0 \<mapsto> demo_call (Selecting 0)] [WorkerIdle] [] [] [])"
proof (rule reach_step)
  let ?y = "demo_pool (demo_handler False [] False) [0 \<mapsto> demo_call Entering] [WorkerIdle] [] [] []"
  show "demo_reach ?y"
    using call_step [of "demo_pool (demo_handler False [] False) Map.empty [WorkerIdle] [] [] []" 0 demo_config demo_request]
    by (intro reach_step [OF demo_pool_started]) (simp add: demo_pool_def demo_call_def)
  show "pool_step demo_config ?y
      (demo_pool (demo_handler False [] False) [0 \<mapsto> demo_call (Selecting 0)] [WorkerIdle] [] [] [])"
    using wait_step [of ?y 0 "demo_call Entering" 0 demo_config]
    by (simp add: demo_pool_defs admit_def)
qed

lemma demo_pool_queued:
  "demo_reach (demo_pool (demo_handler False [demo_request] False) [0 \<mapsto> demo_call (Returned None)] [WorkerIdle]
     [demo_request] [] [])"
proof (rule reach_step [OF demo_pool_waiting])
  let ?y = "demo_pool (demo_handler False [] False) [0 \<mapsto> demo_call (Selecting 0)] [WorkerIdle] [] [] []"
  have "offerTask demo_config CaseQueue (ps_workers ?y ! 0 = WorkerIdle) None demo_request (queue_at ?y 0) (ps_mh ?y)
      = Some (None, \<lparr> tq_buf = [demo_request], tq_cap = 1, tq_closed = False \<rparr>)"
    by (simp add: offerTask_def queueRoom_def demo_pool_def demo_handler_def)
  then show "pool_step demo_config ?y (demo_pool (demo_handler False [demo_request] False)
      [0 \<mapsto> demo_call (Returned None)] [WorkerIdle] [demo_request] [] [])"
    using select_step [of ?y 0 "demo_call (Selecting 0)" 0 demo_config CaseQueue None
        "\<lparr> tq_buf = [demo_request], tq_cap = 1, tq_closed = False \<rparr>"]
    by (simp add: demo_pool_def demo_handler_def newMsgHandle_def Let_def demo_call_def set_queue_def)
qed

lemma demo_pool_stopped:
  "demo_reach (demo_pool (demo_handler True [] True) [0 \<mapsto> demo_call (Returned None)] [WorkerExited]
     [demo_request] [demo_request] [demo_request])"
proof -
  let ?pool = "\<lambda>mh ws beg fin. demo_pool mh [0 \<mapsto> demo_call (Returned None)] ws [demo_request] beg fin"
  let ?q = "?pool (demo_handler False [demo_request] False) [WorkerIdle] [] []"
  have 1: "demo_reach (?pool (demo_handler False [] False) [WorkerBusy demo_request] [demo_request] [])"
    using take_step [of 0 ?q demo_request "[]" demo_config]
    by (intro reach_step [OF demo_pool_queued]) (simp add: demo_pool_def demo_handler_def newMsgHandle_def Let_def set_queue_def)
  have 2: "demo_reach (?pool (demo_handler False [] False) [WorkerIdle] [demo_request] [demo_request])"
    using run_step [of 0 "?pool (demo_handler False [] False) [WorkerBusy demo_request] [demo_request] []" demo_request
        "demo_handler False [] False" 0 demo_config]
    by (intro reach_step [OF 1]) (simp add: demo_pool_def demo_handler_def DoMsgHandler_def newMsgHandle_def Let_def)
  have 3: "demo_reach (?pool (demo_handler True [] False) [WorkerIdle] [demo_request] [demo_request])"
    using begin_stop_step [of demo_config "?pool (demo_handler False [] False) [WorkerIdle] [demo_request] [demo_request]"]
    by (intro reach_step [OF 2]) (simp add: demo_pool_def demo_handler_def newMsgHandle_def Let_def beginStop_def)
  have 4: "demo_reach (?pool (demo_handler True [] True) [WorkerIdle] [demo_request] [demo_request])"
    using close_step [of "?pool (demo_handler True [] False) [WorkerIdle] [demo_request] [demo_request]" demo_config]
    by (intro reach_step [OF 3])
       (simp add: demo_pool_def demo_handler_def closeQueues_def lock_free_def demo_call_def newMsgHandle_def Let_def)
  show ?thesis
    using exit_step [of 0 "?pool (demo_handler True [] True) [WorkerIdle] [demo_request] [demo_request]" demo_config]
    by (intro reach_step [OF 4]) (simp add: demo_pool_def demo_handler_def newMsgHandle_def Let_def)
qed

lemma pool_step_logs:
  assumes "pool_step g y y'"
  obtains "ps_accepted y' = ps_accepted y" "ps_queued y' = ps_queued y"
  | r where "ps_accepted y' = ps_accepted y @ [r]" "ps_queued y' = ps_queued y @ [r]" "\<exists>t ca i. ps_calls y t = Some ca \<and> ca_pc ca = Selecting i"
  | r t ca where "ps_calls y t = Some ca" "admit (ca_request ca) (ps_mh y) = Direct"
  using assms by (cases rule: pool_step.cases) (auto split: if_splits)

lemma pool_step_workers:
  assumes "pool_inv y" "pool_step g y y'" "ps_workers y \<noteq> []"
  shows "ps_workers y' \<noteq> [] \<and> (\<exists>xs. ps_accepted y' = ps_accepted y @ xs \<and> ps_queued y' = ps_queued y @ xs)"
proof
  have ok: "handler_ok (ps_mh y) (ps_workers y)" using assms(1) by (simp add: pool_inv_def)
  show "ps_workers y' \<noteq> []"
    using assms(2)
  proof (cases rule: pool_step.cases)
    case (start_step mh')
    have "mh_workerPoolOnce (ps_mh y)" using ok assms(3) by (simp add: handler_ok_def)
    then have "mh' = ps_mh y" using start_step by (simp add: StartWorkerPool_def)
    with start_step assms(3) show ?thesis by simp
  qed (use assms(3) in auto)
  have "admit r (ps_mh y) \<noteq> Direct" for r
    using ok assms(3) by (auto simp: handler_ok_def admit_def)
  then show "\<exists>xs. ps_accepted y' = ps_accepted y @ xs \<and> ps_queued y' = ps_queued y @ xs"
    using pool_step_logs [OF assms(2)] by (metis append_Nil2)
qed

lemma pool_steps_workers:
  assumes "(pool_step g)\<^sup>*\<^sup>* y y'" "pool_inv y" "ps_workers y \<noteq> []"
  shows "pool_inv y' \<and> ps_workers y' \<noteq> [] \<and> (\<exists>xs. ps_accepted y' = ps_accepted y @ xs \<and> ps_queued y' = ps_queued y @ xs)"
  using assms
proof (induction rule: rtranclp_induct)
  case (step y1 y2)
  then obtain xs where 1: "pool_inv y1" "ps_workers y1 \<noteq> []" "ps_accepted y1 = ps_accepted y @ xs" "ps_queued y1 = ps_queued y @ xs"
    by blast
  obtain zs where 2: "ps_workers y2 \<noteq> []" "ps_accepted y2 = ps_accepted y1 @ zs" "ps_queued y2 = ps_queued y1 @ zs"
    using pool_step_workers [OF 1(1) step.hyps(2) 1(2)] by blast
  have "ps_accepted y2 = ps_accepted y @ (xs @ zs) \<and> ps_queued y2 = ps_queued y @ (xs @ zs)" using 1 2 by simp
  then show ?case using pool_inv_step [OF 1(1) step.hyps(2)] 2(1) by blast
qed simp

lemma pool_lane_of_conn:
  assumes inv: "pool_inv y" and "ps_workers y \<noteq> []" and i: "i = unat (k mod pool_size y)"
  shows "i < length (ps_workers y) \<and>
     of_conn k (ps_queued y) = of_conn k (ps_finished y) @ of_conn k (busy_with (ps_workers y ! i))
       @ of_conn k (tq_buf (queue_at y i))"
proof -
  let ?n = "pool_size y" and ?i = "unat (k mod pool_size y)"
  have len: "length (ps_workers y) = unat ?n" using inv assms(2) by (simp add: pool_inv_def handler_ok_def)
  with assms(2) have "?n \<noteq> 0" by auto
  then have less: "?i < length (ps_workers y)" by (simp add: len unat_mod unat_gt_0)
  from pool_lane [OF inv this]
  have "of_conn k (filter (\<lambda>r. worker_of ?n r = ?i) (ps_queued y))
      = of_conn k (filter (\<lambda>r. worker_of ?n r = ?i) (ps_finished y)) @ of_conn k (busy_with (ps_workers y ! ?i))
        @ of_conn k (tq_buf (queue_at y ?i))"
    unfolding lane_ok_def by (metis append_assoc filter_append)
  then show ?thesis using less unfolding of_conn_lane i by blast
qed

lemma pool_no_workers:
  assumes "pool_inv y" "tally_ok y" "ps_workers y = []"
  shows "ps_queued y = [] \<and> mset (ps_accepted y) = mset (ps_handled y) + mset (ps_direct y)"
  using assms by (simp add: pool_inv_def lanes_ok_def tally_ok_def)

text \<open>C8: with workers the requests of one connection are worked on in the order in which they entered its
  queue, one at a time and none twice: at every moment those that entered it are exactly those finished,
  the one in work, and those still queued, in this order; and from the start of the pool on a request
  is accepted exactly when it enters a queue. Without workers (a pool of size 0, or not started yet)
  every accepted request has a goroutine of its own: it is handled once or still in work, and nothing
  is said about the order.\<close>
theorem worker_pool_fifo:
  assumes "reach (pool_init g) (pool_step g) y" "i = unat (k mod mh_WorkerPoolSize (ps_mh y))"
  shows "(ps_workers y \<noteq> [] \<longrightarrow> i < length (ps_workers y) \<and>
       of_conn k (ps_queued y) = of_conn k (ps_finished y) @ of_conn k (busy_with (ps_workers y ! i))
         @ of_conn k (tq_buf (queue_at y i)) \<and>
       (\<forall>y'. (pool_step g)\<^sup>*\<^sup>* y y' \<longrightarrow>
          (\<exists>xs. ps_accepted y' = ps_accepted y @ xs \<and> ps_queued y' = ps_queued y @ xs))) \<and>
     (ps_workers y = [] \<longrightarrow> ps_queued y = [] \<and> mset (ps_accepted y) = mset (ps_handled y) + mset (ps_direct y))"
  using pool_lane_of_conn [OF pool.reach_inv [OF assms(1)] _ assms(2)] pool_steps_workers [OF _ pool.reach_inv [OF assms(1)]]
    pool_no_workers [OF pool.reach_inv [OF assms(1)] tally.reach_inv [OF assms(1)]] by blast

theorem worker_pool_fifo_witness:
  "of_conn 7 [demo_request] = of_conn 7 [] @ of_conn 7 (busy_with WorkerIdle) @ of_conn 7 [demo_request]"
proof -
  let ?y = "demo_pool (demo_handler False [demo_request] False) [0 \<mapsto> demo_call (Returned None)] [WorkerIdle]
     [demo_request] [] []"
  have "ps_workers ?y \<noteq> []" "0 = unat (7 mod mh_WorkerPoolSize (ps_mh ?y))"
    by (simp_all add: demo_pool_defs)
  from worker_pool_fifo [OF demo_pool_queued this(2)] this(1)
  have "of_conn 7 (ps_queued ?y) = of_conn 7 (ps_finished ?y) @ of_conn 7 (busy_with (ps_workers ?y ! 0))
      @ of_conn 7 (tq_buf (queue_at ?y 0))" by blast
  then show ?thesis by (simp add: demo_pool_def demo_handler_def)
qed

lemma pool_drained:
  assumes inv: "pool_inv y" and idle: "pool_idle y"
  shows "of_conn k (ps_finished y) = of_conn k (ps_queued y)"
proof (cases "ps_workers y = []")
  case True
  then show ?thesis using inv by (simp add: pool_inv_def lanes_ok_def)
next
  case False
  let ?i = "unat (k mod pool_size y)"
  have len: "length (ps_workers y) = unat (pool_size y)" using inv False by (simp add: pool_inv_def handler_ok_def)
  with False have "pool_size y \<noteq> 0" by auto
  then have i: "?i < length (ps_workers y)" by (simp add: len unat_mod unat_gt_0)
  then have "ps_workers y ! ?i = WorkerExited" using idle by (simp add: pool_idle_def list_all_length)
  with pool_lane [OF inv i]
  have "filter (\<lambda>r. worker_of (pool_size y) r = ?i) (ps_queued y)
      = filter (\<lambda>r. worker_of (pool_size y) r = ?i) (ps_finished y)"
    by (simp add: lane_ok_def busy_with_def)
  then show ?thesis using of_conn_lane [of k "pool_size y"] by metis
qed

lemma mset_of_conn:
  assumes "\<And>k. of_conn k xs = of_conn k ys"
  shows "mset xs = mset ys"
proof (rule multiset_eqI)
  fix r
  have "count (mset (of_conn (ic_connID (rq_conn r)) zs)) r = count (mset zs) r" for zs
    by (simp add: mset_filter)
  with assms show "count (mset xs) r = count (mset ys) r" by metis
qed

lemma pool_all_handled:
  assumes "pool_inv y" "tally_ok y" "pool_idle y"
  shows "mset (ps_handled y) = mset (ps_accepted y)"
proof -
  have "ps_direct y = []" using assms(3) by (simp add: pool_idle_def)
  with assms(2) mset_of_conn [OF pool_drained [OF assms(1,3)]] show ?thesis by (simp add: tally_ok_def)
qed

lemma pool_stopped_accepts_nothing:
  assumes "pool_inv y" "mh_stopPoolOnce (ps_mh y)" "pool_step g y y'"
  shows "ps_accepted y' = ps_accepted y"
proof -
  have "\<not> mh_workerPoolStarted (ps_mh y)" "mh_stopChan (ps_mh y)"
    using assms(1,2) by (simp_all add: pool_inv_def handler_ok_def)
  then have "ps_calls y t = Some ca \<Longrightarrow> ca_pc ca \<noteq> Selecting i" "admit r (ps_mh y) = Stopped" for t ca i r
    using assms(1) by (auto simp: pool_inv_def calls_ok_def admit_def)
  with assms(3) show ?thesis by (auto elim!: pool_step.cases)
qed

lemma pool_idle_step:
  assumes "pool_step g p p'" "pool_idle p" "mh_stopChan (ps_mh p)"
  shows "pool_idle p' \<and> ps_handled p' = ps_handled p"
  using assms(1)
proof (cases rule: pool_step.cases)
  case (start_step mh')
  then have "mh_workerPoolStarted mh' = mh_workerPoolStarted (ps_mh p)"
    using assms(3) by (auto simp: StartWorkerPool_def Let_def)
  with start_step assms(2) show ?thesis by (simp add: pool_idle_def)
qed (use assms(2,3) in \<open>auto simp: pool_idle_def admit_def list_all_length\<close>)

lemma pool_step_stopped:
  assumes "pool_step g y y'" "mh_stopPoolOnce (ps_mh y)"
  shows "mh_stopPoolOnce (ps_mh y')"
  using assms
  by (cases rule: pool_step.cases)
     (auto simp: StartWorkerPool_def beginStop_def closeQueues_def Let_def elim!: DoMsgHandler_fields)

lemma pool_idle_steps:
  assumes "(pool_step g)\<^sup>*\<^sup>* y y'" "pool_inv y" "mh_stopPoolOnce (ps_mh y)" "pool_idle y"
  shows "pool_inv y' \<and> mh_stopPoolOnce (ps_mh y') \<and> pool_idle y' \<and> ps_accepted y' = ps_accepted y \<and>
    ps_handled y' = ps_handled y"
  using assms
proof (induction rule: rtranclp_induct)
  case (step y1 y2)
  then have 1: "pool_inv y1" "mh_stopPoolOnce (ps_mh y1)" "pool_idle y1" "ps_accepted y1 = ps_accepted y"
    "ps_handled y1 = ps_handled y" by simp_all
  have "mh_stopChan (ps_mh y1)" using 1(1,2) by (simp add: pool_inv_def handler_ok_def)
  then have "pool_idle y2 \<and> ps_handled y2 = ps_handled y1" using pool_idle_step [OF step.hyps(2) 1(3)] by blast
  moreover have "mh_stopPoolOnce (ps_mh y2)" using pool_step_stopped [OF step.hyps(2) 1(2)] .
  ultimately show ?case
    using pool_inv_step [OF 1(1) step.hyps(2)] pool_stopped_accepts_nothing [OF 1(1,2) step.hyps(2)] 1(4,5) by simp
qed simp

text \<open>C9: when \<open>StopWorkerPool\<close> returns, that is when the queues were closed and the wait for the workers
  and for the goroutines of single requests has passed, every request that was ever accepted, queued or
  not, has been handled exactly once, those of each queue in the order they entered it; from then on no
  request is accepted (every call gets the error of a stopped pool) and no handler runs.\<close>
theorem stop_drains_queues:
  assumes "reach (pool_init g) (pool_step g) y" "mh_stopPoolOnce (ps_mh y)" "pool_idle y"
    and "(pool_step g)\<^sup>*\<^sup>* y y'"
  shows "mset (ps_handled y) = mset (ps_accepted y) \<and> of_conn k (ps_finished y) = of_conn k (ps_queued y) \<and>
    ps_accepted y' = ps_accepted y \<and> ps_handled y' = ps_handled y \<and> admit r (ps_mh y') = Stopped \<and>
    list_all (\<lambda>st. st = WorkerExited) (ps_workers y') \<and> ps_direct y' = []"
proof -
  note inv = pool.reach_inv [OF assms(1)]
  note later = pool_idle_steps [OF assms(4) inv assms(2,3)]
  then have "mh_stopChan (ps_mh y')" by (simp add: pool_inv_def handler_ok_def)
  then have "admit r (ps_mh y') = Stopped" by (simp add: admit_def)
  then show ?thesis
    using later pool_all_handled [OF inv tally.reach_inv [OF assms(1)] assms(3)] pool_drained [OF inv assms(3)]
    by (simp add: pool_idle_def)
qed

theorem stop_drains_queues_witness:
  "\<exists>y :: nat pool_sys. ps_accepted y = [demo_request] \<and> mset (ps_handled y) = mset (ps_accepted y) \<and>
     admit demo_request (ps_mh y) = Stopped"
proof -
  let ?y = "demo_pool (demo_handler True [] True) [0 \<mapsto> demo_call (Returned None)] [WorkerExited]
     [demo_request] [demo_request] [demo_request]"
  have "mh_stopPoolOnce (ps_mh ?y)" "pool_idle ?y"
    by (simp_all add: demo_pool_def demo_handler_def pool_idle_def)
  from stop_drains_queues [OF demo_pool_stopped this rtranclp.rtrancl_refl, of 7 demo_request] show ?thesis
    by (intro exI [of _ ?y]) (simp add: demo_pool_def)
qed

text \<open>a call never sends to a closed queue: whenever it waits at a queue, the queue exists, is open and
  has a worker, so \<open>StopWorkerPool\<close> cannot make a reader panic; and once the stop signal is given the
  call can always return.\<close>
theorem no_send_on_closed_queue:
  assumes "reach (pool_init g) (pool_step g) y" "ps_calls y t = Some ca" "ca_pc ca = Selecting i"
  shows "i < length (mh_TaskQueue (ps_mh y)) \<and> i < length (ps_workers y) \<and> \<not> tq_closed (queue_at y i) \<and>
    (mh_stopChan (ps_mh y) \<longrightarrow>
      (\<exists>ch err q. offerTask g ch (ps_workers y ! i = WorkerIdle) (ca_ctxErr ca) (ca_request ca) (queue_at y i) (ps_mh y)
         = Some (err, q)))"
proof -
  have inv: "pool_inv y" using pool.reach_inv [OF assms(1)] .
  have run: "mh_workerPoolStarted (ps_mh y)" and i: "worker_of (pool_size y) (ca_request ca) = i"
    using inv assms(2,3) by (auto simp: pool_inv_def calls_ok_def)
  have ok: "pool_size y \<noteq> 0" "length (mh_TaskQueue (ps_mh y)) = unat (pool_size y)"
    "length (ps_workers y) = unat (pool_size y)" "set (map tq_closed (mh_TaskQueue (ps_mh y))) \<subseteq> {False}"
    using inv run by (auto simp: pool_inv_def handler_ok_def)
  have less: "i < unat (pool_size y)" using worker_of_less [OF ok(1)] i by blast
  then have opened: "\<not> tq_closed (queue_at y i)"
    using ok(2,4) by (metis (no_types) imageI list.set_map nth_mem singletonD subsetD)
  let ?off = "\<lambda>ch. offerTask g ch (ps_workers y ! i = WorkerIdle) (ca_ctxErr ca) (ca_request ca) (queue_at y i) (ps_mh y)"
  have "mh_stopChan (ps_mh y) \<Longrightarrow> ?off CaseQueue \<noteq> None \<or> ?off CaseStop \<noteq> None"
    using opened by (auto simp: offerTask_def Let_def)
  then have "mh_stopChan (ps_mh y) \<Longrightarrow> \<exists>ch err q. ?off ch = Some (err, q)" by fast
  then show ?thesis using less ok opened by simp
qed

theorem no_send_on_closed_queue_witness:
  "\<exists>y :: nat pool_sys. ps_calls y 0 = Some (demo_call (Selecting 0)) \<and> \<not> tq_closed (queue_at y 0)"
proof -
  let ?y = "demo_pool (demo_handler False [] False) [0 \<mapsto> demo_call (Selecting 0)] [WorkerIdle] [] [] []"
  have "ps_calls ?y 0 = Some (demo_call (Selecting 0))" "ca_pc (demo_call (Selecting 0)) = Selecting 0"
    by (simp_all add: demo_pool_def demo_call_def)
  from no_send_on_closed_queue [OF demo_pool_waiting this] this(1) show ?thesis by blast
qed

text \<open>a panic of a router stays inside \<open>DoMsgHandler\<close>: it is counted once, the functions after the one
  that panicked do not run, and without a panic handler (or with one that does not panic) the worker
  goes on; a request without a panic leaves the counter alone.\<close>
theorem router_panic_contained:
  assumes "mh_Apis mh (RequestMsgID r) = Some router"
    and "\<And>h q p s. mh_panicHandler mh = Some h \<Longrightarrow> fst (h q p s) = None"
  shows "(\<forall>s1 p s2. PreHandle router r s = (None, s1) \<and> Handle router r s1 = (Some p, s2) \<and> mh_panicHandler mh = None \<longrightarrow>
       DoMsgHandler (Some r) mh s = (None, mh\<lparr>mh_metrics := IncRouterPanics (mh_metrics mh)\<rparr>, s2)) \<and>
    (\<forall>s1 s2 s3. PreHandle router r s = (None, s1) \<and> Handle router r s1 = (None, s2) \<and> PostHandle router r s2 = (None, s3) \<longrightarrow>
       DoMsgHandler (Some r) mh s = (None, mh, s3)) \<and>
    fst (DoMsgHandler (Some r) mh s) = None"
  using assms
  by (auto simp: DoMsgHandler_def Let_def split: option.splits prod.splits) (metis fst_conv option.distinct(1))+


theorem router_panic_contained_witness:
  "DoMsgHandler (Some demo_request)
     (demo_handler False [] False\<lparr>mh_Apis := [9 \<mapsto> BaseRouter\<lparr>Handle := (\<lambda>r s. (Some ''boom'', s + 1))\<rparr>]\<rparr>) 5
   = (None, demo_handler False [] False\<lparr>mh_Apis := [9 \<mapsto> BaseRouter\<lparr>Handle := (\<lambda>r s. (Some ''boom'', s + 1))\<rparr>],
       mh_metrics := None\<rparr>, 6)"
proof -
  let ?router = "BaseRouter\<lparr>Handle := (\<lambda>r s. (Some ''boom'', s + 1))\<rparr> :: nat IRouter"
  let ?mh = "demo_handler False [] False\<lparr>mh_Apis := [9 \<mapsto> ?router]\<rparr>"
  have none: "mh_panicHandler ?mh = None" "mh_metrics ?mh = None"
    by (simp_all add: demo_handler_def newMsgHandle_def Let_def)
  have "mh_Apis ?mh (RequestMsgID demo_request) = Some ?router"
    by (simp add: RequestMsgID_def demo_request_def message_defs)
  moreover have "mh_panicHandler ?mh = Some h \<Longrightarrow> fst (h q p s) = None" for h q p s
    using none(1) by simp
  ultimately show ?thesis
    using router_panic_contained [of ?mh demo_request ?router 5] none
    by (simp add: BaseRouter_def IncRouterPanics_def)
qed

end
