(* ===== verification/Server.thy ===== *)
theory Server
  imports ConnManager MsgHandle StepSystem
begin

text \<open>
  The server of \<open>gnet/server.go\<close>: starting, accepting connections, the life of one connection between
  its hooks, and shutting down. The goroutines of the code are program counters in the state of the
  system: the accept loop, one \<open>startConnection\<close> per connection, and \<open>shutdown\<close>; the worker pool
  is the system of theory \<open>MsgHandle\<close>. One step is one access to state that other goroutines see.
\<close>

section \<open>The server\<close>

text \<open>A hook is application code on the application state, which it shares with the routers.\<close>

type_synonym 's hookFun = "iconn \<Rightarrow> 's \<Rightarrow> 's"

text \<open>
  \<open>srv_listener\<close> is the address of the listener, \<open>srv_stopChan\<close> and \<open>srv_shutdownDone\<close> tell whether the
  channel was closed, the fields \<open>\<dots>Once\<close> whether the function of the \<open>sync.Once\<close> has run, and
  \<open>srv_connWait\<close> is the counter of the wait group. The message handler comes with its goroutines.
\<close>

record 's Server =
  srv_Name :: string
  srv_IPVersion :: string
  srv_IP :: string
  srv_Port :: int
  srv_config :: "Config option"
  srv_msgHandler :: "'s pool_sys"
  srv_connMgr :: ConnManager
  srv_listener :: "string option"
  srv_startOnce :: bool
  srv_startErr :: "go_error option"
  srv_stopOnce :: bool
  srv_stopChan :: bool
  srv_stopped :: bool
  srv_connWait :: nat
  srv_shutdownOnce :: bool
  srv_shutdownDone :: bool
  srv_onConnStart :: "'s hookFun option"
  srv_onConnStop :: "'s hookFun option"
  srv_metrics :: "Metrics option"

definition ErrClosed :: go_error where
  "ErrClosed = Err ''use of closed network connection''"

definition newServer :: "Config \<Rightarrow> Config option \<Rightarrow> 's \<Rightarrow> 's Server" where
  "newServer g config app =
     (let settings = effectiveConfig g config;
          serverMetrics = Some zeroMetrics;
          messageHandler = SetMetrics serverMetrics (newMsgHandle g config)
      in \<lparr> srv_Name = Name settings, srv_IPVersion = ''tcp4'', srv_IP = Host settings, srv_Port = TcpPort settings,
           srv_config = config,
           srv_msgHandler = \<lparr> ps_mh = messageHandler, ps_calls = Map.empty, ps_workers = [], ps_direct = [],
             ps_app = app, ps_accepted = [], ps_handled = [], ps_queued = [], ps_begun = [], ps_finished = [] \<rparr>,
           srv_connMgr = newConnManager config, srv_listener = None, srv_startOnce = False, srv_startErr = None,
           srv_stopOnce = False, srv_stopChan = False, srv_stopped = False, srv_connWait = 0,
           srv_shutdownOnce = False, srv_shutdownDone = False, srv_onConnStart = None, srv_onConnStop = None,
           srv_metrics = serverMetrics \<rparr>)"

definition NewServerWithConfig :: "Config \<Rightarrow> Config \<Rightarrow> 's \<Rightarrow> 's Server" where
  "NewServerWithConfig g config app = newServer g (Some config) app"

text \<open>The old constructor reloads the global configuration, which panics on a malformed file.\<close>

definition NewServer ::
  "(string \<Rightarrow> bytes res) \<Rightarrow> (bytes \<Rightarrow> Config \<Rightarrow> Config \<times> go_error option) \<Rightarrow> Config \<Rightarrow> 's \<Rightarrow> ('s Server \<times> Config) res" where
  "NewServer fs unmarshal g app =
     (case Reload fs unmarshal g of
        (g', Some err) \<Rightarrow> Inl err
      | (g', None) \<Rightarrow> Inr (newServer g' None app, g'))"

definition ServerAddRouter :: "u32 \<Rightarrow> 's IRouter \<Rightarrow> 's Server \<Rightarrow> 's Server res" where
  "ServerAddRouter msgId router s =
     (case AddRouter msgId router (ps_mh (srv_msgHandler s)) of
        Inl err \<Rightarrow> Inl err
      | Inr mh \<Rightarrow> Inr (s\<lparr>srv_msgHandler := (srv_msgHandler s)\<lparr>ps_mh := mh\<rparr>\<rparr>))"

definition SetOnConnStart :: "'s hookFun option \<Rightarrow> 's Server \<Rightarrow> 's Server" where
  "SetOnConnStart hookFunc s = s\<lparr>srv_onConnStart := hookFunc\<rparr>"

definition SetOnConnStop :: "'s hookFun option \<Rightarrow> 's Server \<Rightarrow> 's Server" where
  "SetOnConnStop hookFunc s = s\<lparr>srv_onConnStop := hookFunc\<rparr>"

definition GetConnMgr :: "'s Server \<Rightarrow> ConnManager" where
  "GetConnMgr s = srv_connMgr s"

definition GetMetrics :: "'s Server option \<Rightarrow> Snapshot" where
  "GetMetrics s = (case s of None \<Rightarrow> TakeSnapshot None | Some s \<Rightarrow> TakeSnapshot (srv_metrics s))"

definition Addr :: "'s Server \<Rightarrow> string option" where
  "Addr s = srv_listener s"

definition signalStop :: "'s Server \<Rightarrow> 's Server" where
  "signalStop s = (if srv_stopOnce s then s else s\<lparr>srv_stopOnce := True, srv_stopped := True, srv_stopChan := True\<rparr>)"

section \<open>The goroutines\<close>

text \<open>
  The accept loop waits in \<open>AcceptTCP\<close>, has got a socket, or has built the connection it is about to
  register.
\<close>

datatype accept_pc = AcceptNone | AcceptWait | AcceptGot socket | AcceptNew iconn | AcceptDone

text \<open>The next access of \<open>startConnection\<close>; \<open>tk_io\<close> counts the connection's reader and writer.\<close>

datatype task_pc = TaskWriter | TaskStartHook | TaskReader | TaskWait | TaskStopHook | TaskRemove | TaskGauge
  | TaskLeave | TaskDone

record task =
  tk_conn :: iconn
  tk_pc :: task_pc
  tk_io :: nat

datatype shutdown_pc = ShutNone | ShutSignalled | ShutTake | ShutClose "string option" | ShutClear
  | ShutStopping "iconn list" | ShutWait | ShutPool | ShutDrain | ShutDone

text \<open>For the statements only: the calls of the hooks (and whether one was set) and the starts of readers.\<close>

datatype conn_event = StartHook nat bool | ReaderStarted nat | StopHook nat bool

record ('s, 'p) server_sys =
  sy_server :: "'s Server"
  sy_conns :: "'p conn_store"
  sy_next :: nat
  sy_cid :: u32
  sy_listening :: bool
  sy_accept :: accept_pc
  sy_tasks :: "task list"
  sy_shutdown :: shutdown_pc
  sy_log :: "conn_event list"

definition on_server :: "('s Server \<Rightarrow> 's Server) \<Rightarrow> ('s, 'p) server_sys \<Rightarrow> ('s, 'p) server_sys" where
  "on_server f y = y\<lparr>sy_server := f (sy_server y)\<rparr>"

section \<open>Starting\<close>

text \<open>\<open>StartWorkerPool\<close> with the goroutines it starts.\<close>

definition startPool :: "Config \<Rightarrow> 's pool_sys \<Rightarrow> 's pool_sys" where
  "startPool g p =
     (let mh' = StartWorkerPool g (ps_mh p)
      in p\<lparr>ps_mh := mh',
           ps_workers := (if mh_workerPoolStarted mh' \<and> \<not> mh_workerPoolStarted (ps_mh p)
                          then replicate (unat (mh_WorkerPoolSize mh')) WorkerIdle else ps_workers p)\<rparr>)"

text \<open>
  The function of \<open>startOnce\<close>; \<open>resolve\<close> and \<open>listen\<close> are the outcomes of \<open>net.ResolveTCPAddr\<close> and
  \<open>net.ListenTCP\<close>.
\<close>

definition startBody ::
  "Config \<Rightarrow> go_error option \<Rightarrow> string res \<Rightarrow> ('s, 'p) server_sys \<Rightarrow> ('s, 'p) server_sys" where
  "startBody g resolve listen y =
     (if srv_stopped (sy_server y) then on_server (\<lambda>s. s\<lparr>srv_startErr := Some ErrClosed\<rparr>) y
      else (case (case resolve of Some err \<Rightarrow> Inl err | None \<Rightarrow> listen) of
              Inl err \<Rightarrow> on_server (\<lambda>s. signalStop (s\<lparr>srv_startErr := Some err\<rparr>)) y
            | Inr address \<Rightarrow>
                (on_server (\<lambda>s. s\<lparr>srv_listener := Some address, srv_msgHandler := startPool g (srv_msgHandler s),
                                  srv_connWait := srv_connWait s + 1\<rparr>) y)
                  \<lparr>sy_listening := True, sy_accept := AcceptWait\<rparr>))"

definition StartWithError ::
  "Config \<Rightarrow> go_error option \<Rightarrow> string res \<Rightarrow> ('s, 'p) server_sys \<Rightarrow> go_error option \<times> ('s, 'p) server_sys" where
  "StartWithError g resolve listen y =
     (let y' = (if srv_startOnce (sy_server y) then y
                else startBody g resolve listen (on_server (\<lambda>s. s\<lparr>srv_startOnce := True\<rparr>) y));
          s = sy_server y'
      in (if srv_startErr s \<noteq> None then srv_startErr s else if srv_stopped s then Some ErrClosed else None, y'))"

text \<open>\<open>Start\<close> only prints the error.\<close>

definition ServerStart :: "Config \<Rightarrow> go_error option \<Rightarrow> string res \<Rightarrow> ('s, 'p) server_sys \<Rightarrow> ('s, 'p) server_sys" where
  "ServerStart g resolve listen y = snd (StartWithError g resolve listen y)"

text \<open>\<open>Serve\<close> starts the server and returns when \<open>stopChan\<close> is closed; the second component
  tells whether it has returned at once.\<close>

definition Serve :: "Config \<Rightarrow> go_error option \<Rightarrow> string res \<Rightarrow> ('s, 'p) server_sys \<Rightarrow> ('s, 'p) server_sys \<times> bool" where
  "Serve g resolve listen y = (let y' = ServerStart g resolve listen y in (y', srv_stopChan (sy_server y')))"

section \<open>Accepting\<close>

datatype accept_result = Accepted socket | AcceptError

definition acceptExit :: "('s, 'p) server_sys \<Rightarrow> ('s, 'p) server_sys" where
  "acceptExit y = (on_server (\<lambda>s. s\<lparr>srv_connWait := srv_connWait s - 1\<rparr>) y)\<lparr>sy_accept := AcceptDone\<rparr>"

text \<open>\<open>conn.Close()\<close> on the socket of a connection that is not registered.\<close>

definition closeSocket :: "iconn \<Rightarrow> 'p conn_store \<Rightarrow> 'p conn_store" where
  "closeSocket i w =
     (case conn_at w i of None \<Rightarrow> w | Some c \<Rightarrow> w(ic_ref i \<mapsto> c\<lparr>cn_Conn := (cn_Conn c)\<lparr>sk_closed := True\<rparr>\<rparr>))"

text \<open>
  One step of \<open>startAccept\<close>: \<open>result\<close> is what \<open>AcceptTCP\<close> returns, which yields a connection only while
  the listener is open; \<open>rnd\<close> and \<open>now\<close> go into the rate limiter of the new connection. The last step
  runs under \<open>listenerLock\<close>.
\<close>

definition acceptStep ::
  "Config \<Rightarrow> (real \<Rightarrow> real) \<Rightarrow> gotime \<Rightarrow> accept_result \<Rightarrow> ('s, 'p) server_sys \<Rightarrow> ('s, 'p) server_sys option" where
  "acceptStep g rnd now result y =
     (case sy_accept y of
        AcceptWait \<Rightarrow>
          (case result of
             AcceptError \<Rightarrow> if srv_stopped (sy_server y) then Some (acceptExit y) else Some y
           | Accepted conn \<Rightarrow> if sy_listening y then Some (y\<lparr>sy_accept := AcceptGot conn\<rparr>) else None)
      | AcceptGot conn \<Rightarrow>
          if srv_stopped (sy_server y) then Some (acceptExit y)
          else
            (let connection = setMetrics (srv_metrics (sy_server y))
                   (newConnection g rnd now conn (sy_cid y) (srv_config (sy_server y)))
             in Some (y\<lparr>sy_conns := (sy_conns y)(sy_next y \<mapsto> connection), sy_next := sy_next y + 1,
                        sy_cid := sy_cid y + 1,
                        sy_accept := AcceptNew \<lparr> ic_ref = sy_next y, ic_connID = sy_cid y \<rparr>\<rparr>))
      | AcceptNew connection \<Rightarrow>
          if srv_stopped (sy_server y)
          then Some (acceptExit (y\<lparr>sy_conns := closeSocket connection (sy_conns y)\<rparr>))
          else
            (case Add g (Some connection) (srv_connMgr (sy_server y)) of
               (Some err, cm) \<Rightarrow>
                 Some (y\<lparr>sy_conns := closeSocket connection (sy_conns y), sy_accept := AcceptWait\<rparr>)
             | (None, cm) \<Rightarrow>
                 Some ((on_server (\<lambda>s. s\<lparr>srv_connMgr := cm, srv_metrics := AddConnections 1 (srv_metrics s),
                                        srv_connWait := srv_connWait s + 1\<rparr>) y)
                   \<lparr>sy_accept := AcceptWait,
                    sy_tasks := sy_tasks y @ [\<lparr> tk_conn = connection, tk_pc = TaskWriter, tk_io = 0 \<rparr>]\<rparr>))
      | _ \<Rightarrow> None)"

section \<open>The life of a connection\<close>

definition runHook :: "'s hookFun option \<Rightarrow> iconn \<Rightarrow> 's Server \<Rightarrow> 's Server" where
  "runHook hook i s =
     (case hook of
        None \<Rightarrow> s
      | Some h \<Rightarrow> s\<lparr>srv_msgHandler := (srv_msgHandler s)\<lparr>ps_app := h i (ps_app (srv_msgHandler s))\<rparr>\<rparr>)"

definition stoppedConn :: "'p conn_store \<Rightarrow> iconn \<Rightarrow> bool" where
  "stoppedConn w i = (case conn_at w i of None \<Rightarrow> False | Some c \<Rightarrow> cn_isClosed c)"

definition setTask :: "nat \<Rightarrow> task \<Rightarrow> ('s, 'p) server_sys \<Rightarrow> ('s, 'p) server_sys" where
  "setTask n t y = y\<lparr>sy_tasks := (sy_tasks y)[n := t]\<rparr>"

text \<open>
  One step of \<open>startConnection\<close> for the task with number \<open>n\<close>. \<open>wait\<close> passes when the connection was
  stopped and its reader and writer have returned.
\<close>

definition startConnectionStep :: "nat \<Rightarrow> ('s, 'p) server_sys \<Rightarrow> ('s, 'p) server_sys option" where
  "startConnectionStep n y =
     (let t = sy_tasks y ! n; connection = tk_conn t; s = sy_server y
      in case tk_pc t of
           TaskWriter \<Rightarrow>
             Some (setTask n (t\<lparr>tk_pc := TaskStartHook, tk_io := tk_io t + 1\<rparr>)
               (y\<lparr>sy_conns := (sy_conns y)(ic_ref connection := map_option startWriter (conn_at (sy_conns y) connection))\<rparr>))
         | TaskStartHook \<Rightarrow>
             Some (setTask n (t\<lparr>tk_pc := TaskReader\<rparr>)
               (on_server (runHook (srv_onConnStart s) connection) (y\<lparr>sy_log := sy_log y @ [StartHook n (srv_onConnStart s \<noteq> None)]\<rparr>)))
         | TaskReader \<Rightarrow>
             Some (setTask n (t\<lparr>tk_pc := TaskWait, tk_io := tk_io t + 1\<rparr>) (y\<lparr>sy_log := sy_log y @ [ReaderStarted n]\<rparr>))
         | TaskWait \<Rightarrow>
             if stoppedConn (sy_conns y) connection \<and> tk_io t = 0
             then Some (setTask n (t\<lparr>tk_pc := TaskStopHook\<rparr>) y) else None
         | TaskStopHook \<Rightarrow>
             Some (setTask n (t\<lparr>tk_pc := TaskRemove\<rparr>)
               (on_server (runHook (srv_onConnStop s) connection) (y\<lparr>sy_log := sy_log y @ [StopHook n (srv_onConnStop s \<noteq> None)]\<rparr>)))
         | TaskRemove \<Rightarrow>
             Some (setTask n (t\<lparr>tk_pc := TaskGauge\<rparr>)
               (on_server (\<lambda>s. s\<lparr>srv_connMgr := Remove (ic_connID connection) (srv_connMgr s)\<rparr>) y))
         | TaskGauge \<Rightarrow>
             Some (setTask n (t\<lparr>tk_pc := TaskLeave\<rparr>)
               (on_server (\<lambda>s. s\<lparr>srv_metrics := AddConnections (- 1) (srv_metrics s)\<rparr>) y))
         | TaskLeave \<Rightarrow>
             Some (setTask n (t\<lparr>tk_pc := TaskDone\<rparr>) (on_server (\<lambda>s. s\<lparr>srv_connWait := srv_connWait s - 1\<rparr>) y))
         | TaskDone \<Rightarrow> None)"

text \<open>The reader or the writer of a connection returns, with its deferred \<open>Stop\<close> and \<open>Done\<close>.\<close>

definition ioReturn :: "nat \<Rightarrow> ('s, 'p) server_sys \<Rightarrow> ('s, 'p) server_sys" where
  "ioReturn n y =
     (let t = sy_tasks y ! n
      in setTask n (t\<lparr>tk_io := tk_io t - 1\<rparr>) (y\<lparr>sy_conns := storeStop (tk_conn t) (sy_conns y)\<rparr>))"

section \<open>Shutting down\<close>

text \<open>
  The function of \<open>shutdownOnce\<close> up to \<open>signalStop\<close>; \<open>beginStop\<close> and the goroutine \<open>shutdown\<close> follow as
  steps.
\<close>

definition ShutdownOnce :: "('s, 'p) server_sys \<Rightarrow> ('s, 'p) server_sys" where
  "ShutdownOnce y =
     (if srv_shutdownOnce (sy_server y) then y
      else (on_server (\<lambda>s. signalStop (s\<lparr>srv_shutdownOnce := True\<rparr>)) y)\<lparr>sy_shutdown := ShutSignalled\<rparr>)"

text \<open>
  What a call of \<open>Shutdown\<close> then returns: nil when the shutdown is complete, else the error of its
  context; \<open>None\<close> while it waits.
\<close>

definition ShutdownReturns :: "go_error option \<Rightarrow> 's Server \<Rightarrow> go_error option option" where
  "ShutdownReturns ctxErr s =
     (if srv_shutdownDone s then Some None
      else (case ctxErr of Some err \<Rightarrow> Some (Some err) | None \<Rightarrow> None))"

text \<open>\<open>Stop\<close> is \<open>Shutdown\<close> with a context that never ends; it returns when the shutdown is complete.\<close>

definition ServerStop :: "('s, 'p) server_sys \<Rightarrow> ('s, 'p) server_sys \<times> go_error option option" where
  "ServerStop y = (let y' = ShutdownOnce y in (y', ShutdownReturns None (sy_server y')))"

definition on_handler :: "('s MsgHandle \<Rightarrow> 's MsgHandle) \<Rightarrow> 's Server \<Rightarrow> 's Server" where
  "on_handler f s = s\<lparr>srv_msgHandler := (srv_msgHandler s)\<lparr>ps_mh := f (ps_mh (srv_msgHandler s))\<rparr>\<rparr>"

text \<open>
  One step of \<open>shutdown\<close>; \<open>ks\<close> is the order in which \<open>ClearConn\<close> visits its map. The connections
  are stopped one after the other once the map was emptied.
\<close>

definition shutdownStep :: "u32 list \<Rightarrow> ('s, 'p) server_sys \<Rightarrow> ('s, 'p) server_sys option" where
  "shutdownStep ks y =
     (let s = sy_server y; p = srv_msgHandler s
      in case sy_shutdown y of
           ShutSignalled \<Rightarrow> Some ((on_server (on_handler beginStop) y)\<lparr>sy_shutdown := ShutTake\<rparr>)
         | ShutTake \<Rightarrow>
             Some ((on_server (\<lambda>s. s\<lparr>srv_listener := None\<rparr>) y)\<lparr>sy_shutdown := ShutClose (srv_listener s)\<rparr>)
         | ShutClose listener \<Rightarrow>
             Some (y\<lparr>sy_listening := (if listener \<noteq> None then False else sy_listening y), sy_shutdown := ShutClear\<rparr>)
         | ShutClear \<Rightarrow>
             Some ((on_server (\<lambda>s. s\<lparr>srv_connMgr := fst (ClearConn ks (srv_connMgr s) (sy_conns y))\<rparr>) y)
               \<lparr>sy_shutdown := ShutStopping (map (\<lambda>k. the (cm_connections (srv_connMgr s) k)) ks)\<rparr>)
         | ShutStopping [] \<Rightarrow> Some (y\<lparr>sy_shutdown := ShutWait\<rparr>)
         | ShutStopping (conn # conns) \<Rightarrow>
             Some (y\<lparr>sy_conns := storeStop conn (sy_conns y), sy_shutdown := ShutStopping conns\<rparr>)
         | ShutWait \<Rightarrow> if srv_connWait s = 0 then Some (y\<lparr>sy_shutdown := ShutPool\<rparr>) else None
         | ShutPool \<Rightarrow>
             Some ((on_server (on_handler (\<lambda>mh. closeQueues (beginStop mh))) y)\<lparr>sy_shutdown := ShutDrain\<rparr>)
         | ShutDrain \<Rightarrow>
             if pool_idle p
             then Some ((on_server (\<lambda>s. s\<lparr>srv_shutdownDone := True\<rparr>) y)\<lparr>sy_shutdown := ShutDone\<rparr>) else None
         | _ \<Rightarrow> None)"

section \<open>The system\<close>

text \<open>A step of the pool that neither starts nor stops it: those are the server's.\<close>

definition same_control :: "'s MsgHandle \<Rightarrow> 's MsgHandle \<Rightarrow> bool" where
  "same_control mh mh' \<longleftrightarrow> mh_workerPoolOnce mh' = mh_workerPoolOnce mh \<and> mh_stopChan mh' = mh_stopChan mh \<and>
     mh_stopPoolOnce mh' = mh_stopPoolOnce mh"

text \<open>
  \<open>activity\<close> is whatever the application, the routers, the readers and the writers do with a connection:
  it never reopens. The two locks of the handler are free when the server takes them.
\<close>

inductive server_step :: "Config \<Rightarrow> ('s, 'p) server_sys \<Rightarrow> ('s, 'p) server_sys \<Rightarrow> bool" for g :: Config where
  start: "StartWithError g resolve listen y = (err, y') \<Longrightarrow>
     (\<not> srv_startOnce (sy_server y) \<Longrightarrow> lock_free (srv_msgHandler (sy_server y))) \<Longrightarrow> server_step g y y'"
| accept: "acceptStep g rnd now result y = Some y' \<Longrightarrow> server_step g y y'"
| task: "n < length (sy_tasks y) \<Longrightarrow> startConnectionStep n y = Some y' \<Longrightarrow> server_step g y y'"
| io: "n < length (sy_tasks y) \<Longrightarrow> 0 < tk_io (sy_tasks y ! n) \<Longrightarrow> server_step g y (ioReturn n y)"
| shutdown_call: "server_step g y (ShutdownOnce y)"
| shutdown: "map_order (cm_connections (srv_connMgr (sy_server y))) ks \<Longrightarrow>
     (sy_shutdown y = ShutPool \<Longrightarrow> lock_free (srv_msgHandler (sy_server y))) \<Longrightarrow>
     shutdownStep ks y = Some y' \<Longrightarrow> server_step g y y'"
| activity: "sy_conns y r = Some c \<Longrightarrow> (cn_isClosed c \<Longrightarrow> cn_isClosed c') \<Longrightarrow>
     server_step g y (y\<lparr>sy_conns := (sy_conns y)(r \<mapsto> c')\<rparr>)"
| pool: "pool_step g (srv_msgHandler (sy_server y)) p \<Longrightarrow> same_control (ps_mh (srv_msgHandler (sy_server y))) (ps_mh p) \<Longrightarrow>
     server_step g y (on_server (\<lambda>s. s\<lparr>srv_msgHandler := p\<rparr>) y)"
| hooks: "server_step g y (on_server (\<lambda>s. SetOnConnStop h' (SetOnConnStart h s)) y)"

text \<open>A server as it is before it is started: created and given its routers and hooks.\<close>

inductive configured :: "Config \<Rightarrow> 's Server \<Rightarrow> bool" for g :: Config where
  new: "configured g (newServer g config app)"
| router: "configured g s \<Longrightarrow> ServerAddRouter msgId router s = Inr s' \<Longrightarrow> configured g s'"
| start_hook: "configured g s \<Longrightarrow> configured g (SetOnConnStart h s)"
| stop_hook: "configured g s \<Longrightarrow> configured g (SetOnConnStop h s)"

definition server_init :: "Config \<Rightarrow> ('s, 'p) server_sys \<Rightarrow> bool" where
  "server_init g y \<longleftrightarrow> configured g (sy_server y) \<and> sy_next y = 0 \<and> sy_conns y = Map.empty \<and> sy_cid y = 0 \<and>
     \<not> sy_listening y \<and> sy_accept y = AcceptNone \<and> sy_tasks y = [] \<and> sy_shutdown y = ShutNone \<and> sy_log y = []"

section \<open>Counting and cases\<close>

lemma filter_update_length:
  assumes "n < length xs"
  shows "length (filter P (xs[n := x])) + (if P (xs ! n) then 1 else 0) = length (filter P xs) + (if P x then 1 else 0)"
  using assms
proof (induction xs arbitrary: n)
  case (Cons a xs)
  then show ?case by (cases n) auto
qed simp

lemma acceptStep_cases:
  assumes "acceptStep g rnd now result y = Some y'"
  obtains (idle) "y' = y"
  | (exit) w where "sy_accept y \<noteq> AcceptNone" "sy_accept y \<noteq> AcceptDone" "srv_stopped (sy_server y)"
      "w = sy_conns y \<or> (\<exists>i. w = closeSocket i (sy_conns y))" "y' = acceptExit (y\<lparr>sy_conns := w\<rparr>)"
  | (got) conn where "sy_accept y = AcceptWait" "sy_listening y" "y' = y\<lparr>sy_accept := AcceptGot conn\<rparr>"
  | (built) conn c where "sy_accept y = AcceptGot conn" "\<not> srv_stopped (sy_server y)"
      "c = setMetrics (srv_metrics (sy_server y)) (newConnection g rnd now conn (sy_cid y) (srv_config (sy_server y)))"
      "y' = y\<lparr>sy_conns := (sy_conns y)(sy_next y \<mapsto> c), sy_next := sy_next y + 1, sy_cid := sy_cid y + 1,
              sy_accept := AcceptNew \<lparr> ic_ref = sy_next y, ic_connID = sy_cid y \<rparr>\<rparr>"
  | (refused) i where "sy_accept y = AcceptNew i" "\<not> srv_stopped (sy_server y)"
      "y' = y\<lparr>sy_conns := closeSocket i (sy_conns y), sy_accept := AcceptWait\<rparr>"
  | (registered) i cm where "sy_accept y = AcceptNew i" "\<not> srv_stopped (sy_server y)"
      "Add g (Some i) (srv_connMgr (sy_server y)) = (None, cm)"
      "y' = (on_server (\<lambda>s. s\<lparr>srv_connMgr := cm, srv_metrics := AddConnections 1 (srv_metrics s),
               srv_connWait := srv_connWait s + 1\<rparr>) y)
             \<lparr>sy_accept := AcceptWait, sy_tasks := sy_tasks y @ [\<lparr> tk_conn = i, tk_pc = TaskWriter, tk_io = 0 \<rparr>]\<rparr>"
proof (cases "sy_accept y")
  case AcceptWait
  show ?thesis
  proof (cases result)
    case AcceptError
    with assms AcceptWait have "y' = (if srv_stopped (sy_server y) then acceptExit (y\<lparr>sy_conns := sy_conns y\<rparr>) else y)"
      by (auto simp: acceptStep_def)
    with idle exit [of "sy_conns y"] AcceptWait show ?thesis by (auto split: if_splits)
  qed (use assms AcceptWait got in \<open>auto simp: acceptStep_def split: if_splits\<close>)
next
  case (AcceptGot conn)
  with assms have "y' = acceptExit (y\<lparr>sy_conns := sy_conns y\<rparr>)" if "srv_stopped (sy_server y)"
    using that by (auto simp: acceptStep_def)
  with assms AcceptGot exit [of "sy_conns y"] built show ?thesis
    by (cases "srv_stopped (sy_server y)") (auto simp: acceptStep_def Let_def)
next
  case (AcceptNew i)
  obtain r cm where add: "Add g (Some i) (srv_connMgr (sy_server y)) = (r, cm)" by fastforce
  with assms AcceptNew show ?thesis
    by (cases "srv_stopped (sy_server y)"; cases r)
      (auto simp: acceptStep_def intro: exit [of "closeSocket i (sy_conns y)"] refused [of i] registered [of i cm])
qed (use assms in \<open>simp_all add: acceptStep_def\<close>)

lemma on_server_fields [simp]:
  "sy_server (on_server f y) = f (sy_server y)" "sy_conns (on_server f y) = sy_conns y" "sy_next (on_server f y) = sy_next y"
  "sy_cid (on_server f y) = sy_cid y" "sy_listening (on_server f y) = sy_listening y" "sy_accept (on_server f y) = sy_accept y"
  "sy_tasks (on_server f y) = sy_tasks y" "sy_shutdown (on_server f y) = sy_shutdown y" "sy_log (on_server f y) = sy_log y"
  by (simp_all add: on_server_def)

lemma StartWithError_cases:
  assumes "StartWithError g resolve listen y = (err, y')"
  obtains (again) "srv_startOnce (sy_server y)" "y' = y"
  | (refused) "\<not> srv_startOnce (sy_server y)" "srv_stopped (sy_server y)" "err = Some ErrClosed"
      "y' = on_server (\<lambda>s. s\<lparr>srv_startOnce := True, srv_startErr := Some ErrClosed\<rparr>) y"
  | (failed) e where "\<not> srv_startOnce (sy_server y)" "\<not> srv_stopped (sy_server y)" "err = Some e"
      "y' = on_server (\<lambda>s. signalStop (s\<lparr>srv_startOnce := True, srv_startErr := Some e\<rparr>)) y"
  | (started) address where "\<not> srv_startOnce (sy_server y)" "\<not> srv_stopped (sy_server y)"
      "y' = (on_server (\<lambda>s. s\<lparr>srv_startOnce := True, srv_listener := Some address,
               srv_msgHandler := startPool g (srv_msgHandler s), srv_connWait := srv_connWait s + 1\<rparr>) y)
             \<lparr>sy_listening := True, sy_accept := AcceptWait\<rparr>"
proof (cases "srv_startOnce (sy_server y)")
  case True
  show ?thesis by (rule again) (use assms True in \<open>simp_all add: StartWithError_def Let_def\<close>)
next
  case False
  have two: "on_server f (on_server h y) = on_server (\<lambda>s. f (h s)) y" for f h by (simp add: on_server_def)
  have run: "y' = startBody g resolve listen (on_server (\<lambda>s. s\<lparr>srv_startOnce := True\<rparr>) y)"
    "err = (if srv_startErr (sy_server y') \<noteq> None then srv_startErr (sy_server y')
            else if srv_stopped (sy_server y') then Some ErrClosed else None)"
    using assms False by (auto simp: StartWithError_def Let_def)
  show ?thesis
  proof (cases "srv_stopped (sy_server y)")
    case True
    then have "y' = on_server (\<lambda>s. s\<lparr>srv_startOnce := True, srv_startErr := Some ErrClosed\<rparr>) y"
      unfolding run(1) by (simp add: startBody_def two)
    with False True run(2) show ?thesis by (intro refused) simp_all
  next
    case running: False
    show ?thesis
    proof (cases "case resolve of Some err \<Rightarrow> Inl err | None \<Rightarrow> listen")
      case (Inl e)
      with running have "y' = on_server (\<lambda>s. signalStop (s\<lparr>srv_startOnce := True, srv_startErr := Some e\<rparr>)) y"
        unfolding run(1) by (simp add: startBody_def two)
      with False running run(2) show ?thesis by (intro failed [of e]) (simp_all add: signalStop_def)
    next
      case (Inr address)
      with running show ?thesis
        using False unfolding run(1) by (intro started [of address]) (simp_all add: run(1) startBody_def two)
    qed
  qed
qed

text \<open>What the steps do to the fields that count.\<close>

lemma setTask_fields [simp]:
  "sy_server (setTask n t y) = sy_server y" "sy_conns (setTask n t y) = sy_conns y" "sy_next (setTask n t y) = sy_next y"
  "sy_cid (setTask n t y) = sy_cid y" "sy_listening (setTask n t y) = sy_listening y" "sy_accept (setTask n t y) = sy_accept y"
  "sy_tasks (setTask n t y) = (sy_tasks y)[n := t]" "sy_shutdown (setTask n t y) = sy_shutdown y" "sy_log (setTask n t y) = sy_log y"
  by (simp_all add: setTask_def)

lemma acceptExit_fields [simp]:
  "sy_server (acceptExit y) = (sy_server y)\<lparr>srv_connWait := srv_connWait (sy_server y) - 1\<rparr>" "sy_conns (acceptExit y) = sy_conns y"
  "sy_next (acceptExit y) = sy_next y" "sy_cid (acceptExit y) = sy_cid y" "sy_listening (acceptExit y) = sy_listening y"
  "sy_accept (acceptExit y) = AcceptDone" "sy_tasks (acceptExit y) = sy_tasks y" "sy_shutdown (acceptExit y) = sy_shutdown y"
  "sy_log (acceptExit y) = sy_log y"
  by (simp_all add: acceptExit_def)

lemma runHook_fields [simp]:
  "srv_connMgr (runHook h i s) = srv_connMgr s" "srv_listener (runHook h i s) = srv_listener s"
  "srv_startOnce (runHook h i s) = srv_startOnce s" "srv_startErr (runHook h i s) = srv_startErr s"
  "srv_stopOnce (runHook h i s) = srv_stopOnce s" "srv_stopChan (runHook h i s) = srv_stopChan s"
  "srv_stopped (runHook h i s) = srv_stopped s" "srv_connWait (runHook h i s) = srv_connWait s"
  "srv_shutdownOnce (runHook h i s) = srv_shutdownOnce s" "srv_shutdownDone (runHook h i s) = srv_shutdownDone s"
  "srv_metrics (runHook h i s) = srv_metrics s" "srv_config (runHook h i s) = srv_config s"
  "ps_mh (srv_msgHandler (runHook h i s)) = ps_mh (srv_msgHandler s)"
  "ps_workers (srv_msgHandler (runHook h i s)) = ps_workers (srv_msgHandler s)"
  "ps_calls (srv_msgHandler (runHook h i s)) = ps_calls (srv_msgHandler s)"
  "ps_direct (srv_msgHandler (runHook h i s)) = ps_direct (srv_msgHandler s)"
  "ps_accepted (srv_msgHandler (runHook h i s)) = ps_accepted (srv_msgHandler s)"
  "ps_handled (srv_msgHandler (runHook h i s)) = ps_handled (srv_msgHandler s)"
  "ps_finished (srv_msgHandler (runHook h i s)) = ps_finished (srv_msgHandler s)"
  by (cases h; simp add: runHook_def)+

lemma signalStop_fields [simp]:
  "srv_connMgr (signalStop s) = srv_connMgr s" "srv_listener (signalStop s) = srv_listener s"
  "srv_startOnce (signalStop s) = srv_startOnce s" "srv_startErr (signalStop s) = srv_startErr s"
  "srv_connWait (signalStop s) = srv_connWait s" "srv_msgHandler (signalStop s) = srv_msgHandler s"
  "srv_shutdownOnce (signalStop s) = srv_shutdownOnce s" "srv_shutdownDone (signalStop s) = srv_shutdownDone s"
  "srv_metrics (signalStop s) = srv_metrics s" "srv_config (signalStop s) = srv_config s" "srv_stopOnce (signalStop s)"
  by (simp_all add: signalStop_def)

text \<open>The steps of \<open>shutdown\<close> that touch nothing but the control state, and the others.\<close>

lemma shutdownStep_cases:
  assumes "shutdownStep ks y = Some y'"
  obtains (begin_stop) "sy_shutdown y = ShutSignalled" "y' = (on_server (on_handler beginStop) y)\<lparr>sy_shutdown := ShutTake\<rparr>"
  | (take) "sy_shutdown y = ShutTake"
      "y' = (on_server (\<lambda>s. s\<lparr>srv_listener := None\<rparr>) y)\<lparr>sy_shutdown := ShutClose (srv_listener (sy_server y))\<rparr>"
  | (unlisten) l where "sy_shutdown y = ShutClose l"
      "y' = y\<lparr>sy_listening := (if l \<noteq> None then False else sy_listening y), sy_shutdown := ShutClear\<rparr>"
  | (clear) "sy_shutdown y = ShutClear"
      "y' = (on_server (\<lambda>s. s\<lparr>srv_connMgr := (srv_connMgr s)\<lparr>cm_connections := Map.empty\<rparr>\<rparr>) y)
         \<lparr>sy_shutdown := ShutStopping (map (\<lambda>k. the (cm_connections (srv_connMgr (sy_server y)) k)) ks)\<rparr>"
  | (all_stopped) "sy_shutdown y = ShutStopping []" "y' = y\<lparr>sy_shutdown := ShutWait\<rparr>"
  | (stop) i conns where "sy_shutdown y = ShutStopping (i # conns)"
      "y' = y\<lparr>sy_conns := storeStop i (sy_conns y), sy_shutdown := ShutStopping conns\<rparr>"
  | (waited) "sy_shutdown y = ShutWait" "srv_connWait (sy_server y) = 0" "y' = y\<lparr>sy_shutdown := ShutPool\<rparr>"
  | (close_pool) "sy_shutdown y = ShutPool"
      "y' = (on_server (on_handler (\<lambda>mh. closeQueues (beginStop mh))) y)\<lparr>sy_shutdown := ShutDrain\<rparr>"
  | (drained) "sy_shutdown y = ShutDrain" "pool_idle (srv_msgHandler (sy_server y))"
      "y' = (on_server (\<lambda>s. s\<lparr>srv_shutdownDone := True\<rparr>) y)\<lparr>sy_shutdown := ShutDone\<rparr>"
proof -
  have same: "shutdownStep ks y = Some z \<Longrightarrow> y' = z" for z using assms by simp
  show ?thesis
  proof (cases "sy_shutdown y")
    case ShutSignalled
    show ?thesis by (rule begin_stop [OF ShutSignalled same]) (simp add: shutdownStep_def ShutSignalled Let_def)
  next
    case ShutTake
    show ?thesis by (rule take [OF ShutTake same]) (simp add: shutdownStep_def ShutTake Let_def)
  next
    case (ShutClose l)
    show ?thesis by (rule unlisten [OF ShutClose same]) (simp add: shutdownStep_def ShutClose Let_def)
  next
    case ShutClear
    show ?thesis by (rule clear [OF ShutClear same]) (simp add: shutdownStep_def ShutClear ClearConn_def Let_def)
  next
    case (ShutStopping conns)
    show ?thesis
    proof (cases conns)
      case Nil
      show ?thesis
        by (rule all_stopped [OF ShutStopping [unfolded Nil] same]) (simp add: shutdownStep_def ShutStopping Nil Let_def)
    next
      case (Cons i rest)
      show ?thesis
        by (rule stop [OF ShutStopping [unfolded Cons] same]) (simp add: shutdownStep_def ShutStopping Cons Let_def)
    qed
  next
    case ShutWait
    have zero: "srv_connWait (sy_server y) = 0"
    proof (rule ccontr)
      assume "srv_connWait (sy_server y) \<noteq> 0"
      then have "shutdownStep ks y = None" by (simp add: shutdownStep_def ShutWait Let_def)
      with assms show False by simp
    qed
    show ?thesis by (rule waited [OF ShutWait zero same]) (simp add: shutdownStep_def ShutWait zero Let_def)
  next
    case ShutPool
    show ?thesis by (rule close_pool [OF ShutPool same]) (simp add: shutdownStep_def ShutPool Let_def)
  next
    case ShutDrain
    have idle: "pool_idle (srv_msgHandler (sy_server y))"
    proof (rule ccontr)
      assume "\<not> pool_idle (srv_msgHandler (sy_server y))"
      then have "shutdownStep ks y = None" by (simp add: shutdownStep_def ShutDrain Let_def)
      with assms show False by simp
    qed
    show ?thesis by (rule drained [OF ShutDrain idle same]) (simp add: shutdownStep_def ShutDrain idle Let_def)
  qed (use assms in \<open>simp_all add: shutdownStep_def Let_def\<close>)
qed

lemma on_handler_fields [simp]:
  "srv_connMgr (on_handler f s) = srv_connMgr s" "srv_listener (on_handler f s) = srv_listener s"
  "srv_startOnce (on_handler f s) = srv_startOnce s" "srv_startErr (on_handler f s) = srv_startErr s"
  "srv_stopOnce (on_handler f s) = srv_stopOnce s" "srv_stopChan (on_handler f s) = srv_stopChan s"
  "srv_stopped (on_handler f s) = srv_stopped s" "srv_connWait (on_handler f s) = srv_connWait s"
  "srv_shutdownOnce (on_handler f s) = srv_shutdownOnce s" "srv_shutdownDone (on_handler f s) = srv_shutdownDone s"
  "srv_metrics (on_handler f s) = srv_metrics s" "srv_config (on_handler f s) = srv_config s"
  "srv_msgHandler (on_handler f s) = (srv_msgHandler s)\<lparr>ps_mh := f (ps_mh (srv_msgHandler s))\<rparr>"
  by (simp_all add: on_handler_def)

section \<open>Control state\<close>

abbreviation accepting :: "accept_pc \<Rightarrow> bool" where
  "accepting pc \<equiv> pc \<noteq> AcceptNone \<and> pc \<noteq> AcceptDone"

abbreviation live :: "task \<Rightarrow> bool" where
  "live t \<equiv> tk_pc t \<noteq> TaskDone"

definition flags_ok :: "('s, 'p) server_sys \<Rightarrow> bool" where
  "flags_ok y \<longleftrightarrow>
     (let s = sy_server y; d = sy_shutdown y; a = sy_accept y
      in (srv_stopOnce s \<longleftrightarrow> srv_stopped s) \<and> (srv_stopChan s \<longleftrightarrow> srv_stopped s) \<and>
         (srv_shutdownOnce s \<longleftrightarrow> d \<noteq> ShutNone) \<and> (d \<noteq> ShutNone \<longrightarrow> srv_stopped s) \<and>
         (srv_shutdownDone s \<longleftrightarrow> d = ShutDone) \<and>
         (a \<noteq> AcceptNone \<longleftrightarrow> srv_startOnce s \<and> srv_startErr s = None) \<and>
         (srv_startErr s \<noteq> None \<longrightarrow> srv_startOnce s \<and> srv_stopped s) \<and> (a = AcceptDone \<longrightarrow> srv_stopped s))"

text \<open>The wait group counts the accept loop and the connections that have not returned.\<close>

definition wait_ok :: "('s, 'p) server_sys \<Rightarrow> bool" where
  "wait_ok y \<longleftrightarrow> srv_connWait (sy_server y) = (if accepting (sy_accept y) then 1 else 0) + length (filter live (sy_tasks y))"

definition late :: "shutdown_pc \<Rightarrow> bool" where
  "late d \<longleftrightarrow> d \<in> {ShutPool, ShutDrain, ShutDone}"

definition late_ok :: "('s, 'p) server_sys \<Rightarrow> bool" where
  "late_ok y \<longleftrightarrow> (late (sy_shutdown y) \<longrightarrow> srv_connWait (sy_server y) = 0)"

definition listen_ok :: "('s, 'p) server_sys \<Rightarrow> bool" where
  "listen_ok y \<longleftrightarrow>
     (let l = srv_listener (sy_server y); d = sy_shutdown y
      in (sy_listening y \<longrightarrow> l \<noteq> None \<or> (\<exists>a. d = ShutClose (Some a))) \<and>
         (l \<noteq> None \<longrightarrow> d \<in> {ShutNone, ShutSignalled, ShutTake} \<and> sy_accept y \<noteq> AcceptNone))"

lemmas step_defs = ioReturn_def ShutdownOnce_def SetOnConnStart_def SetOnConnStop_def Let_def

lemma task_step_effect:
  assumes "n < length (sy_tasks y)" "startConnectionStep n y = Some y'"
  obtains t where "sy_tasks y' = (sy_tasks y)[n := t]" "tk_conn t = tk_conn (sy_tasks y ! n)"
    "live (sy_tasks y ! n)"
    "srv_connWait (sy_server y') = srv_connWait (sy_server y) - (if tk_pc t = TaskDone then 1 else 0)"
    "sy_shutdown y' = sy_shutdown y" "sy_accept y' = sy_accept y" "sy_listening y' = sy_listening y" "sy_next y' = sy_next y"
    "srv_listener (sy_server y') = srv_listener (sy_server y)" "srv_stopped (sy_server y') = srv_stopped (sy_server y)"
    "srv_stopOnce (sy_server y') = srv_stopOnce (sy_server y)" "srv_stopChan (sy_server y') = srv_stopChan (sy_server y)"
    "srv_shutdownOnce (sy_server y') = srv_shutdownOnce (sy_server y)" "srv_shutdownDone (sy_server y') = srv_shutdownDone (sy_server y)"
    "srv_startOnce (sy_server y') = srv_startOnce (sy_server y)" "srv_startErr (sy_server y') = srv_startErr (sy_server y)"
    "srv_config (sy_server y') = srv_config (sy_server y)"
  using assms
  by (cases "tk_pc (sy_tasks y ! n)") (auto simp: startConnectionStep_def Let_def split: if_splits)

lemma flags_ok_step: "server_step g y y' \<Longrightarrow> flags_ok y \<Longrightarrow> flags_ok y'"
proof (induction rule: server_step.induct)
  case (start resolve listen y err y')
  from start(1) show ?case
    by (cases rule: StartWithError_cases) (use start(3-) in \<open>simp_all add: flags_ok_def Let_def signalStop_def\<close>)
next
  case (accept rnd now result y y')
  from accept(1) show ?case
    by (cases rule: acceptStep_cases) (use accept(2-) in \<open>auto simp: flags_ok_def Let_def\<close>)
next
  case (task n y y')
  from task(1,2) show ?case by (rule task_step_effect) (use task(3-) in \<open>simp add: flags_ok_def Let_def\<close>)
next
  case (shutdown y ks y')
  from shutdown(3) show ?case
    by (cases rule: shutdownStep_cases) (use shutdown(4-) in \<open>auto simp: flags_ok_def Let_def\<close>)
qed (auto simp: flags_ok_def Let_def step_defs signalStop_def)

lemma wait_ok_step: "server_step g y y' \<Longrightarrow> flags_ok y \<Longrightarrow> wait_ok y \<Longrightarrow> wait_ok y'"
proof (induction rule: server_step.induct)
  case (start resolve listen y err y')
  from start(1) show ?case
    by (cases rule: StartWithError_cases) (use start(3-) in \<open>simp_all add: wait_ok_def flags_ok_def Let_def signalStop_def\<close>)
next
  case (accept rnd now result y y')
  from accept(1) show ?case
    by (cases rule: acceptStep_cases) (use accept(2-) in \<open>auto simp: wait_ok_def flags_ok_def Let_def\<close>)
next
  case (task n y y')
  from task(1,2) show ?case
  proof (rule task_step_effect)
    fix t assume t: "sy_tasks y' = (sy_tasks y)[n := t]" "live (sy_tasks y ! n)" "sy_accept y' = sy_accept y"
      "srv_connWait (sy_server y') = srv_connWait (sy_server y) - (if tk_pc t = TaskDone then 1 else 0)"
    with filter_update_length [OF task(1), of live t] task(4) show ?thesis by (auto simp: wait_ok_def split: if_splits)
  qed
next
  case (io n y)
  have "live ((sy_tasks y ! n)\<lparr>tk_io := tk_io (sy_tasks y ! n) - 1\<rparr>) = live (sy_tasks y ! n)" by simp
  with filter_update_length [OF io(1), of live "(sy_tasks y ! n)\<lparr>tk_io := tk_io (sy_tasks y ! n) - 1\<rparr>"] io(4)
  show ?case by (auto simp: wait_ok_def ioReturn_def Let_def split: if_splits)
next
  case (shutdown y ks y')
  from shutdown(3) show ?case
    by (cases rule: shutdownStep_cases) (use shutdown(4-) in \<open>auto simp: wait_ok_def flags_ok_def Let_def\<close>)
qed (auto simp: wait_ok_def flags_ok_def Let_def step_defs signalStop_def)

lemma late_ok_step: "server_step g y y' \<Longrightarrow> flags_ok y \<Longrightarrow> late_ok y \<Longrightarrow> late_ok y'"
proof (induction rule: server_step.induct)
  case (start resolve listen y err y')
  from start(1) show ?case
    by (cases rule: StartWithError_cases) (use start(3-) in \<open>simp_all add: late_ok_def late_def flags_ok_def Let_def signalStop_def\<close>)
next
  case (accept rnd now result y y')
  from accept(1) show ?case
    by (cases rule: acceptStep_cases) (use accept(2-) in \<open>auto simp: late_ok_def late_def flags_ok_def Let_def\<close>)
next
  case (task n y y')
  from task(1,2) show ?case by (rule task_step_effect) (use task(3-) in \<open>simp add: late_ok_def late_def flags_ok_def Let_def\<close>)
next
  case (shutdown y ks y')
  from shutdown(3) show ?case
    by (cases rule: shutdownStep_cases) (use shutdown(4-) in \<open>auto simp: late_ok_def late_def flags_ok_def Let_def\<close>)
qed (auto simp: late_ok_def late_def flags_ok_def Let_def step_defs signalStop_def)

lemma listen_ok_step: "server_step g y y' \<Longrightarrow> flags_ok y \<Longrightarrow> listen_ok y \<Longrightarrow> listen_ok y'"
proof (induction rule: server_step.induct)
  case (start resolve listen y err y')
  from start(1) show ?case
    by (cases rule: StartWithError_cases) (use start(3-) in \<open>auto simp: listen_ok_def flags_ok_def Let_def\<close>)
next
  case (accept rnd now result y y')
  from accept(1) show ?case
    by (cases rule: acceptStep_cases) (use accept(2-) in \<open>auto simp: listen_ok_def flags_ok_def Let_def\<close>)
next
  case (task n y y')
  from task(1,2) show ?case by (rule task_step_effect) (use task(3-) in \<open>simp add: listen_ok_def flags_ok_def Let_def\<close>)
next
  case (shutdown y ks y')
  from shutdown(3) show ?case
    by (cases rule: shutdownStep_cases) (use shutdown(4-) in \<open>auto simp: listen_ok_def flags_ok_def Let_def\<close>)
qed (auto simp: listen_ok_def flags_ok_def Let_def step_defs signalStop_def)

section \<open>Connections and their tasks\<close>

abbreviation ended :: "task \<Rightarrow> bool" where
  "ended t \<equiv> tk_pc t \<in> {TaskStopHook, TaskRemove, TaskGauge, TaskLeave, TaskDone}"

definition store_ok :: "('s, 'p) server_sys \<Rightarrow> bool" where
  "store_ok y \<longleftrightarrow> (\<forall>r. sy_conns y r = None \<longleftrightarrow> sy_next y \<le> r)"

text \<open>Connections stay in the store, and a stopped one stays stopped.\<close>

lemma closeSocket_at: "closeSocket i w r = (if r = ic_ref i then map_option (\<lambda>c. c\<lparr>cn_Conn := (cn_Conn c)\<lparr>sk_closed := True\<rparr>\<rparr>) (w r) else w r)"
  by (simp add: closeSocket_def split: option.split)

lemma closed_Stop [simp]: "cn_isClosed (Stop c)" "cn_isClosed (startWriter c) = cn_isClosed c"
  by (simp_all add: Stop_def startWriter_def)

lemma task_step_conns:
  assumes "n < length (sy_tasks y)" "startConnectionStep n y = Some y'"
  shows "sy_conns y' = sy_conns y \<or> (\<exists>r. sy_conns y' = (sy_conns y)(r := map_option startWriter (sy_conns y r)))"
  using assms
  by (cases "tk_pc (sy_tasks y ! n)") (auto simp: startConnectionStep_def Let_def split: if_splits)

definition grows :: "'p conn_store \<Rightarrow> 'p conn_store \<Rightarrow> bool" where
  "grows w w' \<longleftrightarrow> (\<forall>r. w' r = None \<longleftrightarrow> w r = None) \<and>
     (\<forall>r c. w r = Some c \<longrightarrow> (\<exists>c'. w' r = Some c' \<and> (cn_isClosed c \<longrightarrow> cn_isClosed c')))"

lemma grows_map: "(\<And>r. w' r = w r \<or> (\<exists>f. w' r = map_option f (w r) \<and> (\<forall>c. cn_isClosed c \<longrightarrow> cn_isClosed (f c)))) \<Longrightarrow> grows w w'"
  unfolding grows_def by (metis map_option_is_None option.simps(9))

lemma grows_simps [simp]:
  "grows w w" "grows w (storeStop i w)" "grows w (closeSocket i w)" "grows w (w(r := map_option startWriter (w r)))"
  by (intro grows_map; auto simp: storeStop_at closeSocket_at intro: exI [of _ Stop] exI [of _ startWriter];
      rule exI [of _ "\<lambda>c. c\<lparr>cn_Conn := (cn_Conn c)\<lparr>sk_closed := True\<rparr>\<rparr>"]; simp)+

lemma conns_step_cases:
  assumes "server_step g y y'"
  shows "grows (sy_conns y) (sy_conns y') \<and> sy_next y' = sy_next y \<or>
    (\<exists>c. sy_conns y' = (sy_conns y)(sy_next y \<mapsto> c) \<and> sy_next y' = Suc (sy_next y))"
  using assms
proof (cases rule: server_step.cases)
  case (start resolve listen err)
  from start(1) show ?thesis by (cases rule: StartWithError_cases) simp_all
next
  case (accept rnd now result)
  then show ?thesis
  proof (cases rule: acceptStep_cases)
    case (exit w)
    then have "grows (sy_conns y) w" by auto
    then show ?thesis unfolding exit(5) by simp
  next
    case (built conn c)
    then show ?thesis by (intro disjI2 exI [of _ c]) simp
  qed simp_all
next
  case (task n)
  from task have "sy_next y' = sy_next y" by (rule task_step_effect)
  with task_step_conns [OF task] show ?thesis by auto
next
  case (io n)
  then show ?thesis by (simp add: ioReturn_def Let_def)
next
  case shutdown_call
  then show ?thesis by (simp add: ShutdownOnce_def)
next
  case (shutdown ks)
  from shutdown(3) show ?thesis by (cases rule: shutdownStep_cases) simp_all
next
  case (activity r c c')
  then have "grows (sy_conns y) ((sy_conns y)(r \<mapsto> c'))" by (auto simp: grows_def)
  with activity show ?thesis by simp
qed simp_all

lemma conns_step:
  assumes "server_step g y y'" "store_ok y"
  shows "store_ok y' \<and> sy_next y \<le> sy_next y' \<and>
    (\<forall>r c. sy_conns y r = Some c \<longrightarrow> (\<exists>c'. sy_conns y' r = Some c' \<and> (cn_isClosed c \<longrightarrow> cn_isClosed c')))"
  using conns_step_cases [OF assms(1)]
proof (elim disjE exE conjE)
  assume "grows (sy_conns y) (sy_conns y')" "sy_next y' = sy_next y"
  with assms(2) show ?thesis by (simp add: store_ok_def grows_def)
next
  fix c assume c: "sy_conns y' = (sy_conns y)(sy_next y \<mapsto> c)" "sy_next y' = Suc (sy_next y)"
  have free: "(sy_conns y r = None) = (sy_next y \<le> r)" for r using assms(2) by (simp add: store_ok_def)
  have "(sy_conns y' r = None) = (sy_next y' \<le> r)" for r
    using free [of r] by (cases "r = sy_next y") (simp_all add: c, linarith)
  moreover have "sy_conns y' r = Some d" if "sy_conns y r = Some d" for r d
    using that free [of r] by (cases "r = sy_next y") (simp_all add: c)
  ultimately show ?thesis using c(2) by (simp add: store_ok_def)
qed

lemma stoppedConn_step:
  assumes "server_step g y y'" "store_ok y" "stoppedConn (sy_conns y) i"
  shows "stoppedConn (sy_conns y') i"
  using conns_step [OF assms(1,2)] assms(3) by (fastforce simp: stoppedConn_def split: option.splits)

definition tasks_ok :: "('s, 'p) server_sys \<Rightarrow> bool" where
  "tasks_ok y \<longleftrightarrow> distinct (map (\<lambda>t. ic_ref (tk_conn t)) (sy_tasks y)) \<and>
     (\<forall>t \<in> set (sy_tasks y). ic_ref (tk_conn t) < sy_next y) \<and>
     (\<forall>t \<in> set (sy_tasks y). ended t \<longrightarrow> tk_io t = 0 \<and> stoppedConn (sy_conns y) (tk_conn t)) \<and>
     (\<forall>i. sy_accept y = AcceptNew i \<longrightarrow> ic_ref i < sy_next y \<and> (\<forall>t \<in> set (sy_tasks y). ic_ref (tk_conn t) \<noteq> ic_ref i))"

lemma tasks_okI:
  assumes "distinct (map (\<lambda>t. ic_ref (tk_conn t)) (sy_tasks y))"
    and "\<And>t. t \<in> set (sy_tasks y) \<Longrightarrow> ic_ref (tk_conn t) < sy_next y"
    and "\<And>t. t \<in> set (sy_tasks y) \<Longrightarrow> ended t \<Longrightarrow> tk_io t = 0 \<and> stoppedConn (sy_conns y) (tk_conn t)"
    and "\<And>i. sy_accept y = AcceptNew i \<Longrightarrow> ic_ref i < sy_next y \<and> (\<forall>t \<in> set (sy_tasks y). ic_ref (tk_conn t) \<noteq> ic_ref i)"
  shows "tasks_ok y"
  using assms unfolding tasks_ok_def by blast

lemma tasks_okD:
  assumes "tasks_ok y"
  shows "distinct (map (\<lambda>t. ic_ref (tk_conn t)) (sy_tasks y))"
    and "t \<in> set (sy_tasks y) \<Longrightarrow> ic_ref (tk_conn t) < sy_next y"
    and "t \<in> set (sy_tasks y) \<Longrightarrow> ended t \<Longrightarrow> tk_io t = 0 \<and> stoppedConn (sy_conns y) (tk_conn t)"
    and "sy_accept y = AcceptNew i \<Longrightarrow> ic_ref i < sy_next y \<and> (\<forall>t \<in> set (sy_tasks y). ic_ref (tk_conn t) \<noteq> ic_ref i)"
  using assms unfolding tasks_ok_def by blast+

text \<open>The task that was changed, if any, keeps its connection; one that ends has stopped.\<close>

lemma tasks_ok_update:
  assumes "server_step g y y'" "store_ok y" "tasks_ok y" "n < length (sy_tasks y)"
    and "sy_tasks y' = (sy_tasks y)[n := t]" "tk_conn t = tk_conn (sy_tasks y ! n)" "sy_accept y' = sy_accept y"
    and "ended t \<Longrightarrow> tk_io t = 0 \<and> stoppedConn (sy_conns y') (tk_conn t)"
  shows "tasks_ok y'"
proof (rule tasks_okI)
  have conns: "map tk_conn (sy_tasks y') = map tk_conn (sy_tasks y)"
    using assms(5,6) by (simp add: map_update list_update_same_conv assms(4))
  have refs: "map (\<lambda>t. ic_ref (tk_conn t)) (sy_tasks y') = map (\<lambda>t. ic_ref (tk_conn t)) (sy_tasks y)"
    using arg_cong [OF conns, of "map ic_ref"] by (simp add: comp_def)
  show "distinct (map (\<lambda>t. ic_ref (tk_conn t)) (sy_tasks y'))" using tasks_okD(1) [OF assms(3)] refs by simp
  have bound: "sy_next y \<le> sy_next y'" using conns_step [OF assms(1,2)] by simp
  have in_old: "\<exists>u \<in> set (sy_tasks y). ic_ref (tk_conn u) = ic_ref (tk_conn x)" if "x \<in> set (sy_tasks y')" for x
    using that refs by (metis (no_types, lifting) image_iff image_set)
  show "ic_ref (tk_conn x) < sy_next y'" if x: "x \<in> set (sy_tasks y')" for x
    using in_old [OF x] tasks_okD(2) [OF assms(3)] bound by fastforce
  show "tk_io x = 0 \<and> stoppedConn (sy_conns y') (tk_conn x)" if "x \<in> set (sy_tasks y')" "ended x" for x
  proof (cases "x = t")
    case False
    then have "x \<in> set (sy_tasks y)" using that(1) set_update_subset_insert assms(5) by fastforce
    with that(2) tasks_okD(3) [OF assms(3)] stoppedConn_step [OF assms(1,2)] show ?thesis by blast
  qed (use that assms(8) in simp)
  show "ic_ref i < sy_next y' \<and> (\<forall>t \<in> set (sy_tasks y'). ic_ref (tk_conn t) \<noteq> ic_ref i)" if "sy_accept y' = AcceptNew i" for i
    using tasks_okD(4) [OF assms(3)] that assms(7) bound in_old by fastforce
qed

lemma tasks_ok_same:
  assumes "server_step g y y'" "store_ok y" "tasks_ok y" "sy_tasks y' = sy_tasks y"
    and "\<And>i. sy_accept y' = AcceptNew i \<Longrightarrow>
      sy_accept y = AcceptNew i \<or> ic_ref i < sy_next y' \<and> (\<forall>t \<in> set (sy_tasks y). ic_ref (tk_conn t) \<noteq> ic_ref i)"
  shows "tasks_ok y'"
proof (rule tasks_okI)
  have bound: "sy_next y \<le> sy_next y'" using conns_step [OF assms(1,2)] by simp
  show "distinct (map (\<lambda>t. ic_ref (tk_conn t)) (sy_tasks y'))" using tasks_okD(1) [OF assms(3)] assms(4) by simp
  show "ic_ref (tk_conn x) < sy_next y'" if "x \<in> set (sy_tasks y')" for x
    using that tasks_okD(2) [OF assms(3)] bound assms(4) by fastforce
  show "tk_io x = 0 \<and> stoppedConn (sy_conns y') (tk_conn x)" if "x \<in> set (sy_tasks y')" "ended x" for x
    using that tasks_okD(3) [OF assms(3)] stoppedConn_step [OF assms(1,2)] assms(4) by simp
  show "ic_ref i < sy_next y' \<and> (\<forall>t \<in> set (sy_tasks y'). ic_ref (tk_conn t) \<noteq> ic_ref i)" if "sy_accept y' = AcceptNew i" for i
    using assms(5) [OF that] tasks_okD(4) [OF assms(3)] bound assms(4) by fastforce
qed

lemma task_step_ended:
  assumes "n < length (sy_tasks y)" "startConnectionStep n y = Some y'"
    and "ended (sy_tasks y ! n) \<Longrightarrow> tk_io (sy_tasks y ! n) = 0 \<and> stoppedConn (sy_conns y) (tk_conn (sy_tasks y ! n))"
    and "ended (sy_tasks y' ! n)"
  shows "tk_io (sy_tasks y' ! n) = 0 \<and> stoppedConn (sy_conns y') (tk_conn (sy_tasks y' ! n))"
  using assms
  by (cases "tk_pc (sy_tasks y ! n)") (auto simp: startConnectionStep_def Let_def split: if_splits)

lemma tasks_ok_step:
  assumes "server_step g y y'" "store_ok y" "tasks_ok y"
  shows "tasks_ok y'"
  using assms(1)
proof (cases rule: server_step.cases)
  case (start resolve listen err)
  from start(1) have "sy_tasks y' = sy_tasks y" "sy_accept y' = sy_accept y \<or> sy_accept y' = AcceptWait"
    by (cases rule: StartWithError_cases; simp)+
  then show ?thesis by (intro tasks_ok_same [OF assms]) auto
next
  case (accept rnd now result)
  then show ?thesis
  proof (cases rule: acceptStep_cases)
    case (built conn c)
    then have "\<forall>t \<in> set (sy_tasks y). ic_ref (tk_conn t) \<noteq> sy_next y" using tasks_okD(2) [OF assms(3)] by fastforce
    with built show ?thesis by (intro tasks_ok_same [OF assms]) auto
  next
    case (registered i cm)
    note new = tasks_okD(4) [OF assms(3) registered(1)]
    have "sy_next y' = sy_next y" "sy_tasks y' = sy_tasks y @ [\<lparr> tk_conn = i, tk_pc = TaskWriter, tk_io = 0 \<rparr>]"
      "sy_accept y' = AcceptWait" "sy_conns y' = sy_conns y"
      using registered(4) by simp_all
    with new tasks_okD(1-3) [OF assms(3)] show ?thesis by (intro tasks_okI) auto
  qed (intro tasks_ok_same [OF assms]; simp)+
next
  case (task n)
  then obtain t where t: "sy_tasks y' = (sy_tasks y)[n := t]" "tk_conn t = tk_conn (sy_tasks y ! n)" "sy_accept y' = sy_accept y"
    by (rule task_step_effect)
  have n: "sy_tasks y' ! n = t" using t(1) task(1) by simp
  show ?thesis
    using task_step_ended [OF task] tasks_okD(3) [OF assms(3) nth_mem [OF task(1)]] unfolding n
    by (intro tasks_ok_update [OF assms task(1) t]) blast
next
  case (io n)
  let ?t = "(sy_tasks y ! n)\<lparr>tk_io := tk_io (sy_tasks y ! n) - 1\<rparr>"
  have "\<not> ended ?t" using tasks_okD(3) [OF assms(3) nth_mem [OF io(2)]] io(3) by auto
  moreover have "sy_tasks y' = (sy_tasks y)[n := ?t]" "sy_accept y' = sy_accept y"
    using io(1) by (simp_all add: ioReturn_def Let_def)
  ultimately show ?thesis by (intro tasks_ok_update [OF assms io(2), of ?t]) auto
next
  case shutdown_call
  then have "sy_tasks y' = sy_tasks y" "sy_accept y' = sy_accept y" by (simp_all add: ShutdownOnce_def)
  then show ?thesis by (intro tasks_ok_same [OF assms]) simp_all
next
  case (shutdown ks)
  from shutdown(3) have "sy_tasks y' = sy_tasks y" "sy_accept y' = sy_accept y"
    by (cases rule: shutdownStep_cases; simp)+
  then show ?thesis by (intro tasks_ok_same [OF assms]) simp_all
qed (intro tasks_ok_same [OF assms]; simp)+

end
