(* ===== verification/ServerRun.thy ===== *)
theory ServerRun
  imports Server "HOL-Library.Sublist"
begin

text \<open>
  The invariants of the server that span its components (the registry of connections, the wait group,
  the connection gauge, the hooks and the worker pool) and the properties of starting, serving and
  shutting down.
\<close>

section \<open>The registry\<close>

definition registered :: "task \<Rightarrow> bool" where
  "registered t \<longleftrightarrow> tk_pc t \<notin> {TaskGauge, TaskLeave, TaskDone}"

definition cleared :: "shutdown_pc \<Rightarrow> bool" where
  "cleared d = (case d of ShutStopping _ \<Rightarrow> True | ShutWait \<Rightarrow> True | ShutPool \<Rightarrow> True | ShutDrain \<Rightarrow> True | ShutDone \<Rightarrow> True
     | _ \<Rightarrow> False)"

text \<open>Until the registry is cleared it holds the connections of the tasks that have not removed theirs.\<close>

definition registry_ok :: "('s, 'p) server_sys \<Rightarrow> bool" where
  "registry_ok y \<longleftrightarrow>
     (cleared (sy_shutdown y) \<longrightarrow> cm_connections (srv_connMgr (sy_server y)) = Map.empty) \<and>
     (\<not> cleared (sy_shutdown y) \<longrightarrow> (\<forall>k i. cm_connections (srv_connMgr (sy_server y)) k = Some i \<longleftrightarrow>
        (\<exists>t \<in> set (sy_tasks y). registered t \<and> tk_conn t = i \<and> ic_connID i = k)))"

lemma registry_okD:
  assumes "registry_ok y" "\<not> cleared (sy_shutdown y)"
  shows "cm_connections (srv_connMgr (sy_server y)) k = Some i \<longleftrightarrow>
    (\<exists>t \<in> set (sy_tasks y). registered t \<and> tk_conn t = i \<and> ic_connID i = k)"
  using assms unfolding registry_ok_def by (simp add: Let_def)

lemma registry_ok_same:
  assumes "registry_ok y" "cm_connections (srv_connMgr (sy_server y')) = cm_connections (srv_connMgr (sy_server y))"
    and "cleared (sy_shutdown y') = cleared (sy_shutdown y)"
    and "\<And>i. (\<exists>t \<in> set (sy_tasks y'). registered t \<and> tk_conn t = i) \<longleftrightarrow> (\<exists>t \<in> set (sy_tasks y). registered t \<and> tk_conn t = i)"
  shows "registry_ok y'"
proof -
  have "(\<exists>t \<in> set (sy_tasks y'). registered t \<and> tk_conn t = i \<and> ic_connID i = k) \<longleftrightarrow>
      (\<exists>t \<in> set (sy_tasks y). registered t \<and> tk_conn t = i \<and> ic_connID i = k)" for i k
    using assms(4) [of i] by blast
  with assms(1-3) show ?thesis unfolding registry_ok_def Let_def by simp
qed

lemma registered_update:
  assumes "n < length ts" "tk_conn t = tk_conn (ts ! n)" "registered t = registered (ts ! n)"
  shows "(\<exists>u \<in> set (ts[n := t]). registered u \<and> tk_conn u = i) \<longleftrightarrow> (\<exists>u \<in> set ts. registered u \<and> tk_conn u = i)"
  unfolding in_set_conv_nth Bex_def using assms by (metis length_list_update nth_list_update)

lemma task_step_registered:
  assumes "n < length (sy_tasks y)" "startConnectionStep n y = Some y'"
  obtains (same) t where "sy_tasks y' = (sy_tasks y)[n := t]" "tk_conn t = tk_conn (sy_tasks y ! n)"
      "registered t = registered (sy_tasks y ! n)" "srv_connMgr (sy_server y') = srv_connMgr (sy_server y)"
  | (removed) "tk_pc (sy_tasks y ! n) = TaskRemove" "sy_tasks y' = (sy_tasks y)[n := (sy_tasks y ! n)\<lparr>tk_pc := TaskGauge\<rparr>]"
      "srv_connMgr (sy_server y') = Remove (ic_connID (tk_conn (sy_tasks y ! n))) (srv_connMgr (sy_server y))"
  using assms
  by (cases "tk_pc (sy_tasks y ! n)") (auto simp: startConnectionStep_def registered_def Let_def split: if_splits)

lemma same_ref_same_task:
  assumes "tasks_ok y" "a < length (sy_tasks y)" "b < length (sy_tasks y)"
    "tk_conn (sy_tasks y ! a) = tk_conn (sy_tasks y ! b)"
  shows "a = b"
  using nth_eq_iff_index_eq [OF tasks_okD(1) [OF assms(1)], of a b] assms(2-4) by simp

lemma registry_ok_remove:
  assumes "registry_ok y" "tasks_ok y" "n < length (sy_tasks y)" "tk_pc (sy_tasks y ! n) = TaskRemove"
    and "sy_tasks y' = (sy_tasks y)[n := (sy_tasks y ! n)\<lparr>tk_pc := TaskGauge\<rparr>]" "sy_shutdown y' = sy_shutdown y"
    and "srv_connMgr (sy_server y') = Remove (ic_connID (tk_conn (sy_tasks y ! n))) (srv_connMgr (sy_server y))"
  shows "registry_ok y'"
proof (cases "cleared (sy_shutdown y)")
  case True
  with assms(1,6,7) show ?thesis by (simp add: registry_ok_def Remove_def)
next
  case False
  let ?u = "sy_tasks y ! n" and ?k = "ic_connID (tk_conn (sy_tasks y ! n))"
  let ?m = "cm_connections (srv_connMgr (sy_server y))"
  note D = registry_okD [OF assms(1) False]
  have u: "?u \<in> set (sy_tasks y)" "registered ?u" using assms(3,4) by (simp_all add: registered_def)
  have mine: "?m ?k = Some (tk_conn ?u)" unfolding D using u by blast
  have "(?m(?k := None)) k = Some i \<longleftrightarrow> (\<exists>t \<in> set (sy_tasks y'). registered t \<and> tk_conn t = i \<and> ic_connID i = k)" for k i
  proof
    assume "(?m(?k := None)) k = Some i"
    then have k: "k \<noteq> ?k" "?m k = Some i" by (simp_all split: if_splits)
    then obtain a where a: "a < length (sy_tasks y)" "registered (sy_tasks y ! a)" "tk_conn (sy_tasks y ! a) = i" "ic_connID i = k"
      unfolding D by (auto simp: in_set_conv_nth)
    with k(1) have "a \<noteq> n" by auto
    with a have "sy_tasks y' ! a = sy_tasks y ! a" "a < length (sy_tasks y')" by (simp_all add: assms(5))
    with a show "\<exists>t \<in> set (sy_tasks y'). registered t \<and> tk_conn t = i \<and> ic_connID i = k" by (metis nth_mem)
  next
    assume "\<exists>t \<in> set (sy_tasks y'). registered t \<and> tk_conn t = i \<and> ic_connID i = k"
    then obtain a where a: "a < length (sy_tasks y)" "registered (sy_tasks y' ! a)" "tk_conn (sy_tasks y' ! a) = i" "ic_connID i = k"
      by (auto simp: in_set_conv_nth assms(5))
    then have an: "a \<noteq> n" using assms(3) by (auto simp: assms(5) registered_def)
    with a have ya: "sy_tasks y ! a \<in> set (sy_tasks y)" "registered (sy_tasks y ! a)" "tk_conn (sy_tasks y ! a) = i"
      by (simp_all add: assms(5))
    then have mk: "?m k = Some i" unfolding D using a(4) by blast
    have "k \<noteq> ?k"
    proof
      assume "k = ?k"
      with mk mine ya(3) have "tk_conn (sy_tasks y ! a) = tk_conn ?u" by simp
      with same_ref_same_task [OF assms(2) a(1) assms(3)] an show False by blast
    qed
    with mk show "(?m(?k := None)) k = Some i" by simp
  qed
  then show ?thesis using False assms(6,7) by (simp add: registry_ok_def Remove_def Let_def)
qed

lemma registry_ok_add:
  assumes "registry_ok y" "\<not> cleared (sy_shutdown y)" "Add g (Some i) (srv_connMgr (sy_server y)) = (None, cm)"
    and "srv_connMgr (sy_server y') = cm" "sy_shutdown y' = sy_shutdown y"
    and "sy_tasks y' = sy_tasks y @ [\<lparr> tk_conn = i, tk_pc = TaskWriter, tk_io = 0 \<rparr>]"
  shows "registry_ok y'"
proof -
  let ?m = "cm_connections (srv_connMgr (sy_server y))"
  note D = registry_okD [OF assms(1,2)]
  from assms(3) have cm: "cm_connections cm = ?m(ic_connID i \<mapsto> i)" "?m (ic_connID i) = None"
    by (cases rule: Add_cases; simp)+
  have "(?m(ic_connID i \<mapsto> i)) k = Some j \<longleftrightarrow> (\<exists>t \<in> set (sy_tasks y'). registered t \<and> tk_conn t = j \<and> ic_connID j = k)" for k j
    using D [of k j] D [of "ic_connID i" j] cm(2) by (auto simp: assms(6) registered_def)
  then show ?thesis using assms(2,4,5) cm(1) by (simp add: registry_ok_def Let_def)
qed

lemma registry_ok_step:
  assumes "server_step g y y'" "flags_ok y" "tasks_ok y" "registry_ok y"
  shows "registry_ok y'"
  using assms(1)
proof (cases rule: server_step.cases)
  case (start resolve listen err)
  from start(1) have "sy_tasks y' = sy_tasks y" "sy_shutdown y' = sy_shutdown y" "srv_connMgr (sy_server y') = srv_connMgr (sy_server y)"
    by (cases rule: StartWithError_cases; simp)+
  with assms(4) show ?thesis by (simp add: registry_ok_def)
next
  case (accept rnd now result)
  then show ?thesis
  proof (cases rule: acceptStep_cases)
    case (registered i cm)
    then have "sy_shutdown y = ShutNone" using assms(2) by (auto simp: flags_ok_def Let_def)
    then have "\<not> cleared (sy_shutdown y)" by (simp add: cleared_def)
    from assms(4) this registered(3) show ?thesis by (rule registry_ok_add) (simp_all add: registered(4))
  qed (use assms(4) in \<open>simp_all add: registry_ok_def\<close>)
next
  case (task n)
  from task have shut: "sy_shutdown y' = sy_shutdown y" by (rule task_step_effect)
  from task show ?thesis
  proof (cases rule: task_step_registered)
    case (same t)
    from registered_update [OF task(1) same(2,3)] same shut show ?thesis
      by (intro registry_ok_same [OF assms(4)]) simp_all
  next
    case removed
    from registry_ok_remove [OF assms(4,3) task(1) removed(1,2) shut removed(3)] show ?thesis .
  qed
next
  case (io n)
  let ?t = "(sy_tasks y ! n)\<lparr>tk_io := tk_io (sy_tasks y ! n) - 1\<rparr>"
  have "registered ?t = registered (sy_tasks y ! n)" by (simp add: registered_def)
  from registered_update [OF io(2), of ?t] this io(1) show ?thesis
    by (intro registry_ok_same [OF assms(4)]) (simp_all add: ioReturn_def Let_def)
next
  case shutdown_call
  have "sy_shutdown y = ShutNone" if "\<not> srv_shutdownOnce (sy_server y)"
    using that assms(2) by (auto simp: flags_ok_def Let_def)
  with shutdown_call assms(4) show ?thesis
    by (cases "srv_shutdownOnce (sy_server y)") (auto simp: ShutdownOnce_def registry_ok_def cleared_def)
next
  case (shutdown ks)
  from shutdown(3) show ?thesis
    by (cases rule: shutdownStep_cases) (use assms(4) in \<open>simp_all add: registry_ok_def cleared_def\<close>)
next
  case (hooks h' h)
  with assms(4) show ?thesis by (simp add: registry_ok_def SetOnConnStart_def SetOnConnStop_def)
qed (use assms(4) in \<open>simp_all add: registry_ok_def\<close>)

section \<open>Every connection is stopped\<close>

definition pending :: "shutdown_pc \<Rightarrow> iconn set" where
  "pending d = (case d of ShutStopping conns \<Rightarrow> set conns | _ \<Rightarrow> {})"

text \<open>Once the registry is cleared every connection is stopped or about to be.\<close>

definition stopping_ok :: "('s, 'p) server_sys \<Rightarrow> bool" where
  "stopping_ok y \<longleftrightarrow> (cleared (sy_shutdown y) \<longrightarrow>
     (\<forall>t \<in> set (sy_tasks y). stoppedConn (sy_conns y) (tk_conn t) \<or> tk_conn t \<in> pending (sy_shutdown y)))"

lemma stopping_ok_same:
  assumes "server_step g y y'" "store_ok y" "stopping_ok y"
    and "cleared (sy_shutdown y') \<Longrightarrow> cleared (sy_shutdown y) \<and> pending (sy_shutdown y') = pending (sy_shutdown y) \<and>
      tk_conn ` set (sy_tasks y') = tk_conn ` set (sy_tasks y)"
  shows "stopping_ok y'"
  unfolding stopping_ok_def
proof (intro impI ballI)
  fix t assume "cleared (sy_shutdown y')" "t \<in> set (sy_tasks y')"
  note same = assms(4) [OF this(1)]
  then obtain u where "u \<in> set (sy_tasks y)" "tk_conn u = tk_conn t" using \<open>t \<in> set (sy_tasks y')\<close> by (metis imageE imageI)
  with same assms(3) stoppedConn_step [OF assms(1,2)]
  show "stoppedConn (sy_conns y') (tk_conn t) \<or> tk_conn t \<in> pending (sy_shutdown y')" by (auto simp: stopping_ok_def)
qed

lemma conns_update:
  assumes "n < length ts" "tk_conn t = tk_conn (ts ! n)"
  shows "tk_conn ` set (ts[n := t]) = tk_conn ` set ts"
proof -
  have "map tk_conn (ts[n := t]) = map tk_conn ts" using assms by (simp add: map_update list_update_same_conv)
  then show ?thesis by (metis image_set)
qed

lemma stopping_ok_clear:
  assumes "registry_ok y" "tasks_ok y" "sy_shutdown y = ShutClear"
    and "map_order (cm_connections (srv_connMgr (sy_server y))) ks" "t \<in> set (sy_tasks y)"
  shows "stoppedConn (sy_conns y) (tk_conn t) \<or> tk_conn t \<in> (\<lambda>k. the (cm_connections (srv_connMgr (sy_server y)) k)) ` set ks"
proof (cases "registered t")
  case True
  have "\<not> cleared (sy_shutdown y)" using assms(3) by (simp add: cleared_def)
  then have "cm_connections (srv_connMgr (sy_server y)) (ic_connID (tk_conn t)) = Some (tk_conn t)"
    using registry_okD [OF assms(1)] assms(5) True by blast
  moreover from this have "ic_connID (tk_conn t) \<in> set ks" using assms(4) by (auto simp: map_order_def)
  ultimately show ?thesis by (intro disjI2 image_eqI [of _ _ "ic_connID (tk_conn t)"]) simp_all
next
  case False
  with tasks_okD(3) [OF assms(2,5)] show ?thesis by (auto simp: registered_def)
qed

lemma stopping_ok_step:
  assumes "server_step g y y'" "flags_ok y" "store_ok y" "tasks_ok y" "registry_ok y" "stopping_ok y"
  shows "stopping_ok y'"
  using assms(1)
proof (cases rule: server_step.cases)
  case (start resolve listen err)
  from start(1) have "sy_tasks y' = sy_tasks y" "sy_shutdown y' = sy_shutdown y"
    by (cases rule: StartWithError_cases; simp)+
  then show ?thesis by (intro stopping_ok_same [OF assms(1,3,6)]) simp
next
  case (accept rnd now result)
  then have "(cleared (sy_shutdown y') \<longrightarrow> sy_tasks y' = sy_tasks y) \<and> sy_shutdown y' = sy_shutdown y"
  proof (cases rule: acceptStep_cases)
    case (registered i cm)
    then have "sy_shutdown y = ShutNone" using assms(2) by (auto simp: flags_ok_def Let_def)
    with registered show ?thesis by (simp add: cleared_def)
  qed simp_all
  then show ?thesis by (intro stopping_ok_same [OF assms(1,3,6)]) auto
next
  case (task n)
  then obtain t where t: "sy_tasks y' = (sy_tasks y)[n := t]" "tk_conn t = tk_conn (sy_tasks y ! n)" "sy_shutdown y' = sy_shutdown y"
    by (rule task_step_effect)
  show ?thesis using conns_update [OF task(1) t(2)] t by (intro stopping_ok_same [OF assms(1,3,6)]) simp
next
  case (io n)
  then show ?thesis
    using conns_update [OF io(2), of "(sy_tasks y ! n)\<lparr>tk_io := tk_io (sy_tasks y ! n) - 1\<rparr>"]
    by (intro stopping_ok_same [OF assms(1,3,6)]) (simp add: ioReturn_def Let_def)
next
  case shutdown_call
  then have "sy_tasks y' = sy_tasks y" "sy_shutdown y' = sy_shutdown y \<or> sy_shutdown y' = ShutSignalled"
    by (simp_all add: ShutdownOnce_def)
  then show ?thesis by (intro stopping_ok_same [OF assms(1,3,6)]) (auto simp: cleared_def)
next
  case (shutdown ks)
  from shutdown(3) show ?thesis
  proof (cases rule: shutdownStep_cases)
    case clear
    from stopping_ok_clear [OF assms(5,4) clear(1) shutdown(1)] clear(2) show ?thesis
      by (simp add: stopping_ok_def pending_def)
  next
    case (stop i conns)
    have "stoppedConn (sy_conns y') (tk_conn t) \<or> tk_conn t \<in> set conns" if t: "t \<in> set (sy_tasks y)" for t
    proof (cases "tk_conn t = i")
      case True
      have "sy_conns y (ic_ref i) \<noteq> None" using tasks_okD(2) [OF assms(4) t] assms(3) True by (auto simp: store_ok_def)
      then show ?thesis using True stop(2) by (auto simp: stoppedConn_def storeStop_at)
    next
      case False
      with assms(6) stop(1) t have "stoppedConn (sy_conns y) (tk_conn t) \<or> tk_conn t \<in> set conns"
        by (auto simp: stopping_ok_def cleared_def pending_def)
      with stoppedConn_step [OF assms(1,3)] show ?thesis by blast
    qed
    with stop(2) show ?thesis by (simp add: stopping_ok_def pending_def)
  qed (intro stopping_ok_same [OF assms(1,3,6)]; simp add: cleared_def pending_def)+
qed (intro stopping_ok_same [OF assms(1,3,6)]; simp)+

section \<open>The connection gauge\<close>

abbreviation counted :: "task \<Rightarrow> bool" where
  "counted t \<equiv> tk_pc t \<noteq> TaskLeave \<and> tk_pc t \<noteq> TaskDone"

definition gauge_ok :: "('s, 'p) server_sys \<Rightarrow> bool" where
  "gauge_ok y \<longleftrightarrow>
     (\<exists>m. srv_metrics (sy_server y) = Some m \<and> mt_connections m = of_nat (length (filter counted (sy_tasks y))))"

lemma task_step_gauge:
  assumes "n < length (sy_tasks y)" "startConnectionStep n y = Some y'"
  obtains t where "sy_tasks y' = (sy_tasks y)[n := t]"
    "counted t = counted (sy_tasks y ! n) \<and> srv_metrics (sy_server y') = srv_metrics (sy_server y) \<or>
     counted (sy_tasks y ! n) \<and> \<not> counted t \<and> srv_metrics (sy_server y') = AddConnections (- 1) (srv_metrics (sy_server y))"
  using assms
  by (cases "tk_pc (sy_tasks y ! n)") (auto simp: startConnectionStep_def Let_def split: if_splits)

lemma gauge_ok_step:
  assumes "server_step g y y'" "gauge_ok y"
  shows "gauge_ok y'"
  using assms(1)
proof (cases rule: server_step.cases)
  case (start resolve listen err)
  from start(1) show ?thesis by (cases rule: StartWithError_cases) (use assms(2) in \<open>simp_all add: gauge_ok_def\<close>)
next
  case (accept rnd now result)
  then show ?thesis
    by (cases rule: acceptStep_cases) (use assms(2) in \<open>auto simp: gauge_ok_def AddConnections_def\<close>)
next
  case (task n)
  then show ?thesis
  proof (rule task_step_gauge)
    fix t assume t: "sy_tasks y' = (sy_tasks y)[n := t]"
      "counted t = counted (sy_tasks y ! n) \<and> srv_metrics (sy_server y') = srv_metrics (sy_server y) \<or>
       counted (sy_tasks y ! n) \<and> \<not> counted t \<and> srv_metrics (sy_server y') = AddConnections (- 1) (srv_metrics (sy_server y))"
    note len = filter_update_length [OF task(1), of counted t]
    from t(2) show ?thesis
    proof
      assume "counted t = counted (sy_tasks y ! n) \<and> srv_metrics (sy_server y') = srv_metrics (sy_server y)"
      with len assms(2) t(1) show ?thesis by (simp add: gauge_ok_def)
    next
      assume "counted (sy_tasks y ! n) \<and> \<not> counted t \<and> srv_metrics (sy_server y') = AddConnections (- 1) (srv_metrics (sy_server y))"
      then have c: "counted (sy_tasks y ! n)" "\<not> counted t" "srv_metrics (sy_server y') = AddConnections (- 1) (srv_metrics (sy_server y))"
        by blast+
      with len have "length (filter counted (sy_tasks y)) = Suc (length (filter counted (sy_tasks y')))" by (simp add: t(1))
      with assms(2) c(3) show ?thesis by (auto simp: gauge_ok_def AddConnections_def)
    qed
  qed
next
  case (io n)
  then show ?thesis
    using filter_update_length [OF io(2), of counted "(sy_tasks y ! n)\<lparr>tk_io := tk_io (sy_tasks y ! n) - 1\<rparr>"] assms(2)
    by (simp add: gauge_ok_def ioReturn_def Let_def split: if_splits)
next
  case (shutdown ks)
  from shutdown(3) show ?thesis by (cases rule: shutdownStep_cases) (use assms(2) in \<open>simp_all add: gauge_ok_def\<close>)
qed (use assms(2) in \<open>simp_all add: gauge_ok_def ShutdownOnce_def SetOnConnStart_def SetOnConnStop_def\<close>)

section \<open>The history of a connection\<close>

definition event_of :: "nat \<Rightarrow> conn_event \<Rightarrow> bool" where
  "event_of n e = (case e of StartHook m _ \<Rightarrow> m = n | ReaderStarted m \<Rightarrow> m = n | StopHook m _ \<Rightarrow> m = n)"

fun history_ok :: "nat \<Rightarrow> task_pc \<Rightarrow> conn_event list \<Rightarrow> bool" where
  "history_ok n TaskWriter xs \<longleftrightarrow> xs = []"
| "history_ok n TaskStartHook xs \<longleftrightarrow> xs = []"
| "history_ok n TaskReader xs \<longleftrightarrow> (\<exists>b. xs = [StartHook n b])"
| "history_ok n TaskWait xs \<longleftrightarrow> (\<exists>b. xs = [StartHook n b, ReaderStarted n])"
| "history_ok n TaskStopHook xs \<longleftrightarrow> (\<exists>b. xs = [StartHook n b, ReaderStarted n])"
| "history_ok n _ xs \<longleftrightarrow> (\<exists>b b'. xs = [StartHook n b, ReaderStarted n, StopHook n b'])"

definition log_ok :: "('s, 'p) server_sys \<Rightarrow> bool" where
  "log_ok y \<longleftrightarrow>
     (\<forall>n < length (sy_tasks y). history_ok n (tk_pc (sy_tasks y ! n)) (filter (event_of n) (sy_log y))) \<and>
     (\<forall>n \<ge> length (sy_tasks y). filter (event_of n) (sy_log y) = [])"

lemma task_step_log:
  assumes "n < length (sy_tasks y)" "startConnectionStep n y = Some y'"
  obtains t es where "sy_tasks y' = (sy_tasks y)[n := t]" "sy_log y' = sy_log y @ es"
    "filter (event_of n) es = es" "\<And>m. m \<noteq> n \<Longrightarrow> filter (event_of m) es = []"
    "\<And>xs. history_ok n (tk_pc (sy_tasks y ! n)) xs \<Longrightarrow> history_ok n (tk_pc t) (xs @ es)"
  using assms
  by (cases "tk_pc (sy_tasks y ! n)") (auto simp: startConnectionStep_def event_of_def Let_def split: if_splits)

lemma log_ok_same:
  assumes "log_ok y" "map tk_pc (sy_tasks y') = map tk_pc (sy_tasks y)" "sy_log y' = sy_log y"
  shows "log_ok y'"
proof -
  have len: "length (sy_tasks y') = length (sy_tasks y)" using assms(2) by (metis length_map)
  have "tk_pc (sy_tasks y' ! n) = tk_pc (sy_tasks y ! n)" if "n < length (sy_tasks y)" for n
    using assms(2) that len by (metis nth_map)
  with assms(1,3) len show ?thesis by (simp add: log_ok_def)
qed

lemma log_ok_step:
  assumes "server_step g y y'" "log_ok y"
  shows "log_ok y'"
  using assms(1)
proof (cases rule: server_step.cases)
  case (start resolve listen err)
  from start(1) have "sy_tasks y' = sy_tasks y" "sy_log y' = sy_log y" by (cases rule: StartWithError_cases; simp)+
  then show ?thesis by (intro log_ok_same [OF assms(2)]) simp_all
next
  case (accept rnd now result)
  then show ?thesis
  proof (cases rule: acceptStep_cases)
    case (registered i cm)
    then have "sy_tasks y' = sy_tasks y @ [\<lparr> tk_conn = i, tk_pc = TaskWriter, tk_io = 0 \<rparr>]" "sy_log y' = sy_log y" by simp_all
    with assms(2) show ?thesis by (auto simp: log_ok_def nth_append less_Suc_eq)
  qed (intro log_ok_same [OF assms(2)]; simp)+
next
  case (task n)
  then show ?thesis
  proof (rule task_step_log)
    fix t es assume t: "sy_tasks y' = (sy_tasks y)[n := t]" "sy_log y' = sy_log y @ es"
      "filter (event_of n) es = es" "\<And>m. m \<noteq> n \<Longrightarrow> filter (event_of m) es = []"
      "\<And>xs. history_ok n (tk_pc (sy_tasks y ! n)) xs \<Longrightarrow> history_ok n (tk_pc t) (xs @ es)"
    have "history_ok m (tk_pc (sy_tasks y' ! m)) (filter (event_of m) (sy_log y'))" if "m < length (sy_tasks y')" for m
      using that assms(2) t by (cases "m = n") (simp_all add: log_ok_def)
    moreover have "filter (event_of m) (sy_log y') = []" if "m \<ge> length (sy_tasks y')" for m
      using that assms(2) t(1,2) t(4) [of m] task(1) by (cases "m = n") (simp_all add: log_ok_def)
    ultimately show ?thesis by (simp add: log_ok_def)
  qed
next
  case (io n)
  then show ?thesis
    by (intro log_ok_same [OF assms(2)]) (simp_all add: ioReturn_def Let_def map_update list_update_same_conv)
next
  case (shutdown ks)
  from shutdown(3) have "sy_tasks y' = sy_tasks y" "sy_log y' = sy_log y" by (cases rule: shutdownStep_cases; simp)+
  then show ?thesis by (intro log_ok_same [OF assms(2)]) simp_all
qed (intro log_ok_same [OF assms(2)]; simp add: ShutdownOnce_def)+

section \<open>The worker pool under the server\<close>

definition pool_ok :: "('s, 'p) server_sys \<Rightarrow> bool" where
  "pool_ok y \<longleftrightarrow>
     (let p = srv_msgHandler (sy_server y); d = sy_shutdown y
      in pool_inv p \<and> tally_ok p \<and> (d \<notin> {ShutNone, ShutSignalled} \<longrightarrow> mh_stopChan (ps_mh p)) \<and>
         (d \<in> {ShutDrain, ShutDone} \<longrightarrow> mh_stopPoolOnce (ps_mh p)) \<and> (d = ShutDone \<longrightarrow> pool_idle p))"

lemma pool_inv_app: "pool_inv (p\<lparr>ps_app := a\<rparr>) = pool_inv p"
  by (simp add: pool_inv_def lanes_ok_def)

lemma tally_ok_fields [simp]:
  "tally_ok (p\<lparr>ps_app := a\<rparr>) = tally_ok p" "tally_ok (p\<lparr>ps_mh := mh\<rparr>) = tally_ok p"
  "tally_ok (startPool g p) = tally_ok p"
  by (simp_all add: tally_ok_def startPool_def Let_def)

lemma runHook_pool: "\<exists>a. srv_msgHandler (runHook h i s) = (srv_msgHandler s)\<lparr>ps_app := a\<rparr>"
  by (cases h) (auto simp: runHook_def intro: exI [of _ "ps_app (srv_msgHandler s)"])

lemma pool_inv_startPool:
  assumes "pool_inv p" "lock_free p"
  shows "pool_inv (startPool g p)"
  using pool_inv_step [OF assms(1) pool_step.start_step [OF assms(2) refl, of g]] by (simp add: startPool_def Let_def)

lemma pool_inv_beginStop: "pool_inv p \<Longrightarrow> pool_inv (p\<lparr>ps_mh := beginStop (ps_mh p)\<rparr>)"
  using pool_inv_step pool_step.begin_stop_step by blast

lemma pool_inv_closeQueues:
  assumes "pool_inv p" "lock_free p"
  shows "pool_inv (p\<lparr>ps_mh := closeQueues (beginStop (ps_mh p))\<rparr>)"
proof -
  let ?p = "p\<lparr>ps_mh := beginStop (ps_mh p)\<rparr>"
  have "lock_free ?p" using assms(2) by (simp add: lock_free_def)
  moreover have "mh_stopChan (ps_mh ?p)" by (simp add: beginStop_def)
  ultimately show ?thesis
    using pool_inv_step [OF pool_inv_beginStop [OF assms(1)] pool_step.close_step [of ?p]] by simp
qed

lemma task_step_pool:
  assumes "n < length (sy_tasks y)" "startConnectionStep n y = Some y'"
  shows "\<exists>a. srv_msgHandler (sy_server y') = (srv_msgHandler (sy_server y))\<lparr>ps_app := a\<rparr>"
proof -
  have same: "\<exists>a. srv_msgHandler (sy_server y) = (srv_msgHandler (sy_server y))\<lparr>ps_app := a\<rparr>"
    by (rule exI [of _ "ps_app (srv_msgHandler (sy_server y))"]) simp
  from assms same show ?thesis
    by (cases "tk_pc (sy_tasks y ! n)") (auto simp: startConnectionStep_def Let_def runHook_pool split: if_splits)
qed

lemma pool_ok_step:
  assumes "server_step g y y'" "flags_ok y" "pool_ok y"
  shows "pool_ok y'"
  using assms(1)
proof (cases rule: server_step.cases)
  case (start resolve listen err)
  from start(1) show ?thesis
  proof (cases rule: StartWithError_cases)
    case (started address)
    then have "sy_shutdown y = ShutNone" using assms(2) by (auto simp: flags_ok_def Let_def)
    with started assms(3) pool_inv_startPool start(2) show ?thesis by (auto simp: pool_ok_def Let_def)
  qed (use assms(3) in \<open>simp_all add: pool_ok_def\<close>)
next
  case (accept rnd now result)
  then show ?thesis by (cases rule: acceptStep_cases) (use assms(3) in \<open>simp_all add: pool_ok_def\<close>)
next
  case (task n)
  from task have "sy_shutdown y' = sy_shutdown y" by (rule task_step_effect)
  with task_step_pool [OF task] assms(3) show ?thesis by (auto simp: pool_ok_def Let_def pool_idle_def pool_inv_app)
next
  case (io n)
  with assms(3) show ?thesis by (simp add: pool_ok_def ioReturn_def Let_def)
next
  case shutdown_call
  with assms(2,3) show ?thesis by (auto simp: pool_ok_def ShutdownOnce_def flags_ok_def Let_def)
next
  case (shutdown ks)
  from shutdown(3) show ?thesis
  proof (cases rule: shutdownStep_cases)
    case begin_stop
    with assms(3) pool_inv_beginStop [of "srv_msgHandler (sy_server y)"] show ?thesis by (simp add: pool_ok_def Let_def beginStop_def)
  next
    case close_pool
    have "mh_stopChan (closeQueues (beginStop mh))" "mh_stopPoolOnce (closeQueues (beginStop mh))" for mh :: "'a MsgHandle"
      by (simp_all add: closeQueues_def beginStop_def Let_def)
    moreover have "pool_inv (srv_msgHandler (sy_server y))" "tally_ok (srv_msgHandler (sy_server y))"
      using assms(3) by (simp_all add: pool_ok_def Let_def)
    ultimately show ?thesis
      using close_pool pool_inv_closeQueues [OF _ shutdown(2) [OF close_pool(1)]] by (simp add: pool_ok_def Let_def)
  qed (use assms(3) in \<open>simp_all add: pool_ok_def Let_def\<close>)
next
  case (pool p)
  from assms(3) have "pool_inv p" "tally_ok p"
    using pool_inv_step [OF _ pool(2)] tally_ok_step [OF _ pool(2)] by (simp_all add: pool_ok_def Let_def)
  moreover have "pool_idle p" if "sy_shutdown y = ShutDone"
    using that pool_idle_step [OF pool(2)] assms(3) by (simp add: pool_ok_def Let_def)
  ultimately show ?thesis using pool assms(3) by (simp add: pool_ok_def Let_def same_control_def)
qed (use assms(3) in \<open>simp_all add: pool_ok_def SetOnConnStart_def SetOnConnStop_def\<close>)

section \<open>The invariant of the server\<close>

definition bounded_ok :: "Config \<Rightarrow> ('s, 'p) server_sys \<Rightarrow> bool" where
  "bounded_ok g y \<longleftrightarrow> cm_inv g (srv_connMgr (sy_server y))"

definition server_inv :: "Config \<Rightarrow> ('s, 'p) server_sys \<Rightarrow> bool" where
  "server_inv g y \<longleftrightarrow> flags_ok y \<and> wait_ok y \<and> late_ok y \<and> listen_ok y \<and> store_ok y \<and> tasks_ok y \<and> registry_ok y \<and>
     stopping_ok y \<and> gauge_ok y \<and> log_ok y \<and> pool_ok y \<and> bounded_ok g y"

lemma server_invD:
  assumes "server_inv g y"
  shows "flags_ok y" "wait_ok y" "late_ok y" "listen_ok y" "store_ok y" "tasks_ok y" "registry_ok y" "stopping_ok y"
    "gauge_ok y" "log_ok y" "pool_ok y" "bounded_ok g y"
  using assms by (simp_all add: server_inv_def)

lemma task_step_connMgr:
  assumes "n < length (sy_tasks y)" "startConnectionStep n y = Some y'"
  shows "srv_connMgr (sy_server y') = srv_connMgr (sy_server y) \<or> (\<exists>k. srv_connMgr (sy_server y') = Remove k (srv_connMgr (sy_server y)))"
  using assms by (cases rule: task_step_registered) auto

lemma bounded_ok_step:
  assumes "server_step g y y'" "bounded_ok g y"
  shows "bounded_ok g y'"
  using assms(1)
proof (cases rule: server_step.cases)
  case (start resolve listen err)
  from start(1) show ?thesis by (cases rule: StartWithError_cases) (use assms(2) in \<open>simp_all add: bounded_ok_def\<close>)
next
  case (accept rnd now result)
  then show ?thesis
  proof (cases rule: acceptStep_cases)
    case (registered i cm)
    then show ?thesis using cm_inv_Add [of g "srv_connMgr (sy_server y)" "Some i"] assms(2) by (simp add: bounded_ok_def)
  qed (use assms(2) in \<open>simp_all add: bounded_ok_def\<close>)
next
  case (task n)
  with task_step_connMgr [OF task] assms(2) show ?thesis by (auto simp: bounded_ok_def cm_inv_Remove)
next
  case (io n)
  with assms(2) show ?thesis by (simp add: bounded_ok_def ioReturn_def Let_def)
next
  case (shutdown ks)
  from shutdown(3) show ?thesis
    by (cases rule: shutdownStep_cases) (use assms(2) in \<open>simp_all add: bounded_ok_def cm_inv_def\<close>)
qed (use assms(2) in \<open>simp_all add: bounded_ok_def ShutdownOnce_def SetOnConnStart_def SetOnConnStop_def\<close>)

lemma server_inv_step: "server_inv g y \<Longrightarrow> server_step g y y' \<Longrightarrow> server_inv g y'"
  using flags_ok_step [of g y y'] wait_ok_step [of g y y'] late_ok_step [of g y y'] listen_ok_step [of g y y']
    conns_step [of g y y'] tasks_ok_step [of g y y'] registry_ok_step [of g y y'] stopping_ok_step [of g y y']
    gauge_ok_step [of g y y'] log_ok_step [of g y y'] pool_ok_step [of g y y'] bounded_ok_step [of g y y']
  by (simp add: server_inv_def)

text \<open>A configured server is a new one but for its routers and hooks.\<close>

definition fresh_server :: "'s Server \<Rightarrow> bool" where
  "fresh_server s \<longleftrightarrow> \<not> srv_stopOnce s \<and> \<not> srv_stopChan s \<and> \<not> srv_stopped s \<and> srv_connWait s = 0 \<and> \<not> srv_shutdownOnce s \<and>
     \<not> srv_shutdownDone s \<and> \<not> srv_startOnce s \<and> srv_startErr s = None \<and> srv_listener s = None \<and>
     srv_metrics s = Some zeroMetrics \<and> cm_connections (srv_connMgr s) = Map.empty \<and> pool_inv (srv_msgHandler s) \<and>
     tally_ok (srv_msgHandler s)"

lemma configured_fresh: "configured g s \<Longrightarrow> fresh_server s"
proof (induction rule: configured.induct)
  case (new config app)
  show ?case
    by (simp add: fresh_server_def newServer_def newConnManager_def pool_inv_def handler_ok_def calls_ok_def lanes_ok_def
        tally_ok_def newMsgHandle_def SetMetrics_def Let_def)
next
  case (router s msgId router s')
  then have "s' = s\<lparr>srv_msgHandler := (srv_msgHandler s)\<lparr>ps_mh := (ps_mh (srv_msgHandler s))
      \<lparr>mh_Apis := (mh_Apis (ps_mh (srv_msgHandler s)))(msgId \<mapsto> router)\<rparr>\<rparr>\<rparr>"
    by (auto simp: ServerAddRouter_def AddRouter_def split: if_splits)
  with router.IH show ?case by (simp add: fresh_server_def pool_inv_def handler_ok_def lanes_ok_def)
qed (simp_all add: fresh_server_def SetOnConnStart_def SetOnConnStop_def)

lemma server_inv_init:
  assumes "server_init g y"
  shows "server_inv g y"
proof -
  have "fresh_server (sy_server y)" using assms configured_fresh by (auto simp: server_init_def)
  with assms show ?thesis
    by (simp add: fresh_server_def server_inv_def server_init_def flags_ok_def wait_ok_def late_ok_def late_def listen_ok_def
        store_ok_def tasks_ok_def registry_ok_def cleared_def stopping_ok_def gauge_ok_def zeroMetrics_def
        log_ok_def pool_ok_def bounded_ok_def cm_inv_def)
qed

interpretation server: invariant_system "server_init g" "server_step g" "server_inv g" for g
  by unfold_locales (fact server_inv_init, fact server_inv_step)

section \<open>After the shutdown\<close>

lemma done_tasks:
  assumes "server_inv g y" "late (sy_shutdown y)"
  shows "srv_connWait (sy_server y) = 0" "\<not> accepting (sy_accept y)" "t \<in> set (sy_tasks y) \<Longrightarrow> tk_pc t = TaskDone"
proof -
  show zero: "srv_connWait (sy_server y) = 0" using server_invD(3) [OF assms(1)] assms(2) by (simp add: late_ok_def)
  have "(if accepting (sy_accept y) then 1 else 0) + length (filter live (sy_tasks y)) = 0"
    using server_invD(2) [OF assms(1)] zero by (simp only: wait_ok_def)
  then show "\<not> accepting (sy_accept y)" "t \<in> set (sy_tasks y) \<Longrightarrow> tk_pc t = TaskDone"
    by (auto simp: filter_empty_conv split: if_splits)
qed

lemma acceptStep_none: "\<not> accepting (sy_accept y) \<Longrightarrow> acceptStep g rnd now result y = None"
  by (cases "sy_accept y") (simp_all add: acceptStep_def)

lemma done_step:
  assumes inv: "server_inv g y" and "sy_shutdown y = ShutDone" and step: "server_step g y y'"
  shows "sy_shutdown y' = ShutDone \<and> sy_tasks y' = sy_tasks y \<and> sy_log y' = sy_log y \<and>
    ps_accepted (srv_msgHandler (sy_server y')) = ps_accepted (srv_msgHandler (sy_server y))"
proof -
  have late: "late (sy_shutdown y)" using assms(2) by (simp add: late_def)
  note quiet = done_tasks [OF inv late]
  note flags = server_invD(1) [OF inv]
  have over: "srv_stopped (sy_server y)" "srv_shutdownOnce (sy_server y)"
    using flags assms(2) by (auto simp: flags_ok_def Let_def)
  have stuck: "startConnectionStep n y = None" "tk_io (sy_tasks y ! n) = 0" if "n < length (sy_tasks y)" for n
    using quiet(3) [OF nth_mem [OF that]] tasks_okD(3) [OF server_invD(6) [OF inv] nth_mem [OF that]]
    by (simp_all add: startConnectionStep_def Let_def)
  from step show ?thesis
  proof (cases rule: server_step.cases)
    case (start resolve listen err)
    from start(1) show ?thesis by (cases rule: StartWithError_cases) (use over assms(2) in simp_all)
  next
    case (accept rnd now result)
    with acceptStep_none [OF quiet(2)] show ?thesis by simp
  next
    case (shutdown ks)
    with assms(2) show ?thesis by (simp add: shutdownStep_def)
  next
    case (pool p)
    have "pool_inv (srv_msgHandler (sy_server y))" "mh_stopPoolOnce (ps_mh (srv_msgHandler (sy_server y)))"
      using server_invD(11) [OF inv] assms(2) by (simp_all add: pool_ok_def Let_def)
    from pool_stopped_accepts_nothing [OF this pool(2)] pool(1) assms(2) show ?thesis by simp
  qed (use stuck over assms(2) in \<open>simp_all add: ShutdownOnce_def SetOnConnStart_def SetOnConnStop_def\<close>)
qed

lemma done_steps:
  assumes "(server_step g)\<^sup>*\<^sup>* y y'" "server_inv g y" "sy_shutdown y = ShutDone"
  shows "server_inv g y' \<and> sy_shutdown y' = ShutDone \<and> sy_tasks y' = sy_tasks y \<and> sy_log y' = sy_log y \<and>
    ps_accepted (srv_msgHandler (sy_server y')) = ps_accepted (srv_msgHandler (sy_server y))"
  using assms
proof (induction rule: rtranclp_induct)
  case (step y1 y2)
  then show ?case using done_step [OF _ _ step.hyps(2)] server_inv_step [OF _ step.hyps(2)] by simp
qed simp

lemma history_done: "log_ok y \<Longrightarrow> n < length (sy_tasks y) \<Longrightarrow> tk_pc (sy_tasks y ! n) = TaskDone \<Longrightarrow>
    \<exists>b b'. filter (event_of n) (sy_log y) = [StartHook n b, ReaderStarted n, StopHook n b']"
  unfolding log_ok_def by fastforce

lemma stopped_step:
  assumes "server_step g y y'" "srv_stopped (sy_server y)"
  shows "srv_stopped (sy_server y')"
  using assms(1)
proof (cases rule: server_step.cases)
  case (start resolve listen err)
  from start(1) show ?thesis by (cases rule: StartWithError_cases) (use assms(2) in simp_all)
next
  case (accept rnd now result)
  then show ?thesis by (cases rule: acceptStep_cases) (use assms(2) in simp_all)
next
  case (task n)
  then have "srv_stopped (sy_server y') = srv_stopped (sy_server y)" by (rule task_step_effect)
  with assms(2) show ?thesis by simp
next
  case (shutdown ks)
  from shutdown(3) show ?thesis by (cases rule: shutdownStep_cases) (use assms(2) in simp_all)
qed (use assms(2) in \<open>simp_all add: ioReturn_def ShutdownOnce_def signalStop_def SetOnConnStart_def SetOnConnStop_def Let_def\<close>)

section \<open>Properties\<close>

text \<open>C3: when \<open>Shutdown\<close> has returned nil the server is at rest and stays so: the listener is closed, the
  accept loop and every connection's goroutine have returned, every connection that was ever registered
  is stopped and has had its start hook, its reader and its stop hook once and in this order, no
  connection is registered and the gauge is zero. Every request the message handler accepted, in a queue
  or for a goroutine of its own, has been handled exactly once and those of a queue in order, no worker
  and no such goroutine is left, and no request is accepted any more.\<close>
theorem server_shutdown_complete:
  assumes "reach (server_init g) (server_step g) y" "ShutdownReturns None (sy_server y) = Some None"
    and "(server_step g)\<^sup>*\<^sup>* y y'"
  shows "\<not> sy_listening y' \<and> srv_connWait (sy_server y') = 0 \<and> \<not> accepting (sy_accept y') \<and>
    sy_tasks y' = sy_tasks y \<and> cm_connections (GetConnMgr (sy_server y')) = Map.empty \<and>
    sn_Connections (GetMetrics (Some (sy_server y'))) = 0 \<and>
    (\<forall>n < length (sy_tasks y'). tk_pc (sy_tasks y' ! n) = TaskDone \<and> stoppedConn (sy_conns y') (tk_conn (sy_tasks y' ! n)) \<and>
       (\<exists>b b'. filter (event_of n) (sy_log y') = [StartHook n b, ReaderStarted n, StopHook n b'])) \<and>
    mset (ps_handled (srv_msgHandler (sy_server y'))) = mset (ps_accepted (srv_msgHandler (sy_server y'))) \<and>
    ps_direct (srv_msgHandler (sy_server y')) = [] \<and>
    list_all (\<lambda>st. st = WorkerExited) (ps_workers (srv_msgHandler (sy_server y'))) \<and>
    (\<forall>k. of_conn k (ps_finished (srv_msgHandler (sy_server y'))) = of_conn k (ps_queued (srv_msgHandler (sy_server y')))) \<and>
    ps_accepted (srv_msgHandler (sy_server y')) = ps_accepted (srv_msgHandler (sy_server y)) \<and>
    (\<forall>r. admit r (ps_mh (srv_msgHandler (sy_server y'))) = Stopped)"
proof -
  have inv: "server_inv g y" using server.reach_inv [OF assms(1)] .
  have "srv_shutdownDone (sy_server y)" using assms(2) by (simp add: ShutdownReturns_def split: if_splits)
  then have shut: "sy_shutdown y = ShutDone" using server_invD(1) [OF inv] by (simp add: flags_ok_def Let_def)
  note end_state = done_steps [OF assms(3) inv shut]
  then have inv': "server_inv g y'" and shut': "sy_shutdown y' = ShutDone" by simp_all
  have late: "late (sy_shutdown y')" using shut' by (simp add: late_def)
  note quiet = done_tasks [OF inv' late]
  note D = server_invD [OF inv']
  have listening: "\<not> sy_listening y'" using D(4) shut' by (auto simp: listen_ok_def Let_def)
  have empty: "cm_connections (srv_connMgr (sy_server y')) = Map.empty"
    using D(7) shut' by (simp add: registry_ok_def cleared_def)
  have "filter counted (sy_tasks y') = []" using quiet(3) by (auto simp: filter_empty_conv)
  then have gauge: "sn_Connections (TakeSnapshot (srv_metrics (sy_server y'))) = 0"
    using D(9) by (auto simp: gauge_ok_def TakeSnapshot_def)
  have "tk_pc (sy_tasks y' ! n) = TaskDone \<and> stoppedConn (sy_conns y') (tk_conn (sy_tasks y' ! n)) \<and>
       (\<exists>b b'. filter (event_of n) (sy_log y') = [StartHook n b, ReaderStarted n, StopHook n b'])"
    if n: "n < length (sy_tasks y')" for n
    using quiet(3) [OF nth_mem [OF n]] tasks_okD(3) [OF D(6) nth_mem [OF n]] history_done [OF D(10) n] by simp
  moreover
  have pool: "pool_inv (srv_msgHandler (sy_server y'))" "tally_ok (srv_msgHandler (sy_server y'))"
    "pool_idle (srv_msgHandler (sy_server y'))" "mh_stopChan (ps_mh (srv_msgHandler (sy_server y')))"
    using D(11) shut' by (simp_all add: pool_ok_def Let_def)
  note handled = pool_all_handled [OF pool(1-3)] pool_drained [OF pool(1,3)]
  moreover have "\<forall>r. admit r (ps_mh (srv_msgHandler (sy_server y'))) = Stopped" using pool(4) by (simp add: admit_def)
  ultimately show ?thesis
    using listening quiet(1,2) empty gauge end_state pool(3) by (simp add: GetConnMgr_def GetMetrics_def pool_idle_def)
qed

text \<open>C4: in every reachable state, until \<open>Shutdown\<close> empties the registry with \<open>ClearConn\<close>, the registered
  connections are exactly those whose goroutine has not removed them, each under its own id. From then on
  no connection is found, although the goroutines may still run, and every connection is stopped or among
  those that \<open>ClearConn\<close> has still to stop. There are never more than \<open>MaxConn\<close> registered connections,
  the gauge counts the connections that have not been counted off, and the wait group counts the accept
  loop and the goroutines that have not returned; these three hold during the shutdown as well.\<close>
theorem server_connections_accounted:
  assumes "reach (server_init g) (server_step g) y" "length (sy_tasks y) < 2 ^ 63"
  shows "(\<forall>k i. Get k (GetConnMgr (sy_server y)) = Inr i \<longleftrightarrow>
       \<not> cleared (sy_shutdown y) \<and> (\<exists>t \<in> set (sy_tasks y). registered t \<and> tk_conn t = i \<and> ic_connID i = k)) \<and>
    (cleared (sy_shutdown y) \<longrightarrow>
       (\<forall>t \<in> set (sy_tasks y). stoppedConn (sy_conns y) (tk_conn t) \<or> tk_conn t \<in> pending (sy_shutdown y))) \<and>
    (let maxConn = MaxConn (effectiveConfig g (cm_config (GetConnMgr (sy_server y))))
     in maxConn > 0 \<longrightarrow> int (ConnLen (GetConnMgr (sy_server y))) \<le> maxConn) \<and>
    sn_Connections (GetMetrics (Some (sy_server y))) =
      int (length (filter (\<lambda>t. tk_pc t \<noteq> TaskLeave \<and> tk_pc t \<noteq> TaskDone) (sy_tasks y))) \<and>
    srv_connWait (sy_server y) = (if accepting (sy_accept y) then 1 else 0) + length (filter live (sy_tasks y))"
proof -
  note D = server_invD [OF server.reach_inv [OF assms(1)]]
  obtain m where m: "srv_metrics (sy_server y) = Some m" "mt_connections m = of_nat (length (filter counted (sy_tasks y)))"
    using D(9) by (auto simp: gauge_ok_def)
  have "length (filter counted (sy_tasks y)) < 2 ^ 63" using assms(2) length_filter_le le_less_trans by blast
  then have "sn_Connections (TakeSnapshot (srv_metrics (sy_server y))) = int (length (filter counted (sy_tasks y)))"
    using snapshot_gauge [OF m(2)] m(1) by simp
  moreover have "Get k (srv_connMgr (sy_server y)) = Inr i \<longleftrightarrow> cm_connections (srv_connMgr (sy_server y)) k = Some i" for k i
    by (simp add: Get_def split: option.split)
  moreover have "MaxConn (effectiveConfig g (cm_config (srv_connMgr (sy_server y)))) > 0 \<longrightarrow>
      int (map_len (cm_connections (srv_connMgr (sy_server y)))) \<le> MaxConn (effectiveConfig g (cm_config (srv_connMgr (sy_server y))))"
    using D(12) unfolding bounded_ok_def cm_inv_def by blast
  moreover have "cm_connections (srv_connMgr (sy_server y)) k = Some i \<longleftrightarrow>
      \<not> cleared (sy_shutdown y) \<and> (\<exists>t \<in> set (sy_tasks y). registered t \<and> tk_conn t = i \<and> ic_connID i = k)" for k i
    using D(7) by (cases "cleared (sy_shutdown y)") (simp_all add: registry_ok_def)
  moreover have "cleared (sy_shutdown y) \<longrightarrow>
      (\<forall>t \<in> set (sy_tasks y). stoppedConn (sy_conns y) (tk_conn t) \<or> tk_conn t \<in> pending (sy_shutdown y))"
    using D(8) unfolding stopping_ok_def .
  ultimately show ?thesis
    using D(2) unfolding GetConnMgr_def GetMetrics_def ConnLen_def Let_def wait_ok_def option.case
    by (intro conjI) simp_all
qed

text \<open>C5: the hooks bracket the life of a connection: its reader starts after the start hook has returned,
  each hook runs at most once, and the stop hook runs only after the connection was stopped and its reader
  and writer have returned. As long as the stop hook has not run, a lookup finds the connection in the
  registry, with one exception: once \<open>ClearConn\<close> of a shutdown has emptied the registry, lookups fail for
  every connection, whether its stop hook has run or not.\<close>
theorem server_hooks_bracket_connection:
  assumes "reach (server_init g) (server_step g) y" "n < length (sy_tasks y)"
  shows "(\<exists>b b'. prefix (filter (event_of n) (sy_log y)) [StartHook n b, ReaderStarted n, StopHook n b']) \<and>
    (\<forall>b. StopHook n b \<in> set (sy_log y) \<longrightarrow>
       stoppedConn (sy_conns y) (tk_conn (sy_tasks y ! n)) \<and> tk_io (sy_tasks y ! n) = 0) \<and>
    (if cleared (sy_shutdown y) then \<forall>k. \<exists>e. Get k (GetConnMgr (sy_server y)) = Inl e
     else (\<forall>b. StopHook n b \<notin> set (sy_log y)) \<longrightarrow>
       Get (ic_connID (tk_conn (sy_tasks y ! n))) (GetConnMgr (sy_server y)) = Inr (tk_conn (sy_tasks y ! n)))"
proof -
  note D = server_invD [OF server.reach_inv [OF assms(1)]]
  let ?t = "sy_tasks y ! n"
  define xs where "xs = filter (event_of n) (sy_log y)"
  have history: "history_ok n (tk_pc ?t) xs" using D(10) assms(2) by (simp add: log_ok_def xs_def)
  have in_log: "StopHook n b \<in> set (sy_log y) \<longleftrightarrow> StopHook n b \<in> set xs" for b
    by (simp add: event_of_def xs_def)
  have "\<exists>b b'. prefix xs [StartHook n b, ReaderStarted n, StopHook n b']"
    using history by (cases "tk_pc ?t") auto
  moreover have "ended ?t" if "StopHook n b \<in> set (sy_log y)" for b
    using that history unfolding in_log by (cases "tk_pc ?t") auto
  moreover have "registered ?t" if "\<forall>b. StopHook n b \<notin> set (sy_log y)"
    using that history unfolding in_log registered_def by (cases "tk_pc ?t") auto
  moreover have "Get (ic_connID (tk_conn ?t)) (srv_connMgr (sy_server y)) = Inr (tk_conn ?t)"
    if "registered ?t" "\<not> cleared (sy_shutdown y)"
    using registry_okD [OF D(7) that(2), of "ic_connID (tk_conn ?t)" "tk_conn ?t"] nth_mem [OF assms(2)] that(1)
    by (auto simp: Get_def)
  moreover have "\<exists>e. Get k (srv_connMgr (sy_server y)) = Inl e" if "cleared (sy_shutdown y)" for k
    using D(7) that by (simp add: registry_ok_def Get_def)
  ultimately show ?thesis
    using tasks_okD(3) [OF D(6) nth_mem [OF assms(2)]] unfolding GetConnMgr_def xs_def by (cases "cleared (sy_shutdown y)") auto
qed

text \<open>starting is reported truthfully and happens once: \<open>StartWithError\<close> returns nil only if the accept
  loop runs and the server is not stopped; after an error the server is stopped, and no later call
  succeeds; a second call changes nothing.\<close>
theorem server_start_reports:
  assumes "reach (server_init g) (server_step g) y" "StartWithError g resolve listen y = (err, y')"
  shows "(err = None \<longrightarrow> accepting (sy_accept y') \<and> \<not> srv_stopped (sy_server y')) \<and>
    (err \<noteq> None \<longrightarrow> srv_stopped (sy_server y')) \<and> (srv_startOnce (sy_server y) \<longrightarrow> y' = y) \<and>
    (\<forall>r l y2. err \<noteq> None \<longrightarrow> (server_step g)\<^sup>*\<^sup>* y' y2 \<longrightarrow> fst (StartWithError g r l y2) \<noteq> None)"
proof -
  have inv: "server_inv g y" using server.reach_inv [OF assms(1)] .
  have result: "err = (if srv_startErr (sy_server y') \<noteq> None then srv_startErr (sy_server y')
      else if srv_stopped (sy_server y') then Some ErrClosed else None)"
    using assms(2) by (auto simp: StartWithError_def Let_def)
  have flags: "flags_ok y'"
    using assms(2)
    by (cases rule: StartWithError_cases)
      (use server_invD(1) [OF inv] in \<open>simp_all add: flags_ok_def Let_def signalStop_def\<close>)
  have "srv_startOnce (sy_server y')" using assms(2) by (cases rule: StartWithError_cases) simp_all
  then have ok: "err = None \<longrightarrow> accepting (sy_accept y') \<and> \<not> srv_stopped (sy_server y')"
    using flags result by (auto simp: flags_ok_def Let_def split: if_splits)
  have stopped: "err \<noteq> None \<longrightarrow> srv_stopped (sy_server y')"
    using flags result by (auto simp: flags_ok_def Let_def split: if_splits)
  have again: "srv_startOnce (sy_server y) \<longrightarrow> y' = y"
    using assms(2) by (auto simp: StartWithError_def Let_def)
  have later: "fst (StartWithError g r l y2) \<noteq> None" if "err \<noteq> None" "(server_step g)\<^sup>*\<^sup>* y' y2" for r l y2
  proof -
    have "srv_stopped (sy_server y2)" using that(2) stopped that(1)
      by (induction rule: rtranclp_induct) (auto dest: stopped_step)
    then show ?thesis by (simp add: StartWithError_def startBody_def Let_def)
  qed
  from ok stopped again later show ?thesis by blast
qed

section \<open>A concrete run\<close>

text \<open>
  A server without workers accepts one connection, whose reader and writer return, and is shut down. The
  actions are steps whose guards are evaluated.
\<close>

datatype server_action = ActStart | ActAccept accept_result | ActTask nat | ActIo nat | ActCall | ActShutdown "u32 list"

fun perform :: "Config \<Rightarrow> server_action \<Rightarrow> ('s, 'p) server_sys \<Rightarrow> ('s, 'p) server_sys option" where
  "perform g ActStart y =
     (if lock_free (srv_msgHandler (sy_server y)) then Some (snd (StartWithError g None (Inr ''127.0.0.1:7777'') y)) else None)"
| "perform g (ActAccept result) y = acceptStep g (\<lambda>x. x) 0 result y"
| "perform g (ActTask n) y = (if n < length (sy_tasks y) then startConnectionStep n y else None)"
| "perform g (ActIo n) y = (if n < length (sy_tasks y) \<and> 0 < tk_io (sy_tasks y ! n) then Some (ioReturn n y) else None)"
| "perform g ActCall y = Some (ShutdownOnce y)"
| "perform g (ActShutdown ks) y =
     (if map_order (cm_connections (srv_connMgr (sy_server y))) ks \<and> lock_free (srv_msgHandler (sy_server y))
      then shutdownStep ks y else None)"

fun performs :: "Config \<Rightarrow> server_action list \<Rightarrow> ('s, 'p) server_sys \<Rightarrow> ('s, 'p) server_sys option" where
  "performs g [] y = Some y"
| "performs g (a # as) y = (case perform g a y of None \<Rightarrow> None | Some y' \<Rightarrow> performs g as y')"

lemma perform_step: "perform g a y = Some y' \<Longrightarrow> server_step g y y'"
proof (cases a)
  case ActStart
  assume "perform g a y = Some y'"
  with ActStart have "lock_free (srv_msgHandler (sy_server y))" "StartWithError g None (Inr ''127.0.0.1:7777'') y = (fst (StartWithError g None (Inr ''127.0.0.1:7777'') y), y')"
    by (auto split: if_splits)
  then show ?thesis by (intro server_step.start) auto
qed (auto intro: server_step.intros split: if_splits)

lemma performs_reach: "performs g as y = Some y' \<Longrightarrow> reach (server_init g) (server_step g) y \<Longrightarrow> reach (server_init g) (server_step g) y'"
proof (induction as arbitrary: y)
  case (Cons a as)
  then obtain y1 where "perform g a y = Some y1" "performs g as y1 = Some y'" by (auto split: option.splits)
  with Cons.IH reach_step [OF Cons.prems(2) perform_step] show ?case by blast
qed simp

definition demo_server :: "(unit, unit) server_sys" where
  "demo_server = \<lparr> sy_server = newServer (DefaultConfig\<lparr>WorkerPoolSize := 0, MaxConn := 0\<rparr>) None (), sy_conns = Map.empty, sy_next = 0,
     sy_cid = 0, sy_listening = False, sy_accept = AcceptNone, sy_tasks = [], sy_shutdown = ShutNone, sy_log = [] \<rparr>"

abbreviation demo_server_config :: Config where
  "demo_server_config \<equiv> DefaultConfig\<lparr>WorkerPoolSize := 0, MaxConn := 0\<rparr>"

lemma demo_server_init: "reach (server_init demo_server_config) (server_step demo_server_config) demo_server"
  by (rule reach_init) (simp add: server_init_def demo_server_def configured.new)

definition demo_serving :: "server_action list" where
  "demo_serving = [ActStart,
     ActAccept (Accepted \<lparr> sk_out = [], sk_script = [], sk_closed = False, sk_in = \<lparr> rd_chunks = [], rd_err = Err ''EOF'' \<rparr> \<rparr>),
     ActAccept AcceptError, ActAccept AcceptError, ActTask 0, ActTask 0, ActTask 0]"

definition demo_shutdown :: "server_action list" where
  "demo_shutdown = [ActCall, ActShutdown [0], ActShutdown [0], ActShutdown [0], ActShutdown [0], ActShutdown [], ActShutdown [],
     ActIo 0, ActIo 0, ActTask 0, ActTask 0, ActTask 0, ActTask 0, ActTask 0, ActAccept AcceptError,
     ActShutdown [], ActShutdown [], ActShutdown []]"

lemmas demo_defs = perform.simps performs.simps StartWithError_def startBody_def acceptStep_def startConnectionStep_def ioReturn_def
  ShutdownOnce_def shutdownStep_def on_server_def setTask_def runHook_def on_handler_def signalStop_def acceptExit_def
  startPool_def StartWorkerPool_def beginStop_def closeQueues_def pool_idle_def lock_free_def map_order_def Add_def Remove_def
  ClearConn_def storeStop_def stoppedConn_def newServer_def newMsgHandle_def SetMetrics_def newConnManager_def newConnection_def
  setMetrics_def Stop_def startWriter_def AddConnections_def zeroMetrics_def DefaultConfig_def effectiveConfig_def Let_def

lemma demo_serving_run:
  "\<exists>y. performs demo_server_config demo_serving demo_server = Some y \<and> length (sy_tasks y) = 1 \<and>
     sy_log y = [StartHook 0 False, ReaderStarted 0] \<and> sy_shutdown y = ShutNone \<and> sy_accept y = AcceptWait \<and>
     map tk_pc (sy_tasks y) = [TaskWait]"
  by (simp add: demo_serving_def demo_server_def demo_defs)

lemma demo_shutdown_run:
  "\<exists>y. performs demo_server_config (demo_serving @ demo_shutdown) demo_server = Some y \<and> length (sy_tasks y) = 1 \<and>
     srv_shutdownDone (sy_server y)"
  by (simp add: demo_serving_def demo_shutdown_def demo_server_def demo_defs)

theorem server_shutdown_complete_witness:
  "\<exists>y. performs demo_server_config (demo_serving @ demo_shutdown) demo_server = Some y \<and> length (sy_tasks y) = 1 \<and>
     tk_pc (sy_tasks y ! 0) = TaskDone \<and> cm_connections (GetConnMgr (sy_server y)) = Map.empty \<and>
     (\<exists>b b'. filter (event_of 0) (sy_log y) = [StartHook 0 b, ReaderStarted 0, StopHook 0 b'])"
proof -
  obtain y where y: "performs demo_server_config (demo_serving @ demo_shutdown) demo_server = Some y" "length (sy_tasks y) = 1"
    "srv_shutdownDone (sy_server y)" using demo_shutdown_run by blast
  have "ShutdownReturns None (sy_server y) = Some None" using y(3) by (simp add: ShutdownReturns_def)
  note rest = server_shutdown_complete [OF performs_reach [OF y(1) demo_server_init] this rtranclp.rtrancl_refl]
  have "\<forall>n < length (sy_tasks y). tk_pc (sy_tasks y ! n) = TaskDone \<and> stoppedConn (sy_conns y) (tk_conn (sy_tasks y ! n)) \<and>
       (\<exists>b b'. filter (event_of n) (sy_log y) = [StartHook n b, ReaderStarted n, StopHook n b'])"
    using rest by (elim conjE)
  moreover have "cm_connections (GetConnMgr (sy_server y)) = Map.empty" using rest by (elim conjE)
  ultimately show ?thesis using y by (intro exI [of _ y]) simp
qed

theorem server_connections_accounted_witness:
  "\<exists>y. performs demo_server_config demo_serving demo_server = Some y \<and> length (sy_tasks y) = 1 \<and>
     sn_Connections (GetMetrics (Some (sy_server y))) = 1 \<and> srv_connWait (sy_server y) = 2"
proof -
  obtain y t where y: "performs demo_server_config demo_serving demo_server = Some y" "sy_tasks y = [t]" "tk_pc t = TaskWait"
    "sy_accept y = AcceptWait"
    using demo_serving_run by (auto simp: map_eq_Cons_conv)
  have "length (sy_tasks y) < 2 ^ 63" using y(2) by simp
  note all = server_connections_accounted [OF performs_reach [OF y(1) demo_server_init] this]
  have "sn_Connections (GetMetrics (Some (sy_server y))) =
      int (length (filter (\<lambda>t. tk_pc t \<noteq> TaskLeave \<and> tk_pc t \<noteq> TaskDone) (sy_tasks y)))"
    using all by (elim conjE)
  moreover have "srv_connWait (sy_server y) = (if accepting (sy_accept y) then 1 else 0) + length (filter live (sy_tasks y))"
    using all by (elim conjE)
  ultimately show ?thesis using y by (intro exI [of _ y]) simp
qed

theorem server_hooks_bracket_connection_witness:
  "\<exists>y i. performs demo_server_config demo_serving demo_server = Some y \<and> sy_log y = [StartHook 0 False, ReaderStarted 0] \<and>
     Get (ic_connID i) (GetConnMgr (sy_server y)) = Inr i"
proof -
  obtain y where y: "performs demo_server_config demo_serving demo_server = Some y" "length (sy_tasks y) = 1"
    "sy_log y = [StartHook 0 False, ReaderStarted 0]" "sy_shutdown y = ShutNone"
    using demo_serving_run by blast
  have n: "0 < length (sy_tasks y)" using y(2) by simp
  have "\<not> cleared (sy_shutdown y)" "\<forall>b. StopHook 0 b \<notin> set (sy_log y)" using y(3,4) by (simp_all add: cleared_def)
  with conjunct2 [OF conjunct2 [OF server_hooks_bracket_connection [OF performs_reach [OF y(1) demo_server_init] n]]] y
  show ?thesis by (intro exI [of _ y] exI [of _ "tk_conn (sy_tasks y ! 0)"]) simp
qed

theorem server_start_reports_witness:
  "\<exists>y'. StartWithError demo_server_config (Some (Err ''bad address'')) (Inl (Err ''unused'')) demo_server = (Some (Err ''bad address''), y') \<and>
     srv_stopped (sy_server y') \<and> fst (StartWithError demo_server_config None (Inr ''127.0.0.1:7777'') y') \<noteq> None"
proof -
  obtain y' where run: "StartWithError demo_server_config (Some (Err ''bad address'')) (Inl (Err ''unused'')) demo_server = (Some (Err ''bad address''), y')"
    by (simp add: demo_server_def demo_defs)
  note all = server_start_reports [OF demo_server_init run]
  have "srv_stopped (sy_server y')" using all by simp
  moreover have "fst (StartWithError demo_server_config None (Inr ''127.0.0.1:7777'') y') \<noteq> None"
    using conjunct2 [OF conjunct2 [OF conjunct2 [OF all]], rule_format, of y'] by simp
  ultimately show ?thesis using run by blast
qed

end
