(* ===== verification/AOI.thy ===== *)
theory AOI
  imports Prelude StepSystem "HOL-Library.Monad_Syntax"
begin

text \<open>
  The area-of-interest grid of \<open>gcore/aoi.go\<close>. A \<open>float64\<close> is a real number, an infinity or
  NaN, with the comparisons of IEEE 754. The rounding of a quotient and the conversion of a value
  that does not fit into \<open>int\<close>, which Go leaves to the platform, are the two fields of the
  argument \<open>fpu\<close>. A cell coordinate is a 64-bit \<open>int\<close>; the loop over the neighbouring cells
  compares and increments such values, and \<open>None\<close> is a loop that never ends. The order in which
  \<open>range\<close> visits the ids of a cell is the argument \<open>visit\<close>.
\<close>

section \<open>Floating point numbers\<close>

datatype float64 = NaN | Inf bool | Fin real

type_synonym int64 = "64 word"

record fpu =
  fp_round :: "real \<Rightarrow> float64"
  fp_int :: "float64 \<Rightarrow> int64"

text \<open>The flag of an infinity says that it is negative.\<close>

fun flt :: "float64 \<Rightarrow> float64 \<Rightarrow> bool" where
  "flt NaN y = False"
| "flt x NaN = False"
| "flt (Inf s) (Inf t) = (s \<and> \<not> t)"
| "flt (Inf s) (Fin y) = s"
| "flt (Fin x) (Inf t) = (\<not> t)"
| "flt (Fin x) (Fin y) = (x < y)"

fun fle :: "float64 \<Rightarrow> float64 \<Rightarrow> bool" where
  "fle NaN y = False"
| "fle x NaN = False"
| "fle (Inf s) (Inf t) = (s \<or> \<not> t)"
| "fle (Inf s) (Fin y) = s"
| "fle (Fin x) (Inf t) = (\<not> t)"
| "fle (Fin x) (Fin y) = (x \<le> y)"

fun fdiv :: "fpu \<Rightarrow> float64 \<Rightarrow> float64 \<Rightarrow> float64" where
  "fdiv F NaN y = NaN"
| "fdiv F x NaN = NaN"
| "fdiv F (Inf s) (Inf t) = NaN"
| "fdiv F (Inf s) (Fin y) = Inf (s \<noteq> (y < 0))"
| "fdiv F (Fin x) (Inf t) = Fin 0"
| "fdiv F (Fin x) (Fin y) =
     (if y = 0 then (if x = 0 then NaN else Inf (x < 0)) else fp_round F (x / y))"

fun Floor :: "float64 \<Rightarrow> float64" where
  "Floor (Fin x) = Fin (of_int \<lfloor>x\<rfloor>)"
| "Floor f = f"

text \<open>The conversion \<open>int(f)\<close> drops the fraction of a value that fits.\<close>

definition toInt :: "fpu \<Rightarrow> float64 \<Rightarrow> int64" where
  "toInt F f =
     (case f of
        Fin x \<Rightarrow>
          (let n = (if x < 0 then \<lceil>x\<rceil> else \<lfloor>x\<rfloor>)
           in if - (2 ^ 63) \<le> n \<and> n < 2 ^ 63 then of_int n else fp_int F f)
      | _ \<Rightarrow> fp_int F f)"

definition IsNaN :: "float64 \<Rightarrow> bool" where
  "IsNaN f \<longleftrightarrow> f = NaN"

definition IsInf :: "float64 \<Rightarrow> bool" where
  "IsInf f = (case f of Inf s \<Rightarrow> True | _ \<Rightarrow> False)"

section \<open>The manager\<close>

record Position =
  ps_X :: float64
  ps_Y :: float64

record AOICell =
  ce_X :: int64
  ce_Y :: int64

record AOIChange =
  ac_Entered :: "u32 list"
  ac_Left :: "u32 list"

record aoiEntity =
  ae_id :: u32
  ae_position :: Position
  ae_cell :: AOICell

record AOIManager =
  am_worldWidth :: float64
  am_worldHeight :: float64
  am_cellWidth :: float64
  am_cellHeight :: float64
  am_entities :: "u32 \<rightharpoonup> aoiEntity"
  am_cells :: "AOICell \<rightharpoonup> u32 set"

definition NewAOIManager :: "float64 \<Rightarrow> float64 \<Rightarrow> float64 \<Rightarrow> float64 \<Rightarrow> AOIManager res" where
  "NewAOIManager worldWidth worldHeight cellWidth cellHeight =
     (if fle worldWidth (Fin 0) \<or> fle worldHeight (Fin 0)
      then Inl (Err ''aoi world size must be positive'')
      else if fle cellWidth (Fin 0) \<or> fle cellHeight (Fin 0)
      then Inl (Err ''aoi cell size must be positive'')
      else Inr \<lparr> am_worldWidth = worldWidth, am_worldHeight = worldHeight, am_cellWidth = cellWidth,
                 am_cellHeight = cellHeight, am_entities = Map.empty, am_cells = Map.empty \<rparr>)"

definition cellFor :: "fpu \<Rightarrow> Position \<Rightarrow> AOIManager \<Rightarrow> AOICell res" where
  "cellFor F position am =
     (if IsNaN (ps_X position) \<or> IsNaN (ps_Y position) \<or> IsInf (ps_X position) \<or> IsInf (ps_Y position)
      then Inl (Err ''aoi position is not finite'')
      else if flt (ps_X position) (Fin 0) \<or> flt (ps_Y position) (Fin 0)
        \<or> fle (am_worldWidth am) (ps_X position) \<or> fle (am_worldHeight am) (ps_Y position)
      then Inl (Err ''aoi position is outside world'')
      else Inr \<lparr> ce_X = toInt F (Floor (fdiv F (ps_X position) (am_cellWidth am))),
                 ce_Y = toInt F (Floor (fdiv F (ps_Y position) (am_cellHeight am))) \<rparr>)"

definition CellFor :: "fpu \<Rightarrow> Position \<Rightarrow> AOIManager \<Rightarrow> AOICell res" where
  "CellFor F position am = cellFor F position am"

definition addToCell :: "AOICell \<Rightarrow> u32 \<Rightarrow> AOIManager \<Rightarrow> AOIManager" where
  "addToCell cell entityID am =
     (let am = (if am_cells am cell = None then am\<lparr>am_cells := (am_cells am)(cell \<mapsto> {})\<rparr> else am)
      in am\<lparr>am_cells := (am_cells am)(cell \<mapsto> insert entityID (the (am_cells am cell)))\<rparr>)"

text \<open>Deleting from a nil map does nothing, and its length is 0.\<close>

definition removeFromCell :: "AOICell \<Rightarrow> u32 \<Rightarrow> AOIManager \<Rightarrow> AOIManager" where
  "removeFromCell cell entityID am =
     (let entities = (case am_cells am cell of None \<Rightarrow> {} | Some ids \<Rightarrow> ids) - {entityID}
      in if entities = {} then am\<lparr>am_cells := (am_cells am)(cell := None)\<rparr>
         else am\<lparr>am_cells := (am_cells am)(cell \<mapsto> entities)\<rparr>)"

text \<open>The values a loop \<open>for x := lo; x <= hi; x++\<close> runs through.\<close>

partial_function (option) cellLoop :: "int64 \<Rightarrow> int64 \<Rightarrow> int64 list option" where
  "cellLoop hi x =
     (if sint x \<le> sint hi then Option.bind (cellLoop hi (x + 1)) (\<lambda>xs. Some (x # xs)) else Some [])"

definition cellsAround :: "AOICell \<Rightarrow> AOICell list option" where
  "cellsAround c =
     do {
       xs \<leftarrow> cellLoop (ce_X c + 1) (ce_X c - 1);
       if xs = [] then Some []
       else do {
         ys \<leftarrow> cellLoop (ce_Y c + 1) (ce_Y c - 1);
         Some (concat (map (\<lambda>x. map (\<lambda>y. \<lparr> ce_X = x, ce_Y = y \<rparr>) ys) xs))
       }
     }"

definition nearbyLocked :: "(u32 set \<Rightarrow> u32 list) \<Rightarrow> aoiEntity \<Rightarrow> AOIManager \<Rightarrow> u32 list option" where
  "nearbyLocked visit entity am =
     do {
       cs \<leftarrow> cellsAround (ae_cell entity);
       Some (sort (filter (\<lambda>entityID. entityID \<noteq> ae_id entity)
         (concat (map (\<lambda>c. case am_cells am c of None \<Rightarrow> [] | Some ids \<Rightarrow> visit ids) cs))))
     }"

definition difference :: "u32 list \<Rightarrow> u32 list \<Rightarrow> u32 list" where
  "difference source target =
     (let contains = set target
      in sort (filter (\<lambda>entityID. entityID \<notin> contains) source))"

definition AddEntity :: "fpu \<Rightarrow> u32 \<Rightarrow> Position \<Rightarrow> AOIManager \<Rightarrow> go_error option \<times> AOIManager" where
  "AddEntity F entityID position am =
     (if am_entities am entityID \<noteq> None then (Some (Err ''aoi entity already exists''), am)
      else case cellFor F position am of
        Inl err \<Rightarrow> (Some err, am)
      | Inr cell \<Rightarrow>
          (None, addToCell cell entityID
             (am\<lparr>am_entities := (am_entities am)(entityID \<mapsto>
                \<lparr> ae_id = entityID, ae_position = position, ae_cell = cell \<rparr>)\<rparr>)))"

definition RemoveEntity :: "u32 \<Rightarrow> AOIManager \<Rightarrow> go_error option \<times> AOIManager" where
  "RemoveEntity entityID am =
     (case am_entities am entityID of
        None \<Rightarrow> (Some (Err ''aoi entity not found''), am)
      | Some entity \<Rightarrow>
          (let am = removeFromCell (ae_cell entity) entityID am
           in (None, am\<lparr>am_entities := (am_entities am)(entityID := None)\<rparr>)))"

text \<open>\<open>entity\<close> is a pointer into the table: its new cell and position are stored there.\<close>

definition MoveEntity ::
  "(u32 set \<Rightarrow> u32 list) \<Rightarrow> fpu \<Rightarrow> u32 \<Rightarrow> Position \<Rightarrow> AOIManager \<Rightarrow> (AOIChange res \<times> AOIManager) option" where
  "MoveEntity visit F entityID position am =
     (case am_entities am entityID of
        None \<Rightarrow> Some (Inl (Err ''aoi entity not found''), am)
      | Some entity \<Rightarrow>
          (case cellFor F position am of
             Inl err \<Rightarrow> Some (Inl err, am)
           | Inr newCell \<Rightarrow>
               do {
                 oldNearby \<leftarrow> nearbyLocked visit entity am;
                 let am1 = (if ae_cell entity \<noteq> newCell
                            then addToCell newCell entityID (removeFromCell (ae_cell entity) entityID am)
                            else am);
                 let entity1 = entity\<lparr>ae_cell := newCell, ae_position := position\<rparr>;
                 let am2 = am1\<lparr>am_entities := (am_entities am1)(entityID \<mapsto> entity1)\<rparr>;
                 newNearby \<leftarrow> nearbyLocked visit entity1 am2;
                 Some (Inr \<lparr> ac_Entered = difference newNearby oldNearby,
                             ac_Left = difference oldNearby newNearby \<rparr>, am2)
               }))"

definition GetPosition :: "u32 \<Rightarrow> AOIManager \<Rightarrow> Position res" where
  "GetPosition entityID am =
     (case am_entities am entityID of
        None \<Rightarrow> Inl (Err ''aoi entity not found'')
      | Some entity \<Rightarrow> Inr (ae_position entity))"

definition GetNearbyEntityIDs ::
  "(u32 set \<Rightarrow> u32 list) \<Rightarrow> u32 \<Rightarrow> AOIManager \<Rightarrow> u32 list res option" where
  "GetNearbyEntityIDs visit entityID am =
     (case am_entities am entityID of
        None \<Rightarrow> Some (Inl (Err ''aoi entity not found''))
      | Some entity \<Rightarrow> map_option Inr (nearbyLocked visit entity am))"

section \<open>The neighbouring cells\<close>

text \<open>A coordinate whose neighbours are \<open>int\<close> values, with room for the increment that ends the loop.\<close>

definition inner :: "int64 \<Rightarrow> bool" where
  "inner c \<longleftrightarrow> - (2 ^ 63) < sint c \<and> sint c < 2 ^ 63 - 2"

definition inner_cell :: "AOICell \<Rightarrow> bool" where
  "inner_cell c \<longleftrightarrow> inner (ce_X c) \<and> inner (ce_Y c)"

lemma sint_add_small:
  fixes x :: int64
  assumes "- (2 ^ 63) \<le> sint x + k" "sint x + k < 2 ^ 63"
  shows "sint (x + of_int k) = sint x + k"
proof -
  have "sint (x + of_int k) = sint (of_int (sint x + k) :: int64)" by simp
  also have "\<dots> = signed_take_bit 63 (sint x + k)"
    unfolding signed_of_int by simp
  also have "\<dots> = sint x + k"
    using assms by (intro signed_take_bit_int_eq_self) simp_all
  finally show ?thesis .
qed

lemma inner_neighbours:
  assumes "inner c"
  shows "sint (c - 1) = sint c - 1" "sint (c + 1) = sint c + 1" "sint (c + 2) = sint c + 2"
  using assms sint_add_small [of c "-1"] sint_add_small [of c 1] sint_add_small [of c 2]
  by (simp_all add: inner_def)

lemma cellLoop_inner:
  assumes "inner c"
  shows "cellLoop (c + 1) (c - 1) = Some [c - 1, c, c + 1]"
  using inner_neighbours [OF assms]
  by (simp add: cellLoop.simps [of "c + 1" "c - 1"] cellLoop.simps [of "c + 1" c]
      cellLoop.simps [of "c + 1" "c + 1"] cellLoop.simps [of "c + 1" "c + 2"] add.assoc)

definition adjacent :: "AOICell \<Rightarrow> AOICell \<Rightarrow> bool" where
  "adjacent c d \<longleftrightarrow> \<bar>sint (ce_X c) - sint (ce_X d)\<bar> \<le> 1 \<and> \<bar>sint (ce_Y c) - sint (ce_Y d)\<bar> \<le> 1"

lemma adjacent_sym: "adjacent c d = adjacent d c"
  by (simp add: adjacent_def abs_minus_commute)

lemma neighbour_values:
  assumes "inner c"
  shows "d \<in> {c - 1, c, c + 1} \<longleftrightarrow> \<bar>sint c - sint d\<bar> \<le> 1"
proof -
  have "\<bar>sint c - sint d\<bar> \<le> 1 \<longleftrightarrow> sint d = sint (c - 1) \<or> sint d = sint c \<or> sint d = sint (c + 1)"
    using inner_neighbours [OF assms] by linarith
  then show ?thesis using signed_word_eqI by auto
qed

lemma neighbours_distinct: "inner c \<Longrightarrow> distinct [c - 1, c, c + 1]"
  using inner_neighbours(1,2) [of c] by (auto dest: arg_cong [of _ _ sint])

section \<open>The invariant\<close>

text \<open>The ids filed under a cell, and the entities whose position lies in it.\<close>

definition cellIds :: "AOIManager \<Rightarrow> AOICell \<Rightarrow> u32 set" where
  "cellIds am c = (case am_cells am c of None \<Rightarrow> {} | Some ids \<Rightarrow> ids)"

definition occupants :: "AOIManager \<Rightarrow> AOICell \<Rightarrow> u32 set" where
  "occupants am c = {i. \<exists>e. am_entities am i = Some e \<and> ae_cell e = c}"

definition indexed :: "AOIManager \<Rightarrow> bool" where
  "indexed am \<longleftrightarrow> (\<forall>c. cellIds am c = occupants am c \<and> am_cells am c \<noteq> Some {})"

definition placed :: "fpu \<Rightarrow> AOIManager \<Rightarrow> bool" where
  "placed F am \<longleftrightarrow>
     (\<forall>i e. am_entities am i = Some e \<longrightarrow> ae_id e = i \<and> cellFor F (ae_position e) am = Inr (ae_cell e))"

definition aoi_inv :: "fpu \<Rightarrow> AOIManager \<Rightarrow> bool" where
  "aoi_inv F am \<longleftrightarrow> indexed am \<and> placed F am"

lemma cellIds_add [go_simps]:
  "cellIds (addToCell c i am) d = (if d = c then insert i (cellIds am c) else cellIds am d)"
  by (simp add: cellIds_def addToCell_def Let_def split: option.splits)

lemma cellIds_remove [go_simps]:
  "cellIds (removeFromCell c i am) d = (if d = c then cellIds am c - {i} else cellIds am d)"
  by (auto simp: cellIds_def removeFromCell_def Let_def split: option.splits)

lemma cells_add_nonempty: "am_cells am d \<noteq> Some {} \<Longrightarrow> am_cells (addToCell c i am) d \<noteq> Some {}"
  by (simp add: addToCell_def Let_def)

lemma cells_remove_nonempty: "am_cells am d \<noteq> Some {} \<Longrightarrow> am_cells (removeFromCell c i am) d \<noteq> Some {}"
  by (simp add: removeFromCell_def Let_def)

lemma entities_cell_ops [simp, go_simps]:
  "am_entities (addToCell c i am) = am_entities am"
  "am_entities (removeFromCell c i am) = am_entities am"
  by (simp_all add: addToCell_def removeFromCell_def Let_def)

lemma cellIds_entities_update [simp, go_simps]: "cellIds (am_entities_update f am) = cellIds am"
  by (simp add: cellIds_def fun_eq_iff)

lemma cellFor_entities_update [simp, go_simps]: "cellFor F p (am_entities_update f am) = cellFor F p am"
  by (simp add: cellFor_def)

lemma cellFor_cell_ops [simp, go_simps]:
  "cellFor F p (addToCell c i am) = cellFor F p am"
  "cellFor F p (removeFromCell c i am) = cellFor F p am"
  by (simp_all add: cellFor_def addToCell_def removeFromCell_def Let_def)

lemmas cell_ops = cellIds_add cellIds_remove cells_add_nonempty cells_remove_nonempty occupants_def

lemma indexed_insert:
  assumes "indexed am" "am_entities am i = None" "ae_cell e = c"
  shows "indexed (addToCell c i (am\<lparr>am_entities := (am_entities am)(i \<mapsto> e)\<rparr>))"
  using assms by (auto simp: indexed_def cell_ops)

lemma indexed_delete:
  assumes "indexed am" "am_entities am i = Some e"
  shows "indexed (removeFromCell (ae_cell e) i am\<lparr>am_entities := (am_entities am)(i := None)\<rparr>)"
  using assms by (auto simp: indexed_def cell_ops)

lemma indexed_relocate:
  assumes "indexed am" "am_entities am i = Some e" "ae_cell e' = c"
  shows "indexed ((if ae_cell e \<noteq> c then addToCell c i (removeFromCell (ae_cell e) i am) else am)
    \<lparr>am_entities := (am_entities am)(i \<mapsto> e')\<rparr>)"
proof (cases "ae_cell e = c")
  case True
  with assms have "occupants (am\<lparr>am_entities := (am_entities am)(i \<mapsto> e')\<rparr>) = occupants am"
    by (auto simp: occupants_def fun_eq_iff)
  with True assms show ?thesis by (simp add: indexed_def)
next
  case False
  with assms show ?thesis by (auto simp: indexed_def cell_ops)
qed

lemma placed_update:
  assumes "placed F am" "ae_id e = i" "cellFor F (ae_position e) am = Inr (ae_cell e)"
    and "am_entities am' = (am_entities am)(i \<mapsto> e)" "\<And>p. cellFor F p am' = cellFor F p am"
  shows "placed F am'"
  using assms by (auto simp: placed_def)

lemma aoi_inv_new: "NewAOIManager ww wh cw ch = Inr am \<Longrightarrow> aoi_inv F am"
  by (auto simp: NewAOIManager_def aoi_inv_def indexed_def placed_def cellIds_def occupants_def
      split: if_splits)

lemma aoi_inv_add:
  assumes "aoi_inv F am" "AddEntity F i p am = (r, am')"
  shows "aoi_inv F am'"
proof (cases "am_entities am i = None \<and> (\<exists>c. cellFor F p am = Inr c)")
  case True
  then obtain c where c: "am_entities am i = None" "cellFor F p am = Inr c" by auto
  let ?e = "\<lparr> ae_id = i, ae_position = p, ae_cell = c \<rparr>"
  from c assms(2) have am': "am' = addToCell c i (am\<lparr>am_entities := (am_entities am)(i \<mapsto> ?e)\<rparr>)"
    by (simp add: AddEntity_def)
  have "indexed am'" using assms(1) c indexed_insert [of am i ?e c] by (simp add: am' aoi_inv_def)
  moreover have "placed F am'"
  proof (rule placed_update)
    show "placed F am" using assms(1) by (simp add: aoi_inv_def)
    show "am_entities am' = (am_entities am)(i \<mapsto> ?e)" by (simp add: am')
  qed (simp_all add: am' c)
  ultimately show ?thesis by (simp add: aoi_inv_def)
next
  case False
  then have "am' = am"
    using assms(2) by (cases "cellFor F p am") (simp_all add: AddEntity_def split: if_splits)
  with assms(1) show ?thesis by simp
qed

lemma aoi_inv_remove:
  assumes "aoi_inv F am" "RemoveEntity i am = (r, am')"
  shows "aoi_inv F am'"
proof (cases "am_entities am i")
  case None
  with assms show ?thesis by (simp add: RemoveEntity_def)
next
  case (Some e)
  with assms(2) have am': "am' = removeFromCell (ae_cell e) i am\<lparr>am_entities := (am_entities am)(i := None)\<rparr>"
    by (simp add: RemoveEntity_def Let_def)
  have "indexed am'" using assms(1) Some by (simp add: am' aoi_inv_def indexed_delete)
  moreover have "placed F am'" using assms(1) by (auto simp: am' aoi_inv_def placed_def)
  ultimately show ?thesis by (simp add: aoi_inv_def)
qed

section \<open>The entities in sight\<close>

text \<open>The reference definition: the other entities whose cell is adjacent to the given one.\<close>

definition neighbours :: "AOIManager \<Rightarrow> u32 \<Rightarrow> AOICell \<Rightarrow> u32 set" where
  "neighbours am i c = {j. j \<noteq> i \<and> (\<exists>e. am_entities am j = Some e \<and> adjacent c (ae_cell e))}"

text \<open>\<open>visit\<close> lists a set, in some order.\<close>

definition visits :: "('a set \<Rightarrow> 'a list) \<Rightarrow> bool" where
  "visits visit \<longleftrightarrow> (\<forall>ids. set (visit ids) = ids \<and> distinct (visit ids))"

text \<open>Every position in the world lies in a cell that has its eight neighbours.\<close>

definition inner_grid :: "fpu \<Rightarrow> AOIManager \<Rightarrow> bool" where
  "inner_grid F am \<longleftrightarrow> (\<forall>p c. cellFor F p am = Inr c \<longrightarrow> inner_cell c)"

lemma cellsAround_inner:
  assumes "inner_cell c"
  obtains cs where "cellsAround c = Some cs" "distinct cs" "set cs = {d. adjacent c d}"
proof -
  let ?xs = "[ce_X c - 1, ce_X c, ce_X c + 1]" and ?ys = "[ce_Y c - 1, ce_Y c, ce_Y c + 1]"
  let ?cs = "concat (map (\<lambda>x. map (\<lambda>y. \<lparr> ce_X = x, ce_Y = y \<rparr>) ?ys) ?xs)"
  have inner: "inner (ce_X c)" "inner (ce_Y c)" using assms by (simp_all add: inner_cell_def)
  have "cellsAround c = Some ?cs"
    by (simp add: cellsAround_def cellLoop_inner [OF inner(1)] cellLoop_inner [OF inner(2)])
  moreover have "distinct ?cs"
    using neighbours_distinct [OF inner(1)] neighbours_distinct [OF inner(2)] by auto
  moreover have "set ?cs = {d. ce_X d \<in> set ?xs \<and> ce_Y d \<in> set ?ys}"
  proof -
    have "d \<in> set ?cs \<longleftrightarrow> ce_X d \<in> set ?xs \<and> ce_Y d \<in> set ?ys" for d
      by (cases d) auto
    then show ?thesis by blast
  qed
  moreover have "ce_X d \<in> set ?xs \<and> ce_Y d \<in> set ?ys \<longleftrightarrow> adjacent c d" for d
    using neighbour_values [OF inner(1), of "ce_X d"] neighbour_values [OF inner(2), of "ce_Y d"]
    by (simp add: adjacent_def)
  ultimately show ?thesis using that by simp
qed

lemma distinct_concat_map:
  assumes "distinct cs" "\<And>c. c \<in> set cs \<Longrightarrow> distinct (f c)"
    and "\<And>c d. c \<in> set cs \<Longrightarrow> d \<in> set cs \<Longrightarrow> c \<noteq> d \<Longrightarrow> set (f c) \<inter> set (f d) = {}"
  shows "distinct (concat (map f cs))"
  using assms by (induction cs) fastforce+

lemma nearbyLocked_neighbours:
  assumes "visits visit" "indexed am" "inner_cell (ae_cell e)"
  shows "nearbyLocked visit e am = Some (sorted_list_of_set (neighbours am (ae_id e) (ae_cell e)))"
proof -
  obtain cs where cs: "cellsAround (ae_cell e) = Some cs" "distinct cs" "set cs = {d. adjacent (ae_cell e) d}"
    using cellsAround_inner [OF assms(3)] .
  let ?f = "\<lambda>c. case am_cells am c of None \<Rightarrow> [] | Some ids \<Rightarrow> visit ids"
  let ?ids = "filter (\<lambda>j. j \<noteq> ae_id e) (concat (map ?f cs))"
  have f: "set (?f c) = occupants am c" "distinct (?f c)" for c
  proof -
    have "set (?f c) = cellIds am c"
      using assms(1) by (simp add: cellIds_def visits_def split: option.split)
    then show "set (?f c) = occupants am c" using assms(2) by (simp add: indexed_def)
    show "distinct (?f c)" using assms(1) by (simp add: visits_def split: option.split)
  qed
  have "distinct ?ids"
    by (rule distinct_filter, rule distinct_concat_map) (use cs(2) f in \<open>auto simp: occupants_def\<close>)
  moreover have "set ?ids = neighbours am (ae_id e) (ae_cell e)"
    by (auto simp: f cs(3) neighbours_def occupants_def)
  ultimately have "sort ?ids = sorted_list_of_set (neighbours am (ae_id e) (ae_cell e))"
    by (metis sorted_list_of_set_sort_remdups distinct_remdups_id)
  with cs(1) show ?thesis by (simp add: nearbyLocked_def)
qed

lemma difference_sorted_sets:
  "difference (sorted_list_of_set A) (sorted_list_of_set B) = sorted_list_of_set (A - B :: u32 set)"
proof -
  have "set (filter (\<lambda>j. j \<notin> set (sorted_list_of_set B)) (sorted_list_of_set A)) = A - B" by auto
  then show ?thesis
    unfolding difference_def Let_def
    by (metis sorted_list_of_set_sort_remdups distinct_remdups_id distinct_filter
        distinct_sorted_list_of_set)
qed

lemma sorted_list_of_set_minus:
  "sorted_list_of_set (A - B :: u32 set) = filter (\<lambda>j. j \<notin> B) (sorted_list_of_set A)"
proof -
  have "sort (filter (\<lambda>j. j \<notin> B) (sorted_list_of_set A)) = filter (\<lambda>j. j \<notin> B) (sorted_list_of_set A)"
    by (rule sorted_sort_id) (simp add: sorted_wrt_filter)
  with difference_sorted_sets [of A B] show ?thesis by (simp add: difference_def)
qed

section \<open>Moving an entity\<close>

text \<open>The manager after a move that is not refused.\<close>

definition moved :: "u32 \<Rightarrow> aoiEntity \<Rightarrow> Position \<Rightarrow> AOICell \<Rightarrow> AOIManager \<Rightarrow> AOIManager" where
  "moved i e p c am =
     (if ae_cell e \<noteq> c then addToCell c i (removeFromCell (ae_cell e) i am) else am)
       \<lparr>am_entities := (am_entities am)(i \<mapsto> e\<lparr>ae_cell := c, ae_position := p\<rparr>)\<rparr>"

lemma moved_entities [simp]:
  "am_entities (moved i e p c am) = (am_entities am)(i \<mapsto> e\<lparr>ae_cell := c, ae_position := p\<rparr>)"
  by (simp add: moved_def)

lemma moved_cellFor [simp]: "cellFor F q (moved i e p c am) = cellFor F q am"
  by (simp add: moved_def)

lemma MoveEntity_moved:
  assumes "am_entities am i = Some e" "cellFor F p am = Inr c"
  shows "MoveEntity visit F i p am =
    do {
      old \<leftarrow> nearbyLocked visit e am;
      new \<leftarrow> nearbyLocked visit (e\<lparr>ae_cell := c, ae_position := p\<rparr>) (moved i e p c am);
      Some (Inr \<lparr> ac_Entered = difference new old, ac_Left = difference old new \<rparr>, moved i e p c am)
    }"
proof -
  have "am_entities (if ae_cell e \<noteq> c then addToCell c i (removeFromCell (ae_cell e) i am) else am)
      = am_entities am" by simp
  with assms show ?thesis by (simp add: MoveEntity_def moved_def Let_def)
qed

lemma aoi_inv_moved:
  assumes "aoi_inv F am" "am_entities am i = Some e" "cellFor F p am = Inr c"
  shows "aoi_inv F (moved i e p c am)"
proof -
  let ?e = "e\<lparr>ae_cell := c, ae_position := p\<rparr>"
  have "ae_id e = i" using assms(1,2) by (simp add: aoi_inv_def placed_def)
  have "placed F (moved i e p c am)"
  proof (rule placed_update)
    show "placed F am" using assms(1) by (simp add: aoi_inv_def)
    show "am_entities (moved i e p c am) = (am_entities am)(i \<mapsto> ?e)" by simp
  qed (simp_all add: assms(3) \<open>ae_id e = i\<close>)
  moreover have "indexed (moved i e p c am)"
    using indexed_relocate [of am i e ?e c] assms(1,2) by (simp add: moved_def aoi_inv_def)
  ultimately show ?thesis by (simp add: aoi_inv_def)
qed

lemma MoveEntity_result:
  assumes "MoveEntity visit F i p am = Some (r, am')"
  obtains (refused) err where "r = Inl err" "am' = am"
  | (moved) e c ch where "r = Inr ch" "am_entities am i = Some e" "cellFor F p am = Inr c"
      "am' = moved i e p c am"
proof (cases "am_entities am i")
  case None
  with assms show ?thesis by (intro refused) (auto simp: MoveEntity_def)
next
  case (Some e)
  show ?thesis
  proof (cases "cellFor F p am")
    case (Inl err)
    with assms Some show ?thesis by (intro refused) (auto simp: MoveEntity_def)
  next
    case (Inr c)
    with assms Some obtain ch where "r = Inr ch" "am' = moved i e p c am"
      by (auto simp: MoveEntity_moved Option.bind_eq_Some_conv)
    with Some Inr show ?thesis by (intro moved)
  qed
qed

lemma neighbours_moved: "neighbours (moved i e p c am) i d = neighbours am i d"
  by (simp add: neighbours_def cong: conj_cong)

lemma MoveEntity_change:
  assumes "visits visit" "aoi_inv F am" "inner_grid F am"
    and "am_entities am i = Some e" "cellFor F p am = Inr c"
  shows "MoveEntity visit F i p am =
    Some (Inr \<lparr> ac_Entered = sorted_list_of_set (neighbours am i c - neighbours am i (ae_cell e)),
                ac_Left = sorted_list_of_set (neighbours am i (ae_cell e) - neighbours am i c) \<rparr>,
          moved i e p c am)"
proof -
  have id: "ae_id e = i" and cell: "inner_cell (ae_cell e)" "inner_cell c" and idx: "indexed am"
    using assms by (auto simp: aoi_inv_def placed_def inner_grid_def)
  have "indexed (moved i e p c am)"
    using aoi_inv_moved [OF assms(2,4,5)] by (simp add: aoi_inv_def)
  then show ?thesis
    using id cell idx
    by (simp add: MoveEntity_moved [OF assms(4,5)] nearbyLocked_neighbours [OF assms(1)]
        neighbours_moved difference_sorted_sets)
qed

text \<open>On such a grid every query and every move returns.\<close>

lemma aoi_calls_return:
  assumes "visits visit" "aoi_inv F am" "inner_grid F am"
  shows "\<exists>r. GetNearbyEntityIDs visit i am = Some r" "\<exists>r am'. MoveEntity visit F i p am = Some (r, am')"
proof -
  have "(\<exists>r. GetNearbyEntityIDs visit i am = Some r) \<and> (\<exists>r am'. MoveEntity visit F i p am = Some (r, am'))"
  proof (cases "am_entities am i")
    case None
    then show ?thesis by (simp add: GetNearbyEntityIDs_def MoveEntity_def)
  next
    case (Some e)
    then have "inner_cell (ae_cell e)" "indexed am"
      using assms(2,3) by (auto simp: aoi_inv_def placed_def inner_grid_def)
    then show ?thesis
      using Some nearbyLocked_neighbours [OF assms(1), of am e] MoveEntity_change [OF assms Some]
      by (cases "cellFor F p am") (auto simp: GetNearbyEntityIDs_def MoveEntity_def)
  qed
  then show "\<exists>r. GetNearbyEntityIDs visit i am = Some r" "\<exists>r am'. MoveEntity visit F i p am = Some (r, am')"
    by blast+
qed

section \<open>The manager as a step system\<close>

inductive aoi_step :: "(u32 set \<Rightarrow> u32 list) \<Rightarrow> fpu \<Rightarrow> AOIManager \<Rightarrow> AOIManager \<Rightarrow> bool"
  for visit :: "u32 set \<Rightarrow> u32 list" and F :: fpu where
  step_add: "AddEntity F i p am = (r, am') \<Longrightarrow> aoi_step visit F am am'"
| step_remove: "RemoveEntity i am = (r, am') \<Longrightarrow> aoi_step visit F am am'"
| step_move: "MoveEntity visit F i p am = Some (r', am') \<Longrightarrow> aoi_step visit F am am'"

definition aoi_init :: "AOIManager \<Rightarrow> bool" where
  "aoi_init am \<longleftrightarrow> (\<exists>ww wh cw ch. NewAOIManager ww wh cw ch = Inr am)"

lemma aoi_inv_move:
  assumes "aoi_inv F am" "MoveEntity visit F i p am = Some (r, am')"
  shows "aoi_inv F am'"
  using assms(2) by (cases rule: MoveEntity_result) (use assms(1) aoi_inv_moved in auto)

interpretation aoi: invariant_system aoi_init "aoi_step visit F" "aoi_inv F" for visit F
proof
  show "aoi_init am \<Longrightarrow> aoi_inv F am" for am by (auto simp: aoi_init_def aoi_inv_new)
  show "aoi_inv F am'" if "aoi_inv F am" "aoi_step visit F am am'" for am am'
    using that(2) by (cases rule: aoi_step.cases) (use that(1) aoi_inv_add aoi_inv_remove aoi_inv_move in blast)+
qed

section \<open>Grids without overflow\<close>

text \<open>
  What IEEE 754 says of rounding on the values up to \<open>2 ^ 53\<close>: integers are exact, the result is
  finite, and the order is kept.
\<close>

definition round_ok :: "fpu \<Rightarrow> bool" where
  "round_ok F \<longleftrightarrow>
     (\<forall>n::int. \<bar>n\<bar> \<le> 2 ^ 53 \<longrightarrow> fp_round F (of_int n) = Fin (of_int n)) \<and>
     (\<forall>x y. 0 \<le> x \<and> x \<le> y \<and> y \<le> 2 ^ 53 \<longrightarrow>
        (\<exists>a b. fp_round F x = Fin a \<and> fp_round F y = Fin b \<and> a \<le> b))"

lemma round_ok_range:
  assumes "round_ok F" "0 \<le> x" "x \<le> 2 ^ 53"
  obtains r where "fp_round F x = Fin r" "0 \<le> r" "r \<le> 2 ^ 53"
proof -
  have exact: "fp_round F 0 = Fin 0" "fp_round F (2 ^ 53) = Fin (2 ^ 53)"
    using assms(1) by (auto simp: round_ok_def dest: spec [of _ 0] spec [of _ "2 ^ 53"])
  have low: "\<exists>a b. fp_round F 0 = Fin a \<and> fp_round F x = Fin b \<and> a \<le> b"
    and high: "\<exists>a b. fp_round F x = Fin a \<and> fp_round F (2 ^ 53) = Fin b \<and> a \<le> b"
    using assms unfolding round_ok_def by auto
  from low high exact show ?thesis using that by auto
qed

lemma toInt_Floor:
  assumes "0 \<le> r" "r \<le> 2 ^ 53"
  shows "sint (toInt F (Floor (Fin r))) = \<lfloor>r\<rfloor>"
proof -
  have "0 \<le> \<lfloor>r\<rfloor>" "\<lfloor>r\<rfloor> \<le> 2 ^ 53" using assms by (simp_all add: floor_le_iff)
  moreover have "sint (of_int n :: int64) = n" if "0 \<le> n" "n \<le> 2 ^ 53" for n
    using sint_add_small [of 0 n] that by simp
  ultimately show ?thesis by (simp add: toInt_def Let_def)
qed

lemma cell_coordinate_inner:
  assumes "round_ok F" "0 \<le> x" "x < w" "0 < v" "w \<le> 2 ^ 53 * v"
  shows "inner (toInt F (Floor (fdiv F (Fin x) (Fin v))))"
proof -
  have "x / v \<le> 2 ^ 53" using assms by (simp add: divide_le_eq)
  moreover have "0 \<le> x / v" using assms by simp
  ultimately obtain r where r: "fp_round F (x / v) = Fin r" "0 \<le> r" "r \<le> 2 ^ 53"
    using round_ok_range [OF assms(1)] by blast
  then have "\<lfloor>r\<rfloor> \<le> 2 ^ 53" "0 \<le> \<lfloor>r\<rfloor>" by (simp_all add: floor_le_iff)
  then show ?thesis
    using r assms(4) toInt_Floor [OF r(2,3), of F] by (simp add: inner_def)
qed

text \<open>A grid with at most \<open>2 ^ 53\<close> cells in each direction.\<close>

definition finite_grid :: "AOIManager \<Rightarrow> bool" where
  "finite_grid am \<longleftrightarrow>
     (\<exists>ww wh cw ch. am_worldWidth am = Fin ww \<and> am_worldHeight am = Fin wh \<and> am_cellWidth am = Fin cw \<and>
        am_cellHeight am = Fin ch \<and> 0 < cw \<and> 0 < ch \<and> ww \<le> 2 ^ 53 * cw \<and> wh \<le> 2 ^ 53 * ch)"

lemma inner_grid_finite:
  assumes "round_ok F" "finite_grid am"
  shows "inner_grid F am"
  unfolding inner_grid_def
proof (intro allI impI)
  fix p c assume c: "cellFor F p am = Inr c"
  obtain ww wh cw ch where am: "am_worldWidth am = Fin ww" "am_worldHeight am = Fin wh"
      "am_cellWidth am = Fin cw" "am_cellHeight am = Fin ch"
    and size: "0 < cw" "0 < ch" "ww \<le> 2 ^ 53 * cw" "wh \<le> 2 ^ 53 * ch"
    using assms(2) unfolding finite_grid_def by blast
  obtain x y where xy: "ps_X p = Fin x" "ps_Y p = Fin y"
    using c by (cases "ps_X p"; cases "ps_Y p") (auto simp: cellFor_def IsNaN_def IsInf_def)
  from c have range: "0 \<le> x" "0 \<le> y" "x < ww" "y < wh"
    by (auto simp: cellFor_def IsNaN_def IsInf_def am xy not_less not_le split: if_splits)
  from c range have "c = \<lparr> ce_X = toInt F (Floor (fdiv F (Fin x) (Fin cw))),
      ce_Y = toInt F (Floor (fdiv F (Fin y) (Fin ch))) \<rparr>"
    by (simp add: cellFor_def IsNaN_def IsInf_def am xy del: fdiv.simps Floor.simps split: if_splits)
  then show "inner_cell c"
    using cell_coordinate_inner [OF assms(1) range(1,3) size(1,3)]
      cell_coordinate_inner [OF assms(1) range(2,4) size(2,4)]
    by (simp add: inner_cell_def del: fdiv.simps)
qed

text \<open>The size of the grid never changes.\<close>

definition sizes :: "AOIManager \<Rightarrow> float64 \<times> float64 \<times> float64 \<times> float64" where
  "sizes am = (am_worldWidth am, am_worldHeight am, am_cellWidth am, am_cellHeight am)"

lemma sizes_ops [simp]:
  "sizes (addToCell c i am) = sizes am" "sizes (removeFromCell c i am) = sizes am"
  "sizes (am_entities_update f am) = sizes am"
  by (simp_all add: sizes_def addToCell_def removeFromCell_def Let_def)

lemma sizes_step: "aoi_step visit F am am' \<Longrightarrow> sizes am' = sizes am"
proof (induction rule: aoi_step.induct)
  case (step_add i p am r am')
  then show ?case
    by (cases "cellFor F p am") (auto simp: AddEntity_def split: if_splits)
next
  case (step_remove i am r am')
  then show ?case by (auto simp: RemoveEntity_def Let_def split: option.splits)
next
  case (step_move i p am r' am')
  then show ?case by (cases rule: MoveEntity_result) (auto simp: moved_def)
qed

lemma finite_grid_sizes: "sizes am = sizes am' \<Longrightarrow> finite_grid am = finite_grid am'"
  by (simp add: finite_grid_def sizes_def)

lemma finite_grid_steps: "(aoi_step visit F)\<^sup>*\<^sup>* am am' \<Longrightarrow> finite_grid am \<Longrightarrow> finite_grid am'"
  by (induction rule: rtranclp_induct) (auto simp: finite_grid_sizes [OF sizes_step])

text \<open>Without room for the last increment the loop over the neighbours never ends.\<close>

lemma sint_le_max: "sint (x :: int64) \<le> 2 ^ 63 - 1"
  using sint_lt [of x] by simp

lemma cellLoop_max_diverges:
  assumes "sint hi = 2 ^ 63 - 1"
  shows "cellLoop hi x = None"
proof -
  have "cellLoop hi x \<noteq> Some xs" for xs
  proof (induction xs arbitrary: x)
    case Nil
    show ?case using sint_le_max [of x] assms
      by (simp add: cellLoop.simps [of hi x] Option.bind_eq_Some_conv)
  next
    case (Cons y ys)
    show ?case using sint_le_max [of x] assms Cons
      by (simp add: cellLoop.simps [of hi x] Option.bind_eq_Some_conv)
  qed
  then show ?thesis by (cases "cellLoop hi x") auto
qed

lemma nan_world_accepted:
  "\<exists>am. NewAOIManager NaN NaN (Fin 10) (Fin 10) = Inr am \<and>
     (0 \<le> x \<longrightarrow> 0 \<le> y \<longrightarrow> (\<exists>c. CellFor F \<lparr> ps_X = Fin x, ps_Y = Fin y \<rparr> am = Inr c))"
  by (simp add: NewAOIManager_def CellFor_def cellFor_def IsNaN_def IsInf_def)

section \<open>A concrete grid\<close>

text \<open>
  A world of 1000 by 1000 with cells of 10 by 10, exact quotients, and three entities: 1 and 2 in
  neighbouring cells, 3 far away.
\<close>

definition demo_fpu :: fpu where
  "demo_fpu = \<lparr> fp_round = Fin, fp_int = (\<lambda>f. 0) \<rparr>"

definition demo_pos :: "real \<Rightarrow> Position" where
  "demo_pos x = \<lparr> ps_X = Fin x, ps_Y = Fin x \<rparr>"

definition demo_grid :: AOIManager where
  "demo_grid = \<lparr> am_worldWidth = Fin 1000, am_worldHeight = Fin 1000, am_cellWidth = Fin 10,
     am_cellHeight = Fin 10, am_entities = Map.empty, am_cells = Map.empty \<rparr>"

definition demo_aoi :: AOIManager where
  "demo_aoi = snd (AddEntity demo_fpu 3 (demo_pos 500) (snd (AddEntity demo_fpu 2 (demo_pos 15)
     (snd (AddEntity demo_fpu 1 (demo_pos 5) demo_grid)))))"

lemma demo_new: "NewAOIManager (Fin 1000) (Fin 1000) (Fin 10) (Fin 10) = Inr demo_grid"
  by (simp add: NewAOIManager_def demo_grid_def)

lemma demo_round_ok: "round_ok demo_fpu"
  by (simp add: round_ok_def demo_fpu_def)

lemma demo_visits: "visits (sorted_list_of_set :: u32 set \<Rightarrow> u32 list)"
  by (simp add: visits_def)

lemma demo_cells:
  "cellFor demo_fpu (demo_pos 5) demo_grid = Inr \<lparr> ce_X = 0, ce_Y = 0 \<rparr>"
  "cellFor demo_fpu (demo_pos 15) demo_grid = Inr \<lparr> ce_X = 1, ce_Y = 1 \<rparr>"
  "cellFor demo_fpu (demo_pos 500) demo_grid = Inr \<lparr> ce_X = 50, ce_Y = 50 \<rparr>"
  "cellFor demo_fpu (demo_pos 495) demo_grid = Inr \<lparr> ce_X = 49, ce_Y = 49 \<rparr>"
proof -
  have "\<lfloor>1 / (2::real)\<rfloor> = 0" "\<lfloor>3 / (2::real)\<rfloor> = 1" "\<lfloor>99 / (2::real)\<rfloor> = 49" by linarith+
  then show
    "cellFor demo_fpu (demo_pos 5) demo_grid = Inr \<lparr> ce_X = 0, ce_Y = 0 \<rparr>"
    "cellFor demo_fpu (demo_pos 15) demo_grid = Inr \<lparr> ce_X = 1, ce_Y = 1 \<rparr>"
    "cellFor demo_fpu (demo_pos 500) demo_grid = Inr \<lparr> ce_X = 50, ce_Y = 50 \<rparr>"
    "cellFor demo_fpu (demo_pos 495) demo_grid = Inr \<lparr> ce_X = 49, ce_Y = 49 \<rparr>"
    by (simp_all add: cellFor_def demo_grid_def demo_pos_def demo_fpu_def IsNaN_def IsInf_def toInt_def)
qed

lemma demo_add:
  assumes "am_entities am i = None" "cellFor F p am = Inr c"
  shows "AddEntity F i p am = (None, addToCell c i (am\<lparr>am_entities := (am_entities am)(i \<mapsto>
    \<lparr> ae_id = i, ae_position = p, ae_cell = c \<rparr>)\<rparr>))"
  using assms by (simp add: AddEntity_def)

lemma demo_aoi_entities:
  "am_entities demo_aoi = [1 \<mapsto> \<lparr> ae_id = 1, ae_position = demo_pos 5, ae_cell = \<lparr> ce_X = 0, ce_Y = 0 \<rparr> \<rparr>,
     2 \<mapsto> \<lparr> ae_id = 2, ae_position = demo_pos 15, ae_cell = \<lparr> ce_X = 1, ce_Y = 1 \<rparr> \<rparr>,
     3 \<mapsto> \<lparr> ae_id = 3, ae_position = demo_pos 500, ae_cell = \<lparr> ce_X = 50, ce_Y = 50 \<rparr> \<rparr>]"
  "cellFor demo_fpu p demo_aoi = cellFor demo_fpu p demo_grid"
proof -
  have "am_entities demo_grid = Map.empty" by (simp add: demo_grid_def)
  then show
    "am_entities demo_aoi = [1 \<mapsto> \<lparr> ae_id = 1, ae_position = demo_pos 5, ae_cell = \<lparr> ce_X = 0, ce_Y = 0 \<rparr> \<rparr>,
       2 \<mapsto> \<lparr> ae_id = 2, ae_position = demo_pos 15, ae_cell = \<lparr> ce_X = 1, ce_Y = 1 \<rparr> \<rparr>,
       3 \<mapsto> \<lparr> ae_id = 3, ae_position = demo_pos 500, ae_cell = \<lparr> ce_X = 50, ce_Y = 50 \<rparr> \<rparr>]"
    "cellFor demo_fpu p demo_aoi = cellFor demo_fpu p demo_grid"
    by (simp_all add: demo_aoi_def demo_add demo_cells)
qed

lemma demo_reach: "(aoi_step visit demo_fpu)\<^sup>*\<^sup>* demo_grid demo_aoi"
proof -
  have step: "(aoi_step visit demo_fpu)\<^sup>*\<^sup>* am0 (snd (AddEntity demo_fpu i p am))"
    if "(aoi_step visit demo_fpu)\<^sup>*\<^sup>* am0 am" for am0 i p am
    using that aoi_step.step_add [OF prod.collapse [symmetric]] by (rule rtranclp.rtrancl_into_rtrancl)
  show ?thesis unfolding demo_aoi_def by (rule step)+ (rule rtranclp.rtrancl_refl)
qed

lemma demo_finite_grid: "finite_grid demo_grid"
  by (simp add: finite_grid_def demo_grid_def)

lemma demo_aoi_ready:
  "reach aoi_init (aoi_step visit demo_fpu) demo_aoi" "inner_grid demo_fpu demo_aoi"
proof -
  have "reach aoi_init (aoi_step visit demo_fpu) demo_grid"
    using demo_new by (intro reach_init) (auto simp: aoi_init_def)
  with demo_reach show "reach aoi_init (aoi_step visit demo_fpu) demo_aoi" by (rule reach_steps)
  show "inner_grid demo_fpu demo_aoi"
    using inner_grid_finite [OF demo_round_ok] finite_grid_steps [OF demo_reach demo_finite_grid] .
qed

lemma demo_neighbours:
  "neighbours demo_aoi 1 \<lparr> ce_X = 0, ce_Y = 0 \<rparr> = {2}"
  "neighbours demo_aoi 1 \<lparr> ce_X = 49, ce_Y = 49 \<rparr> = {3}"
  by (auto simp: neighbours_def adjacent_def demo_aoi_entities split: if_splits)

section \<open>Properties\<close>

text \<open>C31: in every state the manager can reach, the query by id returns exactly the other entities whose
  cell is at most one step away in both directions, in ascending order and each once, for every
  order in which the cells' maps are visited; being in sight is symmetric.\<close>
theorem aoi_nearby_is_reference:
  assumes "visits visit" "reach aoi_init (aoi_step visit F) am" "inner_grid F am"
    and "am_entities am i = Some e"
  shows "GetNearbyEntityIDs visit i am = Some (Inr (sorted_list_of_set (neighbours am i (ae_cell e)))) \<and>
    (\<forall>j e'. am_entities am j = Some e' \<longrightarrow>
       (j \<in> neighbours am i (ae_cell e) \<longleftrightarrow> i \<in> neighbours am j (ae_cell e')))"
proof -
  have inv: "aoi_inv F am" using aoi.reach_inv [OF assms(2)] .
  then have "ae_id e = i" "inner_cell (ae_cell e)" "indexed am"
    using assms(3,4) by (auto simp: aoi_inv_def placed_def inner_grid_def)
  then show ?thesis
    using assms(4) nearbyLocked_neighbours [OF assms(1), of am e]
    by (auto simp: GetNearbyEntityIDs_def neighbours_def adjacent_sym)
qed

text \<open>C32: a move that is not refused stores the new position, leaves every other entity where it is, and
  reports exactly the difference: the ids that come into sight and those that leave it, each list
  ascending, so that the old view without \<open>Left\<close> and with \<open>Entered\<close> is the new view.\<close>
theorem aoi_move_reports_difference:
  assumes "visits visit" "reach aoi_init (aoi_step visit F) am" "inner_grid F am"
    and "MoveEntity visit F i p am = Some (Inr change, am')"
    and "GetNearbyEntityIDs visit i am = Some (Inr old)"
  shows "\<exists>new. GetNearbyEntityIDs visit i am' = Some (Inr new) \<and>
      ac_Entered change = filter (\<lambda>j. j \<notin> set old) new \<and>
      ac_Left change = filter (\<lambda>j. j \<notin> set new) old \<and>
      set new = (set old - set (ac_Left change)) \<union> set (ac_Entered change) \<and>
      GetPosition i am' = Inr p \<and> (\<forall>j. j \<noteq> i \<longrightarrow> GetPosition j am' = GetPosition j am)"
proof -
  have inv: "aoi_inv F am" using aoi.reach_inv [OF assms(2)] .
  from assms(4) obtain e c where e: "am_entities am i = Some e" and c: "cellFor F p am = Inr c"
    and am': "am' = moved i e p c am" by (cases rule: MoveEntity_result) auto
  have inv': "aoi_inv F am'" using aoi_inv_moved [OF inv e c] am' by simp
  have id: "ae_id e = i" and cells: "inner_cell (ae_cell e)" "inner_cell c"
    using inv e c assms(3) by (auto simp: aoi_inv_def placed_def inner_grid_def)
  let ?N = "neighbours am i (ae_cell e)" and ?M = "neighbours am i c"
  have old: "old = sorted_list_of_set ?N"
    using assms(5) e inv cells id nearbyLocked_neighbours [OF assms(1), of am e]
    by (auto simp: GetNearbyEntityIDs_def aoi_inv_def)
  have new: "GetNearbyEntityIDs visit i am' = Some (Inr (sorted_list_of_set ?M))"
    using inv' cells id nearbyLocked_neighbours [OF assms(1), of am' "e\<lparr>ae_cell := c, ae_position := p\<rparr>"]
    by (simp add: GetNearbyEntityIDs_def aoi_inv_def am' neighbours_moved)
  have change: "ac_Entered change = sorted_list_of_set (?M - ?N)" "ac_Left change = sorted_list_of_set (?N - ?M)"
    using assms(4) MoveEntity_change [OF assms(1) inv assms(3) e c] by auto
  show ?thesis
    using new by (auto simp: change old sorted_list_of_set_minus GetPosition_def am')
qed

text \<open>for a grid with at most \<open>2 ^ 53\<close> cells in each direction, the query and the move return in
  every state that is reached from the new manager: the loop over the neighbouring cells ends.\<close>
theorem aoi_queries_terminate:
  assumes "visits visit" "round_ok F" "NewAOIManager ww wh cw ch = Inr am0" "finite_grid am0"
    and "(aoi_step visit F)\<^sup>*\<^sup>* am0 am"
  shows "(\<exists>r. GetNearbyEntityIDs visit i am = Some r) \<and> (\<exists>r am'. MoveEntity visit F i p am = Some (r, am'))"
proof -
  have inv: "aoi_inv F am"
    by (rule aoi.rtranclp_inv [OF assms(5)]) (rule aoi_inv_new [OF assms(3)])
  have grid: "inner_grid F am"
    using inner_grid_finite [OF assms(2)] finite_grid_steps [OF assms(5,4)] by blast
  show ?thesis using aoi_calls_return [OF assms(1) inv grid] by blast
qed

theorem aoi_nearby_is_reference_witness:
  "GetNearbyEntityIDs sorted_list_of_set 1 demo_aoi = Some (Inr [2])"
  using aoi_nearby_is_reference [OF demo_visits demo_aoi_ready, of 1] demo_neighbours
  by (simp add: demo_aoi_entities)

theorem aoi_move_reports_difference_witness:
  "\<exists>am'. MoveEntity sorted_list_of_set demo_fpu 1 (demo_pos 495) demo_aoi
       = Some (Inr \<lparr> ac_Entered = [3], ac_Left = [2] \<rparr>, am') \<and>
     GetNearbyEntityIDs sorted_list_of_set 1 am' = Some (Inr [3])"
proof -
  have inv: "aoi_inv demo_fpu demo_aoi" using aoi.reach_inv demo_aoi_ready(1) .
  obtain am' where move: "MoveEntity sorted_list_of_set demo_fpu 1 (demo_pos 495) demo_aoi
      = Some (Inr \<lparr> ac_Entered = [3], ac_Left = [2] \<rparr>, am')"
    using MoveEntity_change [OF demo_visits inv demo_aoi_ready(2), of 1 _ "demo_pos 495"] demo_neighbours
    by (simp add: demo_aoi_entities demo_cells)
  have near: "GetNearbyEntityIDs sorted_list_of_set 1 demo_aoi = Some (Inr [2])"
    using inv demo_neighbours nearbyLocked_neighbours [OF demo_visits, of demo_aoi "the (am_entities demo_aoi 1)"]
    by (simp add: GetNearbyEntityIDs_def demo_aoi_entities aoi_inv_def inner_cell_def inner_def)
  obtain new where new: "GetNearbyEntityIDs sorted_list_of_set 1 am' = Some (Inr new)"
      "[3] = filter (\<lambda>j. j \<notin> set [2]) new" "set new = {3}" "[2] = filter (\<lambda>j. j \<notin> set new) [2 :: u32]"
    using aoi_move_reports_difference [OF demo_visits demo_aoi_ready move near] by auto
  from new(2,3) have "new = [3]" by (simp add: filter_id_conv)
  with new(1) move show ?thesis by blast
qed

theorem aoi_queries_terminate_witness:
  "(\<exists>r. GetNearbyEntityIDs sorted_list_of_set 2 demo_aoi = Some r) \<and>
   (\<exists>r am'. MoveEntity sorted_list_of_set demo_fpu 2 (demo_pos 2000) demo_aoi = Some (r, am'))"
  using aoi_queries_terminate [OF demo_visits demo_round_ok demo_new demo_finite_grid demo_reach] .

end
