(* ===== verification/UnityWorld.thy ===== *)
theory UnityWorld
  imports AOI ConnStore UnityProtocol
begin

text \<open>
  The world of online players of \<open>examples/unity/world.go\<close>: the players by connection, the index by
  player id, and the area-of-interest grid. Players never leave the world as pointers, only as
  copies. A nil receiver is \<open>None\<close>. As in \<open>AOI\<close>, an outer \<open>None\<close> of a result is a call
  that does not return.
\<close>

section \<open>Positions\<close>

text \<open>The conversion of a \<open>float32\<close>, given by its bits, to \<open>float64\<close>; it is exact.\<close>

definition float32_value :: "float32 \<Rightarrow> float64" where
  "float32_value v =
     (let e = unat (drop_bit 23 v AND 255); m = real (unat (v AND 8388607)); s = (if bit v 31 then -1 else 1)
      in if e = 255 then (if m = 0 then Inf (bit v 31) else NaN)
         else if e = 0 then Fin (s * m / 2 ^ 149)
         else if e < 150 then Fin (s * (8388608 + m) / 2 ^ (150 - e))
         else Fin (s * (8388608 + m) * 2 ^ (e - 150)))"

definition unityAOIPosition :: "UnityPosition \<Rightarrow> Position" where
  "unityAOIPosition position = \<lparr> ps_X = float32_value (up_X position), ps_Y = float32_value (up_Z position) \<rparr>"

section \<open>The world\<close>

record UnityWorldPlayer =
  uwp_PID :: int32
  uwp_ConnID :: u32
  uwp_Position :: UnityPosition
  uwp_ActionData :: int32
  uwp_Connection :: iconn

record UnityWorld =
  uw_players :: "u32 \<rightharpoonup> UnityWorldPlayer"
  uw_playerIDs :: "int32 \<rightharpoonup> u32"
  uw_aoi :: AOIManager

record UnityWorldMoveResult =
  mr_Player :: UnityWorldPlayer
  mr_Entered :: "UnityWorldPlayer list"
  mr_Left :: "UnityWorldPlayer list"
  mr_Visible :: "UnityWorldPlayer list"

definition NewUnityWorldWithAOI :: "float64 \<Rightarrow> float64 \<Rightarrow> float64 \<Rightarrow> float64 \<Rightarrow> UnityWorld res" where
  "NewUnityWorldWithAOI worldWidth worldHeight cellWidth cellHeight =
     (case NewAOIManager worldWidth worldHeight cellWidth cellHeight of
        Inl err \<Rightarrow> Inl err
      | Inr aoi \<Rightarrow> Inr \<lparr> uw_players = Map.empty, uw_playerIDs = Map.empty, uw_aoi = aoi \<rparr>)"

text \<open>\<open>NewUnityWorld\<close> panics with the error of the constructor, which does not happen.\<close>

definition NewUnityWorld :: "UnityWorld res" where
  "NewUnityWorld =
     (case NewUnityWorldWithAOI (Fin 1000) (Fin 1000) (Fin 10) (Fin 10) of
        Inl err \<Rightarrow> Inl (Panic (case err of Err text \<Rightarrow> text | _ \<Rightarrow> []))
      | Inr w \<Rightarrow> Inr w)"

text \<open>
  \<open>sort.Slice\<close> by the signed player id. Ids are unique in the world, so it does not matter that the
  sort of Go is not stable.
\<close>

definition sortByPID :: "UnityWorldPlayer list \<Rightarrow> UnityWorldPlayer list" where
  "sortByPID players = sort_key (\<lambda>p. sint (uwp_PID p)) players"

definition playersFromIDsLocked :: "u32 list \<Rightarrow> UnityWorld \<Rightarrow> UnityWorldPlayer list" where
  "playersFromIDsLocked ids w = sortByPID (List.map_filter (uw_players w) ids)"

definition nearbyPlayersLocked ::
  "(u32 set \<Rightarrow> u32 list) \<Rightarrow> u32 \<Rightarrow> UnityWorld \<Rightarrow> UnityWorldPlayer list option" where
  "nearbyPlayersLocked visit connID w =
     do {
       r \<leftarrow> GetNearbyEntityIDs visit connID (uw_aoi w);
       case r of Inl err \<Rightarrow> Some [] | Inr nearbyIDs \<Rightarrow> Some (playersFromIDsLocked nearbyIDs w)
     }"

definition AddPlayerWithPID ::
  "(u32 set \<Rightarrow> u32 list) \<Rightarrow> fpu \<Rightarrow> iconn option \<Rightarrow> int32 \<Rightarrow> UnityWorld option
   \<Rightarrow> ((UnityWorldPlayer \<times> UnityWorldPlayer list) res \<times> UnityWorld option) option" where
  "AddPlayerWithPID visit F connection pid world =
     (case (world, connection) of
        (Some w, Some conn) \<Rightarrow>
          (let connID = ic_connID conn
           in if uw_players w connID \<noteq> None
              then Some (Inl (Err ''unity world player already exists''), world)
              else if uw_playerIDs w pid \<noteq> None
              then Some (Inl (Err ''unity world player id already exists''), world)
              else
                let player = \<lparr> uwp_PID = pid, uwp_ConnID = connID, uwp_Position = zeroPosition,
                               uwp_ActionData = 0, uwp_Connection = conn \<rparr>
                in (case AddEntity F connID (unityAOIPosition (uwp_Position player)) (uw_aoi w) of
                      (Some err, aoi) \<Rightarrow> Some (Inl err, Some (w\<lparr>uw_aoi := aoi\<rparr>))
                    | (None, aoi) \<Rightarrow>
                        do {
                          let w1 = w\<lparr>uw_aoi := aoi, uw_players := (uw_players w)(connID \<mapsto> player),
                                     uw_playerIDs := (uw_playerIDs w)(pid \<mapsto> connID)\<rparr>;
                          nearby \<leftarrow> nearbyPlayersLocked visit connID w1;
                          Some (Inr (player, nearby), Some w1)
                        }))
      | _ \<Rightarrow> Some (Inl (Err ''unity world connection is nil''), world))"

text \<open>\<open>AddPlayer\<close> asks the connection for its id before anything is checked.\<close>

definition AddPlayer ::
  "(u32 set \<Rightarrow> u32 list) \<Rightarrow> fpu \<Rightarrow> iconn option \<Rightarrow> UnityWorld option
   \<Rightarrow> ((UnityWorldPlayer \<times> UnityWorldPlayer list) res \<times> UnityWorld option) option" where
  "AddPlayer visit F connection world =
     (case connection of
        None \<Rightarrow> Some (Inl (Panic ''nil pointer dereference''), world)
      | Some conn \<Rightarrow> AddPlayerWithPID visit F connection (ic_connID conn) world)"

definition RemovePlayerWithVisibility ::
  "(u32 set \<Rightarrow> u32 list) \<Rightarrow> u32 \<Rightarrow> UnityWorld option
   \<Rightarrow> ((UnityWorldPlayer \<times> UnityWorldPlayer list) res \<times> UnityWorld option) option" where
  "RemovePlayerWithVisibility visit connID world =
     (case world of
        None \<Rightarrow> Some (Inl (Err ''unity world is nil''), world)
      | Some w \<Rightarrow>
          (case uw_players w connID of
             None \<Rightarrow> Some (Inl (Err ''unity world player not found''), world)
           | Some player \<Rightarrow>
               do {
                 nearbyPlayers \<leftarrow> nearbyPlayersLocked visit connID w;
                 case RemoveEntity connID (uw_aoi w) of
                   (Some err, aoi) \<Rightarrow> Some (Inl err, Some (w\<lparr>uw_aoi := aoi\<rparr>))
                 | (None, aoi) \<Rightarrow>
                     Some (Inr (player, nearbyPlayers),
                       Some (w\<lparr>uw_aoi := aoi, uw_players := (uw_players w)(connID := None),
                               uw_playerIDs := (uw_playerIDs w)(uwp_PID player := None)\<rparr>))
               }))"

definition RemovePlayer ::
  "(u32 set \<Rightarrow> u32 list) \<Rightarrow> u32 \<Rightarrow> UnityWorld option \<Rightarrow> (UnityWorldPlayer res \<times> UnityWorld option) option" where
  "RemovePlayer visit connID world =
     do {
       (r, world') \<leftarrow> RemovePlayerWithVisibility visit connID world;
       Some (map_sum id fst r, world')
     }"

definition GetPlayer :: "u32 \<Rightarrow> UnityWorld option \<Rightarrow> UnityWorldPlayer res" where
  "GetPlayer connID world =
     (case world of
        None \<Rightarrow> Inl (Err ''unity world is nil'')
      | Some w \<Rightarrow>
          (case uw_players w connID of
             None \<Rightarrow> Inl (Err ''unity world player not found'')
           | Some player \<Rightarrow> Inr player))"

definition UpdatePlayerWithVisibility ::
  "(u32 set \<Rightarrow> u32 list) \<Rightarrow> fpu \<Rightarrow> u32 \<Rightarrow> UnityPosition \<Rightarrow> int32 \<Rightarrow> UnityWorld option
   \<Rightarrow> (UnityWorldMoveResult res \<times> UnityWorld option) option" where
  "UpdatePlayerWithVisibility visit F connID position actionData world =
     (case world of
        None \<Rightarrow> Some (Inl (Err ''unity world is nil''), world)
      | Some w \<Rightarrow>
          (case uw_players w connID of
             None \<Rightarrow> Some (Inl (Err ''unity world player not found''), world)
           | Some player \<Rightarrow>
               do {
                 (r, aoi) \<leftarrow> MoveEntity visit F connID (unityAOIPosition position) (uw_aoi w);
                 case r of
                   Inl err \<Rightarrow> Some (Inl err, Some (w\<lparr>uw_aoi := aoi\<rparr>))
                 | Inr change \<Rightarrow>
                     do {
                       let player1 = player\<lparr>uwp_Position := position, uwp_ActionData := actionData\<rparr>;
                       let w1 = w\<lparr>uw_aoi := aoi, uw_players := (uw_players w)(connID \<mapsto> player1)\<rparr>;
                       visible \<leftarrow> nearbyPlayersLocked visit connID w1;
                       Some (Inr \<lparr> mr_Player = player1,
                                   mr_Entered = playersFromIDsLocked (ac_Entered change) w1,
                                   mr_Left = playersFromIDsLocked (ac_Left change) w1,
                                   mr_Visible = visible \<rparr>, Some w1)
                     }
               }))"

definition UpdatePlayer ::
  "(u32 set \<Rightarrow> u32 list) \<Rightarrow> fpu \<Rightarrow> u32 \<Rightarrow> UnityPosition \<Rightarrow> int32 \<Rightarrow> UnityWorld option
   \<Rightarrow> (UnityWorldPlayer res \<times> UnityWorld option) option" where
  "UpdatePlayer visit F connID position actionData world =
     do {
       (r, world') \<leftarrow> UpdatePlayerWithVisibility visit F connID position actionData world;
       Some (map_sum id mr_Player r, world')
     }"

definition NearbyPlayers ::
  "(u32 set \<Rightarrow> u32 list) \<Rightarrow> u32 \<Rightarrow> UnityWorld option \<Rightarrow> UnityWorldPlayer list option" where
  "NearbyPlayers visit connID world =
     (case world of None \<Rightarrow> Some [] | Some w \<Rightarrow> nearbyPlayersLocked visit connID w)"

section \<open>Broadcasting\<close>

fun sendPlayers ::
  "Config \<Rightarrow> u32 \<Rightarrow> bytes \<Rightarrow> UnityWorldPlayer list \<Rightarrow> go_error list \<Rightarrow> 'p conn_store
   \<Rightarrow> go_error list \<times> 'p conn_store" where
  "sendPlayers g msgID data [] errorsFound s = (errorsFound, s)"
| "sendPlayers g msgID data (player # players) errorsFound s =
     (case storeSend g msgID data (uwp_Connection player) s of
        (Some err, s') \<Rightarrow> sendPlayers g msgID data players (errorsFound @ [err]) s'
      | (None, s') \<Rightarrow> sendPlayers g msgID data players errorsFound s')"

definition BroadcastVisible ::
  "(u32 set \<Rightarrow> u32 list) \<Rightarrow> Config \<Rightarrow> u32 \<Rightarrow> u32 \<Rightarrow> bytes \<Rightarrow> bool \<Rightarrow> UnityWorld option \<Rightarrow> 'p conn_store
   \<Rightarrow> (go_error list \<times> 'p conn_store) option" where
  "BroadcastVisible visit g connID msgID data includeSelf world s =
     (case world of
        None \<Rightarrow> Some ([], s)
      | Some w \<Rightarrow>
          do {
            players \<leftarrow> nearbyPlayersLocked visit connID w;
            let players = (if includeSelf
                           then (case uw_players w connID of None \<Rightarrow> players | Some player \<Rightarrow> players @ [player])
                           else players);
            Some (sendPlayers g msgID data players [] s)
          })"

text \<open>\<open>Players\<close> visits the map in the order \<open>ks\<close>.\<close>

definition Players :: "u32 list \<Rightarrow> UnityWorld option \<Rightarrow> UnityWorldPlayer list" where
  "Players ks world =
     (case world of
        None \<Rightarrow> []
      | Some w \<Rightarrow> sortByPID (map (\<lambda>k. the (uw_players w k)) ks))"

definition worldBroadcast ::
  "Config \<Rightarrow> u32 \<Rightarrow> bytes \<Rightarrow> u32 \<Rightarrow> bool \<Rightarrow> u32 list \<Rightarrow> UnityWorld option \<Rightarrow> 'p conn_store
   \<Rightarrow> go_error list \<times> 'p conn_store" where
  "worldBroadcast g msgID data exceptConnID exclude ks world s =
     sendPlayers g msgID data
       (filter (\<lambda>player. \<not> (exclude \<and> uwp_ConnID player = exceptConnID)) (Players ks world)) [] s"

definition WorldBroadcast ::
  "Config \<Rightarrow> u32 \<Rightarrow> bytes \<Rightarrow> u32 list \<Rightarrow> UnityWorld option \<Rightarrow> 'p conn_store \<Rightarrow> go_error list \<times> 'p conn_store" where
  "WorldBroadcast g msgID data ks world s = worldBroadcast g msgID data 0 False ks world s"

definition WorldBroadcastExcept ::
  "Config \<Rightarrow> u32 \<Rightarrow> u32 \<Rightarrow> bytes \<Rightarrow> u32 list \<Rightarrow> UnityWorld option \<Rightarrow> 'p conn_store
   \<Rightarrow> go_error list \<times> 'p conn_store" where
  "WorldBroadcastExcept g exceptConnID msgID data ks world s =
     worldBroadcast g msgID data exceptConnID True ks world s"

section \<open>The invariant\<close>

text \<open>
  Players are filed under their connection; the index by player id is the inverse; the grid holds
  exactly the players, each at its position.
\<close>

definition players_ok :: "UnityWorld \<Rightarrow> bool" where
  "players_ok w \<longleftrightarrow>
     (\<forall>k p. uw_players w k = Some p \<longrightarrow> uwp_ConnID p = k \<and> ic_connID (uwp_Connection p) = k)"

definition index_of :: "('v \<Rightarrow> 'i) \<Rightarrow> ('k \<rightharpoonup> 'v) \<Rightarrow> ('i \<rightharpoonup> 'k) \<Rightarrow> bool" where
  "index_of f m ids \<longleftrightarrow> (\<forall>i k. ids i = Some k \<longleftrightarrow> (\<exists>v. m k = Some v \<and> f v = i))"

definition ids_ok :: "UnityWorld \<Rightarrow> bool" where
  "ids_ok w \<longleftrightarrow> index_of uwp_PID (uw_players w) (uw_playerIDs w)"

definition located :: "UnityWorld \<Rightarrow> bool" where
  "located w \<longleftrightarrow>
     (\<forall>k. map_option ae_position (am_entities (uw_aoi w) k)
        = map_option (\<lambda>p. unityAOIPosition (uwp_Position p)) (uw_players w k))"

definition world_inv :: "fpu \<Rightarrow> UnityWorld \<Rightarrow> bool" where
  "world_inv F w \<longleftrightarrow> aoi_inv F (uw_aoi w) \<and> players_ok w \<and> ids_ok w \<and> located w"

lemma world_invI:
  "aoi_inv F (uw_aoi w) \<Longrightarrow> players_ok w \<Longrightarrow> ids_ok w \<Longrightarrow> located w \<Longrightarrow> world_inv F w"
  by (simp add: world_inv_def)

lemma world_invD:
  assumes "world_inv F w"
  shows "aoi_inv F (uw_aoi w)" "players_ok w" "ids_ok w" "located w"
  using assms by (simp_all add: world_inv_def)

lemma index_ofD: "index_of f m ids \<Longrightarrow> m k = Some v \<Longrightarrow> ids (f v) = Some k"
  unfolding index_of_def by blast

lemma index_of_insert:
  assumes "index_of f m ids" "m k = None" "ids (f v) = None"
  shows "index_of f (m(k \<mapsto> v)) (ids(f v \<mapsto> k))"
proof -
  have "f u \<noteq> f v" if "m j = Some u" for j u
    using index_ofD [OF assms(1) that] assms(3) by auto
  then show ?thesis using assms(1,2) unfolding index_of_def by auto
qed

lemma index_of_delete:
  assumes "index_of f m ids" "m k = Some v"
  shows "index_of f (m(k := None)) (ids(f v := None))"
proof -
  have uniq: "\<not> (\<exists>u. m j = Some u \<and> f u = f v)" if "j \<noteq> k" for j
    using index_ofD [OF assms(1), of j] index_ofD [OF assms] that by fastforce
  have "(ids(f v := None)) i = Some j \<longleftrightarrow> (\<exists>u. (m(k := None)) j = Some u \<and> f u = i)" for i j
  proof -
    have "ids i = Some j \<longleftrightarrow> (\<exists>u. m j = Some u \<and> f u = i)"
      using assms(1) unfolding index_of_def by blast
    then show ?thesis using uniq [of j] assms(2) by (cases "j = k") auto
  qed
  then show ?thesis unfolding index_of_def by blast
qed

lemma index_of_update:
  assumes "index_of f m ids" "m k = Some v" "f v' = f v"
  shows "index_of f (m(k \<mapsto> v')) ids"
  using assms unfolding index_of_def by auto

lemma located_at:
  "located w \<Longrightarrow> map_option ae_position (am_entities (uw_aoi w) k)
     = map_option (\<lambda>p. unityAOIPosition (uwp_Position p)) (uw_players w k)"
  unfolding located_def by blast

lemma located_entity:
  assumes "located w" "uw_players w k = Some p"
  obtains e where "am_entities (uw_aoi w) k = Some e" "ae_position e = unityAOIPosition (uwp_Position p)"
  using located_at [OF assms(1), of k] assms(2) that by auto

lemma located_player:
  assumes "located w" "am_entities (uw_aoi w) k = Some e"
  obtains p where "uw_players w k = Some p" "ae_position e = unityAOIPosition (uwp_Position p)"
  using located_at [OF assms(1), of k] assms(2) that by (cases "uw_players w k") auto

lemma located_None: "located w \<Longrightarrow> am_entities (uw_aoi w) k = None \<longleftrightarrow> uw_players w k = None"
  using located_at [of w k] by (cases "uw_players w k") auto

lemma AddEntity_result:
  assumes "AddEntity F i p am = (err, am')"
  obtains (refused) x where "err = Some x" "am' = am"
  | (added) e where "err = None" "am_entities am i = None" "ae_position e = p"
      "am_entities am' = (am_entities am)(i \<mapsto> e)"
proof (cases "am_entities am i")
  case None
  show ?thesis
  proof (cases "cellFor F p am")
    case (Inl x)
    with assms None refused show ?thesis by (auto simp: AddEntity_def)
  next
    case (Inr c)
    with assms None show ?thesis
      by (intro added [of "\<lparr> ae_id = i, ae_position = p, ae_cell = c \<rparr>"]) (auto simp: AddEntity_def)
  qed
next
  case (Some e)
  with assms refused show ?thesis by (auto simp: AddEntity_def)
qed

lemma RemoveEntity_result:
  assumes "RemoveEntity i am = (err, am')"
  obtains (refused) x where "err = Some x" "am' = am" "am_entities am i = None"
  | (removed) "err = None" "am_entities am' = (am_entities am)(i := None)"
  using assms refused removed
  by (cases "am_entities am i") (auto simp: RemoveEntity_def Let_def)

section \<open>The operations keep it\<close>

lemma world_inv_new: "NewUnityWorldWithAOI ww wh cw ch = Inr w \<Longrightarrow> world_inv F w"
proof -
  assume "NewUnityWorldWithAOI ww wh cw ch = Inr w"
  then obtain am where am: "NewAOIManager ww wh cw ch = Inr am"
    and w: "w = \<lparr> uw_players = Map.empty, uw_playerIDs = Map.empty, uw_aoi = am \<rparr>"
    by (cases "NewAOIManager ww wh cw ch") (simp_all add: NewUnityWorldWithAOI_def)
  have "am_entities am = Map.empty"
    using am by (auto simp: NewAOIManager_def split: if_splits)
  then show ?thesis
    using aoi_inv_new [OF am] by (simp add: w world_inv_def players_ok_def ids_ok_def index_of_def located_def)
qed

lemma AddPlayerWithPID_result:
  assumes "AddPlayerWithPID visit F connection pid (Some w) = Some (r, w')"
  obtains (refused) err where "r = Inl err" "w' = Some w"
  | (added) conn aoi nearby w1 player where "connection = Some conn"
      "uw_players w (ic_connID conn) = None" "uw_playerIDs w pid = None"
      "player = \<lparr> uwp_PID = pid, uwp_ConnID = ic_connID conn, uwp_Position = zeroPosition,
                  uwp_ActionData = 0, uwp_Connection = conn \<rparr>"
      "AddEntity F (ic_connID conn) (unityAOIPosition zeroPosition) (uw_aoi w) = (None, aoi)"
      "w1 = w\<lparr>uw_aoi := aoi, uw_players := (uw_players w)(ic_connID conn \<mapsto> player),
              uw_playerIDs := (uw_playerIDs w)(pid \<mapsto> ic_connID conn)\<rparr>"
      "nearbyPlayersLocked visit (ic_connID conn) w1 = Some nearby"
      "r = Inr (player, nearby)" "w' = Some w1"
proof (cases connection)
  case None
  with assms refused show ?thesis by (auto simp: AddPlayerWithPID_def)
next
  case (Some conn)
  obtain err aoi where add: "AddEntity F (ic_connID conn) (unityAOIPosition zeroPosition) (uw_aoi w) = (err, aoi)"
    by fastforce
  show ?thesis
  proof (cases "uw_players w (ic_connID conn) = None \<and> uw_playerIDs w pid = None \<and> err = None")
    case True
    with assms Some add added show ?thesis
      by (auto simp: AddPlayerWithPID_def Let_def Option.bind_eq_Some_conv)
  next
    case False
    have "aoi = uw_aoi w" if "err \<noteq> None" using add that by (cases rule: AddEntity_result) auto
    with False assms Some add refused show ?thesis
      by (auto simp: AddPlayerWithPID_def Let_def split: if_splits option.splits)
  qed
qed

lemma world_inv_add:
  assumes inv: "world_inv F w" and "AddPlayerWithPID visit F connection pid (Some w) = Some (r, Some w')"
  shows "world_inv F w'"
  using assms(2)
proof (cases rule: AddPlayerWithPID_result)
  case (added conn aoi nearby w1 player)
  note D = world_invD [OF inv]
  from added(5) obtain e where e: "ae_position e = unityAOIPosition zeroPosition"
      "am_entities aoi = (am_entities (uw_aoi w))(ic_connID conn \<mapsto> e)"
    by (cases rule: AddEntity_result) auto
  show ?thesis
  proof (rule world_invI)
    show "aoi_inv F (uw_aoi w')" using aoi_inv_add [OF D(1) added(5)] added by simp
    show "players_ok w'" using D(2) added by (auto simp: players_ok_def)
    show "ids_ok w'"
      using D(3) index_of_insert [of uwp_PID "uw_players w" "uw_playerIDs w" "ic_connID conn" player] added
      by (simp add: ids_ok_def)
    show "located w'" using D(4) e added by (auto simp: located_def)
  qed
qed (use inv in simp)

lemma RemovePlayer_result:
  assumes "RemovePlayerWithVisibility visit k (Some w) = Some (r, w')" "located w"
  obtains (refused) err where "r = Inl err" "w' = Some w" "uw_players w k = None"
  | (removed) player nearby aoi where "uw_players w k = Some player"
      "nearbyPlayersLocked visit k w = Some nearby" "RemoveEntity k (uw_aoi w) = (None, aoi)"
      "am_entities aoi = (am_entities (uw_aoi w))(k := None)"
      "r = Inr (player, nearby)"
      "w' = Some (w\<lparr>uw_aoi := aoi, uw_players := (uw_players w)(k := None),
                    uw_playerIDs := (uw_playerIDs w)(uwp_PID player := None)\<rparr>)"
proof (cases "uw_players w k")
  case None
  with assms refused show ?thesis by (auto simp: RemovePlayerWithVisibility_def)
next
  case (Some player)
  obtain err aoi where rem: "RemoveEntity k (uw_aoi w) = (err, aoi)" by fastforce
  have ok: "err = None \<and> am_entities aoi = (am_entities (uw_aoi w))(k := None)"
    using rem Some located_None [OF assms(2), of k] by (cases rule: RemoveEntity_result) auto
  then show ?thesis
    using assms(1) Some rem removed
    by (auto simp: RemovePlayerWithVisibility_def Option.bind_eq_Some_conv)
qed

lemma world_inv_remove:
  assumes inv: "world_inv F w" and "RemovePlayerWithVisibility visit k (Some w) = Some (r, Some w')"
  shows "world_inv F w'"
  using assms(2) world_invD(4) [OF inv]
proof (cases rule: RemovePlayer_result)
  case (removed player nearby aoi)
  note D = world_invD [OF inv]
  show ?thesis
  proof (rule world_invI)
    show "aoi_inv F (uw_aoi w')" using aoi_inv_remove [OF D(1) removed(3)] removed by simp
    show "players_ok w'" using D(2) removed by (auto simp: players_ok_def)
    show "ids_ok w'" using D(3) index_of_delete removed by (simp add: ids_ok_def)
    show "located w'" using D(4) removed by (auto simp: located_def)
  qed
qed (use inv in simp)

lemma UpdatePlayer_result:
  assumes "UpdatePlayerWithVisibility visit F k position action (Some w) = Some (r, w')"
  obtains (refused) err where "r = Inl err" "w' = Some w"
  | (updated) player aoi change visible w1 where "uw_players w k = Some player"
      "MoveEntity visit F k (unityAOIPosition position) (uw_aoi w) = Some (Inr change, aoi)"
      "w1 = w\<lparr>uw_aoi := aoi, uw_players := (uw_players w)(k \<mapsto>
          player\<lparr>uwp_Position := position, uwp_ActionData := action\<rparr>)\<rparr>"
      "nearbyPlayersLocked visit k w1 = Some visible"
      "r = Inr \<lparr> mr_Player = player\<lparr>uwp_Position := position, uwp_ActionData := action\<rparr>,
                 mr_Entered = playersFromIDsLocked (ac_Entered change) w1,
                 mr_Left = playersFromIDsLocked (ac_Left change) w1, mr_Visible = visible \<rparr>"
      "w' = Some w1"
proof (cases "uw_players w k")
  case None
  with assms refused show ?thesis by (auto simp: UpdatePlayerWithVisibility_def)
next
  case (Some player)
  with assms obtain mr aoi where mv: "MoveEntity visit F k (unityAOIPosition position) (uw_aoi w) = Some (mr, aoi)"
    by (auto simp: UpdatePlayerWithVisibility_def Option.bind_eq_Some_conv)
  show ?thesis
  proof (cases mr)
    case (Inl err)
    have "aoi = uw_aoi w" using mv Inl by (cases rule: MoveEntity_result) auto
    with assms Some mv Inl refused show ?thesis by (auto simp: UpdatePlayerWithVisibility_def)
  next
    case (Inr change)
    define w1 where "w1 = w\<lparr>uw_aoi := aoi, uw_players := (uw_players w)(k \<mapsto>
        player\<lparr>uwp_Position := position, uwp_ActionData := action\<rparr>)\<rparr>"
    from assms Some mv Inr obtain visible where v: "nearbyPlayersLocked visit k w1 = Some visible"
      "r = Inr \<lparr> mr_Player = player\<lparr>uwp_Position := position, uwp_ActionData := action\<rparr>,
                 mr_Entered = playersFromIDsLocked (ac_Entered change) w1,
                 mr_Left = playersFromIDsLocked (ac_Left change) w1, mr_Visible = visible \<rparr>"
      "w' = Some w1"
      by (auto simp: UpdatePlayerWithVisibility_def Option.bind_eq_Some_conv Let_def w1_def)
    from Some mv [unfolded Inr] w1_def v show ?thesis by (rule updated)
  qed
qed

lemma world_inv_moved:
  assumes inv: "world_inv F w" and "uw_players w k = Some player"
    and "MoveEntity visit F k (unityAOIPosition position) (uw_aoi w) = Some (Inr change, aoi)"
  shows "world_inv F (w\<lparr>uw_aoi := aoi, uw_players := (uw_players w)(k \<mapsto>
    player\<lparr>uwp_Position := position, uwp_ActionData := action\<rparr>)\<rparr>)" (is "world_inv F ?w")
proof (rule world_invI)
  note D = world_invD [OF inv]
  from assms(3) obtain e c where e: "am_entities aoi = (am_entities (uw_aoi w))(k \<mapsto>
      e\<lparr>ae_cell := c, ae_position := unityAOIPosition position\<rparr>)"
    by (cases rule: MoveEntity_result) auto
  show "aoi_inv F (uw_aoi ?w)" using aoi_inv_move [OF D(1) assms(3)] by simp
  show "players_ok ?w" using D(2) assms(2) by (auto simp: players_ok_def)
  show "ids_ok ?w" using D(3) assms(2) by (simp add: ids_ok_def index_of_update)
  show "located ?w" using D(4) e by (auto simp: located_def)
qed

lemma world_inv_update:
  assumes "world_inv F w"
    and "UpdatePlayerWithVisibility visit F k position action (Some w) = Some (r, Some w')"
  shows "world_inv F w'"
  using assms(2) by (cases rule: UpdatePlayer_result) (use assms(1) world_inv_moved in auto)

inductive world_step :: "(u32 set \<Rightarrow> u32 list) \<Rightarrow> fpu \<Rightarrow> UnityWorld \<Rightarrow> UnityWorld \<Rightarrow> bool"
  for visit :: "u32 set \<Rightarrow> u32 list" and F :: fpu where
  step_add: "AddPlayerWithPID visit F connection pid (Some w) = Some (r, Some w') \<Longrightarrow> world_step visit F w w'"
| step_remove: "RemovePlayerWithVisibility visit k (Some w) = Some (r, Some w') \<Longrightarrow> world_step visit F w w'"
| step_update: "UpdatePlayerWithVisibility visit F k position action (Some w) = Some (q, Some w')
    \<Longrightarrow> world_step visit F w w'"

definition world_init :: "UnityWorld \<Rightarrow> bool" where
  "world_init w \<longleftrightarrow> (\<exists>ww wh cw ch. NewUnityWorldWithAOI ww wh cw ch = Inr w)"

interpretation world: invariant_system world_init "world_step visit F" "world_inv F" for visit F
proof
  show "world_init w \<Longrightarrow> world_inv F w" for w by (auto simp: world_init_def world_inv_new)
  show "world_inv F w'" if "world_inv F w" "world_step visit F w w'" for w w'
    using that(2)
    by (cases rule: world_step.cases)
       (auto intro: world_inv_add [OF that(1)] world_inv_remove [OF that(1)] world_inv_update [OF that(1)])
qed

section \<open>The players in sight\<close>

text \<open>The connections in sight of a player, by the reference definition of the grid.\<close>

definition in_sight :: "UnityWorld \<Rightarrow> u32 \<Rightarrow> u32 set" where
  "in_sight w k =
     (case am_entities (uw_aoi w) k of None \<Rightarrow> {} | Some e \<Rightarrow> neighbours (uw_aoi w) k (ae_cell e))"

lemma in_sight_sym: "j \<in> in_sight w k \<Longrightarrow> k \<in> in_sight w j"
  by (auto simp: in_sight_def neighbours_def adjacent_sym split: option.splits)

lemma in_sight_players: "located w \<Longrightarrow> j \<in> in_sight w k \<Longrightarrow> \<exists>p. uw_players w j = Some p"
  using located_None [of w j] by (auto simp: in_sight_def neighbours_def split: option.splits)

text \<open>The players with the given connections, by ascending player id.\<close>

definition roster :: "UnityWorld \<Rightarrow> u32 set \<Rightarrow> UnityWorldPlayer list \<Rightarrow> bool" where
  "roster w ids ps \<longleftrightarrow>
     sorted_wrt (\<lambda>p q. sint (uwp_PID p) < sint (uwp_PID q)) ps \<and>
     set ps = {p. \<exists>k \<in> ids. uw_players w k = Some p}"

lemma sorted_PID_strict:
  assumes "distinct (map uwp_PID ps)" "sorted (map (\<lambda>p. sint (uwp_PID p)) ps)"
  shows "sorted_wrt (\<lambda>p q. sint (uwp_PID p) < sint (uwp_PID q)) ps"
proof -
  have "distinct (map (\<lambda>p. sint (uwp_PID p)) ps)"
    using assms(1) by (simp add: distinct_map inj_on_def signed_word_eqI)
  with assms(2) have "sorted_wrt (<) (map (\<lambda>p. sint (uwp_PID p)) ps)"
    by (simp add: strict_sorted_iff)
  then show ?thesis by (simp add: sorted_wrt_map)
qed

lemma map_filter_PIDs:
  assumes "index_of uwp_PID m ids" "distinct ks"
  shows "distinct (map uwp_PID (List.map_filter m ks))"
  using assms(2)
proof (induction ks)
  case (Cons k ks)
  show ?case
  proof (cases "m k")
    case (Some p)
    have "uwp_PID p \<noteq> uwp_PID q" if "m j = Some q" "j \<in> set ks" for j q
      using index_ofD [OF assms(1) Some] index_ofD [OF assms(1) that(1)] Cons.prems that(2) by auto
    then have "uwp_PID p \<notin> uwp_PID ` set (List.map_filter m ks)"
      by (fastforce simp: map_filter_def)
    then show ?thesis using Cons Some by (simp add: map_filter_simps)
  qed (use Cons in \<open>simp add: map_filter_simps\<close>)
qed (simp add: map_filter_simps)

lemma set_map_filter_Some: "set (List.map_filter f xs) = {y. \<exists>x \<in> set xs. f x = Some y}"
  by (induction xs) (auto simp: map_filter_simps split: option.splits)

lemma roster_sortByPID:
  assumes "ids_ok w" "distinct ks"
  shows "roster w (set ks) (sortByPID (List.map_filter (uw_players w) ks))"
proof -
  let ?ps = "List.map_filter (uw_players w) ks"
  have "distinct (map uwp_PID ?ps)" using map_filter_PIDs assms by (simp add: ids_ok_def)
  then have "distinct (map uwp_PID (sortByPID ?ps))"
    unfolding sortByPID_def by (simp add: distinct_map)
  then show ?thesis
    using sorted_PID_strict [of "sortByPID ?ps"]
    by (simp add: roster_def sortByPID_def set_map_filter_Some)
qed

lemma nearbyPlayers_roster:
  assumes "visits visit" "world_inv F w" "inner_grid F (uw_aoi w)"
  obtains ps where "nearbyPlayersLocked visit k w = Some ps" "roster w (in_sight w k) ps"
proof (cases "am_entities (uw_aoi w) k")
  case None
  then show ?thesis
    by (intro that [of "[]"]) (simp_all add: nearbyPlayersLocked_def GetNearbyEntityIDs_def roster_def in_sight_def)
next
  case (Some e)
  note D = world_invD [OF assms(2)]
  have "ae_id e = k" "inner_cell (ae_cell e)" "indexed (uw_aoi w)"
    using Some D(1) assms(3) by (auto simp: aoi_inv_def placed_def inner_grid_def)
  then have "nearbyPlayersLocked visit k w = Some (playersFromIDsLocked (sorted_list_of_set (in_sight w k)) w)"
    using Some nearbyLocked_neighbours [OF assms(1), of "uw_aoi w" e]
    by (simp add: nearbyPlayersLocked_def GetNearbyEntityIDs_def in_sight_def)
  moreover have "roster w (in_sight w k) (playersFromIDsLocked (sorted_list_of_set (in_sight w k)) w)"
    using roster_sortByPID [OF D(3), of "sorted_list_of_set (in_sight w k)"] by (simp add: playersFromIDsLocked_def)
  ultimately show ?thesis by (rule that)
qed

lemma roster_ids:
  assumes "roster w ids ps" "players_ok w" "ids \<subseteq> dom (uw_players w)"
  shows "uwp_ConnID ` set ps = ids"
  using assms by (force simp: roster_def players_ok_def image_iff dom_def)

lemma in_sight_dom: "located w \<Longrightarrow> in_sight w k \<subseteq> dom (uw_players w)"
  using in_sight_players by fastforce

text \<open>Adding a player returns and succeeds when its connection and its player id are new.\<close>

lemma inner_grid_cellFor: "(\<And>p. cellFor F p am' = cellFor F p am) \<Longrightarrow> inner_grid F am \<Longrightarrow> inner_grid F am'"
  by (simp add: inner_grid_def)

lemma AddPlayerWithPID_succeeds:
  assumes "visits visit" "world_inv F w" "inner_grid F (uw_aoi w)"
    and "uw_players w (ic_connID conn) = None" "uw_playerIDs w pid = None"
    and c: "cellFor F (unityAOIPosition zeroPosition) (uw_aoi w) = Inr c"
  defines "player \<equiv> \<lparr> uwp_PID = pid, uwp_ConnID = ic_connID conn, uwp_Position = zeroPosition,
      uwp_ActionData = 0, uwp_Connection = conn \<rparr>"
  defines "w1 \<equiv> w\<lparr>uw_aoi := snd (AddEntity F (ic_connID conn) (unityAOIPosition zeroPosition) (uw_aoi w)),
      uw_players := (uw_players w)(ic_connID conn \<mapsto> player),
      uw_playerIDs := (uw_playerIDs w)(pid \<mapsto> ic_connID conn)\<rparr>"
  obtains nearby where "AddPlayerWithPID visit F (Some conn) pid (Some w) = Some (Inr (player, nearby), Some w1)"
    "roster w1 (in_sight w1 (ic_connID conn)) nearby" "world_inv F w1" "inner_grid F (uw_aoi w1)"
proof -
  note D = world_invD [OF assms(2)]
  have add: "AddEntity F (ic_connID conn) (unityAOIPosition zeroPosition) (uw_aoi w) = (None, uw_aoi w1)"
    using c located_None [OF D(4)] assms(4) by (simp add: w1_def AddEntity_def)
  have grid: "inner_grid F (uw_aoi w1)"
    using assms(3) c located_None [OF D(4)] assms(4)
    by (intro inner_grid_cellFor [of F "uw_aoi w1" "uw_aoi w"]) (simp_all add: w1_def AddEntity_def)
  have "index_of uwp_PID (uw_players w1) (uw_playerIDs w1)"
    using D(3) index_of_insert [of uwp_PID "uw_players w" "uw_playerIDs w" "ic_connID conn" player] assms(4,5)
    by (simp add: ids_ok_def w1_def player_def)
  moreover from add obtain e where "ae_position e = unityAOIPosition zeroPosition"
      "am_entities (uw_aoi w1) = (am_entities (uw_aoi w))(ic_connID conn \<mapsto> e)"
    by (cases rule: AddEntity_result) auto
  then have "located w1" using D(4) by (auto simp: located_def w1_def player_def)
  moreover have "players_ok w1" using D(2) by (auto simp: players_ok_def w1_def player_def)
  ultimately have inv: "world_inv F w1"
    using aoi_inv_add [OF D(1) add] by (simp add: world_inv_def ids_ok_def)
  obtain nearby where near: "nearbyPlayersLocked visit (ic_connID conn) w1 = Some nearby"
      "roster w1 (in_sight w1 (ic_connID conn)) nearby"
    using nearbyPlayers_roster [OF assms(1) inv grid] .
  have "AddPlayerWithPID visit F (Some conn) pid (Some w) = Some (Inr (player, nearby), Some w1)"
  proof -
    obtain a where a: "AddEntity F (ic_connID conn) (unityAOIPosition zeroPosition) (uw_aoi w) = (None, a)"
      using add by simp
    have w1: "w1 = w\<lparr>uw_aoi := a, uw_players := (uw_players w)(ic_connID conn \<mapsto> player),
        uw_playerIDs := (uw_playerIDs w)(pid \<mapsto> ic_connID conn)\<rparr>" by (simp add: w1_def a)
    show ?thesis
      using a near(1) assms(4,5) by (simp add: AddPlayerWithPID_def player_def w1 Let_def)
  qed
  then show ?thesis using near(2) inv grid by (rule that)
qed

lemma UpdatePlayer_succeeds:
  assumes "visits visit" "world_inv F w" "inner_grid F (uw_aoi w)"
    and "uw_players w k = Some player" "cellFor F (unityAOIPosition position) (uw_aoi w) = Inr c"
  obtains res w' where
    "UpdatePlayerWithVisibility visit F k position action (Some w) = Some (Inr res, Some w')"
proof -
  note D = world_invD [OF assms(2)]
  obtain e where e: "am_entities (uw_aoi w) k = Some e" using located_entity [OF D(4) assms(4)] .
  obtain change aoi where mv: "MoveEntity visit F k (unityAOIPosition position) (uw_aoi w) = Some (Inr change, aoi)"
    and aoi: "aoi = moved k e (unityAOIPosition position) c (uw_aoi w)"
    using MoveEntity_change [OF assms(1) D(1) assms(3) e assms(5)] by auto
  have "inner_grid F aoi" using assms(3) by (simp add: inner_grid_def aoi)
  then obtain visible where "nearbyPlayersLocked visit k (w\<lparr>uw_aoi := aoi, uw_players := (uw_players w)(k \<mapsto>
      player\<lparr>uwp_Position := position, uwp_ActionData := action\<rparr>)\<rparr>) = Some visible"
    using nearbyPlayers_roster [OF assms(1) world_inv_moved [OF assms(2,4) mv, of action], of k] by auto
  then show ?thesis using that mv assms(4) by (simp add: UpdatePlayerWithVisibility_def Let_def)
qed

section \<open>Messages to players\<close>

lemma sendPlayers_send_all:
  "store.send_all g m d (map uwp_Connection ps) s = (es, s') \<Longrightarrow>
     sendPlayers g m d ps errs s = (errs @ map snd es, s')"
proof (induction ps arbitrary: errs s es)
  case (Cons p ps)
  obtain err s1 where send: "storeSend g m d (uwp_Connection p) s = (err, s1)" by fastforce
  obtain es1 where "store.send_all g m d (map uwp_Connection ps) s1 = (es1, s')"
    "es = (case err of None \<Rightarrow> es1 | Some e \<Rightarrow> (uwp_Connection p, e) # es1)"
    using Cons.prems send by (auto split: prod.splits)
  with Cons.IH send show ?case by (cases err) auto
qed simp

lemma subseq_distinct: "subseq xs ys \<Longrightarrow> distinct ys \<Longrightarrow> distinct xs"
  by (induction rule: list_emb.induct) (auto dest: subseq_set_subset)

text \<open>The players of a world have connections of their own.\<close>

definition conns_ok :: "UnityWorld \<Rightarrow> 'p conn_store \<Rightarrow> bool" where
  "conns_ok w s \<longleftrightarrow>
     (\<forall>k p. uw_players w k = Some p \<longrightarrow> (\<exists>c. conn_at s (uwp_Connection p) = Some c \<and> cn_ConnID c = k))"

lemma conns_ok_inj:
  assumes "conns_ok w s" "players_ok w" "uw_players w j = Some p" "uw_players w k = Some q"
    and "ic_ref (uwp_Connection p) = ic_ref (uwp_Connection q)"
  shows "p = q"
proof -
  have "j = k" using assms(1,3-5) unfolding conns_ok_def by (metis option.inject)
  with assms(3,4) show ?thesis by simp
qed

text \<open>
  Sending to a list of different players: those that fail are as many as the errors returned, every
  other one gets the packet exactly once, and nobody else gets anything.
\<close>

lemma sendPlayers_delivers:
  assumes "store_wf s" "conns_ok w s" "players_ok w"
    and ps: "distinct ps" "set ps \<subseteq> ran (uw_players w)"
    and run: "sendPlayers g m d ps [] s = (errs, s')"
  shows "\<exists>failed \<subseteq> set ps. card failed = length errs \<and>
    (\<forall>p \<in> set ps. outbox (uwp_Connection p) s' =
       (if p \<in> failed then outbox (uwp_Connection p) s
        else outbox (uwp_Connection p) s @ [packet (NewMsgPackage m d)])) \<and>
    (\<forall>i. (\<forall>p \<in> set ps. ic_ref (uwp_Connection p) \<noteq> ic_ref i) \<longrightarrow> outbox i s' = outbox i s)"
proof -
  let ?is = "map uwp_Connection ps"
  obtain es s1 where all: "store.send_all g m d ?is s = (es, s1)" by fastforce
  from sendPlayers_send_all [OF this, of "[]"] run have errs: "errs = map snd es" and s1: "s1 = s'" by auto
  have ref: "p = q" if pq: "p \<in> set ps" "q \<in> set ps" "ic_ref (uwp_Connection p) = ic_ref (uwp_Connection q)" for p q
  proof -
    obtain j k where "uw_players w j = Some p" "uw_players w k = Some q"
      using pq(1,2) ps(2) unfolding ran_def by blast
    then show ?thesis using pq(3) by (rule conns_ok_inj [OF assms(2,3)])
  qed
  then have inj: "inj_on uwp_Connection (set ps)" by (auto simp: inj_on_def)
  then have dist: "distinct ?is" using ps(1) by (simp add: distinct_map)
  note sub = store.send_all_errs [OF all]
  have refi: "i = j" if "i \<in> set ?is" "j \<in> set ?is" "ic_ref i = ic_ref j" for i j
    using that ref by auto
  define failed where "failed = {p \<in> set ps. uwp_Connection p \<in> set (map fst es)}"
  have "uwp_Connection ` failed = set (map fst es)"
  proof
    show "uwp_Connection ` failed \<subseteq> set (map fst es)" unfolding failed_def by blast
    show "set (map fst es) \<subseteq> uwp_Connection ` failed"
    proof
      fix i assume i: "i \<in> set (map fst es)"
      with subseq_set_subset [OF sub] have "i \<in> uwp_Connection ` set ps" unfolding set_map by blast
      then obtain p where "p \<in> set ps" "i = uwp_Connection p" by (rule imageE)
      with i show "i \<in> uwp_Connection ` failed" unfolding failed_def by blast
    qed
  qed
  moreover have "inj_on uwp_Connection failed"
    using inj by (rule inj_on_subset) (auto simp: failed_def)
  moreover have "distinct (map fst es)" using subseq_distinct [OF sub dist] .
  ultimately have "card failed = length errs"
    by (metis card_image distinct_card errs length_map)
  moreover have "outbox (uwp_Connection p) s' = (if p \<in> failed then outbox (uwp_Connection p) s
      else outbox (uwp_Connection p) s @ [packet (NewMsgPackage m d)])" if "p \<in> set ps" for p
  proof -
    have "uwp_Connection p \<in> set ?is" using that by simp
    from store.send_all_delivers [OF assms(1) all dist refi this]
    have "outbox (uwp_Connection p) s' = (if uwp_Connection p \<in> set (map fst es) then outbox (uwp_Connection p) s
        else outbox (uwp_Connection p) s @ [packet (NewMsgPackage m d)])" unfolding s1 .
    moreover have "p \<in> failed \<longleftrightarrow> uwp_Connection p \<in> set (map fst es)"
      unfolding failed_def using that by blast
    ultimately show ?thesis by presburger
  qed
  moreover have "outbox i s' = outbox i s" if "\<forall>p \<in> set ps. ic_ref (uwp_Connection p) \<noteq> ic_ref i" for i
    using store.send_all_other [OF assms(1) all, of i] that s1 by auto
  moreover have "failed \<subseteq> set ps" by (auto simp: failed_def)
  ultimately show ?thesis by blast
qed

section \<open>Properties\<close>

text \<open>C36: in every reachable state the world and the grid agree: each player is filed under its own
  connection id and stands in the grid at its position, nobody else does, the index \<open>playerIDs\<close> holds the ids of the
  online players and no other, each with its connection, no two players share a player id, and removing a player that
  is online never fails.\<close>
theorem unity_world_consistent:
  assumes "reach world_init (world_step visit F) w"
  shows "(\<forall>k p. GetPlayer k (Some w) = Inr p \<longrightarrow>
        uwp_ConnID p = k \<and> GetPosition k (uw_aoi w) = Inr (unityAOIPosition (uwp_Position p))) \<and>
    (\<forall>k. isl (GetPlayer k (Some w)) \<longleftrightarrow> isl (GetPosition k (uw_aoi w))) \<and>
    (\<forall>pid k. uw_playerIDs w pid = Some k \<longleftrightarrow> (\<exists>p. GetPlayer k (Some w) = Inr p \<and> uwp_PID p = pid)) \<and>
    (\<forall>j k p q. GetPlayer j (Some w) = Inr p \<and> GetPlayer k (Some w) = Inr q \<and> uwp_PID p = uwp_PID q \<longrightarrow> j = k) \<and>
    (\<forall>k p r w'. GetPlayer k (Some w) = Inr p \<longrightarrow>
        RemovePlayerWithVisibility visit k (Some w) = Some (r, w') \<longrightarrow> (\<exists>nearby. r = Inr (p, nearby)))"
proof -
  have inv: "world_inv F w" using world.reach_inv [OF assms] .
  note D = world_invD [OF inv]
  have get: "GetPlayer k (Some w) = Inr p \<longleftrightarrow> uw_players w k = Some p" for k p
    by (simp add: GetPlayer_def split: option.split)
  have "uwp_ConnID p = k \<and> GetPosition k (uw_aoi w) = Inr (unityAOIPosition (uwp_Position p))"
    if p: "uw_players w k = Some p" for k p
  proof -
    obtain e where "am_entities (uw_aoi w) k = Some e" "ae_position e = unityAOIPosition (uwp_Position p)"
      using located_entity [OF D(4) p] .
    moreover have "uwp_ConnID p = k" using D(2) p by (simp add: players_ok_def)
    ultimately show ?thesis by (simp add: GetPosition_def)
  qed
  moreover have "isl (GetPlayer k (Some w)) \<longleftrightarrow> isl (GetPosition k (uw_aoi w))" for k
    using located_None [OF D(4), of k] by (auto simp: GetPlayer_def GetPosition_def split: option.splits)
  moreover have "uw_playerIDs w pid = Some k \<longleftrightarrow> (\<exists>p. uw_players w k = Some p \<and> uwp_PID p = pid)" for pid k
    using D(3) unfolding ids_ok_def index_of_def by blast
  moreover have "j = k" if "uw_players w j = Some p" "uw_players w k = Some q" "uwp_PID p = uwp_PID q" for j k p q
    using index_ofD [OF D(3) [unfolded ids_ok_def] that(1)] index_ofD [OF D(3) [unfolded ids_ok_def] that(2)] that(3)
    by simp
  moreover have "\<exists>nearby. r = Inr (p, nearby)"
    if "uw_players w k = Some p" "RemovePlayerWithVisibility visit k (Some w) = Some (r, w')" for k p r w'
    using that(2) D(4) by (cases rule: RemovePlayer_result) (use that(1) in auto)
  ultimately show ?thesis unfolding get by blast
qed

text \<open>C14: an update that is not refused changes the position and the action of this player and nothing of any other; it
  returns the player with its new state, the players in the cells around its new place by ascending player id, each
  once, and exactly those that came into sight or left it, with their current state; whoever is
  visible has the moved player in sight as well.\<close>
theorem unity_update_visibility:
  assumes "visits visit" "reach world_init (world_step visit F) w" "inner_grid F (uw_aoi w)"
    and "UpdatePlayerWithVisibility visit F k position action (Some w) = Some (Inr res, Some w')"
    and "NearbyPlayers visit k (Some w) = Some before"
  shows "(\<exists>p. GetPlayer k (Some w) = Inr p \<and>
       mr_Player res = p\<lparr>uwp_Position := position, uwp_ActionData := action\<rparr>) \<and>
    GetPlayer k (Some w') = Inr (mr_Player res) \<and> (\<forall>j. j \<noteq> k \<longrightarrow> GetPlayer j (Some w') = GetPlayer j (Some w)) \<and>
    NearbyPlayers visit k (Some w') = Some (mr_Visible res) \<and> uwp_ConnID ` set (mr_Visible res) = in_sight w' k \<and>
    (\<forall>q \<in> set (mr_Visible res) \<union> set (mr_Entered res) \<union> set (mr_Left res). GetPlayer (uwp_ConnID q) (Some w') = Inr q) \<and>
    sorted_wrt (\<lambda>p q. sint (uwp_PID p) < sint (uwp_PID q)) (mr_Visible res) \<and>
    uwp_ConnID ` set (mr_Entered res) = uwp_ConnID ` set (mr_Visible res) - uwp_ConnID ` set before \<and>
    uwp_ConnID ` set (mr_Left res) = uwp_ConnID ` set before - uwp_ConnID ` set (mr_Visible res) \<and>
    (\<forall>q \<in> set (mr_Visible res). \<exists>l. NearbyPlayers visit (uwp_ConnID q) (Some w') = Some l \<and> mr_Player res \<in> set l)"
  using assms(4)
proof (cases rule: UpdatePlayer_result)
  case (updated player aoi change visible w1)
  have w1: "w1 = w'" using updated by simp
  have inv: "world_inv F w" using world.reach_inv [OF assms(2)] .
  have inv': "world_inv F w'" using world_inv_update [OF inv assms(4)] .
  note D = world_invD [OF inv] and D' = world_invD [OF inv']
  from updated(2) obtain e c where e: "am_entities (uw_aoi w) k = Some e"
      and c: "cellFor F (unityAOIPosition position) (uw_aoi w) = Inr c"
      and aoi: "aoi = moved k e (unityAOIPosition position) c (uw_aoi w)"
    by (cases rule: MoveEntity_result) auto
  have aoi': "uw_aoi w' = aoi" using updated by auto
  have grid': "inner_grid F (uw_aoi w')" using assms(3) by (simp add: inner_grid_def aoi' aoi)
  have sight: "in_sight w k = neighbours (uw_aoi w) k (ae_cell e)" "in_sight w' k = neighbours (uw_aoi w) k c"
    using e by (simp_all add: in_sight_def aoi' aoi neighbours_moved)
  have change: "ac_Entered change = sorted_list_of_set (in_sight w' k - in_sight w k)"
      "ac_Left change = sorted_list_of_set (in_sight w k - in_sight w' k)"
    using updated(2) MoveEntity_change [OF assms(1) D(1) assms(3) e c] by (auto simp: sight)
  have vis: "roster w' (in_sight w' k) visible"
    using nearbyPlayers_roster [OF assms(1) inv' grid', of k] updated(4) w1 by auto
  have bef: "roster w (in_sight w k) before"
    using nearbyPlayers_roster [OF assms(1) inv assms(3), of k] assms(5) by (auto simp: NearbyPlayers_def)
  have dom: "dom (uw_players w') = dom (uw_players w)" using updated by auto
  have from_ids: "uwp_ConnID ` set (playersFromIDsLocked (sorted_list_of_set A) w') = A"
    if "A \<subseteq> dom (uw_players w')" for A
    using roster_ids [OF roster_sortByPID [OF D'(3)] D'(2), of "sorted_list_of_set A"] that
    by (simp add: playersFromIDsLocked_def)
  note ids = roster_ids [OF vis D'(2) in_sight_dom [OF D'(4)]] roster_ids [OF bef D(2) in_sight_dom [OF D(4)]]
  have sub: "in_sight w' k - in_sight w k \<subseteq> dom (uw_players w')"
    "in_sight w k - in_sight w' k \<subseteq> dom (uw_players w')"
    using in_sight_dom [OF D'(4), of k] in_sight_dom [OF D(4), of k] dom by blast+
  have "uwp_ConnID ` set (mr_Entered res) = in_sight w' k - in_sight w k"
    "uwp_ConnID ` set (mr_Left res) = in_sight w k - in_sight w' k"
    using updated(5) from_ids [OF sub(1)] from_ids [OF sub(2)] by (simp_all add: change w1)
  moreover have player: "uw_players w' k = Some (mr_Player res)" "mr_Visible res = visible"
    "GetPlayer k (Some w) = Inr player" "mr_Player res = player\<lparr>uwp_Position := position, uwp_ActionData := action\<rparr>"
    using updated by (auto simp: GetPlayer_def)
  moreover have "GetPlayer j (Some w') = GetPlayer j (Some w)" if "j \<noteq> k" for j
    using updated that by (auto simp: GetPlayer_def)
  moreover have "GetPlayer (uwp_ConnID q) (Some w') = Inr q"
    if "q \<in> set (mr_Visible res) \<union> set (mr_Entered res) \<union> set (mr_Left res)" for q
  proof -
    have "set (playersFromIDsLocked xs w') \<subseteq> ran (uw_players w')" for xs
      by (auto simp: playersFromIDsLocked_def sortByPID_def set_map_filter_Some ran_def)
    moreover have "set visible \<subseteq> ran (uw_players w')" using vis by (auto simp: roster_def ran_def)
    ultimately have "q \<in> ran (uw_players w')" using that updated(5) w1 by auto
    then show ?thesis using D'(2) by (auto simp: ran_def players_ok_def GetPlayer_def)
  qed
  moreover have "\<exists>l. NearbyPlayers visit (uwp_ConnID q) (Some w') = Some l \<and> mr_Player res \<in> set l"
    if "q \<in> set visible" for q
  proof -
    have "k \<in> in_sight w' (uwp_ConnID q)"
      using that ids(1) in_sight_sym [of _ w' k] by blast
    moreover obtain l where "nearbyPlayersLocked visit (uwp_ConnID q) w' = Some l"
        "roster w' (in_sight w' (uwp_ConnID q)) l"
      using nearbyPlayers_roster [OF assms(1) inv' grid'] .
    ultimately show ?thesis using player(1) by (auto simp: NearbyPlayers_def roster_def)
  qed
  moreover have "GetPlayer k (Some w') = Inr (mr_Player res)" using player(1) by (simp add: GetPlayer_def)
  moreover have "NearbyPlayers visit k (Some w') = Some visible" using updated(4) w1 by (simp add: NearbyPlayers_def)
  moreover have "sorted_wrt (\<lambda>p q. sint (uwp_PID p) < sint (uwp_PID q)) visible" using vis by (simp add: roster_def)
  ultimately show ?thesis using ids by simp
qed simp

text \<open>a message to the players in sight enters the queue of each of them exactly once, of the sender
  itself if asked for, and of nobody else; those whose queue refused it are as many as the errors
  returned, and get nothing.\<close>
theorem unity_broadcast_visible_exact:
  assumes "visits visit" "reach world_init (world_step visit F) w" "inner_grid F (uw_aoi w)"
    and "store_wf s" "conns_ok w s" "GetPlayer k (Some w) = Inr me"
    and "BroadcastVisible visit g k m d includeSelf (Some w) s = Some (errs, s')"
  shows "\<exists>near failed. NearbyPlayers visit k (Some w) = Some near \<and>
    failed \<subseteq> set near \<union> (if includeSelf then {me} else {}) \<and> card failed = length errs \<and>
    (\<forall>p. p \<in> set near \<or> includeSelf \<and> p = me \<longrightarrow> outbox (uwp_Connection p) s' =
       (if p \<in> failed then outbox (uwp_Connection p) s
        else outbox (uwp_Connection p) s @ [packet (NewMsgPackage m d)])) \<and>
    (\<forall>i. (\<forall>p. p \<in> set near \<or> includeSelf \<and> p = me \<longrightarrow> ic_ref (uwp_Connection p) \<noteq> ic_ref i) \<longrightarrow>
       outbox i s' = outbox i s)"
proof -
  have inv: "world_inv F w" using world.reach_inv [OF assms(2)] .
  note D = world_invD [OF inv]
  have me: "uw_players w k = Some me" using assms(6) by (auto simp: GetPlayer_def split: option.splits)
  obtain near where near: "nearbyPlayersLocked visit k w = Some near" "roster w (in_sight w k) near"
    using nearbyPlayers_roster [OF assms(1) inv assms(3)] .
  let ?ps = "if includeSelf then near @ [me] else near"
  have run: "sendPlayers g m d ?ps [] s = (errs, s')"
    using assms(7) near(1) me by (simp add: BroadcastVisible_def split: if_splits)
  have "me \<notin> set near"
  proof
    assume "me \<in> set near"
    then obtain j where j: "j \<in> in_sight w k" "uw_players w j = Some me"
      using near(2) unfolding roster_def by blast
    then have "j = k" using D(2) me unfolding players_ok_def by blast
    with j(1) show False by (auto simp: in_sight_def neighbours_def split: option.splits)
  qed
  moreover have "distinct near"
  proof -
    have "sorted_wrt (<) (map (\<lambda>p. sint (uwp_PID p)) near)"
      using near(2) by (simp add: roster_def sorted_wrt_map)
    then show ?thesis by (simp add: strict_sorted_iff distinct_map)
  qed
  ultimately have dist: "distinct ?ps" by simp
  have "set near \<subseteq> ran (uw_players w)" using near(2) by (auto simp: roster_def ran_def)
  then have sub: "set ?ps \<subseteq> ran (uw_players w)" using me by (auto simp: ranI)
  have set_ps: "set ?ps = set near \<union> (if includeSelf then {me} else {})" by auto
  have mem: "p \<in> set ?ps \<longleftrightarrow> p \<in> set near \<or> includeSelf \<and> p = me" for p by auto
  obtain failed where failed: "failed \<subseteq> set ?ps" "card failed = length errs"
    "\<And>p. p \<in> set ?ps \<Longrightarrow> outbox (uwp_Connection p) s' =
       (if p \<in> failed then outbox (uwp_Connection p) s
        else outbox (uwp_Connection p) s @ [packet (NewMsgPackage m d)])"
    "\<And>i. (\<And>p. p \<in> set ?ps \<Longrightarrow> ic_ref (uwp_Connection p) \<noteq> ic_ref i) \<Longrightarrow> outbox i s' = outbox i s"
    using sendPlayers_delivers [OF assms(4,5) D(2) dist sub run] by metis
  show ?thesis
  proof (intro exI conjI allI impI)
    show "NearbyPlayers visit k (Some w) = Some near" using near(1) by (simp add: NearbyPlayers_def)
    show "failed \<subseteq> set near \<union> (if includeSelf then {me} else {})" using failed(1) unfolding set_ps .
  qed (use failed(2-4) mem in blast)+
qed

section \<open>A concrete world\<close>

text \<open>The default world with two players, which start at the origin, and their connections.\<close>

definition demo_conn_store :: "nat conn_store" where
  "demo_conn_store = [0 \<mapsto> newConnection DefaultConfig (\<lambda>x. x) 0 demo_socket 7 None,
                      1 \<mapsto> newConnection DefaultConfig (\<lambda>x. x) 0 demo_socket 3 None]"

definition demo_iconn :: "nat \<Rightarrow> u32 \<Rightarrow> iconn" where
  "demo_iconn ref connID = \<lparr> ic_ref = ref, ic_connID = connID \<rparr>"

definition demo_player :: "int32 \<Rightarrow> iconn \<Rightarrow> UnityWorldPlayer" where
  "demo_player pid conn = \<lparr> uwp_PID = pid, uwp_ConnID = ic_connID conn, uwp_Position = zeroPosition,
     uwp_ActionData = 0, uwp_Connection = conn \<rparr>"

definition demo_join :: "int32 \<Rightarrow> iconn \<Rightarrow> UnityWorld \<Rightarrow> UnityWorld" where
  "demo_join pid conn w =
     w\<lparr>uw_aoi := snd (AddEntity demo_fpu (ic_connID conn) (unityAOIPosition zeroPosition) (uw_aoi w)),
       uw_players := (uw_players w)(ic_connID conn \<mapsto> demo_player pid conn),
       uw_playerIDs := (uw_playerIDs w)(pid \<mapsto> ic_connID conn)\<rparr>"

definition demo_world0 :: UnityWorld where
  "demo_world0 = \<lparr> uw_players = Map.empty, uw_playerIDs = Map.empty, uw_aoi = demo_grid \<rparr>"

definition demo_world :: UnityWorld where
  "demo_world = demo_join 1002 (demo_iconn 1 3) (demo_join 1001 (demo_iconn 0 7) demo_world0)"

lemma demo_world0_new: "NewUnityWorld = Inr demo_world0"
  by (simp add: NewUnityWorld_def NewUnityWorldWithAOI_def demo_new demo_world0_def)

lemma demo_origin: "unityAOIPosition zeroPosition = demo_pos 0"
  by (simp add: unityAOIPosition_def zeroPosition_def float32_value_def demo_pos_def)

lemma demo_origin_cell: "cellFor demo_fpu (demo_pos 0) demo_grid = Inr \<lparr> ce_X = 0, ce_Y = 0 \<rparr>"
  by (simp add: cellFor_def demo_grid_def demo_pos_def demo_fpu_def IsNaN_def IsInf_def toInt_def)

lemma demo_joined:
  assumes "reach world_init (world_step sorted_list_of_set demo_fpu) w" "inner_grid demo_fpu (uw_aoi w)"
    and "uw_players w (ic_connID conn) = None" "uw_playerIDs w pid = None"
    and "cellFor demo_fpu (demo_pos 0) (uw_aoi w) = Inr c"
  shows "reach world_init (world_step sorted_list_of_set demo_fpu) (demo_join pid conn w)"
    "inner_grid demo_fpu (uw_aoi (demo_join pid conn w))"
proof -
  obtain nearby where
    "AddPlayerWithPID sorted_list_of_set demo_fpu (Some conn) pid (Some w)
       = Some (Inr (demo_player pid conn, nearby), Some (demo_join pid conn w))"
    "inner_grid demo_fpu (uw_aoi (demo_join pid conn w))"
    using AddPlayerWithPID_succeeds [OF demo_visits world.reach_inv [OF assms(1)] assms(2-4), of c] assms(5)
    by (metis demo_join_def demo_origin demo_player_def)
  then show "reach world_init (world_step sorted_list_of_set demo_fpu) (demo_join pid conn w)"
    "inner_grid demo_fpu (uw_aoi (demo_join pid conn w))"
    using reach_step [OF assms(1) world_step.step_add] by blast+
qed

lemma demo_world_reach:
  "reach world_init (world_step sorted_list_of_set demo_fpu) demo_world" "inner_grid demo_fpu (uw_aoi demo_world)"
proof -
  have r0: "reach world_init (world_step sorted_list_of_set demo_fpu) demo_world0"
  proof (rule reach_init)
    have "NewUnityWorldWithAOI (Fin 1000) (Fin 1000) (Fin 10) (Fin 10) = Inr demo_world0"
      by (simp add: NewUnityWorldWithAOI_def demo_world0_def demo_new)
    then show "world_init demo_world0" unfolding world_init_def by blast
  qed
  have g0: "inner_grid demo_fpu (uw_aoi demo_world0)"
    using inner_grid_finite [OF demo_round_ok demo_finite_grid] by (simp add: demo_world0_def)
  let ?w1 = "demo_join 1001 (demo_iconn 0 7) demo_world0"
  have 1: "reach world_init (world_step sorted_list_of_set demo_fpu) ?w1" "inner_grid demo_fpu (uw_aoi ?w1)"
    using demo_joined [OF r0 g0, of "demo_iconn 0 7" 1001] demo_origin_cell
    by (simp_all add: demo_world0_def demo_iconn_def)
  have "cellFor demo_fpu (demo_pos 0) (uw_aoi ?w1) = Inr \<lparr> ce_X = 0, ce_Y = 0 \<rparr>"
    using demo_origin_cell by (simp add: demo_join_def demo_world0_def demo_origin AddEntity_def)
  from demo_joined [OF 1 _ _ this, of "demo_iconn 1 3" 1002]
  show "reach world_init (world_step sorted_list_of_set demo_fpu) demo_world" "inner_grid demo_fpu (uw_aoi demo_world)"
    by (simp_all add: demo_world_def demo_join_def demo_world0_def demo_iconn_def)
qed

lemma demo_world_players:
  "uw_players demo_world = [7 \<mapsto> demo_player 1001 (demo_iconn 0 7), 3 \<mapsto> demo_player 1002 (demo_iconn 1 3)]"
  by (simp add: demo_world_def demo_join_def demo_world0_def demo_iconn_def)

lemma demo_world_aoi:
  "am_entities (uw_aoi demo_world) =
     [7 \<mapsto> \<lparr> ae_id = 7, ae_position = demo_pos 0, ae_cell = \<lparr> ce_X = 0, ce_Y = 0 \<rparr> \<rparr>,
      3 \<mapsto> \<lparr> ae_id = 3, ae_position = demo_pos 0, ae_cell = \<lparr> ce_X = 0, ce_Y = 0 \<rparr> \<rparr>]"
  "cellFor demo_fpu p (uw_aoi demo_world) = cellFor demo_fpu p demo_grid"
proof -
  have "am_entities demo_grid = Map.empty" by (simp add: demo_grid_def)
  then show "am_entities (uw_aoi demo_world) =
     [7 \<mapsto> \<lparr> ae_id = 7, ae_position = demo_pos 0, ae_cell = \<lparr> ce_X = 0, ce_Y = 0 \<rparr> \<rparr>,
      3 \<mapsto> \<lparr> ae_id = 3, ae_position = demo_pos 0, ae_cell = \<lparr> ce_X = 0, ce_Y = 0 \<rparr> \<rparr>]"
    "cellFor demo_fpu p (uw_aoi demo_world) = cellFor demo_fpu p demo_grid"
    by (simp_all add: demo_world_def demo_join_def demo_world0_def demo_iconn_def demo_origin demo_add demo_origin_cell)
qed

text \<open>15.0 as a \<open>float32\<close>.\<close>

definition demo_goal :: UnityPosition where
  "demo_goal = \<lparr> up_X = 0x41700000, up_Y = 0, up_Z = 0x41700000, up_V = 0 \<rparr>"

lemma demo_goal_position: "unityAOIPosition demo_goal = demo_pos 15"
  by (simp add: unityAOIPosition_def demo_goal_def demo_pos_def float32_value_def)

theorem unity_world_consistent_witness:
  "GetPosition 7 (uw_aoi demo_world) = Inr (unityAOIPosition zeroPosition) \<and> isl (GetPosition 9 (uw_aoi demo_world)) \<and>
   uw_playerIDs demo_world 1001 = Some 7"
proof -
  have "GetPlayer 7 (Some demo_world) = Inr (demo_player 1001 (demo_iconn 0 7))" "isl (GetPlayer 9 (Some demo_world))"
    by (simp_all add: GetPlayer_def demo_world_players)
  moreover have "uwp_PID (demo_player 1001 (demo_iconn 0 7)) = 1001" by (simp add: demo_player_def)
  moreover have "uwp_Position (demo_player 1001 (demo_iconn 0 7)) = zeroPosition" by (simp add: demo_player_def)
  moreover note unity_world_consistent [OF demo_world_reach(1)]
  ultimately show ?thesis by metis
qed

theorem unity_update_visibility_witness:
  "\<exists>res w'. UpdatePlayerWithVisibility sorted_list_of_set demo_fpu 7 demo_goal 4 (Some demo_world) = Some (Inr res, Some w') \<and>
     GetPlayer 7 (Some w') = Inr (mr_Player res) \<and> uwp_Position (mr_Player res) = demo_goal \<and>
     NearbyPlayers sorted_list_of_set 7 (Some w') = Some (mr_Visible res)"
proof -
  note inv = world.reach_inv [OF demo_world_reach(1)]
  have player: "uw_players demo_world 7 = Some (demo_player 1001 (demo_iconn 0 7))" by (simp add: demo_world_players)
  have "cellFor demo_fpu (unityAOIPosition demo_goal) (uw_aoi demo_world) = Inr \<lparr> ce_X = 1, ce_Y = 1 \<rparr>"
    by (simp add: demo_goal_position demo_world_aoi demo_cells)
  then obtain res w' where upd:
    "UpdatePlayerWithVisibility sorted_list_of_set demo_fpu 7 demo_goal 4 (Some demo_world) = Some (Inr res, Some w')"
    using UpdatePlayer_succeeds [OF demo_visits inv demo_world_reach(2) player] by blast
  obtain before where "nearbyPlayersLocked sorted_list_of_set 7 demo_world = Some before"
    using nearbyPlayers_roster [OF demo_visits inv demo_world_reach(2)] .
  then have "NearbyPlayers sorted_list_of_set 7 (Some demo_world) = Some before" by (simp add: NearbyPlayers_def)
  note all = unity_update_visibility [OF demo_visits demo_world_reach upd this]
  have "uwp_Position (mr_Player res) = demo_goal" using conjunct1 [OF all] by auto
  moreover have "GetPlayer 7 (Some w') = Inr (mr_Player res)" by (rule conjunct1 [OF conjunct2 [OF all]])
  moreover have "NearbyPlayers sorted_list_of_set 7 (Some w') = Some (mr_Visible res)"
    by (rule conjunct1 [OF conjunct2 [OF conjunct2 [OF conjunct2 [OF all]]]])
  ultimately show ?thesis using upd by (intro exI [of _ res] exI [of _ w'] conjI)
qed

theorem unity_broadcast_visible_exact_witness:
  "\<exists>errs s' near failed.
     BroadcastVisible sorted_list_of_set DefaultConfig 7 200 [65] True (Some demo_world) demo_conn_store = Some (errs, s') \<and>
     NearbyPlayers sorted_list_of_set 7 (Some demo_world) = Some near \<and>
     failed \<subseteq> set near \<union> {demo_player 1001 (demo_iconn 0 7)} \<and> card failed = length errs"
proof -
  note inv = world.reach_inv [OF demo_world_reach(1)]
  have wf: "store_wf demo_conn_store"
    by (auto simp: store_wf_def demo_conn_store_def ran_def newConnection_def Let_def)
  have conns: "conns_ok demo_world demo_conn_store"
    by (auto simp: conns_ok_def demo_world_players demo_player_def demo_iconn_def demo_conn_store_def
        newConnection_def Let_def)
  have me: "GetPlayer 7 (Some demo_world) = Inr (demo_player 1001 (demo_iconn 0 7))"
    by (simp add: GetPlayer_def demo_world_players)
  obtain near where "nearbyPlayersLocked sorted_list_of_set 7 demo_world = Some near"
    using nearbyPlayers_roster [OF demo_visits inv demo_world_reach(2)] .
  then obtain errs s' where run:
    "BroadcastVisible sorted_list_of_set DefaultConfig 7 200 [65] True (Some demo_world) demo_conn_store = Some (errs, s')"
    by (fastforce simp: BroadcastVisible_def)
  obtain near failed where "NearbyPlayers sorted_list_of_set 7 (Some demo_world) = Some near"
      "failed \<subseteq> set near \<union> (if True then {demo_player 1001 (demo_iconn 0 7)} else {})" "card failed = length errs"
    using unity_broadcast_visible_exact [OF demo_visits demo_world_reach wf conns me run] by metis
  with run show ?thesis by auto
qed

end
