(* ===== verification/Persist.thy ===== *)
theory Persist
  imports Prelude
begin

text \<open>
  The player stores of package \<open>persist\<close>: the memory store and the JSON file store. The file system
  is a map from paths to contents; each of its calls may fail, and the outcomes of the calls of one
  operation are the argument \<open>io\<close>. The JSON encoding of the player table is the argument \<open>json\<close>.
  The locale \<open>player_store\<close> is the contract of the interface \<open>PlayerStore\<close>; the stores are
  interpretations of it.
\<close>

section \<open>Players and contexts\<close>

record Player =
  pl_PlayerID :: u64
  pl_AccountID :: string
  pl_Data :: bytes
  pl_UpdatedAt :: gotime

definition ErrPlayerNotFound :: go_error where
  "ErrPlayerNotFound = Err ''player not found''"

text \<open>A context is the error it ended with, if it has ended; the nil context is \<open>None\<close>.\<close>

type_synonym ctx = "go_error option option"

definition contextError :: "ctx \<Rightarrow> go_error option" where
  "contextError ctx = (case ctx of None \<Rightarrow> None | Some done \<Rightarrow> done)"

text \<open>Records are values, so a copy is the record itself; a nil slice and an empty one are both \<open>[]\<close>.\<close>

definition playerCopy :: "Player option \<Rightarrow> Player option" where
  "playerCopy player =
     (case player of None \<Rightarrow> None | Some p \<Rightarrow> Some (p\<lparr>pl_Data := [] @ pl_Data p\<rparr>))"

text \<open>A table read from a file may map an id to nil.\<close>

type_synonym players = "u64 \<rightharpoonup> Player option"

section \<open>The memory store\<close>

record MemoryStore =
  ms_players :: players

definition NewMemoryStore :: MemoryStore where
  "NewMemoryStore = \<lparr> ms_players = Map.empty \<rparr>"

definition MemoryLoad :: "ctx \<Rightarrow> u64 \<Rightarrow> MemoryStore \<Rightarrow> Player option res" where
  "MemoryLoad ctx playerID s =
     (case contextError ctx of
        Some err \<Rightarrow> Inl err
      | None \<Rightarrow>
          (case ms_players s playerID of
             None \<Rightarrow> Inl ErrPlayerNotFound
           | Some player \<Rightarrow> Inr (playerCopy player)))"

definition MemorySave :: "ctx \<Rightarrow> Player option \<Rightarrow> MemoryStore \<Rightarrow> go_error option \<times> MemoryStore" where
  "MemorySave ctx player s =
     (case contextError ctx of
        Some err \<Rightarrow> (Some err, s)
      | None \<Rightarrow>
          (case player of
             None \<Rightarrow> (Some (Err ''player is invalid''), s)
           | Some p \<Rightarrow>
               if pl_PlayerID p = 0 then (Some (Err ''player is invalid''), s)
               else (None, s\<lparr>ms_players := (ms_players s)(pl_PlayerID p \<mapsto> playerCopy player)\<rparr>)))"

definition MemoryDelete :: "ctx \<Rightarrow> u64 \<Rightarrow> MemoryStore \<Rightarrow> go_error option \<times> MemoryStore" where
  "MemoryDelete ctx playerID s =
     (case contextError ctx of
        Some err \<Rightarrow> (Some err, s)
      | None \<Rightarrow>
          if ms_players s playerID = None then (Some ErrPlayerNotFound, s)
          else (None, s\<lparr>ms_players := (ms_players s)(playerID := None)\<rparr>))"

section \<open>The JSON file store\<close>

type_synonym files = "string \<rightharpoonup> bytes"

text \<open>
  The outcome of each call on the operating system, in the order the code makes them: \<open>None\<close> is
  success. The name of the temporary file is chosen by the system.
\<close>

record io =
  io_read :: "go_error option"
  io_mkdir :: "go_error option"
  io_create :: "go_error + string"
  io_write :: "go_error option"
  io_written :: nat
  io_close :: "go_error option"
  io_remove :: "go_error option"
  io_rename :: "go_error option"
  io_cleanup :: "go_error option"

record json =
  js_marshal :: "players \<Rightarrow> bytes res"
  js_unmarshal :: "bytes \<Rightarrow> players res"

record JSONFileStore =
  js_path :: string

definition NewJSONFileStore :: "(string \<Rightarrow> string) \<Rightarrow> string \<Rightarrow> JSONFileStore res" where
  "NewJSONFileStore clean path =
     (if path = [] then Inl (Err ''player store path is empty'') else Inr \<lparr> js_path = clean path \<rparr>)"

text \<open>\<open>os.ReadFile\<close> of a file that does not exist is the error \<open>os.ErrNotExist\<close>.\<close>

definition readLocked :: "json \<Rightarrow> io \<Rightarrow> JSONFileStore \<Rightarrow> files \<Rightarrow> players res" where
  "readLocked J io s fs =
     (case io_read io of
        Some err \<Rightarrow> Inl err
      | None \<Rightarrow>
          (case fs (js_path s) of
             None \<Rightarrow> Inr Map.empty
           | Some data \<Rightarrow> if data = [] then Inr Map.empty else js_unmarshal J data))"

text \<open>The deferred \<open>os.Remove\<close> of the temporary file.\<close>

definition cleanup :: "io \<Rightarrow> string \<Rightarrow> files \<Rightarrow> files" where
  "cleanup io temporaryName fs = (if io_cleanup io = None then fs(temporaryName := None) else fs)"

definition writeLocked :: "json \<Rightarrow> io \<Rightarrow> players \<Rightarrow> JSONFileStore \<Rightarrow> files \<Rightarrow> go_error option \<times> files" where
  "writeLocked J io players s fs =
     (case js_marshal J players of
        Inl err \<Rightarrow> (Some err, fs)
      | Inr data \<Rightarrow>
          (case io_mkdir io of
             Some err \<Rightarrow> (Some err, fs)
           | None \<Rightarrow>
               (case io_create io of
                  Inl err \<Rightarrow> (Some err, fs)
                | Inr temporaryName \<Rightarrow>
                    (case io_write io of
                       Some err \<Rightarrow>
                         (Some err, cleanup io temporaryName (fs(temporaryName \<mapsto> take (io_written io) data)))
                     | None \<Rightarrow>
                         (let fs1 = fs(temporaryName \<mapsto> data)
                          in case io_close io of
                               Some err \<Rightarrow> (Some err, cleanup io temporaryName fs1)
                             | None \<Rightarrow>
                                 if fs1 (js_path s) \<noteq> None \<and> io_remove io \<noteq> None
                                 then (io_remove io, cleanup io temporaryName fs1)
                                 else
                                   (let fs2 = fs1(js_path s := None)
                                    in case io_rename io of
                                         Some err \<Rightarrow> (Some err, cleanup io temporaryName fs2)
                                       | None \<Rightarrow>
                                           (None, cleanup io temporaryName
                                              (fs2(js_path s := fs2 temporaryName, temporaryName := None)))))))))"

definition JSONLoad :: "json \<Rightarrow> io \<Rightarrow> ctx \<Rightarrow> u64 \<Rightarrow> JSONFileStore \<Rightarrow> files \<Rightarrow> Player option res" where
  "JSONLoad J io ctx playerID s fs =
     (case contextError ctx of
        Some err \<Rightarrow> Inl err
      | None \<Rightarrow>
          (case readLocked J io s fs of
             Inl err \<Rightarrow> Inl err
           | Inr players \<Rightarrow>
               (case players playerID of
                  None \<Rightarrow> Inl ErrPlayerNotFound
                | Some player \<Rightarrow> Inr (playerCopy player))))"

definition JSONSave ::
  "json \<Rightarrow> io \<Rightarrow> ctx \<Rightarrow> Player option \<Rightarrow> JSONFileStore \<Rightarrow> files \<Rightarrow> go_error option \<times> files" where
  "JSONSave J io ctx player s fs =
     (case contextError ctx of
        Some err \<Rightarrow> (Some err, fs)
      | None \<Rightarrow>
          (case player of
             None \<Rightarrow> (Some (Err ''player is invalid''), fs)
           | Some p \<Rightarrow>
               if pl_PlayerID p = 0 then (Some (Err ''player is invalid''), fs)
               else (case readLocked J io s fs of
                       Inl err \<Rightarrow> (Some err, fs)
                     | Inr players \<Rightarrow>
                         writeLocked J io (players(pl_PlayerID p \<mapsto> playerCopy player)) s fs)))"

definition JSONDelete :: "json \<Rightarrow> io \<Rightarrow> ctx \<Rightarrow> u64 \<Rightarrow> JSONFileStore \<Rightarrow> files \<Rightarrow> go_error option \<times> files" where
  "JSONDelete J io ctx playerID s fs =
     (case contextError ctx of
        Some err \<Rightarrow> (Some err, fs)
      | None \<Rightarrow>
          (case readLocked J io s fs of
             Inl err \<Rightarrow> (Some err, fs)
           | Inr players \<Rightarrow>
               if players playerID = None then (Some ErrPlayerNotFound, fs)
               else writeLocked J io (players(playerID := None)) s fs))"

section \<open>The contract of a player store\<close>

datatype store_op = OpSave "Player option" | OpDelete u64

text \<open>The abstract store is the table; an operation that succeeds changes one entry.\<close>

fun table_op :: "store_op \<Rightarrow> players \<Rightarrow> players" where
  "table_op (OpSave (Some p)) m = m(pl_PlayerID p \<mapsto> Some p)"
| "table_op (OpSave None) m = m"
| "table_op (OpDelete i) m = m(i := None)"

text \<open>
  \<open>stored\<close> is what a save keeps of a player, \<open>valid\<close> are the players the store can represent, \<open>env\<close> the outcomes of the environment that are
  possible in a state, \<open>healthy\<close> those where reading works, and \<open>safe\<close> those after which a failed
  operation has left the table alone.
\<close>

locale player_store =
  fixes load :: "'e \<Rightarrow> ctx \<Rightarrow> u64 \<Rightarrow> 's \<Rightarrow> Player option res"
    and save :: "'e \<Rightarrow> ctx \<Rightarrow> Player option \<Rightarrow> 's \<Rightarrow> go_error option \<times> 's"
    and delete :: "'e \<Rightarrow> ctx \<Rightarrow> u64 \<Rightarrow> 's \<Rightarrow> go_error option \<times> 's"
    and contents :: "'s \<Rightarrow> players"
    and wf :: "'s \<Rightarrow> bool"
    and stored :: "'e \<Rightarrow> Player \<Rightarrow> Player"
    and valid :: "Player \<Rightarrow> bool"
    and env :: "'e \<Rightarrow> 's \<Rightarrow> bool"
    and healthy :: "'e \<Rightarrow> bool"
    and safe :: "'e \<Rightarrow> bool"
  assumes load_contents: "wf s \<Longrightarrow> healthy e \<Longrightarrow> contextError c = None \<Longrightarrow>
      load e c i s = (case contents s i of None \<Rightarrow> Inl ErrPlayerNotFound | Some p \<Rightarrow> Inr p)"
    and save_nil: "fst (save e c None s) \<noteq> None"
    and save_ok: "wf s \<Longrightarrow> env e s \<Longrightarrow> valid p \<Longrightarrow> save e c (Some p) s = (None, s') \<Longrightarrow>
      wf s' \<and> contents s' = (contents s)(pl_PlayerID p \<mapsto> Some (stored e p)) \<and> pl_PlayerID p \<noteq> 0"
    and stored_id: "pl_PlayerID (stored e p) = pl_PlayerID p"
    and save_fail: "wf s \<Longrightarrow> env e s \<Longrightarrow> safe e \<Longrightarrow> save e c q s = (Some err, s') \<Longrightarrow>
      wf s' \<and> contents s' = contents s"
    and delete_ok: "wf s \<Longrightarrow> env e s \<Longrightarrow> delete e c i s = (None, s') \<Longrightarrow>
      wf s' \<and> contents s' = (contents s)(i := None) \<and> contents s i \<noteq> None"
    and delete_fail: "wf s \<Longrightarrow> env e s \<Longrightarrow> safe e \<Longrightarrow> delete e c i s = (Some err, s') \<Longrightarrow>
      wf s' \<and> contents s' = contents s"
begin

lemma load_after_save:
  assumes "wf s" "env e s" "valid p" "save e c (Some p) s = (None, s')" "healthy e'" "contextError c' = None"
  shows "load e' c' (pl_PlayerID p) s' = Inr (Some (stored e p))"
    "i \<noteq> pl_PlayerID p \<Longrightarrow> healthy e \<Longrightarrow> contextError c = None \<Longrightarrow> load e' c' i s' = load e c i s"
  using save_ok [OF assms(1-4)] assms by (simp_all add: load_contents)

lemma load_after_delete:
  assumes "wf s" "env e s" "delete e c i s = (None, s')" "healthy e'" "contextError c' = None"
  shows "load e' c' i s' = Inl ErrPlayerNotFound"
  using delete_ok [OF assms(1-3)] assms by (simp add: load_contents)

text \<open>
  A sequence of operations, each with its outcomes of the environment; the list of those that succeed,
  with what they stored.
\<close>

fun perform :: "'e \<Rightarrow> ctx \<Rightarrow> store_op \<Rightarrow> 's \<Rightarrow> go_error option \<times> 's" where
  "perform e c (OpSave q) s = save e c q s"
| "perform e c (OpDelete i) s = delete e c i s"

fun recorded :: "'e \<Rightarrow> store_op \<Rightarrow> store_op" where
  "recorded e (OpSave q) = OpSave (map_option (stored e) q)"
| "recorded e (OpDelete i) = OpDelete i"

inductive run :: "'s \<Rightarrow> store_op list \<Rightarrow> 's \<Rightarrow> bool" where
  run_nil: "run s [] s"
| run_ok: "run s done_ops s1 \<Longrightarrow> env e s1 \<Longrightarrow> (\<And>p. op = OpSave (Some p) \<Longrightarrow> valid p) \<Longrightarrow>
    perform e c op s1 = (None, s2) \<Longrightarrow> run s (done_ops @ [recorded e op]) s2"
| run_fail: "run s done_ops s1 \<Longrightarrow> env e s1 \<Longrightarrow> safe e \<Longrightarrow> perform e c op s1 = (Some err, s2) \<Longrightarrow> run s done_ops s2"

lemma perform_ok:
  assumes "wf s" "env e s" "\<And>p. op = OpSave (Some p) \<Longrightarrow> valid p" "perform e c op s = (None, s')"
  shows "wf s' \<and> contents s' = table_op (recorded e op) (contents s)"
proof (cases op)
  case (OpSave q)
  then obtain p where "q = Some p" using assms(4) save_nil [of e c s] by (cases q) auto
  with OpSave save_ok [OF assms(1,2)] assms(3,4) show ?thesis by (simp add: stored_id)
next
  case (OpDelete i)
  with delete_ok [OF assms(1,2)] assms(4) show ?thesis by simp
qed

lemma perform_fail:
  assumes "wf s" "env e s" "safe e" "perform e c op s = (Some err, s')"
  shows "wf s' \<and> contents s' = contents s"
proof (cases op)
  case (OpSave q)
  with save_fail [OF assms(1-3)] assms(4) show ?thesis by simp
next
  case (OpDelete i)
  with delete_fail [OF assms(1-3)] assms(4) show ?thesis by simp
qed

lemma run_replays: "run s done_ops s' \<Longrightarrow> wf s \<Longrightarrow> wf s' \<and> contents s' = fold table_op done_ops (contents s)"
proof (induction rule: run.induct)
  case (run_ok s done_ops s1 e op c s2)
  then show ?case using perform_ok [of s1 e op c s2] by simp
next
  case (run_fail s done_ops s1 e c op err s2)
  then show ?case using perform_fail [of s1 e c op err s2] by simp
qed simp

end

section \<open>The memory store keeps the contract\<close>

lemma playerCopy_id [simp]: "playerCopy q = q"
  by (cases q) (simp_all add: playerCopy_def)

interpretation memory: player_store "\<lambda>_ :: unit. MemoryLoad" "\<lambda>_. MemorySave" "\<lambda>_. MemoryDelete" ms_players
    "\<lambda>s. True" "\<lambda>e p. p" "\<lambda>p. True" "\<lambda>e s. True" "\<lambda>e. True" "\<lambda>e. True"
proof
  show "pl_PlayerID p = pl_PlayerID p" for p :: Player ..
  fix c :: ctx and q :: "Player option" and p :: Player and s s' :: MemoryStore and i :: u64
    and r :: "go_error option" and err :: go_error
  show "contextError c = None \<Longrightarrow>
      MemoryLoad c i s = (case ms_players s i of None \<Rightarrow> Inl ErrPlayerNotFound | Some p \<Rightarrow> Inr p)"
    by (cases "ms_players s i") (simp_all add: MemoryLoad_def)
  show "fst (MemorySave c None s) \<noteq> None"
    by (cases "contextError c") (auto simp: MemorySave_def)
  show "MemorySave c (Some p) s = (None, s') \<Longrightarrow>
      True \<and> ms_players s' = (ms_players s)(pl_PlayerID p \<mapsto> Some p) \<and> pl_PlayerID p \<noteq> 0"
    by (cases "contextError c") (auto simp: MemorySave_def split: if_splits)
  show "MemorySave c q s = (Some err, s') \<Longrightarrow> True \<and> ms_players s' = ms_players s"
    by (cases "contextError c"; cases q) (auto simp: MemorySave_def split: if_splits)
  show "MemoryDelete c i s = (None, s') \<Longrightarrow>
      True \<and> ms_players s' = (ms_players s)(i := None) \<and> ms_players s i \<noteq> None"
    by (cases "contextError c") (auto simp: MemoryDelete_def split: if_splits)
  show "MemoryDelete c i s = (Some err, s') \<Longrightarrow> True \<and> ms_players s' = ms_players s"
    by (cases "contextError c") (auto simp: MemoryDelete_def split: if_splits)
qed

section \<open>The file store keeps the contract\<close>

text \<open>
  The JSON encoder escapes what is not valid UTF-8, so only account ids made of ASCII characters are
  promised to come back; the encoding of a table is not empty.
\<close>

definition ascii_player :: "Player \<Rightarrow> bool" where
  "ascii_player p \<longleftrightarrow> (\<forall>ch \<in> set (pl_AccountID p). of_char ch < (128 :: nat))"

definition ascii_table :: "players \<Rightarrow> bool" where
  "ascii_table m \<longleftrightarrow> (\<forall>i p. m i = Some (Some p) \<longrightarrow> ascii_player p)"

definition json_ok :: "json \<Rightarrow> bool" where
  "json_ok J \<longleftrightarrow>
     (\<forall>m d. ascii_table m \<longrightarrow> js_marshal J m = Inr d \<longrightarrow> d \<noteq> [] \<and> js_unmarshal J d = Inr m)"

text \<open>The table in the file, if it can be read.\<close>

definition file_table :: "json \<Rightarrow> JSONFileStore \<Rightarrow> files \<Rightarrow> players res" where
  "file_table J s fs =
     (case fs (js_path s) of
        None \<Rightarrow> Inr Map.empty
      | Some data \<Rightarrow> if data = [] then Inr Map.empty else js_unmarshal J data)"

definition json_contents :: "json \<Rightarrow> JSONFileStore \<Rightarrow> files \<Rightarrow> players" where
  "json_contents J s fs = (case file_table J s fs of Inl err \<Rightarrow> Map.empty | Inr m \<Rightarrow> m)"

definition json_wf :: "json \<Rightarrow> JSONFileStore \<Rightarrow> files \<Rightarrow> bool" where
  "json_wf J s fs \<longleftrightarrow> json_ok J \<and> (\<exists>m. file_table J s fs = Inr m \<and> ascii_table m)"

text \<open>\<open>os.CreateTemp\<close> creates a file that did not exist.\<close>

definition json_env :: "JSONFileStore \<Rightarrow> io \<Rightarrow> files \<Rightarrow> bool" where
  "json_env s io fs \<longleftrightarrow> (\<forall>t. io_create io = Inr t \<longrightarrow> t \<noteq> js_path s \<and> fs t = None)"

lemma readLocked_file: "readLocked J io s fs = (case io_read io of Some err \<Rightarrow> Inl err | None \<Rightarrow> file_table J s fs)"
  by (cases "io_read io") (simp_all add: readLocked_def file_table_def)

text \<open>A write that succeeds puts the encoded table into the file and leaves no temporary file behind.\<close>

lemma writeLocked_ok:
  assumes "writeLocked J io m s fs = (None, fs')" "json_env s io fs"
  obtains data where "js_marshal J m = Inr data" "fs' (js_path s) = Some data"
proof -
  from assms obtain data t where d: "js_marshal J m = Inr data" "io_create io = Inr t"
    by (auto simp: writeLocked_def split: sum.splits option.splits)
  with assms have "t \<noteq> js_path s" by (simp add: json_env_def)
  with assms(1) d have "fs' (js_path s) = Some data"
    by (auto simp: writeLocked_def Let_def cleanup_def split: option.splits if_splits)
  with d that show ?thesis by blast
qed

text \<open>A write that fails before the old file was removed leaves it alone.\<close>

lemma writeLocked_fail:
  assumes "writeLocked J io m s fs = (Some err, fs')" "json_env s io fs" "io_rename io = None"
  shows "fs' (js_path s) = fs (js_path s)"
  using assms
  by (auto simp: writeLocked_def Let_def cleanup_def json_env_def split: sum.splits option.splits if_splits)

lemma json_wf_write:
  assumes "json_ok J" "ascii_table m" "writeLocked J io m s fs = (None, fs')" "json_env s io fs"
  shows "json_wf J s fs' \<and> json_contents J s fs' = m"
proof -
  obtain data where "js_marshal J m = Inr data" "fs' (js_path s) = Some data"
    using writeLocked_ok [OF assms(3,4)] .
  with assms(1,2) have "file_table J s fs' = Inr m" by (simp add: file_table_def json_ok_def)
  with assms(1,2) show ?thesis by (simp add: json_wf_def json_contents_def)
qed

lemma json_wf_same:
  "fs' (js_path s) = fs (js_path s) \<Longrightarrow> json_wf J s fs \<Longrightarrow> json_wf J s fs' \<and> json_contents J s fs' = json_contents J s fs"
  by (simp add: json_wf_def json_contents_def file_table_def)

lemma json_wf_table: "json_wf J s fs \<Longrightarrow> file_table J s fs = Inr (json_contents J s fs) \<and> ascii_table (json_contents J s fs) \<and> json_ok J"
  by (auto simp: json_wf_def json_contents_def)

lemma json_save_writes:
  assumes "JSONSave J io c q s fs = (r, fs')" "json_wf J s fs"
  obtains (refused) err where "r = Some err" "fs' = fs"
  | (written) p where "q = Some p" "pl_PlayerID p \<noteq> 0"
      "writeLocked J io ((json_contents J s fs)(pl_PlayerID p \<mapsto> Some p)) s fs = (r, fs')"
proof (cases "contextError c = None \<and> io_read io = None \<and> (\<exists>p. q = Some p \<and> pl_PlayerID p \<noteq> 0)")
  case True
  then obtain p where "contextError c = None" "io_read io = None" "q = Some p" "pl_PlayerID p \<noteq> 0" by blast
  with assms json_wf_table [OF assms(2)] show ?thesis
    by (intro written [of p]) (simp_all add: JSONSave_def readLocked_file)
next
  case False
  then have "\<exists>err. JSONSave J io c q s fs = (Some err, fs)"
    by (cases "contextError c"; cases q; cases "io_read io") (auto simp: JSONSave_def readLocked_file)
  with assms(1) refused show ?thesis by auto
qed

lemma json_delete_writes:
  assumes "JSONDelete J io c i s fs = (r, fs')" "json_wf J s fs"
  obtains (refused) err where "r = Some err" "fs' = fs"
  | (written) "json_contents J s fs i \<noteq> None" "writeLocked J io ((json_contents J s fs)(i := None)) s fs = (r, fs')"
proof (cases "contextError c = None \<and> io_read io = None \<and> json_contents J s fs i \<noteq> None")
  case True
  with assms json_wf_table [OF assms(2)] show ?thesis
    by (intro written) (auto simp: JSONDelete_def readLocked_file)
next
  case False
  then have "\<exists>err. JSONDelete J io c i s fs = (Some err, fs)"
    using json_wf_table [OF assms(2)]
    by (cases "contextError c"; cases "io_read io") (auto simp: JSONDelete_def readLocked_file)
  with assms(1) refused show ?thesis by auto
qed

interpretation jsonfile: player_store "\<lambda>io c i fs. JSONLoad J io c i s fs" "\<lambda>io c q fs. JSONSave J io c q s fs"
    "\<lambda>io c i fs. JSONDelete J io c i s fs" "json_contents J s" "json_wf J s" "\<lambda>io p. p" ascii_player "json_env s"
    "\<lambda>io. io_read io = None" "\<lambda>io. io_rename io = None" for J s
proof
  show "pl_PlayerID p = pl_PlayerID p" for p :: Player ..
  fix c :: ctx and q :: "Player option" and p :: Player and fs fs' :: files and i :: u64
    and io :: io and r :: "go_error option" and err :: go_error
  show "json_wf J s fs \<Longrightarrow> io_read io = None \<Longrightarrow> contextError c = None \<Longrightarrow>
      JSONLoad J io c i s fs = (case json_contents J s fs i of None \<Rightarrow> Inl ErrPlayerNotFound | Some p \<Rightarrow> Inr p)"
    using json_wf_table [of J s fs]
    by (cases "json_contents J s fs i") (simp_all add: JSONLoad_def readLocked_file)
  show "fst (JSONSave J io c None s fs) \<noteq> None"
    by (cases "contextError c") (auto simp: JSONSave_def)
  show "json_wf J s fs' \<and> json_contents J s fs' = (json_contents J s fs)(pl_PlayerID p \<mapsto> Some p) \<and> pl_PlayerID p \<noteq> 0"
    if "json_wf J s fs" "json_env s io fs" "ascii_player p" "JSONSave J io c (Some p) s fs = (None, fs')"
    using that(4,1)
  proof (cases rule: json_save_writes)
    case (written p')
    then have "ascii_table ((json_contents J s fs)(pl_PlayerID p \<mapsto> Some p))"
      using json_wf_table [OF that(1)] that(3) by (auto simp: ascii_table_def)
    with written that(2) json_wf_table [OF that(1)] json_wf_write show ?thesis by blast
  qed simp
  show "json_wf J s fs' \<and> json_contents J s fs' = json_contents J s fs"
    if "json_wf J s fs" "json_env s io fs" "io_rename io = None" "JSONSave J io c q s fs = (Some err, fs')"
    using that(4,1)
  proof (cases rule: json_save_writes)
    case (written p)
    from writeLocked_fail [OF written(3) that(2,3)] that(1) show ?thesis by (rule json_wf_same)
  qed (use that(1) in simp)
  show "json_wf J s fs' \<and> json_contents J s fs' = (json_contents J s fs)(i := None) \<and> json_contents J s fs i \<noteq> None"
    if "json_wf J s fs" "json_env s io fs" "JSONDelete J io c i s fs = (None, fs')"
    using that(3,1)
  proof (cases rule: json_delete_writes)
    case written
    then have "ascii_table ((json_contents J s fs)(i := None))"
      using json_wf_table [OF that(1)] by (auto simp: ascii_table_def)
    with written that(2) json_wf_table [OF that(1)] json_wf_write show ?thesis by blast
  qed simp
  show "json_wf J s fs' \<and> json_contents J s fs' = json_contents J s fs"
    if "json_wf J s fs" "json_env s io fs" "io_rename io = None" "JSONDelete J io c i s fs = (Some err, fs')"
    using that(4,1)
  proof (cases rule: json_delete_writes)
    case written
    from writeLocked_fail [OF written(2) that(2,3)] that(1) show ?thesis by (rule json_wf_same)
  qed (use that(1) in simp)
qed

section \<open>Properties\<close>

text \<open>C27: the file store implements a table: after any sequence of saves and deletes that succeed or fail,
  with any failures of the file system but that of the final rename, the file holds exactly the
  table that the successful operations produce in order, and loading returns its entries.\<close>
theorem json_store_refines_table:
  assumes "jsonfile.run J s fs ops fs'" "json_wf J s fs" "io_read io = None" "contextError c = None"
  shows "JSONLoad J io c i s fs' =
    (case fold table_op ops (json_contents J s fs) i of None \<Rightarrow> Inl ErrPlayerNotFound | Some p \<Rightarrow> Inr p)"
  using jsonfile.run_replays [OF assms(1,2)] jsonfile.load_contents [of J s fs' io c i] assms(3,4) by simp

text \<open>C28: when the final rename fails, the old file is already gone and the temporary file is removed: the
  save returns an error, and the whole table is lost, not just the change.\<close>
theorem json_rename_failure_loses_table:
  assumes "json_wf J s fs" "json_env s io fs" "fs (js_path s) \<noteq> None"
    and "pl_PlayerID p \<noteq> 0" "contextError c = None"
    and "js_marshal J ((json_contents J s fs)(pl_PlayerID p \<mapsto> Some p)) = Inr data"
    and "io = \<lparr> io_read = None, io_mkdir = None, io_create = Inr t, io_write = None, io_written = length data,
                io_close = None, io_remove = None, io_rename = Some err, io_cleanup = None \<rparr>"
  shows "\<exists>fs'. JSONSave J io c (Some p) s fs = (Some err, fs') \<and> fs' (js_path s) = None \<and> fs' t = None \<and>
    (\<forall>io' i. io_read io' = None \<longrightarrow> JSONLoad J io' c i s fs' = Inl ErrPlayerNotFound)"
proof -
  have "file_table J s fs = Inr (json_contents J s fs)" using json_wf_table [OF assms(1)] by blast
  with assms have "JSONSave J io c (Some p) s fs = (Some err, fs(t := None, js_path s := None))"
    by (auto simp: JSONSave_def readLocked_file writeLocked_def Let_def cleanup_def fun_eq_iff)
  moreover have "JSONLoad J io' c i s (fs(t := None, js_path s := None)) = Inl ErrPlayerNotFound"
    if "io_read io' = None" for io' i
    using that assms(5) by (simp add: JSONLoad_def readLocked_file file_table_def)
  ultimately show ?thesis by auto
qed

text \<open>One player, an encoder that knows the table with it, and a file system that works.\<close>

definition demo_saved :: Player where
  "demo_saved = \<lparr> pl_PlayerID = 5, pl_AccountID = ''ann'', pl_Data = [1, 2], pl_UpdatedAt = 10 \<rparr>"

definition demo_table :: players where
  "demo_table = [5 \<mapsto> Some demo_saved]"

definition demo_json :: json where
  "demo_json = \<lparr> js_marshal = (\<lambda>m. if m = demo_table then Inr [123] else Inl (Err ''unsupported'')),
     js_unmarshal = (\<lambda>d. if d = [123] then Inr demo_table else Inl (Err ''invalid character'')) \<rparr>"

definition demo_file :: JSONFileStore where
  "demo_file = \<lparr> js_path = ''players.json'' \<rparr>"

definition demo_io :: "go_error option \<Rightarrow> io" where
  "demo_io renamed = \<lparr> io_read = None, io_mkdir = None, io_create = Inr ''tmp1'', io_write = None, io_written = 1,
     io_close = None, io_remove = None, io_rename = renamed, io_cleanup = None \<rparr>"

lemma demo_json_ok: "json_ok demo_json"
  by (simp add: json_ok_def demo_json_def)

lemma demo_saved_ascii: "ascii_player demo_saved"
  by (simp add: ascii_player_def demo_saved_def)

lemma demo_file_wf:
  "json_wf demo_json demo_file Map.empty" "json_wf demo_json demo_file [''players.json'' \<mapsto> [123]]"
  using demo_json_ok demo_saved_ascii
  by (auto simp: json_wf_def file_table_def demo_file_def demo_json_def demo_table_def ascii_table_def split: if_splits)

lemma demo_file_contents:
  "json_contents demo_json demo_file Map.empty = Map.empty"
  "json_contents demo_json demo_file [''players.json'' \<mapsto> [123]] = demo_table"
  by (simp_all add: json_contents_def file_table_def demo_file_def demo_json_def)

theorem json_store_refines_table_witness:
  "\<exists>fs'. JSONSave demo_json (demo_io None) None (Some demo_saved) demo_file Map.empty = (None, fs') \<and>
     JSONLoad demo_json (demo_io None) None 5 demo_file fs' = Inr (Some demo_saved) \<and>
     JSONLoad demo_json (demo_io None) None 6 demo_file fs' = Inl ErrPlayerNotFound"
proof -
  have table: "[pl_PlayerID demo_saved \<mapsto> Some demo_saved] = demo_table"
    by (simp add: demo_table_def demo_saved_def)
  obtain fs' where save: "JSONSave demo_json (demo_io None) None (Some demo_saved) demo_file Map.empty = (None, fs')"
  proof -
    have "readLocked demo_json (demo_io None) demo_file Map.empty = Inr Map.empty"
      by (simp add: readLocked_def demo_io_def demo_file_def)
    moreover have "pl_PlayerID demo_saved \<noteq> 0" by (simp add: demo_saved_def)
    moreover obtain fs' where "writeLocked demo_json (demo_io None) demo_table demo_file Map.empty = (None, fs')"
      by (simp add: writeLocked_def demo_json_def demo_io_def demo_file_def Let_def)
    ultimately show ?thesis using that by (simp add: JSONSave_def contextError_def table)
  qed
  have "jsonfile.run demo_json demo_file Map.empty
      ([] @ [jsonfile.recorded (demo_io None) (OpSave (Some demo_saved))]) fs'"
    using save demo_saved_ascii
    by (intro jsonfile.run_ok [where e = "demo_io None" and c = None, OF jsonfile.run_nil])
       (auto simp: json_env_def demo_io_def demo_file_def)
  from json_store_refines_table [OF this demo_file_wf(1), of "demo_io None" None] save show ?thesis
    by (simp add: demo_file_contents table demo_io_def contextError_def) (simp add: demo_table_def)
qed

theorem json_rename_failure_loses_table_witness:
  "\<exists>fs'. JSONSave demo_json (demo_io (Some (Err ''access denied''))) None (Some demo_saved) demo_file
       [''players.json'' \<mapsto> [123]] = (Some (Err ''access denied''), fs') \<and>
     JSONLoad demo_json (demo_io None) None 5 demo_file fs' = Inl ErrPlayerNotFound"
proof -
  have "demo_table(pl_PlayerID demo_saved \<mapsto> Some demo_saved) = demo_table"
    by (simp add: demo_table_def demo_saved_def)
  then have marshal: "js_marshal demo_json ((json_contents demo_json demo_file [''players.json'' \<mapsto> [123]])
      (pl_PlayerID demo_saved \<mapsto> Some demo_saved)) = Inr [123]"
    unfolding demo_file_contents by (simp add: demo_json_def)
  have env: "json_env demo_file (demo_io (Some (Err ''access denied''))) [''players.json'' \<mapsto> [123]]"
    by (simp add: json_env_def demo_io_def demo_file_def)
  from json_rename_failure_loses_table [OF demo_file_wf(2) env _ _ _ marshal, of None "''tmp1''" "Err ''access denied''"]
  show ?thesis by (auto simp: demo_io_def demo_file_def demo_saved_def contextError_def)
qed

end
