(* ===== verification/GameApp.thy ===== *)
theory GameApp
  imports SessionManager Room Persist ConnManager "HOL-Library.AList"
begin

text \<open>
  The example application service of \<open>examples/gameapp/service.go\<close>, its invariant and the proof that every operation keeps it. It owns the
  sessions, the rooms and the table of connected players; every operation runs under one lock. The
  player store, the password hash and the JSON encoding of a player's progress are arguments; so are
  the readings of the clock and the random bytes an operation consumes. Connections are references
  into the store of connections \<open>w\<close>, which an operation changes by stopping some of them.
\<close>

section \<open>Data\<close>

definition ErrUnauthorized :: go_error where "ErrUnauthorized = Err ''unauthorized''"
definition ErrRoomNotFound :: go_error where "ErrRoomNotFound = Err ''room_not_found''"
definition ErrRoomUnavailable :: go_error where "ErrRoomUnavailable = Err ''room_unavailable''"
definition ErrNotInRoom :: go_error where "ErrNotInRoom = Err ''not_in_room''"
definition ErrRewardClaimed :: go_error where "ErrRewardClaimed = Err ''reward_already_claimed''"
definition ErrItemUnavailable :: go_error where "ErrItemUnavailable = Err ''item_unavailable''"

record Account =
  ac_AccountID :: string
  ac_PlayerID :: u64
  ac_PasswordHash :: string

record RoomConfig =
  rc_ID :: u32
  rc_MaxPlayers :: int

record LoginResult =
  lr_Token :: string
  lr_PlayerID :: u64
  lr_ExpiresAt :: gotime

record PlayerView =
  pv_Player :: "Player option"
  pv_Online :: bool
  pv_RoomID :: u32

record RoomView =
  rv_ID :: u32
  rv_MaxPlayers :: int
  rv_Players :: nat
  rv_State :: string

record connectedPlayer =
  cp_connection :: iconn
  cp_roomID :: u32
  cp_authDeadline :: gotime

record 'st Service =
  sv_accounts :: "string \<rightharpoonup> Account"
  sv_dummyHash :: string
  sv_sessions :: Manager
  sv_store :: 'st
  sv_rooms :: RoomManager
  sv_roomIDs :: "u32 list"
  sv_connections :: "u32 \<rightharpoonup> connectedPlayer"
  sv_ttl :: duration
  sv_closed :: bool

text \<open>\<open>golang.org/x/crypto/bcrypt\<close>: the cost of a hash, and whether a password matches it.\<close>

record bcrypt =
  bc_Cost :: "string \<Rightarrow> int res"
  bc_Compare :: "string \<Rightarrow> string \<Rightarrow> go_error option"

definition MinCost :: int where "MinCost = 4"

section \<open>Construction\<close>

fun addAccounts :: "bcrypt \<Rightarrow> Account list \<Rightarrow> u64 set \<Rightarrow> 'st Service \<Rightarrow> 'st Service res" where
  "addAccounts bc [] players s = Inr s"
| "addAccounts bc (account # accounts) players s =
     (if ac_AccountID account = [] \<or> length (ac_AccountID account) > 128 \<or> ac_PlayerID account = 0
         \<or> ac_PlayerID account \<in> players
      then Inl (Err ''invalid or duplicate account identity'')
      else if sv_accounts s (ac_AccountID account) \<noteq> None then Inl (Err ''duplicate account'')
      else (case bc_Cost bc (ac_PasswordHash account) of
              Inl err \<Rightarrow> Inl (Err ''invalid bcrypt hash or unsupported cost'')
            | Inr cost \<Rightarrow>
                if cost < MinCost \<or> cost > 14 then Inl (Err ''invalid bcrypt hash or unsupported cost'')
                else addAccounts bc accounts (insert (ac_PlayerID account) players)
                  (s\<lparr>sv_accounts := (sv_accounts s)(ac_AccountID account \<mapsto> account),
                     sv_dummyHash := ac_PasswordHash account\<rparr>)))"

fun addRooms :: "RoomConfig list \<Rightarrow> 'st Service \<Rightarrow> 'st Service res" where
  "addRooms [] s = Inr s"
| "addRooms (room # rooms) s =
     (if rc_ID room = 0 \<or> rc_MaxPlayers room \<le> 0 then Inl (Err ''room ID and capacity must be positive'')
      else (case CreateRoom (rc_ID room) (rc_MaxPlayers room) (sv_rooms s) of
              (Inl err, rg) \<Rightarrow> Inl err
            | (Inr r, rg) \<Rightarrow> addRooms rooms (s\<lparr>sv_rooms := rg, sv_roomIDs := sv_roomIDs s @ [rc_ID room]\<rparr>)))"

definition NewService ::
  "bcrypt \<Rightarrow> Account list \<Rightarrow> 'st option \<Rightarrow> duration \<Rightarrow> RoomConfig list \<Rightarrow> 'st Service res" where
  "NewService bc accounts store ttl rooms =
     (case store of
        None \<Rightarrow> Inl (Err ''accounts, player store and positive token TTL are required'')
      | Some st \<Rightarrow>
          if accounts = [] \<or> ttl \<le> 0
          then Inl (Err ''accounts, player store and positive token TTL are required'')
          else
            (case New ReplaceExisting of
               Inl err \<Rightarrow> Inl err
             | Inr sessions \<Rightarrow>
                 (case addAccounts bc accounts {}
                    \<lparr> sv_accounts = Map.empty, sv_dummyHash = [], sv_sessions = sessions, sv_store = st,
                      sv_rooms = NewRoomManager, sv_roomIDs = [], sv_connections = Map.empty,
                      sv_ttl = ttl, sv_closed = False \<rparr> of
                    Inl err \<Rightarrow> Inl err
                  | Inr s1 \<Rightarrow>
                      (case addRooms rooms s1 of
                         Inl err \<Rightarrow> Inl err
                       | Inr s2 \<Rightarrow> Inr (s2\<lparr>sv_roomIDs := sort (sv_roomIDs s2)\<rparr>)))))"

section \<open>Rooms and connections\<close>

text \<open>A call on a room object through its reference.\<close>

definition roomCall ::
  "nat \<Rightarrow> (Room \<Rightarrow> go_error option \<times> Room) \<Rightarrow> 'st Service \<Rightarrow> go_error option \<times> 'st Service" where
  "roomCall room f s =
     (case rg_heap (sv_rooms s) room of
        None \<Rightarrow> (Some nil_deref, s)
      | Some r \<Rightarrow>
          (case f r of (err, r') \<Rightarrow>
             (err, s\<lparr>sv_rooms := (sv_rooms s)\<lparr>rg_heap := (rg_heap (sv_rooms s))(room \<mapsto> r')\<rparr>\<rparr>)))"

definition roomView :: "Room \<Rightarrow> RoomView" where
  "roomView room = \<lparr> rv_ID = rm_ID room, rv_MaxPlayers = rm_MaxPlayers room, rv_Players = PlayerCount room,
     rv_State = RoomState_String (State room) \<rparr>"

definition disconnectLocked :: "u32 \<Rightarrow> bool \<Rightarrow> 'st Service \<Rightarrow> 'p conn_store \<Rightarrow> 'st Service \<times> 'p conn_store" where
  "disconnectLocked connID stop s w =
     (case sv_connections s connID of
        None \<Rightarrow> (s, w)
      | Some connection \<Rightarrow>
          (let s1 = (if cp_roomID connection \<noteq> 0
                     then (case GetRoom (cp_roomID connection) (sv_rooms s) of
                             Inl err \<Rightarrow> s
                           | Inr room \<Rightarrow> snd (roomCall room (Leave connID) s))
                     else s);
               s2 = s1\<lparr>sv_sessions := snd (LogoutByConnID (sv_sessions s1) connID)\<rparr>;
               s3 = s2\<lparr>sv_connections := (sv_connections s2)(connID := None)\<rparr>
           in (s3, if stop then storeStop (cp_connection connection) w else w)))"

definition Connected :: "gotime \<Rightarrow> iconn \<Rightarrow> 'st Service \<Rightarrow> 'p conn_store \<Rightarrow> 'st Service \<times> 'p conn_store" where
  "Connected now connection s w =
     (if sv_closed s then (s, storeStop connection w)
      else (s\<lparr>sv_connections := (sv_connections s)(ic_connID connection \<mapsto>
                \<lparr> cp_connection = connection, cp_roomID = 0, cp_authDeadline = now + 30000000000 \<rparr>)\<rparr>, w))"

definition Disconnected :: "iconn \<Rightarrow> 'st Service \<Rightarrow> 'p conn_store \<Rightarrow> 'st Service \<times> 'p conn_store" where
  "Disconnected connection s w = disconnectLocked (ic_connID connection) False s w"

section \<open>Login and sessions\<close>

text \<open>\<open>errors.Is\<close> unwraps.\<close>

fun errorsIs :: "go_error \<Rightarrow> go_error \<Rightarrow> bool" where
  "errorsIs (Wrap t e) target = (Wrap t e = target \<or> errorsIs e target)"
| "errorsIs e target = (e = target)"

text \<open>The operations of the player store, as the service calls them.\<close>

record 'st store_ops =
  st_Load :: "ctx \<Rightarrow> u64 \<Rightarrow> 'st \<Rightarrow> Player option res"
  st_Save :: "ctx \<Rightarrow> Player option \<Rightarrow> 'st \<Rightarrow> go_error option \<times> 'st"

text \<open>The stored player of an account, created at its first login.\<close>

definition loadOrCreate ::
  "'st store_ops \<Rightarrow> ctx \<Rightarrow> u64 \<Rightarrow> string \<Rightarrow> gotime \<Rightarrow> 'st Service \<Rightarrow> Player option res \<times> 'st Service" where
  "loadOrCreate S ctx playerID accountID now s =
     (case st_Load S ctx playerID (sv_store s) of
        Inl e \<Rightarrow>
          if errorsIs e ErrPlayerNotFound
          then (let player = \<lparr> pl_PlayerID = playerID, pl_AccountID = accountID, pl_Data = [], pl_UpdatedAt = now \<rparr>
                in case st_Save S ctx (Some player) (sv_store s) of
                     (None, st) \<Rightarrow> (Inr (Some player), s\<lparr>sv_store := st\<rparr>)
                   | (Some e', st) \<Rightarrow> (Inl e', s\<lparr>sv_store := st\<rparr>))
          else (Inl e, s)
      | Inr player \<Rightarrow> (Inr player, s))"

definition ServiceLogin ::
  "bcrypt \<Rightarrow> 'st store_ops \<Rightarrow> ctx \<Rightarrow> string \<Rightarrow> string \<Rightarrow> gotime \<Rightarrow> bytes res \<Rightarrow> gotime \<Rightarrow> 'st Service \<Rightarrow> 'p conn_store
   \<Rightarrow> LoginResult res \<times> 'st Service \<times> 'p conn_store" where
  "ServiceLogin bc S ctx accountID password now1 random now2 s w =
     (let found = sv_accounts s accountID;
          hash = (case found of None \<Rightarrow> sv_dummyHash s | Some account \<Rightarrow> ac_PasswordHash account);
          err = bc_Compare bc hash password
      in case found of
           None \<Rightarrow> (Inl ErrUnauthorized, s, w)
         | Some account \<Rightarrow>
             if err \<noteq> None \<or> length password = 0 \<or> length password > 72 then (Inl ErrUnauthorized, s, w)
             else if sv_closed s then (Inl ErrUnauthorized, s, w)
             else
               (case loadOrCreate S ctx (ac_PlayerID account) accountID now1 s of
                  (Inl e, s1) \<Rightarrow> (Inl (Wrap ''load or create player: '' e), s1, w)
                | (Inr None, s1) \<Rightarrow> (Inl nil_deref, s1, w)
                | (Inr (Some player), s1) \<Rightarrow>
                    if pl_AccountID player \<noteq> accountID
                    then (Inl (Err ''stored player identity mismatch''), s1, w)
                    else
                      (case Issue (sv_sessions s1) accountID (ac_PlayerID account) (sv_ttl s1) random now2 of
                         (Inl e, m) \<Rightarrow> (Inl e, s1\<lparr>sv_sessions := m\<rparr>, w)
                       | (Inr (value, old), m) \<Rightarrow>
                           (let s2 = s1\<lparr>sv_sessions := m\<rparr>;
                                (s3, w3) = (case old of
                                              None \<Rightarrow> (s2, w)
                                            | Some o' \<Rightarrow>
                                                if ses_Bound o' then disconnectLocked (ses_ConnID o') True s2 w
                                                else (s2, w))
                            in (Inr \<lparr> lr_Token = ses_Token value, lr_PlayerID = ses_PlayerID value,
                                      lr_ExpiresAt = ses_ExpiresAt value \<rparr>, s3, w3)))))"

definition sessionLocked :: "string \<Rightarrow> gotime \<Rightarrow> 'st Service \<Rightarrow> Session res" where
  "sessionLocked token now s =
     (if sv_closed s then Inl ErrUnauthorized
      else (case GetByToken (sv_sessions s) token now of
              Inl err \<Rightarrow> Inl ErrUnauthorized
            | Inr value \<Rightarrow> Inr value))"

definition Me :: "'st store_ops \<Rightarrow> ctx \<Rightarrow> string \<Rightarrow> gotime \<Rightarrow> 'st Service \<Rightarrow> PlayerView res" where
  "Me S ctx token now s =
     (case sessionLocked token now s of
        Inl err \<Rightarrow> Inl err
      | Inr value \<Rightarrow>
          (case st_Load S ctx (ses_PlayerID value) (sv_store s) of
             Inl err \<Rightarrow> Inl err
           | Inr player \<Rightarrow>
               (case sv_connections s (ses_ConnID value) of
                  Some connection \<Rightarrow>
                    if ses_Bound value
                    then Inr \<lparr> pv_Player = player, pv_Online = True, pv_RoomID = cp_roomID connection \<rparr>
                    else Inr \<lparr> pv_Player = player, pv_Online = False, pv_RoomID = 0 \<rparr>
                | None \<Rightarrow> Inr \<lparr> pv_Player = player, pv_Online = False, pv_RoomID = 0 \<rparr>)))"

text \<open>The error of \<open>GetRoom\<close> is dropped; reading the fields of a nil room would panic.\<close>

definition ServiceRooms :: "string \<Rightarrow> gotime \<Rightarrow> 'st Service \<Rightarrow> RoomView list res" where
  "ServiceRooms token now s =
     (case sessionLocked token now s of
        Inl err \<Rightarrow> Inl err
      | Inr value \<Rightarrow>
          (let rooms = map (\<lambda>i. case GetRoom i (sv_rooms s) of
                              Inl err \<Rightarrow> None | Inr room \<Rightarrow> rg_heap (sv_rooms s) room) (sv_roomIDs s)
           in if None \<in> set rooms then Inl nil_deref
              else Inr (map (\<lambda>r. roomView (the r)) rooms)))"

definition Authenticate ::
  "u32 \<Rightarrow> string \<Rightarrow> gotime \<Rightarrow> gotime \<Rightarrow> gotime \<Rightarrow> 'st Service \<Rightarrow> u64 res \<times> 'st Service" where
  "Authenticate connID token now now1 now2 s =
     (case sv_connections s connID of
        None \<Rightarrow> (Inl ErrUnauthorized, s)
      | Some connection \<Rightarrow>
          if sv_closed s \<or> (\<not> IsZero (cp_authDeadline connection) \<and> \<not> now < cp_authDeadline connection)
          then (Inl ErrUnauthorized, s)
          else
            (case Bind (sv_sessions s) token connID now1 now2 of
               (Inl err, m) \<Rightarrow> (Inl ErrUnauthorized, s\<lparr>sv_sessions := m\<rparr>)
             | (Inr value, m) \<Rightarrow>
                 (Inr (ses_PlayerID value),
                  s\<lparr>sv_sessions := m, sv_connections := (sv_connections s)(connID \<mapsto>
                      connection\<lparr>cp_authDeadline := 0\<rparr>)\<rparr>)))"

definition authenticatedLocked :: "u32 \<Rightarrow> gotime \<Rightarrow> 'st Service \<Rightarrow> connectedPlayer res" where
  "authenticatedLocked connID now s =
     (case sv_connections s connID of
        None \<Rightarrow> Inl ErrUnauthorized
      | Some connection \<Rightarrow>
          if sv_closed s then Inl ErrUnauthorized
          else (case GetByConnID (sv_sessions s) connID now of
                  Inl err \<Rightarrow> Inl ErrUnauthorized
                | Inr value \<Rightarrow> Inr connection))"

definition ServiceJoin :: "u32 \<Rightarrow> u32 \<Rightarrow> gotime \<Rightarrow> 'st Service \<Rightarrow> RoomView res \<times> 'st Service" where
  "ServiceJoin connID roomID now s =
     (case authenticatedLocked connID now s of
        Inl err \<Rightarrow> (Inl err, s)
      | Inr connection \<Rightarrow>
          (case GetRoom roomID (sv_rooms s) of
             Inl err \<Rightarrow> (Inl ErrRoomNotFound, s)
           | Inr room \<Rightarrow>
               (let (err, s') =
                  (if cp_roomID connection \<noteq> roomID
                   then (case roomCall room (Join (Some (cp_connection connection))) s of
                           (Some e, s1) \<Rightarrow> (Some e, s1)
                         | (None, s1) \<Rightarrow>
                             (let s2 = (case GetRoom (cp_roomID connection) (sv_rooms s1) of
                                          Inl e \<Rightarrow> s1
                                        | Inr old \<Rightarrow> snd (roomCall old (Leave connID) s1))
                              in (None, s2\<lparr>sv_connections := (sv_connections s2)(connID \<mapsto>
                                           connection\<lparr>cp_roomID := roomID\<rparr>)\<rparr>)))
                   else (None, s))
                in if err \<noteq> None then (Inl ErrRoomUnavailable, s')
                   else (case rg_heap (sv_rooms s') room of
                           None \<Rightarrow> (Inl nil_deref, s')
                         | Some r \<Rightarrow> (Inr (roomView r), s')))))"

definition ServiceLeave :: "u32 \<Rightarrow> gotime \<Rightarrow> 'st Service \<Rightarrow> go_error option \<times> 'st Service" where
  "ServiceLeave connID now s =
     (case authenticatedLocked connID now s of
        Inl err \<Rightarrow> (Some err, s)
      | Inr connection \<Rightarrow>
          if cp_roomID connection \<noteq> 0
          then (case GetRoom (cp_roomID connection) (sv_rooms s) of
                  Inl err \<Rightarrow> (Some nil_deref, s)
                | Inr room \<Rightarrow>
                    (let s1 = snd (roomCall room (Leave connID) s)
                     in (None, s1\<lparr>sv_connections := (sv_connections s1)(connID \<mapsto>
                                  connection\<lparr>cp_roomID := 0\<rparr>)\<rparr>)))
          else (None, s))"

definition Heartbeat :: "u32 \<Rightarrow> gotime \<Rightarrow> 'st Service \<Rightarrow> go_error option" where
  "Heartbeat connID now s =
     (case authenticatedLocked connID now s of Inl err \<Rightarrow> Some err | Inr connection \<Rightarrow> None)"

section \<open>Sweeping and closing\<close>

fun dropSessions :: "Session list \<Rightarrow> 'st Service \<Rightarrow> 'p conn_store \<Rightarrow> 'st Service \<times> 'p conn_store" where
  "dropSessions [] s w = (s, w)"
| "dropSessions (value # values) s w =
     (case (if ses_Bound value then disconnectLocked (ses_ConnID value) True s w else (s, w)) of
        (s1, w1) \<Rightarrow> dropSessions values s1 w1)"

text \<open>The loop over the connections visits them in the order \<open>ks\<close>; an entry deleted before is skipped.\<close>

fun dropLate :: "gotime \<Rightarrow> u32 list \<Rightarrow> 'st Service \<Rightarrow> 'p conn_store \<Rightarrow> 'st Service \<times> 'p conn_store" where
  "dropLate now [] s w = (s, w)"
| "dropLate now (i # ks) s w =
     (case (case sv_connections s i of
              None \<Rightarrow> (s, w)
            | Some connection \<Rightarrow>
                if \<not> IsZero (cp_authDeadline connection) \<and> \<not> now < cp_authDeadline connection
                then disconnectLocked i True s w else (s, w)) of
        (s1, w1) \<Rightarrow> dropLate now ks s1 w1)"

definition Sweep ::
  "string list \<Rightarrow> u32 list \<Rightarrow> gotime \<Rightarrow> 'st Service \<Rightarrow> 'p conn_store \<Rightarrow> 'st Service \<times> 'p conn_store" where
  "Sweep order ks now s w =
     (case RemoveExpired order now (sv_sessions s) of
        (gone, m) \<Rightarrow>
          (case dropSessions gone (s\<lparr>sv_sessions := m\<rparr>) w of (s1, w1) \<Rightarrow> dropLate now ks s1 w1))"

fun dropAll :: "u32 list \<Rightarrow> 'st Service \<Rightarrow> 'p conn_store \<Rightarrow> 'st Service \<times> 'p conn_store" where
  "dropAll [] s w = (s, w)"
| "dropAll (i # ks) s w = (case disconnectLocked i True s w of (s1, w1) \<Rightarrow> dropAll ks s1 w1)"

definition ServiceClose :: "u32 list \<Rightarrow> 'st Service \<Rightarrow> 'p conn_store \<Rightarrow> 'st Service \<times> 'p conn_store" where
  "ServiceClose ks s w = dropAll ks (s\<lparr>sv_closed := True\<rparr>) w"

section \<open>Room membership\<close>

text \<open>The members of a registered room, and the connections that believe to be in it.\<close>

definition membersOf :: "'st Service \<Rightarrow> u32 \<Rightarrow> (u32 \<rightharpoonup> iconn) option" where
  "membersOf s roomID =
     (case rg_rooms (sv_rooms s) roomID of
        None \<Rightarrow> None
      | Some room \<Rightarrow> map_option rm_members (rg_heap (sv_rooms s) room))"

definition visitors :: "'st Service \<Rightarrow> u32 \<Rightarrow> u32 \<rightharpoonup> iconn" where
  "visitors s roomID k =
     (case sv_connections s k of
        None \<Rightarrow> None
      | Some cp \<Rightarrow> if cp_roomID cp = roomID then Some (cp_connection cp) else None)"

lemma room_inv_inj:
  assumes "room_inv rg" "rg_rooms rg i = Some room" "rg_rooms rg j = Some room"
  shows "i = j"
  using room_inv_rooms [OF assms(1,2)] room_inv_rooms [OF assms(1,3)] by auto

lemma roomCall_frame [simp]:
  "sv_connections (snd (roomCall room f s)) = sv_connections s"
  "sv_sessions (snd (roomCall room f s)) = sv_sessions s"
  "sv_closed (snd (roomCall room f s)) = sv_closed s"
  "sv_accounts (snd (roomCall room f s)) = sv_accounts s"
  "sv_store (snd (roomCall room f s)) = sv_store s"
  "rg_rooms (sv_rooms (snd (roomCall room f s))) = rg_rooms (sv_rooms s)"
  by (auto simp: roomCall_def split: option.splits prod.splits)

lemma roomCall_heap:
  assumes "rg_heap (sv_rooms s) room = Some r"
  shows "fst (roomCall room f s) = fst (f r)"
    "rg_heap (sv_rooms (snd (roomCall room f s))) = (rg_heap (sv_rooms s))(room \<mapsto> snd (f r))"
  using assms by (auto simp: roomCall_def split: prod.splits)

lemma roomCall_inv:
  assumes "room_inv (sv_rooms s)" "\<And>r. room_ok r \<Longrightarrow> room_ok (snd (f r))" "\<And>r. rm_ID (snd (f r)) = rm_ID r"
  shows "room_inv (sv_rooms (snd (roomCall room f s)))"
proof (cases "rg_heap (sv_rooms s) room")
  case None
  with assms(1) show ?thesis by (simp add: roomCall_def)
next
  case (Some r)
  then have "sv_rooms (snd (roomCall room f s)) = on_room room (snd \<circ> f) (sv_rooms s)"
    by (cases "f r") (simp add: roomCall_def on_room_def)
  then show ?thesis using room_inv_on_room [OF assms(1), of "snd \<circ> f" room] assms(2,3) by simp
qed

lemma membersOf_room:
  assumes "room_inv (sv_rooms s)" "rg_rooms (sv_rooms s) roomID = Some room"
  obtains r where "rg_heap (sv_rooms s) room = Some r" "membersOf s roomID = Some (rm_members r)" "rm_ID r = roomID"
  using room_inv_rooms [OF assms] assms(2) that by (auto simp: membersOf_def)

lemma membersOf_roomCall:
  assumes "room_inv (sv_rooms s)" "rg_rooms (sv_rooms s) roomID = Some room" "rg_heap (sv_rooms s) room = Some r"
  shows "membersOf (snd (roomCall room f s)) i =
    (if i = roomID then Some (rm_members (snd (f r))) else membersOf s i)"
proof -
  have "rg_rooms (sv_rooms s) i \<noteq> Some room" if "i \<noteq> roomID"
    using room_inv_inj [OF assms(1)] assms(2) that by blast
  with assms(2) show ?thesis
    by (auto simp: membersOf_def roomCall_heap(2) [OF assms(3)] split: option.splits)
qed

lemma Leave_members [simp]: "rm_members (snd (Leave k r)) = (rm_members r)(k := None)"
  by (auto simp: Leave_def)

lemma Join_members:
  "Join (Some conn) r = (None, r') \<Longrightarrow> rm_members r' = (rm_members r)(ic_connID conn \<mapsto> conn)"
  "Join conn' r = (Some e, r') \<Longrightarrow> r' = r"
  by (auto simp: Join_def split: if_splits option.splits)

lemma roomCall_rooms: "\<exists>rg. snd (roomCall room f s) = s\<lparr>sv_rooms := rg\<rparr>"
proof (cases "rg_heap (sv_rooms s) room")
  case None
  then have "snd (roomCall room f s) = s\<lparr>sv_rooms := sv_rooms s\<rparr>" by (simp add: roomCall_def)
  then show ?thesis by blast
qed (auto simp: roomCall_def split: prod.splits)

lemma roomCall_same:
  assumes "rg_heap (sv_rooms s) room = Some r" "snd (f r) = r"
  shows "snd (roomCall room f s) = s"
proof -
  have "(rg_heap (sv_rooms s))(room \<mapsto> r) = rg_heap (sv_rooms s)" using assms(1) by (simp add: fun_upd_idem)
  with assms show ?thesis by (cases "f r") (simp add: roomCall_def)
qed

section \<open>The invariant\<close>

text \<open>
  Every connection is filed under its id; the rooms hold exactly the connections that believe to be in
  them; a connection without deadline is one with a session, and only such a connection is in a room;
  every bound session belongs to a connection of the table. The connections in \<open>X\<close> have just lost
  their session and are about to be dropped.
\<close>

definition conns_filed :: "'st Service \<Rightarrow> bool" where
  "conns_filed s \<longleftrightarrow> (\<forall>k cp. sv_connections s k = Some cp \<longrightarrow> ic_connID (cp_connection cp) = k)"

definition rooms_match :: "'st Service \<Rightarrow> bool" where
  "rooms_match s \<longleftrightarrow>
     (\<forall>i M. membersOf s i = Some M \<longrightarrow> i \<noteq> 0 \<and> M = visitors s i) \<and>
     (\<forall>k cp. sv_connections s k = Some cp \<longrightarrow> cp_roomID cp \<noteq> 0 \<longrightarrow> membersOf s (cp_roomID cp) \<noteq> None)"

definition authed :: "u32 set \<Rightarrow> 'st Service \<Rightarrow> bool" where
  "authed X s \<longleftrightarrow>
     (\<forall>k cp. sv_connections s k = Some cp \<longrightarrow>
        (k \<notin> X \<longrightarrow> (cp_authDeadline cp = 0 \<longleftrightarrow> sm_byConnID (sv_sessions s) k \<noteq> None)) \<and>
        (cp_roomID cp \<noteq> 0 \<longrightarrow> cp_authDeadline cp = 0)) \<and>
     (\<forall>k. sm_byConnID (sv_sessions s) k \<noteq> None \<longrightarrow> k \<notin> X \<and> sv_connections s k \<noteq> None)"

definition svc_ok :: "u32 set \<Rightarrow> 'st Service \<Rightarrow> bool" where
  "svc_ok X s \<longleftrightarrow> session_inv (sv_sessions s) \<and> room_inv (sv_rooms s) \<and> conns_filed s \<and> rooms_match s \<and> authed X s"

lemma svc_okD:
  assumes "svc_ok X s"
  shows "session_inv (sv_sessions s)" "room_inv (sv_rooms s)" "conns_filed s" "rooms_match s" "authed X s"
  using assms by (simp_all add: svc_ok_def)

lemma rooms_matchD:
  "rooms_match s \<Longrightarrow> membersOf s i = Some M \<Longrightarrow> i \<noteq> 0 \<and> M = visitors s i"
  "rooms_match s \<Longrightarrow> sv_connections s k = Some cp \<Longrightarrow> cp_roomID cp \<noteq> 0 \<Longrightarrow> membersOf s (cp_roomID cp) \<noteq> None"
  unfolding rooms_match_def by blast+

lemma authedD:
  "authed X s \<Longrightarrow> sv_connections s k = Some cp \<Longrightarrow> k \<notin> X \<Longrightarrow>
     cp_authDeadline cp = 0 \<longleftrightarrow> sm_byConnID (sv_sessions s) k \<noteq> None"
  "authed X s \<Longrightarrow> sv_connections s k = Some cp \<Longrightarrow> cp_roomID cp \<noteq> 0 \<Longrightarrow> cp_authDeadline cp = 0"
  "authed X s \<Longrightarrow> sm_byConnID (sv_sessions s) k \<noteq> None \<Longrightarrow> k \<notin> X \<and> sv_connections s k \<noteq> None"
  unfolding authed_def by blast+

lemma authedI:
  assumes "\<And>k cp. sv_connections s k = Some cp \<Longrightarrow> k \<notin> X \<Longrightarrow>
      cp_authDeadline cp = 0 \<longleftrightarrow> sm_byConnID (sv_sessions s) k \<noteq> None"
    and "\<And>k cp. sv_connections s k = Some cp \<Longrightarrow> cp_roomID cp \<noteq> 0 \<Longrightarrow> cp_authDeadline cp = 0"
    and "\<And>k. sm_byConnID (sv_sessions s) k \<noteq> None \<Longrightarrow> k \<notin> X \<and> sv_connections s k \<noteq> None"
  shows "authed X s"
  using assms unfolding authed_def by blast

section \<open>Dropping a connection\<close>

lemma LogoutByConnID_byConnID:
  assumes "session_inv m"
  shows "sm_byConnID (snd (LogoutByConnID m k)) = (sm_byConnID m)(k := None)"
proof (cases "sm_byConnID m k")
  case None
  then show ?thesis by (simp add: LogoutByConnID_def fun_upd_idem)
next
  case (Some t)
  then obtain v where "sm_byToken m t = Some v" "ses_Bound v" "ses_ConnID v = k"
    using session_invD(8) [OF assms] by blast
  with Some show ?thesis by (simp add: LogoutByConnID_def removeLocked_eq [OF assms])
qed

lemma session_inv_Logout: "session_inv m \<Longrightarrow> session_inv (snd (LogoutByConnID m k))"
  using session_inv_LogoutByConnID by (metis prod.collapse)

text \<open>The service after a connection left its room, if it was in one.\<close>

definition leaveCurrent :: "u32 \<Rightarrow> connectedPlayer \<Rightarrow> 'st Service \<Rightarrow> 'st Service" where
  "leaveCurrent k cp s =
     (if cp_roomID cp \<noteq> 0
      then (case GetRoom (cp_roomID cp) (sv_rooms s) of
              Inl err \<Rightarrow> s
            | Inr room \<Rightarrow> snd (roomCall room (Leave k) s))
      else s)"

lemma leaveCurrent_frame [simp]:
  "sv_connections (leaveCurrent k cp s) = sv_connections s"
  "sv_sessions (leaveCurrent k cp s) = sv_sessions s"
  "sv_closed (leaveCurrent k cp s) = sv_closed s"
  "rg_rooms (sv_rooms (leaveCurrent k cp s)) = rg_rooms (sv_rooms s)"
  by (simp_all add: leaveCurrent_def split: sum.split)

lemma leaveCurrent_inv: "room_inv (sv_rooms s) \<Longrightarrow> room_inv (sv_rooms (leaveCurrent k cp s))"
  by (auto simp: leaveCurrent_def room_ok_Leave intro!: roomCall_inv split: sum.split)

lemma leaveCurrent_members:
  assumes "room_inv (sv_rooms s)" "rooms_match s" "sv_connections s k = Some cp"
  shows "membersOf (leaveCurrent k cp s) i = map_option (\<lambda>M. M(k := None)) (membersOf s i)"
proof -
  have other: "M(k := None) = M" if "membersOf s i = Some M" "i \<noteq> cp_roomID cp" for M
    using rooms_matchD(1) [OF assms(2) that(1)] that(2) assms(3) by (auto simp: visitors_def)
  show ?thesis
  proof (cases "cp_roomID cp = 0")
    case True
    then have "i \<noteq> cp_roomID cp" if "membersOf s i = Some M" for M
      using rooms_matchD(1) [OF assms(2) that] by simp
    with other True show ?thesis by (cases "membersOf s i") (auto simp: leaveCurrent_def)
  next
    case False
    then obtain room where room: "rg_rooms (sv_rooms s) (cp_roomID cp) = Some room"
      using rooms_matchD(2) [OF assms(2,3)] by (auto simp: membersOf_def split: option.splits)
    then obtain r where r: "rg_heap (sv_rooms s) room = Some r" "membersOf s (cp_roomID cp) = Some (rm_members r)"
      using membersOf_room [OF assms(1)] by blast
    with False room have "membersOf (leaveCurrent k cp s) i =
        (if i = cp_roomID cp then Some ((rm_members r)(k := None)) else membersOf s i)"
      by (simp add: leaveCurrent_def GetRoom_def membersOf_roomCall [OF assms(1) room])
    with r(2) other show ?thesis by (cases "membersOf s i") auto
  qed
qed

lemma disconnectLocked_eq:
  "disconnectLocked k stop s w =
     (case sv_connections s k of
        None \<Rightarrow> (s, w)
      | Some cp \<Rightarrow>
          ((leaveCurrent k cp s)\<lparr>sv_sessions := snd (LogoutByConnID (sv_sessions s) k),
             sv_connections := (sv_connections s)(k := None)\<rparr>,
           if stop then storeStop (cp_connection cp) w else w))"
  by (auto simp: disconnectLocked_def leaveCurrent_def Let_def split: option.split sum.split)

lemma membersOf_update [simp]:
  "membersOf (sv_sessions_update f s) = membersOf s" "membersOf (sv_connections_update g s) = membersOf s"
  "membersOf (sv_closed_update h s) = membersOf s" "membersOf (sv_store_update q s) = membersOf s"
  by (simp_all add: membersOf_def fun_eq_iff split: option.split)

lemma visitors_update [simp]:
  "visitors (sv_sessions_update f s) = visitors s" "visitors (sv_rooms_update g s) = visitors s"
  "visitors (sv_closed_update h s) = visitors s" "visitors (sv_store_update q s) = visitors s"
  by (simp_all add: visitors_def fun_eq_iff)

lemma svc_ok_disconnect:
  assumes ok: "svc_ok X s" and d: "disconnectLocked k stop s w = (s', w')"
  shows "svc_ok (X - {k}) s'" "sv_connections s' = (sv_connections s)(k := None)" "sv_closed s' = sv_closed s"
proof -
  note D = svc_okD [OF ok]
  have all: "svc_ok (X - {k}) s' \<and> sv_connections s' = (sv_connections s)(k := None) \<and> sv_closed s' = sv_closed s"
  proof (cases "sv_connections s k")
    case None
    then have "s' = s" using d by (simp add: disconnectLocked_eq)
    moreover have "authed (X - {k}) s"
    proof (rule authedI)
      fix j cp assume "sv_connections s j = Some cp" "j \<notin> X - {k}"
      with None have "j \<notin> X" by auto
      with \<open>sv_connections s j = Some cp\<close> show "cp_authDeadline cp = 0 \<longleftrightarrow> sm_byConnID (sv_sessions s) j \<noteq> None"
        by (rule authedD(1) [OF D(5)])
    qed (use authedD(2,3) [OF D(5)] in auto)
    ultimately show ?thesis using D None by (simp add: svc_ok_def fun_upd_idem)
  next
    case (Some cp)
    let ?s = "(leaveCurrent k cp s)\<lparr>sv_sessions := snd (LogoutByConnID (sv_sessions s) k),
        sv_connections := (sv_connections s)(k := None)\<rparr>"
    have s': "s' = ?s" using d Some by (simp add: disconnectLocked_eq)
    have vis: "visitors ?s i = (visitors s i)(k := None)" for i
      by (simp add: visitors_def fun_eq_iff)
    have "rooms_match ?s"
      unfolding rooms_match_def
    proof (intro conjI allI impI)
      fix i M assume "membersOf ?s i = Some M"
      then obtain M0 where "membersOf s i = Some M0" "M = M0(k := None)"
        using leaveCurrent_members [OF D(2,4) Some] by auto
      with rooms_matchD(1) [OF D(4)] vis show "i \<noteq> 0" "M = visitors ?s i" by auto
    next
      fix j cq assume "sv_connections ?s j = Some cq" "cp_roomID cq \<noteq> 0"
      then show "membersOf ?s (cp_roomID cq) \<noteq> None"
        using rooms_matchD(2) [OF D(4), of j cq] leaveCurrent_members [OF D(2,4) Some]
        by (auto split: if_splits)
    qed
    moreover have "authed (X - {k}) ?s"
    proof (rule authedI)
      fix j cq assume "sv_connections ?s j = Some cq" "j \<notin> X - {k}"
      then have j: "j \<noteq> k" "sv_connections s j = Some cq" "j \<notin> X" by (auto split: if_splits)
      then show "cp_authDeadline cq = 0 \<longleftrightarrow> sm_byConnID (sv_sessions ?s) j \<noteq> None"
        using authedD(1) [OF D(5) j(2,3)] by (simp add: LogoutByConnID_byConnID [OF D(1)])
    qed (use authedD(2,3) [OF D(5)] in \<open>auto simp: LogoutByConnID_byConnID [OF D(1)] split: if_splits\<close>)
    moreover have "conns_filed ?s" using D(3) by (auto simp: conns_filed_def)
    ultimately show ?thesis
      using D leaveCurrent_inv [OF D(2)] by (simp add: s' svc_ok_def session_inv_Logout)
  qed
  then show "svc_ok (X - {k}) s'" "sv_connections s' = (sv_connections s)(k := None)" "sv_closed s' = sv_closed s"
    by auto
qed

section \<open>The operations keep the invariant\<close>

lemma byConnID_iff:
  assumes "session_inv m"
  shows "sm_byConnID m c \<noteq> None \<longleftrightarrow> (\<exists>t v. sm_byToken m t = Some v \<and> ses_Bound v \<and> ses_ConnID v = c)"
  using session_invD(5,8) [OF assms] by (metis not_None_eq)

lemma svc_ok_frame:
  assumes "svc_ok X s"
  shows "svc_ok X (s\<lparr>sv_store := st\<rparr>)" "svc_ok X (s\<lparr>sv_closed := b\<rparr>)"
  using assms by (simp_all add: svc_ok_def conns_filed_def rooms_match_def authed_def)

text \<open>Taking away the sessions of the connections \<open>Y\<close>.\<close>

lemma svc_ok_sessions:
  assumes "svc_ok {} s" "session_inv m"
    and "\<And>c. sm_byConnID m c \<noteq> None \<longleftrightarrow> sm_byConnID (sv_sessions s) c \<noteq> None \<and> c \<notin> Y"
  shows "svc_ok Y (s\<lparr>sv_sessions := m\<rparr>)"
proof -
  note D = svc_okD [OF assms(1)]
  have "authed Y (s\<lparr>sv_sessions := m\<rparr>)"
    by (rule authedI) (use authedD [OF D(5)] assms(3) in auto)
  with D assms(2) show ?thesis by (simp add: svc_ok_def conns_filed_def rooms_match_def)
qed

lemma svc_ok_Connected:
  assumes ok: "svc_ok {} s" and run: "Connected now conn s w = (s', w')"
    and new: "sv_connections s (ic_connID conn) = None" "now + 30000000000 \<noteq> 0"
  shows "svc_ok {} s'"
proof (cases "sv_closed s")
  case True
  with ok run show ?thesis by (simp add: Connected_def)
next
  case False
  note D = svc_okD [OF ok]
  let ?k = "ic_connID conn"
  let ?cp = "\<lparr> cp_connection = conn, cp_roomID = 0, cp_authDeadline = now + 30000000000 \<rparr>"
  from False run have s': "s' = s\<lparr>sv_connections := (sv_connections s)(?k \<mapsto> ?cp)\<rparr>"
    by (simp add: Connected_def)
  have vis: "visitors s' i = visitors s i" if "i \<noteq> 0" for i
    using new(1) that by (auto simp: s' visitors_def fun_eq_iff)
  have "rooms_match s'"
    using rooms_matchD [OF D(4)] vis unfolding rooms_match_def by (auto simp: s')
  moreover have "sm_byConnID (sv_sessions s) ?k = None" using authedD(3) [OF D(5), of ?k] new(1) by blast
  then have "authed {} s'"
    by (intro authedI) (use authedD [OF D(5)] new(2) in \<open>auto simp: s' split: if_splits\<close>)
  ultimately show ?thesis using D by (auto simp: svc_ok_def s' conns_filed_def)
qed

lemma svc_ok_Authenticate:
  assumes ok: "svc_ok {} s" and run: "Authenticate k token now now1 now2 s = (r, s')"
  shows "svc_ok {} s'"
proof (cases r)
  case (Inl e)
  have "s' = s"
    using run Inl Bind_Inl
    by (fastforce simp: Authenticate_def split: option.splits if_splits prod.splits sum.splits)
  with ok show ?thesis by simp
next
  case (Inr pid)
  note D = svc_okD [OF ok]
  from run Inr obtain cp v m where k: "sv_connections s k = Some cp"
    and b: "Bind (sv_sessions s) token k now1 now2 = (Inr v, m)"
    and s': "s' = s\<lparr>sv_sessions := m, sv_connections := (sv_connections s)(k \<mapsto> cp\<lparr>cp_authDeadline := 0\<rparr>)\<rparr>"
    by (auto simp: Authenticate_def split: option.splits if_splits prod.splits sum.splits)
  from b obtain m0 where m: "sm_byConnID m = (sm_byConnID (sv_sessions s))(k \<mapsto> token)"
    by (rule Bind_Inr) simp
  have vis: "visitors s' i = visitors s i" for i
    using k by (auto simp: s' visitors_def fun_eq_iff)
  have "rooms_match s'"
    using rooms_matchD [OF D(4)] k vis unfolding rooms_match_def by (auto simp: s')
  moreover have "authed {} s'"
    by (intro authedI) (use authedD [OF D(5)] k in \<open>auto simp: s' m split: if_splits\<close>)
  moreover have "conns_filed s'" using D(3) k by (auto simp: s' conns_filed_def)
  ultimately show ?thesis using D(2) session_inv_Bind [OF D(1) b] by (simp add: svc_ok_def s')
qed

text \<open>Moving a connection from its room into another, or into none (0).\<close>

lemma svc_ok_move:
  assumes ok: "svc_ok {} s" and k: "sv_connections s k = Some cp" "cp_authDeadline cp = 0"
    and inv: "room_inv rg" and "roomID \<noteq> cp_roomID cp" "roomID \<noteq> 0 \<Longrightarrow> membersOf s roomID \<noteq> None"
    and members: "\<And>i. membersOf (s\<lparr>sv_rooms := rg\<rparr>) i = map_option (\<lambda>M.
        if i = roomID then M(k \<mapsto> cp_connection cp) else M(k := None)) (membersOf s i)"
  shows "svc_ok {} (s\<lparr>sv_rooms := rg, sv_connections := (sv_connections s)(k \<mapsto> cp\<lparr>cp_roomID := roomID\<rparr>)\<rparr>)"
    (is "svc_ok {} ?s")
proof -
  note D = svc_okD [OF ok]
  have mem: "membersOf ?s = membersOf (s\<lparr>sv_rooms := rg\<rparr>)" by (simp add: membersOf_def fun_eq_iff split: option.split)
  have vis: "visitors ?s i = (if i = roomID then (visitors s i)(k \<mapsto> cp_connection cp) else (visitors s i)(k := None))" for i
    by (cases "i = roomID") (simp_all add: visitors_def fun_eq_iff)
  have "rooms_match ?s"
    unfolding rooms_match_def mem members
  proof (intro conjI allI impI)
    fix i M assume "map_option (\<lambda>M. if i = roomID then M(k \<mapsto> cp_connection cp) else M(k := None)) (membersOf s i) = Some M"
    then obtain M0 where "membersOf s i = Some M0"
      "M = (if i = roomID then M0(k \<mapsto> cp_connection cp) else M0(k := None))" by auto
    with rooms_matchD(1) [OF D(4)] vis show "i \<noteq> 0" "M = visitors ?s i" by auto
  next
    fix j cq assume "sv_connections ?s j = Some cq" "cp_roomID cq \<noteq> 0"
    then have "membersOf s (cp_roomID cq) \<noteq> None"
      using rooms_matchD(2) [OF D(4), of j cq] assms(6) by (auto split: if_splits)
    then show "map_option (\<lambda>M. if cp_roomID cq = roomID then M(k \<mapsto> cp_connection cp) else M(k := None))
        (membersOf s (cp_roomID cq)) \<noteq> None" by simp
  qed
  moreover have "authed {} ?s"
    by (intro authedI) (use authedD [OF D(5)] k in \<open>auto split: if_splits\<close>)
  moreover have "conns_filed ?s" using D(3) k by (auto simp: conns_filed_def)
  ultimately show ?thesis using D(1) inv by (simp add: svc_ok_def)
qed

lemma authenticatedLocked_Inr:
  assumes "authenticatedLocked k now s = Inr cp"
  shows "sv_connections s k = Some cp" "\<not> sv_closed s" "\<exists>v. GetByConnID (sv_sessions s) k now = Inr v"
  using assms by (auto simp: authenticatedLocked_def split: option.splits if_splits sum.splits)

lemma authenticated_deadline:
  assumes "svc_ok {} s" "authenticatedLocked k now s = Inr cp"
  shows "cp_authDeadline cp = 0"
proof -
  have "sm_byConnID (sv_sessions s) k \<noteq> None"
    using authenticatedLocked_Inr(3) [OF assms(2)] by (auto simp: GetByConnID_def split: option.splits)
  then show ?thesis
    using authedD(1) [OF svc_okD(5) [OF assms(1)] authenticatedLocked_Inr(1) [OF assms(2)]] by simp
qed

lemma registered_room:
  assumes "svc_ok X s" "GetRoom i (sv_rooms s) = Inr room"
  obtains r where "rg_rooms (sv_rooms s) i = Some room" "rg_heap (sv_rooms s) room = Some r"
    "membersOf s i = Some (rm_members r)" "rm_members r = visitors s i" "i \<noteq> 0" "rm_ID r = i"
proof -
  have reg: "rg_rooms (sv_rooms s) i = Some room" using assms(2) by (auto simp: GetRoom_def split: option.splits)
  obtain r where r: "rg_heap (sv_rooms s) room = Some r" "membersOf s i = Some (rm_members r)" "rm_ID r = i"
    using membersOf_room [OF svc_okD(2) [OF assms(1)] reg] .
  from rooms_matchD(1) [OF svc_okD(4) [OF assms(1)] r(2)] reg r that show ?thesis by auto
qed

lemma svc_ok_Leave:
  assumes ok: "svc_ok {} s" and run: "ServiceLeave k now s = (r, s')"
  shows "svc_ok {} s'"
proof (cases "\<exists>cp room. authenticatedLocked k now s = Inr cp \<and> cp_roomID cp \<noteq> 0 \<and> GetRoom (cp_roomID cp) (sv_rooms s) = Inr room")
  case True
  then obtain cp room where cp: "authenticatedLocked k now s = Inr cp" "cp_roomID cp \<noteq> 0"
    "GetRoom (cp_roomID cp) (sv_rooms s) = Inr room" by blast
  note D = svc_okD [OF ok] and k = authenticatedLocked_Inr(1) [OF cp(1)]
  have s': "s' = s\<lparr>sv_rooms := sv_rooms (leaveCurrent k cp s), sv_connections := (sv_connections s)(k \<mapsto> cp\<lparr>cp_roomID := 0\<rparr>)\<rparr>"
    using run cp
    by (auto simp: ServiceLeave_def leaveCurrent_def Let_def roomCall_def split: option.splits prod.splits)
  have mem: "membersOf (s\<lparr>sv_rooms := sv_rooms (leaveCurrent k cp s)\<rparr>) i = membersOf (leaveCurrent k cp s) i" for i
    by (simp add: membersOf_def split: option.split)
  have "membersOf s 0 = None"
    using rooms_matchD(1) [OF D(4), of 0] by (cases "membersOf s 0") auto
  then have "membersOf (s\<lparr>sv_rooms := sv_rooms (leaveCurrent k cp s)\<rparr>) i = map_option (\<lambda>M.
      if i = 0 then M(k \<mapsto> cp_connection cp) else M(k := None)) (membersOf s i)" for i
    unfolding mem leaveCurrent_members [OF D(2,4) k] by (cases "i = 0") auto
  then show ?thesis
    unfolding s' using cp(2)
    by (intro svc_ok_move [OF ok k authenticated_deadline [OF ok cp(1)] leaveCurrent_inv [OF D(2)]]) auto
next
  case False
  then have "s' = s" using run by (auto simp: ServiceLeave_def split: sum.splits if_splits)
  with ok show ?thesis by simp
qed

lemma old_room_left:
  assumes ok: "svc_ok {} s" and k: "sv_connections s k = Some cp" and ne: "cp_roomID cp \<noteq> roomID"
    and s1: "room_inv (sv_rooms s1)" "rg_rooms (sv_rooms s1) = rg_rooms (sv_rooms s)"
      "\<And>i. i \<noteq> roomID \<Longrightarrow> membersOf s1 i = membersOf s i"
  defines "s2 \<equiv> (case GetRoom (cp_roomID cp) (sv_rooms s1) of
      Inl e \<Rightarrow> s1 | Inr old \<Rightarrow> snd (roomCall old (Leave k) s1))"
  shows "membersOf s2 i = (if i = roomID then membersOf s1 i else map_option (\<lambda>M. M(k := None)) (membersOf s i))"
    "room_inv (sv_rooms s2)"
proof -
  note D = svc_okD [OF ok]
  have keep: "map_option (\<lambda>M. M(k := None)) (membersOf s i) = membersOf s i" if "i \<noteq> cp_roomID cp" for i
    using rooms_matchD(1) [OF D(4), of i] k that by (cases "membersOf s i") (auto simp: visitors_def)
  show "membersOf s2 i = (if i = roomID then membersOf s1 i else map_option (\<lambda>M. M(k := None)) (membersOf s i))"
  proof (cases "rg_rooms (sv_rooms s) (cp_roomID cp)")
    case None
    then have "s2 = s1" by (simp add: s2_def GetRoom_def s1(2))
    moreover have "membersOf s (cp_roomID cp) = None" using None by (simp add: membersOf_def)
    ultimately show ?thesis using keep [of i] s1(3) by (cases "i = cp_roomID cp") auto
  next
    case (Some old)
    then have reg: "rg_rooms (sv_rooms s1) (cp_roomID cp) = Some old" by (simp add: s1(2))
    then have s2: "s2 = snd (roomCall old (Leave k) s1)" by (simp add: s2_def GetRoom_def)
    obtain r where r: "rg_heap (sv_rooms s1) old = Some r" "membersOf s1 (cp_roomID cp) = Some (rm_members r)"
      using membersOf_room [OF s1(1) reg] by blast
    have "membersOf s2 i = (if i = cp_roomID cp then Some ((rm_members r)(k := None)) else membersOf s1 i)"
      by (simp add: s2 membersOf_roomCall [OF s1(1) reg r(1)])
    with keep [of i] r(2) s1(3) ne show ?thesis by auto
  qed
  show "room_inv (sv_rooms s2)"
    using s1(1) by (auto simp: s2_def room_ok_Leave intro!: roomCall_inv split: sum.split)
qed

text \<open>The outcome of \<open>Join\<close>: nothing changes, or the connection is in the room asked for and in no other.\<close>

lemma ServiceJoin_result:
  assumes ok: "svc_ok {} s" and run: "ServiceJoin k roomID now s = (r, s')"
  obtains (refused) e where "r = Inl e" "s' = s"
  | (stays) cp room rm where "authenticatedLocked k now s = Inr cp" "cp_roomID cp = roomID" "s' = s" "r = Inr (roomView rm)"
      "rg_rooms (sv_rooms s) roomID = Some room" "rg_heap (sv_rooms s) room = Some rm"
  | (joined) cp rg where "authenticatedLocked k now s = Inr cp" "cp_roomID cp \<noteq> roomID" "membersOf s roomID \<noteq> None"
      "room_inv rg" "s' = s\<lparr>sv_rooms := rg, sv_connections := (sv_connections s)(k \<mapsto> cp\<lparr>cp_roomID := roomID\<rparr>)\<rparr>"
      "\<And>i. membersOf (s\<lparr>sv_rooms := rg\<rparr>) i = map_option (\<lambda>M.
        if i = roomID then M(k \<mapsto> cp_connection cp) else M(k := None)) (membersOf s i)"
      "\<exists>view. r = Inr view"
proof (cases "authenticatedLocked k now s")
  case (Inl e)
  with run refused show ?thesis by (auto simp: ServiceJoin_def)
next
  case cp: (Inr cp)
  note D = svc_okD [OF ok] and k = authenticatedLocked_Inr(1) [OF cp]
  show ?thesis
  proof (cases "GetRoom roomID (sv_rooms s)")
    case (Inl e)
    with run cp refused show ?thesis by (auto simp: ServiceJoin_def)
  next
    case room: (Inr room)
    obtain rm where rm: "rg_rooms (sv_rooms s) roomID = Some room" "rg_heap (sv_rooms s) room = Some rm"
      "membersOf s roomID = Some (rm_members rm)" "rm_members rm = visitors s roomID" "roomID \<noteq> 0"
      using registered_room [OF ok room] by blast
    show ?thesis
    proof (cases "cp_roomID cp = roomID")
      case True
      with run cp room rm(2) have "r = Inr (roomView rm)" "s' = s" by (simp_all add: ServiceJoin_def)
      with cp True rm(1,2) show ?thesis by (intro stays)
    next
      case False
      let ?J = "Join (Some (cp_connection cp))"
      define s1 where "s1 = snd (roomCall room ?J s)"
      obtain err r' where J: "?J rm = (err, r')" by fastforce
      show ?thesis
      proof (cases err)
        case (Some e)
        with J have "snd (?J rm) = rm" using Join_members(2) by (metis snd_conv)
        then have same: "snd (roomCall room ?J s) = s" using roomCall_same [OF rm(2)] by blast
        have "roomCall room ?J s = (Some e, s)"
          using same roomCall_heap(1) [OF rm(2), of ?J] J Some by (metis fst_conv prod.collapse)
        with run cp room False have "r = Inl ErrRoomUnavailable" "s' = s" by (simp_all add: ServiceJoin_def)
        then show ?thesis by (rule refused)
      next
        case None
        have call: "roomCall room ?J s = (None, s1)"
          using roomCall_heap(1) [OF rm(2), of ?J] J None by (metis fst_conv prod.collapse s1_def)
        have inv1: "room_inv (sv_rooms s1)"
          unfolding s1_def by (rule roomCall_inv [OF D(2)]) (simp_all add: room_ok_Join)
        have mem1: "membersOf s1 i = (if i = roomID then Some ((rm_members rm)(k \<mapsto> cp_connection cp)) else membersOf s i)" for i
          using membersOf_roomCall [OF D(2) rm(1,2), of ?J i] Join_members(1) [of "cp_connection cp" rm r'] J None D(3) k
          by (auto simp: s1_def conns_filed_def)
        define s2 where "s2 = (case GetRoom (cp_roomID cp) (sv_rooms s1) of
            Inl e \<Rightarrow> s1 | Inr old \<Rightarrow> snd (roomCall old (Leave k) s1))"
        have "rg_rooms (sv_rooms s1) = rg_rooms (sv_rooms s)" by (simp add: s1_def)
        moreover have "membersOf s1 i = membersOf s i" if "i \<noteq> roomID" for i using mem1 that by simp
        ultimately have left: "membersOf s2 i =
            (if i = roomID then membersOf s1 i else map_option (\<lambda>M. M(k := None)) (membersOf s i))"
            "room_inv (sv_rooms s2)" for i
          unfolding s2_def using old_room_left [OF ok k False inv1] by blast+
        have mem2: "membersOf s2 i = map_option (\<lambda>M. if i = roomID then M(k \<mapsto> cp_connection cp) else M(k := None)) (membersOf s i)"
          "room_inv (sv_rooms s2)" for i
          using left(1) [of i] left(2) mem1 [of i] rm(3) by (simp_all split: if_splits)
        obtain rg1 where rg1: "s1 = s\<lparr>sv_rooms := rg1\<rparr>" using roomCall_rooms s1_def by blast
        have "\<exists>rg. s2 = s1\<lparr>sv_rooms := rg\<rparr>"
        proof (cases "GetRoom (cp_roomID cp) (sv_rooms s1)")
          case (Inl e)
          then have "s2 = s1\<lparr>sv_rooms := sv_rooms s1\<rparr>" by (simp add: s2_def)
          then show ?thesis by blast
        qed (simp add: s2_def roomCall_rooms)
        then obtain rg where s2: "s2 = s\<lparr>sv_rooms := rg\<rparr>" by (auto simp: rg1)
        have "rg_rooms (sv_rooms s2) = rg_rooms (sv_rooms s1)" by (simp add: s2_def split: sum.split)
        then have reg: "rg_rooms rg roomID = Some room" using rm(1) by (simp add: s2) (simp add: s1_def)
        have "membersOf s2 roomID \<noteq> None" using mem2(1) rm(3) by simp
        then obtain rm2 where rm2: "rg_heap rg room = Some rm2"
          by (auto simp: membersOf_def s2 reg)
        have s': "r = Inr (roomView rm2) \<and>
            s' = s\<lparr>sv_rooms := rg, sv_connections := (sv_connections s)(k \<mapsto> cp\<lparr>cp_roomID := roomID\<rparr>)\<rparr>"
          using run cp room False call rm2
          by (simp add: ServiceJoin_def s2_def [symmetric] s2)
        show ?thesis
          by (rule joined [OF cp False]) (use rm(3) mem2 s' in \<open>auto simp: s2\<close>)
      qed
    qed
  qed
qed

lemma svc_ok_Join:
  assumes ok: "svc_ok {} s" and run: "ServiceJoin k roomID now s = (r, s')"
  shows "svc_ok {} s'"
  using ok run
proof (cases rule: ServiceJoin_result)
  case (joined cp rg)
  show ?thesis
    unfolding joined(5)
    by (rule svc_ok_move [OF ok authenticatedLocked_Inr(1) [OF joined(1)] authenticated_deadline [OF ok joined(1)] joined(4)])
       (use joined(2,3,6) in auto)
qed (use ok in simp_all)

text \<open>The session that a new login replaces takes its connection with it.\<close>

definition old_conns :: "Session option \<Rightarrow> u32 set" where
  "old_conns old = (case old of None \<Rightarrow> {} | Some v \<Rightarrow> if ses_Bound v then {ses_ConnID v} else {})"

lemma session_of_account_iff:
  assumes "session_inv m"
  shows "session_of_account a m = Some w \<longleftrightarrow> (\<exists>u. sm_byToken m u = Some w \<and> ses_AccountID w = a)"
  using session_invD(3,6) [OF assms] by (force simp: session_of_account_def split: option.splits)

lemma Issue_byConnID:
  assumes inv: "session_inv m" and run: "Issue m a p ttl random now = (Inr (v, old), m')" and inv': "session_inv m'"
    and fresh: "\<And>token. createToken random = Inr token \<Longrightarrow> sm_byToken m token = None"
  shows "sm_byConnID m' c \<noteq> None \<longleftrightarrow> sm_byConnID m c \<noteq> None \<and> c \<notin> old_conns old"
proof -
  obtain token where t: "createToken random = Inr token" "v = fresh_session token a p ttl now"
    "old = session_of_account a m" "sm_byToken m' = (sm_byToken (drop_account a m))(token \<mapsto> v)"
    using Issue_Inr [OF inv run] .
  have old_iff: "c \<in> old_conns old \<longleftrightarrow> (\<exists>u w. sm_byToken m u = Some w \<and> ses_AccountID w = a \<and> ses_Bound w \<and> ses_ConnID w = c)"
  proof -
    have "c \<in> old_conns old \<longleftrightarrow> (\<exists>w. session_of_account a m = Some w \<and> ses_Bound w \<and> ses_ConnID w = c)"
      unfolding old_conns_def t(3) by (cases "session_of_account a m") auto
    then show ?thesis unfolding session_of_account_iff [OF inv] by blast
  qed
  have uniq: "w = w'" if "sm_byToken m u = Some w" "sm_byToken m u' = Some w'" "ses_Bound w" "ses_Bound w'"
    "ses_ConnID w = ses_ConnID w'" for u u' w w'
  proof -
    have "u = u'" using session_eq_by_index [OF inv that(1,2)] that(3-5) by blast
    with that(1,2) show ?thesis by simp
  qed
  have tok: "sm_byToken m' u = Some w \<longleftrightarrow> u = token \<and> w = v \<or> u \<noteq> token \<and> sm_byToken m u = Some w \<and> ses_AccountID w \<noteq> a" for u w
    by (auto simp: t(4) drop_account_lookup [OF inv] split: option.splits if_splits)
  have unbound: "\<not> ses_Bound v" by (simp add: t(2))
  have old_token: "u \<noteq> token" if "sm_byToken m u = Some w" for u w using fresh [OF t(1)] that by auto
  show ?thesis
    unfolding byConnID_iff [OF inv] byConnID_iff [OF inv'] old_iff
  proof
    assume "\<exists>t v. sm_byToken m' t = Some v \<and> ses_Bound v \<and> ses_ConnID v = c"
    then obtain u w where w: "sm_byToken m' u = Some w" "ses_Bound w" "ses_ConnID w = c" by blast
    from iffD1 [OF tok w(1)] unbound w(2) have "sm_byToken m u = Some w" "ses_AccountID w \<noteq> a" by auto
    with uniq w(2,3) show "(\<exists>t v. sm_byToken m t = Some v \<and> ses_Bound v \<and> ses_ConnID v = c) \<and>
        \<not> (\<exists>u w. sm_byToken m u = Some w \<and> ses_AccountID w = a \<and> ses_Bound w \<and> ses_ConnID w = c)" by blast
  next
    assume "(\<exists>t v. sm_byToken m t = Some v \<and> ses_Bound v \<and> ses_ConnID v = c) \<and>
        \<not> (\<exists>u w. sm_byToken m u = Some w \<and> ses_AccountID w = a \<and> ses_Bound w \<and> ses_ConnID w = c)"
    then obtain u w where w: "sm_byToken m u = Some w" "ses_AccountID w \<noteq> a" "ses_Bound w" "ses_ConnID w = c" by blast
    have "sm_byToken m' u = Some w" using tok [of u w] old_token [OF w(1)] w(1,2) by simp
    with w(3,4) show "\<exists>t v. sm_byToken m' t = Some v \<and> ses_Bound v \<and> ses_ConnID v = c" by blast
  qed
qed

lemma svc_ok_Issue:
  assumes ok: "svc_ok {} s" and run: "Issue (sv_sessions s) a p ttl random now = (Inr (v, old), m)"
    and fresh: "\<And>token. createToken random = Inr token \<Longrightarrow> sm_byToken (sv_sessions s) token = None"
  shows "svc_ok (old_conns old) (s\<lparr>sv_sessions := m\<rparr>)"
proof -
  have inv: "session_inv m" using session_inv_Issue [OF svc_okD(1) [OF ok] run fresh] .
  show ?thesis
    by (rule svc_ok_sessions [OF ok inv]) (rule Issue_byConnID [OF svc_okD(1) [OF ok] run inv fresh])
qed

text \<open>The outcome of a login.\<close>

definition dropOld :: "Session option \<Rightarrow> 'st Service \<Rightarrow> 'p conn_store \<Rightarrow> 'st Service \<times> 'p conn_store" where
  "dropOld old s w =
     (case old of
        None \<Rightarrow> (s, w)
      | Some v \<Rightarrow> if ses_Bound v then disconnectLocked (ses_ConnID v) True s w else (s, w))"

lemma loadOrCreate_frame: "loadOrCreate S ctx i a now s = (r, s1) \<Longrightarrow> \<exists>st. s1 = s\<lparr>sv_store := st\<rparr>"
proof -
  assume run: "loadOrCreate S ctx i a now s = (r, s1)"
  have keep: "s = s\<lparr>sv_store := sv_store s\<rparr>" by simp
  show ?thesis
  proof (cases "st_Load S ctx i (sv_store s)")
    case (Inl e)
    then show ?thesis
      using run keep by (auto simp: loadOrCreate_def Let_def split: if_splits option.splits prod.splits) (metis keep)+
  next
    case (Inr p)
    with run have "s1 = s\<lparr>sv_store := sv_store s\<rparr>" by (simp add: loadOrCreate_def)
    then show ?thesis by blast
  qed
qed

lemma ServiceLogin_result:
  assumes run: "ServiceLogin bc S ctx accountID password now1 random now2 s w = (r, s', w')"
  obtains (refused) e st where "r = Inl e" "s' = s\<lparr>sv_store := st\<rparr>" "w' = w"
  | (granted) account v old m st where "sv_accounts s accountID = Some account"
      "bc_Compare bc (ac_PasswordHash account) password = None" "0 < length password" "length password \<le> 72"
      "\<not> sv_closed s"
      "Issue (sv_sessions s) accountID (ac_PlayerID account) (sv_ttl s) random now2 = (Inr (v, old), m)"
      "r = Inr \<lparr> lr_Token = ses_Token v, lr_PlayerID = ses_PlayerID v, lr_ExpiresAt = ses_ExpiresAt v \<rparr>"
      "dropOld old (s\<lparr>sv_store := st, sv_sessions := m\<rparr>) w = (s', w')"
proof (cases "\<exists>account. sv_accounts s accountID = Some account \<and>
    bc_Compare bc (ac_PasswordHash account) password = None \<and> 0 < length password \<and> length password \<le> 72 \<and> \<not> sv_closed s")
  case False
  then have "ServiceLogin bc S ctx accountID password now1 random now2 s w = (Inl ErrUnauthorized, s, w)"
    by (auto simp: ServiceLogin_def Let_def not_less split: option.split)
  with run have "r = Inl ErrUnauthorized" "s' = s\<lparr>sv_store := sv_store s\<rparr>" "w' = w" by simp_all
  then show ?thesis by (rule refused)
next
  case True
  then obtain account where a: "sv_accounts s accountID = Some account"
    "bc_Compare bc (ac_PasswordHash account) password = None" "0 < length password" "length password \<le> 72" "\<not> sv_closed s"
    by blast
  obtain pr s1 where load: "loadOrCreate S ctx (ac_PlayerID account) accountID now1 s = (pr, s1)" by fastforce
  obtain st where s1: "s1 = s\<lparr>sv_store := st\<rparr>" using loadOrCreate_frame [OF load] by blast
  obtain ir m where issue: "Issue (sv_sessions s) accountID (ac_PlayerID account) (sv_ttl s) random now2 = (ir, m)"
    by fastforce
  note steps = run a load s1 issue
  show ?thesis
  proof (cases "\<exists>player v old. pr = Inr (Some player) \<and> pl_AccountID player = accountID \<and> ir = Inr (v, old)")
    case True
    then obtain player v old where p: "pr = Inr (Some player)" "pl_AccountID player = accountID" "ir = Inr (v, old)"
      by blast
    have "r = Inr \<lparr> lr_Token = ses_Token v, lr_PlayerID = ses_PlayerID v, lr_ExpiresAt = ses_ExpiresAt v \<rparr>"
      "dropOld old (s\<lparr>sv_store := st, sv_sessions := m\<rparr>) w = (s', w')"
      using steps p by (auto simp: ServiceLogin_def Let_def dropOld_def split: prod.splits)
    with a issue p show ?thesis by (intro granted) auto
  next
    case False
    have "s\<lparr>sv_store := st, sv_sessions := m\<rparr> = s\<lparr>sv_store := st\<rparr>" if "ir = Inl e" for e
      using issue that Issue_Inl [of "sv_sessions s" accountID "ac_PlayerID account" "sv_ttl s" random now2 e m] by simp
    then have "\<exists>e. r = Inl e \<and> s' = s\<lparr>sv_store := st\<rparr> \<and> w' = w"
      using steps False
      by (cases pr; cases ir) (auto simp: ServiceLogin_def Let_def split: option.splits if_splits prod.splits)
    with refused show ?thesis by blast
  qed
qed

lemma svc_ok_dropOld:
  assumes "svc_ok (old_conns old) s" "dropOld old s w = (s', w')"
  shows "svc_ok {} s'"
proof (cases "\<exists>v. old = Some v \<and> ses_Bound v")
  case True
  then obtain v where v: "old = Some v" "ses_Bound v" by blast
  with assms have "disconnectLocked (ses_ConnID v) True s w = (s', w')" by (simp add: dropOld_def)
  from svc_ok_disconnect(1) [OF assms(1) this] v show ?thesis by (simp add: old_conns_def)
next
  case False
  with assms show ?thesis by (cases old) (auto simp: dropOld_def old_conns_def)
qed

lemma dropOld_sessions:
  assumes "svc_ok (old_conns old) s" "dropOld old s w = (s', w')"
  shows "sv_sessions s' = sv_sessions s" "sv_closed s' = sv_closed s"
proof -
  have "sv_sessions s' = sv_sessions s \<and> sv_closed s' = sv_closed s"
  proof (cases "\<exists>v. old = Some v \<and> ses_Bound v")
    case True
    then obtain v where v: "old = Some v" "ses_Bound v" by blast
    then have "sm_byConnID (sv_sessions s) (ses_ConnID v) = None"
      using authedD(3) [OF svc_okD(5) [OF assms(1)], of "ses_ConnID v"]
      by (cases "sm_byConnID (sv_sessions s) (ses_ConnID v)") (auto simp: old_conns_def)
    then have "snd (LogoutByConnID (sv_sessions s) (ses_ConnID v)) = sv_sessions s"
      by (simp add: LogoutByConnID_def)
    with assms(2) v show ?thesis by (auto simp: dropOld_def disconnectLocked_eq split: option.splits)
  next
    case False
    with assms(2) show ?thesis by (cases old) (auto simp: dropOld_def)
  qed
  then show "sv_sessions s' = sv_sessions s" "sv_closed s' = sv_closed s" by auto
qed

lemma svc_ok_Login:
  assumes ok: "svc_ok {} s" and run: "ServiceLogin bc S ctx a pw now1 random now2 s w = (r, s', w')"
    and fresh: "\<And>token. createToken random = Inr token \<Longrightarrow> sm_byToken (sv_sessions s) token = None"
  shows "svc_ok {} s'"
  using run
proof (cases rule: ServiceLogin_result)
  case (refused e st)
  with svc_ok_frame(1) [OF ok] show ?thesis by simp
next
  case (granted account v old m st)
  have "svc_ok (old_conns old) (s\<lparr>sv_store := st, sv_sessions := m\<rparr>)"
    using svc_ok_Issue [OF svc_ok_frame(1) [OF ok, of st]] granted(6) fresh by simp
  then show ?thesis using granted(8) by (rule svc_ok_dropOld)
qed

text \<open>Sweeping.\<close>

definition bound_conns :: "Session list \<Rightarrow> u32 set" where
  "bound_conns vs = {c. \<exists>v \<in> set vs. ses_Bound v \<and> ses_ConnID v = c}"

lemma svc_ok_dropSessions:
  "svc_ok X s \<Longrightarrow> dropSessions vs s w = (s', w') \<Longrightarrow> svc_ok (X - bound_conns vs) s'"
proof (induction vs arbitrary: X s w)
  case Nil
  then show ?case by (simp add: bound_conns_def)
next
  case (Cons v vs)
  show ?case
  proof (cases "ses_Bound v")
    case True
    obtain s1 w1 where d: "disconnectLocked (ses_ConnID v) True s w = (s1, w1)" by fastforce
    with Cons.prems(2) True have "dropSessions vs s1 w1 = (s', w')" by simp
    from Cons.IH [OF svc_ok_disconnect(1) [OF Cons.prems(1) d] this]
    have "svc_ok (X - {ses_ConnID v} - bound_conns vs) s'" .
    moreover have "X - {ses_ConnID v} - bound_conns vs = X - bound_conns (v # vs)"
      using True by (auto simp: bound_conns_def)
    ultimately show ?thesis by simp
  next
    case False
    then have "bound_conns (v # vs) = bound_conns vs" by (auto simp: bound_conns_def)
    with Cons False show ?thesis by simp
  qed
qed

lemma svc_ok_dropLate: "svc_ok {} s \<Longrightarrow> dropLate now ks s w = (s', w') \<Longrightarrow> svc_ok {} s'"
proof (induction ks arbitrary: s w)
  case (Cons k ks)
  show ?case
  proof (cases "\<exists>cp. sv_connections s k = Some cp \<and> \<not> IsZero (cp_authDeadline cp) \<and> \<not> now < cp_authDeadline cp")
    case True
    obtain s1 w1 where d: "disconnectLocked k True s w = (s1, w1)" by fastforce
    with Cons.prems(2) True have "dropLate now ks s1 w1 = (s', w')" by auto
    with Cons.IH svc_ok_disconnect(1) [OF Cons.prems(1) d] show ?thesis by simp
  next
    case False
    with Cons.prems(2) have "dropLate now ks s w = (s', w')" by (auto split: option.splits if_splits)
    with Cons.IH Cons.prems(1) show ?thesis by blast
  qed
qed simp

lemma svc_ok_dropAll:
  "svc_ok {} s \<Longrightarrow> dropAll ks s w = (s', w') \<Longrightarrow>
     svc_ok {} s' \<and> sv_connections s' = (\<lambda>k. if k \<in> set ks then None else sv_connections s k) \<and> sv_closed s' = sv_closed s"
proof (induction ks arbitrary: s w)
  case (Cons k ks)
  obtain s1 w1 where d: "disconnectLocked k True s w = (s1, w1)" by fastforce
  with Cons.prems(2) have "dropAll ks s1 w1 = (s', w')" by simp
  with Cons.IH svc_ok_disconnect [OF Cons.prems(1) d] show ?case by (fastforce simp: fun_eq_iff)
qed simp

lemma dropAll_stops:
  "dropAll ks s w = (s', w') \<Longrightarrow> distinct ks \<Longrightarrow>
     w' = stopAll (List.map_filter (\<lambda>k. map_option cp_connection (sv_connections s k)) ks) w"
proof (induction ks arbitrary: s w)
  case (Cons k ks)
  obtain s1 w1 where d: "disconnectLocked k True s w = (s1, w1)" by fastforce
  with Cons.prems(1) have rest: "dropAll ks s1 w1 = (s', w')" by simp
  have s1: "sv_connections s1 = (sv_connections s)(k := None)"
    "w1 = (case sv_connections s k of None \<Rightarrow> w | Some cp \<Rightarrow> storeStop (cp_connection cp) w)"
    using d by (auto simp: disconnectLocked_eq fun_upd_idem split: option.splits)
  have "List.map_filter (\<lambda>k. map_option cp_connection (sv_connections s1 k)) ks =
      List.map_filter (\<lambda>k. map_option cp_connection (sv_connections s k)) ks"
    using Cons.prems(2) unfolding map_filter_def by (intro arg_cong2 [where f = map] filter_cong map_cong) (auto simp: s1(1))
  then have "w' = stopAll (List.map_filter (\<lambda>k. map_option cp_connection (sv_connections s k)) ks) w1"
    using Cons.IH [OF rest] Cons.prems(2) by simp
  then show ?case by (simp add: s1(2) map_filter_simps split: option.split)
qed (simp add: map_filter_simps)

lemma RemoveExpired_byConnID:
  assumes inv: "session_inv m" and ord: "map_order (sm_byToken m) order"
    and run: "RemoveExpired order now m = (gone, m')"
  shows "session_inv m'" "sm_byConnID m' c \<noteq> None \<longleftrightarrow> sm_byConnID m c \<noteq> None \<and> c \<notin> bound_conns gone"
proof -
  obtain m1 where m1: "RemoveExpired order now m =
      (map (\<lambda>t. the (sm_byToken m t)) (filter (\<lambda>t. expired (the (sm_byToken m t)) now) order), m1)"
      "session_inv m1" "sm_byToken m1 = (\<lambda>t. case sm_byToken m t of
        Some s \<Rightarrow> if expired s now then None else Some s | None \<Rightarrow> None)"
    by (rule RemoveExpired_spec [OF inv ord, of now])
  show inv': "session_inv m'" using m1 run by simp
  have tok: "sm_byToken m' t = Some v \<longleftrightarrow> sm_byToken m t = Some v \<and> \<not> expired v now" for t v
    using m1 run by (auto split: option.splits if_splits)
  have mem: "v \<in> set gone \<longleftrightarrow> (\<exists>t. sm_byToken m t = Some v \<and> expired v now)" for v
  proof
    assume "v \<in> set gone"
    then obtain t where t: "t \<in> set order" "expired (the (sm_byToken m t)) now" "v = the (sm_byToken m t)"
      using m1(1) run by auto
    from t(1) ord obtain u where "sm_byToken m t = Some u" unfolding map_order_def by blast
    with t show "\<exists>t. sm_byToken m t = Some v \<and> expired v now" by auto
  next
    assume "\<exists>t. sm_byToken m t = Some v \<and> expired v now"
    then obtain t where t: "sm_byToken m t = Some v" "expired v now" by blast
    then have "t \<in> set order" using ord unfolding map_order_def by blast
    with t have t': "t \<in> set (filter (\<lambda>t. expired (the (sm_byToken m t)) now) order)" by simp
    have gone: "gone = map (\<lambda>t. the (sm_byToken m t)) (filter (\<lambda>t. expired (the (sm_byToken m t)) now) order)"
      using m1(1) run by simp
    show "v \<in> set gone" unfolding gone set_map by (rule image_eqI [OF _ t']) (simp add: t(1))
  qed
  have uniq: "w = w'" if "sm_byToken m u = Some w" "sm_byToken m u' = Some w'" "ses_Bound w" "ses_Bound w'"
    "ses_ConnID w = ses_ConnID w'" for u u' w w'
    using session_eq_by_index [OF inv that(1,2)] that by (metis option.inject)
  show "sm_byConnID m' c \<noteq> None \<longleftrightarrow> sm_byConnID m c \<noteq> None \<and> c \<notin> bound_conns gone"
    unfolding byConnID_iff [OF inv] byConnID_iff [OF inv'] bound_conns_def Bex_def mem mem_Collect_eq tok
    using uniq by blast
qed

lemma svc_ok_Sweep:
  assumes ok: "svc_ok {} s" and ord: "map_order (sm_byToken (sv_sessions s)) order"
    and run: "Sweep order ks now s w = (s', w')"
  shows "svc_ok {} s'"
proof -
  obtain gone m where re: "RemoveExpired order now (sv_sessions s) = (gone, m)" by fastforce
  obtain s1 w1 where ds: "dropSessions gone (s\<lparr>sv_sessions := m\<rparr>) w = (s1, w1)" by fastforce
  have "svc_ok (bound_conns gone) (s\<lparr>sv_sessions := m\<rparr>)"
    by (rule svc_ok_sessions [OF ok]) (use RemoveExpired_byConnID [OF svc_okD(1) [OF ok] ord re] in auto)
  from svc_ok_dropSessions [OF this ds] have "svc_ok {} s1" by simp
  moreover have "dropLate now ks s1 w1 = (s', w')" using run re ds by (simp add: Sweep_def)
  ultimately show ?thesis by (rule svc_ok_dropLate)
qed

section \<open>The service as a step system\<close>

definition fresh_svc :: "'st Service \<Rightarrow> bool" where
  "fresh_svc s \<longleftrightarrow> sv_connections s = Map.empty \<and> session_inv (sv_sessions s) \<and> sm_byConnID (sv_sessions s) = Map.empty \<and>
     room_inv (sv_rooms s) \<and> (\<forall>i M. membersOf s i = Some M \<longrightarrow> i \<noteq> 0 \<and> M = Map.empty)"

lemma fresh_svc_ok: "fresh_svc s \<Longrightarrow> svc_ok {} s"
  by (auto simp: fresh_svc_def svc_ok_def conns_filed_def rooms_match_def authed_def visitors_def fun_eq_iff)

lemma addAccounts_frame:
  "addAccounts bc as players s = Inr s' \<Longrightarrow> sv_connections s' = sv_connections s \<and> sv_sessions s' = sv_sessions s \<and>
     sv_rooms s' = sv_rooms s \<and> sv_closed s' = sv_closed s"
  by (induction as arbitrary: players s) (auto split: if_splits sum.splits)

lemma fresh_svc_room:
  assumes "fresh_svc s" "CreateRoom i n (sv_rooms s) = (Inr room, rg)" "i \<noteq> 0"
  shows "fresh_svc (s\<lparr>sv_rooms := rg, sv_roomIDs := ids\<rparr>)"
proof -
  have inv: "room_inv (sv_rooms s)" using assms(1) by (simp add: fresh_svc_def)
  have new: "rg_rooms (sv_rooms s) i = None" and rg: "rg = (sv_rooms s)\<lparr>rg_rooms := (rg_rooms (sv_rooms s))(i \<mapsto> room),
      rg_heap := (rg_heap (sv_rooms s))(room \<mapsto> NewRoom i n), rg_next := Suc room\<rparr>" and next_room: "room = rg_next (sv_rooms s)"
    using assms(2) by (auto simp: CreateRoom_def Let_def split: if_splits)
  have "room_inv rg" using room_inv_Create [OF inv, of i n] assms(2) by simp
  moreover have "rg_rooms (sv_rooms s) j \<noteq> Some room" for j
    using room_inv_rooms [OF inv, of j room] room_inv_heap [OF inv, of room] next_room by fastforce
  then have "membersOf (s\<lparr>sv_rooms := rg, sv_roomIDs := ids\<rparr>) j = (if j = i then Some Map.empty else membersOf s j)" for j
    by (auto simp: membersOf_def rg NewRoom_def split: option.split)
  ultimately show ?thesis using assms(1,3) by (auto simp: fresh_svc_def split: if_splits)
qed

lemma fresh_svc_addRooms: "addRooms rooms s = Inr s' \<Longrightarrow> fresh_svc s \<Longrightarrow> fresh_svc s' \<and> sv_closed s' = sv_closed s"
proof (induction rooms arbitrary: s)
  case (Cons room rooms)
  obtain r rg where c: "CreateRoom (rc_ID room) (rc_MaxPlayers room) (sv_rooms s) = (r, rg)" by fastforce
  with Cons.prems(1) obtain x where x: "r = Inr x" "rc_ID room \<noteq> 0"
    "addRooms rooms (s\<lparr>sv_rooms := rg, sv_roomIDs := sv_roomIDs s @ [rc_ID room]\<rparr>) = Inr s'"
    by (auto split: if_splits sum.splits)
  from Cons.IH [OF x(3)] fresh_svc_room [OF Cons.prems(2)] c x(1,2) show ?case by simp
qed simp

lemma fresh_svc_roomIDs: "fresh_svc s \<Longrightarrow> fresh_svc (s\<lparr>sv_roomIDs := ids\<rparr>)"
  by (auto simp: fresh_svc_def membersOf_def split: option.splits)

lemma NewService_fresh:
  assumes "NewService bc accounts store ttl rooms = Inr s"
  shows "fresh_svc s" "\<not> sv_closed s"
proof -
  obtain st m s1 s2 where st: "store = Some st" and m: "New ReplaceExisting = Inr m"
    and s1: "addAccounts bc accounts {} \<lparr> sv_accounts = Map.empty, sv_dummyHash = [], sv_sessions = m, sv_store = st,
        sv_rooms = NewRoomManager, sv_roomIDs = [], sv_connections = Map.empty, sv_ttl = ttl, sv_closed = False \<rparr> = Inr s1"
    and s2: "addRooms rooms s1 = Inr s2" and s: "s = s2\<lparr>sv_roomIDs := sort (sv_roomIDs s2)\<rparr>"
    using assms by (auto simp: NewService_def split: option.splits if_splits sum.splits)
  have "room_inv NewRoomManager" by (simp add: room_inv_def NewRoomManager_def)
  then have "fresh_svc s1"
    using addAccounts_frame [OF s1] New_Inr [OF m] session_inv_New [OF m]
    by (auto simp: fresh_svc_def membersOf_def NewRoomManager_def)
  then show "fresh_svc s" "\<not> sv_closed s"
    using fresh_svc_addRooms [OF s2] addAccounts_frame [OF s1] by (simp_all add: s fresh_svc_roomIDs)
qed

text \<open>
  The steps: the calls of the HTTP handlers, the TCP routers and the hooks. A random token is new; the
  hook announces a connection once; a call that changes a player's progress changes only the store; in between,
  the connections run on their own.
\<close>

inductive svc_step :: "'st Service \<times> 'p conn_store \<Rightarrow> 'st Service \<times> 'p conn_store \<Rightarrow> bool" where
  login: "\<lbrakk>\<And>token. createToken random = Inr token \<Longrightarrow> sm_byToken (sv_sessions s) token = None;
      ServiceLogin bc S ctx accountID password now1 random now2 s w = (r, s', w')\<rbrakk> \<Longrightarrow> svc_step (s, w) (s', w')"
| connected: "\<lbrakk>sv_connections s (ic_connID conn) = None; now + 30000000000 \<noteq> 0; Connected now conn s w = (s', w')\<rbrakk>
    \<Longrightarrow> svc_step (s, w) (s', w')"
| disconnected: "Disconnected conn s w = (s', w') \<Longrightarrow> svc_step (s, w) (s', w')"
| authenticate: "Authenticate connID token now now1 now2 s = (a, s') \<Longrightarrow> svc_step (s, w) (s', w)"
| join: "ServiceJoin connID roomID now s = (j, s') \<Longrightarrow> svc_step (s, w) (s', w)"
| leave: "ServiceLeave connID now s = (l, s') \<Longrightarrow> svc_step (s, w) (s', w)"
| progress: "svc_step (s, w) (s\<lparr>sv_store := st\<rparr>, w)"
| sweep: "\<lbrakk>map_order (sm_byToken (sv_sessions s)) order; Sweep order ks now s w = (s', w')\<rbrakk> \<Longrightarrow> svc_step (s, w) (s', w')"
| close: "ServiceClose ks s w = (s', w') \<Longrightarrow> svc_step (s, w) (s', w')"
| network: "svc_step (s, w) (s, w')"

definition svc_init :: "'st Service \<times> 'p conn_store \<Rightarrow> bool" where
  "svc_init sw \<longleftrightarrow> (\<exists>bc accounts store ttl rooms. NewService bc accounts store ttl rooms = Inr (fst sw))"

lemma svc_ok_Close:
  assumes "svc_ok {} s" "ServiceClose ks s w = (s', w')"
  shows "svc_ok {} s'"
  using svc_ok_dropAll [OF svc_ok_frame(2) [OF assms(1), of True]] assms(2) by (auto simp: ServiceClose_def)

lemma svc_ok_Disconnected:
  assumes "svc_ok {} s" "Disconnected conn s w = (s', w')"
  shows "svc_ok {} s'"
  using svc_ok_disconnect(1) [OF assms(1)] assms(2) by (auto simp: Disconnected_def)

interpretation svc: invariant_system svc_init svc_step "\<lambda>sw. svc_ok {} (fst sw)"
proof
  show "svc_init sw \<Longrightarrow> svc_ok {} (fst sw)" for sw :: "'a Service \<times> 'b conn_store"
    by (auto simp: svc_init_def intro: fresh_svc_ok NewService_fresh)
  show "svc_ok {} (fst sw')" if "svc_ok {} (fst sw)" "svc_step sw sw'" for sw sw' :: "'a Service \<times> 'b conn_store"
    using that(2,1)
  proof (cases rule: svc_step.cases)
    case (login random s bc S ctx accountID password now1 now2 w r s' w')
    then have "svc_ok {} s" using that(1) by simp
    from svc_ok_Login [OF this login(4) login(3)] login(2) show ?thesis by simp
  next
    case (connected s conn now w s' w')
    then show ?thesis using svc_ok_Connected that(1) by auto
  next
    case (sweep s order ks now w s' w')
    then show ?thesis using svc_ok_Sweep that(1) by auto
  qed (use that(1) in \<open>auto intro: svc_ok_Disconnected svc_ok_Authenticate svc_ok_Join svc_ok_Leave svc_ok_frame svc_ok_Close\<close>)
qed

lemma disconnect_members:
  assumes "svc_ok X s" "disconnectLocked k stop s w = (s', w')" "membersOf s' i = Some M"
  shows "M k = None"
proof -
  have "svc_ok (X - {k}) s'" "sv_connections s' k = None"
    using svc_ok_disconnect [OF assms(1,2)] by simp_all
  with assms(3) show ?thesis using rooms_matchD(1) [OF svc_okD(4)] by (fastforce simp: visitors_def)
qed

lemma sessionLocked_iff:
  "sessionLocked t now s = Inr v \<longleftrightarrow> \<not> sv_closed s \<and> sm_byToken (sv_sessions s) t = Some v \<and> \<not> expired v now"
  by (auto simp: sessionLocked_def GetByToken_def split: option.splits)

text \<open>A closed service without connections stays that way.\<close>

definition closed_svc :: "'st Service \<Rightarrow> bool" where
  "closed_svc s \<longleftrightarrow> sv_closed s \<and> sv_connections s = Map.empty"

lemma drop_nothing:
  assumes "sv_connections s = Map.empty"
  shows "disconnectLocked k b s w = (s, w)" "dropSessions vs s w = (s, w)" "dropLate now ks s w = (s, w)"
    "dropAll ks s w = (s, w)"
proof -
  show d: "disconnectLocked k b s w = (s, w)" for k b using assms by (simp add: disconnectLocked_def)
  show "dropSessions vs s w = (s, w)" by (induction vs) (simp_all add: d)
  show "dropLate now ks s w = (s, w)" using assms by (induction ks) simp_all
  show "dropAll ks s w = (s, w)" by (induction ks) (simp_all add: d)
qed

lemma closed_svc_step:
  assumes "svc_step sw sw'" "closed_svc (fst sw)"
  shows "closed_svc (fst sw')"
  using assms
proof (cases rule: svc_step.cases)
  case (login random s bc S ctx accountID password now1 now2 w r s' w')
  from login(4) have "\<exists>st. s' = s\<lparr>sv_store := st\<rparr>"
    by (cases rule: ServiceLogin_result) (use login(1) assms(2) in \<open>auto simp: closed_svc_def\<close>)
  with login assms(2) show ?thesis by (auto simp: closed_svc_def)
next
  case (sweep s order ks now w s' w')
  then have "sv_connections s = Map.empty" using assms(2) by (simp add: closed_svc_def)
  with sweep assms(2) show ?thesis by (auto simp: Sweep_def drop_nothing closed_svc_def split: prod.splits)
qed (use assms(2) in \<open>auto simp: closed_svc_def Connected_def Disconnected_def drop_nothing Authenticate_def
       ServiceJoin_def ServiceLeave_def authenticatedLocked_def ServiceClose_def\<close>)

end
