(* ===== verification/GameService.thy ===== *)
theory GameService
  imports GameApp
begin

text \<open>
  Properties of the application service of \<open>examples/gameapp/service.go\<close>, stated over its reachable
  states: the agreement of rooms, sessions and connections, the atomicity of joining, the takeover of
  an account by a new login and the finality of closing. A concrete service with one account and one
  room shows that their hypotheses can hold.
\<close>

section \<open>A concrete service\<close>

text \<open>One account, one room for two, and a player that connects, logs in, authenticates and joins.\<close>

definition demo_bc :: bcrypt where
  "demo_bc = \<lparr> bc_Cost = (\<lambda>h. Inr 10),
     bc_Compare = (\<lambda>h p. if p = ''secret'' then None else Some (Err ''hashedPassword is not the hash of the given password'')) \<rparr>"

definition demo_ops :: "MemoryStore store_ops" where
  "demo_ops = \<lparr> st_Load = MemoryLoad, st_Save = MemorySave \<rparr>"

definition demo_account :: Account where
  "demo_account = \<lparr> ac_AccountID = ''ann'', ac_PlayerID = 5, ac_PasswordHash = ''hash'' \<rparr>"

definition demo_sessions :: Manager where
  "demo_sessions = \<lparr> sm_legacy = None, sm_accountPolicy = ReplaceExisting, sm_byToken = Map.empty,
     sm_byAccountID = Map.empty, sm_byPlayerID = Map.empty, sm_byConnID = Map.empty \<rparr>"

definition demo_svc :: "MemoryStore Service" where
  "demo_svc = \<lparr> sv_accounts = [''ann'' \<mapsto> demo_account], sv_dummyHash = ''hash'', sv_sessions = demo_sessions,
     sv_store = NewMemoryStore, sv_rooms = \<lparr> rg_rooms = [1 \<mapsto> 0], rg_heap = [0 \<mapsto> NewRoom 1 2], rg_next = 1 \<rparr>,
     sv_roomIDs = [1], sv_connections = Map.empty, sv_ttl = 1000, sv_closed = False \<rparr>"

definition demo_client :: iconn where
  "demo_client = \<lparr> ic_ref = 0, ic_connID = 7 \<rparr>"

definition demo_random :: "bytes res" where
  "demo_random = Inr [1, 2]"

definition demo_secret :: string where
  "demo_secret = hexEncode [1, 2]"

definition demo_login :: Session where
  "demo_login = fresh_session demo_secret ''ann'' 5 1000 6"

definition demo_svc1 :: "MemoryStore Service" where
  "demo_svc1 = demo_svc\<lparr>sv_connections := [7 \<mapsto>
     \<lparr> cp_connection = demo_client, cp_roomID = 0, cp_authDeadline = 30000000005 \<rparr>]\<rparr>"

definition demo_svc2 :: "MemoryStore Service" where
  "demo_svc2 = demo_svc1\<lparr>sv_store := \<lparr> ms_players = [5 \<mapsto> Some \<lparr> pl_PlayerID = 5, pl_AccountID = ''ann'', pl_Data = [], pl_UpdatedAt = 6 \<rparr>] \<rparr>,
     sv_sessions := demo_sessions\<lparr>sm_byToken := [demo_secret \<mapsto> demo_login],
       sm_byAccountID := [''ann'' \<mapsto> demo_secret], sm_byPlayerID := [5 \<mapsto> demo_secret]\<rparr>\<rparr>"

definition demo_bound :: Session where
  "demo_bound = demo_login\<lparr>ses_ConnID := 7, ses_Bound := True, ses_UpdatedAt := 7\<rparr>"

definition demo_svc3 :: "MemoryStore Service" where
  "demo_svc3 = demo_svc2\<lparr>sv_sessions := (sv_sessions demo_svc2)\<lparr>sm_byToken := [demo_secret \<mapsto> demo_bound], sm_byConnID := [7 \<mapsto> demo_secret]\<rparr>,
     sv_connections := [7 \<mapsto> \<lparr> cp_connection = demo_client, cp_roomID = 0, cp_authDeadline = 0 \<rparr>]\<rparr>"

definition demo_svc4 :: "MemoryStore Service" where
  "demo_svc4 = demo_svc3\<lparr>sv_rooms := \<lparr> rg_rooms = [1 \<mapsto> 0], rg_heap = [0 \<mapsto> (NewRoom 1 2)\<lparr>rm_members := [7 \<mapsto> demo_client]\<rparr>], rg_next = 1 \<rparr>,
     sv_connections := [7 \<mapsto> \<lparr> cp_connection = demo_client, cp_roomID = 1, cp_authDeadline = 0 \<rparr>]\<rparr>"

lemma demo_new_service:
  "NewService demo_bc [demo_account] (Some NewMemoryStore) 1000 [\<lparr> rc_ID = 1, rc_MaxPlayers = 2 \<rparr>] = Inr demo_svc"
  by (simp add: NewService_def New_def RejectExisting_def ReplaceExisting_def demo_bc_def MinCost_def CreateRoom_def
      NewRoomManager_def demo_svc_def demo_account_def demo_sessions_def)

lemma demo_svc_run:
  "Connected 5 demo_client demo_svc w = (demo_svc1, w)"
  "ServiceLogin demo_bc demo_ops None ''ann'' ''secret'' 6 demo_random 6 demo_svc1 w =
     (Inr \<lparr> lr_Token = demo_secret, lr_PlayerID = 5, lr_ExpiresAt = 1006 \<rparr>, demo_svc2, w)"
  "Authenticate 7 demo_secret 7 7 7 demo_svc2 = (Inr 5, demo_svc3)"
  "ServiceJoin 7 1 8 demo_svc3 =
     (Inr \<lparr> rv_ID = 1, rv_MaxPlayers = 2, rv_Players = 1, rv_State = ''waiting'' \<rparr>, demo_svc4)"
proof -
  show "Connected 5 demo_client demo_svc w = (demo_svc1, w)"
    by (simp add: Connected_def demo_svc1_def demo_svc_def demo_client_def)
  have "Issue demo_sessions ''ann'' 5 1000 demo_random 6 =
      (Inr (demo_login, None), demo_sessions\<lparr>sm_byToken := [demo_secret \<mapsto> demo_login],
       sm_byAccountID := [''ann'' \<mapsto> demo_secret], sm_byPlayerID := [5 \<mapsto> demo_secret]\<rparr>)"
    by (simp add: Issue_def demo_sessions_def demo_random_def createToken_def demo_secret_def demo_login_def
        fresh_session_def observeLegacyID_def Let_def)
  then show "ServiceLogin demo_bc demo_ops None ''ann'' ''secret'' 6 demo_random 6 demo_svc1 w =
     (Inr \<lparr> lr_Token = demo_secret, lr_PlayerID = 5, lr_ExpiresAt = 1006 \<rparr>, demo_svc2, w)"
    by (simp add: ServiceLogin_def loadOrCreate_def demo_svc1_def demo_svc_def demo_account_def demo_bc_def demo_ops_def
        MemoryLoad_def MemorySave_def contextError_def NewMemoryStore_def ErrPlayerNotFound_def demo_svc2_def Let_def)
      (simp add: demo_login_def)
  show "Authenticate 7 demo_secret 7 7 7 demo_svc2 = (Inr 5, demo_svc3)"
    by (simp add: Authenticate_def demo_svc2_def demo_svc1_def demo_svc_def Bind_def demo_sessions_def expired_def
        demo_svc3_def demo_bound_def demo_login_def fresh_session_def Let_def)
  show "ServiceJoin 7 1 8 demo_svc3 =
     (Inr \<lparr> rv_ID = 1, rv_MaxPlayers = 2, rv_Players = 1, rv_State = ''waiting'' \<rparr>, demo_svc4)"
    by (simp add: ServiceJoin_def authenticatedLocked_def GetByConnID_def demo_svc3_def demo_svc2_def demo_svc1_def
        demo_svc_def demo_sessions_def demo_bound_def demo_login_def fresh_session_def expired_def GetRoom_def roomCall_def
        Join_def NewRoom_def demo_client_def roomView_def PlayerCount_def map_len_insert RoomState_String_def State_def
        demo_svc4_def)
qed

lemma demo_svc_reach:
  "reach svc_init svc_step (demo_svc, w)" "reach svc_init svc_step (demo_svc1, w)"
  "reach svc_init svc_step (demo_svc2, w)" "reach svc_init svc_step (demo_svc3, w)" "reach svc_init svc_step (demo_svc4, w)"
proof -
  show 0: "reach svc_init svc_step (demo_svc, w)"
    using demo_new_service by (intro reach_init) (unfold svc_init_def fst_conv, blast)
  have "sv_connections demo_svc (ic_connID demo_client) = None" by (simp add: demo_svc_def)
  then show 1: "reach svc_init svc_step (demo_svc1, w)"
    by (rule reach_step [OF 0 svc_step.connected [OF _ _ demo_svc_run(1)]]) simp
  have "sm_byToken (sv_sessions demo_svc1) token = None" for token
    by (simp add: demo_svc1_def demo_svc_def demo_sessions_def)
  then show 2: "reach svc_init svc_step (demo_svc2, w)"
    by (rule reach_step [OF 1 svc_step.login [OF _ demo_svc_run(2)]])
  show 3: "reach svc_init svc_step (demo_svc3, w)" by (rule reach_step [OF 2 svc_step.authenticate [OF demo_svc_run(3)]])
  show "reach svc_init svc_step (demo_svc4, w)" by (rule reach_step [OF 3 svc_step.join [OF demo_svc_run(4)]])
qed

section \<open>Properties of the service\<close>

text \<open>C18: in every reachable state the members of a room are exactly the connected players that believe to
  be in it, each with a session bound to that connection; a room is never over its capacity, and a
  connection is in at most one room.\<close>
theorem service_rooms_consistent:
  assumes "reach svc_init svc_step (s, w)" "GetRoom roomID (sv_rooms s) = Inr room"
  shows "\<exists>r. rg_heap (sv_rooms s) room = Some r \<and> rm_ID r = roomID \<and>
    (rm_MaxPlayers r > 0 \<longrightarrow> int (PlayerCount r) \<le> rm_MaxPlayers r) \<and>
    (\<forall>k i. rm_members r k = Some i \<longleftrightarrow>
       (\<exists>cp. sv_connections s k = Some cp \<and> cp_roomID cp = roomID \<and> cp_connection cp = i)) \<and>
    (\<forall>k i. rm_members r k = Some i \<longrightarrow>
       (\<exists>v. v \<in> ran (sm_byToken (sv_sessions s)) \<and> ses_Bound v \<and> ses_ConnID v = k)) \<and>
    (\<forall>k i other room' r'. rm_members r k = Some i \<longrightarrow> GetRoom other (sv_rooms s) = Inr room' \<longrightarrow>
       rg_heap (sv_rooms s) room' = Some r' \<longrightarrow> rm_members r' k \<noteq> None \<longrightarrow> other = roomID)"
proof -
  have ok: "svc_ok {} s" using svc.reach_inv [OF assms(1)] by simp
  note D = svc_okD [OF ok]
  obtain r where r: "rg_heap (sv_rooms s) room = Some r" "rm_members r = visitors s roomID" "roomID \<noteq> 0" "rm_ID r = roomID"
    using registered_room [OF ok assms(2)] by blast
  have mem: "rm_members r k = Some i \<longleftrightarrow> (\<exists>cp. sv_connections s k = Some cp \<and> cp_roomID cp = roomID \<and> cp_connection cp = i)" for k i
    by (auto simp: r(2) visitors_def split: option.splits)
  have "\<exists>v. v \<in> ran (sm_byToken (sv_sessions s)) \<and> ses_Bound v \<and> ses_ConnID v = k" if "rm_members r k = Some i" for k i
  proof -
    from that mem obtain cp where cp: "sv_connections s k = Some cp" "cp_roomID cp = roomID" by blast
    then have "sm_byConnID (sv_sessions s) k \<noteq> None"
      using authedD(1,2) [OF D(5) cp(1)] r(3) by simp
    then show ?thesis using byConnID_iff [OF D(1)] by (metis ranI)
  qed
  moreover have "other = roomID" if o: "rm_members r k = Some i" "GetRoom other (sv_rooms s) = Inr room'"
    "rg_heap (sv_rooms s) room' = Some r'" "rm_members r' k \<noteq> None" for k i other room' r'
  proof -
    obtain r'' where "rg_heap (sv_rooms s) room' = Some r''" "rm_members r'' = visitors s other"
      using registered_room [OF ok o(2)] by blast
    with o(3,4) obtain cp where "sv_connections s k = Some cp" "cp_roomID cp = other"
      by (auto simp: visitors_def split: option.splits if_splits)
    with o(1) mem show ?thesis by auto
  qed
  moreover have "rm_MaxPlayers r > 0 \<longrightarrow> int (PlayerCount r) \<le> rm_MaxPlayers r"
    using room_inv_heap [OF D(2) r(1)] by (simp add: room_ok_def PlayerCount_def)
  ultimately show ?thesis using r(1,4) mem by blast
qed

text \<open>joining is all or nothing: a refused request changes nothing, and after a successful one the
  connection is a member of the room asked for and of no other room.\<close>
theorem service_join_all_or_nothing:
  assumes "reach svc_init svc_step (s, w)" "ServiceJoin k roomID now s = (r, s')"
  shows "(\<forall>e. r = Inl e \<longrightarrow> s' = s) \<and>
    (\<forall>view. r = Inr view \<longrightarrow>
       (\<forall>i room rm. GetRoom i (sv_rooms s') = Inr room \<longrightarrow> rg_heap (sv_rooms s') room = Some rm \<longrightarrow>
          (rm_members rm k \<noteq> None \<longleftrightarrow> i = roomID)) \<and>
       (\<exists>room. GetRoom roomID (sv_rooms s') = Inr room))"
proof -
  have ok: "svc_ok {} s" using svc.reach_inv [OF assms(1)] by simp
  have ok': "svc_ok {} s'" using svc_ok_Join [OF ok assms(2)] .
  have in_room: "(rm_members rm k \<noteq> None \<longleftrightarrow> i = roomID)"
    if "sv_connections s' k = Some cp" "cp_roomID cp = roomID" "GetRoom i (sv_rooms s') = Inr room" "rg_heap (sv_rooms s') room = Some rm"
    for cp i room rm
    using registered_room [OF ok' that(3)] that by (fastforce simp: visitors_def)
  have known: "\<exists>room. GetRoom roomID (sv_rooms s') = Inr room" if "membersOf s' roomID \<noteq> None"
    using that by (auto simp: membersOf_def GetRoom_def split: option.splits)
  from ok assms(2) show ?thesis
  proof (cases rule: ServiceJoin_result)
    case (stays cp room rm)
    then have "sv_connections s' k = Some cp" using authenticatedLocked_Inr(1) by blast
    with in_room stays show ?thesis by (auto simp: GetRoom_def)
  next
    case (joined cp rg)
    then have "membersOf s' roomID \<noteq> None" by simp
    with in_room [of "cp\<lparr>cp_roomID := roomID\<rparr>"] known joined show ?thesis by auto
  qed auto
qed

text \<open>C19: a login needs the account's password; it returns a new token that is valid, and if the account was
  logged in before, the old token is invalid, and its connection is stopped, out of every room and
  forgotten by the service. The sessions of other accounts stay as they are.\<close>
theorem service_login_takes_over:
  assumes "reach svc_init svc_step (s, w)"
    and fresh: "\<forall>token. createToken random = Inr token \<longrightarrow> sm_byToken (sv_sessions s) token = None"
    and "ServiceLogin bc S ctx accountID password now1 random now2 s w = (Inr res, s', w')"
  shows "(\<exists>account. sv_accounts s accountID = Some account \<and> bc_Compare bc (ac_PasswordHash account) password = None) \<and>
    (\<forall>now < lr_ExpiresAt res. \<exists>v. sessionLocked (lr_Token res) now s' = Inr v \<and> ses_AccountID v = accountID) \<and>
    (\<forall>t v. sm_byToken (sv_sessions s) t = Some v \<longrightarrow> ses_AccountID v = accountID \<longrightarrow>
       (\<forall>now. sessionLocked t now s' = Inl ErrUnauthorized) \<and>
       (ses_Bound v \<longrightarrow> sv_connections s' (ses_ConnID v) = None \<and>
          (\<forall>i M. membersOf s' i = Some M \<longrightarrow> M (ses_ConnID v) = None) \<and>
          (\<exists>cp. sv_connections s (ses_ConnID v) = Some cp \<and> w' = storeStop (cp_connection cp) w))) \<and>
    (\<forall>t v. sm_byToken (sv_sessions s) t = Some v \<longrightarrow> ses_AccountID v \<noteq> accountID \<longrightarrow>
       sm_byToken (sv_sessions s') t = Some v)"
  using assms(3)
proof (cases rule: ServiceLogin_result)
  case (granted account v0 old m st)
  have ok: "svc_ok {} s" using svc.reach_inv [OF assms(1)] by simp
  note D = svc_okD [OF ok]
  let ?s2 = "s\<lparr>sv_store := st, sv_sessions := m\<rparr>"
  have ok2: "svc_ok (old_conns old) ?s2"
    using svc_ok_Issue [OF svc_ok_frame(1) [OF ok, of st]] granted(6) fresh by simp
  note after = dropOld_sessions [OF ok2 granted(8), simplified]
  obtain token where t: "createToken random = Inr token" "v0 = fresh_session token accountID (ac_PlayerID account) (sv_ttl s) now2"
    "old = session_of_account accountID (sv_sessions s)"
    "sm_byToken m = (sm_byToken (drop_account accountID (sv_sessions s)))(token \<mapsto> v0)"
    using Issue_Inr [OF D(1) granted(6)] .
  have tok: "sm_byToken (sv_sessions s') u = (if u = token then Some v0 else
      (case sm_byToken (sv_sessions s) u of Some v \<Rightarrow> if ses_AccountID v = accountID then None else Some v | None \<Rightarrow> None))" for u
    by (simp add: after(1) t(4) drop_account_lookup [OF D(1)])
  have "\<exists>v. sessionLocked (lr_Token res) now s' = Inr v \<and> ses_AccountID v = accountID" if "now < lr_ExpiresAt res" for now
    using that granted(5,7) t(2) tok [of token] after(2) by (auto simp: sessionLocked_iff expired_def)
  moreover have dead: "sessionLocked u now s' = Inl ErrUnauthorized"
    if "sm_byToken (sv_sessions s) u = Some v" "ses_AccountID v = accountID" for u v now
    using that tok [of u] fresh [rule_format, OF t(1)] by (auto simp: sessionLocked_def GetByToken_def)
  moreover have "sv_connections s' (ses_ConnID v) = None \<and> (\<forall>i M. membersOf s' i = Some M \<longrightarrow> M (ses_ConnID v) = None) \<and>
      (\<exists>cp. sv_connections s (ses_ConnID v) = Some cp \<and> w' = storeStop (cp_connection cp) w)"
    if v: "sm_byToken (sv_sessions s) u = Some v" "ses_AccountID v = accountID" "ses_Bound v" for u v
  proof -
    have "old = Some v" using v t(3) session_of_account_iff [OF D(1)] by blast
    with v granted(8) have d: "disconnectLocked (ses_ConnID v) True ?s2 w = (s', w')" by (simp add: dropOld_def)
    have "sm_byConnID (sv_sessions s) (ses_ConnID v) \<noteq> None" using byConnID_iff [OF D(1)] v(1,3) by blast
    then obtain cp where "sv_connections s (ses_ConnID v) = Some cp" using authedD(3) [OF D(5)] by blast
    with d svc_ok_disconnect(2) [OF ok2 d] disconnect_members [OF ok2 d] show ?thesis
      by (auto simp: disconnectLocked_eq)
  qed
  moreover have "sm_byToken (sv_sessions s') u = Some v"
    if "sm_byToken (sv_sessions s) u = Some v" "ses_AccountID v \<noteq> accountID" for u v
    using that tok [of u] fresh [rule_format, OF t(1)] by auto
  ultimately show ?thesis using granted(1,2) by blast
qed simp

text \<open>closing the service forgets and stops every connection, empties every room and unbinds every
  session, and it is final: whatever is called afterwards, no token, no connection and no password is
  accepted any more and no connection is taken in.\<close>
theorem service_close_is_final:
  assumes "reach svc_init svc_step (s, w)" "map_order (sv_connections s) ks" "ServiceClose ks s w = (s', w')"
    and "svc_step\<^sup>*\<^sup>* (s', w') (s2, w2)"
  shows "(\<forall>k cp. sv_connections s k = Some cp \<longrightarrow>
       w' (ic_ref (cp_connection cp)) = map_option Stop (w (ic_ref (cp_connection cp)))) \<and>
    sv_connections s2 = Map.empty \<and> (\<forall>i M. membersOf s2 i = Some M \<longrightarrow> M = Map.empty) \<and>
    sm_byConnID (sv_sessions s2) = Map.empty \<and>
    (\<forall>t now. sessionLocked t now s2 = Inl ErrUnauthorized) \<and>
    (\<forall>k now. authenticatedLocked k now s2 = Inl ErrUnauthorized) \<and>
    (\<forall>bc S ctx a p now1 random now2 w. fst (ServiceLogin bc S ctx a p now1 random now2 s2 w) = Inl ErrUnauthorized)"
proof -
  have ok: "svc_ok {} s" using svc.reach_inv [OF assms(1)] by simp
  have drop: "dropAll ks (s\<lparr>sv_closed := True\<rparr>) w = (s', w')" using assms(3) by (simp add: ServiceClose_def)
  from svc_ok_dropAll [OF svc_ok_frame(2) [OF ok] drop] assms(2) have "closed_svc s'"
    by (auto simp: closed_svc_def map_order_def fun_eq_iff domIff)
  with assms(4) have "closed_svc s2"
    by (induction rule: rtranclp_induct2) (use closed_svc_step in fastforce)+
  then have closed: "sv_closed s2" "sv_connections s2 = Map.empty" by (simp_all add: closed_svc_def)
  have "svc_step (s, w) (s', w')" using assms(3) by (rule svc_step.close)
  then have "svc_ok {} s2"
    using svc.rtranclp_inv [OF assms(4)] svc.step_inv [of "(s, w)" "(s', w')"] ok by simp
  note D = svc_okD [OF this]
  have "membersOf s2 i = Some M \<Longrightarrow> M = Map.empty" for i M
    using rooms_matchD(1) [OF D(4)] closed(2) by (simp add: visitors_def fun_eq_iff)
  moreover have "sm_byConnID (sv_sessions s2) k = None" for k
    using authedD(3) [OF D(5), of k] closed(2) by (cases "sm_byConnID (sv_sessions s2) k") auto
  moreover have "w' (ic_ref (cp_connection cp)) = map_option Stop (w (ic_ref (cp_connection cp)))"
    if "sv_connections s k = Some cp" for k cp
  proof -
    have "k \<in> set ks" using that assms(2) by (auto simp: map_order_def)
    then have "cp_connection cp \<in> set (List.map_filter (\<lambda>k. map_option cp_connection (sv_connections s k)) ks)"
      using that by (force simp: map_filter_def)
    moreover have "w' = stopAll (List.map_filter (\<lambda>k. map_option cp_connection (sv_connections s k)) ks) w"
      using dropAll_stops [OF drop] assms(2) by (simp add: map_order_def)
    ultimately show ?thesis by (simp add: stopAll_at)
  qed
  moreover have "fst (ServiceLogin bc S ctx a p now1 random now2 s2 w) = Inl ErrUnauthorized" for bc S ctx a p now1 random now2 w
    using closed(1) by (auto simp: ServiceLogin_def Let_def split: option.split)
  ultimately show ?thesis
    using closed by (auto simp: fun_eq_iff sessionLocked_def authenticatedLocked_def)
qed

theorem service_rooms_consistent_witness:
  "\<exists>r. rg_heap (sv_rooms demo_svc4) 0 = Some r \<and> rm_members r 7 = Some demo_client \<and> int (PlayerCount r) \<le> 2 \<and>
     (\<exists>v. v \<in> ran (sm_byToken (sv_sessions demo_svc4)) \<and> ses_Bound v \<and> ses_ConnID v = 7)"
proof -
  have room: "GetRoom 1 (sv_rooms demo_svc4) = Inr 0" by (simp add: demo_svc4_def GetRoom_def)
  have heap: "rg_heap (sv_rooms demo_svc4) 0 = Some ((NewRoom 1 2)\<lparr>rm_members := [7 \<mapsto> demo_client]\<rparr>)"
    by (simp add: demo_svc4_def)
  from service_rooms_consistent [OF demo_svc_reach(5) room] obtain r where
    r: "rg_heap (sv_rooms demo_svc4) 0 = Some r" "rm_MaxPlayers r > 0 \<longrightarrow> int (PlayerCount r) \<le> rm_MaxPlayers r" and
    bound: "\<forall>k i. rm_members r k = Some i \<longrightarrow>
       (\<exists>v. v \<in> ran (sm_byToken (sv_sessions demo_svc4)) \<and> ses_Bound v \<and> ses_ConnID v = k)"
    by (elim exE conjE)
  have req: "r = (NewRoom 1 2)\<lparr>rm_members := [7 \<mapsto> demo_client]\<rparr>" using r(1) heap by simp
  have "rm_members r 7 = Some demo_client" "rm_MaxPlayers r = 2" by (simp_all add: req NewRoom_def)
  with r bound [rule_format, of 7] show ?thesis by (intro exI [of _ r] conjI) simp_all
qed

theorem service_join_all_or_nothing_witness:
  "fst (ServiceJoin 7 1 8 demo_svc3) \<noteq> Inl ErrRoomUnavailable \<and>
   (\<exists>rm. rg_heap (sv_rooms demo_svc4) 0 = Some rm \<and> rm_members rm 7 \<noteq> None)"
proof -
  have "GetRoom 1 (sv_rooms demo_svc4) = Inr 0" by (simp add: demo_svc4_def GetRoom_def)
  moreover obtain rm where "rg_heap (sv_rooms demo_svc4) 0 = Some rm" by (simp add: demo_svc4_def)
  ultimately show ?thesis
    using conjunct2 [OF service_join_all_or_nothing [OF demo_svc_reach(4) demo_svc_run(4)], rule_format, OF refl,
      THEN conjunct1, rule_format] by (simp add: demo_svc_run(4))
qed

theorem service_login_takes_over_witness:
  "\<exists>res s' w'. ServiceLogin demo_bc demo_ops None ''ann'' ''secret'' 9 (Inr [3, 4]) 9 demo_svc4 (Map.empty :: nat conn_store) = (Inr res, s', w') \<and>
     (\<forall>now. sessionLocked demo_secret now s' = Inl ErrUnauthorized) \<and> sv_connections s' 7 = None \<and>
     (\<exists>v. sessionLocked (lr_Token res) 10 s' = Inr v \<and> ses_AccountID v = ''ann'')"
proof -
  have fresh: "\<forall>token. createToken (Inr [3, 4]) = Inr token \<longrightarrow> sm_byToken (sv_sessions demo_svc4) token = None"
    by (auto simp: createToken_def demo_svc4_def demo_svc3_def demo_secret_def hexEncode_def hexdigit_def)
  have old: "sm_byToken (sv_sessions demo_svc4) demo_secret = Some demo_bound"
    by (simp add: demo_svc4_def demo_svc3_def)
  obtain res s' w' where run:
    "ServiceLogin demo_bc demo_ops None ''ann'' ''secret'' 9 (Inr [3, 4]) 9 demo_svc4 (Map.empty :: nat conn_store) = (Inr res, s', w')"
    and exp: "lr_ExpiresAt res = 1009"
  proof -
    have fields: "sv_accounts demo_svc4 ''ann'' = Some demo_account" "\<not> sv_closed demo_svc4" "sv_ttl demo_svc4 = 1000"
      "sv_store demo_svc4 = \<lparr> ms_players = [5 \<mapsto> Some \<lparr> pl_PlayerID = 5, pl_AccountID = ''ann'', pl_Data = [], pl_UpdatedAt = 6 \<rparr>] \<rparr>"
      by (simp_all add: demo_svc4_def demo_svc3_def demo_svc2_def demo_svc1_def demo_svc_def)
    have "loadOrCreate demo_ops None 5 ''ann'' 9 demo_svc4 =
        (Inr (Some \<lparr> pl_PlayerID = 5, pl_AccountID = ''ann'', pl_Data = [], pl_UpdatedAt = 6 \<rparr>), demo_svc4)"
      by (simp add: loadOrCreate_def demo_ops_def MemoryLoad_def contextError_def fields)
    moreover obtain v old m where "Issue (sv_sessions demo_svc4) ''ann'' 5 1000 (Inr [3, 4]) 9 = (Inr (v, old), m)"
        "ses_ExpiresAt v = 1009"
      by (simp add: Issue_def createToken_def demo_svc4_def demo_svc3_def demo_svc2_def demo_svc1_def demo_svc_def
          demo_sessions_def demo_bound_def demo_login_def fresh_session_def ReplaceExisting_def RejectExisting_def Let_def)
    moreover obtain s' w' where "dropOld old (demo_svc4\<lparr>sv_sessions := m\<rparr>) (Map.empty :: nat conn_store) = (s', w')"
      by fastforce
    ultimately show ?thesis
      using that fields by (simp add: ServiceLogin_def demo_bc_def demo_account_def dropOld_def)
  qed
  note over = service_login_takes_over [OF demo_svc_reach(5) fresh run]
  have "\<forall>now. sessionLocked demo_secret now s' = Inl ErrUnauthorized" "sv_connections s' 7 = None"
    using conjunct1 [OF conjunct2 [OF conjunct2 [OF over]], rule_format, OF old]
    by (simp_all add: demo_bound_def demo_login_def)
  moreover have "\<exists>v. sessionLocked (lr_Token res) 10 s' = Inr v \<and> ses_AccountID v = ''ann''"
    using conjunct1 [OF conjunct2 [OF over], rule_format, of 10] exp by simp
  ultimately show ?thesis using run by blast
qed

theorem service_close_is_final_witness:
  "\<exists>s' w'. ServiceClose [7] demo_svc4 [0 \<mapsto> cs_conn demo_conn] = (s', w') \<and>
     w' 0 = Some (Stop (cs_conn demo_conn)) \<and> sv_connections s' = Map.empty \<and>
     (\<forall>now. authenticatedLocked 7 now s' = Inl ErrUnauthorized)"
proof -
  obtain s' w' where run: "ServiceClose [7] demo_svc4 [0 \<mapsto> cs_conn demo_conn] = (s', w')" by fastforce
  have conns: "sv_connections demo_svc4 = [7 \<mapsto> \<lparr> cp_connection = demo_client, cp_roomID = 1, cp_authDeadline = 0 \<rparr>]"
    by (simp add: demo_svc4_def)
  then have "map_order (sv_connections demo_svc4) [7]" by (simp add: map_order_def)
  note final = service_close_is_final [OF demo_svc_reach(5) this run rtranclp.rtrancl_refl]
  have "w' 0 = Some (Stop (cs_conn demo_conn))"
    using conjunct1 [OF final, rule_format, of 7] conns by (simp add: demo_client_def)
  moreover have "sv_connections s' = Map.empty" "\<forall>k now. authenticatedLocked k now s' = Inl ErrUnauthorized"
    using final by blast+
  ultimately show ?thesis using run by blast
qed

end
