(* ===== verification/SqliteStore.thy ===== *)
theory SqliteStore
  imports Persist
begin

text \<open>
  The SQLite player store of \<open>examples/sqlitestore/store.go\<close>. The table of the database is a list of
  rows; the SQL statements of the source are functions on it, with the constraints the schema
  declares. Each call on the driver may fail: its outcome is the argument \<open>sql_io\<close>, and a statement
  that fails, or a transaction whose commit fails, has changed nothing. The textual form of a time
  stamp is the argument \<open>timefmt\<close>. Opening the database (paths, pragmas) is not modelled.
\<close>

section \<open>Numbers as text\<close>

definition FormatUint :: "u64 \<Rightarrow> string" where
  "FormatUint i = itoa (unat i)"

definition digit :: "char \<Rightarrow> nat option" where
  "digit c = (let n = (of_char c :: nat) in if 48 \<le> n \<and> n \<le> 57 then Some (n - 48) else None)"

text \<open>The loop of \<open>strconv.ParseUint\<close> in base 10 for 64 bits.\<close>

fun parseDigits :: "string \<Rightarrow> nat \<Rightarrow> nat res" where
  "parseDigits [] n = Inr n"
| "parseDigits (c # cs) n =
     (case digit c of
        None \<Rightarrow> Inl (Err ''invalid syntax'')
      | Some d \<Rightarrow> if n * 10 + d \<ge> 2 ^ 64 then Inl (Err ''value out of range'') else parseDigits cs (n * 10 + d))"

definition ParseUint :: "string \<Rightarrow> u64 res" where
  "ParseUint s =
     (if s = [] then Inl (Err ''invalid syntax'')
      else (case parseDigits s 0 of Inl err \<Rightarrow> Inl err | Inr n \<Rightarrow> Inr (of_nat n)))"

lemma digit_char: "d < 10 \<Longrightarrow> digit (char_of (48 + d)) = Some d"
  by (simp add: digit_def)

lemma parseDigits_itoa: "n < 2 ^ 64 \<Longrightarrow> parseDigits (itoa n @ cs) 0 = parseDigits cs n"
proof (induction n arbitrary: cs rule: itoa.induct)
  case (1 n)
  show ?case
  proof (cases "n < 10")
    case True
    then show ?thesis by (simp add: itoa.simps [of n] digit_char)
  next
    case False
    then have "parseDigits (itoa (n div 10) @ ([char_of (48 + n mod 10)] @ cs)) 0 =
        parseDigits ([char_of (48 + n mod 10)] @ cs) (n div 10)"
      using "1.IH" "1.prems" by simp
    moreover have "n div 10 * 10 + n mod 10 = n" by presburger
    ultimately show ?thesis using False "1.prems" by (simp add: itoa.simps [of n] digit_char)
  qed
qed

lemma itoa_nonempty: "itoa n \<noteq> []"
  by (simp add: itoa.simps [of n])

lemma ParseUint_FormatUint [simp]: "ParseUint (FormatUint i) = Inr i"
proof -
  have "unat i < 2 ^ 64" using unsigned_less [of i, where 'a = nat] by simp
  then show ?thesis
    using parseDigits_itoa [of "unat i" "[]"] by (simp add: ParseUint_def FormatUint_def itoa_nonempty)
qed

lemma FormatUint_inject [simp]: "FormatUint i = FormatUint j \<longleftrightarrow> i = j"
  by (metis ParseUint_FormatUint sum.inject(2))

section \<open>The table\<close>

record sql_row =
  sr_player_id :: string
  sr_account_id :: string
  sr_data :: bytes
  sr_updated_at :: string

type_synonym sql_table = "sql_row list"

record Store =
  db_rows :: sql_table

record sql_io =
  sq_begin :: "go_error option"
  sq_query :: "go_error option"
  sq_exec :: "go_error option"
  sq_rows :: "go_error option"
  sq_commit :: "go_error option"
  sq_now :: gotime

record timefmt =
  tf_Format :: "gotime \<Rightarrow> string"
  tf_Parse :: "string \<Rightarrow> gotime res"

definition ErrIdentityConflict :: go_error where
  "ErrIdentityConflict = Err ''player identity cannot be changed''"

text \<open>A call on the driver with a context that has ended fails with the error of the context.\<close>

definition sqlCall :: "ctx \<Rightarrow> go_error option \<Rightarrow> go_error option" where
  "sqlCall ctx outcome = (case contextError ctx of Some err \<Rightarrow> Some err | None \<Rightarrow> outcome)"

text \<open>The statement \<open>selectPlayer\<close>.\<close>

definition selectPlayer :: "string \<Rightarrow> sql_table \<Rightarrow> sql_row option" where
  "selectPlayer key rows = find (\<lambda>r. sr_player_id r = key) rows"

text \<open>
  The insert of \<open>Save\<close>: on a conflict of \<open>player_id\<close> the row is updated where the account is the same;
  otherwise a second row of an account violates its \<open>UNIQUE\<close> constraint. The result is the number of
  rows affected and the new table.
\<close>

definition insertPlayer :: "sql_row \<Rightarrow> sql_table \<Rightarrow> (nat \<times> sql_table) res" where
  "insertPlayer new rows =
     (case selectPlayer (sr_player_id new) rows of
        Some old \<Rightarrow>
          if sr_account_id old = sr_account_id new
          then Inr (1, map (\<lambda>r. if sr_player_id r = sr_player_id new
                              then r\<lparr>sr_data := sr_data new, sr_updated_at := sr_updated_at new\<rparr> else r) rows)
          else Inr (0, rows)
      | None \<Rightarrow>
          if list_ex (\<lambda>r. sr_account_id r = sr_account_id new) rows
          then Inl (Err ''UNIQUE constraint failed: example_players.account_id'')
          else Inr (1, rows @ [new]))"

definition deletePlayer :: "string \<Rightarrow> sql_table \<Rightarrow> nat \<times> sql_table" where
  "deletePlayer key rows =
     (length (filter (\<lambda>r. sr_player_id r = key) rows), filter (\<lambda>r. sr_player_id r \<noteq> key) rows)"

definition updatePlayer :: "bytes \<Rightarrow> string \<Rightarrow> string \<Rightarrow> sql_table \<Rightarrow> sql_table" where
  "updatePlayer data stamp key rows =
     map (\<lambda>r. if sr_player_id r = key then r\<lparr>sr_data := data, sr_updated_at := stamp\<rparr> else r) rows"

section \<open>Operations\<close>

definition readPlayer :: "timefmt \<Rightarrow> go_error option \<Rightarrow> sql_row option \<Rightarrow> Player res" where
  "readPlayer T scan row =
     (case scan of
        Some err \<Rightarrow> Inl err
      | None \<Rightarrow>
          (case row of
             None \<Rightarrow> Inl ErrPlayerNotFound
           | Some r \<Rightarrow>
               (case ParseUint (sr_player_id r) of
                  Inl err \<Rightarrow> Inl err
                | Inr i \<Rightarrow>
                    (case tf_Parse T (sr_updated_at r) of
                       Inl err \<Rightarrow> Inl err
                     | Inr t \<Rightarrow> Inr \<lparr> pl_PlayerID = i, pl_AccountID = sr_account_id r,
                                     pl_Data = sr_data r, pl_UpdatedAt = t \<rparr>))))"

definition SqliteLoad :: "timefmt \<Rightarrow> sql_io \<Rightarrow> ctx \<Rightarrow> u64 \<Rightarrow> Store \<Rightarrow> Player option res" where
  "SqliteLoad T io ctx playerID s =
     (case readPlayer T (sqlCall ctx (sq_query io)) (selectPlayer (FormatUint playerID) (db_rows s)) of
        Inl err \<Rightarrow> Inl err
      | Inr player \<Rightarrow> Inr (Some player))"

definition SqliteSave :: "timefmt \<Rightarrow> sql_io \<Rightarrow> ctx \<Rightarrow> Player option \<Rightarrow> Store \<Rightarrow> go_error option \<times> Store" where
  "SqliteSave T io ctx player s =
     (case player of
        None \<Rightarrow> (Some (Err ''invalid player''), s)
      | Some p \<Rightarrow>
          if pl_PlayerID p = 0 \<or> pl_AccountID p = [] then (Some (Err ''invalid player''), s)
          else
            (case sqlCall ctx (sq_exec io) of
               Some err \<Rightarrow> (Some err, s)
             | None \<Rightarrow>
                 (case insertPlayer \<lparr> sr_player_id = FormatUint (pl_PlayerID p), sr_account_id = pl_AccountID p,
                         sr_data = pl_Data p, sr_updated_at = tf_Format T (sq_now io) \<rparr> (db_rows s) of
                    Inl err \<Rightarrow> (Some err, s)
                  | Inr (affected, rows) \<Rightarrow>
                      (let s' = s\<lparr>db_rows := rows\<rparr>
                       in case sq_rows io of
                            Some err \<Rightarrow> (Some err, s')
                          | None \<Rightarrow> if affected = 0 then (Some ErrIdentityConflict, s') else (None, s')))))"

definition SqliteDelete :: "sql_io \<Rightarrow> ctx \<Rightarrow> u64 \<Rightarrow> Store \<Rightarrow> go_error option \<times> Store" where
  "SqliteDelete io ctx playerID s =
     (case sqlCall ctx (sq_exec io) of
        Some err \<Rightarrow> (Some err, s)
      | None \<Rightarrow>
          (case deletePlayer (FormatUint playerID) (db_rows s) of
             (affected, rows) \<Rightarrow>
               (let s' = s\<lparr>db_rows := rows\<rparr>
                in case sq_rows io of
                     Some err \<Rightarrow> (Some err, s')
                   | None \<Rightarrow> if affected = 0 then (Some ErrPlayerNotFound, s') else (None, s'))))"

text \<open>
  The callback changes the player it is given and yields what its closure keeps. Every return before
  the commit runs the deferred \<open>Rollback\<close>.
\<close>

definition SqliteUpdate ::
  "timefmt \<Rightarrow> sql_io \<Rightarrow> ctx \<Rightarrow> u64 \<Rightarrow> (Player \<Rightarrow> (Player \<times> 'r) res) option \<Rightarrow> Store \<Rightarrow> 'r res \<times> Store" where
  "SqliteUpdate T io ctx playerID change s =
     (case change of
        None \<Rightarrow> (Inl (Err ''change callback is required''), s)
      | Some f \<Rightarrow>
          (case sqlCall ctx (sq_begin io) of
             Some err \<Rightarrow> (Inl err, s)
           | None \<Rightarrow>
               (let key = FormatUint playerID
                in case readPlayer T (sqlCall ctx (sq_query io)) (selectPlayer key (db_rows s)) of
                     Inl err \<Rightarrow> (Inl err, s)
                   | Inr player \<Rightarrow>
                       (case f player of
                          Inl err \<Rightarrow> (Inl err, s)
                        | Inr (player', result) \<Rightarrow>
                            if pl_PlayerID player' \<noteq> playerID \<or> pl_AccountID player' \<noteq> pl_AccountID player
                            then (Inl ErrIdentityConflict, s)
                            else
                              (case sqlCall ctx (sq_exec io) of
                                 Some err \<Rightarrow> (Inl err, s)
                               | None \<Rightarrow>
                                   (case sqlCall ctx (sq_commit io) of
                                      Some err \<Rightarrow> (Inl err, s)
                                    | None \<Rightarrow>
                                        (Inr result,
                                         s\<lparr>db_rows := updatePlayer (pl_Data player') (tf_Format T (sq_now io)) key
                                                       (db_rows s)\<rparr>)))))))"

section \<open>The table and its constraints\<close>

definition row_ok :: "timefmt \<Rightarrow> sql_row \<Rightarrow> bool" where
  "row_ok T r \<longleftrightarrow> (\<exists>i t. i \<noteq> 0 \<and> sr_player_id r = FormatUint i \<and> tf_Parse T (sr_updated_at r) = Inr t)"

definition timefmt_ok :: "timefmt \<Rightarrow> bool" where
  "timefmt_ok T \<longleftrightarrow> (\<forall>t. tf_Parse T (tf_Format T t) = Inr t)"

text \<open>The constraints of the schema, and rows that can be read back.\<close>

definition sql_wf :: "timefmt \<Rightarrow> Store \<Rightarrow> bool" where
  "sql_wf T s \<longleftrightarrow> timefmt_ok T \<and> distinct (map sr_player_id (db_rows s)) \<and>
     distinct (map sr_account_id (db_rows s)) \<and> list_all (row_ok T) (db_rows s)"

definition sql_contents :: "timefmt \<Rightarrow> Store \<Rightarrow> players" where
  "sql_contents T s i =
     (case readPlayer T None (selectPlayer (FormatUint i) (db_rows s)) of Inl err \<Rightarrow> None | Inr p \<Rightarrow> Some (Some p))"

lemma selectPlayer_Some:
  assumes "selectPlayer key rows = Some r"
  shows "r \<in> set rows" "sr_player_id r = key"
  using assms by (auto simp: selectPlayer_def find_Some_iff)

lemma selectPlayer_None: "selectPlayer key rows = None \<longleftrightarrow> key \<notin> sr_player_id ` set rows"
  by (auto simp: selectPlayer_def find_None_iff)

lemma selectPlayer_append:
  "selectPlayer key (rows @ [r]) =
     (case selectPlayer key rows of Some x \<Rightarrow> Some x | None \<Rightarrow> if sr_player_id r = key then Some r else None)"
  by (induction rows) (auto simp: selectPlayer_def)

text \<open>A change of the rows with one id that leaves the ids alone.\<close>

lemma selectPlayer_map:
  assumes "\<And>r. sr_player_id (f r) = sr_player_id r"
  shows "selectPlayer key (map f rows) = map_option f (selectPlayer key rows)"
  by (induction rows) (auto simp: selectPlayer_def assms)

lemma selectPlayer_filter:
  "selectPlayer key (filter (\<lambda>r. sr_player_id r \<noteq> gone) rows) =
     (if key = gone then None else selectPlayer key rows)"
  by (induction rows) (auto simp: selectPlayer_def)

definition rewrite :: "string \<Rightarrow> bytes \<Rightarrow> string \<Rightarrow> sql_row \<Rightarrow> sql_row" where
  "rewrite key data stamp r = (if sr_player_id r = key then r\<lparr>sr_data := data, sr_updated_at := stamp\<rparr> else r)"

lemma rewrite_id [simp]:
  "sr_player_id (rewrite key data stamp r) = sr_player_id r"
  "sr_account_id (rewrite key data stamp r) = sr_account_id r"
  by (simp_all add: rewrite_def)

lemma updatePlayer_eq: "updatePlayer data stamp key rows = map (rewrite key data stamp) rows"
  by (simp add: updatePlayer_def rewrite_def [abs_def])

lemma insertPlayer_eq:
  "insertPlayer new rows =
     (case selectPlayer (sr_player_id new) rows of
        Some old \<Rightarrow>
          if sr_account_id old = sr_account_id new
          then Inr (1, map (rewrite (sr_player_id new) (sr_data new) (sr_updated_at new)) rows) else Inr (0, rows)
      | None \<Rightarrow>
          if list_ex (\<lambda>r. sr_account_id r = sr_account_id new) rows
          then Inl (Err ''UNIQUE constraint failed: example_players.account_id'')
          else Inr (1, rows @ [new]))"
  unfolding insertPlayer_def rewrite_def [abs_def] ..

lemma sql_wf_rewrite:
  assumes "sql_wf T s"
  shows "sql_wf T (s\<lparr>db_rows := map (rewrite key data (tf_Format T now)) (db_rows s)\<rparr>)"
proof -
  have same: "map sr_player_id (map (rewrite key data (tf_Format T now)) (db_rows s)) = map sr_player_id (db_rows s)"
    "map sr_account_id (map (rewrite key data (tf_Format T now)) (db_rows s)) = map sr_account_id (db_rows s)"
    by simp_all
  have "row_ok T (rewrite key data (tf_Format T now) r)" if "row_ok T r" for r
    using that assms by (auto simp: row_ok_def rewrite_def sql_wf_def timefmt_ok_def)
  with assms same show ?thesis by (simp add: sql_wf_def list_all_iff del: map_map)
qed

lemma sql_contents_read:
  assumes "sql_wf T s" "selectPlayer (FormatUint i) (db_rows s) = Some r"
  obtains t where "tf_Parse T (sr_updated_at r) = Inr t"
    "sql_contents T s i = Some (Some \<lparr> pl_PlayerID = i, pl_AccountID = sr_account_id r, pl_Data = sr_data r, pl_UpdatedAt = t \<rparr>)"
proof -
  have "row_ok T r" using assms selectPlayer_Some(1) by (auto simp: sql_wf_def list_all_iff)
  then obtain t where "tf_Parse T (sr_updated_at r) = Inr t" by (auto simp: row_ok_def)
  moreover have "sr_player_id r = FormatUint i" using selectPlayer_Some(2) [OF assms(2)] .
  ultimately show ?thesis using that assms(2) by (simp add: sql_contents_def readPlayer_def)
qed

lemma sql_contents_None: "selectPlayer (FormatUint i) (db_rows s) = None \<Longrightarrow> sql_contents T s i = None"
  by (simp add: sql_contents_def readPlayer_def)

lemma readPlayer_contents:
  assumes "sql_wf T s"
  shows "readPlayer T None (selectPlayer (FormatUint i) (db_rows s)) =
    (case sql_contents T s i of None \<Rightarrow> Inl ErrPlayerNotFound | Some None \<Rightarrow> Inl ErrPlayerNotFound | Some (Some p) \<Rightarrow> Inr p)"
proof (cases "selectPlayer (FormatUint i) (db_rows s)")
  case None
  then show ?thesis by (simp add: sql_contents_None) (simp add: readPlayer_def)
next
  case (Some r)
  from sql_contents_read [OF assms Some] obtain t where
    "sql_contents T s i = Some (Some \<lparr> pl_PlayerID = i, pl_AccountID = sr_account_id r, pl_Data = sr_data r, pl_UpdatedAt = t \<rparr>)" .
  then show ?thesis by (auto simp: sql_contents_def split: sum.splits)
qed

lemma sql_contents_rewrite:
  assumes "sql_wf T s" "selectPlayer (FormatUint i) (db_rows s) = Some r"
  shows "sql_contents T (s\<lparr>db_rows := map (rewrite (FormatUint i) data (tf_Format T now)) (db_rows s)\<rparr>) =
    (sql_contents T s)(i \<mapsto> Some \<lparr> pl_PlayerID = i, pl_AccountID = sr_account_id r, pl_Data = data, pl_UpdatedAt = now \<rparr>)"
proof
  fix j
  have key: "sr_player_id r = FormatUint i" using selectPlayer_Some(2) [OF assms(2)] .
  have other: "rewrite (FormatUint i) data (tf_Format T now) x = x" if "selectPlayer (FormatUint j) (db_rows s) = Some x" "j \<noteq> i" for x
    using selectPlayer_Some(2) [OF that(1)] that(2) by (simp add: rewrite_def)
  show "sql_contents T (s\<lparr>db_rows := map (rewrite (FormatUint i) data (tf_Format T now)) (db_rows s)\<rparr>) j =
    ((sql_contents T s)(i \<mapsto> Some \<lparr> pl_PlayerID = i, pl_AccountID = sr_account_id r, pl_Data = data, pl_UpdatedAt = now \<rparr>)) j"
  proof (cases "j = i")
    case True
    with assms key show ?thesis
      by (simp add: sql_contents_def selectPlayer_map readPlayer_def rewrite_def sql_wf_def timefmt_ok_def)
  next
    case False
    with other show ?thesis
      by (cases "selectPlayer (FormatUint j) (db_rows s)") (simp_all add: sql_contents_def selectPlayer_map)
  qed
qed

section \<open>The store keeps the contract of a player store\<close>

definition stamped :: "sql_io \<Rightarrow> Player \<Rightarrow> Player" where
  "stamped io p = p\<lparr>pl_UpdatedAt := sq_now io\<rparr>"

lemma sql_contents_append:
  assumes "sql_wf T s" "selectPlayer (FormatUint (pl_PlayerID p)) (db_rows s) = None"
  shows "sql_contents T (s\<lparr>db_rows := db_rows s @
      [\<lparr> sr_player_id = FormatUint (pl_PlayerID p), sr_account_id = pl_AccountID p, sr_data = pl_Data p,
         sr_updated_at = tf_Format T now \<rparr>]\<rparr>) = (sql_contents T s)(pl_PlayerID p \<mapsto> Some (p\<lparr>pl_UpdatedAt := now\<rparr>))"
proof
  fix j
  let ?s' = "s\<lparr>db_rows := db_rows s @
      [\<lparr> sr_player_id = FormatUint (pl_PlayerID p), sr_account_id = pl_AccountID p, sr_data = pl_Data p,
         sr_updated_at = tf_Format T now \<rparr>]\<rparr>"
  show "sql_contents T ?s' j = ((sql_contents T s)(pl_PlayerID p \<mapsto> Some (p\<lparr>pl_UpdatedAt := now\<rparr>))) j"
  proof (cases "j = pl_PlayerID p")
    case True
    with assms show ?thesis
      by (simp add: sql_contents_def selectPlayer_append readPlayer_def sql_wf_def timefmt_ok_def)
  next
    case False
    then show ?thesis
      by (cases "selectPlayer (FormatUint j) (db_rows s)") (simp_all add: sql_contents_def selectPlayer_append)
  qed
qed

lemma SqliteSave_ok:
  assumes "sql_wf T s" "SqliteSave T io c (Some p) s = (None, s')"
  shows "sql_wf T s' \<and> sql_contents T s' = (sql_contents T s)(pl_PlayerID p \<mapsto> Some (stamped io p)) \<and> pl_PlayerID p \<noteq> 0 \<and>
    (\<forall>old. sql_contents T s (pl_PlayerID p) = Some (Some old) \<longrightarrow> pl_AccountID old = pl_AccountID p)"
proof -
  let ?new = "\<lparr> sr_player_id = FormatUint (pl_PlayerID p), sr_account_id = pl_AccountID p, sr_data = pl_Data p,
      sr_updated_at = tf_Format T (sq_now io) \<rparr>"
  have p: "pl_PlayerID p \<noteq> 0" using assms(2) by (auto simp: SqliteSave_def)
  from assms(2) obtain affected rows where ins: "insertPlayer ?new (db_rows s) = Inr (affected, rows)" "affected \<noteq> 0"
    and s': "s' = s\<lparr>db_rows := rows\<rparr>"
    by (auto simp: SqliteSave_def Let_def split: if_splits option.splits sum.splits prod.splits)
  show ?thesis
  proof (cases "selectPlayer (FormatUint (pl_PlayerID p)) (db_rows s)")
    case None
    with ins have rows: "rows = db_rows s @ [?new]" and fresh: "pl_AccountID p \<notin> sr_account_id ` set (db_rows s)"
      by (auto simp: insertPlayer_eq list_ex_iff split: if_splits)
    have "row_ok T ?new" using assms(1) p by (auto simp: row_ok_def sql_wf_def timefmt_ok_def)
    then have "sql_wf T s'" using assms(1) None fresh by (simp add: s' rows sql_wf_def selectPlayer_None)
    moreover have "sql_contents T s' = (sql_contents T s)(pl_PlayerID p \<mapsto> Some (stamped io p))"
      unfolding s' rows stamped_def by (rule sql_contents_append [OF assms(1) None])
    ultimately show ?thesis using p sql_contents_None [OF None] by simp
  next
    case (Some r)
    with ins have acc: "sr_account_id r = pl_AccountID p"
      and rows: "rows = map (rewrite (FormatUint (pl_PlayerID p)) (pl_Data p) (tf_Format T (sq_now io))) (db_rows s)"
      by (auto simp: insertPlayer_eq split: if_splits)
    from sql_contents_read [OF assms(1) Some] obtain t where
      "sql_contents T s (pl_PlayerID p) = Some (Some \<lparr> pl_PlayerID = pl_PlayerID p, pl_AccountID = sr_account_id r, pl_Data = sr_data r, pl_UpdatedAt = t \<rparr>)" .
    moreover have "stamped io p = \<lparr> pl_PlayerID = pl_PlayerID p, pl_AccountID = sr_account_id r, pl_Data = pl_Data p, pl_UpdatedAt = sq_now io \<rparr>"
      by (simp add: stamped_def acc)
    ultimately show ?thesis
      using sql_wf_rewrite [OF assms(1)] sql_contents_rewrite [OF assms(1) Some] p acc by (simp add: s' rows)
  qed
qed

lemma SqliteSave_fail:
  assumes "SqliteSave T io c q s = (Some err, s')" "sq_rows io = None"
  shows "s' = s"
proof (cases q)
  case (Some p)
  with assms show ?thesis
    by (auto simp: SqliteSave_def insertPlayer_eq Let_def split: if_splits option.splits sum.splits)
qed (use assms in \<open>simp add: SqliteSave_def\<close>)

lemma SqliteDelete_ok:
  assumes "sql_wf T s" "SqliteDelete io c i s = (None, s')"
  shows "sql_wf T s' \<and> sql_contents T s' = (sql_contents T s)(i := None) \<and> sql_contents T s i \<noteq> None"
proof -
  from assms(2) have s': "s' = s\<lparr>db_rows := filter (\<lambda>r. sr_player_id r \<noteq> FormatUint i) (db_rows s)\<rparr>"
    and some: "filter (\<lambda>r. sr_player_id r = FormatUint i) (db_rows s) \<noteq> []"
    by (auto simp: SqliteDelete_def deletePlayer_def Let_def split: if_splits option.splits)
  have "sql_wf T s'" using assms(1) by (auto simp: s' sql_wf_def list_all_iff distinct_map_filter)
  moreover have "sql_contents T s' = (sql_contents T s)(i := None)"
    by (auto simp: fun_eq_iff s' sql_contents_def selectPlayer_filter readPlayer_def)
  moreover have "selectPlayer (FormatUint i) (db_rows s) \<noteq> None"
    using some unfolding selectPlayer_None filter_empty_conv by (metis imageI)
  then obtain r where "selectPlayer (FormatUint i) (db_rows s) = Some r" by blast
  then have "sql_contents T s i \<noteq> None" by (rule sql_contents_read [OF assms(1)]) simp
  ultimately show ?thesis by blast
qed

lemma SqliteDelete_fail:
  assumes "SqliteDelete io c i s = (Some err, s')" "sq_rows io = None"
  shows "s' = s"
proof (cases "sqlCall c (sq_exec io)")
  case None
  with assms have "filter (\<lambda>r. sr_player_id r = FormatUint i) (db_rows s) = []"
    and s': "s' = s\<lparr>db_rows := filter (\<lambda>r. sr_player_id r \<noteq> FormatUint i) (db_rows s)\<rparr>"
    by (auto simp: SqliteDelete_def deletePlayer_def Let_def split: if_splits)
  then have "filter (\<lambda>r. sr_player_id r \<noteq> FormatUint i) (db_rows s) = db_rows s"
    by (simp add: filter_empty_conv filter_id_conv)
  with s' show ?thesis by simp
qed (use assms in \<open>simp add: SqliteDelete_def\<close>)

interpretation sqlite: player_store "SqliteLoad T" "SqliteSave T" SqliteDelete "sql_contents T" "sql_wf T" stamped
    "\<lambda>p. True" "\<lambda>io s. True" "\<lambda>io. sq_query io = None" "\<lambda>io. sq_rows io = None" for T
proof
  fix c :: ctx and q :: "Player option" and p :: Player and s s' :: Store and i :: u64
    and io :: sql_io and err :: go_error
  show "SqliteLoad T io c i s = (case sql_contents T s i of None \<Rightarrow> Inl ErrPlayerNotFound | Some p \<Rightarrow> Inr p)"
    if "sql_wf T s" "sq_query io = None" "contextError c = None"
  proof -
    have "sql_contents T s i \<noteq> Some None" by (auto simp: sql_contents_def split: sum.splits)
    with that readPlayer_contents [OF that(1), of i] show ?thesis
      by (auto simp: SqliteLoad_def sqlCall_def split: option.splits)
  qed
  show "fst (SqliteSave T io c None s) \<noteq> None" by (simp add: SqliteSave_def)
  show "pl_PlayerID (stamped io p) = pl_PlayerID p" by (simp add: stamped_def)
  show "SqliteSave T io c (Some p) s = (None, s') \<Longrightarrow> sql_wf T s \<Longrightarrow>
      sql_wf T s' \<and> sql_contents T s' = (sql_contents T s)(pl_PlayerID p \<mapsto> Some (stamped io p)) \<and> pl_PlayerID p \<noteq> 0"
    using SqliteSave_ok by blast
  show "SqliteSave T io c q s = (Some err, s') \<Longrightarrow> sq_rows io = None \<Longrightarrow> sql_wf T s \<Longrightarrow>
      sql_wf T s' \<and> sql_contents T s' = sql_contents T s"
    using SqliteSave_fail by blast
  show "SqliteDelete io c i s = (None, s') \<Longrightarrow> sql_wf T s \<Longrightarrow>
      sql_wf T s' \<and> sql_contents T s' = (sql_contents T s)(i := None) \<and> sql_contents T s i \<noteq> None"
    by (rule SqliteDelete_ok)
  show "SqliteDelete io c i s = (Some err, s') \<Longrightarrow> sq_rows io = None \<Longrightarrow> sql_wf T s \<Longrightarrow>
      sql_wf T s' \<and> sql_contents T s' = sql_contents T s"
    using SqliteDelete_fail by blast
qed

section \<open>Transactions\<close>

lemma SqliteUpdate_commit:
  assumes "sql_wf T s" "SqliteUpdate T io c i change s = (Inr g, s')"
  obtains f p p' where "change = Some f" "sql_contents T s i = Some (Some p)" "f p = Inr (p', g)"
    "pl_PlayerID p' = i" "pl_AccountID p' = pl_AccountID p" "sql_wf T s'"
    "sql_contents T s' = (sql_contents T s)(i \<mapsto> Some (stamped io p'))"
proof -
  obtain f p p' where
    f: "change = Some f" "readPlayer T (sqlCall c (sq_query io)) (selectPlayer (FormatUint i) (db_rows s)) = Inr p"
      "f p = Inr (p', g)" "pl_PlayerID p' = i" "pl_AccountID p' = pl_AccountID p"
      "s' = s\<lparr>db_rows := map (rewrite (FormatUint i) (pl_Data p') (tf_Format T (sq_now io))) (db_rows s)\<rparr>"
  proof -
    note run = assms(2) [unfolded SqliteUpdate_def Let_def updatePlayer_eq]
    obtain f where 1: "change = Some f" using run by (cases change) auto
    have 2: "sqlCall c (sq_begin io) = None" using run 1 by (cases "sqlCall c (sq_begin io)") auto
    obtain p where 3: "readPlayer T (sqlCall c (sq_query io)) (selectPlayer (FormatUint i) (db_rows s)) = Inr p"
      using run 1 2 by (cases "readPlayer T (sqlCall c (sq_query io)) (selectPlayer (FormatUint i) (db_rows s))") auto
    obtain p' g' where 4: "f p = Inr (p', g')" using run 1 2 3 by (cases "f p") auto
    have 5: "pl_PlayerID p' = i" "pl_AccountID p' = pl_AccountID p" "sqlCall c (sq_exec io) = None" "sqlCall c (sq_commit io) = None"
      using run 1 2 3 4 by (auto split: if_splits option.splits)
    with run 1 2 3 4 have "g' = g"
      "s' = s\<lparr>db_rows := map (rewrite (FormatUint i) (pl_Data p') (tf_Format T (sq_now io))) (db_rows s)\<rparr>" by auto
    with that [OF 1 3 _ 5(1,2)] 4 show ?thesis by simp
  qed
  have scan: "sqlCall c (sq_query io) = None" using f(2) by (auto simp: readPlayer_def split: option.splits)
  with f(2) obtain r where r: "selectPlayer (FormatUint i) (db_rows s) = Some r"
    by (auto simp: readPlayer_def split: option.splits)
  have p: "sql_contents T s i = Some (Some p)" using f(2) scan by (simp add: sql_contents_def)
  have "pl_AccountID p = sr_account_id r"
    by (rule sql_contents_read [OF assms(1) r]) (use p in simp)
  then have "stamped io p' = \<lparr> pl_PlayerID = i, pl_AccountID = sr_account_id r, pl_Data = pl_Data p', pl_UpdatedAt = sq_now io \<rparr>"
    using f(4,5) by (simp add: stamped_def)
  then have "sql_contents T s' = (sql_contents T s)(i \<mapsto> Some (stamped io p'))"
    using sql_contents_rewrite [OF assms(1) r] f(6) by simp
  moreover have "sql_wf T s'" unfolding f(6) by (rule sql_wf_rewrite [OF assms(1)])
  ultimately show ?thesis using that [OF f(1) p f(3-5)] by blast
qed

lemma SqliteUpdate_abort: "SqliteUpdate T io c i change s = (Inl err, s') \<Longrightarrow> s' = s"
  unfolding SqliteUpdate_def Let_def by (auto split: option.splits sum.splits if_splits)

section \<open>Properties\<close>

text \<open>The histories of the store: saves and transactions with any outcome of the driver, but that of
  counting the affected rows. A transaction's closure result does not matter.\<close>

inductive sql_step :: "timefmt \<Rightarrow> Store \<Rightarrow> Store \<Rightarrow> bool" for T :: timefmt where
  save: "SqliteSave T io c q s = (r, s') \<Longrightarrow> sq_rows io = None \<Longrightarrow> sql_step T s s'"
| update: "SqliteUpdate T io c i (change :: (Player \<Rightarrow> (Player \<times> unit) res) option) s = (r, s') \<Longrightarrow> sql_step T s s'"

lemma sql_step_keeps_identity:
  assumes "sql_step T s s'" "sql_wf T s"
  shows "sql_wf T s' \<and> (\<forall>i p. sql_contents T s i = Some (Some p) \<longrightarrow>
    (\<exists>p'. sql_contents T s' i = Some (Some p') \<and> pl_AccountID p' = pl_AccountID p))"
  using assms
proof cases
  case (save io c q r)
  show ?thesis
  proof (cases r)
    case None
    then obtain p where "q = Some p" using save sqlite.save_nil [of T io c s] by (cases q) auto
    with None save SqliteSave_ok [OF assms(2)] show ?thesis by (simp add: stamped_def)
  next
    case (Some e)
    with SqliteSave_fail save assms(2) show ?thesis by blast
  qed
next
  case (update io c i change r)
  show ?thesis
  proof (cases r)
    case (Inl e)
    with SqliteUpdate_abort update assms(2) show ?thesis by blast
  next
    case (Inr g)
    with update have "SqliteUpdate T io c i change s = (Inr g, s')" by simp
    then obtain p p' where "sql_contents T s i = Some (Some p)" "pl_AccountID p' = pl_AccountID p" "sql_wf T s'"
      "sql_contents T s' = (sql_contents T s)(i \<mapsto> Some (stamped io p'))"
      by (rule SqliteUpdate_commit [OF assms(2)]) 
    then show ?thesis by (simp add: stamped_def)
  qed
qed

text \<open>C26: an update is a transaction: it fails and leaves the database as it was, or it has run the
  callback once on the stored player and replaced exactly this player's data by what the callback
  made of it, with the same identity and a new time stamp; a nil callback is refused.\<close>
theorem sqlite_update_atomic:
  assumes "sql_wf T s" "SqliteUpdate T io c i change s = (r, s')"
  shows "(\<forall>err. r = Inl err \<longrightarrow> s' = s) \<and>
    (\<forall>g. r = Inr g \<longrightarrow> (\<exists>f p p'. change = Some f \<and> sql_contents T s i = Some (Some p) \<and> f p = Inr (p', g) \<and>
       pl_PlayerID p' = i \<and> pl_AccountID p' = pl_AccountID p \<and> sql_wf T s' \<and>
       sql_contents T s' = (sql_contents T s)(i \<mapsto> Some (p'\<lparr>pl_UpdatedAt := sq_now io\<rparr>))))"
  using SqliteUpdate_abort SqliteUpdate_commit [OF assms(1)] assms(2) unfolding stamped_def by metis

text \<open>the identity of a stored player is final: whatever is saved or updated afterwards, the player
  is still there with the same account, and no other player has this account.\<close>
theorem sqlite_identity_final:
  assumes "(sql_step T)\<^sup>*\<^sup>* s s'" "sql_wf T s" "sql_contents T s i = Some (Some p)"
  shows "(\<exists>p'. sql_contents T s' i = Some (Some p') \<and> pl_AccountID p' = pl_AccountID p) \<and>
    (\<forall>j q. sql_contents T s' j = Some (Some q) \<longrightarrow> pl_AccountID q = pl_AccountID p \<longrightarrow> j = i)"
proof -
  from assms have wf: "sql_wf T s' \<and> (\<exists>p'. sql_contents T s' i = Some (Some p') \<and> pl_AccountID p' = pl_AccountID p)"
  proof (induction rule: rtranclp_induct)
    case (step s1 s2)
    then show ?case using sql_step_keeps_identity [OF step.hyps(2)] by metis
  qed blast
  then obtain p' where p': "sql_contents T s' i = Some (Some p')" "pl_AccountID p' = pl_AccountID p" by blast
  have "j = i" if q: "sql_contents T s' j = Some (Some q)" "pl_AccountID q = pl_AccountID p" for j q
  proof -
    from p'(1) q(1) obtain r1 r2 where r: "selectPlayer (FormatUint i) (db_rows s') = Some r1"
      "selectPlayer (FormatUint j) (db_rows s') = Some r2"
      using sql_contents_None by (metis option.exhaust option.distinct(1))
    have "pl_AccountID p' = sr_account_id r1"
      by (rule sql_contents_read [OF conjunct1 [OF wf] r(1)]) (use p'(1) in simp)
    moreover have "pl_AccountID q = sr_account_id r2"
      by (rule sql_contents_read [OF conjunct1 [OF wf] r(2)]) (use q(1) in simp)
    ultimately have "sr_account_id r1 = sr_account_id r2" using p'(2) q(2) by simp
    then have "r1 = r2"
      using wf selectPlayer_Some(1) [OF r(1)] selectPlayer_Some(1) [OF r(2)]
      by (auto simp: sql_wf_def distinct_map inj_on_def)
    with selectPlayer_Some(2) [OF r(1)] selectPlayer_Some(2) [OF r(2)] show ?thesis by simp
  qed
  with wf show ?thesis by blast
qed

text \<open>One stored player and a textual form of time stamps.\<close>

definition demo_time :: timefmt where
  "demo_time = \<lparr> tf_Format = (\<lambda>t. (if 0 \<le> t then CHR ''+'' else CHR ''-'') # replicate (nat \<bar>t\<bar>) CHR ''1''),
     tf_Parse = (\<lambda>s. if hd s = CHR ''-'' then Inr (- int (length (tl s))) else Inr (int (length (tl s)))) \<rparr>"

definition demo_sql :: Store where
  "demo_sql = \<lparr> db_rows = [\<lparr> sr_player_id = FormatUint 5, sr_account_id = ''ann'', sr_data = [], sr_updated_at = ''+1'' \<rparr>] \<rparr>"

definition demo_sql_io :: sql_io where
  "demo_sql_io = \<lparr> sq_begin = None, sq_query = None, sq_exec = None, sq_rows = None, sq_commit = None, sq_now = 3 \<rparr>"

definition demo_sql_player :: Player where
  "demo_sql_player = \<lparr> pl_PlayerID = 5, pl_AccountID = ''ann'', pl_Data = [], pl_UpdatedAt = 1 \<rparr>"

lemma demo_time_ok: "timefmt_ok demo_time"
  by (simp add: timefmt_ok_def demo_time_def)

lemma demo_sql_wf: "sql_wf demo_time demo_sql"
  using demo_time_ok
  by (auto simp: sql_wf_def demo_sql_def row_ok_def demo_time_def intro!: exI [of _ 5])

lemma demo_sql_read:
  "readPlayer demo_time None (selectPlayer (FormatUint 5) (db_rows demo_sql)) = Inr demo_sql_player"
  "sql_contents demo_time demo_sql 5 = Some (Some demo_sql_player)"
  by (simp_all add: sql_contents_def demo_sql_def selectPlayer_def readPlayer_def demo_time_def demo_sql_player_def)

theorem sqlite_update_atomic_witness:
  "\<exists>s'. SqliteUpdate demo_time demo_sql_io None 5 (Some (\<lambda>p. Inr (p\<lparr>pl_Data := [9]\<rparr>, ()))) demo_sql = (Inr (), s') \<and>
     sql_contents demo_time s' 5 = Some (Some (demo_sql_player\<lparr>pl_Data := [9], pl_UpdatedAt := 3\<rparr>))"
proof -
  obtain s' where run:
    "SqliteUpdate demo_time demo_sql_io None 5 (Some (\<lambda>p. Inr (p\<lparr>pl_Data := [9]\<rparr>, ()))) demo_sql = (Inr (), s')"
    using demo_sql_read(1)
    by (simp add: SqliteUpdate_def sqlCall_def contextError_def demo_sql_io_def Let_def demo_sql_player_def)
  from conjunct2 [OF sqlite_update_atomic [OF demo_sql_wf run], rule_format, OF refl] obtain p' where
    "p' = demo_sql_player\<lparr>pl_Data := [9]\<rparr>"
    "sql_contents demo_time s' = (sql_contents demo_time demo_sql)(5 \<mapsto> Some (p'\<lparr>pl_UpdatedAt := sq_now demo_sql_io\<rparr>))"
    by (auto simp: demo_sql_read(2))
  with run show ?thesis by (simp add: demo_sql_io_def)
qed

theorem sqlite_identity_final_witness:
  "fst (SqliteSave demo_time demo_sql_io None (Some (demo_sql_player\<lparr>pl_AccountID := ''bob''\<rparr>)) demo_sql) = Some ErrIdentityConflict \<and>
   (\<exists>p'. sql_contents demo_time (snd (SqliteSave demo_time demo_sql_io None
      (Some (demo_sql_player\<lparr>pl_AccountID := ''bob''\<rparr>)) demo_sql)) 5 = Some (Some p') \<and> pl_AccountID p' = ''ann'')"
proof -
  let ?run = "SqliteSave demo_time demo_sql_io None (Some (demo_sql_player\<lparr>pl_AccountID := ''bob''\<rparr>)) demo_sql"
  have "sql_step demo_time demo_sql (snd ?run)"
    by (rule sql_step.save [where r = "fst ?run" and q = "Some (demo_sql_player\<lparr>pl_AccountID := ''bob''\<rparr>)"
          and io = demo_sql_io and c = None])
      (simp_all add: demo_sql_io_def)
  then have "\<exists>p'. sql_contents demo_time (snd ?run) 5 = Some (Some p') \<and> pl_AccountID p' = pl_AccountID demo_sql_player"
    using conjunct1 [OF sqlite_identity_final [OF r_into_rtranclp demo_sql_wf demo_sql_read(2)]] by blast
  moreover have "fst ?run = Some ErrIdentityConflict"
    by (simp add: SqliteSave_def demo_sql_player_def sqlCall_def contextError_def demo_sql_io_def insertPlayer_def
        selectPlayer_def demo_sql_def Let_def)
  ultimately show ?thesis by (simp add: demo_sql_player_def)
qed

end
