(* ===== verification/GameProgress.thy ===== *)
theory GameProgress
  imports GameService SqliteStore
begin

text \<open>
  The players' progress of \<open>examples/gameapp/progress.go\<close>: the decoding with its checks, the starter
  reward and the use of items, as changes inside one transaction of the player store. The JSON
  encoding is an argument. The locale \<open>progress_store\<close> is what the service relies on: a transaction is
  stored as a whole when it succeeds and not at all when it fails, a stored player is found, and a
  save touches one player. The SQLite store of \<open>examples/sqlitestore\<close> provides it.
\<close>

section \<open>Progress\<close>

text \<open>The inventory is a map; a nil map is \<open>None\<close>.\<close>

record Progress =
  pg_Version :: int
  pg_Level :: int
  pg_Experience :: int
  pg_Inventory :: "(string \<times> int) list option"
  pg_StarterClaimed :: bool

record progress_json =
  pj_marshal :: "Progress \<Rightarrow> bytes res"
  pj_unmarshal :: "bytes \<Rightarrow> Progress res"

definition decodeProgress :: "progress_json \<Rightarrow> bytes \<Rightarrow> Progress res" where
  "decodeProgress J data =
     (if data = []
      then Inr \<lparr> pg_Version = 1, pg_Level = 1, pg_Experience = 0, pg_Inventory = Some [], pg_StarterClaimed = False \<rparr>
      else (case pj_unmarshal J data of
              Inl err \<Rightarrow> Inl err
            | Inr p \<Rightarrow>
                if pg_Version p \<noteq> 1 \<or> pg_Experience p < 0 \<or> pg_Experience p > 100
                  \<or> pg_Level p \<noteq> 1 + pg_Experience p div 100 \<or> pg_Inventory p = None
                then Inl (Err ''invalid example progress'')
                else if \<not> list_all (\<lambda>(item, amount). item = ''potion'' \<and> 0 \<le> amount \<and> amount \<le> 2) (the (pg_Inventory p))
                then Inl (Err ''invalid example inventory'')
                else if (\<not> pg_StarterClaimed p \<and> (pg_Experience p \<noteq> 0 \<or> length (the (pg_Inventory p)) \<noteq> 0))
                  \<or> (pg_StarterClaimed p \<and> pg_Experience p \<noteq> 100)
                then Inl (Err ''invalid starter reward state'')
                else Inr p))"

definition itemCount :: "string \<Rightarrow> (string \<times> int) list \<Rightarrow> int" where
  "itemCount item inventory = (case map_of inventory item of None \<Rightarrow> 0 | Some amount \<Rightarrow> amount)"

text \<open>Writing to a nil map panics.\<close>

definition starterChange :: "Progress \<Rightarrow> Progress res" where
  "starterChange p =
     (if pg_StarterClaimed p then Inl ErrRewardClaimed
      else (case pg_Inventory p of
              None \<Rightarrow> Inl (Panic ''assignment to entry in nil map'')
            | Some inventory \<Rightarrow>
                (let experience = pg_Experience p + 100
                 in Inr (p\<lparr>pg_StarterClaimed := True, pg_Experience := experience, pg_Level := 1 + experience div 100,
                           pg_Inventory := Some (AList.update ''potion'' (itemCount ''potion'' inventory + 2) inventory)\<rparr>))))"

definition itemChange :: "string \<Rightarrow> Progress \<Rightarrow> Progress res" where
  "itemChange itemID p =
     (case pg_Inventory p of
        None \<Rightarrow> Inl ErrItemUnavailable
      | Some inventory \<Rightarrow>
          if itemID \<noteq> ''potion'' \<or> itemCount itemID inventory \<le> 0 then Inl ErrItemUnavailable
          else Inr (p\<lparr>pg_Inventory := Some (AList.update itemID (itemCount itemID inventory - 1) inventory)\<rparr>))"

section \<open>Reading and changing progress\<close>

definition loadProgress :: "progress_json \<Rightarrow> 'st store_ops \<Rightarrow> ctx \<Rightarrow> u64 \<Rightarrow> 'st Service \<Rightarrow> Progress res" where
  "loadProgress J S ctx playerID s =
     (case st_Load S ctx playerID (sv_store s) of
        Inl err \<Rightarrow> Inl err
      | Inr None \<Rightarrow> Inl nil_deref
      | Inr (Some player) \<Rightarrow> decodeProgress J (pl_Data player))"

definition ServiceProgress ::
  "progress_json \<Rightarrow> 'st store_ops \<Rightarrow> ctx \<Rightarrow> string \<Rightarrow> gotime \<Rightarrow> 'st Service \<Rightarrow> Progress res" where
  "ServiceProgress J S ctx token now s =
     (case sessionLocked token now s of
        Inl err \<Rightarrow> Inl err
      | Inr value \<Rightarrow> loadProgress J S ctx (ses_PlayerID value) s)"

definition ConnectionProgress ::
  "progress_json \<Rightarrow> 'st store_ops \<Rightarrow> ctx \<Rightarrow> u32 \<Rightarrow> gotime \<Rightarrow> gotime \<Rightarrow> 'st Service \<Rightarrow> Progress res" where
  "ConnectionProgress J S ctx connID now1 now2 s =
     (case authenticatedLocked connID now1 s of
        Inl err \<Rightarrow> Inl err
      | Inr connection \<Rightarrow>
          (case GetByConnID (sv_sessions s) connID now2 of
             Inl err \<Rightarrow> Inl ErrUnauthorized
           | Inr value \<Rightarrow> loadProgress J S ctx (ses_PlayerID value) s))"

text \<open>
  \<open>Update\<close> of a transactional store: the callback gets the stored player and returns the changed one
  together with the result the caller keeps.
\<close>

type_synonym 'st transaction =
  "ctx \<Rightarrow> u64 \<Rightarrow> (Player \<Rightarrow> (Player \<times> Progress) res) \<Rightarrow> 'st \<Rightarrow> Progress res \<times> 'st"

definition progressCallback ::
  "progress_json \<Rightarrow> string \<Rightarrow> (Progress \<Rightarrow> Progress res) \<Rightarrow> Player \<Rightarrow> (Player \<times> Progress) res" where
  "progressCallback J accountID change player =
     (if pl_AccountID player \<noteq> accountID then Inl ErrUnauthorized
      else (case decodeProgress J (pl_Data player) of
              Inl err \<Rightarrow> Inl err
            | Inr p \<Rightarrow>
                (case change p of
                   Inl err \<Rightarrow> Inl err
                 | Inr p' \<Rightarrow>
                     (case pj_marshal J p' of
                        Inl err \<Rightarrow> Inl err
                      | Inr data \<Rightarrow> Inr (player\<lparr>pl_Data := data\<rparr>, p')))))"

definition changeProgress ::
  "progress_json \<Rightarrow> 'st transaction option \<Rightarrow> ctx \<Rightarrow> u32 \<Rightarrow> gotime \<Rightarrow> gotime \<Rightarrow> (Progress \<Rightarrow> Progress res)
   \<Rightarrow> 'st Service \<Rightarrow> Progress res \<times> 'st Service" where
  "changeProgress J U ctx connID now1 now2 change s =
     (case authenticatedLocked connID now1 s of
        Inl err \<Rightarrow> (Inl err, s)
      | Inr conn \<Rightarrow>
          if cp_roomID conn = 0 then (Inl ErrNotInRoom, s)
          else (case GetByConnID (sv_sessions s) connID now2 of
                  Inl err \<Rightarrow> (Inl ErrUnauthorized, s)
                | Inr value \<Rightarrow>
                    (case U of
                       None \<Rightarrow> (Inl (Err ''progress changes require a transactional example store''), s)
                     | Some update \<Rightarrow>
                         (case update ctx (ses_PlayerID value)
                                 (progressCallback J (ses_AccountID value) change) (sv_store s) of
                            (r, st) \<Rightarrow> (r, s\<lparr>sv_store := st\<rparr>)))))"

definition ClaimStarter ::
  "progress_json \<Rightarrow> 'st transaction option \<Rightarrow> ctx \<Rightarrow> u32 \<Rightarrow> gotime \<Rightarrow> gotime \<Rightarrow> 'st Service \<Rightarrow> Progress res \<times> 'st Service" where
  "ClaimStarter J U ctx connID now1 now2 s = changeProgress J U ctx connID now1 now2 starterChange s"

definition UseItem ::
  "progress_json \<Rightarrow> 'st transaction option \<Rightarrow> ctx \<Rightarrow> u32 \<Rightarrow> string \<Rightarrow> gotime \<Rightarrow> gotime \<Rightarrow> 'st Service
   \<Rightarrow> Progress res \<times> 'st Service" where
  "UseItem J U ctx connID itemID now1 now2 s = changeProgress J U ctx connID now1 now2 (itemChange itemID) s"

section \<open>Valid progress\<close>

text \<open>What \<open>decodeProgress\<close> lets through.\<close>

definition valid_progress :: "Progress \<Rightarrow> bool" where
  "valid_progress p \<longleftrightarrow>
     pg_Version p = 1 \<and> pg_Experience p = (if pg_StarterClaimed p then 100 else 0) \<and>
     pg_Level p = 1 + pg_Experience p div 100 \<and>
     (\<exists>inventory. pg_Inventory p = Some inventory \<and>
        list_all (\<lambda>(item, amount). item = ''potion'' \<and> 0 \<le> amount \<and> amount \<le> 2) inventory \<and>
        (\<not> pg_StarterClaimed p \<longrightarrow> inventory = []))"

lemma decodeProgress_valid: "decodeProgress J data = Inr p \<Longrightarrow> valid_progress p"
  by (auto simp: decodeProgress_def valid_progress_def split: if_splits sum.splits)

lemma decodeProgress_accepts:
  assumes "valid_progress p" "data \<noteq> []" "pj_unmarshal J data = Inr p"
  shows "decodeProgress J data = Inr p"
  using assms by (auto simp: decodeProgress_def valid_progress_def split: if_splits)

definition potions :: "Progress \<Rightarrow> int" where
  "potions p = (case pg_Inventory p of None \<Rightarrow> 0 | Some inventory \<Rightarrow> itemCount ''potion'' inventory)"

lemma itemCount_range:
  assumes "list_all (\<lambda>(item, amount). item = ''potion'' \<and> 0 \<le> amount \<and> amount \<le> 2) inventory"
  shows "0 \<le> itemCount item inventory \<and> itemCount item inventory \<le> 2"
proof (cases "map_of inventory item")
  case (Some c)
  then have "(item, c) \<in> set inventory" by (rule map_of_SomeD)
  with assms Some show ?thesis by (auto simp: itemCount_def list_all_iff)
qed (simp add: itemCount_def)

lemma list_all_update:
  assumes "list_all P xs" "P (k, v)"
  shows "list_all P (AList.update k v xs)"
  using assms by (induction xs) auto

lemma itemCount_update [simp]: "itemCount k (AList.update k v xs) = v"
  by (simp add: itemCount_def update_conv')

lemma starterChange_valid:
  assumes "valid_progress p" "starterChange p = Inr p'"
  shows "valid_progress p'" "\<not> pg_StarterClaimed p" "pg_StarterClaimed p'" "potions p = 0" "potions p' = 2"
  using assms
  by (auto simp: starterChange_def valid_progress_def potions_def itemCount_def Let_def split: if_splits option.splits)

lemma itemChange_valid:
  assumes "valid_progress p" "itemChange item p = Inr p'"
  shows "valid_progress p'" "pg_StarterClaimed p' = pg_StarterClaimed p" "potions p' = potions p - 1" "0 < potions p"
proof -
  obtain inv where inv: "pg_Inventory p = Some inv"
      "list_all (\<lambda>(item, amount). item = ''potion'' \<and> 0 \<le> amount \<and> amount \<le> 2) inv"
      "\<not> pg_StarterClaimed p \<longrightarrow> inv = []"
    using assms(1) by (auto simp: valid_progress_def)
  from assms(2) inv(1) have p': "item = ''potion''" "0 < itemCount ''potion'' inv"
    "p' = p\<lparr>pg_Inventory := Some (AList.update ''potion'' (itemCount ''potion'' inv - 1) inv)\<rparr>"
    by (auto simp: itemChange_def split: if_splits)
  have "list_all (\<lambda>(item, amount). item = ''potion'' \<and> 0 \<le> amount \<and> amount \<le> 2) (AList.update ''potion'' (itemCount ''potion'' inv - 1) inv)"
    using list_all_update [OF inv(2)] itemCount_range [OF inv(2), of "''potion''"] p'(2) by simp
  moreover have "inv \<noteq> []" using p'(2) by (auto simp: itemCount_def)
  ultimately show "valid_progress p'" using assms(1) inv by (auto simp: valid_progress_def p'(3))
  show "pg_StarterClaimed p' = pg_StarterClaimed p" "potions p' = potions p - 1" "0 < potions p"
    using p'(2) by (simp_all add: p'(3) potions_def inv(1))
qed

section \<open>Encodings\<close>

text \<open>The keys of a map are different; what is encoded is decoded to the same map and is not empty.\<close>

definition is_map :: "Progress \<Rightarrow> bool" where
  "is_map p = (case pg_Inventory p of None \<Rightarrow> True | Some inventory \<Rightarrow> distinct (map fst inventory))"

definition progress_json_ok :: "progress_json \<Rightarrow> bool" where
  "progress_json_ok J \<longleftrightarrow>
     (\<forall>d p. pj_unmarshal J d = Inr p \<longrightarrow> is_map p) \<and>
     (\<forall>p d. is_map p \<and> valid_progress p \<and> pj_marshal J p = Inr d \<longrightarrow> d \<noteq> [] \<and> pj_unmarshal J d = Inr p)"

lemma decodeProgress_is_map:
  assumes "progress_json_ok J" "decodeProgress J data = Inr p"
  shows "is_map p"
proof (cases "data = []")
  case True
  with assms(2) show ?thesis by (auto simp: decodeProgress_def is_map_def)
next
  case False
  with assms(2) have "pj_unmarshal J data = Inr p"
    by (auto simp: decodeProgress_def split: if_splits sum.splits)
  with assms(1) show ?thesis unfolding progress_json_ok_def by blast
qed

lemma change_is_map:
  "is_map p \<Longrightarrow> starterChange p = Inr p' \<Longrightarrow> is_map p'"
  "is_map p \<Longrightarrow> itemChange item p = Inr p' \<Longrightarrow> is_map p'"
  by (auto simp: starterChange_def itemChange_def is_map_def Let_def distinct_update split: if_splits option.splits)

section \<open>The store after a login\<close>

lemma disconnectLocked_store:
  assumes "disconnectLocked k b s w = (s', w')"
  shows "sv_store s' = sv_store s"
proof -
  have call: "sv_store (snd (roomCall room f s)) = sv_store s" for room f s
    by (auto simp: roomCall_def split: option.split prod.split)
  show ?thesis using assms
    by (auto simp: disconnectLocked_def Let_def call split: option.splits sum.splits if_splits)
qed

lemma loadOrCreate_store:
  assumes "loadOrCreate S ctx i a now s = (r, s1)"
  obtains (kept) "sv_store s1 = sv_store s"
  | (saved) p err err' where "st_Load S ctx i (sv_store s) = Inl err" "errorsIs err ErrPlayerNotFound"
      "pl_PlayerID p = i" "st_Save S ctx (Some p) (sv_store s) = (err', sv_store s1)"
proof (cases "\<exists>err. st_Load S ctx i (sv_store s) = Inl err \<and> errorsIs err ErrPlayerNotFound")
  case True
  then obtain err where err: "st_Load S ctx i (sv_store s) = Inl err" "errorsIs err ErrPlayerNotFound" by blast
  let ?p = "\<lparr> pl_PlayerID = i, pl_AccountID = a, pl_Data = [], pl_UpdatedAt = now \<rparr>"
  obtain err' st where save: "st_Save S ctx (Some ?p) (sv_store s) = (err', st)" by fastforce
  with assms err have "sv_store s1 = st" by (cases err') (auto simp: loadOrCreate_def)
  with saved [OF err, of ?p err'] save show ?thesis by simp
next
  case False
  with assms have "s1 = s" by (cases "st_Load S ctx i (sv_store s)") (auto simp: loadOrCreate_def)
  with kept show ?thesis by simp
qed

lemma ServiceLogin_store:
  assumes run: "ServiceLogin bc S ctx accountID password now1 random now2 s w = (r, s', w')"
  obtains (kept) "sv_store s' = sv_store s"
  | (saved) i p err err' where "st_Load S ctx i (sv_store s) = Inl err" "errorsIs err ErrPlayerNotFound"
      "pl_PlayerID p = i" "st_Save S ctx (Some p) (sv_store s) = (err', sv_store s')"
proof (cases "sv_store s' = sv_store s")
  case True
  then show ?thesis by (rule kept)
next
  case False
  then obtain account where account: "sv_accounts s accountID = Some account"
    using run by (cases "sv_accounts s accountID") (auto simp: ServiceLogin_def Let_def)
  obtain pr s1 where load: "loadOrCreate S ctx (ac_PlayerID account) accountID now1 s = (pr, s1)" by fastforce
  have same: "sv_store s' = sv_store s \<or> sv_store s' = sv_store s1"
    using run account load
    by (auto simp: ServiceLogin_def Let_def dest!: disconnectLocked_store
        split: if_splits sum.splits option.splits prod.splits)
  with False have "sv_store s' = sv_store s1" by blast
  with load show ?thesis by (cases rule: loadOrCreate_store) (use False saved in auto)
qed

section \<open>The balance of a player\<close>

definition balanced :: "progress_json \<Rightarrow> (u64 \<rightharpoonup> Player) \<Rightarrow> u64 \<Rightarrow> nat \<Rightarrow> nat \<Rightarrow> bool" where
  "balanced J m pid c u \<longleftrightarrow>
     (\<exists>p q. m pid = Some p \<and> decodeProgress J (pl_Data p) = Inr q \<and>
        pg_StarterClaimed q = (c = 1) \<and> c \<le> 1 \<and> potions q = 2 * int c - int u)"

lemma balanced_store:
  assumes "progress_json_ok J" "decodeProgress J (pl_Data p) = Inr q" "is_map g" "valid_progress g" "pj_marshal J g = Inr d"
    and "pg_StarterClaimed g = (c = 1)" "c \<le> 1" "potions g = 2 * int c - int u"
  shows "balanced J (m(pid \<mapsto> p\<lparr>pl_Data := d, pl_UpdatedAt := ts\<rparr>)) pid c u"
proof -
  have "d \<noteq> []" "pj_unmarshal J d = Inr g" using assms(1,3-5) unfolding progress_json_ok_def by blast+
  then have "decodeProgress J d = Inr g" using decodeProgress_accepts [OF assms(4)] by blast
  with assms(6-8) show ?thesis by (simp add: balanced_def)
qed

section \<open>The store the service relies on\<close>

text \<open>
  \<open>update\<close> and \<open>ops\<close> are the calls on the store with the outcomes \<open>'e\<close> of its driver; \<open>genuine\<close> are the
  outcomes in which the driver does not report a missing player as a failure of its own.
\<close>

locale progress_store =
  fixes update :: "'e \<Rightarrow> 'st transaction"
    and ops :: "'e \<Rightarrow> 'st store_ops"
    and contents :: "'st \<Rightarrow> u64 \<rightharpoonup> Player"
    and wf :: "'st \<Rightarrow> bool"
    and genuine :: "'e \<Rightarrow> ctx \<Rightarrow> bool"
  assumes abort: "wf st \<Longrightarrow> update e c i f st = (Inl err, st') \<Longrightarrow> wf st' \<and> contents st' = contents st"
    and commit: "wf st \<Longrightarrow> update e c i f st = (Inr g, st') \<Longrightarrow> wf st' \<and>
      (\<exists>p p' ts. contents st i = Some p \<and> f p = Inr (p', g) \<and>
        contents st' = (contents st)(i \<mapsto> p'\<lparr>pl_UpdatedAt := ts\<rparr>))"
    and load_missing: "wf st \<Longrightarrow> genuine e c \<Longrightarrow> st_Load (ops e) c i st = Inl err \<Longrightarrow>
      errorsIs err ErrPlayerNotFound \<Longrightarrow> contents st i = None"
    and save_one: "wf st \<Longrightarrow> genuine e c \<Longrightarrow> st_Save (ops e) c (Some p) st = (r, st') \<Longrightarrow>
      wf st' \<and> (\<forall>j. j \<noteq> pl_PlayerID p \<longrightarrow> contents st' j = contents st j)"
begin

lemma changeProgress_result:
  assumes wf: "wf (sv_store s)" and run: "changeProgress J (Some (update e)) ctx k now1 now2 change s = (r, s')"
  obtains (failed) err where "r = Inl err" "wf (sv_store s')" "contents (sv_store s') = contents (sv_store s)"
  | (changed) cp v p q g d ts where "authenticatedLocked k now1 s = Inr cp" "cp_roomID cp \<noteq> 0"
      "GetByConnID (sv_sessions s) k now2 = Inr v" "contents (sv_store s) (ses_PlayerID v) = Some p"
      "pl_AccountID p = ses_AccountID v" "decodeProgress J (pl_Data p) = Inr q" "change q = Inr g" "pj_marshal J g = Inr d"
      "r = Inr g" "wf (sv_store s')" "contents (sv_store s') = (contents (sv_store s))(ses_PlayerID v \<mapsto> p\<lparr>pl_Data := d, pl_UpdatedAt := ts\<rparr>)"
proof (cases "\<exists>cp v. authenticatedLocked k now1 s = Inr cp \<and> cp_roomID cp \<noteq> 0 \<and> GetByConnID (sv_sessions s) k now2 = Inr v")
  case False
  then have "\<exists>err. r = Inl err \<and> s' = s"
    using run by (auto simp: changeProgress_def split: sum.splits if_splits)
  with failed wf show ?thesis by blast
next
  case True
  then obtain cp v where cv: "authenticatedLocked k now1 s = Inr cp" "cp_roomID cp \<noteq> 0" "GetByConnID (sv_sessions s) k now2 = Inr v"
    by blast
  obtain st where u: "update e ctx (ses_PlayerID v) (progressCallback J (ses_AccountID v) change) (sv_store s) = (r, st)"
    "s' = s\<lparr>sv_store := st\<rparr>"
    using run cv by (auto simp: changeProgress_def split: prod.splits)
  show ?thesis
  proof (cases r)
    case (Inl err)
    with abort [OF wf] u failed show ?thesis by simp
  next
    case (Inr g)
    from commit [OF wf u(1) [unfolded Inr]] obtain p p' ts where p: "contents (sv_store s) (ses_PlayerID v) = Some p"
      "progressCallback J (ses_AccountID v) change p = Inr (p', g)" "wf st"
      "contents st = (contents (sv_store s))(ses_PlayerID v \<mapsto> p'\<lparr>pl_UpdatedAt := ts\<rparr>)" by blast
    from p(2) obtain q d where "pl_AccountID p = ses_AccountID v" "decodeProgress J (pl_Data p) = Inr q" "change q = Inr g"
      "pj_marshal J g = Inr d" "p' = p\<lparr>pl_Data := d\<rparr>"
      by (auto simp: progressCallback_def split: if_splits sum.splits)
    with cv p Inr u(2) changed show ?thesis by auto
  qed
qed

text \<open>
  The ledger of a player: progress changes and logins, in any states of the service that share the
  store, with the number of starter rewards and of items that the player's calls have been granted.
\<close>

inductive ledger :: "progress_json \<Rightarrow> u64 \<Rightarrow> 'st \<Rightarrow> nat \<Rightarrow> nat \<Rightarrow> 'st \<Rightarrow> bool"
  for J :: progress_json and pid :: u64 and st0 :: 'st where
  start: "ledger J pid st0 0 0 st0"
| claim: "\<lbrakk>ledger J pid st0 c u (sv_store s); ClaimStarter J (Some (update e)) ctx k now1 now2 s = (Inr g, s');
    GetByConnID (sv_sessions s) k now2 = Inr v; ses_PlayerID v = pid\<rbrakk> \<Longrightarrow> ledger J pid st0 (Suc c) u (sv_store s')"
| useItem: "\<lbrakk>ledger J pid st0 c u (sv_store s); UseItem J (Some (update e)) ctx k item now1 now2 s = (Inr g, s');
    GetByConnID (sv_sessions s) k now2 = Inr v; ses_PlayerID v = pid\<rbrakk> \<Longrightarrow> ledger J pid st0 c (Suc u) (sv_store s')"
| otherPlayer: "\<lbrakk>ledger J pid st0 c u (sv_store s); changeProgress J (Some (update e)) ctx k now1 now2 change s = (Inr g, s');
    GetByConnID (sv_sessions s) k now2 = Inr v; ses_PlayerID v \<noteq> pid\<rbrakk> \<Longrightarrow> ledger J pid st0 c u (sv_store s')"
| refused: "\<lbrakk>ledger J pid st0 c u (sv_store s); changeProgress J (Some (update e)) ctx k now1 now2 change s = (Inl err, s')\<rbrakk>
    \<Longrightarrow> ledger J pid st0 c u (sv_store s')"
| login: "\<lbrakk>ledger J pid st0 c u (sv_store s); genuine e ctx;
    ServiceLogin bc (ops e) ctx accountID password now1 random now2 s (w :: unit conn_store) = (r, s', w')\<rbrakk>
    \<Longrightarrow> ledger J pid st0 c u (sv_store s')"

lemma ledger_balanced:
  assumes "ledger J pid st0 c u st" "wf st0" "progress_json_ok J" "contents st0 pid = Some p0" "pl_Data p0 = []"
  shows "wf st \<and> balanced J (contents st) pid c u"
  using assms(1)
proof (induction rule: ledger.induct)
  case start
  show ?case using assms(2,4,5) by (simp add: balanced_def decodeProgress_def potions_def itemCount_def)
next
  case (claim c u s e ctx k now1 now2 g s' v)
  from conjunct1 [OF claim.IH] claim(2) [unfolded ClaimStarter_def] show ?case
  proof (cases rule: changeProgress_result)
    case (changed cp v' p q g' d ts)
    with claim(3,4) have v': "v' = v" "ses_PlayerID v' = pid" by simp_all
    from claim.IH changed(4,6) v' have q: "pg_StarterClaimed q = (c = 1)" "c \<le> 1" "potions q = 2 * int c - int u"
      by (auto simp: balanced_def)
    note valid = starterChange_valid [OF decodeProgress_valid [OF changed(6)] changed(7)]
    have "c = 0" using q(1,2) valid(2) by auto
    with valid q changed show ?thesis
      unfolding changed(11) v'(2)
      by (intro conjI balanced_store [OF assms(3) changed(6) change_is_map(1) [OF decodeProgress_is_map [OF assms(3) changed(6)] changed(7)]]) auto
  qed simp
next
  case (useItem c u s e ctx k item now1 now2 g s' v)
  from conjunct1 [OF useItem.IH] useItem(2) [unfolded UseItem_def] show ?case
  proof (cases rule: changeProgress_result)
    case (changed cp v' p q g' d ts)
    with useItem(3,4) have v': "v' = v" "ses_PlayerID v' = pid" by simp_all
    from useItem.IH changed(4,6) v' have q: "pg_StarterClaimed q = (c = 1)" "c \<le> 1" "potions q = 2 * int c - int u"
      by (auto simp: balanced_def)
    note valid = itemChange_valid [OF decodeProgress_valid [OF changed(6)] changed(7)]
    with q changed show ?thesis
      unfolding changed(11) v'(2)
      by (intro conjI balanced_store [OF assms(3) changed(6) change_is_map(2) [OF decodeProgress_is_map [OF assms(3) changed(6)] changed(7)]]) auto
  qed simp
next
  case (otherPlayer c u s e ctx k now1 now2 change g s' v)
  from conjunct1 [OF otherPlayer.IH] otherPlayer(2) show ?case
  proof (cases rule: changeProgress_result)
    case (changed cp v' p q g' d ts)
    with otherPlayer(3,4) have "ses_PlayerID v' \<noteq> pid" by simp
    with otherPlayer.IH changed(10,11) show ?thesis by (simp add: balanced_def)
  qed simp
next
  case (refused c u s e ctx k now1 now2 change err s')
  from conjunct1 [OF refused.IH] refused(2) show ?case
    by (cases rule: changeProgress_result) (use refused.IH in simp_all)
next
  case (login c u s e ctx bc accountID password now1 random now2 w r s' w')
  from login(3) show ?case
  proof (cases rule: ServiceLogin_store)
    case (saved i p err err')
    note missing = load_missing [OF conjunct1 [OF login.IH] login(2) saved(1,2)]
    note other = save_one [OF conjunct1 [OF login.IH] login(2) saved(4)]
    have "pid \<noteq> pl_PlayerID p" using missing saved(3) login.IH by (auto simp: balanced_def)
    with other login.IH show ?thesis by (simp add: balanced_def)
  qed (use login.IH in simp)
qed

end

section \<open>The SQLite store as the store of the service\<close>

definition sql_players :: "timefmt \<Rightarrow> Store \<Rightarrow> u64 \<rightharpoonup> Player" where
  "sql_players T st i = (case sql_contents T st i of None \<Rightarrow> None | Some p \<Rightarrow> p)"

definition sql_genuine :: "sql_io \<Rightarrow> ctx \<Rightarrow> bool" where
  "sql_genuine io c \<longleftrightarrow> sq_rows io = None \<and>
     (case sqlCall c (sq_query io) of None \<Rightarrow> True | Some err \<Rightarrow> \<not> errorsIs err ErrPlayerNotFound)"

lemma sql_players_upd:
  "sql_contents T st' = (sql_contents T st)(i \<mapsto> Some p) \<Longrightarrow> sql_players T st' = (sql_players T st)(i \<mapsto> p)"
  by (simp add: fun_eq_iff sql_players_def)

interpretation sqlite_progress: progress_store "\<lambda>io c i f. SqliteUpdate T io c i (Some f)"
    "\<lambda>io. \<lparr> st_Load = SqliteLoad T io, st_Save = SqliteSave T io \<rparr>" "sql_players T" "sql_wf T" sql_genuine for T
proof
  fix st st' :: Store and io :: sql_io and c :: ctx and i :: u64 and p :: Player and err :: go_error
    and f :: "Player \<Rightarrow> (Player \<times> Progress) res" and g :: Progress and r :: "go_error option"
  show "sql_wf T st \<Longrightarrow> SqliteUpdate T io c i (Some f) st = (Inl err, st') \<Longrightarrow> sql_wf T st' \<and> sql_players T st' = sql_players T st"
    using SqliteUpdate_abort by blast
  show "sql_wf T st' \<and> (\<exists>p p' ts. sql_players T st i = Some p \<and> f p = Inr (p', g) \<and>
        sql_players T st' = (sql_players T st)(i \<mapsto> p'\<lparr>pl_UpdatedAt := ts\<rparr>))"
    if wf: "sql_wf T st" and run: "SqliteUpdate T io c i (Some f) st = (Inr g, st')"
  proof -
    obtain p p' where p: "sql_contents T st i = Some (Some p)" "f p = Inr (p', g)" "sql_wf T st'"
      "sql_contents T st' = (sql_contents T st)(i \<mapsto> Some (stamped io p'))"
      by (rule SqliteUpdate_commit [OF wf run]) auto
    then have "sql_players T st i = Some p" by (simp add: sql_players_def)
    with p sql_players_upd [OF p(4)] show ?thesis unfolding stamped_def by blast
  qed
  show "sql_players T st i = None"
    if "sql_wf T st" "sql_genuine io c" "st_Load \<lparr> st_Load = SqliteLoad T io, st_Save = SqliteSave T io \<rparr> c i st = Inl err"
      "errorsIs err ErrPlayerNotFound"
  proof (cases "sqlCall c (sq_query io)")
    case None
    with that(3) readPlayer_contents [OF that(1), of i] show ?thesis
      by (auto simp: SqliteLoad_def sql_players_def split: option.splits sum.splits)
  next
    case (Some e)
    with that show ?thesis by (simp add: SqliteLoad_def readPlayer_def sql_genuine_def)
  qed
  show "sql_wf T st' \<and> (\<forall>j. j \<noteq> pl_PlayerID p \<longrightarrow> sql_players T st' j = sql_players T st j)"
    if "sql_wf T st" "sql_genuine io c"
      "st_Save \<lparr> st_Load = SqliteLoad T io, st_Save = SqliteSave T io \<rparr> c (Some p) st = (r, st')"
  proof (cases r)
    case None
    with that SqliteSave_ok [OF that(1), of io c p st'] show ?thesis by (simp add: sql_players_def)
  next
    case (Some e)
    with that SqliteSave_fail [of T io c "Some p" st e st'] show ?thesis by (simp add: sql_genuine_def)
  qed
qed

section \<open>Properties\<close>

text \<open>C25: whatever progress changes and logins are requested, over any number of sessions and with any
  failures of the database, a player stored empty has been granted the starter reward at most once
  and has used at most the two items of it: the stored progress is valid, its items are those
  granted minus those used, and a further claim is refused as soon as one was granted.\<close>
theorem starter_reward_once:
  assumes "sqlite_progress.ledger T J pid st0 c u st" "sql_wf T st0" "progress_json_ok J"
    and "sql_players T st0 pid = Some p0" "pl_Data p0 = []"
  shows "c \<le> 1 \<and> u \<le> 2 * c \<and>
    (\<exists>p q. sql_players T st pid = Some p \<and> decodeProgress J (pl_Data p) = Inr q \<and> valid_progress q \<and>
       potions q = 2 * int c - int u \<and>
       (c = 1 \<longrightarrow> starterChange q = Inl ErrRewardClaimed))"
proof -
  obtain p q where pq: "sql_players T st pid = Some p" "decodeProgress J (pl_Data p) = Inr q"
    "pg_StarterClaimed q = (c = 1)" "c \<le> 1" "potions q = 2 * int c - int u"
    using sqlite_progress.ledger_balanced [OF assms] unfolding balanced_def by blast
  have valid: "valid_progress q" using decodeProgress_valid [OF pq(2)] .
  then have "0 \<le> potions q"
    using itemCount_range by (fastforce simp: valid_progress_def potions_def)
  then show ?thesis using pq valid by (auto simp: starterChange_def)
qed

text \<open>The service of the previous theory over the database with one empty player.\<close>

definition demo_claimed :: Progress where
  "demo_claimed = \<lparr> pg_Version = 1, pg_Level = 2, pg_Experience = 100, pg_Inventory = Some [(''potion'', 2)],
     pg_StarterClaimed = True \<rparr>"

definition demo_pjson :: progress_json where
  "demo_pjson = \<lparr> pj_marshal = (\<lambda>p. if p = demo_claimed then Inr [1] else Inl (Err ''unsupported'')),
     pj_unmarshal = (\<lambda>d. if d = [1] then Inr demo_claimed else Inl (Err ''invalid character'')) \<rparr>"

definition demo_sql_svc :: "Store Service" where
  "demo_sql_svc = \<lparr> sv_accounts = [''ann'' \<mapsto> demo_account], sv_dummyHash = ''hash'', sv_sessions = sv_sessions demo_svc4,
     sv_store = demo_sql, sv_rooms = sv_rooms demo_svc4, sv_roomIDs = [1], sv_connections = sv_connections demo_svc4,
     sv_ttl = 1000, sv_closed = False \<rparr>"

lemma demo_pjson_ok: "progress_json_ok demo_pjson"
  by (auto simp: progress_json_ok_def demo_pjson_def is_map_def demo_claimed_def split: if_splits)

lemma demo_sql_session:
  "GetByConnID (sv_sessions demo_sql_svc) 7 8 = Inr demo_bound"
  "authenticatedLocked 7 8 demo_sql_svc = Inr \<lparr> cp_connection = demo_client, cp_roomID = 1, cp_authDeadline = 0 \<rparr>"
  by (simp_all add: authenticatedLocked_def GetByConnID_def demo_sql_svc_def demo_svc4_def demo_svc3_def demo_svc2_def
      demo_svc1_def demo_svc_def demo_sessions_def demo_bound_def demo_login_def fresh_session_def expired_def)

lemma demo_claim_run:
  obtains s' where "ClaimStarter demo_pjson (Some (\<lambda>c i f. SqliteUpdate demo_time demo_sql_io c i (Some f))) None 7 8 8
      demo_sql_svc = (Inr demo_claimed, s')"
proof -
  have player: "ses_PlayerID demo_bound = 5" "ses_AccountID demo_bound = ''ann''"
    by (simp_all add: demo_bound_def demo_login_def fresh_session_def)
  have callback: "progressCallback demo_pjson ''ann'' starterChange demo_sql_player =
      Inr (demo_sql_player\<lparr>pl_Data := [1]\<rparr>, demo_claimed)"
    by (simp add: progressCallback_def demo_sql_player_def decodeProgress_def starterChange_def itemCount_def Let_def
        demo_pjson_def demo_claimed_def)
  obtain st where "SqliteUpdate demo_time demo_sql_io None 5 (Some (progressCallback demo_pjson ''ann'' starterChange)) demo_sql =
      (Inr demo_claimed, st)"
  proof -
    have "sqlCall None (sq_begin demo_sql_io) = None" "sqlCall None (sq_query demo_sql_io) = None"
      "sqlCall None (sq_exec demo_sql_io) = None" "sqlCall None (sq_commit demo_sql_io) = None"
      "pl_PlayerID demo_sql_player = 5"
      by (simp_all add: sqlCall_def contextError_def demo_sql_io_def demo_sql_player_def)
    with that show ?thesis using demo_sql_read(1) callback by (simp add: SqliteUpdate_def Let_def)
  qed
  then show ?thesis
    using that demo_sql_session player by (simp add: ClaimStarter_def changeProgress_def demo_sql_svc_def)
qed

theorem starter_reward_once_witness:
  "\<exists>s' p q. ClaimStarter demo_pjson (Some (\<lambda>c i f. SqliteUpdate demo_time demo_sql_io c i (Some f))) None 7 8 8
      demo_sql_svc = (Inr demo_claimed, s') \<and>
     sql_players demo_time (sv_store s') 5 = Some p \<and> decodeProgress demo_pjson (pl_Data p) = Inr q \<and>
     potions q = 2 \<and> starterChange q = Inl ErrRewardClaimed"
proof -
  obtain s' where run: "ClaimStarter demo_pjson (Some (\<lambda>c i f. SqliteUpdate demo_time demo_sql_io c i (Some f))) None 7 8 8
      demo_sql_svc = (Inr demo_claimed, s')" by (rule demo_claim_run)
  have "sqlite_progress.ledger demo_time demo_pjson 5 demo_sql 0 0 (sv_store demo_sql_svc)"
    by (simp add: demo_sql_svc_def sqlite_progress.ledger.start)
  from sqlite_progress.ledger.claim [OF this run demo_sql_session(1)]
  have "sqlite_progress.ledger demo_time demo_pjson 5 demo_sql 1 0 (sv_store s')"
    by (simp add: demo_bound_def demo_login_def fresh_session_def)
  moreover have "sql_players demo_time demo_sql 5 = Some demo_sql_player" "pl_Data demo_sql_player = []"
    by (simp_all add: sql_players_def demo_sql_read(2)) (simp add: demo_sql_player_def)
  ultimately have "\<exists>p q. sql_players demo_time (sv_store s') 5 = Some p \<and> decodeProgress demo_pjson (pl_Data p) = Inr q \<and>
      valid_progress q \<and> potions q = 2 * int 1 - int 0 \<and> ((1::nat) = 1 \<longrightarrow> starterChange q = Inl ErrRewardClaimed)"
    using starter_reward_once [OF _ demo_sql_wf demo_pjson_ok] by blast
  with run show ?thesis by auto
qed

end
