(* ===== verification/GoBytes.thy ===== *)
theory GoBytes
  imports Prelude "HOL-Library.Sublist"
begin

text \<open>
  White space in byte slices and strings as the packages \<open>bytes\<close> and \<open>strings\<close> of the standard library
  treat it: trimming, splitting into fields, and the comparison that ignores the case of letters.
\<close>

text \<open>\<open>bytes.TrimSpace\<close>: the UTF-8 encodings of the white space runes.\<close>

definition spaceBytes :: "bytes list" where
  "spaceBytes = [[0x09], [0x0A], [0x0B], [0x0C], [0x0D], [0x20], [0xC2, 0x85], [0xC2, 0xA0], [0xE1, 0x9A, 0x80]]
     @ map (\<lambda>b. [0xE2, 0x80, b]) [0x80, 0x81, 0x82, 0x83, 0x84, 0x85, 0x86, 0x87, 0x88, 0x89, 0x8A, 0xA8, 0xA9, 0xAF]
     @ [[0xE2, 0x81, 0x9F], [0xE3, 0x80, 0x80]]"

function trimFront :: "'a list list \<Rightarrow> 'a list \<Rightarrow> 'a list" where
  "trimFront ss data =
     (case find (\<lambda>s. s \<noteq> [] \<and> prefix s data) ss of
        None \<Rightarrow> data
      | Some s \<Rightarrow> trimFront ss (drop (length s) data))"
  by pat_completeness auto

termination
proof (relation "measure (length \<circ> snd)")
  fix ss :: "'a list list" and data s assume "find (\<lambda>s. s \<noteq> [] \<and> prefix s data) ss = Some s"
  then have "s \<noteq> []" "length s \<le> length data"
    by (auto simp: find_Some_iff dest: prefix_length_le)
  then show "((ss, drop (length s) data), ss, data) \<in> measure (length \<circ> snd)"
    by (cases s) auto
qed simp

declare trimFront.simps [simp del]

definition TrimSpace :: "bytes \<Rightarrow> bytes" where
  "TrimSpace data = rev (trimFront (map rev spaceBytes) (rev (trimFront spaceBytes data)))"

definition of_byte :: "u8 \<Rightarrow> char" where
  "of_byte b = char_of (unat b)"

text \<open>\<open>strings.Fields\<close>: the maximal runs without white space; \<open>cur\<close> is the run being read, reversed. No
  encoding of white space begins inside the encoding of another rune, so reading byte by byte is enough.\<close>

function fieldsFrom :: "'a list list \<Rightarrow> 'a list \<Rightarrow> 'a list \<Rightarrow> 'a list list" where
  "fieldsFrom ss cur [] = (if cur = [] then [] else [rev cur])"
| "fieldsFrom ss cur (x # data) =
     (case find (\<lambda>s. s \<noteq> [] \<and> prefix s (x # data)) ss of
        None \<Rightarrow> fieldsFrom ss (x # cur) data
      | Some s \<Rightarrow> (if cur = [] then [] else [rev cur]) @ fieldsFrom ss [] (drop (length s) (x # data)))"
  by pat_completeness auto

termination
proof (relation "measure (length \<circ> snd \<circ> snd)")
  fix ss :: "'a list list" and cur :: "'a list" and x data s assume "find (\<lambda>s. s \<noteq> [] \<and> prefix s (x # data)) ss = Some s"
  then have "s \<noteq> []" by (auto simp: find_Some_iff)
  then show "((ss, [], drop (length s) (x # data)), ss, cur, x # data) \<in> measure (length \<circ> snd \<circ> snd)"
    by (cases s) auto
qed simp_all

definition Fields :: "string \<Rightarrow> string list" where
  "Fields s = fieldsFrom (map (map of_byte) spaceBytes) [] s"

text \<open>\<open>strings.EqualFold\<close>, exact when one of the strings has only ASCII letters other than K and S, the only
  ones that Unicode folds with a letter outside ASCII.\<close>

definition lower :: "char \<Rightarrow> char" where
  "lower c = (if 65 \<le> (of_char c :: nat) \<and> of_char c \<le> (90 :: nat) then char_of (of_char c + 32 :: nat) else c)"

definition EqualFold :: "string \<Rightarrow> string \<Rightarrow> bool" where
  "EqualFold s t \<longleftrightarrow> map lower s = map lower t"

end
