(* ===== verification/GameTcp.thy ===== *)
theory GameTcp
  imports GameProgress GoBytes Server
begin

text \<open>
  The TCP entry of the example application, \<open>examples/gameapp/tcp.go\<close>: one router that decodes a JSON
  request, calls the service and sends one reply. The JSON decoders and the encoder are arguments; so
  is what one call meets of its surroundings: the state of the request's context, the readings of the
  clock and the outcomes of the player store. A run-time panic leaves the router as its first result, as
  theory \<open>MsgHandle\<close> expects it.
\<close>

section \<open>Messages\<close>

text \<open>The numbers of \<open>examples/gameapp/protocol\<close>.\<close>

definition TcpAuthenticate :: u32 where "TcpAuthenticate = 1001"
definition TcpHeartbeat :: u32 where "TcpHeartbeat = 1002"
definition TcpJoinRoom :: u32 where "TcpJoinRoom = 2001"
definition TcpLeaveRoom :: u32 where "TcpLeaveRoom = 2002"
definition TcpProgress :: u32 where "TcpProgress = 3001"
definition TcpStarterReward :: u32 where "TcpStarterReward = 3002"
definition TcpUseItem :: u32 where "TcpUseItem = 3003"

lemmas tcp_msg_defs = TcpAuthenticate_def TcpHeartbeat_def TcpJoinRoom_def TcpLeaveRoom_def TcpProgress_def
  TcpStarterReward_def TcpUseItem_def

text \<open>What a reply carries: the map with the player's id, a room, the progress.\<close>

datatype reply_data = PlayerIDData u64 | RoomData RoomView | ProgressData Progress

record Reply =
  ry_Code :: string
  ry_Data :: "reply_data option"

text \<open>
  The JSON decoders yield the value and the input that follows it, or \<open>None\<close> for an error, which an
  unknown field is; \<open>tc_eof\<close> tells whether a further \<open>Decode\<close> meets the end of the input.
\<close>

record tcp_codec =
  tc_config :: Config
  tc_auth :: "bytes \<Rightarrow> (string \<times> bytes) option"
  tc_room :: "bytes \<Rightarrow> (u32 \<times> bytes) option"
  tc_item :: "bytes \<Rightarrow> (string \<times> bytes) option"
  tc_empty :: "bytes \<Rightarrow> (unit \<times> bytes) option"
  tc_eof :: "bytes \<Rightarrow> bool"
  tc_marshal :: "Reply \<Rightarrow> bytes res"
  tc_json :: progress_json

text \<open>The surroundings of one call.\<close>

record 'st tcp_call =
  cl_ctx :: ctx
  cl_now :: gotime
  cl_now1 :: gotime
  cl_now2 :: gotime
  cl_store :: "'st store_ops"
  cl_update :: "'st transaction option"

section \<open>The router\<close>

definition decodeRequest :: "(bytes \<Rightarrow> ('a \<times> bytes) option) \<Rightarrow> (bytes \<Rightarrow> bool) \<Rightarrow> bytes \<Rightarrow> 'a option" where
  "decodeRequest value eof data =
     (let trimmed = TrimSpace data
      in if trimmed = [] \<or> hd trimmed \<noteq> 0x7B then None
         else (case value trimmed of
                 None \<Rightarrow> None
               | Some (body, rest) \<Rightarrow> if eof rest then Some body else None))"

definition tcpReply :: "tcp_codec \<Rightarrow> Request \<Rightarrow> Reply \<Rightarrow> 'p conn_store \<Rightarrow> 'p conn_store" where
  "tcpReply E request v w =
     (case (case tc_marshal E v of
              Inl err \<Rightarrow> (Some err, w)
            | Inr data \<Rightarrow> storeSend (tc_config E) (RequestMsgID request) data (rq_conn request) w) of
        (None, w1) \<Rightarrow> w1
      | (Some err, w1) \<Rightarrow> storeStop (rq_conn request) w1)"

definition expectedErrors :: "go_error list" where
  "expectedErrors = [ErrUnauthorized, ErrRoomNotFound, ErrRoomUnavailable, ErrNotInRoom, ErrRewardClaimed, ErrItemUnavailable]"

definition errorCode :: "go_error \<Rightarrow> string" where
  "errorCode err = (case find (errorsIs err) expectedErrors of
     None \<Rightarrow> ''internal_error'' | Some expected \<Rightarrow> errorText expected)"

text \<open>The switch: \<open>None\<close> is an invalid request, otherwise the result of the call on the service.\<close>

definition tcpSwitch ::
  "tcp_codec \<Rightarrow> 'st tcp_call \<Rightarrow> Request \<Rightarrow> 'st Service \<Rightarrow> reply_data option res option \<times> 'st Service" where
  "tcpSwitch E cl request s =
     (let i = ic_connID (rq_conn request); msg = RequestMsgID request; data = RequestData request
      in if msg = TcpAuthenticate then
           (case decodeRequest (tc_auth E) (tc_eof E) data of
              None \<Rightarrow> (None, s)
            | Some token \<Rightarrow>
                if token = [] \<or> length token > 128 then (None, s)
                else (case Authenticate i token (cl_now cl) (cl_now1 cl) (cl_now2 cl) s of
                        (r, s1) \<Rightarrow> (Some (map_sum id (Some \<circ> PlayerIDData) r), s1)))
         else if msg = TcpJoinRoom then
           (case decodeRequest (tc_room E) (tc_eof E) data of
              None \<Rightarrow> (None, s)
            | Some roomID \<Rightarrow>
                if roomID = 0 then (None, s)
                else (case ServiceJoin i roomID (cl_now cl) s of
                        (r, s1) \<Rightarrow> (Some (map_sum id (Some \<circ> RoomData) r), s1)))
         else if msg = TcpUseItem then
           (case decodeRequest (tc_item E) (tc_eof E) data of
              None \<Rightarrow> (None, s)
            | Some itemID \<Rightarrow>
                if itemID \<noteq> ''potion'' then (None, s)
                else (case UseItem (tc_json E) (cl_update cl) (cl_ctx cl) i itemID (cl_now cl) (cl_now1 cl) s of
                        (r, s1) \<Rightarrow> (Some (map_sum id (Some \<circ> ProgressData) r), s1)))
         else if msg \<in> {TcpLeaveRoom, TcpHeartbeat, TcpProgress, TcpStarterReward} then
           (case decodeRequest (tc_empty E) (tc_eof E) data of
              None \<Rightarrow> (None, s)
            | Some body \<Rightarrow>
                if msg = TcpLeaveRoom then
                  (case ServiceLeave i (cl_now cl) s of
                     (err, s1) \<Rightarrow> (Some (case err of Some e \<Rightarrow> Inl e | None \<Rightarrow> Inr None), s1))
                else if msg = TcpHeartbeat then
                  (Some (case Heartbeat i (cl_now cl) s of Some e \<Rightarrow> Inl e | None \<Rightarrow> Inr None), s)
                else if msg = TcpProgress then
                  (Some (map_sum id (Some \<circ> ProgressData)
                     (ConnectionProgress (tc_json E) (cl_store cl) (cl_ctx cl) i (cl_now cl) (cl_now1 cl) s)), s)
                else
                  (case ClaimStarter (tc_json E) (cl_update cl) (cl_ctx cl) i (cl_now cl) (cl_now1 cl) s of
                     (r, s1) \<Rightarrow> (Some (map_sum id (Some \<circ> ProgressData) r), s1)))
         else (Some (Inr None), s))"

definition tcpHandle ::
  "tcp_codec \<Rightarrow> 'st tcp_call \<Rightarrow> Request \<Rightarrow> 'st Service \<Rightarrow> 'p conn_store \<Rightarrow> string option \<times> 'st Service \<times> 'p conn_store" where
  "tcpHandle E cl request s w =
     (case tcpSwitch E cl request s of
        (None, s1) \<Rightarrow> (None, s1, tcpReply E request \<lparr> ry_Code = ''invalid_request'', ry_Data = None \<rparr> w)
      | (Some (Inl err), s1) \<Rightarrow>
          (case errPanic err of
             Some msg \<Rightarrow> (Some msg, s1, w)
           | None \<Rightarrow> (None, s1, tcpReply E request \<lparr> ry_Code = errorCode err, ry_Data = None \<rparr> w))
      | (Some (Inr result), s1) \<Rightarrow> (None, s1, tcpReply E request \<lparr> ry_Code = ''ok'', ry_Data = result \<rparr> w))"

section \<open>Registration\<close>

text \<open>
  The state the routers and the hooks share: the service, the connections, and the number of calls
  made; \<open>calls n\<close> are the surroundings of the call number \<open>n\<close>.
\<close>

record ('st, 'p) tcp_app =
  ta_calls :: nat
  ta_service :: "'st Service"
  ta_conns :: "'p conn_store"

definition tcpRouter :: "tcp_codec \<Rightarrow> (nat \<Rightarrow> 'st tcp_call) \<Rightarrow> ('st, 'p) tcp_app IRouter" where
  "tcpRouter E calls = BaseRouter\<lparr>Handle := (\<lambda>request a.
     (case tcpHandle E (calls (ta_calls a)) request (ta_service a) (ta_conns a) of
        (p, s, w) \<Rightarrow> (p, \<lparr> ta_calls = Suc (ta_calls a), ta_service = s, ta_conns = w \<rparr>)))\<rparr>"

definition tcpConnected :: "(nat \<Rightarrow> 'st tcp_call) \<Rightarrow> ('st, 'p) tcp_app hookFun" where
  "tcpConnected calls connection a =
     (case Connected (cl_now (calls (ta_calls a))) connection (ta_service a) (ta_conns a) of
        (s, w) \<Rightarrow> \<lparr> ta_calls = Suc (ta_calls a), ta_service = s, ta_conns = w \<rparr>)"

definition tcpDisconnected :: "('st, 'p) tcp_app hookFun" where
  "tcpDisconnected connection a =
     (case Disconnected connection (ta_service a) (ta_conns a) of (s, w) \<Rightarrow> a\<lparr>ta_service := s, ta_conns := w\<rparr>)"

fun addRouters :: "u32 list \<Rightarrow> 's IRouter \<Rightarrow> 's Server \<Rightarrow> 's Server res" where
  "addRouters [] router server = Inr server"
| "addRouters (i # ids) router server =
     (case ServerAddRouter i router server of
        Inl err \<Rightarrow> Inl err
      | Inr server1 \<Rightarrow> addRouters ids router server1)"

definition tcpMessages :: "u32 list" where
  "tcpMessages = [TcpAuthenticate, TcpHeartbeat, TcpJoinRoom, TcpLeaveRoom, TcpProgress, TcpStarterReward, TcpUseItem]"

definition RegisterTCP ::
  "tcp_codec \<Rightarrow> (nat \<Rightarrow> 'st tcp_call) \<Rightarrow> ('st, 'p) tcp_app Server \<Rightarrow> ('st, 'p) tcp_app Server res" where
  "RegisterTCP E calls server =
     addRouters tcpMessages (tcpRouter E calls)
       (SetOnConnStop (Some tcpDisconnected) (SetOnConnStart (Some (tcpConnected calls)) server))"

section \<open>Replying\<close>

lemma Stop_closed [simp]: "cn_isClosed (Stop c)"
  by (simp add: Stop_def)

lemma Stop_outbox [simp]: "outbox_of (Stop c) = outbox_of c"
  by (simp add: Stop_def outbox_of_def split: writer.split)

lemma outbox_storeStop [simp]: "outbox j (storeStop i w) = outbox j w"
  by (simp add: outbox_def storeStop_at split: option.split)

lemma store_wf_storeStop: "store_wf w \<Longrightarrow> store_wf (storeStop i w)"
  by (auto simp: store_wf_def storeStop_at ran_def Stop_def split: if_splits)

lemma storeSend_at:
  assumes "storeSend g m d i w = (err, w')"
  shows "r \<noteq> ic_ref i \<Longrightarrow> w' r = w r" "conn_at w i \<noteq> None \<Longrightarrow> conn_at w' i \<noteq> None"
  using assms by (auto simp: storeSend_def split: option.splits prod.splits)

text \<open>A reply reaches the queue of its connection, or the connection is stopped.\<close>

definition answered :: "tcp_codec \<Rightarrow> Request \<Rightarrow> Reply \<Rightarrow> 'p conn_store \<Rightarrow> 'p conn_store \<Rightarrow> bool" where
  "answered E request v w w' \<longleftrightarrow>
     (\<forall>r. r \<noteq> ic_ref (rq_conn request) \<longrightarrow> w' r = w r) \<and>
     ((\<exists>data. tc_marshal E v = Inr data \<and>
         outbox (rq_conn request) w' = outbox (rq_conn request) w @ [packet (NewMsgPackage (RequestMsgID request) data)]) \<or>
      (outbox (rq_conn request) w' = outbox (rq_conn request) w \<and>
       (\<exists>c. conn_at w' (rq_conn request) = Some c \<and> cn_isClosed c)))"

lemma tcpReply_answered:
  assumes "store_wf w" "conn_at w (rq_conn request) \<noteq> None"
  shows "answered E request v w (tcpReply E request v w)" "store_wf (tcpReply E request v w)"
proof -
  let ?i = "rq_conn request" and ?m = "RequestMsgID request"
  have "answered E request v w (tcpReply E request v w) \<and> store_wf (tcpReply E request v w)"
  proof (cases "tc_marshal E v")
    case (Inl err)
    then show ?thesis using assms
      by (auto simp: tcpReply_def answered_def storeStop_at store_wf_storeStop)
  next
    case (Inr data)
    obtain err w1 where send: "storeSend (tc_config E) ?m data ?i w = (err, w1)" by fastforce
    note at = storeSend_at [OF send]
    note sent = storeSend_cases [OF assms(1) send, of ?i]
    show ?thesis
    proof (cases err)
      case None
      with Inr send sent at(1) show ?thesis by (simp add: tcpReply_def answered_def)
    next
      case (Some e)
      with Inr send sent at assms(2) show ?thesis
        by (auto simp: tcpReply_def answered_def storeStop_at store_wf_storeStop)
    qed
  qed
  then show "answered E request v w (tcpReply E request v w)" "store_wf (tcpReply E request v w)" by auto
qed

section \<open>The calls on the service\<close>

text \<open>What is relied on: the player store and the JSON codec return errors and do not panic, and a stored player
  is not nil.\<close>

definition quiet_call :: "progress_json \<Rightarrow> 'st tcp_call \<Rightarrow> bool" where
  "quiet_call J cl \<longleftrightarrow>
     (\<forall>i st. st_Load (cl_store cl) (cl_ctx cl) i st \<noteq> Inr None) \<and>
     (\<forall>i st e. st_Load (cl_store cl) (cl_ctx cl) i st = Inl e \<longrightarrow> errPanic e = None) \<and>
     (\<forall>d e. pj_unmarshal J d = Inl e \<longrightarrow> errPanic e = None) \<and>
     (\<forall>p e. pj_marshal J p = Inl e \<longrightarrow> errPanic e = None) \<and>
     (\<forall>update i f st e st'. cl_update cl = Some update \<longrightarrow> update (cl_ctx cl) i f st = (Inl e, st') \<longrightarrow>
        errPanic e \<noteq> None \<longrightarrow> (\<exists>p. f p = Inl e))"

lemma service_errors_quiet [simp]:
  "errPanic ErrUnauthorized = None" "errPanic ErrRoomNotFound = None" "errPanic ErrRoomUnavailable = None"
  "errPanic ErrNotInRoom = None" "errPanic ErrRewardClaimed = None" "errPanic ErrItemUnavailable = None"
  "errPanic (Err msg) = None"
  by (simp_all add: errPanic_def ErrUnauthorized_def ErrRoomNotFound_def ErrRoomUnavailable_def ErrNotInRoom_def
      ErrRewardClaimed_def ErrItemUnavailable_def)

lemma authenticatedLocked_Inl: "authenticatedLocked k now s = Inl e \<Longrightarrow> e = ErrUnauthorized"
  by (auto simp: authenticatedLocked_def split: option.splits if_splits sum.splits)

lemma decodeProgress_quiet:
  "decodeProgress J data = Inl e \<Longrightarrow> \<forall>d e. pj_unmarshal J d = Inl e \<longrightarrow> errPanic e = None \<Longrightarrow> errPanic e = None"
  by (auto simp: decodeProgress_def split: if_splits sum.splits)

lemma change_quiet:
  assumes "valid_progress p"
  shows "starterChange p = Inl e \<Longrightarrow> errPanic e = None" "itemChange item p = Inl e \<Longrightarrow> errPanic e = None"
  using assms by (auto simp: starterChange_def itemChange_def valid_progress_def Let_def split: if_splits option.splits)

lemma loadProgress_quiet:
  assumes "quiet_call J cl" "loadProgress J (cl_store cl) (cl_ctx cl) i s = Inl e"
  shows "errPanic e = None"
  using assms decodeProgress_quiet [of J _ e]
  by (auto simp: loadProgress_def quiet_call_def split: sum.splits option.splits)

lemma ConnectionProgress_quiet:
  assumes "quiet_call J cl" "ConnectionProgress J (cl_store cl) (cl_ctx cl) k now1 now2 s = Inl e"
  shows "errPanic e = None"
  using assms loadProgress_quiet [OF assms(1)]
  by (auto simp: ConnectionProgress_def dest: authenticatedLocked_Inl split: sum.splits)

lemma changeProgress_quiet:
  assumes q: "quiet_call J cl" and run: "changeProgress J (cl_update cl) (cl_ctx cl) k now1 now2 change s = (Inl e, s')"
    and change: "\<And>p e. valid_progress p \<Longrightarrow> change p = Inl e \<Longrightarrow> errPanic e = None"
  shows "errPanic e = None"
proof (rule ccontr)
  assume bad: "errPanic e \<noteq> None"
  have "\<exists>a p. progressCallback J a change p = Inl e"
  proof (cases "\<exists>update i a f st st'. cl_update cl = Some update \<and> update (cl_ctx cl) i (progressCallback J a change) st = (Inl e, st')")
    case True
    with q bad show ?thesis unfolding quiet_call_def by blast
  next
    case False
    with run bad show ?thesis
      by (auto simp: changeProgress_def dest: authenticatedLocked_Inl split: sum.splits if_splits option.splits prod.splits)
  qed
  then obtain a p where cb: "progressCallback J a change p = Inl e" by blast
  have dec: "\<forall>d e. pj_unmarshal J d = Inl e \<longrightarrow> errPanic e = None" "\<forall>p e. pj_marshal J p = Inl e \<longrightarrow> errPanic e = None"
    using q unfolding quiet_call_def by blast+
  from cb dec decodeProgress_quiet [OF _ dec(1)] change decodeProgress_valid bad show False
    by (fastforce simp: progressCallback_def split: if_splits sum.splits)
qed

lemma changeProgress_frame: "changeProgress J U ctx k now1 now2 change s = (r, s') \<Longrightarrow> \<exists>st. s' = s\<lparr>sv_store := st\<rparr>"
proof -
  assume run: "changeProgress J U ctx k now1 now2 change s = (r, s')"
  have keep: "\<exists>st. s = s\<lparr>sv_store := st\<rparr>" by (rule exI [of _ "sv_store s"]) simp
  show ?thesis using run keep by (auto simp: changeProgress_def split: sum.splits if_splits option.splits prod.splits)
qed

lemma roomCall_heap_None [simp]:
  "rg_heap (sv_rooms (snd (roomCall room f s))) i = None \<longleftrightarrow> rg_heap (sv_rooms s) i = None"
  by (auto simp: roomCall_def split: option.splits prod.splits)

lemma ServiceJoin_quiet:
  assumes "svc_ok {} s" "ServiceJoin k roomID now s = (Inl e, s')"
  shows "errPanic e = None"
proof (cases "GetRoom roomID (sv_rooms s)")
  case (Inl err)
  with assms(2) show ?thesis by (auto simp: ServiceJoin_def dest: authenticatedLocked_Inl split: sum.splits)
next
  case (Inr room)
  have heap: "rg_heap (sv_rooms s) room \<noteq> None" using registered_room [OF assms(1) Inr] by auto
  have keep: "rg_heap (sv_rooms s1) room \<noteq> None" if "roomCall room f s = (x, s1)" for f x s1
    using roomCall_heap_None [of room f s room] that heap by simp
  show ?thesis using assms(2) Inr heap
    by (auto simp: ServiceJoin_def Let_def dest: authenticatedLocked_Inl keep split: sum.splits if_splits prod.splits option.splits)
qed

lemma ServiceLeave_quiet:
  assumes "svc_ok {} s" "ServiceLeave k now s = (Some e, s')"
  shows "errPanic e = None"
proof (cases "authenticatedLocked k now s")
  case (Inl err)
  with assms(2) show ?thesis by (auto simp: ServiceLeave_def dest: authenticatedLocked_Inl)
next
  case (Inr cp)
  note k = authenticatedLocked_Inr(1) [OF Inr]
  have "GetRoom (cp_roomID cp) (sv_rooms s) \<noteq> Inl err" if "cp_roomID cp \<noteq> 0" for err
    using rooms_matchD(2) [OF svc_okD(4) [OF assms(1)] k that] by (auto simp: membersOf_def GetRoom_def split: option.splits)
  with assms(2) Inr show ?thesis by (auto simp: ServiceLeave_def Let_def split: if_splits sum.splits)
qed

lemma Authenticate_quiet: "Authenticate k token now now1 now2 s = (Inl e, s') \<Longrightarrow> errPanic e = None"
  by (auto simp: Authenticate_def split: option.splits if_splits sum.splits prod.splits)

lemma map_sum_Inl [simp]: "map_sum id f x = Inl e \<longleftrightarrow> x = Inl e"
  by (cases x) auto

lemma tcpSwitch_ok:
  assumes ok: "svc_ok {} s" and q: "quiet_call (tc_json E) cl" and run: "tcpSwitch E cl request s = (r, s')"
  shows "svc_ok {} s' \<and> (\<forall>e. r = Some (Inl e) \<longrightarrow> errPanic e = None)"
proof -
  let ?i = "ic_connID (rq_conn request)"
  have progress: "svc_ok {} s1 \<and> (\<forall>e. x = Inl e \<longrightarrow> errPanic e = None)"
    if change: "changeProgress (tc_json E) (cl_update cl) (cl_ctx cl) ?i (cl_now cl) (cl_now1 cl) change s = (x, s1)"
      and quiet: "\<And>p e. valid_progress p \<Longrightarrow> change p = Inl e \<Longrightarrow> errPanic e = None" for change x s1
  proof (intro conjI allI impI)
    show "svc_ok {} s1" using changeProgress_frame [OF change] svc_ok_frame(1) [OF ok] by auto
    show "errPanic e = None" if "x = Inl e" for e
      using change that by (intro changeProgress_quiet [OF q _ quiet]) auto
  qed
  consider (auth) "RequestMsgID request = TcpAuthenticate" | (join) "RequestMsgID request = TcpJoinRoom"
    | (use_item) "RequestMsgID request = TcpUseItem" | (leave) "RequestMsgID request = TcpLeaveRoom"
    | (beat) "RequestMsgID request = TcpHeartbeat" | (progress) "RequestMsgID request = TcpProgress"
    | (starter) "RequestMsgID request = TcpStarterReward" | (other) "RequestMsgID request \<notin> set tcpMessages"
    by (auto simp: tcpMessages_def)
  then show ?thesis
  proof cases
    case auth
    with run show ?thesis
      using ok svc_ok_Authenticate [OF ok] Authenticate_quiet
      by (auto simp: tcpSwitch_def Let_def split: option.splits if_splits prod.splits sum.splits)
  next
    case join
    with run show ?thesis
      using ok svc_ok_Join [OF ok] ServiceJoin_quiet [OF ok]
      by (auto simp: tcpSwitch_def tcp_msg_defs Let_def split: option.splits if_splits prod.splits sum.splits)
  next
    case use_item
    then show ?thesis
      using run ok progress [OF _ change_quiet(2)]
      by (auto simp: tcpSwitch_def UseItem_def tcp_msg_defs Let_def split: option.splits if_splits prod.splits sum.splits)
  next
    case leave
    with run show ?thesis
      using ok svc_ok_Leave [OF ok] ServiceLeave_quiet [OF ok]
      by (auto simp: tcpSwitch_def tcp_msg_defs Let_def split: option.splits if_splits prod.splits sum.splits)
  next
    case beat
    with run show ?thesis
      using ok
      by (auto simp: tcpSwitch_def Heartbeat_def tcp_msg_defs Let_def dest: authenticatedLocked_Inl
          split: option.splits if_splits prod.splits sum.splits)
  next
    case progress
    with run show ?thesis
      using ok ConnectionProgress_quiet [OF q]
      by (auto simp: tcpSwitch_def tcp_msg_defs Let_def split: option.splits if_splits prod.splits sum.splits)
  next
    case starter
    then show ?thesis
      using run ok progress [OF _ change_quiet(1)]
      by (auto simp: tcpSwitch_def ClaimStarter_def tcp_msg_defs Let_def split: option.splits if_splits prod.splits sum.splits)
  next
    case other
    with run ok show ?thesis by (auto simp: tcpSwitch_def tcpMessages_def Let_def)
  qed
qed

text \<open>Without a session bound to the connection, everything but the authentication is refused.\<close>

lemma tcpSwitch_unauthorized:
  assumes "authenticatedLocked (ic_connID (rq_conn request)) (cl_now cl) s = Inl e"
    and "RequestMsgID request \<in> set tcpMessages" "RequestMsgID request \<noteq> TcpAuthenticate"
  shows "tcpSwitch E cl request s = (None, s) \<or> tcpSwitch E cl request s = (Some (Inl ErrUnauthorized), s)"
  using assms authenticatedLocked_Inl [OF assms(1)]
  by (auto simp: tcpSwitch_def tcpMessages_def Let_def ServiceJoin_def ServiceLeave_def Heartbeat_def UseItem_def ClaimStarter_def
      ConnectionProgress_def changeProgress_def tcp_msg_defs split: option.split)

section \<open>Handling a request\<close>

definition replyCodes :: "string set" where
  "replyCodes = {''ok'', ''invalid_request'', ''internal_error'', ''unauthorized'', ''room_not_found'', ''room_unavailable'',
     ''not_in_room'', ''reward_already_claimed'', ''item_unavailable''}"

lemma errorCode_cases: "errorCode err \<in> replyCodes" "errorCode err \<noteq> ''ok''"
  by (auto simp: errorCode_def expectedErrors_def replyCodes_def ErrUnauthorized_def ErrRoomNotFound_def ErrRoomUnavailable_def
      ErrNotInRoom_def ErrRewardClaimed_def ErrItemUnavailable_def)

definition reply_ok :: "Reply \<Rightarrow> bool" where
  "reply_ok v \<longleftrightarrow> ry_Code v \<in> replyCodes \<and> (ry_Code v \<noteq> ''ok'' \<longrightarrow> ry_Data v = None)"

lemma tcpHandle_answered:
  assumes "svc_ok {} s" "quiet_call (tc_json E) cl" "store_wf w" "conn_at w (rq_conn request) \<noteq> None"
    and run: "tcpHandle E cl request s w = (p, s', w')"
  shows "p = None \<and> svc_ok {} s' \<and> store_wf w' \<and> (\<exists>v. reply_ok v \<and> answered E request v w w')"
proof -
  obtain r s1 where sw: "tcpSwitch E cl request s = (r, s1)" by fastforce
  note ok = tcpSwitch_ok [OF assms(1,2) sw]
  obtain v where v: "reply_ok v" "p = None" "s' = s1" "w' = tcpReply E request v w"
  proof (cases r)
    case None
    with sw run show ?thesis
      by (intro that [of "\<lparr> ry_Code = ''invalid_request'', ry_Data = None \<rparr>"]) (auto simp: tcpHandle_def reply_ok_def replyCodes_def)
  next
    case (Some x)
    show ?thesis
    proof (cases x)
      case (Inl err)
      with Some sw run ok show ?thesis
        by (intro that [of "\<lparr> ry_Code = errorCode err, ry_Data = None \<rparr>"]) (auto simp: tcpHandle_def reply_ok_def errorCode_cases)
    next
      case (Inr result)
      with Some sw run show ?thesis
        by (intro that [of "\<lparr> ry_Code = ''ok'', ry_Data = result \<rparr>"]) (auto simp: tcpHandle_def reply_ok_def replyCodes_def)
    qed
  qed
  with ok tcpReply_answered [OF assms(3,4)] show ?thesis by blast
qed

section \<open>The routers in the message handler\<close>

abbreviation routes :: "'s Server \<Rightarrow> u32 \<rightharpoonup> 's IRouter" where
  "routes server \<equiv> mh_Apis (ps_mh (srv_msgHandler server))"

lemma addRouters_routes:
  "addRouters ids router server = Inr server' \<Longrightarrow> routes server' i = (if i \<in> set ids then Some router else routes server i)"
proof (induction ids arbitrary: server)
  case (Cons j ids)
  obtain server1 where s1: "ServerAddRouter j router server = Inr server1" "addRouters ids router server1 = Inr server'"
    using Cons.prems by (auto split: sum.splits)
  have "routes server1 = (routes server)(j \<mapsto> router)"
    using s1(1) by (auto simp: ServerAddRouter_def AddRouter_def split: if_splits sum.splits)
  with Cons.IH [OF s1(2)] show ?case by simp
qed simp

lemma addRouters_succeeds:
  "distinct ids \<Longrightarrow> \<forall>i \<in> set ids. routes server i = None \<Longrightarrow> \<exists>server'. addRouters ids router server = Inr server'"
proof (induction ids arbitrary: server)
  case (Cons j ids)
  obtain server1 where s1: "ServerAddRouter j router server = Inr server1" "routes server1 = (routes server)(j \<mapsto> router)"
    using Cons.prems(2) by (simp add: ServerAddRouter_def AddRouter_def)
  have "\<exists>server'. addRouters ids router server1 = Inr server'"
    by (rule Cons.IH) (use Cons.prems s1(2) in auto)
  with s1(1) show ?case by simp
qed simp

lemma RegisterTCP_routes:
  assumes "RegisterTCP E calls server = Inr server'"
  shows "routes server' i = (if i \<in> set tcpMessages then Some (tcpRouter E calls) else routes server i)"
  using addRouters_routes [OF assms [unfolded RegisterTCP_def], of i] by (simp add: SetOnConnStart_def SetOnConnStop_def)

lemma RegisterTCP_succeeds:
  assumes "\<forall>i \<in> set tcpMessages. routes server i = None"
  shows "\<exists>server'. RegisterTCP E calls server = Inr server'"
  unfolding RegisterTCP_def
  by (rule addRouters_succeeds) (use assms in \<open>simp_all add: tcpMessages_def tcp_msg_defs SetOnConnStart_def SetOnConnStop_def\<close>)

lemma DoMsgHandler_tcp:
  assumes "mh_Apis mh (RequestMsgID request) = Some (tcpRouter E calls)"
    and "tcpHandle E (calls (ta_calls a)) request (ta_service a) (ta_conns a) = (None, s', w')"
  shows "DoMsgHandler (Some request) mh a = (None, mh, \<lparr> ta_calls = Suc (ta_calls a), ta_service = s', ta_conns = w' \<rparr>)"
  using assms by (simp add: DoMsgHandler_def tcpRouter_def BaseRouter_def)

end
