(* ===== verification/RateBound.thy ===== *)
theory RateBound
  imports TokenBucket
begin

text \<open>
  How far rounding can bend the rate bound of a token bucket. The numbers of \<open>limit/token_bucket.go\<close> are
  float64; \<open>float64_rounding\<close> states what IEEE 754 promises of rounding to the nearest float64: it is
  monotone, leaves integers up to \<open>2 ^ 53\<close> alone, and errs by at most half a unit in the last place, or by
  less than the smallest number near zero. Every call then adds at most a fixed error to the tokens.
\<close>

section \<open>Rounding to float64\<close>

text \<open>Half a unit in the last place, the smallest positive number, and a bound below the overflow.\<close>

definition half_ulp :: real where "half_ulp = 1 / 2 ^ 53"

definition smallest :: real where "smallest = 1 / 2 ^ 1074"

definition in_range :: "real \<Rightarrow> bool" where "in_range x \<longleftrightarrow> \<bar>x\<bar> \<le> 2 ^ 1000"

definition float64_rounding :: "(real \<Rightarrow> real) \<Rightarrow> bool" where
  "float64_rounding rnd \<longleftrightarrow> rounding rnd \<and>
     (\<forall>i :: int. \<bar>i\<bar> \<le> 2 ^ 53 \<longrightarrow> rnd (of_int i) = of_int i) \<and>
     (\<forall>x. in_range x \<longrightarrow> \<bar>rnd x - x\<bar> \<le> \<bar>x\<bar> * half_ulp + smallest)"

lemma float64_int: "float64_rounding rnd \<Longrightarrow> \<bar>i\<bar> \<le> 2 ^ 53 \<Longrightarrow> rnd (of_int i) = of_int i"
  unfolding float64_rounding_def by blast

lemma smallest_pos: "0 < smallest"
  unfolding smallest_def by (intro divide_pos_pos zero_less_power) simp_all

lemma smallest_less: "smallest \<le> 1 / 2 ^ 100"
  unfolding smallest_def by (intro divide_left_mono power_increasing mult_pos_pos zero_less_power) simp_all

lemma in_rangeI:
  assumes "0 \<le> x" "x \<le> 2 ^ 120"
  shows "in_range x"
proof -
  have "(2 :: real) ^ 120 \<le> 2 ^ 1000" by (intro power_increasing) simp_all
  with assms(2) have "x \<le> 2 ^ 1000" by (rule order_trans)
  then show ?thesis unfolding in_range_def abs_of_nonneg [OF assms(1)] .
qed

lemma float64_error:
  assumes "float64_rounding rnd" "0 \<le> x" "x \<le> 2 ^ 120"
  shows "rnd x \<le> x + (x * half_ulp + smallest)"
proof -
  have "\<bar>rnd x - x\<bar> \<le> \<bar>x\<bar> * half_ulp + smallest"
    using assms(1) in_rangeI [OF assms(2,3)] unfolding float64_rounding_def by blast
  then show ?thesis unfolding abs_of_nonneg [OF assms(2)] by linarith
qed

text \<open>The hypotheses are met by exact arithmetic, and by cutting off after 1074 binary places.\<close>

lemma float64_exact: "float64_rounding (\<lambda>x. x)"
  using smallest_pos by (simp add: float64_rounding_def rounding_def mono_def half_ulp_def)

lemma grid_rounds:
  fixes b :: real
  assumes "0 < b" "b = of_int k"
  shows "mono (\<lambda>x. of_int \<lfloor>x * b\<rfloor> / b)" "of_int \<lfloor>of_int i * b\<rfloor> / b = of_int i"
    "of_int \<lfloor>of_int \<lfloor>x * b\<rfloor> / b * b\<rfloor> / b = of_int \<lfloor>x * b\<rfloor> / b" "\<bar>of_int \<lfloor>x * b\<rfloor> / b - x\<bar> \<le> 1 / b"
proof -
  show "mono (\<lambda>x. of_int \<lfloor>x * b\<rfloor> / b)"
    using assms(1) by (intro monoI divide_right_mono) (simp_all add: floor_mono mult_right_mono)
  have "of_int i * b = of_int (i * k)" using assms(2) by simp
  then have e: "of_int \<lfloor>of_int i * b\<rfloor> = (of_int i * b :: real)" by (simp only: floor_of_int)
  show "of_int \<lfloor>of_int i * b\<rfloor> / b = of_int i" unfolding e using assms(1) by simp
  show "of_int \<lfloor>of_int \<lfloor>x * b\<rfloor> / b * b\<rfloor> / b = of_int \<lfloor>x * b\<rfloor> / b" using assms(1) by simp
  have "of_int \<lfloor>x * b\<rfloor> \<le> x * b" "x * b \<le> of_int \<lfloor>x * b\<rfloor> + 1" by linarith+
  then have "of_int \<lfloor>x * b\<rfloor> / b \<le> x" "x \<le> (of_int \<lfloor>x * b\<rfloor> + 1) / b"
    using assms(1) by (simp_all add: pos_divide_le_eq pos_le_divide_eq)
  then show "\<bar>of_int \<lfloor>x * b\<rfloor> / b - x\<bar> \<le> 1 / b" unfolding add_divide_distrib by linarith
qed

lemma float64_grid: "float64_rounding (\<lambda>x. of_int \<lfloor>x * (1 / smallest)\<rfloor> / (1 / smallest))"
proof -
  have b: "0 < 1 / smallest" "1 / smallest = of_int (2 ^ 1074)"
    using smallest_pos unfolding smallest_def by (simp_all only: of_int_power of_int_numeral divide_simps) simp_all
  note G = grid_rounds [OF b]
  have "\<bar>of_int \<lfloor>x * (1 / smallest)\<rfloor> / (1 / smallest) - x\<bar> \<le> \<bar>x\<bar> * half_ulp + smallest" for x
  proof -
    have "0 \<le> \<bar>x\<bar> * half_ulp" by (simp add: half_ulp_def)
    with G(4) [of x] show ?thesis by simp
  qed
  with G(1-3) show ?thesis
    unfolding float64_rounding_def rounding_def by (auto simp: mult.commute)
qed

section \<open>One call\<close>

lemma half_ulp_pos: "0 < half_ulp" "half_ulp \<le> 1 / 8"
  by (simp_all add: half_ulp_def)

lemma smallest_half_ulp: "2 ^ 24 * smallest \<le> half_ulp"
  using smallest_less by (simp add: half_ulp_def)

lemma Seconds_nonpos:
  assumes "rounding rnd" "d \<le> 0"
  shows "Seconds rnd d \<le> 0"
proof -
  have zero: "rnd x \<le> 0" if "x \<le> 0" for x
    using rounding_mono [OF assms(1) that] assms(1) by (simp add: rounding_def)
  have "d sdiv 1000000000 \<le> 0" "d smod 1000000000 \<le> 0"
    using assms(2) by (simp_all add: signed_divide_int_def signed_modulo_int_def sgn_if)
       (auto simp: minus_div_mult_eq_mod [symmetric] pos_imp_zdiv_nonneg_iff)
  then show ?thesis unfolding Seconds_def by (intro zero add_nonpos_nonpos divide_nonpos_pos) simp_all
qed

lemma Seconds_upper:
  assumes r: "float64_rounding rnd" and d: "0 \<le> d" "d < 2 ^ 63"
  shows "Seconds rnd d \<le> of_int d / 1000000000 * (1 + half_ulp)\<^sup>2 + 3 * smallest" "0 \<le> Seconds rnd d"
proof -
  note u = half_ulp_pos and s = smallest_pos
  have mono: "0 \<le> x \<Longrightarrow> 0 \<le> rnd x" for x
    using rounding_nonneg r unfolding float64_rounding_def by blast
  define q m where "q = d div 1000000000" and "m = d mod 1000000000"
  have split: "d sdiv 1000000000 = q" "d smod 1000000000 = m"
    using d(1) by (simp_all add: q_def m_def signed_divide_int_def signed_modulo_int_def sgn_if)
  have qm: "0 \<le> q" "q \<le> 2 ^ 53" "0 \<le> m" "m < 1000000000" "d = q * 1000000000 + m"
    using d by (simp_all add: q_def m_def)
  have int: "rnd (of_int q) = of_int q" "rnd (of_int m) = of_int m"
    using float64_int [OF r] qm by simp_all
  define x :: real where "x = of_int m / 1000000000"
  have x: "0 \<le> x" "x \<le> 1" using qm(3,4) by (simp_all add: x_def)
  have f: "0 \<le> rnd x" "rnd x \<le> x + (x * half_ulp + smallest)"
    using mono [OF x(1)] float64_error [OF r x(1)] x(2) by simp_all
  have "x * half_ulp \<le> 1" using x u mult_mono [of x 1 half_ulp 1] by simp
  then have f1: "rnd x \<le> 3" using f(2) x(2) smallest_less by simp
  define y where "y = of_int q + rnd x"
  have "of_int q \<le> (2 :: real) ^ 53" using qm(2) by (metis of_int_le_iff of_int_numeral of_int_power)
  then have y: "0 \<le> y" "y \<le> 2 ^ 120" using qm(1) f(1) f1 by (simp_all add: y_def)
  have S: "Seconds rnd d = rnd y" by (simp add: Seconds_def split int y_def x_def)
  show "0 \<le> Seconds rnd d" unfolding S by (rule mono [OF y(1)])
  have D: "of_int d / 1000000000 = of_int q + x" by (simp add: qm(5) x_def add_divide_distrib)
  have "0 \<le> of_int q * half_ulp" using qm(1) u(1) by simp
  then have "y \<le> (of_int q + x) * (1 + half_ulp) + smallest"
    using f(2) by (simp add: y_def algebra_simps)
  then have "y * (1 + half_ulp) \<le> ((of_int q + x) * (1 + half_ulp) + smallest) * (1 + half_ulp)"
    using u(1) by (intro mult_right_mono) simp_all
  moreover have "smallest * (1 + half_ulp) \<le> smallest * 2" using s u by (intro mult_left_mono) simp_all
  moreover have "rnd y \<le> y * (1 + half_ulp) + smallest"
    using float64_error [OF r y] by (simp add: algebra_simps)
  ultimately have "rnd y \<le> (of_int q + x) * (1 + half_ulp)\<^sup>2 + 3 * smallest"
    by (simp add: power2_eq_square algebra_simps)
  then show "Seconds rnd d \<le> of_int d / 1000000000 * (1 + half_ulp)\<^sup>2 + 3 * smallest"
    unfolding S D .
qed

lemma half_ulp_cube: "(1 + half_ulp) ^ 3 \<le> 1 + 4 * half_ulp"
proof -
  note u = half_ulp_pos
  have "half_ulp * half_ulp \<le> half_ulp * (1 / 8)" using u by (intro mult_left_mono) simp_all
  moreover have "half_ulp * half_ulp * half_ulp \<le> half_ulp * half_ulp * 1" using u by (intro mult_left_mono) simp_all
  moreover have "(1 + half_ulp) ^ 3 = 1 + 3 * half_ulp + 3 * (half_ulp * half_ulp) + half_ulp * half_ulp * half_ulp"
    by (simp add: power3_eq_cube algebra_simps)
  ultimately show ?thesis using u by linarith
qed

text \<open>A bucket of the sizes in use: both numbers of its configuration are integers of moderate size.\<close>

definition bucket_of :: "int \<Rightarrow> int \<Rightarrow> TokenBucket \<Rightarrow> bool" where
  "bucket_of rate burst tb \<longleftrightarrow> tb_rate tb = of_int rate \<and> tb_burst tb = of_int burst \<and>
     1 \<le> rate \<and> rate \<le> 2 ^ 20 \<and> 1 \<le> burst \<and> burst \<le> 2 ^ 20 \<and> 0 \<le> tb_tokens tb \<and> tb_tokens tb \<le> of_int burst"

definition call_error :: "int \<Rightarrow> real" where
  "call_error burst = of_int (burst + 1) * half_ulp"

text \<open>The refilled tokens come out at most so much above the tokens with the share of the time elapsed.\<close>

lemma refill_upper:
  assumes r: "float64_rounding rnd" and tb: "bucket_of rate burst tb"
    and d: "d = now - tb_lastRefill tb" "d < 2 ^ 63" and pos: "0 < Seconds rnd d"
  shows "tb_tokens (refill rnd now tb) \<le>
    tb_tokens tb + of_int rate * (1 + 4 * half_ulp) * (of_int d / 1000000000) + call_error burst"
proof -
  note u = half_ulp_pos and s = smallest_pos
  have rr: "rounding rnd" using r by (simp add: float64_rounding_def)
  have d0: "0 \<le> d" using Seconds_nonpos [OF rr, of d] pos by linarith
  note S = Seconds_upper [OF r d0 d(2)]
  note B = tb [unfolded bucket_of_def]
  let ?D = "of_int d / 1000000000 :: real" and ?S = "Seconds rnd d" and ?r = "of_int rate :: real" and ?b = "of_int burst :: real"
  have r1: "1 \<le> ?r" "?r \<le> 2 ^ 20" "1 \<le> ?b" "?b \<le> 2 ^ 20"
    using B by (metis of_int_1 of_int_le_iff of_int_numeral of_int_power)+
  have D: "0 \<le> ?D" "?D \<le> 2 ^ 63"
  proof -
    have "of_int d \<le> (2 :: real) ^ 63" using d(2) by (metis less_imp_le of_int_le_iff of_int_numeral of_int_power)
    then show "?D \<le> 2 ^ 63" by simp
  qed (use d0 in simp)
  have sq: "(1 + half_ulp)\<^sup>2 \<le> 2"
  proof -
    have "(1 + half_ulp) * (1 + half_ulp) \<le> (1 + 1 / 8) * (1 + 1 / 8)" using u by (intro mult_mono) simp_all
    then show ?thesis by (simp add: power2_eq_square)
  qed
  have "?D * (1 + half_ulp)\<^sup>2 \<le> 2 ^ 63 * 2" using D sq by (intro mult_mono) simp_all
  then have S1: "?S \<le> 2 ^ 65" using S(1) smallest_less by simp
  have "?S * ?r \<le> 2 ^ 65 * 2 ^ 20" using S1 r1 S(2) by (intro mult_mono) simp_all
  then have X: "0 \<le> ?S * ?r" "?S * ?r \<le> 2 ^ 120" using S(2) r1 by simp_all
  define P where "P = rnd (?S * ?r)"
  have P0: "0 \<le> P" unfolding P_def by (rule rounding_nonneg [OF rr X(1)])
  have "P \<le> (?S * ?r) * (1 + half_ulp) + smallest"
    using float64_error [OF r X] by (simp add: P_def algebra_simps)
  moreover have "(?S * ?r) * (1 + half_ulp) \<le> ((?D * (1 + half_ulp)\<^sup>2 + 3 * smallest) * ?r) * (1 + half_ulp)"
    using S(1) r1 u by (intro mult_right_mono) simp_all
  moreover have "((?D * (1 + half_ulp)\<^sup>2 + 3 * smallest) * ?r) * (1 + half_ulp)
      = ?r * ?D * (1 + half_ulp) ^ 3 + 3 * smallest * ?r * (1 + half_ulp)"
    by (simp add: power2_eq_square power3_eq_cube algebra_simps)
  moreover have "?r * ?D * (1 + half_ulp) ^ 3 \<le> ?r * ?D * (1 + 4 * half_ulp)"
    using r1 D half_ulp_cube by (intro mult_left_mono) simp_all
  moreover have "3 * smallest * ?r * (1 + half_ulp) \<le> 3 * smallest * 2 ^ 20 * 2"
    using r1 s u by (intro mult_mono) simp_all
  moreover have "3 * smallest * 2 ^ 20 * 2 + smallest \<le> half_ulp / 2"
    using smallest_half_ulp s by simp
  moreover have "?r * ?D * (1 + 4 * half_ulp) = ?r * (1 + 4 * half_ulp) * ?D" by simp
  ultimately have P: "P \<le> ?r * (1 + 4 * half_ulp) * ?D + half_ulp / 2"
    by linarith
  let ?t = "tb_tokens tb"
  have t': "tb_tokens (refill rnd now tb) = min (rnd (?t + P)) ?b"
    using pos B by (simp add: refill_def Let_def d(1) P_def min_def)
  have "min (rnd (?t + P)) ?b \<le> ?t + P + (?b * half_ulp + smallest)"
  proof (cases "?t + P \<le> ?b")
    case True
    have "?t + P \<le> 2 ^ 120" using True r1(4) by simp
    then have "rnd (?t + P) \<le> ?t + P + ((?t + P) * half_ulp + smallest)"
      using B P0 by (intro float64_error [OF r]) simp_all
    moreover have "(?t + P) * half_ulp \<le> ?b * half_ulp" using True u by (intro mult_right_mono) simp_all
    ultimately show ?thesis by linarith
  next
    case False
    have "0 \<le> ?b * half_ulp + smallest" using r1 u s by simp
    with False show ?thesis by linarith
  qed
  with P smallest_half_ulp s u show ?thesis
    unfolding t' call_error_def by (simp add: algebra_simps)
qed

text \<open>The potential of a bucket whose rate is a little higher.\<close>

definition rounded_potential :: "int \<Rightarrow> TokenBucket \<Rightarrow> real" where
  "rounded_potential rate tb =
     tb_tokens tb - of_int rate * (1 + 4 * half_ulp) * (of_int (tb_lastRefill tb) / 1000000000)"

lemma bucket_of_refill:
  assumes "rounding rnd" "bucket_of rate burst tb"
  shows "bucket_of rate burst (refill rnd now tb)"
proof -
  note B = assms(2) [unfolded bucket_of_def]
  have "0 \<le> rnd (tb_tokens tb + rnd (e * tb_rate tb))" if "0 < e" for e
    using B that by (intro rounding_nonneg [OF assms(1)] add_nonneg_nonneg mult_nonneg_nonneg) simp_all
  with B show ?thesis by (auto simp: bucket_of_def refill_def Let_def)
qed

lemma refill_rounded_potential:
  assumes r: "float64_rounding rnd" and tb: "bucket_of rate burst tb" and now: "now - tb_lastRefill tb < 2 ^ 63"
  shows "rounded_potential rate (refill rnd now tb) \<le> rounded_potential rate tb + call_error burst"
    "tb_lastRefill (refill rnd now tb) \<in> {tb_lastRefill tb, now}"
    "tb_lastRefill tb \<le> tb_lastRefill (refill rnd now tb)"
proof -
  let ?d = "now - tb_lastRefill tb"
  have rr: "rounding rnd" using r by (simp add: float64_rounding_def)
  have e: "0 \<le> call_error burst" using tb half_ulp_pos by (simp add: call_error_def bucket_of_def)
  show "tb_lastRefill (refill rnd now tb) \<in> {tb_lastRefill tb, now}" by (simp add: refill_def Let_def)
  show "tb_lastRefill tb \<le> tb_lastRefill (refill rnd now tb)"
    using Seconds_nonpos [OF rr, of ?d] by (cases "?d \<le> 0") (simp_all add: refill_def Let_def)
  show "rounded_potential rate (refill rnd now tb) \<le> rounded_potential rate tb + call_error burst"
  proof (cases "0 < Seconds rnd ?d")
    case True
    then have "tb_lastRefill (refill rnd now tb) = now" by (simp add: refill_def Let_def)
    with refill_upper [OF r tb refl now True] show ?thesis
      by (simp add: rounded_potential_def diff_divide_distrib right_diff_distrib)
  next
    case False
    then have "refill rnd now tb = tb" by (simp add: refill_def Let_def)
    with e show ?thesis by simp
  qed
qed

lemma AllowN_rounded:
  assumes r: "float64_rounding rnd" and tb: "bucket_of rate burst tb" and now: "now - tb_lastRefill tb < 2 ^ 63"
    and count: "count \<le> 2 ^ 53" and a: "AllowN rnd now count (Some tb) = (ok, Some tb')"
  shows "rounded_potential rate tb' + (if ok then of_int count else 0) \<le> rounded_potential rate tb + 2 * call_error burst"
    "bucket_of rate burst tb'" "tb_lastRefill tb' \<in> {tb_lastRefill tb, now}" "tb_lastRefill tb \<le> tb_lastRefill tb'"
proof -
  have rr: "rounding rnd" using r by (simp add: float64_rounding_def)
  note u = half_ulp_pos
  have e: "0 \<le> call_error burst" using tb u by (simp add: call_error_def bucket_of_def)
  let ?tb = "refill rnd now tb" and ?c = "of_int count :: real"
  note R = refill_rounded_potential [OF r tb now] and B = bucket_of_refill [OF rr tb, of now]
  have "rounded_potential rate tb' + (if ok then ?c else 0) \<le> rounded_potential rate tb + 2 * call_error burst \<and>
    bucket_of rate burst tb' \<and> tb_lastRefill tb' \<in> {tb_lastRefill tb, now} \<and> tb_lastRefill tb \<le> tb_lastRefill tb'"
  proof (cases rule: AllowN_cases [where rnd = rnd and now = now and count = count and tb = tb])
    case 1
    with a tb e show ?thesis by simp
  next
    case 2
    with a B R e show ?thesis by simp
  next
    case 3
    note B' = B [unfolded bucket_of_def]
    have int: "rnd ?c = ?c" using float64_int [OF r] 3(2) count by simp
    let ?t = "tb_tokens ?tb" and ?b = "of_int burst :: real"
    have t: "0 \<le> ?t - ?c" "?t - ?c \<le> ?b" using 3(2,3) B' int by simp_all
    have "?b \<le> 2 ^ 20" using B' by (metis of_int_le_iff of_int_numeral of_int_power)
    then have small: "?t - ?c \<le> 2 ^ 120" using t(2) by simp
    have "(?t - ?c) * half_ulp \<le> ?b * half_ulp" using t(2) u by (intro mult_right_mono) simp_all
    then have le: "rnd (?t - ?c) \<le> ?t - ?c + call_error burst"
      using float64_error [OF r t(1) small] smallest_half_ulp smallest_pos
      by (simp add: call_error_def algebra_simps)
    have "0 \<le> rnd (?t - ?c)" by (rule rounding_nonneg [OF rr t(1)])
    moreover have "rnd (?t - ?c) \<le> rnd ?b" using t(2) by (rule rounding_mono [OF rr])
    moreover have "rnd ?b = ?b" using float64_int [OF r, of burst] B' by simp
    ultimately have "bucket_of rate burst (?tb\<lparr>tb_tokens := rnd (?t - ?c)\<rparr>)"
      using B' by (simp add: bucket_of_def)
    moreover have "rounded_potential rate (?tb\<lparr>tb_tokens := rnd (?t - ?c)\<rparr>) + ?c \<le> rounded_potential rate ?tb + call_error burst"
      using le by (simp add: rounded_potential_def)
    ultimately show ?thesis using a 3(1) R int by auto
  qed
  then show "rounded_potential rate tb' + (if ok then ?c else 0) \<le> rounded_potential rate tb + 2 * call_error burst"
    "bucket_of rate burst tb'" "tb_lastRefill tb' \<in> {tb_lastRefill tb, now}" "tb_lastRefill tb \<le> tb_lastRefill tb'"
    by blast+
qed

section \<open>A sequence of calls\<close>

lemma AllowRun_rounded:
  assumes "float64_rounding rnd" "bucket_of rate burst tb" "AllowRun rnd calls (Some tb) = (oks, Some tb')"
    and "\<forall>(now, count) \<in> set calls. now \<le> T \<and> count \<le> 2 ^ 53" "tb_lastRefill tb \<le> T" "T - tb_lastRefill tb < 2 ^ 63"
  shows "rounded_potential rate tb' + of_int (granted calls oks) \<le>
      rounded_potential rate tb + of_nat (length calls) * (2 * call_error burst)
    \<and> bucket_of rate burst tb' \<and> tb_lastRefill tb' \<le> T"
  using assms(2-)
proof (induction calls arbitrary: tb oks)
  case Nil
  then show ?case by (simp add: granted_def)
next
  case (Cons call calls)
  obtain now count where call: "call = (now, count)" by fastforce
  obtain ok tb1 where ok: "AllowN rnd now count (Some tb) = (ok, Some tb1)" by (rule AllowN_Some)
  obtain oks1 where oks1: "AllowRun rnd calls (Some tb1) = (oks1, Some tb')" "oks = ok # oks1"
    using Cons.prems(2) by (auto simp: call ok split: prod.splits)
  have now: "now - tb_lastRefill tb < 2 ^ 63" "count \<le> 2 ^ 53" "now \<le> T" using Cons.prems(3,5) by (auto simp: call)
  note step = AllowN_rounded [OF assms(1) Cons.prems(1) now(1,2) ok]
  have "tb_lastRefill tb1 \<le> T" "T - tb_lastRefill tb1 < 2 ^ 63" using step(3,4) now(3) Cons.prems(4,5) by auto
  then have ih: "rounded_potential rate tb' + of_int (granted calls oks1) \<le>
      rounded_potential rate tb1 + of_nat (length calls) * (2 * call_error burst)"
    "bucket_of rate burst tb'" "tb_lastRefill tb' \<le> T"
    using Cons.IH [OF step(2) oks1(1)] Cons.prems(3) by simp_all
  have "granted (call # calls) oks = (if ok then count else 0) + granted calls oks1"
    by (simp add: granted_def oks1(2) call)
  with ih step(1) show ?case by (auto simp: algebra_simps)
qed

text \<open>
  What a bucket of this rate and burst grants up to \<open>T\<close>: the burst, the elapsed seconds at a rate higher by
  two units in the last place, and an error per call.
\<close>

lemma granted_rounded:
  assumes r: "float64_rounding rnd" and new: "NewTokenBucket rnd start rate burst = Inr tb" "rate \<le> 2 ^ 20" "burst \<le> 2 ^ 20"
    and run: "AllowRun rnd calls (Some tb) = (oks, bucket)"
    and calls: "\<forall>(now, count) \<in> set calls. now \<le> T \<and> count \<le> 2 ^ 53" and T: "start \<le> T" "T - start < 2 ^ 63"
  shows "of_int (granted calls oks) \<le> of_int burst + of_int rate * (1 + 4 * half_ulp) * (of_int (T - start) / 1000000000)
      + of_nat (length calls) * (2 * call_error burst)"
proof -
  obtain tb' where run': "AllowRun rnd calls (Some tb) = (oks, Some tb')"
    using run AllowRun_Some [of rnd calls tb] by auto
  have pos: "1 \<le> rate" "1 \<le> burst" using new(1) by (auto simp: NewTokenBucket_def split: if_splits)
  have "rnd (of_int rate) = of_int rate" "rnd (of_int burst) = of_int burst"
    using float64_int [OF r] new(2,3) pos by simp_all
  then have tb: "tb_rate tb = of_int rate" "tb_burst tb = of_int burst" "tb_tokens tb = of_int burst" "tb_lastRefill tb = start"
    using new(1) by (auto simp: NewTokenBucket_def split: if_splits)
  then have "bucket_of rate burst tb" using pos new(2,3) by (simp add: bucket_of_def)
  from AllowRun_rounded [OF r this run' calls] T
  have pot: "rounded_potential rate tb' + of_int (granted calls oks) \<le>
      rounded_potential rate tb + of_nat (length calls) * (2 * call_error burst)"
    and tb': "bucket_of rate burst tb'" "tb_lastRefill tb' \<le> T" by (simp_all add: tb)
  let ?k = "of_int rate * (1 + 4 * half_ulp) :: real"
  have "0 \<le> ?k" using pos half_ulp_pos by simp
  then have "?k * (of_int (tb_lastRefill tb') / 1000000000) \<le> ?k * (of_int T / 1000000000)"
    using tb'(2) by (intro mult_left_mono divide_right_mono) simp_all
  moreover have "0 \<le> tb_tokens tb'" using tb'(1) by (simp add: bucket_of_def)
  moreover have "?k * (of_int (T - start) / 1000000000) = ?k * (of_int T / 1000000000) - ?k * (of_int start / 1000000000)"
    by (simp add: diff_divide_distrib right_diff_distrib)
  ultimately show ?thesis using pot unfolding rounded_potential_def tb by linarith
qed

end
