(* ===== verification/GameHttp.thy ===== *)
theory GameHttp
  imports GameProgress GoBytes RateBound
begin

text \<open>
  The HTTP entry of the example application, \<open>examples/gameapp/http.go\<close>: the handlers behind the routes,
  with the middleware that marks every answer as not to be stored and bounds the body, the rate limit of the
  login, and the recovery from panics. The web framework delivers the request and sends the answer;
  what it answers when no route matches is left open (\<open>None\<close>).
\<close>

section \<open>Requests and answers\<close>

text \<open>\<open>hq_auth\<close> is the header \<open>Authorization\<close>, empty if there is none; reading the body may fail.\<close>

record http_request =
  hq_method :: string
  hq_path :: string
  hq_auth :: string
  hq_body :: "bytes res"

datatype http_body = NoBody | StatusBody string | CodeBody string | LoginBody LoginResult | MeBody PlayerView
  | RoomsBody "RoomView list" | ProgressBody Progress

record http_response =
  hs_status :: nat
  hs_header :: "(string \<times> string) list"
  hs_body :: http_body

record http_env =
  he_rnd :: "real \<Rightarrow> real"
  he_bcrypt :: bcrypt
  he_unmarshal :: "bytes \<Rightarrow> (string \<times> string) res"
  he_json :: progress_json

text \<open>What one call meets: its context, the clock of the limiter and of the service, random bytes, the store.\<close>

record 'st http_call =
  hc_ctx :: ctx
  hc_limit :: gotime
  hc_now1 :: gotime
  hc_now2 :: gotime
  hc_random :: "bytes res"
  hc_store :: "'st store_ops"

text \<open>The middleware sets its header before the handler runs.\<close>

definition respond :: "nat \<Rightarrow> (string \<times> string) list \<Rightarrow> http_body \<Rightarrow> http_response" where
  "respond status header body =
     \<lparr> hs_status = status, hs_header = (''Cache-Control'', ''no-store'') # header, hs_body = body \<rparr>"

text \<open>\<open>io.ReadAll\<close> on the reader of \<open>http.MaxBytesReader\<close>.\<close>

definition readBody :: "nat \<Rightarrow> http_request \<Rightarrow> bytes res" where
  "readBody limit req =
     (case hq_body req of
        Inl err \<Rightarrow> Inl err
      | Inr body \<Rightarrow> if length body > limit then Inl (Err ''http: request body too large'') else Inr body)"

text \<open>\<open>gin.Recovery\<close> answers a panic of a handler with the status 500.\<close>

definition recovered :: http_response where
  "recovered = respond 500 [] NoBody"

definition writeHTTPError :: "go_error \<Rightarrow> http_response" where
  "writeHTTPError err =
     (if errorsIs err ErrUnauthorized then respond 401 [(''WWW-Authenticate'', ''Bearer'')] (CodeBody ''unauthorized'')
      else respond 500 [] (CodeBody ''internal_error''))"

definition bearer :: "http_request \<Rightarrow> string" where
  "bearer req =
     (let parts = Fields (hq_auth req)
      in if length parts \<noteq> 2 \<or> \<not> EqualFold (parts ! 0) ''Bearer'' then [] else parts ! 1)"

section \<open>The handlers\<close>

text \<open>The answer to the outcome of a call on the service.\<close>

definition answer :: "('a \<Rightarrow> http_body) \<Rightarrow> 'a res \<Rightarrow> http_response" where
  "answer body r =
     (case r of
        Inl err \<Rightarrow> (case errPanic err of Some msg \<Rightarrow> recovered | None \<Rightarrow> writeHTTPError err)
      | Inr v \<Rightarrow> respond 200 [] (body v))"

definition loginHandler ::
  "http_env \<Rightarrow> 'st http_call \<Rightarrow> http_request \<Rightarrow> TokenBucket option \<Rightarrow> 'st Service \<Rightarrow> 'p conn_store
   \<Rightarrow> http_response \<times> TokenBucket option \<times> 'st Service \<times> 'p conn_store" where
  "loginHandler E cl req loginLimit s w =
     (case Allow (he_rnd E) (hc_limit cl) loginLimit of
        (False, limit1) \<Rightarrow> (respond 429 [(''Retry-After'', ''1'')] (CodeBody ''rate_limited''), limit1, s, w)
      | (True, limit1) \<Rightarrow>
          (case (case readBody 4096 req of Inl err \<Rightarrow> Inl err | Inr body \<Rightarrow> he_unmarshal E body) of
             Inl err \<Rightarrow> (respond 400 [] (CodeBody ''invalid_request''), limit1, s, w)
           | Inr (accountID, password) \<Rightarrow>
               if accountID = [] \<or> length accountID > 128 \<or> password = [] \<or> length password > 72
               then (respond 400 [] (CodeBody ''invalid_request''), limit1, s, w)
               else (case ServiceLogin (he_bcrypt E) (hc_store cl) (hc_ctx cl) accountID password (hc_now1 cl)
                            (hc_random cl) (hc_now2 cl) s w of
                       (result, s1, w1) \<Rightarrow> (answer LoginBody result, limit1, s1, w1))))"

definition meHandler :: "'st http_call \<Rightarrow> http_request \<Rightarrow> 'st Service \<Rightarrow> http_response" where
  "meHandler cl req s = answer MeBody (Me (hc_store cl) (hc_ctx cl) (bearer req) (hc_now1 cl) s)"

definition roomsHandler :: "'st http_call \<Rightarrow> http_request \<Rightarrow> 'st Service \<Rightarrow> http_response" where
  "roomsHandler cl req s = answer RoomsBody (ServiceRooms (bearer req) (hc_now1 cl) s)"

definition progressHandler :: "http_env \<Rightarrow> 'st http_call \<Rightarrow> http_request \<Rightarrow> 'st Service \<Rightarrow> http_response" where
  "progressHandler E cl req s =
     answer ProgressBody (ServiceProgress (he_json E) (hc_store cl) (hc_ctx cl) (bearer req) (hc_now1 cl) s)"

text \<open>The error of \<open>NewTokenBucket\<close> is dropped; a nil bucket would refuse everything.\<close>

definition NewHTTPHandler :: "http_env \<Rightarrow> gotime \<Rightarrow> TokenBucket option" where
  "NewHTTPHandler E now = (case NewTokenBucket (he_rnd E) now 10 20 of Inl err \<Rightarrow> None | Inr tb \<Rightarrow> Some tb)"

definition serveHTTP ::
  "http_env \<Rightarrow> 'st http_call \<Rightarrow> http_request \<Rightarrow> TokenBucket option \<Rightarrow> 'st Service \<Rightarrow> 'p conn_store
   \<Rightarrow> http_response option \<times> TokenBucket option \<times> 'st Service \<times> 'p conn_store" where
  "serveHTTP E cl req limit s w =
     (if (hq_method req, hq_path req) = (''GET'', ''/healthz'') then (Some (respond 200 [] (StatusBody ''ok'')), limit, s, w)
      else if (hq_method req, hq_path req) = (''POST'', ''/api/v1/login'') then
        (case loginHandler E cl req limit s w of (r, limit1, s1, w1) \<Rightarrow> (Some r, limit1, s1, w1))
      else if (hq_method req, hq_path req) = (''GET'', ''/api/v1/me'') then (Some (meHandler cl req s), limit, s, w)
      else if (hq_method req, hq_path req) = (''GET'', ''/api/v1/rooms'') then (Some (roomsHandler cl req s), limit, s, w)
      else if (hq_method req, hq_path req) = (''GET'', ''/api/v1/progress'') then (Some (progressHandler E cl req s), limit, s, w)
      else (None, limit, s, w))"

text \<open>A sequence of requests.\<close>

fun serveAll ::
  "http_env \<Rightarrow> ('st http_call \<times> http_request) list \<Rightarrow> TokenBucket option \<Rightarrow> 'st Service \<Rightarrow> 'p conn_store
   \<Rightarrow> http_response option list \<times> TokenBucket option \<times> 'st Service \<times> 'p conn_store" where
  "serveAll E [] limit s w = ([], limit, s, w)"
| "serveAll E ((cl, req) # reqs) limit s w =
     (case serveHTTP E cl req limit s w of
        (r, limit1, s1, w1) \<Rightarrow>
          (case serveAll E reqs limit1 s1 w1 of (rs, rest) \<Rightarrow> (r # rs, rest)))"

section \<open>The bearer token\<close>

lemma fieldsFrom_word:
  "\<forall>c \<in> set word. \<forall>s \<in> set ss. s \<noteq> [] \<longrightarrow> hd s \<noteq> c \<Longrightarrow>
     fieldsFrom ss cur (word @ rest) = fieldsFrom ss (rev word @ cur) rest"
proof (induction word arbitrary: cur)
  case (Cons x word)
  have "find (\<lambda>s. s \<noteq> [] \<and> prefix s (x # (word @ rest))) ss = None"
    using Cons.prems by (auto simp: find_None_iff prefix_Cons)
  with Cons show ?case by simp
qed simp

definition wordChar :: "char \<Rightarrow> bool" where
  "wordChar c \<longleftrightarrow> 0x21 \<le> (of_char c :: nat) \<and> of_char c < (0x7F :: nat)"

lemma spaces_lead: "s \<in> set (map (map of_byte) spaceBytes) \<Longrightarrow> s \<noteq> [] \<and> \<not> wordChar (hd s)"
  by (auto simp: spaceBytes_def of_byte_def wordChar_def)

lemma Fields_two:
  assumes "list_all wordChar a" "list_all wordChar b" "a \<noteq> []" "b \<noteq> []"
  shows "Fields (a @ CHR '' '' # b) = [a, b]"
proof -
  let ?ss = "map (map of_byte) spaceBytes"
  have word: "\<forall>c \<in> set v. \<forall>s \<in> set ?ss. s \<noteq> [] \<longrightarrow> hd s \<noteq> c" if "list_all wordChar v" for v
    using that spaces_lead by (auto simp: list_all_iff)
  have sp: "find (\<lambda>s. s \<noteq> [] \<and> prefix s (CHR '' '' # b)) ?ss = Some '' ''"
    by (simp add: spaceBytes_def of_byte_def char_of_eq_iff)
  have "Fields (a @ CHR '' '' # b) = fieldsFrom ?ss (rev a) (CHR '' '' # b)"
    using fieldsFrom_word [OF word [OF assms(1)], of "[]" "CHR '' '' # b"] by (simp add: Fields_def)
  also have "\<dots> = [a] @ fieldsFrom ?ss [] b" using sp assms(3) by simp
  also have "fieldsFrom ?ss [] b = [b]"
    using fieldsFrom_word [OF word [OF assms(2)], of "[]" "[]"] assms(4) by simp
  finally show ?thesis by simp
qed

lemma hexEncode_wordChar: "list_all wordChar (hexEncode bs)"
proof -
  have "list_all wordChar ''0123456789abcdef''" by (simp add: wordChar_def)
  then have digit: "wordChar (hexdigit n)" if "n < 16" for n
    using that unfolding list_all_length hexdigit_def by (auto simp del: nth_Cons_numeral)
  have "wordChar (hexdigit (unat b div 16))" "wordChar (hexdigit (unat b mod 16))" for b :: u8
    using unsigned_less [of b, where 'a = nat] by (intro digit; simp add: less_mult_imp_div_less)+
  then show ?thesis by (induction bs) (simp_all add: hexEncode_def)
qed

lemma EqualFold_Bearer:
  assumes "EqualFold scheme ''Bearer''"
  shows "list_all wordChar scheme" "scheme \<noteq> []"
proof -
  have letter: "wordChar c" if "lower c \<in> set ''bear''" for c
  proof (cases "65 \<le> (of_char c :: nat) \<and> of_char c \<le> (90 :: nat)")
    case True
    then show ?thesis by (simp add: wordChar_def)
  next
    case False
    then have "lower c = c" by (auto simp: lower_def)
    with that show ?thesis by (auto simp: wordChar_def)
  qed
  have "map lower ''Bearer'' = ''bearer''" by (simp add: lower_def char_of_eq_iff)
  with assms have low: "map lower scheme = ''bearer''" by (simp only: EqualFold_def)
  have "lower c \<in> set ''bear''" if "c \<in> set scheme" for c
    using imageI [OF that, of lower] unfolding set_map [symmetric] low by auto
  with letter show "list_all wordChar scheme" unfolding list_all_iff by blast
  show "scheme \<noteq> []" using assms by (auto simp: EqualFold_def)
qed

lemma bearer_token:
  assumes "EqualFold scheme ''Bearer''" "list_all wordChar token" "token \<noteq> []" "hq_auth req = scheme @ CHR '' '' # token"
  shows "bearer req = token"
  using assms EqualFold_Bearer [OF assms(1)] by (simp add: bearer_def Fields_two)

section \<open>The rate limit\<close>

definition isLogin :: "http_request \<Rightarrow> bool" where
  "isLogin req \<longleftrightarrow> (hq_method req, hq_path req) = (''POST'', ''/api/v1/login'')"

definition loginCalls :: "('st http_call \<times> http_request) list \<Rightarrow> (gotime \<times> int) list" where
  "loginCalls reqs = map (\<lambda>(cl, req). (hc_limit cl, 1)) (filter (\<lambda>(cl, req). isLogin req) reqs)"

text \<open>The login requests that got past the limiter.\<close>

definition admitted :: "('st http_call \<times> http_request) list \<Rightarrow> http_response option list \<Rightarrow> nat" where
  "admitted reqs rs = length (filter (\<lambda>((cl, req), r). isLogin req \<and> map_option hs_status r \<noteq> Some 429) (zip reqs rs))"

lemma answer_status: "hs_status (answer body r) \<noteq> 429"
  by (auto simp: answer_def recovered_def writeHTTPError_def respond_def split: sum.split option.split)

lemma loginHandler_limit:
  assumes "loginHandler E cl req limit s w = (r, limit1, s1, w1)"
  shows "Allow (he_rnd E) (hc_limit cl) limit = (hs_status r \<noteq> 429, limit1)"
proof -
  obtain ok limit2 where al: "Allow (he_rnd E) (hc_limit cl) limit = (ok, limit2)" by fastforce
  show ?thesis
  proof (cases ok)
    case True
    with assms al show ?thesis
      by (auto simp: loginHandler_def respond_def answer_status split: sum.splits prod.splits if_splits)
  next
    case False
    with assms al show ?thesis by (auto simp: loginHandler_def respond_def)
  qed
qed

lemma serveHTTP_other: "\<not> isLogin req \<Longrightarrow> serveHTTP E cl req limit s w = (r, limit1, s1, w1) \<Longrightarrow> limit1 = limit \<and> s1 = s \<and> w1 = w"
  by (auto simp: serveHTTP_def isLogin_def split: if_splits)

lemma serveHTTP_login:
  "isLogin req \<Longrightarrow> serveHTTP E cl req limit s w =
     (case loginHandler E cl req limit s w of (r, limit1, s1, w1) \<Rightarrow> (Some r, limit1, s1, w1))"
  by (auto simp: serveHTTP_def isLogin_def)

lemma serveAll_granted:
  "serveAll E reqs limit s w = (rs, limit', s', w') \<Longrightarrow>
     \<exists>oks. AllowRun (he_rnd E) (loginCalls reqs) limit = (oks, limit') \<and> granted (loginCalls reqs) oks = int (admitted reqs rs)"
proof (induction reqs arbitrary: limit s w rs)
  case Nil
  then show ?case by (simp add: loginCalls_def granted_def admitted_def)
next
  case (Cons x reqs)
  obtain cl req where x: "x = (cl, req)" by fastforce
  obtain r limit1 s1 w1 where step: "serveHTTP E cl req limit s w = (r, limit1, s1, w1)"
    by (metis prod_cases4)
  obtain rs1 where rest: "serveAll E reqs limit1 s1 w1 = (rs1, limit', s', w')" "rs = r # rs1"
    using Cons.prems step by (auto simp: x split: prod.splits)
  obtain oks where ih: "AllowRun (he_rnd E) (loginCalls reqs) limit1 = (oks, limit')"
      "granted (loginCalls reqs) oks = int (admitted reqs rs1)"
    using Cons.IH [OF rest(1)] by blast
  show ?case
  proof (cases "isLogin req")
    case True
    obtain r1 where r1: "loginHandler E cl req limit s w = (r1, limit1, s1, w1)" "r = Some r1"
      using step unfolding serveHTTP_login [OF True] by (cases "loginHandler E cl req limit s w") auto
    have al: "AllowN (he_rnd E) (hc_limit cl) 1 limit = (hs_status r1 \<noteq> 429, limit1)"
      using loginHandler_limit [OF r1(1)] by (simp add: Allow_def)
    have calls: "loginCalls (x # reqs) = (hc_limit cl, 1) # loginCalls reqs" using True by (simp add: loginCalls_def x)
    have "AllowRun (he_rnd E) (loginCalls (x # reqs)) limit = ((hs_status r1 \<noteq> 429) # oks, limit')"
      by (simp add: calls al ih(1))
    moreover have "granted (loginCalls (x # reqs)) ((hs_status r1 \<noteq> 429) # oks) = int (admitted (x # reqs) rs)"
      using ih(2) True unfolding calls by (simp add: granted_def admitted_def x rest(2) r1(2))
    ultimately show ?thesis by blast
  next
    case False
    then have "loginCalls (x # reqs) = loginCalls reqs" "limit1 = limit" "admitted (x # reqs) rs = admitted reqs rs1"
      using serveHTTP_other [OF False step] by (simp_all add: loginCalls_def admitted_def x rest(2))
    with ih show ?thesis by simp
  qed
qed

section \<open>Properties\<close>

text \<open>C24: whatever requests arrive in whatever order, the logins whose password is looked at between the creation
  of the handler and an instant \<open>T\<close> are at most 20 plus 10 per second, up to the rounding of float64 to the
  nearest, which can raise the rate by one part in \<open>2 ^ 51\<close> and adds at most \<open>1 / 2 ^ 47\<close> of a login for every
  login request received; all others are answered with the status 429 and change nothing. The clock stays
  within the 292 years that a \<open>time.Duration\<close> can measure.\<close>
theorem http_login_rate:
  assumes "float64_rounding (he_rnd E)"
    and "serveAll E reqs (NewHTTPHandler E start) s w = (rs, limit', s', w')"
    and "\<forall>(cl, req) \<in> set reqs. hc_limit cl \<le> T" "start \<le> T" "T - start < 2 ^ 63"
  shows "real (admitted reqs rs) \<le> 20 + 10 * (1 + 1 / 2 ^ 51) * (of_int (T - start) / 1000000000) +
      real (length (filter (\<lambda>(cl, req). isLogin req) reqs)) / 2 ^ 47 \<and>
    (\<forall>cl req limit s w r limit1 s1 w1. serveHTTP E cl req limit s w = (Some r, limit1, s1, w1) \<longrightarrow>
       hs_status r = 429 \<longrightarrow> isLogin req \<and> s1 = s \<and> w1 = w)"
proof (intro conjI allI impI)
  obtain tb where tb: "NewTokenBucket (he_rnd E) start 10 20 = Inr tb" by (simp add: NewTokenBucket_def)
  then have new: "NewHTTPHandler E start = Some tb" by (simp add: NewHTTPHandler_def)
  obtain oks where oks: "AllowRun (he_rnd E) (loginCalls reqs) (Some tb) = (oks, limit')"
      "granted (loginCalls reqs) oks = int (admitted reqs rs)"
    using serveAll_granted [OF assms(2)] by (auto simp: new)
  have calls: "\<forall>(now, n) \<in> set (loginCalls reqs). now \<le> T \<and> n \<le> 2 ^ 53" using assms(3) by (auto simp: loginCalls_def)
  let ?n = "real (length (filter (\<lambda>(cl, req). isLogin req) reqs))"
  have "length (loginCalls reqs) = length (filter (\<lambda>(cl, req). isLogin req) reqs)" by (simp add: loginCalls_def)
  with granted_rounded [OF assms(1) tb _ _ oks(1) calls assms(4,5)] oks(2)
  have "real (admitted reqs rs) \<le> 20 + 10 * (1 + 4 * half_ulp) * (of_int (T - start) / 1000000000) + ?n * (2 * call_error 20)"
    by simp
  moreover have "?n * (2 * call_error 20) \<le> ?n * (1 / 2 ^ 47)"
    by (intro mult_left_mono) (simp_all add: call_error_def half_ulp_def)
  moreover have "4 * half_ulp = 1 / 2 ^ 51" by (simp add: half_ulp_def)
  ultimately show "real (admitted reqs rs) \<le> 20 + 10 * (1 + 1 / 2 ^ 51) * (of_int (T - start) / 1000000000) + ?n / 2 ^ 47"
    by simp
next
  fix cl req limit s w r limit1 s1 w1
  assume run: "serveHTTP E cl req limit s w = (Some r, limit1, s1, w1)" and status: "hs_status r = 429"
  have none: "hs_status (meHandler cl req s) \<noteq> 429" "hs_status (roomsHandler cl req s) \<noteq> 429" "hs_status (progressHandler E cl req s) \<noteq> 429"
    by (simp_all add: meHandler_def roomsHandler_def progressHandler_def answer_status)
  show login: "isLogin req"
    by (rule ccontr) (use run status none in \<open>auto simp: serveHTTP_def isLogin_def respond_def split: if_splits\<close>)
  obtain r1 where r1: "loginHandler E cl req limit s w = (r1, limit1, s1, w1)" "r = r1"
    using run unfolding serveHTTP_login [OF login] by (cases "loginHandler E cl req limit s w") auto
  have "Allow (he_rnd E) (hc_limit cl) limit = (False, limit1)" using loginHandler_limit [OF r1(1)] status r1(2) by simp
  with r1(1) show "s1 = s" "w1 = w" by (simp_all add: loginHandler_def)
qed

text \<open>reading the player, the rooms or the progress needs the token of a session that is valid: otherwise
  the answer is 401 with the challenge, it says nothing else, and nothing changes.\<close>
theorem http_reads_need_session:
  assumes "sessionLocked (bearer req) (hc_now1 cl) s = Inl err" "\<not> isLogin req" "hq_path req \<noteq> ''/healthz''"
    and "serveHTTP E cl req limit s w = (Some r, limit1, s1, w1)"
  shows "r = respond 401 [(''WWW-Authenticate'', ''Bearer'')] (CodeBody ''unauthorized'') \<and> limit1 = limit \<and> s1 = s \<and> w1 = w"
proof -
  have "err = ErrUnauthorized" using assms(1) by (auto simp: sessionLocked_def split: if_splits sum.splits)
  moreover have "errorsIs ErrUnauthorized ErrUnauthorized" "errPanic ErrUnauthorized = None"
    by (simp_all add: ErrUnauthorized_def errPanic_def)
  ultimately show ?thesis using assms
    by (auto simp: serveHTTP_def isLogin_def meHandler_def roomsHandler_def progressHandler_def Me_def ServiceRooms_def
        ServiceProgress_def answer_def writeHTTPError_def split: if_splits)
qed

section \<open>From the login to the token\<close>

lemma serveHTTP_token:
  assumes "serveHTTP E cl req limit s w = (Some r, limit1, s1, w1)" "hs_body r = LoginBody res"
  shows "loginHandler E cl req limit s w = (r, limit1, s1, w1)"
proof -
  have "isLogin req"
    using assms by (auto simp: serveHTTP_def isLogin_def respond_def meHandler_def roomsHandler_def progressHandler_def
        answer_def recovered_def writeHTTPError_def split: if_splits sum.splits option.splits)
  with assms(1) show ?thesis by (simp add: serveHTTP_login split: prod.splits)
qed

text \<open>
  An answer with a token is given only for an account of the service and a password that its hash matches. The
  token is that of a new session of the account, and the service is open.
\<close>

lemma loginHandler_token:
  assumes "svc_ok {} s" "hc_random cl = Inr (b # bs)"
    and fresh: "sm_byToken (sv_sessions s) (hexEncode (b # bs)) = None"
    and run: "loginHandler E cl req limit s w = (r, limit1, s1, w1)" "hs_body r = LoginBody res"
  obtains body accountID password account v where "hs_status r = 200" "lr_Token res = hexEncode (b # bs)"
    "hq_body req = Inr body" "length body \<le> 4096" "he_unmarshal E body = Inr (accountID, password)"
    "sv_accounts s accountID = Some account" "bc_Compare (he_bcrypt E) (ac_PasswordHash account) password = None"
    "lr_PlayerID res = ac_PlayerID account" "\<not> sv_closed s1" "sm_byToken (sv_sessions s1) (lr_Token res) = Some v"
    "ses_AccountID v = accountID" "ses_PlayerID v = lr_PlayerID res" "ses_ExpiresAt v = lr_ExpiresAt res"
proof -
  have body: "hs_body (answer LoginBody x) = LoginBody res \<Longrightarrow> x = Inr res" for x
    by (auto simp: answer_def recovered_def writeHTTPError_def respond_def split: sum.splits option.splits if_splits)
  obtain bd accountID password where bd: "hq_body req = Inr bd" "length bd \<le> 4096" "he_unmarshal E bd = Inr (accountID, password)"
    and login: "ServiceLogin (he_bcrypt E) (hc_store cl) (hc_ctx cl) accountID password (hc_now1 cl) (hc_random cl) (hc_now2 cl) s w
      = (Inr res, s1, w1)" and r: "r = answer LoginBody (Inr res)"
    using run by (auto simp: loginHandler_def respond_def readBody_def dest!: body split: prod.splits bool.splits sum.splits if_splits)
  from login show thesis
  proof (cases rule: ServiceLogin_result)
    case (granted account v old m st)
    note D = svc_okD [OF assms(1)]
    have "sm_byToken (sv_sessions s) token = None" if "createToken (hc_random cl) = Inr token" for token
      using that assms(2) fresh by (simp add: createToken_def)
    then have ok2: "svc_ok (old_conns old) (s\<lparr>sv_store := st, sv_sessions := m\<rparr>)"
      using svc_ok_Issue [OF svc_ok_frame(1) [OF assms(1), of st]] granted(6) by simp
    note after = dropOld_sessions [OF ok2 granted(8), simplified]
    obtain token where t: "createToken (hc_random cl) = Inr token" "v = fresh_session token accountID (ac_PlayerID account) (sv_ttl s) (hc_now2 cl)"
      "sm_byToken m = (sm_byToken (drop_account accountID (sv_sessions s)))(token \<mapsto> v)"
      using Issue_Inr [OF D(1) granted(6)] .
    have res: "lr_Token res = token" "token = hexEncode (b # bs)" "lr_PlayerID res = ac_PlayerID account"
      "lr_ExpiresAt res = ses_ExpiresAt v" "ses_PlayerID v = ac_PlayerID account" "ses_AccountID v = accountID"
      using granted(7) t(1,2) assms(2) by (auto simp: createToken_def fresh_session_def)
    show thesis
      by (rule that [OF _ _ bd granted(1,2)]) (use res r granted(5) after t(3) in \<open>simp_all add: answer_def respond_def\<close>)
  qed simp
qed

lemma meHandler_token:
  assumes "sessionLocked token (hc_now1 cl) s = Inr v" "token = hexEncode (b # bs)"
    and "hq_auth req = scheme @ '' '' @ token" "EqualFold scheme ''Bearer''"
    and "st_Load (hc_store cl) (hc_ctx cl) (ses_PlayerID v) (sv_store s) = Inr p"
  shows "meHandler cl req s = respond 200 [] (MeBody (case sv_connections s (ses_ConnID v) of
      Some connection \<Rightarrow> \<lparr> pv_Player = p, pv_Online = ses_Bound v, pv_RoomID = (if ses_Bound v then cp_roomID connection else 0) \<rparr>
    | None \<Rightarrow> \<lparr> pv_Player = p, pv_Online = False, pv_RoomID = 0 \<rparr>))"
proof -
  have "token \<noteq> []" by (simp add: assms(2) hexEncode_def)
  then have "bearer req = token"
    using bearer_token [OF assms(4), of token] assms(2,3) hexEncode_wordChar by simp
  with assms(1,5) show ?thesis by (simp add: meHandler_def Me_def answer_def split: option.split)
qed

section \<open>Witnesses\<close>

definition demo_http :: http_env where
  "demo_http = \<lparr> he_rnd = (\<lambda>x. x), he_bcrypt = demo_bc,
     he_unmarshal = (\<lambda>body. if body = [1] then Inr (''ann'', ''secret'') else Inl (Err ''invalid character'')),
     he_json = \<lparr> pj_marshal = (\<lambda>p. Inr []), pj_unmarshal = (\<lambda>d. Inl (Err ''invalid character'')) \<rparr> \<rparr>"

definition demo_hcall :: "MemoryStore http_call" where
  "demo_hcall = \<lparr> hc_ctx = None, hc_limit = 0, hc_now1 = 6, hc_now2 = 6, hc_random = demo_random, hc_store = demo_ops \<rparr>"

definition demo_login_req :: "u8 \<Rightarrow> http_request" where
  "demo_login_req b = \<lparr> hq_method = ''POST'', hq_path = ''/api/v1/login'', hq_auth = [], hq_body = Inr [b] \<rparr>"

definition demo_me_req :: "string \<Rightarrow> http_request" where
  "demo_me_req auth = \<lparr> hq_method = ''GET'', hq_path = ''/api/v1/me'', hq_auth = auth, hq_body = Inr [] \<rparr>"

lemmas demo_http_defs = demo_http_def demo_hcall_def demo_login_req_def demo_me_req_def

lemma demo_bucket:
  "NewHTTPHandler demo_http 0 = Some \<lparr> tb_rate = 10, tb_burst = 20, tb_tokens = 20, tb_lastRefill = 0 \<rparr>"
  "Allow (\<lambda>x. x) 0 (Some \<lparr> tb_rate = 10, tb_burst = 20, tb_tokens = 20, tb_lastRefill = 0 \<rparr>) =
     (True, Some \<lparr> tb_rate = 10, tb_burst = 20, tb_tokens = 19, tb_lastRefill = 0 \<rparr>)"
  by (simp_all add: NewHTTPHandler_def NewTokenBucket_def demo_http_def Allow_def AllowN_def refill_def Seconds_exact)

theorem http_login_rate_witness:
  "real (admitted [(demo_hcall, demo_login_req 0)] [Some (respond 400 [] (CodeBody ''invalid_request''))])
     \<le> 20 + 10 * (1 + 1 / 2 ^ 51) * (of_int (0 - 0) / 1000000000) + 1 / 2 ^ 47
   \<and> admitted [(demo_hcall, demo_login_req 0)] [Some (respond 400 [] (CodeBody ''invalid_request''))] = 1"
proof -
  have rnd: "float64_rounding (he_rnd demo_http)" using float64_exact by (simp add: demo_http_def)
  have "serveAll demo_http [(demo_hcall, demo_login_req 0)] (NewHTTPHandler demo_http 0) demo_svc1 (Map.empty :: unit conn_store)
      = ([Some (respond 400 [] (CodeBody ''invalid_request''))],
         Some \<lparr> tb_rate = 10, tb_burst = 20, tb_tokens = 19, tb_lastRefill = 0 \<rparr>, demo_svc1, Map.empty)"
    unfolding demo_bucket(1) by (simp add: serveHTTP_def loginHandler_def demo_http_defs demo_bucket(2) readBody_def)
  from http_login_rate [OF rnd this, of 0] show ?thesis
    by (simp add: demo_http_defs admitted_def isLogin_def respond_def)
qed

theorem http_reads_need_session_witness:
  "serveHTTP demo_http demo_hcall (demo_me_req ''Bearer 00'') None demo_svc1 (Map.empty :: unit conn_store) =
     (Some (respond 401 [(''WWW-Authenticate'', ''Bearer'')] (CodeBody ''unauthorized'')), None, demo_svc1, Map.empty)"
proof -
  obtain r limit s w where run: "serveHTTP demo_http demo_hcall (demo_me_req ''Bearer 00'') None demo_svc1 (Map.empty :: unit conn_store) = (Some r, limit, s, w)"
    by (simp add: serveHTTP_def demo_me_req_def)
  have "sessionLocked (bearer (demo_me_req ''Bearer 00'')) (hc_now1 demo_hcall) demo_svc1 = Inl ErrUnauthorized"
    by (simp add: sessionLocked_def demo_svc1_def demo_svc_def demo_sessions_def GetByToken_def)
  from http_reads_need_session [OF this _ _ run] run show ?thesis by (simp add: demo_me_req_def isLogin_def)
qed

end
