(* ===== verification/GameServe.thy ===== *)
theory GameServe
  imports GameTcp GameHttp
begin

text \<open>
  The example application as a whole: \<open>Serve\<close> of \<open>examples/gameapp/runtime.go\<close> beside the TCP routers and
  hooks, the HTTP handlers and the connections. The function \<open>Serve\<close> is a program counter; its loop selects
  among the end of the context, the end of the HTTP server and the ticker, and every way out runs the
  deferred calls in reverse order. One step of the application is one call. It refines the system of the
  service alone, so that what holds of the service in every state holds while the application runs. The later
  sections say what a tick leaves, and what can end the life of a token.
\<close>

section \<open>Serve\<close>

text \<open>\<open>Defer\<dots>\<close> names the next deferred call; its argument is the value to be returned.\<close>

datatype main_pc = ServeEntry | ServeLoop | DeferService "go_error option" | DeferTcp "go_error option"
  | DeferListener "go_error option" | ServeReturned "go_error option"

record ('st, 'p) game_app =
  ga_service :: "'st Service"
  ga_conns :: "'p conn_store"
  ga_limit :: "TokenBucket option"
  ga_main :: main_pc
  ga_tcpStarted :: bool
  ga_tcpStopped :: bool
  ga_listenerClosed :: bool

definition ErrServerClosed :: go_error where "ErrServerClosed = Err ''http: Server closed''"

text \<open>Up to the loop: the state of the context, and the outcome of \<open>StartWithError\<close>.\<close>

definition serveStart ::
  "http_env \<Rightarrow> gotime \<Rightarrow> go_error option \<Rightarrow> go_error option \<Rightarrow> ('st, 'p) game_app \<Rightarrow> ('st, 'p) game_app" where
  "serveStart E now ctxErr startErr a =
     (case ctxErr of
        Some err \<Rightarrow> a\<lparr>ga_main := DeferService (Some err)\<rparr>
      | None \<Rightarrow>
          (case startErr of
             Some err \<Rightarrow> a\<lparr>ga_main := DeferService (Some (Wrap ''start TCP: '' err))\<rparr>
           | None \<Rightarrow> a\<lparr>ga_tcpStarted := True, ga_limit := NewHTTPHandler E now, ga_main := ServeLoop\<rparr>))"

text \<open>
  One turn of the loop. After the end of the context the result is that of \<open>Shutdown\<close>; the HTTP server itself
  ends with an error, of which \<open>ErrServerClosed\<close> is the orderly one. The ticker sweeps, in the orders
  in which the maps are visited.
\<close>

datatype serve_event = CtxDone "go_error option" | HttpDone go_error | Ticked gotime "string list" "u32 list"

definition serveSelect :: "serve_event \<Rightarrow> ('st, 'p) game_app \<Rightarrow> ('st, 'p) game_app" where
  "serveSelect ev a =
     (case ev of
        CtxDone err \<Rightarrow> a\<lparr>ga_main := DeferService err\<rparr>
      | HttpDone err \<Rightarrow> a\<lparr>ga_main := DeferService (if errorsIs err ErrServerClosed then None else Some err)\<rparr>
      | Ticked now order ks \<Rightarrow>
          (case Sweep order ks now (ga_service a) (ga_conns a) of (s, w) \<Rightarrow> a\<lparr>ga_service := s, ga_conns := w\<rparr>))"

text \<open>The deferred calls; \<open>ks\<close> is the order in which \<open>Close\<close> visits the connections.\<close>

definition serveDefer :: "u32 list \<Rightarrow> ('st, 'p) game_app \<Rightarrow> ('st, 'p) game_app" where
  "serveDefer ks a =
     (case ga_main a of
        DeferService err \<Rightarrow>
          (case ServiceClose ks (ga_service a) (ga_conns a) of
             (s, w) \<Rightarrow> a\<lparr>ga_service := s, ga_conns := w, ga_main := DeferTcp err\<rparr>)
      | DeferTcp err \<Rightarrow> a\<lparr>ga_tcpStopped := True, ga_main := DeferListener err\<rparr>
      | DeferListener err \<Rightarrow> a\<lparr>ga_listenerClosed := True, ga_main := ServeReturned err\<rparr>
      | _ \<Rightarrow> a)"

section \<open>The application\<close>

definition game_init :: "('st, 'p) game_app \<Rightarrow> bool" where
  "game_init a \<longleftrightarrow> ga_main a = ServeEntry \<and> \<not> ga_tcpStarted a \<and> \<not> ga_tcpStopped a \<and> \<not> ga_listenerClosed a \<and>
     (\<exists>bc accounts store ttl rooms. NewService bc accounts store ttl rooms = Inr (ga_service a))"

text \<open>
  The steps. A random token is new, the hook announces a connection once, and maps are visited in some order of
  their keys. Requests may be handled at any time, also while \<open>Serve\<close> returns.
\<close>

inductive game_step :: "http_env \<Rightarrow> tcp_codec \<Rightarrow> ('st, 'p) game_app \<Rightarrow> ('st, 'p) game_app \<Rightarrow> bool"
  for H :: http_env and E :: tcp_codec where
  start: "ga_main a = ServeEntry \<Longrightarrow> game_step H E a (serveStart H now ctxErr startErr a)"
| select: "\<lbrakk>ga_main a = ServeLoop;
      \<forall>now order ks. ev = Ticked now order ks \<longrightarrow>
        map_order (sm_byToken (sv_sessions (ga_service a))) order \<and> map_order (sv_connections (ga_service a)) ks\<rbrakk>
    \<Longrightarrow> game_step H E a (serveSelect ev a)"
| deferred: "map_order (sv_connections (ga_service a)) ks \<Longrightarrow> game_step H E a (serveDefer ks a)"
| tcp: "tcpHandle E cl request (ga_service a) (ga_conns a) = (p, s, w) \<Longrightarrow> game_step H E a (a\<lparr>ga_service := s, ga_conns := w\<rparr>)"
| connected: "\<lbrakk>sv_connections (ga_service a) (ic_connID conn) = None; now + 30000000000 \<noteq> 0;
      Connected now conn (ga_service a) (ga_conns a) = (s, w)\<rbrakk> \<Longrightarrow> game_step H E a (a\<lparr>ga_service := s, ga_conns := w\<rparr>)"
| disconnected: "Disconnected conn (ga_service a) (ga_conns a) = (s, w) \<Longrightarrow> game_step H E a (a\<lparr>ga_service := s, ga_conns := w\<rparr>)"
| http: "\<lbrakk>\<forall>token. createToken (hc_random cl) = Inr token \<longrightarrow> sm_byToken (sv_sessions (ga_service a)) token = None;
      serveHTTP H cl req (ga_limit a) (ga_service a) (ga_conns a) = (r, limit, s, w)\<rbrakk>
    \<Longrightarrow> game_step H E a (a\<lparr>ga_limit := limit, ga_service := s, ga_conns := w\<rparr>)"
| network: "game_step H E a (a\<lparr>ga_conns := w\<rparr>)"

section \<open>Each step is made of steps of the service\<close>

abbreviation svc_of :: "('st, 'p) game_app \<Rightarrow> 'st Service \<times> 'p conn_store" where
  "svc_of a \<equiv> (ga_service a, ga_conns a)"

lemma svc_idle: "svc_step\<^sup>*\<^sup>* (s, w) (s, w')"
  using svc_step.network by (rule r_into_rtranclp)

lemma svc_then: "svc_step (s, w) (s', w1) \<Longrightarrow> svc_step\<^sup>*\<^sup>* (s, w) (s', w')"
  by (rule converse_rtranclp_into_rtranclp [OF _ svc_idle])

lemma tcpSwitch_steps:
  assumes "tcpSwitch E cl request s = (r, s')"
  shows "svc_step\<^sup>*\<^sup>* (s, w) (s', w')"
proof -
  have progress: "svc_step\<^sup>*\<^sup>* (s, w) (s1, w')"
    if "changeProgress J U ctx k now1 now2 change s = (x, s1)" for J U ctx k now1 now2 change x s1
    using changeProgress_frame [OF that] svc_then [OF svc_step.progress] by auto
  consider (auth) "RequestMsgID request = TcpAuthenticate" | (join) "RequestMsgID request = TcpJoinRoom"
    | (use_item) "RequestMsgID request = TcpUseItem" | (leave) "RequestMsgID request = TcpLeaveRoom"
    | (starter) "RequestMsgID request = TcpStarterReward"
    | (other) "RequestMsgID request \<notin> {TcpAuthenticate, TcpJoinRoom, TcpUseItem, TcpLeaveRoom, TcpStarterReward}"
    by blast
  then show ?thesis
  proof cases
    case auth
    with assms show ?thesis
      using svc_idle svc_then [OF svc_step.authenticate]
      by (auto simp: tcpSwitch_def Let_def split: option.splits if_splits prod.splits)
  next
    case join
    with assms show ?thesis
      using svc_idle svc_then [OF svc_step.join]
      by (auto simp: tcpSwitch_def tcp_msg_defs Let_def split: option.splits if_splits prod.splits)
  next
    case use_item
    with assms show ?thesis
      using svc_idle progress
      by (auto simp: tcpSwitch_def UseItem_def tcp_msg_defs Let_def split: option.splits if_splits prod.splits)
  next
    case leave
    with assms show ?thesis
      using svc_idle svc_then [OF svc_step.leave]
      by (auto simp: tcpSwitch_def tcp_msg_defs Let_def split: option.splits if_splits prod.splits)
  next
    case starter
    with assms show ?thesis
      using svc_idle progress
      by (auto simp: tcpSwitch_def ClaimStarter_def tcp_msg_defs Let_def split: option.splits if_splits prod.splits)
  next
    case other
    with assms have "s' = s" by (auto simp: tcpSwitch_def Let_def split: option.splits if_splits)
    then show ?thesis using svc_idle by simp
  qed
qed

lemma tcpHandle_steps:
  assumes "tcpHandle E cl request s w = (p, s', w')"
  shows "svc_step\<^sup>*\<^sup>* (s, w) (s', w')"
proof -
  obtain r s1 where sw: "tcpSwitch E cl request s = (r, s1)" by fastforce
  then have "s' = s1" using assms by (auto simp: tcpHandle_def split: option.splits sum.splits)
  with tcpSwitch_steps [OF sw] show ?thesis by simp
qed

lemma serveHTTP_changes:
  assumes "serveHTTP H cl req limit s w = (r, limit', s', w')" "s' \<noteq> s"
  shows "\<exists>a pw x. ServiceLogin (he_bcrypt H) (hc_store cl) (hc_ctx cl) a pw (hc_now1 cl) (hc_random cl) (hc_now2 cl) s w = (x, s', w')"
proof -
  have login: "isLogin req" using serveHTTP_other [OF _ assms(1)] assms(2) by auto
  obtain r1 where "loginHandler H cl req limit s w = (r1, limit', s', w')"
    using assms(1) unfolding serveHTTP_login [OF login] by (cases "loginHandler H cl req limit s w") auto
  then show ?thesis
    using assms(2) by (auto simp: loginHandler_def split: prod.splits bool.splits sum.splits if_splits)
qed

lemma serveHTTP_steps:
  assumes "\<forall>token. createToken (hc_random cl) = Inr token \<longrightarrow> sm_byToken (sv_sessions s) token = None"
    and "serveHTTP H cl req limit s w = (r, limit', s', w')"
  shows "svc_step\<^sup>*\<^sup>* (s, w) (s', w')"
proof (cases "s' = s")
  case False
  then have "svc_step (s, w) (s', w')" using serveHTTP_changes [OF assms(2)] svc_step.login assms(1) by metis
  then show ?thesis by (rule r_into_rtranclp)
qed (simp add: svc_idle)

lemma game_step_refines: "game_step H E a a' \<Longrightarrow> svc_step\<^sup>*\<^sup>* (svc_of a) (svc_of a')"
proof (induction rule: game_step.induct)
  case (start a now ctxErr startErr)
  show ?case using svc_idle by (simp add: serveStart_def split: option.split)
next
  case (select a ev)
  show ?case
  proof (cases ev)
    case (Ticked now order ks)
    obtain s w where sw: "Sweep order ks now (ga_service a) (ga_conns a) = (s, w)" by fastforce
    have "svc_step (svc_of a) (s, w)" using select(2) Ticked sw by (intro svc_step.sweep) auto
    with Ticked sw show ?thesis by (simp add: serveSelect_def)
  qed (simp_all add: serveSelect_def)
next
  case (deferred a ks)
  obtain s w where sw: "ServiceClose ks (ga_service a) (ga_conns a) = (s, w)" by fastforce
  have "svc_step (svc_of a) (s, w)" using sw by (rule svc_step.close)
  with sw show ?case by (auto simp: serveDefer_def split: main_pc.split)
next
  case (tcp cl request a p s w)
  then show ?case using tcpHandle_steps by simp
next
  case (connected a conn now s w)
  then have "svc_step (svc_of a) (s, w)" by (rule svc_step.connected)
  then show ?case by (simp add: r_into_rtranclp)
next
  case (disconnected conn a s w)
  then have "svc_step (svc_of a) (s, w)" by (rule svc_step.disconnected)
  then show ?case by (simp add: r_into_rtranclp)
next
  case (http cl a req r limit s w)
  then show ?case using serveHTTP_steps by simp
next
  case (network a w)
  show ?case using svc_idle by simp
qed

interpretation game_svc: step_refinement game_init "game_step H E" svc_init svc_step svc_of for H E
proof
  show "game_init a \<Longrightarrow> svc_init (svc_of a)" for a :: "('a, 'b) game_app"
    by (simp add: game_init_def svc_init_def)
  show "game_step H E a a' \<Longrightarrow> svc_step\<^sup>*\<^sup>* (svc_of a) (svc_of a')" for a a' :: "('a, 'b) game_app"
    by (rule game_step_refines)
qed

section \<open>The way out of Serve\<close>

text \<open>What has been done when \<open>Serve\<close> has got to a point.\<close>

definition cleaned :: "('st, 'p) game_app \<Rightarrow> bool" where
  "cleaned a \<longleftrightarrow>
     (case ga_main a of
        ServeLoop \<Rightarrow> ga_tcpStarted a \<and> \<not> ga_tcpStopped a \<and> \<not> ga_listenerClosed a
      | DeferTcp err \<Rightarrow> closed_svc (ga_service a) \<and> \<not> ga_tcpStopped a \<and> \<not> ga_listenerClosed a
      | DeferListener err \<Rightarrow> closed_svc (ga_service a) \<and> ga_tcpStopped a \<and> \<not> ga_listenerClosed a
      | ServeReturned err \<Rightarrow> closed_svc (ga_service a) \<and> ga_tcpStopped a \<and> ga_listenerClosed a
      | _ \<Rightarrow> \<not> ga_tcpStopped a \<and> \<not> ga_listenerClosed a)"

definition game_inv :: "('st, 'p) game_app \<Rightarrow> bool" where
  "game_inv a \<longleftrightarrow> svc_ok {} (ga_service a) \<and> cleaned a"

lemma closed_svc_steps: "svc_step\<^sup>*\<^sup>* sw sw' \<Longrightarrow> closed_svc (fst sw) \<Longrightarrow> closed_svc (fst sw')"
  by (induction rule: rtranclp_induct) (auto dest: closed_svc_step)

lemma cleaned_service:
  assumes "cleaned a" "svc_step\<^sup>*\<^sup>* (ga_service a, ga_conns a) (s, w)"
  shows "cleaned (a\<lparr>ga_service := s, ga_conns := w\<rparr>)" "cleaned (a\<lparr>ga_limit := limit, ga_service := s, ga_conns := w\<rparr>)"
  using assms(1) closed_svc_steps [OF assms(2)] by (auto simp: cleaned_def split: main_pc.splits)

lemma ServiceClose_closed:
  assumes "svc_ok {} s" "map_order (sv_connections s) ks" "ServiceClose ks s w = (s', w')"
  shows "closed_svc s'"
  using svc_ok_dropAll [OF svc_ok_frame(2) [OF assms(1), of True], of ks w s' w'] assms(2,3)
  by (auto simp: ServiceClose_def closed_svc_def map_order_def fun_eq_iff domIff)

lemma cleaned_step:
  assumes "game_step H E a a'" "game_inv a"
  shows "cleaned a'"
  using assms(1)
proof (cases rule: game_step.cases)
  case (start now ctxErr startErr)
  then show ?thesis using assms(2) by (simp add: game_inv_def cleaned_def serveStart_def split: option.split)
next
  case (select ev)
  with assms(2) show ?thesis
    by (auto simp: cleaned_def game_inv_def serveSelect_def split: serve_event.split prod.split)
next
  case (deferred ks)
  obtain s w where sw: "ServiceClose ks (ga_service a) (ga_conns a) = (s, w)" by fastforce
  have "closed_svc s" using ServiceClose_closed [OF _ deferred(2) sw] assms(2) by (simp add: game_inv_def)
  with sw deferred(1) assms(2) show ?thesis
    by (auto simp: cleaned_def game_inv_def serveDefer_def split: main_pc.splits)
next
  case (network w)
  with assms(2) show ?thesis by (simp add: game_inv_def cleaned_def split: main_pc.splits)
qed (use assms(2) cleaned_service game_step_refines [OF assms(1)] in \<open>auto simp: game_inv_def\<close>)

interpretation game: invariant_system game_init "game_step H E" game_inv for H E
proof
  show "game_inv a" if "game_init a" for a :: "('a, 'b) game_app"
    using svc.init_inv [of "svc_of a"] game_svc.init_refines [OF that] that by (auto simp: game_inv_def game_init_def cleaned_def)
  show "game_inv a'" if "game_inv a" "game_step H E a a'" for a a' :: "('a, 'b) game_app"
    using svc.rtranclp_inv [OF game_step_refines [OF that(2)]] cleaned_step [OF that(2,1)] that(1) by (simp add: game_inv_def)
qed

section \<open>The ticker\<close>

text \<open>
  Taking away the connections \<open>K\<close>, none of which has a session: they leave the table and are stopped, and
  nothing else happens to the sessions, to the other connections and to the service.
\<close>

definition dropped ::
  "u32 set \<Rightarrow> 'st Service \<Rightarrow> 'p conn_store \<Rightarrow> 'st Service \<Rightarrow> 'p conn_store \<Rightarrow> bool" where
  "dropped K s w s' w' \<longleftrightarrow>
     sv_connections s' = (\<lambda>k. if k \<in> K then None else sv_connections s k) \<and>
     sv_sessions s' = sv_sessions s \<and> sv_closed s' = sv_closed s \<and>
     w' = (\<lambda>r. if \<exists>k \<in> K. \<exists>cp. sv_connections s k = Some cp \<and> ic_ref (cp_connection cp) = r
                then map_option Stop (w r) else w r)"

lemma dropped_none: "dropped {} s w s w"
  by (simp add: dropped_def fun_eq_iff)

lemma Stop_again [simp]: "Stop (Stop c) = Stop c"
  by (simp add: Stop_def)

lemma dropped_trans:
  assumes "dropped K s w s1 w1" "dropped L s1 w1 s' w'"
  shows "dropped (K \<union> L) s w s' w'"
proof -
  have conns: "sv_connections s1 = (\<lambda>k. if k \<in> K then None else sv_connections s k)" using assms(1) by (simp add: dropped_def)
  have "w' r = (if \<exists>k \<in> K \<union> L. \<exists>cp. sv_connections s k = Some cp \<and> ic_ref (cp_connection cp) = r
      then map_option Stop (w r) else w r)" for r
  proof -
    let ?hit = "\<lambda>K. \<exists>k \<in> K. \<exists>cp. sv_connections s k = Some cp \<and> ic_ref (cp_connection cp) = r"
    have "(\<exists>k \<in> L. \<exists>cp. sv_connections s1 k = Some cp \<and> ic_ref (cp_connection cp) = r) \<longleftrightarrow> ?hit (L - K)"
      unfolding conns by auto
    then have "w' r = (if ?hit (L - K) then map_option Stop (w1 r) else w1 r)"
      using assms(2) by (simp add: dropped_def)
    moreover have "w1 r = (if ?hit K then map_option Stop (w r) else w r)" using assms(1) by (simp add: dropped_def)
    moreover have "?hit (K \<union> L) \<longleftrightarrow> ?hit K \<or> ?hit (L - K)" by blast
    ultimately show ?thesis by (cases "w r") auto
  qed
  then have "w' = (\<lambda>r. if \<exists>k \<in> K \<union> L. \<exists>cp. sv_connections s k = Some cp \<and> ic_ref (cp_connection cp) = r
      then map_option Stop (w r) else w r)" by (rule ext)
  with assms show ?thesis by (auto simp: dropped_def fun_eq_iff)
qed

lemma disconnect_dropped:
  assumes "sm_byConnID (sv_sessions s) k = None" "disconnectLocked k True s w = (s', w')"
  shows "dropped {k} s w s' w'"
proof (cases "sv_connections s k")
  case None
  with assms(2) have "s' = s" "w' = w" by (simp_all add: disconnectLocked_eq)
  then show ?thesis using None by (auto simp: dropped_def fun_eq_iff)
next
  case (Some cp)
  have "snd (LogoutByConnID (sv_sessions s) k) = sv_sessions s" using assms(1) by (simp add: LogoutByConnID_def)
  with assms(2) Some have "sv_sessions s' = sv_sessions s" "sv_closed s' = sv_closed s"
    "sv_connections s' = (sv_connections s)(k := None)" "w' = storeStop (cp_connection cp) w"
    by (auto simp: disconnectLocked_eq)
  with Some show ?thesis by (auto simp: dropped_def fun_eq_iff storeStop_at)
qed

lemma dropSessions_dropped:
  assumes "dropSessions vs s w = (s', w')" "\<And>k. k \<in> bound_conns vs \<Longrightarrow> sm_byConnID (sv_sessions s) k = None"
  shows "dropped (bound_conns vs) s w s' w'"
  using assms
proof (induction vs arbitrary: s w)
  case Nil
  then show ?case using dropped_none by (simp add: bound_conns_def)
next
  case (Cons v vs)
  show ?case
  proof (cases "ses_Bound v")
    case True
    then have conns: "bound_conns (v # vs) = {ses_ConnID v} \<union> bound_conns vs" by (auto simp: bound_conns_def)
    obtain s1 w1 where d: "disconnectLocked (ses_ConnID v) True s w = (s1, w1)" by fastforce
    have one: "dropped {ses_ConnID v} s w s1 w1"
      using disconnect_dropped [OF Cons.prems(2) d] conns by blast
    have "dropSessions vs s1 w1 = (s', w')" using Cons.prems(1) True d by simp
    moreover have "sm_byConnID (sv_sessions s1) k = None" if "k \<in> bound_conns vs" for k
      using Cons.prems(2) [of k] that one conns by (simp add: dropped_def)
    ultimately have "dropped (bound_conns vs) s1 w1 s' w'" by (rule Cons.IH)
    then show ?thesis unfolding conns by (rule dropped_trans [OF one])
  next
    case False
    then have "bound_conns (v # vs) = bound_conns vs" by (auto simp: bound_conns_def)
    with Cons False show ?thesis by simp
  qed
qed

definition late_conns :: "gotime \<Rightarrow> 'st Service \<Rightarrow> u32 set" where
  "late_conns now s =
     {k. \<exists>cp. sv_connections s k = Some cp \<and> cp_authDeadline cp \<noteq> 0 \<and> cp_authDeadline cp \<le> now}"

lemma dropLate_dropped:
  assumes "dropLate now ks s w = (s', w')" "svc_ok {} s"
  shows "dropped (late_conns now s \<inter> set ks) s w s' w'"
  using assms
proof (induction ks arbitrary: s w)
  case Nil
  then show ?case using dropped_none by simp
next
  case (Cons k ks)
  show ?case
  proof (cases "k \<in> late_conns now s")
    case True
    then obtain cp where cp: "sv_connections s k = Some cp" "cp_authDeadline cp \<noteq> 0" "cp_authDeadline cp \<le> now"
      by (auto simp: late_conns_def)
    obtain s1 w1 where d: "disconnectLocked k True s w = (s1, w1)" by fastforce
    have "sm_byConnID (sv_sessions s) k = None"
      using authedD(1) [OF svc_okD(5) [OF Cons.prems(2)] cp(1)] cp(2) by blast
    from disconnect_dropped [OF this d] have one: "dropped {k} s w s1 w1" .
    have "dropLate now ks s1 w1 = (s', w')" using Cons.prems(1) cp d by simp
    moreover have "svc_ok {} s1" using svc_ok_disconnect(1) [OF Cons.prems(2) d] by simp
    ultimately have "dropped (late_conns now s1 \<inter> set ks) s1 w1 s' w'" by (rule Cons.IH)
    from dropped_trans [OF one this] show ?thesis
    proof -
      have "{k} \<union> late_conns now s1 \<inter> set ks = late_conns now s \<inter> set (k # ks)"
        using one True by (auto simp: late_conns_def dropped_def)
      with dropped_trans [OF one \<open>dropped (late_conns now s1 \<inter> set ks) s1 w1 s' w'\<close>] show ?thesis by simp
    qed
  next
    case False
    then have "dropLate now ks s w = (s', w')"
      using Cons.prems(1) by (auto simp: late_conns_def split: option.splits if_splits)
    from Cons.IH [OF this Cons.prems(2)] False show ?thesis by (simp add: Int_insert_right)
  qed
qed

text \<open>The connections a tick takes away: those whose session has expired, and those that are late.\<close>

definition overdue :: "gotime \<Rightarrow> 'st Service \<Rightarrow> u32 set" where
  "overdue now s = late_conns now s \<union>
     {k. \<exists>t v. sm_byToken (sv_sessions s) t = Some v \<and> ses_Bound v \<and> ses_ConnID v = k \<and> expired v now}"

lemma Sweep_exact:
  assumes ok: "svc_ok {} s" and order: "map_order (sm_byToken (sv_sessions s)) order"
    and ks: "map_order (sv_connections s) ks" and run: "Sweep order ks now s w = (s', w')"
  shows "sm_byToken (sv_sessions s') = (\<lambda>t. case sm_byToken (sv_sessions s) t of
       Some v \<Rightarrow> if expired v now then None else Some v | None \<Rightarrow> None)"
    "sv_connections s' = (\<lambda>k. if k \<in> overdue now s then None else sv_connections s k)"
    "sv_closed s' = sv_closed s"
    "w' = (\<lambda>r. if \<exists>k \<in> overdue now s. \<exists>cp. sv_connections s k = Some cp \<and> ic_ref (cp_connection cp) = r
                then map_option Stop (w r) else w r)"
proof -
  note inv = svc_okD(1) [OF ok]
  obtain gone m where re: "RemoveExpired order now (sv_sessions s) = (gone, m)" by fastforce
  obtain s1 w1 where ds: "dropSessions gone (s\<lparr>sv_sessions := m\<rparr>) w = (s1, w1)" by fastforce
  have dl: "dropLate now ks s1 w1 = (s', w')" using run re ds by (simp add: Sweep_def)
  have gone: "gone = map (\<lambda>t. the (sm_byToken (sv_sessions s) t))
        (filter (\<lambda>t. expired (the (sm_byToken (sv_sessions s) t)) now) order)"
    and m: "sm_byToken m = (\<lambda>t. case sm_byToken (sv_sessions s) t of
       Some v \<Rightarrow> if expired v now then None else Some v | None \<Rightarrow> None)"
    using RemoveExpired_spec [OF inv order, of now] re by auto
  note byConn = RemoveExpired_byConnID [OF inv order re]
  have mem: "t \<in> set order \<longleftrightarrow> sm_byToken (sv_sessions s) t \<noteq> None" for t
    using order by (auto simp: map_order_def)
  have bound: "bound_conns gone =
      {k. \<exists>t v. sm_byToken (sv_sessions s) t = Some v \<and> ses_Bound v \<and> ses_ConnID v = k \<and> expired v now}"
    unfolding bound_conns_def gone by (auto simp: mem) (metis option.sel)+
  have "sm_byConnID m k = None" if "k \<in> bound_conns gone" for k
    using byConn(2) [of k] that by blast
  then have one: "dropped (bound_conns gone) (s\<lparr>sv_sessions := m\<rparr>) w s1 w1"
    using dropSessions_dropped [OF ds] by simp
  have ok1: "svc_ok (bound_conns gone) (s\<lparr>sv_sessions := m\<rparr>)"
    by (rule svc_ok_sessions [OF ok byConn(1)]) (use byConn(2) in auto)
  have "svc_ok {} s1" using svc_ok_dropSessions [OF ok1 ds] by simp
  from dropLate_dropped [OF dl this] have two: "dropped (late_conns now s1 \<inter> set ks) s1 w1 s' w'" .
  have conns: "sv_connections s1 = (\<lambda>k. if k \<in> bound_conns gone then None else sv_connections s k)"
    using one by (simp add: dropped_def cong: if_cong)
  have "late_conns now s \<subseteq> set ks" using ks by (auto simp: late_conns_def map_order_def)
  then have "bound_conns gone \<union> late_conns now s1 \<inter> set ks = overdue now s"
    unfolding overdue_def bound [symmetric] by (auto simp: late_conns_def conns split: if_splits)
  with dropped_trans [OF one two] have all: "dropped (overdue now s) (s\<lparr>sv_sessions := m\<rparr>) w s' w'" by simp
  then show "sm_byToken (sv_sessions s') = (\<lambda>t. case sm_byToken (sv_sessions s) t of
       Some v \<Rightarrow> if expired v now then None else Some v | None \<Rightarrow> None)"
    "sv_connections s' = (\<lambda>k. if k \<in> overdue now s then None else sv_connections s k)"
    "sv_closed s' = sv_closed s"
    "w' = (\<lambda>r. if \<exists>k \<in> overdue now s. \<exists>cp. sv_connections s k = Some cp \<and> ic_ref (cp_connection cp) = r
                then map_option Stop (w r) else w r)"
    by (simp_all add: dropped_def m cong: if_cong)
qed

section \<open>The life of a token\<close>

text \<open>The service is open and knows the token as one of this account and player with this expiry.\<close>

definition token_for :: "string \<Rightarrow> string \<Rightarrow> u64 \<Rightarrow> gotime \<Rightarrow> 'st Service \<Rightarrow> bool" where
  "token_for t account player expiry s \<longleftrightarrow> \<not> sv_closed s \<and>
     (\<exists>v. sm_byToken (sv_sessions s) t = Some v \<and> ses_AccountID v = account \<and> ses_PlayerID v = player \<and>
          ses_ExpiresAt v = expiry)"


lemma token_for_same:
  "token_for t account player expiry s \<Longrightarrow> sv_closed s' = sv_closed s \<Longrightarrow> sv_sessions s' = sv_sessions s \<Longrightarrow>
     token_for t account player expiry s'"
  by (simp add: token_for_def)















section \<open>Properties\<close>

text \<open>C20: the ticker of \<open>Serve\<close>. After a tick at the clock \<open>now\<close>, while the loop runs, exactly the sessions that
  had not expired by then are left, unchanged; exactly the connections whose session had expired and those
  that had not authenticated by their deadline are gone from the table; each of these is stopped and in no
  room, while every other connection is untouched and the rooms keep all their other members.\<close>
theorem tick_sweeps:
  fixes a :: "('st, 'p) game_app"
  assumes "reach game_init (game_step H E) a" "ga_main a = ServeLoop"
    and "map_order (sm_byToken (sv_sessions (ga_service a))) order" "map_order (sv_connections (ga_service a)) ks"
    and "a' = serveSelect (Ticked now order ks) a"
    and "K = {k. \<exists>cp. sv_connections (ga_service a) k = Some cp \<and>
        (cp_authDeadline cp \<noteq> 0 \<and> cp_authDeadline cp \<le> now \<or>
         (\<exists>t v. sm_byToken (sv_sessions (ga_service a)) t = Some v \<and> ses_Bound v \<and> ses_ConnID v = k \<and> expired v now))}"
  shows "game_step H E a a' \<and> ga_main a' = ServeLoop \<and>
    (\<forall>t v. sm_byToken (sv_sessions (ga_service a')) t = Some v \<longleftrightarrow>
       sm_byToken (sv_sessions (ga_service a)) t = Some v \<and> \<not> expired v now) \<and>
    (\<forall>k cp. sv_connections (ga_service a') k = Some cp \<longleftrightarrow> sv_connections (ga_service a) k = Some cp \<and> k \<notin> K) \<and>
    (\<forall>k cp c. k \<in> K \<longrightarrow> sv_connections (ga_service a) k = Some cp \<longrightarrow>
       conn_at (ga_conns a') (cp_connection cp) = Some c \<longrightarrow> cn_isClosed c) \<and>
    (\<forall>r. (\<forall>k \<in> K. \<forall>cp. sv_connections (ga_service a) k = Some cp \<longrightarrow> ic_ref (cp_connection cp) \<noteq> r) \<longrightarrow>
       ga_conns a' r = ga_conns a r) \<and>
    (\<forall>i M k. membersOf (ga_service a') i = Some M \<longrightarrow> M k = (if k \<in> K then None else visitors (ga_service a) i k))"
proof -
  let ?s = "ga_service a" and ?s' = "ga_service a'"
  have step: "game_step H E a a'" unfolding assms(5) using assms(2-4) by (intro game_step.select) auto
  have ok: "svc_ok {} ?s" "svc_ok {} ?s'"
    using game.reach_inv [OF assms(1)] game.reach_inv [OF reach_step [OF assms(1) step]] by (simp_all add: game_inv_def)
  obtain s w where run: "Sweep order ks now ?s (ga_conns a) = (s, w)" by fastforce
  then have a': "a' = a\<lparr>ga_service := s, ga_conns := w\<rparr>" by (simp add: assms(5) serveSelect_def)
  note D = Sweep_exact [OF ok(1) assms(3,4) run]
  have over: "k \<in> overdue now ?s \<longleftrightarrow> k \<in> K" for k
  proof -
    have "sv_connections ?s k \<noteq> None" if "sm_byToken (sv_sessions ?s) t = Some v" "ses_Bound v" "ses_ConnID v = k" for t v
      using session_invD(5) [OF svc_okD(1) [OF ok(1)] that(1,2)] authedD(3) [OF svc_okD(5) [OF ok(1)], of k] that(3) by simp
    then show ?thesis unfolding assms(6) overdue_def late_conns_def by blast
  qed
  have "sm_byToken (sv_sessions ?s') t = Some v \<longleftrightarrow> sm_byToken (sv_sessions ?s) t = Some v \<and> \<not> expired v now" for t v
    by (auto simp: a' D(1) split: option.splits)
  moreover have conns: "sv_connections ?s' k = Some cp \<longleftrightarrow> sv_connections ?s k = Some cp \<and> k \<notin> K" for k cp
    by (auto simp: a' D(2) over)
  moreover have "cn_isClosed c" if "k \<in> K" "sv_connections ?s k = Some cp" "conn_at (ga_conns a') (cp_connection cp) = Some c" for k cp c
    using that by (auto simp: a' D(4) over split: if_splits)
  moreover have "ga_conns a' r = ga_conns a r"
    if "\<forall>k \<in> K. \<forall>cp. sv_connections ?s k = Some cp \<longrightarrow> ic_ref (cp_connection cp) \<noteq> r" for r
    using that by (auto simp: a' D(4) over)
  moreover have "M k = (if k \<in> K then None else visitors ?s i k)" if "membersOf ?s' i = Some M" for i M k
  proof -
    have "M k = visitors ?s' i k" using rooms_matchD(1) [OF svc_okD(4) [OF ok(2)] that] by simp
    then show ?thesis using conns by (simp add: a' D(2) over visitors_def)
  qed
  ultimately show ?thesis using step assms(2) by (simp add: a')
qed


text \<open>C21: one request, one reply. While the application runs, a request for one of the registered messages that the
  message handler executes never panics and is answered exactly once: its connection's queue grows by one packet with
  the request's message number and the encoding of a reply with one of the documented codes, or the connection
  is stopped; no other connection is touched, and the state of the handler stays the same.\<close>
theorem tcp_request_answered:
  fixes app :: "('st, 'p) game_app" and server :: "('st, 'p) tcp_app Server"
  assumes "reach game_init (game_step H E) app" "RegisterTCP E calls server = Inr server'"
    and "RequestMsgID request \<in> set tcpMessages" "quiet_call (tc_json E) (calls n)"
    and "store_wf (ga_conns app)" "conn_at (ga_conns app) (rq_conn request) \<noteq> None"
  shows "\<exists>s w v. DoMsgHandler (Some request) (ps_mh (srv_msgHandler server'))
      \<lparr> ta_calls = n, ta_service = ga_service app, ta_conns = ga_conns app \<rparr> =
        (None, ps_mh (srv_msgHandler server'), \<lparr> ta_calls = Suc n, ta_service = s, ta_conns = w \<rparr>) \<and>
    game_step H E app (app\<lparr>ga_service := s, ga_conns := w\<rparr>) \<and>
    ry_Code v \<in> replyCodes \<and> (ry_Code v \<noteq> ''ok'' \<longrightarrow> ry_Data v = None) \<and>
    (\<forall>r. r \<noteq> ic_ref (rq_conn request) \<longrightarrow> w r = ga_conns app r) \<and>
    ((\<exists>data. tc_marshal E v = Inr data \<and>
        outbox (rq_conn request) w = outbox (rq_conn request) (ga_conns app) @ [packet (NewMsgPackage (RequestMsgID request) data)]) \<or>
     (outbox (rq_conn request) w = outbox (rq_conn request) (ga_conns app) \<and>
      (\<exists>c. conn_at w (rq_conn request) = Some c \<and> cn_isClosed c)))"
proof -
  have ok: "svc_ok {} (ga_service app)" using game.reach_inv [OF assms(1)] by (simp add: game_inv_def)
  obtain p s w where run: "tcpHandle E (calls n) request (ga_service app) (ga_conns app) = (p, s, w)" by (metis prod_cases3)
  from tcpHandle_answered [OF ok assms(4-6) run] obtain v where
    v: "p = None" "reply_ok v" "answered E request v (ga_conns app) w" by blast
  have "mh_Apis (ps_mh (srv_msgHandler server')) (RequestMsgID request) = Some (tcpRouter E calls)"
    using RegisterTCP_routes [OF assms(2)] assms(3) by simp
  from DoMsgHandler_tcp [OF this, of "\<lparr> ta_calls = n, ta_service = ga_service app, ta_conns = ga_conns app \<rparr>"] run v(1)
  have "DoMsgHandler (Some request) (ps_mh (srv_msgHandler server'))
      \<lparr> ta_calls = n, ta_service = ga_service app, ta_conns = ga_conns app \<rparr> =
        (None, ps_mh (srv_msgHandler server'), \<lparr> ta_calls = Suc n, ta_service = s, ta_conns = w \<rparr>)" by simp
  moreover have "game_step H E app (app\<lparr>ga_service := s, ga_conns := w\<rparr>)" using run by (rule game_step.tcp)
  ultimately show ?thesis using v(2,3) unfolding reply_ok_def answered_def by blast
qed


text \<open>a connection that has no valid session gets nothing done. Every request but the authentication is answered with
  the code \<open>unauthorized\<close>, or \<open>invalid_request\<close> if it cannot be decoded, and the service stays as it was.\<close>
theorem tcp_unauthenticated_refused:
  assumes "authenticatedLocked (ic_connID (rq_conn request)) (cl_now cl) s = Inl err"
    and "RequestMsgID request \<in> set tcpMessages - {TcpAuthenticate}"
  shows "\<exists>code \<in> {''unauthorized'', ''invalid_request''}.
    tcpHandle E cl request s w = (None, s, tcpReply E request \<lparr> ry_Code = code, ry_Data = None \<rparr> w)"
proof -
  have "errorCode ErrUnauthorized = ''unauthorized''" by (simp add: errorCode_def expectedErrors_def ErrUnauthorized_def)
  moreover have "tcpSwitch E cl request s = (None, s) \<or> tcpSwitch E cl request s = (Some (Inl ErrUnauthorized), s)"
    using assms by (intro tcpSwitch_unauthorized) auto
  ultimately show ?thesis by (auto simp: tcpHandle_def)
qed

section \<open>Witnesses\<close>

text \<open>The application over the database, with one connection that sends a heartbeat.\<close>

definition demo_tcp :: tcp_codec where
  "demo_tcp = \<lparr> tc_config = DefaultConfig, tc_auth = (\<lambda>d. None), tc_room = (\<lambda>d. None), tc_item = (\<lambda>d. None),
     tc_empty = (\<lambda>d. if take 2 d = [0x7B, 0x7D] then Some ((), drop 2 d) else None), tc_eof = (\<lambda>d. d = []),
     tc_marshal = (\<lambda>v. Inr (map of_char (ry_Code v))), tc_json = demo_pjson \<rparr>"

definition demo_tcp_call :: "Store tcp_call" where
  "demo_tcp_call = \<lparr> cl_ctx = None, cl_now = 8, cl_now1 = 8, cl_now2 = 8,
     cl_store = \<lparr> st_Load = SqliteLoad demo_time demo_sql_io, st_Save = SqliteSave demo_time demo_sql_io \<rparr>,
     cl_update = Some (\<lambda>c i f. SqliteUpdate demo_time demo_sql_io c i (Some f)) \<rparr>"

definition demo_game :: "(Store, nat) game_app" where
  "demo_game = \<lparr> ga_service = \<lparr> sv_accounts = [''ann'' \<mapsto> demo_account], sv_dummyHash = ''hash'', sv_sessions = demo_sessions,
       sv_store = demo_sql, sv_rooms = \<lparr> rg_rooms = [1 \<mapsto> 0], rg_heap = [0 \<mapsto> NewRoom 1 2], rg_next = 1 \<rparr>,
       sv_roomIDs = [1], sv_connections = Map.empty, sv_ttl = 1000, sv_closed = False \<rparr>,
     ga_conns = demo_store, ga_limit = None, ga_main = ServeEntry, ga_tcpStarted = False, ga_tcpStopped = False,
     ga_listenerClosed = False \<rparr>"

definition demo_beat :: Request where
  "demo_beat = \<lparr> rq_conn = \<lparr> ic_ref = 0, ic_connID = 7 \<rparr>, rq_data = NewMsgPackage TcpHeartbeat [0x7B, 0x7D] \<rparr>"

lemma demo_game_reach: "reach game_init (game_step H E) demo_game"
proof (rule reach_init)
  have "NewService demo_bc [demo_account] (Some demo_sql) 1000 [\<lparr> rc_ID = 1, rc_MaxPlayers = 2 \<rparr>] = Inr (ga_service demo_game)"
    by (simp add: NewService_def New_def RejectExisting_def ReplaceExisting_def demo_bc_def MinCost_def CreateRoom_def
        NewRoomManager_def demo_game_def demo_account_def demo_sessions_def)
  then show "game_init demo_game" unfolding game_init_def by (intro conjI exI) (simp_all add: demo_game_def)
qed

lemma parseDigits_quiet: "parseDigits cs n = Inl e \<Longrightarrow> errPanic e = None"
  by (induction cs n rule: parseDigits.induct) (auto split: option.splits if_splits)

lemma demo_tcp_quiet: "quiet_call (tc_json demo_tcp) demo_tcp_call"
  by (auto simp: quiet_call_def demo_tcp_def demo_tcp_call_def demo_pjson_def SqliteLoad_def SqliteUpdate_def readPlayer_def
      sqlCall_def contextError_def demo_sql_io_def demo_time_def ParseUint_def ErrPlayerNotFound_def ErrIdentityConflict_def
      Let_def dest: parseDigits_quiet split: sum.splits option.splits if_splits)

lemma demo_store_wf: "store_wf demo_store"
  by (auto simp: store_wf_def demo_store_def ran_def newConnection_def Let_def)

theorem tcp_request_answered_witness:
  "\<exists>server' s w (v :: Reply). RegisterTCP demo_tcp (\<lambda>n. demo_tcp_call) (NewServerWithConfig DefaultConfig DefaultConfig
      \<lparr> ta_calls = 0, ta_service = ga_service demo_game, ta_conns = demo_store \<rparr>) = Inr server' \<and>
    DoMsgHandler (Some demo_beat) (ps_mh (srv_msgHandler server'))
      \<lparr> ta_calls = 0, ta_service = ga_service demo_game, ta_conns = demo_store \<rparr> =
        (None, ps_mh (srv_msgHandler server'), \<lparr> ta_calls = 1, ta_service = s, ta_conns = w \<rparr>) \<and>
    ry_Code v \<in> replyCodes \<and> w 1 = demo_store 1"
proof -
  let ?server = "NewServerWithConfig DefaultConfig DefaultConfig
      \<lparr> ta_calls = 0, ta_service = ga_service demo_game, ta_conns = demo_store \<rparr>"
  have "\<forall>i \<in> set tcpMessages. routes ?server i = None"
    by (simp add: NewServerWithConfig_def newServer_def newMsgHandle_def SetMetrics_def Let_def)
  then obtain server' where server': "RegisterTCP demo_tcp (\<lambda>n. demo_tcp_call) ?server = Inr server'"
    using RegisterTCP_succeeds by blast
  have msg: "RequestMsgID demo_beat \<in> set tcpMessages"
    by (simp add: demo_beat_def RequestMsgID_def GetMsgID_def NewMsgPackage_def tcpMessages_def)
  have conns: "ga_conns demo_game = demo_store" by (simp add: demo_game_def)
  have wf: "store_wf (ga_conns demo_game)" by (simp add: conns demo_store_wf)
  have "conn_at (ga_conns demo_game) (rq_conn demo_beat) \<noteq> None" by (simp add: conns demo_store_def demo_beat_def)
  from tcp_request_answered [OF demo_game_reach server' msg demo_tcp_quiet wf this, of 0 demo_http]
  obtain s w and v :: Reply where run: "DoMsgHandler (Some demo_beat) (ps_mh (srv_msgHandler server'))
      \<lparr> ta_calls = 0, ta_service = ga_service demo_game, ta_conns = demo_store \<rparr> =
        (None, ps_mh (srv_msgHandler server'), \<lparr> ta_calls = Suc 0, ta_service = s, ta_conns = w \<rparr>)"
    and code: "ry_Code v \<in> replyCodes" and other: "\<forall>r. r \<noteq> ic_ref (rq_conn demo_beat) \<longrightarrow> w r = demo_store r"
    unfolding conns by blast
  have "w 1 = demo_store 1" using other by (simp add: demo_beat_def)
  with server' run code show ?thesis unfolding One_nat_def by blast
qed

theorem tcp_unauthenticated_refused_witness:
  "\<exists>code \<in> {''unauthorized'', ''invalid_request''}.
     tcpHandle demo_tcp demo_tcp_call demo_beat (ga_service demo_game) demo_store =
       (None, ga_service demo_game, tcpReply demo_tcp demo_beat \<lparr> ry_Code = code, ry_Data = None \<rparr> demo_store)"
proof (rule tcp_unauthenticated_refused)
  show "authenticatedLocked (ic_connID (rq_conn demo_beat)) (cl_now demo_tcp_call) (ga_service demo_game) = Inl ErrUnauthorized"
    by (simp add: authenticatedLocked_def demo_game_def)
  show "RequestMsgID demo_beat \<in> set tcpMessages - {TcpAuthenticate}"
    by (simp add: demo_beat_def RequestMsgID_def GetMsgID_def NewMsgPackage_def tcpMessages_def tcp_msg_defs)
qed







text \<open>A connection that does not authenticate in time is dropped by the ticker.\<close>

definition demo_serving_game :: "(Store, nat) game_app" where
  "demo_serving_game =
     (case Connected 1 \<lparr> ic_ref = 0, ic_connID = 7 \<rparr> (ga_service demo_game) demo_store of
        (s, w) \<Rightarrow> (serveStart demo_http 0 None None demo_game)\<lparr>ga_service := s, ga_conns := w\<rparr>)"

lemma demo_serving_fields:
  "ga_main demo_serving_game = ServeLoop" "ga_conns demo_serving_game = demo_store"
  "sm_byToken (sv_sessions (ga_service demo_serving_game)) = Map.empty"
  "sv_connections (ga_service demo_serving_game) =
     [7 \<mapsto> \<lparr> cp_connection = \<lparr> ic_ref = 0, ic_connID = 7 \<rparr>, cp_roomID = 0, cp_authDeadline = 30000000001 \<rparr>]"
  by (simp_all add: demo_serving_game_def Connected_def demo_game_def serveStart_def demo_sessions_def)

lemma demo_serving_reach: "reach game_init (game_step demo_http demo_tcp) demo_serving_game"
proof -
  let ?a = "serveStart demo_http 0 None None demo_game" and ?conn = "\<lparr> ic_ref = 0, ic_connID = 7 \<rparr>"
  have "game_step demo_http demo_tcp demo_game ?a" by (rule game_step.start) (simp add: demo_game_def)
  then have a: "reach game_init (game_step demo_http demo_tcp) ?a" by (rule reach_step [OF demo_game_reach])
  have same: "ga_service ?a = ga_service demo_game" "ga_conns ?a = demo_store"
    by (simp_all add: serveStart_def demo_game_def)
  have free: "sv_connections (ga_service ?a) (ic_connID ?conn) = None" "1 + 30000000000 \<noteq> (0 :: gotime)"
    unfolding same by (simp_all add: demo_game_def)
  obtain s w where run: "Connected 1 ?conn (ga_service demo_game) demo_store = (s, w)" by fastforce
  then have "Connected 1 ?conn (ga_service ?a) (ga_conns ?a) = (s, w)" unfolding same .
  from reach_step [OF a game_step.connected [OF free this]] show ?thesis
    by (simp add: demo_serving_game_def run)
qed

theorem tick_sweeps_witness:
  "sv_connections (ga_service (serveSelect (Ticked 30000000001 [] [7]) demo_serving_game)) 7 = None \<and>
   (\<exists>c. ga_conns (serveSelect (Ticked 30000000001 [] [7]) demo_serving_game) 0 = Some c \<and> cn_isClosed c)"
proof -
  let ?a' = "serveSelect (Ticked 30000000001 [] [7]) demo_serving_game"
  have orders: "map_order (sm_byToken (sv_sessions (ga_service demo_serving_game))) []"
    "map_order (sv_connections (ga_service demo_serving_game)) [7]"
    by (simp_all add: demo_serving_fields map_order_def)
  note all = tick_sweeps [OF demo_serving_reach demo_serving_fields(1) orders refl refl, of 30000000001]
  have gone: "sv_connections (ga_service ?a') 7 \<noteq> Some cp" for cp
    using all by (auto simp: demo_serving_fields)
  obtain c where c: "ga_conns ?a' 0 = Some c"
    by (auto simp: serveSelect_def Sweep_def RemoveExpired_def demo_serving_fields disconnectLocked_eq storeStop_at
        demo_store_def split: prod.splits)
  have "cn_isClosed c"
    using all c by (auto simp: demo_serving_fields)
  with gone c show ?thesis by (metis not_None_eq)
qed




end
