(* ===== verification/GoMath.thy ===== *)
theory GoMath
  imports AOI
begin

text \<open>
  The arithmetic of \<open>float64\<close> and the functions of package \<open>math\<close> that the web arena uses.
  A finite result is the exact one rounded by the argument \<open>fpu\<close>; the infinities and NaN follow
  IEEE 754 (zeros are not signed here, which no comparison can tell).
\<close>

fun fneg :: "float64 \<Rightarrow> float64" where
  "fneg NaN = NaN"
| "fneg (Inf s) = Inf (\<not> s)"
| "fneg (Fin x) = Fin (- x)"

fun fadd :: "fpu \<Rightarrow> float64 \<Rightarrow> float64 \<Rightarrow> float64" where
  "fadd F NaN y = NaN"
| "fadd F x NaN = NaN"
| "fadd F (Inf s) (Inf t) = (if s = t then Inf s else NaN)"
| "fadd F (Inf s) (Fin y) = Inf s"
| "fadd F (Fin x) (Inf t) = Inf t"
| "fadd F (Fin x) (Fin y) = fp_round F (x + y)"

definition fsub :: "fpu \<Rightarrow> float64 \<Rightarrow> float64 \<Rightarrow> float64" where
  "fsub F x y = fadd F x (fneg y)"

fun fmul :: "fpu \<Rightarrow> float64 \<Rightarrow> float64 \<Rightarrow> float64" where
  "fmul F NaN y = NaN"
| "fmul F x NaN = NaN"
| "fmul F (Inf s) (Inf t) = Inf (s \<noteq> t)"
| "fmul F (Inf s) (Fin y) = (if y = 0 then NaN else Inf (s \<noteq> (y < 0)))"
| "fmul F (Fin x) (Inf t) = (if x = 0 then NaN else Inf (t \<noteq> (x < 0)))"
| "fmul F (Fin x) (Fin y) = fp_round F (x * y)"

fun Abs :: "float64 \<Rightarrow> float64" where
  "Abs NaN = NaN"
| "Abs (Inf s) = Inf False"
| "Abs (Fin x) = Fin \<bar>x\<bar>"

fun Sqrt :: "fpu \<Rightarrow> float64 \<Rightarrow> float64" where
  "Sqrt F NaN = NaN"
| "Sqrt F (Inf s) = (if s then NaN else Inf False)"
| "Sqrt F (Fin x) = (if x < 0 then NaN else fp_round F (sqrt x))"

definition Max :: "float64 \<Rightarrow> float64 \<Rightarrow> float64" where
  "Max x y =
     (if x = Inf False \<or> y = Inf False then Inf False
      else if IsNaN x \<or> IsNaN y then NaN
      else if flt y x then x else y)"

definition Min :: "float64 \<Rightarrow> float64 \<Rightarrow> float64" where
  "Min x y =
     (if x = Inf True \<or> y = Inf True then Inf True
      else if IsNaN x \<or> IsNaN y then NaN
      else if flt x y then x else y)"

definition Hypot :: "fpu \<Rightarrow> float64 \<Rightarrow> float64 \<Rightarrow> float64" where
  "Hypot F p q =
     (let p = Abs p; q = Abs q
      in if IsInf p \<or> IsInf q then Inf False
         else if IsNaN p \<or> IsNaN q then NaN
         else
           let (p, q) = (if flt p q then (q, p) else (p, q))
           in if p = Fin 0 then Fin 0
              else
                let q = fdiv F q p
                in fmul F p (Sqrt F (fadd F (Fin 1) (fmul F q q))))"

section \<open>Numbers\<close>

text \<open>Rounding a real number never gives NaN.\<close>

definition round_num :: "fpu \<Rightarrow> bool" where
  "round_num F \<longleftrightarrow> (\<forall>x. fp_round F x \<noteq> NaN)"

lemma round_numD: "round_num F \<Longrightarrow> fp_round F x \<noteq> NaN"
  by (simp add: round_num_def)

text \<open>Clamping a number into an interval.\<close>

lemma clamp_range:
  assumes "v \<noteq> NaN" "lo \<le> hi"
  obtains x where "Max (Fin lo) (Min (Fin hi) v) = Fin x" "lo \<le> x" "x \<le> hi"
proof (cases v)
  case (Inf s)
  then show ?thesis
    using that [of lo] that [of hi] assms(2) by (cases s) (auto simp: Max_def Min_def IsNaN_def)
next
  case (Fin x)
  then show ?thesis
    using that [of "max lo (min hi x)"] assms(2) by (auto simp: Max_def Min_def IsNaN_def max_def min_def)
qed (use assms(1) in simp)

lemma clamp_Fin:
  "lo \<le> hi \<Longrightarrow> Max (Fin lo) (Min (Fin hi) (Fin x)) = Fin (max lo (min hi x))"
  by (auto simp: Max_def Min_def IsNaN_def)

lemma fadd_num: "round_num F \<Longrightarrow> y \<noteq> NaN \<Longrightarrow> fadd F (Fin x) y \<noteq> NaN"
  by (cases y) (auto simp: round_numD)

lemma fmul_num: "round_num F \<Longrightarrow> c \<noteq> 0 \<Longrightarrow> x \<noteq> NaN \<Longrightarrow> fmul F x (Fin c) \<noteq> NaN"
  by (cases x) (auto simp: round_numD)

lemma fdiv_num: "round_num F \<Longrightarrow> c \<noteq> 0 \<Longrightarrow> x \<noteq> NaN \<Longrightarrow> fdiv F x (Fin c) \<noteq> NaN"
  by (cases x) (auto simp: round_numD)

section \<open>Exact arithmetic\<close>

definition exact_fpu :: "fpu \<Rightarrow> bool" where
  "exact_fpu F \<longleftrightarrow> (\<forall>x. fp_round F x = Fin x)"

lemma exact_round: "exact_fpu F \<Longrightarrow> fp_round F x = Fin x"
  by (simp add: exact_fpu_def)

lemma sqrt_scaled:
  assumes "0 < (p :: real)"
  shows "p * sqrt (1 + (q / p) * (q / p)) = sqrt (p\<^sup>2 + q\<^sup>2)"
proof -
  have "p * sqrt (1 + (q / p) * (q / p)) = sqrt (p\<^sup>2) * sqrt (1 + (q / p)\<^sup>2)"
    using assms by (simp add: power2_eq_square)
  also have "\<dots> = sqrt (p\<^sup>2 * (1 + (q / p)\<^sup>2))" by (simp only: real_sqrt_mult)
  also have "p\<^sup>2 * (1 + (q / p)\<^sup>2) = p\<^sup>2 + q\<^sup>2"
    using assms by (simp add: distrib_left power_divide)
  finally show ?thesis .
qed

lemma Hypot_scaled:
  assumes "exact_fpu F" "0 < p"
  shows "fmul F (Fin p) (Sqrt F (fadd F (Fin 1) (fmul F (fdiv F (Fin q) (Fin p)) (fdiv F (Fin q) (Fin p)))))
    = Fin (sqrt (p\<^sup>2 + q\<^sup>2))"
  using assms sqrt_scaled [OF assms(2), of q] by (simp add: exact_round not_less)

lemma Hypot_exact:
  assumes "exact_fpu F"
  shows "Hypot F (Fin x) (Fin y) = Fin (sqrt (x\<^sup>2 + y\<^sup>2))"
proof (cases "\<bar>x\<bar> < \<bar>y\<bar>")
  case True
  then show ?thesis
    using Hypot_scaled [OF assms, of "\<bar>y\<bar>" "\<bar>x\<bar>"]
    by (auto simp: Hypot_def IsInf_def IsNaN_def Let_def add.commute simp del: fmul.simps fadd.simps fdiv.simps Sqrt.simps)
next
  case False
  then have "Hypot F (Fin x) (Fin y) = Fin (sqrt (\<bar>x\<bar>\<^sup>2 + \<bar>y\<bar>\<^sup>2))"
    using Hypot_scaled [OF assms, of "\<bar>x\<bar>" "\<bar>y\<bar>"]
    by (auto simp: Hypot_def IsInf_def IsNaN_def Let_def simp del: fmul.simps fadd.simps fdiv.simps Sqrt.simps)
  then show ?thesis by simp
qed

end
