(* ===== verification/WebWorld.thy ===== *)
theory WebWorld
  imports GoMath GoBytes Room SessionManager
begin

text \<open>
  The web arena of \<open>examples/webgame/server/world.go\<close> with the messages of \<open>protocol.go\<close>: guest
  identities, two arenas (a room, a grid and eight crystals each), the message handler and the fixed
  time step. Every method holds the lock of the world, so each is one atomic operation on the world and
  on the connections it sends to or stops. A player is a pointer kept in the table of players: it is
  named by its key there. An operation that asks the grid for neighbours returns \<open>None\<close> if that
  search never ends.

  The argument \<open>web_env\<close> collects what comes from outside: the configuration of the connections, the
  rounding of floating point numbers, the order in which a map is visited, and package
  \<open>encoding/json\<close>, namely \<open>Marshal\<close>, one \<open>Decode\<close> for every struct of the handler (the value and
  the unread rest) and the end-of-input test.
\<close>

section \<open>Messages\<close>

abbreviation MsgAuthenticate :: u32 where "MsgAuthenticate \<equiv> 4101"
abbreviation MsgJoin :: u32 where "MsgJoin \<equiv> 4102"
abbreviation MsgInput :: u32 where "MsgInput \<equiv> 4103"
abbreviation MsgLeave :: u32 where "MsgLeave \<equiv> 4104"
abbreviation MsgHeartbeat :: u32 where "MsgHeartbeat \<equiv> 4105"
abbreviation MsgSnapshot :: u32 where "MsgSnapshot \<equiv> 4201"
abbreviation MsgError :: u32 where "MsgError \<equiv> 4202"
abbreviation MsgEvent :: u32 where "MsgEvent \<equiv> 4203"

definition WorldWidth :: real where "WorldWidth = 960"
definition WorldHeight :: real where "WorldHeight = 540"
definition TickRate :: real where "TickRate = 20"

text \<open>A name is the list of its runes.\<close>

type_synonym rune = nat

record PlayerView =
  pv_ID :: u32
  pv_Name :: "rune list"
  pv_X :: float64
  pv_Y :: float64
  pv_Score :: int64
  pv_Seq :: u32
  pv_Nearby :: nat

record Crystal =
  cr_ID :: int
  cr_X :: float64
  cr_Y :: float64

record WebSnapshot =
  sn_Tick :: u64
  sn_RoomID :: u32
  sn_Players :: "PlayerView list"
  sn_Crystals :: "Crystal list"

text \<open>The values handed to \<open>json.Marshal\<close>.\<close>

datatype web_value =
    VError u32 string
  | VIdentity u32 "rune list"
  | VRoom u32
  | VOk
  | VHeartbeat float64
  | VEvent string "rune list"
  | VSnapshot WebSnapshot

record web_env =
  we_config :: Config
  we_fpu :: fpu
  we_visit :: "u32 set \<Rightarrow> u32 list"
  we_Marshal :: "web_value \<Rightarrow> bytes res"
  we_Token :: "bytes \<Rightarrow> (string \<times> bytes) option"
  we_RoomID :: "bytes \<Rightarrow> (u32 \<times> bytes) option"
  we_Input :: "bytes \<Rightarrow> ((float64 \<times> float64 \<times> u32) \<times> bytes) option"
  we_Empty :: "bytes \<Rightarrow> (unit \<times> bytes) option"
  we_SentAt :: "bytes \<Rightarrow> (float64 \<times> bytes) option"
  we_EOF :: "bytes \<Rightarrow> bool"

section \<open>State\<close>

record player =
  pl_view :: PlayerView
  pl_conn :: iconn
  pl_roomID :: u32
  pl_dx :: float64
  pl_dy :: float64
  pl_inputAt :: gotime
  pl_connectedAt :: gotime

record arena =
  ar_room :: Room
  ar_aoi :: AOIManager
  ar_crystals :: "Crystal list"
  ar_respawn :: "int \<rightharpoonup> gotime"

record World =
  wd_sessions :: Manager
  wd_names :: "u64 \<rightharpoonup> rune list"
  wd_nextGuest :: u64
  wd_players :: "u32 \<rightharpoonup> player"
  wd_arenas :: "u32 \<rightharpoonup> arena"
  wd_tick :: u64
  wd_closed :: bool
  wd_running :: bool

definition crystal :: "int \<times> real \<times> real \<Rightarrow> Crystal" where
  "crystal c = (case c of (i, x, y) \<Rightarrow> \<lparr> cr_ID = i, cr_X = Fin x, cr_Y = Fin y \<rparr>)"

definition startCrystals :: "Crystal list" where
  "startCrystals = map crystal
     [(1, 250, 270), (2, 410, 150), (3, 480, 390), (4, 640, 270),
      (5, 780, 130), (6, 810, 420), (7, 150, 100), (8, 140, 430)]"

definition newArena :: "u32 \<Rightarrow> RoomManager \<times> World \<Rightarrow> RoomManager \<times> World" where
  "newArena i s =
     (case s of (rooms, W) \<Rightarrow>
        case CreateRoom i 8 rooms of (room, rooms1) \<Rightarrow>
          let rooms2 = on_room (projr room) (snd \<circ> Start) rooms1;
              aoi = projr (NewAOIManager (Fin WorldWidth) (Fin WorldHeight) (Fin 160) (Fin 135))
          in (rooms2,
              W\<lparr>wd_arenas := (wd_arenas W)(i \<mapsto>
                 \<lparr> ar_room = the (rg_heap rooms2 (projr room)), ar_aoi = aoi,
                   ar_crystals = startCrystals, ar_respawn = Map.empty \<rparr>)\<rparr>))"

definition NewWorld :: World where
  "NewWorld = snd (newArena 2 (newArena 1 (NewRoomManager,
     \<lparr> wd_sessions = projr (New RejectExisting), wd_names = Map.empty, wd_nextGuest = 0,
       wd_players = Map.empty, wd_arenas = Map.empty, wd_tick = 0, wd_closed = False,
       wd_running = False \<rparr>)))"

section \<open>Guests\<close>

text \<open>\<open>unicode.IsSpace\<close>, \<open>unicode.IsControl\<close> and the table \<open>unicode.Cf\<close>.\<close>

definition in_ranges :: "(nat \<times> nat) list \<Rightarrow> rune \<Rightarrow> bool" where
  "in_ranges rs r = list_ex (\<lambda>(lo, hi). lo \<le> r \<and> r \<le> hi) rs"

definition IsSpace :: "rune \<Rightarrow> bool" where
  "IsSpace = in_ranges [(0x9, 0xD), (0x20, 0x20), (0x85, 0x85), (0xA0, 0xA0), (0x1680, 0x1680),
     (0x2000, 0x200A), (0x2028, 0x2029), (0x202F, 0x202F), (0x205F, 0x205F), (0x3000, 0x3000)]"

definition IsControl :: "rune \<Rightarrow> bool" where
  "IsControl = in_ranges [(0, 0x1F), (0x7F, 0x9F)]"

definition IsFormat :: "rune \<Rightarrow> bool" where
  "IsFormat = in_ranges [(0xAD, 0xAD), (0x600, 0x605), (0x61C, 0x61C), (0x6DD, 0x6DD), (0x70F, 0x70F),
     (0x890, 0x891), (0x8E2, 0x8E2), (0x180E, 0x180E), (0x200B, 0x200F), (0x202A, 0x202E),
     (0x2060, 0x2064), (0x2066, 0x206F), (0xFEFF, 0xFEFF), (0xFFF9, 0xFFFB), (0x110BD, 0x110BD),
     (0x110CD, 0x110CD), (0x13430, 0x1343F), (0x1BCA0, 0x1BCA3), (0x1D173, 0x1D17A),
     (0xE0001, 0xE0001), (0xE0020, 0xE007F)]"

definition trimName :: "rune list \<Rightarrow> rune list" where
  "trimName name = rev (dropWhile IsSpace (rev (dropWhile IsSpace name)))"

record Guest =
  gu_Token :: string
  gu_Name :: "rune list"
  gu_ExpiresAt :: gotime

abbreviation minutes30 :: duration where "minutes30 \<equiv> 1800000000000"

text \<open>\<open>fmt.Sprintf("webguest-%d", n)\<close>.\<close>

definition guestAccount :: "u64 \<Rightarrow> string" where
  "guestAccount n = ''webguest-'' @ itoa (unat n)"

definition WorldGuest :: "rune list \<Rightarrow> bytes res \<Rightarrow> gotime \<Rightarrow> World \<Rightarrow> Guest res \<times> World" where
  "WorldGuest name random now W =
     (let name = trimName name
      in if length name < 1 \<or> length name > 16 then (Inl (Err ''name must contain 1..16 characters''), W)
         else if list_ex (\<lambda>r. IsControl r \<or> IsFormat r) name then (Inl (Err ''invalid name''), W)
         else if wd_closed W \<or> Len (wd_sessions W) \<ge> 256 then (Inl (Err ''guest capacity reached''), W)
         else
           let W1 = W\<lparr>wd_nextGuest := wd_nextGuest W + 1\<rparr>
           in case Issue (wd_sessions W1) (guestAccount (wd_nextGuest W1)) (wd_nextGuest W1)
                     minutes30 random now of
                (Inl err, sessions) \<Rightarrow> (Inl err, W1\<lparr>wd_sessions := sessions\<rparr>)
              | (Inr (s, replaced), sessions) \<Rightarrow>
                  (Inr \<lparr> gu_Token = ses_Token s, gu_Name = name, gu_ExpiresAt = ses_ExpiresAt s \<rparr>,
                   W1\<lparr>wd_sessions := sessions, wd_names := (wd_names W1)(ses_PlayerID s \<mapsto> name)\<rparr>))"

section \<open>Decoding and sending\<close>

definition decode :: "(bytes \<Rightarrow> ('a \<times> bytes) option) \<Rightarrow> (bytes \<Rightarrow> bool) \<Rightarrow> bytes \<Rightarrow> 'a option" where
  "decode target eof data =
     (let data = TrimSpace data
      in if data = [] \<or> data ! 0 \<noteq> 0x7B then None
         else case target data of
                None \<Rightarrow> None
              | Some (v, rest) \<Rightarrow> if eof rest then Some v else None)"

definition jsonSend :: "web_env \<Rightarrow> iconn \<Rightarrow> u32 \<Rightarrow> web_value \<Rightarrow> 'p conn_store \<Rightarrow> 'p conn_store" where
  "jsonSend E c i v s =
     (case we_Marshal E v of
        Inl err \<Rightarrow> storeStop c s
      | Inr data \<Rightarrow>
          (case storeSend (we_config E) i data c s of
             (None, s1) \<Rightarrow> s1
           | (Some err, s1) \<Rightarrow> storeStop c s1))"

definition worldFail :: "web_env \<Rightarrow> player \<Rightarrow> u32 \<Rightarrow> string \<Rightarrow> 'p conn_store \<Rightarrow> 'p conn_store" where
  "worldFail E p request code s = jsonSend E (pl_conn p) MsgError (VError request code) s"

section \<open>Broadcasting\<close>

fun stopFailed :: "World \<Rightarrow> BroadcastError list \<Rightarrow> 'p conn_store \<Rightarrow> 'p conn_store" where
  "stopFailed W [] s = s"
| "stopFailed W (e # es) s =
     stopFailed W es
       (case wd_players W (be_ConnID e) of None \<Rightarrow> s | Some p \<Rightarrow> storeStop (pl_conn p) s)"

definition broadcastData :: "web_env \<Rightarrow> arena \<Rightarrow> u32 \<Rightarrow> web_value \<Rightarrow> World \<Rightarrow> 'p conn_store \<Rightarrow> 'p conn_store" where
  "broadcastData E a i v W s =
     (case we_Marshal E v of
        Inl err \<Rightarrow> s
      | Inr data \<Rightarrow>
          (case Broadcast (we_config E) i data (we_visit E (dom (rm_members (ar_room a)))) (ar_room a) s of
             (errs, s1) \<Rightarrow> stopFailed W errs s1))"

definition worldEvent :: "web_env \<Rightarrow> arena \<Rightarrow> string \<Rightarrow> rune list \<Rightarrow> World \<Rightarrow> 'p conn_store \<Rightarrow> 'p conn_store" where
  "worldEvent E a kind message W s = broadcastData E a MsgEvent (VEvent kind message) W s"

fun snapshotPlayers :: "web_env \<Rightarrow> arena \<Rightarrow> World \<Rightarrow> iconn list \<Rightarrow> PlayerView list option" where
  "snapshotPlayers E a W [] = Some []"
| "snapshotPlayers E a W (c # cs) =
     (case wd_players W (ic_connID c) of
        None \<Rightarrow> snapshotPlayers E a W cs
      | Some p \<Rightarrow>
          do {
            nearby \<leftarrow> GetNearbyEntityIDs (we_visit E) (pv_ID (pl_view p)) (ar_aoi a);
            views \<leftarrow> snapshotPlayers E a W cs;
            Some ((pl_view p)\<lparr>pv_Nearby := (case nearby of Inl err \<Rightarrow> 0 | Inr ids \<Rightarrow> length ids)\<rparr> # views)
          })"

definition snapshot :: "web_env \<Rightarrow> arena \<Rightarrow> World \<Rightarrow> WebSnapshot option" where
  "snapshot E a W =
     do {
       views \<leftarrow> snapshotPlayers E a W (Members (we_visit E (dom (rm_members (ar_room a)))) (ar_room a));
       Some \<lparr> sn_Tick = wd_tick W, sn_RoomID = rm_ID (ar_room a), sn_Players = views,
              sn_Crystals = filter (\<lambda>c. ar_respawn a (cr_ID c) = None) (ar_crystals a) \<rparr>
     }"

definition arenaBroadcast :: "web_env \<Rightarrow> arena \<Rightarrow> World \<Rightarrow> 'p conn_store \<Rightarrow> 'p conn_store option" where
  "arenaBroadcast E a W s =
     do { sn \<leftarrow> snapshot E a W; Some (broadcastData E a MsgSnapshot (VSnapshot sn) W s) }"

section \<open>Joining and leaving\<close>

text \<open>The Chinese texts of the events, as runes.\<close>

definition joinText :: "rune list" where
  "joinText = [0x20, 0x52A0, 0x5165, 0x7ADE, 0x6280, 0x573A]"

definition leaveText :: "rune list" where
  "leaveText = [0x20, 0x79BB, 0x5F00, 0x7ADE, 0x6280, 0x573A]"

definition collectText :: "rune list" where
  "collectText = [0x20, 0x91C7, 0x96C6, 0x6C34, 0x6676, 0x20, 0x2B, 0x31]"

abbreviation set_player :: "u32 \<Rightarrow> player \<Rightarrow> World \<Rightarrow> World" where
  "set_player k p W \<equiv> W\<lparr>wd_players := (wd_players W)(k \<mapsto> p)\<rparr>"

abbreviation set_arena :: "u32 \<Rightarrow> arena \<Rightarrow> World \<Rightarrow> World" where
  "set_arena i a W \<equiv> W\<lparr>wd_arenas := (wd_arenas W)(i \<mapsto> a)\<rparr>"

text \<open>\<open>k\<close> is the key of the player that leaves.\<close>

definition worldLeave :: "web_env \<Rightarrow> u32 \<Rightarrow> World \<Rightarrow> 'p conn_store \<Rightarrow> World \<times> 'p conn_store" where
  "worldLeave E k W s =
     (let p = the (wd_players W k);
          (W1, s1) =
            (case wd_arenas W (pl_roomID p) of
               None \<Rightarrow> (W, s)
             | Some a \<Rightarrow>
                 let a1 = a\<lparr>ar_room := snd (Leave (pv_ID (pl_view p)) (ar_room a)),
                            ar_aoi := snd (RemoveEntity (pv_ID (pl_view p)) (ar_aoi a))\<rparr>;
                     W1 = set_arena (pl_roomID p) a1 W
                 in (W1, worldEvent E a1 ''leave'' (pv_Name (pl_view p) @ leaveText) W1 s))
      in (set_player k (p\<lparr>pl_roomID := 0, pl_dx := Fin 0, pl_dy := Fin 0\<rparr>) W1, s1))"

definition onConnStart :: "iconn \<Rightarrow> gotime \<Rightarrow> World \<Rightarrow> 'p conn_store \<Rightarrow> World \<times> 'p conn_store" where
  "onConnStart c now W s =
     (if wd_closed W then (W, storeStop c s)
      else
        (set_player (ic_connID c)
           \<lparr> pl_view = \<lparr> pv_ID = ic_connID c, pv_Name = [], pv_X = Fin 0, pv_Y = Fin 0, pv_Score = 0,
                         pv_Seq = 0, pv_Nearby = 0 \<rparr>,
             pl_conn = c, pl_roomID = 0, pl_dx = Fin 0, pl_dy = Fin 0, pl_inputAt = 0,
             pl_connectedAt = now \<rparr> W, s))"

definition onConnStop :: "web_env \<Rightarrow> iconn \<Rightarrow> World \<Rightarrow> 'p conn_store \<Rightarrow> World \<times> 'p conn_store" where
  "onConnStop E c W s =
     (let (W1, s1) =
        (case wd_players W (ic_connID c) of
           None \<Rightarrow> (W, s)
         | Some p \<Rightarrow>
             (case worldLeave E (ic_connID c) W s of
                (W1, s1) \<Rightarrow> (W1\<lparr>wd_players := (wd_players W1)(pv_ID (pl_view p) := None)\<rparr>, s1)))
      in case LogoutByConnID (wd_sessions W1) (ic_connID c) of
           (Inl err, sessions) \<Rightarrow> (W1\<lparr>wd_sessions := sessions\<rparr>, s1)
         | (Inr v, sessions) \<Rightarrow>
             (W1\<lparr>wd_sessions := sessions, wd_names := (wd_names W1)(ses_PlayerID (the v) := None)\<rparr>, s1))"

section \<open>The message handler\<close>

definition handleAuthenticate ::
  "web_env \<Rightarrow> bytes \<Rightarrow> gotime \<Rightarrow> gotime \<Rightarrow> u32 \<Rightarrow> player \<Rightarrow> World \<Rightarrow> 'p conn_store \<Rightarrow> World \<times> 'p conn_store" where
  "handleAuthenticate E data now1 now2 k p W s =
     (case decode (we_Token E) (we_EOF E) data of
        None \<Rightarrow> (W, worldFail E p MsgAuthenticate ''invalid_request'' s)
      | Some token \<Rightarrow>
          if length token \<noteq> 48 then (W, worldFail E p MsgAuthenticate ''invalid_request'' s)
          else
            (case Bind (wd_sessions W) token (pv_ID (pl_view p)) now1 now2 of
               (Inl err, sessions) \<Rightarrow>
                 (W\<lparr>wd_sessions := sessions\<rparr>, worldFail E p MsgAuthenticate ''unauthorized'' s)
             | (Inr v, sessions) \<Rightarrow>
                 let name = (case wd_names W (ses_PlayerID v) of None \<Rightarrow> [] | Some name \<Rightarrow> name);
                     p1 = p\<lparr>pl_view := (pl_view p)\<lparr>pv_Name := name\<rparr>\<rparr>
                 in (set_player k p1 (W\<lparr>wd_sessions := sessions\<rparr>),
                     jsonSend E (pl_conn p) MsgAuthenticate (VIdentity (pv_ID (pl_view p)) name) s)))"

text \<open>Entering the arena \<open>i\<close> whose room has accepted the connection.\<close>

definition enterArena :: "web_env \<Rightarrow> u32 \<Rightarrow> u32 \<Rightarrow> World \<Rightarrow> 'p conn_store \<Rightarrow> World \<times> 'p conn_store" where
  "enterArena E k i W s =
     (case worldLeave E k W s of
        (W1, s1) \<Rightarrow>
          let p = the (wd_players W1 k);
              p1 = p\<lparr>pl_roomID := i,
                     pl_view := (pl_view p)\<lparr>pv_X := Fin 130, pv_Y := Fin 270, pv_Score := 0\<rparr>,
                     pl_dx := Fin 0, pl_dy := Fin 0\<rparr>;
              a = the (wd_arenas W1 i);
              a1 = a\<lparr>ar_aoi := snd (AddEntity (we_fpu E) (pv_ID (pl_view p1))
                       \<lparr> ps_X = pv_X (pl_view p1), ps_Y = pv_Y (pl_view p1) \<rparr> (ar_aoi a))\<rparr>;
              W2 = set_arena i a1 (set_player k p1 W1)
          in (W2, worldEvent E a1 ''join'' (pv_Name (pl_view p1) @ joinText) W2 s1))"

definition handleJoin ::
  "web_env \<Rightarrow> bytes \<Rightarrow> u32 \<Rightarrow> player \<Rightarrow> World \<Rightarrow> 'p conn_store \<Rightarrow> (World \<times> 'p conn_store) option" where
  "handleJoin E data k p W s =
     (case decode (we_RoomID E) (we_EOF E) data of
        None \<Rightarrow> Some (W, worldFail E p MsgJoin ''invalid_request'' s)
      | Some roomID \<Rightarrow>
          (case wd_arenas W roomID of
             None \<Rightarrow> Some (W, worldFail E p MsgJoin ''room_not_found'' s)
           | Some a \<Rightarrow>
               (case (if pl_roomID p \<noteq> roomID then Join (Some (pl_conn p)) (ar_room a) else (None, ar_room a)) of
                  (Some err, room) \<Rightarrow> Some (W, worldFail E p MsgJoin ''room_full'' s)
                | (None, room) \<Rightarrow>
                    let (W1, s1) =
                      (if pl_roomID p \<noteq> roomID
                       then enterArena E k roomID (set_arena roomID (a\<lparr>ar_room := room\<rparr>) W) s
                       else (W, s));
                        s2 = jsonSend E (pl_conn p) MsgJoin (VRoom (pl_roomID (the (wd_players W1 k)))) s1
                    in do { s3 \<leftarrow> arenaBroadcast E (the (wd_arenas W1 roomID)) W1 s2; Some (W1, s3) })))"

definition handleInput ::
  "web_env \<Rightarrow> bytes \<Rightarrow> gotime \<Rightarrow> u32 \<Rightarrow> player \<Rightarrow> World \<Rightarrow> 'p conn_store \<Rightarrow> World \<times> 'p conn_store" where
  "handleInput E data now k p W s =
     (case decode (we_Input E) (we_EOF E) data of
        None \<Rightarrow> (W, worldFail E p MsgInput ''invalid_input'' s)
      | Some (dx, dy, seq) \<Rightarrow>
          if IsNaN dx \<or> IsNaN dy \<or> flt (Fin 1) (Abs dx) \<or> flt (Fin 1) (Abs dy) \<or> seq = 0
          then (W, worldFail E p MsgInput ''invalid_input'' s)
          else if pl_roomID p = 0 then (W, worldFail E p MsgInput ''not_in_room'' s)
          else if seq \<le> pv_Seq (pl_view p) then (W, s)
          else
            let F = we_fpu E;
                len = Hypot F dx dy;
                (dx, dy) = (if flt (Fin 1) len then (fdiv F dx len, fdiv F dy len) else (dx, dy))
            in (set_player k (p\<lparr>pl_dx := dx, pl_dy := dy, pl_view := (pl_view p)\<lparr>pv_Seq := seq\<rparr>,
                               pl_inputAt := now\<rparr>) W, s))"

definition handleLeave ::
  "web_env \<Rightarrow> bytes \<Rightarrow> u32 \<Rightarrow> player \<Rightarrow> World \<Rightarrow> 'p conn_store \<Rightarrow> World \<times> 'p conn_store" where
  "handleLeave E data k p W s =
     (case decode (we_Empty E) (we_EOF E) data of
        None \<Rightarrow> (W, worldFail E p MsgLeave ''invalid_request'' s)
      | Some u \<Rightarrow>
          (case worldLeave E k W s of (W1, s1) \<Rightarrow> (W1, jsonSend E (pl_conn p) MsgLeave VOk s1)))"

definition handleHeartbeat ::
  "web_env \<Rightarrow> bytes \<Rightarrow> player \<Rightarrow> World \<Rightarrow> 'p conn_store \<Rightarrow> World \<times> 'p conn_store" where
  "handleHeartbeat E data p W s =
     (case decode (we_SentAt E) (we_EOF E) data of
        None \<Rightarrow> (W, worldFail E p MsgHeartbeat ''invalid_request'' s)
      | Some sentAt \<Rightarrow> (W, jsonSend E (pl_conn p) MsgHeartbeat (VHeartbeat sentAt) s))"

text \<open>\<open>connID\<close> is the id of the request's connection; \<open>now1\<close> and \<open>now2\<close> are the clock readings.\<close>

definition worldHandle ::
  "web_env \<Rightarrow> u32 \<Rightarrow> u32 \<Rightarrow> bytes \<Rightarrow> gotime \<Rightarrow> gotime \<Rightarrow> World \<Rightarrow> 'p conn_store
   \<Rightarrow> (World \<times> 'p conn_store) option" where
  "worldHandle E connID msgID data now1 now2 W s =
     (case wd_players W connID of
        None \<Rightarrow> Some (W, s)
      | Some p \<Rightarrow>
          if wd_closed W then Some (W, s)
          else if msgID = MsgAuthenticate then Some (handleAuthenticate E data now1 now2 connID p W s)
          else
            (case GetByConnID (wd_sessions W) (pv_ID (pl_view p)) now1 of
               Inl err \<Rightarrow> Some (W, worldFail E p msgID ''unauthorized'' s)
             | Inr v \<Rightarrow>
                 if msgID = MsgJoin then handleJoin E data connID p W s
                 else if msgID = MsgInput then Some (handleInput E data now2 connID p W s)
                 else if msgID = MsgLeave then Some (handleLeave E data connID p W s)
                 else if msgID = MsgHeartbeat then Some (handleHeartbeat E data p W s)
                 else Some (W, s)))"

section \<open>The time step\<close>

abbreviation ms250 :: duration where "ms250 \<equiv> 250000000"
abbreviation seconds5 :: duration where "seconds5 \<equiv> 5000000000"
abbreviation seconds10 :: duration where "seconds10 \<equiv> 10000000000"

fun expireSessions :: "web_env \<Rightarrow> Session list \<Rightarrow> World \<times> 'p conn_store \<Rightarrow> World \<times> 'p conn_store" where
  "expireSessions E [] (W, s) = (W, s)"
| "expireSessions E (v # vs) (W, s) =
     (let W1 = W\<lparr>wd_names := (wd_names W)(ses_PlayerID v := None)\<rparr>
      in expireSessions E vs
           (if ses_Bound v
            then (case wd_players W1 (ses_ConnID v) of
                    None \<Rightarrow> (W1, s)
                  | Some p \<Rightarrow>
                      (case worldLeave E (ses_ConnID v) W1 s of (W2, s2) \<Rightarrow> (W2, storeStop (pl_conn p) s2)))
            else (W1, s)))"

definition clampX :: "float64 \<Rightarrow> float64" where
  "clampX x = Max (Fin 24) (Min (Fin (WorldWidth - 24)) x)"

definition clampY :: "float64 \<Rightarrow> float64" where
  "clampY y = Max (Fin 24) (Min (Fin (WorldHeight - 24)) y)"

definition advance :: "fpu \<Rightarrow> float64 \<Rightarrow> float64 \<Rightarrow> float64" where
  "advance F x dx = fadd F x (fdiv F (fmul F dx (Fin 180)) (Fin TickRate))"

definition movePlayer :: "web_env \<Rightarrow> gotime \<Rightarrow> u32 \<Rightarrow> World \<Rightarrow> World option" where
  "movePlayer E now k W =
     (let p = the (wd_players W k); a = the (wd_arenas W (pl_roomID p))
      in if now - pl_inputAt p \<le> ms250 then
           let v = pl_view p;
               v1 = v\<lparr>pv_X := clampX (advance (we_fpu E) (pv_X v) (pl_dx p)),
                      pv_Y := clampY (advance (we_fpu E) (pv_Y v) (pl_dy p))\<rparr>
           in do {
                (r, aoi) \<leftarrow> MoveEntity (we_visit E) (we_fpu E) (pv_ID v1)
                             \<lparr> ps_X = pv_X v1, ps_Y = pv_Y v1 \<rparr> (ar_aoi a);
                Some (set_arena (pl_roomID p) (a\<lparr>ar_aoi := aoi\<rparr>) (set_player k (p\<lparr>pl_view := v1\<rparr>) W))
              }
         else Some W)"

fun collect :: "web_env \<Rightarrow> gotime \<Rightarrow> u32 \<Rightarrow> Crystal list \<Rightarrow> World \<times> 'p conn_store \<Rightarrow> World \<times> 'p conn_store" where
  "collect E now k [] (W, s) = (W, s)"
| "collect E now k (c # cs) (W, s) =
     (let p = the (wd_players W k); a = the (wd_arenas W (pl_roomID p)); v = pl_view p
      in if ar_respawn a (cr_ID c) \<noteq> None then collect E now k cs (W, s)
         else if fle (Hypot (we_fpu E) (fsub (we_fpu E) (pv_X v) (cr_X c)) (fsub (we_fpu E) (pv_Y v) (cr_Y c))) (Fin 25)
         then
           let p1 = p\<lparr>pl_view := v\<lparr>pv_Score := pv_Score v + 1\<rparr>\<rparr>;
               a1 = a\<lparr>ar_respawn := (ar_respawn a)(cr_ID c \<mapsto> now + seconds5)\<rparr>;
               W1 = set_arena (pl_roomID p) a1 (set_player k p1 W)
           in collect E now k cs (W1, worldEvent E a1 ''collect'' (pv_Name v @ collectText) W1 s)
         else collect E now k cs (W, s))"

definition stepPlayer ::
  "web_env \<Rightarrow> gotime \<Rightarrow> u32 \<Rightarrow> World \<times> 'p conn_store \<Rightarrow> (World \<times> 'p conn_store) option" where
  "stepPlayer E now k Ws =
     (case Ws of (W, s) \<Rightarrow>
        let p = the (wd_players W k)
        in if pv_Name (pl_view p) = [] \<and> now - pl_connectedAt p > seconds10
           then Some (W, storeStop (pl_conn p) s)
           else
             (case wd_arenas W (pl_roomID p) of
                None \<Rightarrow> Some (W, s)
              | Some a \<Rightarrow>
                  do { W1 \<leftarrow> movePlayer E now k W; Some (collect E now k (ar_crystals a) (W1, s)) }))"

fun stepPlayers ::
  "web_env \<Rightarrow> gotime \<Rightarrow> u32 list \<Rightarrow> World \<times> 'p conn_store \<Rightarrow> (World \<times> 'p conn_store) option" where
  "stepPlayers E now [] Ws = Some Ws"
| "stepPlayers E now (k # ks) Ws = Option.bind (stepPlayer E now k Ws) (stepPlayers E now ks)"

text \<open>The order of the players in a tick: ascending ids, rotated by the tick.\<close>

definition tickOrder :: "u64 \<Rightarrow> u32 list \<Rightarrow> u32 list" where
  "tickOrder tick ks =
     (let ids = sort ks
      in map (\<lambda>offset. ids ! ((offset + unat tick mod length ids) mod length ids)) [0..<length ids])"

fun stepArenas ::
  "web_env \<Rightarrow> gotime \<Rightarrow> u32 list \<Rightarrow> World \<times> 'p conn_store \<Rightarrow> (World \<times> 'p conn_store) option" where
  "stepArenas E now [] Ws = Some Ws"
| "stepArenas E now (i # is) (W, s) =
     (let a = the (wd_arenas W i);
          a1 = a\<lparr>ar_respawn := (\<lambda>c. case ar_respawn a c of None \<Rightarrow> None
                                  | Some t \<Rightarrow> if \<not> now < t then None else Some t)\<rparr>;
          W1 = set_arena i a1 W
      in do {
           s1 \<leftarrow> (if wd_tick W1 mod 2 = 0 \<and> PlayerCount (ar_room a1) > 0 then arenaBroadcast E a1 W1 s
                  else Some s);
           stepArenas E now is (W1, s1)
         })"

text \<open>\<open>order\<close> is the order in which the token table is visited.\<close>

definition worldStep ::
  "web_env \<Rightarrow> string list \<Rightarrow> gotime \<Rightarrow> World \<Rightarrow> 'p conn_store \<Rightarrow> (World \<times> 'p conn_store) option" where
  "worldStep E order now W s =
     (if wd_closed W then Some (W, s)
      else
        let W1 = W\<lparr>wd_tick := wd_tick W + 1\<rparr>;
            (removed, sessions) = RemoveExpired order now (wd_sessions W1);
            (W2, s2) = expireSessions E removed (W1\<lparr>wd_sessions := sessions\<rparr>, s)
        in do {
             (W3, s3) \<leftarrow> stepPlayers E now (tickOrder (wd_tick W2) (we_visit E (dom (wd_players W2)))) (W2, s2);
             stepArenas E now (we_visit E (dom (wd_arenas W3))) (W3, s3)
           })"

text \<open>\<open>Run\<close> enters its loop unless one is running or the world is closed; leaving it clears the flag.\<close>

definition worldRun :: "World \<Rightarrow> World option" where
  "worldRun W = (if wd_running W \<or> wd_closed W then None else Some (W\<lparr>wd_running := True\<rparr>))"

definition worldRunExit :: "World \<Rightarrow> World" where
  "worldRunExit W = W\<lparr>wd_running := False\<rparr>"

fun stopPlayers :: "player list \<Rightarrow> 'p conn_store \<Rightarrow> 'p conn_store" where
  "stopPlayers [] s = s"
| "stopPlayers (p # ps) s = stopPlayers ps (storeStop (pl_conn p) s)"

definition worldClose :: "web_env \<Rightarrow> World \<Rightarrow> 'p conn_store \<Rightarrow> World \<times> 'p conn_store" where
  "worldClose E W s =
     (W\<lparr>wd_closed := True\<rparr>,
      stopPlayers (map (\<lambda>k. the (wd_players W k)) (we_visit E (dom (wd_players W)))) s)"

end
