(* ===== verification/WebArena.thy ===== *)
theory WebArena
  imports WebWorld
begin

text \<open>
  The invariant of the web arena: the rooms, the grids and the table of players tell the same story
  about who is in which arena and where; the players stay inside the walls; the guest sessions, the
  table of names and the connections agree. Every operation keeps it.
\<close>

section \<open>Arenas\<close>

text \<open>The players of the arena \<open>i\<close>, by connection id.\<close>

definition inside :: "World \<Rightarrow> u32 \<Rightarrow> u32 \<rightharpoonup> player" where
  "inside W i k = (case wd_players W k of None \<Rightarrow> None | Some p \<Rightarrow> if pl_roomID p = i then Some p else None)"

definition place :: "player \<Rightarrow> Position" where
  "place p = \<lparr> ps_X = pv_X (pl_view p), ps_Y = pv_Y (pl_view p) \<rparr>"

definition room_agrees :: "u32 \<Rightarrow> Room \<Rightarrow> (u32 \<rightharpoonup> player) \<Rightarrow> bool" where
  "room_agrees i r ins \<longleftrightarrow>
     room_ok r \<and> rm_ID r = i \<and> rm_state r = RoomStateRunning \<and> rm_MaxPlayers r = 8 \<and>
     rm_members r = (\<lambda>k. map_option pl_conn (ins k))"

definition grid_agrees :: "fpu \<Rightarrow> AOIManager \<Rightarrow> (u32 \<rightharpoonup> player) \<Rightarrow> bool" where
  "grid_agrees F am ins \<longleftrightarrow>
     aoi_inv F am \<and> sizes am = (Fin 960, Fin 540, Fin 160, Fin 135) \<and>
     (\<lambda>k. map_option ae_position (am_entities am k)) = (\<lambda>k. map_option place (ins k))"

definition arena_ok :: "fpu \<Rightarrow> u32 \<Rightarrow> arena \<Rightarrow> (u32 \<rightharpoonup> player) \<Rightarrow> bool" where
  "arena_ok F i a ins \<longleftrightarrow>
     room_agrees i (ar_room a) ins \<and> grid_agrees F (ar_aoi a) ins \<and>
     ar_crystals a = startCrystals \<and> dom (ar_respawn a) \<subseteq> cr_ID ` set startCrystals"

definition arenas_ok :: "fpu \<Rightarrow> World \<Rightarrow> bool" where
  "arenas_ok F W \<longleftrightarrow>
     dom (wd_arenas W) = {1, 2} \<and> (\<forall>i a. wd_arenas W i = Some a \<longrightarrow> arena_ok F i a (inside W i))"

text \<open>Players are filed under their connection; one that plays stands inside the walls.\<close>

definition filed :: "u32 \<Rightarrow> player \<Rightarrow> bool" where
  "filed k p \<longleftrightarrow> pv_ID (pl_view p) = k \<and> ic_connID (pl_conn p) = k \<and> pl_roomID p \<in> {0, 1, 2}"

definition steer_ok :: "fpu \<Rightarrow> player \<Rightarrow> bool" where
  "steer_ok F p \<longleftrightarrow> pl_dx p \<noteq> NaN \<and> pl_dy p \<noteq> NaN \<and>
     (exact_fpu F \<longrightarrow> (\<exists>u v. pl_dx p = Fin u \<and> pl_dy p = Fin v \<and> u\<^sup>2 + v\<^sup>2 \<le> 1))"

definition in_walls :: "fpu \<Rightarrow> player \<Rightarrow> bool" where
  "in_walls F p \<longleftrightarrow> steer_ok F p \<and>
     (\<exists>x y. place p = \<lparr> ps_X = Fin x, ps_Y = Fin y \<rparr> \<and> 24 \<le> x \<and> x \<le> 936 \<and> 24 \<le> y \<and> y \<le> 516)"

definition players_filed :: "fpu \<Rightarrow> World \<Rightarrow> bool" where
  "players_filed F W \<longleftrightarrow>
     (\<forall>k p. wd_players W k = Some p \<longrightarrow> filed k p \<and> (pl_roomID p \<noteq> 0 \<longrightarrow> in_walls F p))"

lemma players_filedD:
  "players_filed F W \<Longrightarrow> wd_players W k = Some p \<Longrightarrow> filed k p"
  "players_filed F W \<Longrightarrow> wd_players W k = Some p \<Longrightarrow> pl_roomID p \<noteq> 0 \<Longrightarrow> in_walls F p"
  by (auto simp: players_filed_def)

lemma players_filed_update:
  "players_filed F W \<Longrightarrow> wd_players W' = (wd_players W)(k \<mapsto> p) \<Longrightarrow> filed k p \<Longrightarrow>
   (pl_roomID p \<noteq> 0 \<Longrightarrow> in_walls F p) \<Longrightarrow> players_filed F W'"
  by (auto simp: players_filed_def)

lemma players_filed_delete:
  "players_filed F W \<Longrightarrow> wd_players W' = (wd_players W)(k := None) \<Longrightarrow> players_filed F W'"
  by (auto simp: players_filed_def)

lemma inside_update:
  "wd_players W' = (wd_players W)(k \<mapsto> p) \<Longrightarrow>
   inside W' i = (inside W i)(k := (if pl_roomID p = i then Some p else None))"
  by (auto simp: inside_def fun_eq_iff)

lemma inside_delete:
  "wd_players W' = (wd_players W)(k := None) \<Longrightarrow> inside W' i = (inside W i)(k := None)"
  by (auto simp: inside_def fun_eq_iff)

lemma inside_same: "wd_players W' = wd_players W \<Longrightarrow> inside W' i = inside W i"
  by (auto simp: inside_def fun_eq_iff)

subsection \<open>The grid\<close>

lemma cellFor_inside:
  assumes "sizes am = (Fin 960, Fin 540, Fin 160, Fin 135)" "0 \<le> x" "x < 960" "0 \<le> y" "y < 540"
  shows "\<exists>c. cellFor F \<lparr> ps_X = Fin x, ps_Y = Fin y \<rparr> am = Inr c"
  using assms by (simp add: cellFor_def sizes_def IsNaN_def IsInf_def)

lemma grid_entities:
  assumes "grid_agrees F am ins"
  shows "am_entities am k = None \<longleftrightarrow> ins k = None"
  using assms by (metis grid_agrees_def option.map_disc_iff)

lemma grid_agrees_cong:
  "grid_agrees F am ins \<Longrightarrow> (\<And>k. map_option place (ins' k) = map_option place (ins k)) \<Longrightarrow> grid_agrees F am ins'"
  by (simp add: grid_agrees_def)

lemma RemoveEntity_entities: "am_entities (snd (RemoveEntity k am)) = (am_entities am)(k := None)"
  by (auto simp: RemoveEntity_def Let_def fun_eq_iff split: option.splits)

lemma sizes_Remove: "sizes (snd (RemoveEntity k am)) = sizes am"
  using sizes_step [OF aoi_step.step_remove, of k am "fst (RemoveEntity k am)" "snd (RemoveEntity k am)"] by simp

lemma grid_agrees_remove:
  assumes "grid_agrees F am ins"
  shows "grid_agrees F (snd (RemoveEntity k am)) (ins(k := None))"
proof -
  have "aoi_inv F (snd (RemoveEntity k am))"
    using assms aoi_inv_remove [of F am k "fst (RemoveEntity k am)"] by (simp add: grid_agrees_def)
  then show ?thesis
    using assms by (auto simp: grid_agrees_def RemoveEntity_entities sizes_Remove fun_eq_iff)
qed

lemma grid_agrees_add:
  assumes "grid_agrees F am ins" "ins k = None" "place p = \<lparr> ps_X = Fin x, ps_Y = Fin y \<rparr>"
    and "0 \<le> x" "x < 960" "0 \<le> y" "y < 540"
  shows "grid_agrees F (snd (AddEntity F k (place p) am)) (ins(k \<mapsto> p))"
proof -
  let ?am = "snd (AddEntity F k (place p) am)"
  obtain c where c: "cellFor F (place p) am = Inr c"
    using cellFor_inside [of am x y F] assms by (auto simp: grid_agrees_def)
  have none: "am_entities am k = None" using grid_entities [OF assms(1)] assms(2) by simp
  have "aoi_inv F ?am" and "sizes ?am = sizes am"
    using assms(1) aoi_inv_add [of F am k "place p" "fst (AddEntity F k (place p) am)"]
      sizes_step [OF aoi_step.step_add, of F k "place p" am "fst (AddEntity F k (place p) am)" ?am]
    by (simp_all add: grid_agrees_def)
  moreover have "am_entities ?am = (am_entities am)(k \<mapsto> \<lparr> ae_id = k, ae_position = place p, ae_cell = c \<rparr>)"
    by (simp add: AddEntity_def none c)
  ultimately show ?thesis
    using assms(1) by (auto simp: grid_agrees_def fun_eq_iff)
qed

lemma grid_agrees_move:
  assumes "grid_agrees F am ins" "ins k = Some p0" "place p = \<lparr> ps_X = Fin x, ps_Y = Fin y \<rparr>"
    and "0 \<le> x" "x < 960" "0 \<le> y" "y < 540"
    and "MoveEntity visit F k (place p) am = Some (r, am')"
  shows "grid_agrees F am' (ins(k \<mapsto> p))"
proof -
  obtain c where c: "cellFor F (place p) am = Inr c"
    using cellFor_inside [of am x y F] assms by (auto simp: grid_agrees_def)
  obtain e where e: "am_entities am k = Some e" using grid_entities [OF assms(1), of k] assms(2) by auto
  then have am': "am' = moved k e (place p) c am"
    using assms(8) c by (auto simp: MoveEntity_moved Option.bind_eq_Some_conv)
  have "aoi_inv F am'" "sizes am' = sizes am"
    using assms(1) aoi_inv_moved [OF _ e c] sizes_step [OF aoi_step.step_move [OF assms(8)]]
    by (simp_all add: grid_agrees_def am')
  then show ?thesis
    using assms(1) by (auto simp: grid_agrees_def am' fun_eq_iff)
qed

subsection \<open>The room\<close>

lemma room_agrees_cong:
  "room_agrees i r ins \<Longrightarrow> (\<And>k. map_option pl_conn (ins' k) = map_option pl_conn (ins k)) \<Longrightarrow> room_agrees i r ins'"
  by (simp add: room_agrees_def)

lemma room_agrees_leave:
  assumes "room_agrees i r ins"
  shows "room_agrees i (snd (Leave k r)) (ins(k := None))"
  using assms room_ok_Leave [of r k] by (auto simp: room_agrees_def Leave_def fun_eq_iff)

lemma room_agrees_join:
  assumes "room_agrees i r ins" "Join (Some c) r = (None, r')" "pl_conn p = c" "ic_connID c = k"
  shows "room_agrees i r' (ins(k \<mapsto> p))" "ins k = None"
proof -
  have r': "r' = r\<lparr>rm_members := (rm_members r)(k \<mapsto> c)\<rparr>" and "rm_members r k = None"
    using assms(2,4) by (auto simp: Join_def split: if_splits)
  then show "ins k = None" using assms(1) by (simp add: room_agrees_def)
  have "room_ok r'" using room_ok_Join [of r "Some c"] assms(1,2) by (simp add: room_agrees_def)
  then show "room_agrees i r' (ins(k \<mapsto> p))"
    using assms(1,3) by (auto simp: room_agrees_def r' fun_eq_iff)
qed

subsection \<open>Both\<close>

lemma arena_ok_cong:
  assumes "arena_ok F i a ins" "\<And>k. map_option pl_conn (ins' k) = map_option pl_conn (ins k)"
    "\<And>k. map_option place (ins' k) = map_option place (ins k)"
  shows "arena_ok F i a ins'"
  using assms(1) room_agrees_cong [OF _ assms(2)] grid_agrees_cong [OF _ assms(3)] by (auto simp: arena_ok_def)

lemma arena_ok_leave:
  "arena_ok F i a ins \<Longrightarrow>
   arena_ok F i (a\<lparr>ar_room := snd (Leave k (ar_room a)), ar_aoi := snd (RemoveEntity k (ar_aoi a))\<rparr>) (ins(k := None))"
  by (simp add: arena_ok_def room_agrees_leave grid_agrees_remove)

lemma arenas_okD:
  "arenas_ok F W \<Longrightarrow> wd_arenas W i = Some a \<Longrightarrow> arena_ok F i a (inside W i)"
  "arenas_ok F W \<Longrightarrow> (wd_arenas W i = None) = (i \<notin> {1, 2})"
  by (auto simp: arenas_ok_def domIff)

lemma arenas_ok_same:
  "arenas_ok F W \<Longrightarrow> wd_arenas W' = wd_arenas W \<Longrightarrow> wd_players W' = wd_players W \<Longrightarrow> arenas_ok F W'"
  using inside_same [of W' W] by (simp add: arenas_ok_def)

text \<open>An operation on one player that stays where it is.\<close>

lemma arenas_ok_player:
  assumes "arenas_ok F W" "wd_arenas W' = wd_arenas W" "wd_players W' = (wd_players W)(k \<mapsto> p')"
    and "wd_players W k = Some p" "pl_roomID p' = pl_roomID p" "pl_conn p' = pl_conn p" "place p' = place p"
  shows "arenas_ok F W'"
  unfolding arenas_ok_def
proof (intro conjI allI impI)
  show "dom (wd_arenas W') = {1, 2}" using assms(1,2) by (simp add: arenas_ok_def)
  fix i a assume "wd_arenas W' i = Some a"
  then have "arena_ok F i a (inside W i)" using arenas_okD(1) [OF assms(1)] assms(2) by simp
  then show "arena_ok F i a (inside W' i)"
    by (rule arena_ok_cong) (use assms(4-7) in \<open>auto simp: inside_update [OF assms(3)] inside_def\<close>)
qed

text \<open>An operation on one player and its own arena.\<close>

lemma arenas_ok_arena:
  assumes "arenas_ok F W" "wd_arenas W' = (wd_arenas W)(i \<mapsto> a)" "i \<in> {1, 2}"
    and "\<And>j. j \<in> {1, 2} \<Longrightarrow> j \<noteq> i \<Longrightarrow> inside W' j = inside W j" "arena_ok F i a (inside W' i)"
  shows "arenas_ok F W'"
  unfolding arenas_ok_def
proof (intro conjI allI impI)
  show "dom (wd_arenas W') = {1, 2}" using assms(1-3) by (auto simp: arenas_ok_def)
  show "arena_ok F j b (inside W' j)" if "wd_arenas W' j = Some b" for j b
    using that arenas_okD [OF assms(1), of j] assms(2,5) assms(4) [of j] by (cases "j = i") auto
qed


section \<open>What the operations do to the world\<close>

text \<open>Leaving, without the event it sends.\<close>

definition outside :: "player \<Rightarrow> player" where
  "outside p = p\<lparr>pl_roomID := 0, pl_dx := Fin 0, pl_dy := Fin 0\<rparr>"

definition leftArena :: "u32 \<Rightarrow> arena \<Rightarrow> arena" where
  "leftArena k a = a\<lparr>ar_room := snd (Leave k (ar_room a)), ar_aoi := snd (RemoveEntity k (ar_aoi a))\<rparr>"

definition leftWorld :: "u32 \<Rightarrow> player \<Rightarrow> World \<Rightarrow> World" where
  "leftWorld k p W = set_player k (outside p)
     (case wd_arenas W (pl_roomID p) of
        None \<Rightarrow> W
      | Some a \<Rightarrow> set_arena (pl_roomID p) (leftArena (pv_ID (pl_view p)) a) W)"

lemma worldLeave_world:
  "wd_players W k = Some p \<Longrightarrow> fst (worldLeave E k W s) = leftWorld k p W"
  by (auto simp: worldLeave_def leftWorld_def leftArena_def outside_def Let_def split: option.splits)

lemma leftWorld_frame [simp]:
  "wd_sessions (leftWorld k p W) = wd_sessions W" "wd_names (leftWorld k p W) = wd_names W"
  "wd_nextGuest (leftWorld k p W) = wd_nextGuest W" "wd_tick (leftWorld k p W) = wd_tick W"
  "wd_closed (leftWorld k p W) = wd_closed W" "wd_running (leftWorld k p W) = wd_running W"
  by (auto simp: leftWorld_def split: option.splits)

lemma leftWorld_players: "wd_players (leftWorld k p W) = (wd_players W)(k \<mapsto> outside p)"
  by (auto simp: leftWorld_def split: option.splits)

lemma leftWorld_arenas:
  "wd_arenas (leftWorld k p W) =
     (wd_arenas W)(pl_roomID p := map_option (leftArena (pv_ID (pl_view p))) (wd_arenas W (pl_roomID p)))"
  by (auto simp: leftWorld_def fun_eq_iff split: option.splits)

lemma outside_sel [simp]:
  "pl_roomID (outside p) = 0" "pl_view (outside p) = pl_view p" "pl_conn (outside p) = pl_conn p"
  "pl_inputAt (outside p) = pl_inputAt p" "pl_connectedAt (outside p) = pl_connectedAt p"
  "pl_dx (outside p) = Fin 0" "pl_dy (outside p) = Fin 0"
  by (simp_all add: outside_def)

definition core_ok :: "fpu \<Rightarrow> World \<Rightarrow> bool" where
  "core_ok F W \<longleftrightarrow> players_filed F W \<and> arenas_ok F W"

lemma core_okD: "core_ok F W \<Longrightarrow> players_filed F W" "core_ok F W \<Longrightarrow> arenas_ok F W"
  by (simp_all add: core_ok_def)

lemma core_ok_same:
  "core_ok F W \<Longrightarrow> wd_arenas W' = wd_arenas W \<Longrightarrow> wd_players W' = wd_players W \<Longrightarrow> core_ok F W'"
  using arenas_ok_same [of F W W'] by (simp add: core_ok_def players_filed_def)

lemma core_ok_player:
  assumes "core_ok F W" "wd_arenas W' = wd_arenas W" "wd_players W' = (wd_players W)(k \<mapsto> p')"
    and "wd_players W k = Some p" "pl_roomID p' = pl_roomID p" "pl_conn p' = pl_conn p" "place p' = place p"
    and "pv_ID (pl_view p') = pv_ID (pl_view p)" "steer_ok F p \<Longrightarrow> steer_ok F p'"
  shows "core_ok F W'"
proof -
  have "filed k p'" using players_filedD(1) [OF core_okD(1) [OF assms(1)] assms(4)] assms(5,6,8) by (simp add: filed_def)
  moreover have "in_walls F p'" if "pl_roomID p' \<noteq> 0"
    using players_filedD(2) [OF core_okD(1) [OF assms(1)] assms(4)] that assms(5,7,9) by (auto simp: in_walls_def)
  ultimately have "players_filed F W'"
    using players_filed_update [OF core_okD(1) [OF assms(1)] assms(3)] by blast
  then show ?thesis
    using arenas_ok_player [OF core_okD(2) [OF assms(1)] assms(2-7)] by (simp add: core_ok_def)
qed

lemma inside_other: "wd_players W k = Some p \<Longrightarrow> pl_roomID p \<noteq> i \<Longrightarrow> inside W i k = None"
  by (simp add: inside_def)

lemma inside_leftWorld:
  assumes "wd_players W k = Some p" "i \<noteq> 0"
  shows "inside (leftWorld k p W) i = (inside W i)(k := None)"
  using inside_update [OF leftWorld_players, of k p W i] assms(2) by simp

lemma core_ok_left:
  assumes "core_ok F W" "wd_players W k = Some p"
  shows "core_ok F (leftWorld k p W)"
proof -
  note inv = core_okD [OF assms(1)]
  have f: "filed k p" by (rule players_filedD(1) [OF inv(1) assms(2)])
  have "players_filed F (leftWorld k p W)"
    by (rule players_filed_update [OF inv(1) leftWorld_players]) (use f in \<open>simp_all add: filed_def\<close>)
  moreover have "arenas_ok F (leftWorld k p W)"
    unfolding arenas_ok_def
  proof (intro conjI allI impI)
    show "dom (wd_arenas (leftWorld k p W)) = {1, 2}"
      using inv(2) by (auto simp: leftWorld_arenas arenas_ok_def domIff set_eq_iff split: if_splits)
  next
    fix i a assume a: "wd_arenas (leftWorld k p W) i = Some a"
    show "arena_ok F i a (inside (leftWorld k p W) i)"
    proof (cases "i = pl_roomID p")
      case True
      then obtain b where b: "wd_arenas W i = Some b" "a = leftArena k b"
        using a f by (auto simp: leftWorld_arenas filed_def)
      then have "i \<noteq> 0" using arenas_okD(2) [OF inv(2), of i] by auto
      then show ?thesis
        using arena_ok_leave [OF arenas_okD(1) [OF inv(2) b(1)], of k]
        by (simp add: inside_leftWorld [OF assms(2)] b(2) leftArena_def)
    next
      case False
      then have b: "wd_arenas W i = Some a" using a by (simp add: leftWorld_arenas)
      then have "i \<noteq> 0" using arenas_okD(2) [OF inv(2), of i] by auto
      moreover have "(inside W i)(k := None) = inside W i"
        using inside_other [OF assms(2), of i] False by (simp add: fun_upd_idem_iff)
      ultimately show ?thesis
        using arenas_okD(1) [OF inv(2) b] inside_leftWorld [OF assms(2)] by simp
    qed
  qed
  ultimately show ?thesis by (simp add: core_ok_def)
qed

lemma core_ok_delete:
  assumes "core_ok F W" "wd_players W k = Some p" "pl_roomID p = 0"
    and "wd_players W' = (wd_players W)(k := None)" "wd_arenas W' = wd_arenas W"
  shows "core_ok F W'"
proof -
  note inv = core_okD [OF assms(1)]
  have "inside W' i = inside W i" if "i \<noteq> 0" for i
    using inside_delete [OF assms(4), of i] inside_other [OF assms(2), of i] assms(3) that by (simp add: fun_upd_idem_iff)
  moreover have "i \<noteq> 0" if "wd_arenas W i = Some a" for i a
    using arenas_okD(2) [OF inv(2), of i] that by auto
  ultimately have "arenas_ok F W'"
    using inv(2) assms(5) by (auto simp: arenas_ok_def)
  then show ?thesis using players_filed_delete [OF inv(1) assms(4)] by (simp add: core_ok_def)
qed


subsection \<open>Joining\<close>

definition arrived :: "u32 \<Rightarrow> player \<Rightarrow> player" where
  "arrived i p = (outside p)\<lparr>pl_roomID := i,
     pl_view := (pl_view p)\<lparr>pv_X := Fin 130, pv_Y := Fin 270, pv_Score := 0\<rparr>\<rparr>"

lemma arrived_sel [simp]:
  "pl_roomID (arrived i p) = i" "pl_conn (arrived i p) = pl_conn p" "pl_dx (arrived i p) = Fin 0"
  "pl_dy (arrived i p) = Fin 0" "pv_ID (pl_view (arrived i p)) = pv_ID (pl_view p)"
  "pv_Name (pl_view (arrived i p)) = pv_Name (pl_view p)" "pv_Seq (pl_view (arrived i p)) = pv_Seq (pl_view p)"
  "pv_Score (pl_view (arrived i p)) = 0" "place (arrived i p) = \<lparr> ps_X = Fin 130, ps_Y = Fin 270 \<rparr>"
  "pv_X (pl_view (arrived i p)) = Fin 130" "pv_Y (pl_view (arrived i p)) = Fin 270"
  by (simp_all add: arrived_def place_def)

lemma enterArena_world:
  assumes "wd_players W k = Some p" "pl_roomID p \<noteq> i"
  obtains W' where "fst (enterArena E k i (set_arena i a W) s) = W'"
    "wd_players W' = (wd_players W)(k \<mapsto> arrived i p)"
    "wd_arenas W' = (wd_arenas (leftWorld k p W))(i \<mapsto>
       a\<lparr>ar_aoi := snd (AddEntity (we_fpu E) (pv_ID (pl_view p)) (place (arrived i p)) (ar_aoi a))\<rparr>)"
    "wd_sessions W' = wd_sessions W" "wd_names W' = wd_names W" "wd_nextGuest W' = wd_nextGuest W"
    "wd_tick W' = wd_tick W" "wd_closed W' = wd_closed W" "wd_running W' = wd_running W"
proof -
  let ?W = "set_arena i a W"
  obtain s1 where l: "worldLeave E k ?W s = (leftWorld k p ?W, s1)"
    using worldLeave_world [of ?W k p E s] assms(1) by (cases "worldLeave E k ?W s") simp
  have a: "wd_arenas (leftWorld k p ?W) i = Some a"
    using assms(2) by (auto simp: leftWorld_arenas)
  have e: "(outside p)\<lparr>pl_roomID := i, pl_view := (pl_view p)\<lparr>pv_X := Fin 130, pv_Y := Fin 270, pv_Score := 0\<rparr>,
      pl_dx := Fin 0, pl_dy := Fin 0\<rparr> = arrived i p"
    by (simp add: arrived_def outside_def)
  let ?a = "a\<lparr>ar_aoi := snd (AddEntity (we_fpu E) (pv_ID (pl_view p)) (place (arrived i p)) (ar_aoi a))\<rparr>"
  have "fst (enterArena E k i ?W s) = set_arena i ?a (set_player k (arrived i p) (leftWorld k p ?W))"
    by (simp add: enterArena_def l Let_def leftWorld_players a e)
  moreover have "(wd_arenas (leftWorld k p ?W))(i \<mapsto> ?a) = (wd_arenas (leftWorld k p W))(i \<mapsto> ?a)"
    using assms(2) by (auto simp: leftWorld_arenas fun_eq_iff)
  ultimately show ?thesis
    by (intro that [of "set_arena i ?a (set_player k (arrived i p) (leftWorld k p ?W))"])
       (simp_all add: leftWorld_players)
qed

lemma core_ok_enter:
  assumes "core_ok (we_fpu E) W" "wd_players W k = Some p" "wd_arenas W i = Some a" "pl_roomID p \<noteq> i"
    and "Join (Some (pl_conn p)) (ar_room a) = (None, room)"
  shows "core_ok (we_fpu E) (fst (enterArena E k i (set_arena i (a\<lparr>ar_room := room\<rparr>) W) s))"
proof -
  let ?F = "we_fpu E" and ?L = "leftWorld k p W"
  note inv = core_okD [OF assms(1)]
  have f: "filed k p" by (rule players_filedD(1) [OF inv(1) assms(2)])
  have i: "i \<in> {1, 2}" using arenas_okD(2) [OF inv(2), of i] assms(3) by auto
  note left = core_okD [OF core_ok_left [OF assms(1,2)]]
  obtain W' where W': "fst (enterArena E k i (set_arena i (a\<lparr>ar_room := room\<rparr>) W) s) = W'"
    "wd_players W' = (wd_players W)(k \<mapsto> arrived i p)"
    "wd_arenas W' = (wd_arenas ?L)(i \<mapsto> a\<lparr>ar_room := room,
       ar_aoi := snd (AddEntity ?F (pv_ID (pl_view p)) (place (arrived i p)) (ar_aoi a))\<rparr>)"
    by (rule enterArena_world [OF assms(2,4), of E "a\<lparr>ar_room := room\<rparr>" s]) simp
  have P: "wd_players W' = (wd_players ?L)(k \<mapsto> arrived i p)" by (simp add: W'(2) leftWorld_players)
  have ins: "inside W' j = (inside ?L j)(k := (if j = i then Some (arrived i p) else None))" for j
    using inside_update [OF P, of j] by auto
  have old: "arena_ok ?F i a (inside W i)" by (rule arenas_okD(1) [OF inv(2) assms(3)])
  have insL: "inside ?L i = inside W i"
    using inside_leftWorld [OF assms(2), of i] inside_other [OF assms(2,4)] i by (auto simp: fun_upd_idem_iff)
  have room: "room_agrees i room ((inside W i)(k \<mapsto> arrived i p))" "inside W i k = None"
    using room_agrees_join [of i "ar_room a" "inside W i" "pl_conn p" room "arrived i p" k] old assms(5) f
    by (simp_all add: arena_ok_def filed_def)
  have grid: "grid_agrees ?F (snd (AddEntity ?F (pv_ID (pl_view p)) (place (arrived i p)) (ar_aoi a)))
      ((inside W i)(k \<mapsto> arrived i p))"
    using grid_agrees_add [of ?F "ar_aoi a" "inside W i" k "arrived i p" 130 270] old room(2) f
    by (simp add: arena_ok_def filed_def)
  have "arenas_ok ?F W'"
  proof (rule arenas_ok_arena [OF left(2) W'(3) i])
    show "inside W' j = inside ?L j" if "j \<in> {1, 2}" "j \<noteq> i" for j
    proof -
      have "inside ?L j k = None"
        by (rule inside_other [of ?L k "outside p"]) (use that(1) in \<open>auto simp: leftWorld_players\<close>)
      then show ?thesis using that(2) by (simp add: ins fun_upd_idem_iff)
    qed
    show "arena_ok ?F i (a\<lparr>ar_room := room,
        ar_aoi := snd (AddEntity ?F (pv_ID (pl_view p)) (place (arrived i p)) (ar_aoi a))\<rparr>) (inside W' i)"
      using old room(1) grid by (simp add: arena_ok_def ins insL)
  qed
  moreover have "players_filed ?F W'"
    by (rule players_filed_update [OF inv(1) W'(2)]) (use f i in \<open>auto simp: filed_def in_walls_def steer_ok_def\<close>)
  ultimately show ?thesis by (simp add: core_ok_def W'(1))
qed


subsection \<open>Moving and collecting\<close>

text \<open>What a time step leaves alone: everything but positions, scores and crystals.\<close>

definition badge :: "player \<Rightarrow> rune list \<times> u32 \<times> iconn \<times> u32 \<times> gotime" where
  "badge p = (pv_Name (pl_view p), pl_roomID p, pl_conn p, pv_Seq (pl_view p), pl_connectedAt p)"

definition keeps :: "World \<Rightarrow> World \<Rightarrow> bool" where
  "keeps W W' \<longleftrightarrow>
     wd_sessions W' = wd_sessions W \<and> wd_names W' = wd_names W \<and> wd_nextGuest W' = wd_nextGuest W \<and>
     wd_tick W' = wd_tick W \<and> wd_closed W' = wd_closed W \<and> wd_running W' = wd_running W \<and>
     (\<forall>k. map_option badge (wd_players W' k) = map_option badge (wd_players W k))"

lemma keeps_refl [simp]: "keeps W W" by (simp add: keeps_def)

lemma keeps_trans: "keeps W1 W2 \<Longrightarrow> keeps W2 W3 \<Longrightarrow> keeps W1 W3" by (simp add: keeps_def)

lemma keeps_player:
  assumes "keeps W W'" "wd_players W k = Some p"
  obtains p' where "wd_players W' k = Some p'" "badge p' = badge p"
proof -
  have "map_option badge (wd_players W' k) = Some (badge p)" using assms by (simp add: keeps_def)
  then show ?thesis using that by auto
qed

lemma keeps_dom: "keeps W W' \<Longrightarrow> dom (wd_players W') = dom (wd_players W)"
proof -
  assume "keeps W W'"
  then have "map_option badge (wd_players W' k) = map_option badge (wd_players W k)" for k
    by (simp add: keeps_def)
  then have "wd_players W' k = None \<longleftrightarrow> wd_players W k = None" for k
    by (metis option.map_disc_iff)
  then show ?thesis by (auto simp: dom_def)
qed

text \<open>A change of one player's view and of its arena.\<close>

lemma keeps_change:
  "wd_players W k = Some p \<Longrightarrow> badge p' = badge p \<Longrightarrow> keeps W (set_arena i a (set_player k p' W))"
  by (simp add: keeps_def)

lemma core_ok_change:
  assumes "core_ok F W" "wd_players W k = Some p" "wd_arenas W (pl_roomID p) = Some a"
    and "badge p' = badge p" "pv_ID (pl_view p') = pv_ID (pl_view p)" "in_walls F p'"
    and "ar_room a' = ar_room a" "ar_crystals a' = ar_crystals a" "dom (ar_respawn a') \<subseteq> cr_ID ` set startCrystals"
    and "grid_agrees F (ar_aoi a') ((inside W (pl_roomID p))(k \<mapsto> p'))"
  shows "core_ok F (set_arena (pl_roomID p) a' (set_player k p' W))"
proof -
  let ?i = "pl_roomID p"
  define W' where "W' = set_arena (pl_roomID p) a' (set_player k p' W)"
  have W': "wd_players W' = (wd_players W)(k \<mapsto> p')" "wd_arenas W' = (wd_arenas W)(?i \<mapsto> a')"
    by (simp_all add: W'_def)
  note inv = core_okD [OF assms(1)]
  have f: "filed k p" by (rule players_filedD(1) [OF inv(1) assms(2)])
  have same: "pl_roomID p' = ?i" "pl_conn p' = pl_conn p" using assms(4) by (simp_all add: badge_def)
  have i: "?i \<in> {1, 2}" using arenas_okD(2) [OF inv(2), of ?i] assms(3) by auto
  have ok: "arena_ok F ?i a (inside W ?i)" by (rule arenas_okD(1) [OF inv(2) assms(3)])
  have ins: "inside W' j = (inside W j)(k := (if ?i = j then Some p' else None))" for j
    using inside_update [OF W'(1), of j] same by simp
  have "room_agrees ?i (ar_room a) ((inside W ?i)(k \<mapsto> p'))"
    by (rule room_agrees_cong [where ins = "inside W ?i"])
       (use ok assms(2) same in \<open>auto simp: arena_ok_def inside_def\<close>)
  then have "arena_ok F ?i a' (inside W' ?i)"
    using assms(7-10) ok by (simp add: arena_ok_def ins)
  moreover have "inside W' j = inside W j" if "j \<noteq> ?i" for j
    using that inside_other [OF assms(2), of j] by (simp add: ins fun_upd_idem_iff)
  ultimately have "arenas_ok F W'"
    using arenas_ok_arena [OF inv(2) W'(2) i] by blast
  moreover have "players_filed F W'"
    by (rule players_filed_update [OF inv(1) W'(1)])
       (use f assms(5,6) same in \<open>simp_all add: filed_def\<close>)
  ultimately show ?thesis unfolding core_ok_def W'_def [symmetric] by blast
qed

text \<open>The position of a player after a step of its movement.\<close>

definition moveTo :: "fpu \<Rightarrow> player \<Rightarrow> player" where
  "moveTo F p = p\<lparr>pl_view := (pl_view p)\<lparr>pv_X := clampX (advance F (pv_X (pl_view p)) (pl_dx p)),
     pv_Y := clampY (advance F (pv_Y (pl_view p)) (pl_dy p))\<rparr>\<rparr>"

lemma moveTo_sel [simp]:
  "badge (moveTo F p) = badge p" "pv_ID (pl_view (moveTo F p)) = pv_ID (pl_view p)"
  "pl_roomID (moveTo F p) = pl_roomID p" "pl_conn (moveTo F p) = pl_conn p" "pl_dx (moveTo F p) = pl_dx p"
  "pl_dy (moveTo F p) = pl_dy p" "pv_Score (pl_view (moveTo F p)) = pv_Score (pl_view p)"
  by (simp_all add: moveTo_def badge_def)

lemma advance_num: "round_num F \<Longrightarrow> d \<noteq> NaN \<Longrightarrow> advance F (Fin x) d \<noteq> NaN"
  unfolding advance_def TickRate_def by (intro fadd_num fdiv_num fmul_num) simp_all

lemma in_walls_moveTo:
  assumes "round_num F" "in_walls F p"
  shows "in_walls F (moveTo F p)"
proof -
  obtain x y where xy: "pv_X (pl_view p) = Fin x" "pv_Y (pl_view p) = Fin y" "pl_dx p \<noteq> NaN" "pl_dy p \<noteq> NaN"
    using assms(2) by (auto simp: in_walls_def steer_ok_def place_def)
  obtain x' where x': "clampX (advance F (Fin x) (pl_dx p)) = Fin x'" "24 \<le> x'" "x' \<le> 936"
    using clamp_range [OF advance_num [OF assms(1) xy(3)], of 24 "WorldWidth - 24" x]
    by (auto simp: clampX_def WorldWidth_def)
  obtain y' where y': "clampY (advance F (Fin y) (pl_dy p)) = Fin y'" "24 \<le> y'" "y' \<le> 516"
    using clamp_range [OF advance_num [OF assms(1) xy(4)], of 24 "WorldHeight - 24" y]
    by (auto simp: clampY_def WorldHeight_def)
  have "place (moveTo F p) = \<lparr> ps_X = Fin x', ps_Y = Fin y' \<rparr>" using xy x' y' by (simp add: place_def moveTo_def)
  moreover have "steer_ok F (moveTo F p)" using assms(2) by (simp add: in_walls_def steer_ok_def)
  ultimately show ?thesis using x' y' by (simp add: in_walls_def)
qed

lemma movePlayer_world:
  assumes "wd_players W k = Some p" "wd_arenas W (pl_roomID p) = Some a" "movePlayer E now k W = Some W'"
  obtains (stays) "\<not> now - pl_inputAt p \<le> ms250" "W' = W"
  | (moves) r aoi where "now - pl_inputAt p \<le> ms250"
      "MoveEntity (we_visit E) (we_fpu E) (pv_ID (pl_view p)) (place (moveTo (we_fpu E) p)) (ar_aoi a) = Some (r, aoi)"
      "W' = set_arena (pl_roomID p) (a\<lparr>ar_aoi := aoi\<rparr>) (set_player k (moveTo (we_fpu E) p) W)"
proof (cases "now - pl_inputAt p \<le> ms250")
  case True
  then obtain r aoi where
    "MoveEntity (we_visit E) (we_fpu E) (pv_ID (pl_view p)) (place (moveTo (we_fpu E) p)) (ar_aoi a) = Some (r, aoi)"
    "W' = set_arena (pl_roomID p) (a\<lparr>ar_aoi := aoi\<rparr>) (set_player k (moveTo (we_fpu E) p) W)"
    using assms by (auto simp: movePlayer_def Let_def place_def moveTo_def Option.bind_eq_Some_conv)
  with True show ?thesis by (rule moves)
next
  case False
  then show ?thesis using assms stays by (simp add: movePlayer_def Let_def)
qed

lemma movePlayer_ok:
  assumes "core_ok (we_fpu E) W" "round_num (we_fpu E)" "wd_players W k = Some p" "wd_arenas W (pl_roomID p) = Some a"
    and "movePlayer E now k W = Some W'"
  shows "core_ok (we_fpu E) W' \<and> keeps W W'"
  using assms(3-5)
proof (cases rule: movePlayer_world)
  case (moves r aoi)
  let ?F = "we_fpu E" and ?p = "moveTo (we_fpu E) p"
  note inv = core_okD [OF assms(1)]
  have f: "filed k p" by (rule players_filedD(1) [OF inv(1) assms(3)])
  have ok: "arena_ok ?F (pl_roomID p) a (inside W (pl_roomID p))" by (rule arenas_okD(1) [OF inv(2) assms(4)])
  have "pl_roomID p \<noteq> 0" using arenas_okD(2) [OF inv(2), of "pl_roomID p"] assms(4) by auto
  then have walls: "in_walls ?F ?p"
    using in_walls_moveTo [OF assms(2)] players_filedD(2) [OF inv(1) assms(3)] by blast
  then obtain x y where xy: "place ?p = \<lparr> ps_X = Fin x, ps_Y = Fin y \<rparr>" "24 \<le> x" "x \<le> 936" "24 \<le> y" "y \<le> 516"
    by (auto simp: in_walls_def)
  have "grid_agrees ?F aoi ((inside W (pl_roomID p))(k \<mapsto> ?p))"
    by (rule grid_agrees_move [of ?F "ar_aoi a" _ k p ?p x y "we_visit E" r])
       (use ok xy moves(2) f assms(3) in \<open>auto simp: arena_ok_def filed_def inside_def\<close>)
  then have "core_ok ?F W'"
    unfolding moves(3) using ok walls by (intro core_ok_change [OF assms(1,3,4)]) (simp_all add: arena_ok_def)
  moreover have "keeps W W'" unfolding moves(3) by (rule keeps_change [OF assms(3)]) simp
  ultimately show ?thesis by blast
qed (use assms(1) in simp)


text \<open>The crystals within reach of a player, and what collecting them does.\<close>

definition near :: "fpu \<Rightarrow> player \<Rightarrow> Crystal \<Rightarrow> bool" where
  "near F p c \<longleftrightarrow>
     fle (Hypot F (fsub F (pv_X (pl_view p)) (cr_X c)) (fsub F (pv_Y (pl_view p)) (cr_Y c))) (Fin 25)"

definition pickable :: "fpu \<Rightarrow> player \<Rightarrow> arena \<Rightarrow> Crystal list \<Rightarrow> Crystal list" where
  "pickable F p a cs = filter (\<lambda>c. ar_respawn a (cr_ID c) = None \<and> near F p c) cs"

definition score :: "Crystal list \<Rightarrow> player \<Rightarrow> player" where
  "score cs p = p\<lparr>pl_view := (pl_view p)\<lparr>pv_Score := pv_Score (pl_view p) + of_nat (length cs)\<rparr>\<rparr>"

definition hide :: "gotime \<Rightarrow> Crystal list \<Rightarrow> arena \<Rightarrow> arena" where
  "hide t cs a = a\<lparr>ar_respawn := (\<lambda>c. if c \<in> cr_ID ` set cs then Some t else ar_respawn a c)\<rparr>"

lemma score_sel [simp]:
  "badge (score cs p) = badge p" "pv_ID (pl_view (score cs p)) = pv_ID (pl_view p)"
  "pl_roomID (score cs p) = pl_roomID p" "place (score cs p) = place p" "pl_conn (score cs p) = pl_conn p"
  "pl_dx (score cs p) = pl_dx p" "pl_dy (score cs p) = pl_dy p"
  "pv_Score (pl_view (score cs p)) = pv_Score (pl_view p) + of_nat (length cs)"
  by (simp_all add: score_def badge_def place_def)

lemma hide_sel [simp]:
  "ar_room (hide t cs a) = ar_room a" "ar_aoi (hide t cs a) = ar_aoi a" "ar_crystals (hide t cs a) = ar_crystals a"
  by (simp_all add: hide_def)

lemma score_hide_Nil [simp]: "score [] p = p" "hide t [] a = a"
  by (simp_all add: score_def hide_def)

lemma score_hide_Cons:
  "score cs (score [c] p) = score (c # cs) p" "hide t cs (hide t [c] a) = hide t (c # cs) a"
  by (auto simp: score_def hide_def fun_eq_iff)

lemma near_score [simp]: "near F (score cs p) c = near F p c"
  by (simp add: near_def score_def)

lemma pickable_hide:
  assumes "cr_ID c \<notin> cr_ID ` set cs"
  shows "pickable F (score [c] p) (hide t [c] a) cs = pickable F p a cs"
proof -
  have "cr_ID x \<noteq> cr_ID c" if "x \<in> set cs" for x using assms that by (metis image_eqI)
  then show ?thesis by (auto simp: pickable_def hide_def intro!: filter_cong)
qed

lemma collect_world:
  "wd_players W k = Some p \<Longrightarrow> wd_arenas W (pl_roomID p) = Some a \<Longrightarrow> distinct (map cr_ID cs) \<Longrightarrow>
   fst (collect E now k cs (W, s)) =
     set_arena (pl_roomID p) (hide (now + seconds5) (pickable (we_fpu E) p a cs) a)
       (set_player k (score (pickable (we_fpu E) p a cs) p) W)"
proof (induction cs arbitrary: W s p a)
  case Nil
  then show ?case by (simp add: pickable_def map_upd_triv)
next
  case (Cons c cs)
  show ?case
  proof (cases "ar_respawn a (cr_ID c) = None \<and> near (we_fpu E) p c")
    case True
    let ?W = "set_arena (pl_roomID p) (hide (now + seconds5) [c] a) (set_player k (score [c] p) W)"
    have one: "p\<lparr>pl_view := (pl_view p)\<lparr>pv_Score := pv_Score (pl_view p) + 1\<rparr>\<rparr> = score [c] p"
      "a\<lparr>ar_respawn := (ar_respawn a)(cr_ID c \<mapsto> now + seconds5)\<rparr> = hide (now + seconds5) [c] a"
      by (auto simp: score_def hide_def fun_eq_iff)
    have first: "pickable (we_fpu E) p a (c # cs) = c # pickable (we_fpu E) p a cs" using True by (simp add: pickable_def)
    have rest: "pickable (we_fpu E) (score [c] p) (hide (now + seconds5) [c] a) cs = pickable (we_fpu E) p a cs"
      by (rule pickable_hide) (use Cons.prems(3) in auto)
    have "\<exists>s'. collect E now k (c # cs) (W, s) = collect E now k cs (?W, s')"
      using True Cons.prems one by (auto simp: near_def Let_def simp del: score_sel)
    then obtain s' where eq: "collect E now k (c # cs) (W, s) = collect E now k cs (?W, s')" by blast
    have "fst (collect E now k cs (?W, s')) =
        set_arena (pl_roomID p) (hide (now + seconds5) (pickable (we_fpu E) p a cs) (hide (now + seconds5) [c] a))
          (set_player k (score (pickable (we_fpu E) p a cs) (score [c] p)) ?W)"
      using Cons.IH [of ?W "score [c] p" "hide (now + seconds5) [c] a" s'] Cons.prems(3) rest by (simp add: fun_upd_def)
    then show ?thesis unfolding eq first score_hide_Cons by (simp add: fun_upd_def cong: if_cong)
  next
    case False
    then have "pickable (we_fpu E) p a (c # cs) = pickable (we_fpu E) p a cs" by (auto simp: pickable_def)
    moreover have "collect E now k (c # cs) (W, s) = collect E now k cs (W, s)"
      using False Cons.prems by (auto simp: near_def Let_def)
    ultimately show ?thesis using Cons.IH [OF Cons.prems(1,2)] Cons.prems(3) by simp
  qed
qed

lemma startCrystals_distinct: "distinct (map cr_ID startCrystals)"
  by (simp add: startCrystals_def crystal_def)

lemma collect_ok:
  assumes "core_ok (we_fpu E) W" "wd_players W k = Some p" "wd_arenas W (pl_roomID p) = Some a"
  shows "core_ok (we_fpu E) (fst (collect E now k (ar_crystals a) (W, s))) \<and>
    keeps W (fst (collect E now k (ar_crystals a) (W, s)))"
proof -
  let ?F = "we_fpu E" and ?G = "pickable (we_fpu E) p a startCrystals"
  note inv = core_okD [OF assms(1)]
  have ok: "arena_ok ?F (pl_roomID p) a (inside W (pl_roomID p))" by (rule arenas_okD(1) [OF inv(2) assms(3)])
  have "pl_roomID p \<noteq> 0" using arenas_okD(2) [OF inv(2), of "pl_roomID p"] assms(3) by auto
  then have "in_walls ?F (score ?G p)"
    using players_filedD(2) [OF inv(1) assms(2)] by (simp add: in_walls_def steer_ok_def)
  moreover have "grid_agrees ?F (ar_aoi a) ((inside W (pl_roomID p))(k \<mapsto> score ?G p))"
    by (rule grid_agrees_cong [where ins = "inside W (pl_roomID p)"])
       (use ok assms(2) in \<open>auto simp: arena_ok_def inside_def\<close>)
  moreover have "dom (ar_respawn (hide t ?G a)) \<subseteq> cr_ID ` set startCrystals" for t
  proof -
    have "dom (ar_respawn (hide t ?G a)) \<subseteq> dom (ar_respawn a) \<union> cr_ID ` set startCrystals"
      by (auto simp: hide_def pickable_def split: if_splits)
    then show ?thesis using ok by (auto simp: arena_ok_def)
  qed
  ultimately have "core_ok ?F (set_arena (pl_roomID p) (hide (now + seconds5) ?G a) (set_player k (score ?G p) W))"
    using ok by (intro core_ok_change [OF assms]) (simp_all add: arena_ok_def)
  moreover have "keeps W (set_arena (pl_roomID p) (hide (now + seconds5) ?G a) (set_player k (score ?G p) W))"
    by (rule keeps_change [OF assms(2)]) simp
  moreover have "ar_crystals a = startCrystals" using ok by (simp add: arena_ok_def)
  ultimately show ?thesis
    using collect_world [OF assms(2,3), of "ar_crystals a" E now s] startCrystals_distinct by simp
qed


subsection \<open>The time step\<close>

lemma stepPlayer_world:
  assumes "wd_players W k = Some p" "stepPlayer E now k (W, s) = Some (W', s')"
  obtains (stopped) "pv_Name (pl_view p) = []" "now - pl_connectedAt p > seconds10" "W' = W"
  | (idle) "wd_arenas W (pl_roomID p) = None" "W' = W"
  | (plays) a W1 where "wd_arenas W (pl_roomID p) = Some a" "movePlayer E now k W = Some W1"
      "W' = fst (collect E now k (ar_crystals a) (W1, s))"
proof (cases "pv_Name (pl_view p) = [] \<and> now - pl_connectedAt p > seconds10")
  case True
  then show ?thesis using assms by (intro stopped) (auto simp: stepPlayer_def Let_def)
next
  case False
  show ?thesis
  proof (cases "wd_arenas W (pl_roomID p)")
    case None
    then show ?thesis using assms False by (intro idle) (auto simp: stepPlayer_def Let_def)
  next
    case (Some a)
    then obtain W1 where m: "movePlayer E now k W = Some W1"
      and c: "collect E now k (ar_crystals a) (W1, s) = (W', s')"
      using assms False by (auto simp: stepPlayer_def Let_def Option.bind_eq_Some_conv)
    show ?thesis by (rule plays [OF Some m]) (unfold c, simp)
  qed
qed

lemma keeps_room:
  assumes "keeps W W'" "wd_players W k = Some p" "wd_players W' k = Some p'"
  shows "pl_roomID p' = pl_roomID p" "pl_conn p' = pl_conn p" "pv_Name (pl_view p') = pv_Name (pl_view p)"
  using keeps_player [OF assms(1,2)] assms(3) by (auto simp: badge_def)

lemma stepPlayer_ok:
  assumes "core_ok (we_fpu E) W" "round_num (we_fpu E)" "k \<in> dom (wd_players W)"
    and "stepPlayer E now k (W, s) = Some (W', s')"
  shows "core_ok (we_fpu E) W' \<and> keeps W W'"
proof -
  obtain p where p: "wd_players W k = Some p" using assms(3) by blast
  from p assms(4) show ?thesis
  proof (cases rule: stepPlayer_world)
    case (plays a W1)
    note m = movePlayer_ok [OF assms(1,2) p plays(1,2)]
    obtain p1 where p1: "wd_players W1 k = Some p1" "pl_roomID p1 = pl_roomID p"
      using keeps_player [OF conjunct2 [OF m] p] by (auto simp: badge_def)
    have "i \<in> dom (wd_arenas W1)" if "i \<in> dom (wd_arenas W)" for i
      using core_okD(2) [OF conjunct1 [OF m]] core_okD(2) [OF assms(1)] that by (simp add: arenas_ok_def)
    then obtain a1 where a1: "wd_arenas W1 (pl_roomID p1) = Some a1" using plays(1) p1(2) by auto
    have "ar_crystals a1 = ar_crystals a"
      using arenas_okD(1) [OF core_okD(2) [OF conjunct1 [OF m]] a1]
        arenas_okD(1) [OF core_okD(2) [OF assms(1)] plays(1)] by (simp add: arena_ok_def)
    then show ?thesis
      using collect_ok [OF conjunct1 [OF m] p1(1) a1, of now s] keeps_trans [OF conjunct2 [OF m]] plays(3) by simp
  qed (use assms(1) in simp_all)
qed

lemma stepPlayers_ok:
  assumes "core_ok (we_fpu E) W" "round_num (we_fpu E)" "set ks \<subseteq> dom (wd_players W)"
    and "stepPlayers E now ks (W, s) = Some (W', s')"
  shows "core_ok (we_fpu E) W' \<and> keeps W W'"
  using assms(1,3,4)
proof (induction ks arbitrary: W s)
  case (Cons k ks)
  obtain W1 s1 where one: "stepPlayer E now k (W, s) = Some (W1, s1)"
    and rest: "stepPlayers E now ks (W1, s1) = Some (W', s')"
    using Cons.prems(3) by (auto simp: Option.bind_eq_Some_conv)
  have m: "core_ok (we_fpu E) W1 \<and> keeps W W1"
    by (rule stepPlayer_ok [OF Cons.prems(1) assms(2) _ one]) (use Cons.prems(2) in simp)
  have "set ks \<subseteq> dom (wd_players W1)" using keeps_dom [OF conjunct2 [OF m]] Cons.prems(2) by simp
  with Cons.IH [OF conjunct1 [OF m] _ rest] keeps_trans [OF conjunct2 [OF m]] show ?case by blast
qed simp

text \<open>The crystals that are back.\<close>

definition respawned :: "gotime \<Rightarrow> arena \<Rightarrow> arena" where
  "respawned now a = a\<lparr>ar_respawn := (\<lambda>c. case ar_respawn a c of None \<Rightarrow> None
     | Some t \<Rightarrow> if \<not> now < t then None else Some t)\<rparr>"

lemma core_ok_respawned:
  assumes "core_ok F W" "wd_arenas W i = Some a"
  shows "core_ok F (set_arena i (respawned now a) W)"
proof -
  note inv = core_okD [OF assms(1)]
  have "arena_ok F i a (inside W i)" by (rule arenas_okD(1) [OF inv(2) assms(2)])
  moreover have "dom (ar_respawn (respawned now a)) \<subseteq> dom (ar_respawn a)"
    by (auto simp: respawned_def split: option.splits if_splits)
  ultimately have a: "arena_ok F i (respawned now a) (inside W i)"
    by (auto simp: arena_ok_def respawned_def)
  have ins: "inside (set_arena i (respawned now a) W) = inside W" by (rule ext) (rule inside_same, simp)
  have "arenas_ok F (set_arena i (respawned now a) W)"
    by (rule arenas_ok_arena [OF inv(2), of _ i "respawned now a"])
       (use arenas_okD(2) [OF inv(2), of i] assms(2) a in \<open>auto simp: ins\<close>)
  then show ?thesis using inv(1) by (simp add: core_ok_def players_filed_def)
qed

lemma keeps_arena [simp]: "keeps W (set_arena i a W)"
  by (simp add: keeps_def)

lemma stepArenas_Cons:
  assumes "wd_arenas W i = Some a" "stepArenas E now (i # is) (W, s) = Some (W', s')"
  obtains s1 where "stepArenas E now is (set_arena i (respawned now a) W, s1) = Some (W', s')"
    "wd_tick W mod 2 = 0 \<and> PlayerCount (ar_room a) > 0 \<Longrightarrow>
       arenaBroadcast E (respawned now a) (set_arena i (respawned now a) W) s = Some s1"
    "\<not> (wd_tick W mod 2 = 0 \<and> PlayerCount (ar_room a) > 0) \<Longrightarrow> s1 = s"
proof (cases "wd_tick W mod 2 = 0 \<and> PlayerCount (ar_room a) > 0")
  case True
  then show ?thesis
    using assms that by (auto simp: respawned_def [symmetric] Option.bind_eq_Some_conv Let_def) (simp add: respawned_def)
next
  case False
  then have "stepArenas E now is (set_arena i (respawned now a) W, s) = Some (W', s')"
    using assms by (auto simp: respawned_def Let_def split: if_splits)
  with False show ?thesis using that by blast
qed

lemma stepArenas_ok:
  assumes "core_ok F W" "set is \<subseteq> {1, 2}" "stepArenas E now is (W, s) = Some (W', s')"
  shows "core_ok F W' \<and> keeps W W'"
  using assms
proof (induction "is" arbitrary: W s)
  case (Cons i "is")
  obtain a where a: "wd_arenas W i = Some a"
    using arenas_okD(2) [OF core_okD(2) [OF Cons.prems(1)], of i] Cons.prems(2) by auto
  from a Cons.prems(3) obtain s1 where "stepArenas E now is (set_arena i (respawned now a) W, s1) = Some (W', s')"
    by (rule stepArenas_Cons)
  moreover have "set is \<subseteq> {1, 2}" using Cons.prems(2) by simp
  ultimately have "core_ok F W' \<and> keeps (set_arena i (respawned now a) W) W'"
    using Cons.IH [OF core_ok_respawned [OF Cons.prems(1) a]] by blast
  then show ?case using keeps_trans [OF keeps_arena] by blast
qed simp

text \<open>Every player has exactly one turn in a tick.\<close>

lemma tickOrder_rotate: "tickOrder t ks = rotate (unat t mod length ks) (sort ks)"
  by (rule nth_equalityI) (simp_all add: tickOrder_def nth_rotate add.commute)

lemma tickOrder_set: "set (tickOrder t ks) = set ks" "distinct ks \<Longrightarrow> distinct (tickOrder t ks)"
  by (simp_all add: tickOrder_rotate)

end
