(* ===== verification/WebRun.thy ===== *)
theory WebRun
  imports WebArena
begin

text \<open>
  The guests of the web arena: sessions, names and connections agree in every reachable state. The world
  as a step system, whose steps are the method calls on any store of connections, and the properties of
  the arena.
\<close>

section \<open>The set of sessions\<close>

text \<open>A table whose entries carry their own key.\<close>

lemma ran_keyed:
  assumes "\<And>t v. m t = Some v \<Longrightarrow> key v = t" "m t = Some v"
  shows "ran (m(t := None)) = ran m - {v}" "ran (m(t \<mapsto> v')) = insert v' (ran m - {v})"
proof -
  have other: "a \<noteq> t \<longleftrightarrow> u \<noteq> v" if "m a = Some u" for a u
    using assms that by (metis option.inject)
  show "ran (m(t := None)) = ran m - {v}"
    using other unfolding ran_def by (auto split: if_splits)
  moreover have "ran (m(t \<mapsto> v')) = insert v' (ran (m(t := None)))"
    by (auto simp: ran_def)
  ultimately show "ran (m(t \<mapsto> v')) = insert v' (ran m - {v})" by simp
qed

abbreviation live :: "Manager \<Rightarrow> Session set" where
  "live m \<equiv> ran (sm_byToken m)"

definition uniq :: "Session set \<Rightarrow> bool" where
  "uniq S \<longleftrightarrow> (\<forall>v \<in> S. \<forall>u \<in> S.
     ses_PlayerID v = ses_PlayerID u \<or> (ses_Bound v \<and> ses_Bound u \<and> ses_ConnID v = ses_ConnID u) \<longrightarrow> v = u)"

lemma uniq_subset: "uniq S \<Longrightarrow> T \<subseteq> S \<Longrightarrow> uniq T"
  unfolding uniq_def by blast

lemma uniq_insert:
  assumes "uniq S"
    and "\<And>u. u \<in> S \<Longrightarrow> ses_PlayerID u \<noteq> ses_PlayerID v \<and> \<not> (ses_Bound u \<and> ses_Bound v \<and> ses_ConnID u = ses_ConnID v)"
  shows "uniq (insert v S)"
  unfolding uniq_def
proof (intro ballI impI)
  fix x y assume "x \<in> insert v S" "y \<in> insert v S"
    and eq: "ses_PlayerID x = ses_PlayerID y \<or> (ses_Bound x \<and> ses_Bound y \<and> ses_ConnID x = ses_ConnID y)"
  then consider "x = v" "y = v" | "x = v" "y \<in> S" | "x \<in> S" "y = v" | "x \<in> S" "y \<in> S" by blast
  then show "x = y"
  proof cases
    case 2 with assms(2) [of y] eq show ?thesis by auto
  next
    case 3 with assms(2) [of x] eq show ?thesis by auto
  next
    case 4 with assms(1) eq show ?thesis unfolding uniq_def by blast
  qed simp
qed

lemma live_token: "session_inv m \<Longrightarrow> v \<in> live m \<longleftrightarrow> sm_byToken m (ses_Token v) = Some v"
  using session_invD(2) [of m] by (auto simp: ran_def)

lemma uniq_live:
  assumes "session_inv m"
  shows "uniq (live m)"
  unfolding uniq_def live_token [OF assms]
proof (intro ballI impI)
  fix v u assume "v \<in> live m" "u \<in> live m"
    and "ses_PlayerID v = ses_PlayerID u \<or> (ses_Bound v \<and> ses_Bound u \<and> ses_ConnID v = ses_ConnID u)"
  moreover have "sm_byToken m (ses_Token v) = Some v" "sm_byToken m (ses_Token u) = Some u"
    using calculation(1,2) live_token [OF assms] by blast+
  ultimately show "v = u"
    using session_invD(4,5) [OF assms] by (metis option.inject)
qed

lemma live_Logout:
  assumes "session_inv m" "LogoutByConnID m c = (r, m')"
  shows "(\<exists>v. r = Inr (Some v) \<and> v \<in> live m \<and> ses_Bound v \<and> ses_ConnID v = c \<and> live m' = live m - {v}) \<or>
    ((\<exists>e. r = Inl e) \<and> m' = m \<and> (\<forall>v \<in> live m. ses_Bound v \<longrightarrow> ses_ConnID v \<noteq> c))"
proof (cases "sm_byConnID m c")
  case None
  then have "ses_ConnID v \<noteq> c" if "v \<in> live m" "ses_Bound v" for v
    using that session_invD(5) [OF assms(1)] live_token [OF assms(1)] by fastforce
  with None assms(2) show ?thesis by (auto simp: LogoutByConnID_def)
next
  case (Some t)
  then obtain v where v: "sm_byToken m t = Some v" "ses_Bound v" "ses_ConnID v = c"
    using session_invD(8) [OF assms(1)] by blast
  have out: "r = Inr (Some v)" "m' = removeLocked t m"
    using assms(2) Some v(1) by (simp_all add: LogoutByConnID_def)
  have "live m' = live m - {v}"
    using ran_keyed(1) [where m = "sm_byToken m" and key = ses_Token, OF session_invD(2) [OF assms(1)] v(1)]
    by (simp add: out(2))
  with v out(1) ranI [of "sm_byToken m", OF v(1)] show ?thesis by blast
qed

lemma live_Bind:
  assumes "session_inv m" "Bind m token c now1 now2 = (Inr v', m')"
  obtains v where "v \<in> live m" "ses_Bound v \<longrightarrow> ses_ConnID v = c"
    "\<forall>u \<in> live m. ses_Bound u \<and> ses_ConnID u = c \<longrightarrow> u = v"
    "ses_PlayerID v' = ses_PlayerID v" "ses_AccountID v' = ses_AccountID v" "ses_Bound v'" "ses_ConnID v' = c"
    "live m' = insert v' (live m - {v})"
  using assms(2)
proof (rule Bind_Inr)
  fix v assume v: "sm_byToken m token = Some v" "ses_Bound v \<Longrightarrow> ses_ConnID v = c" "sm_byConnID m c \<in> {None, Some token}"
    and v': "v' = v\<lparr>ses_ConnID := c, ses_Bound := True, ses_UpdatedAt := now2\<rparr>"
    and m': "m' = m\<lparr>sm_byToken := (sm_byToken m)(token \<mapsto> v'), sm_byConnID := (sm_byConnID m)(c \<mapsto> token)\<rparr>"
  have "u = v" if "u \<in> live m" "ses_Bound u" "ses_ConnID u = c" for u
  proof -
    have u: "sm_byToken m (ses_Token u) = Some u" using that(1) live_token [OF assms(1)] by blast
    then have "sm_byConnID m c = Some (ses_Token u)" using session_invD(5) [OF assms(1)] that(2,3) by blast
    with v(1,3) u show ?thesis by auto
  qed
  moreover have "live m' = insert v' (live m - {v})"
    using ran_keyed(2) [where m = "sm_byToken m" and key = ses_Token, OF session_invD(2) [OF assms(1)] v(1), of v'] by (simp add: m')
  ultimately show thesis
    using that [of v] v v' by (simp add: ranI)
qed

lemma Issue_policy:
  assumes "session_inv m" "Issue m a n ttl random now = (r, m')"
  shows "sm_accountPolicy m' = sm_accountPolicy m"
  using assms(2) unfolding Issue_cases [OF assms(1)]
  by (auto simp: drop_account_def split: if_splits sum.splits option.splits)

lemma live_RemoveExpired:
  assumes "session_inv m" "map_order (sm_byToken m) order" "RemoveExpired order now m = (gone, m')"
  shows "session_inv m'" "sm_accountPolicy m' = sm_accountPolicy m" "live m' = {v \<in> live m. \<not> expired v now}"
    "set gone = {v \<in> live m. expired v now}" "distinct gone"
proof -
  obtain m1 where m1: "RemoveExpired order now m =
      (map (\<lambda>t. the (sm_byToken m t)) (filter (\<lambda>t. expired (the (sm_byToken m t)) now) order), m1)"
    "session_inv m1" "sm_accountPolicy m1 = sm_accountPolicy m"
    "sm_byToken m1 = (\<lambda>t. case sm_byToken m t of Some v \<Rightarrow> if expired v now then None else Some v | None \<Rightarrow> None)"
    by (rule RemoveExpired_spec [OF assms(1,2), of now])
  have eq: "m' = m1" "gone = map (\<lambda>t. the (sm_byToken m t)) (filter (\<lambda>t. expired (the (sm_byToken m t)) now) order)"
    using m1(1) assms(3) by auto
  show "session_inv m'" "sm_accountPolicy m' = sm_accountPolicy m" by (simp_all add: eq m1)
  show "live m' = {v \<in> live m. \<not> expired v now}"
    by (auto simp: eq(1) m1(4) ran_def split: option.splits if_splits)
  have ord: "distinct order" "\<And>t. t \<in> set order \<longleftrightarrow> (\<exists>v. sm_byToken m t = Some v)"
    using assms(2) by (auto simp: map_order_def)
  show "set gone = {v \<in> live m. expired v now}"
    using ord(2) by (force simp: eq(2) ran_def)
  have "inj_on (\<lambda>t. the (sm_byToken m t)) (set order)"
    using ord(2) session_invD(2) [OF assms(1)] by (intro inj_onI) (metis option.sel)
  then show "distinct gone"
    using ord(1) by (auto simp: eq(2) distinct_map intro: inj_on_subset)
qed


lemma guestAccount_inj: "guestAccount m = guestAccount n \<Longrightarrow> m = n"
  using itoa_inj [of "unat m" "unat n"] by (simp add: guestAccount_def word_unat_eq_iff)

section \<open>Guests\<close>

definition good_name :: "rune list \<Rightarrow> bool" where
  "good_name name \<longleftrightarrow> name \<noteq> [] \<and> length name \<le> 16 \<and> \<not> list_ex (\<lambda>r. IsControl r \<or> IsFormat r) name"

text \<open>Every session belongs to one numbered guest; a bound one to a connected player of that name.\<close>

definition owned :: "Session set \<Rightarrow> World \<Rightarrow> bool" where
  "owned S W \<longleftrightarrow> (\<forall>v \<in> S.
     ses_AccountID v = guestAccount (ses_PlayerID v) \<and> ses_PlayerID v \<le> wd_nextGuest W \<and>
     wd_names W (ses_PlayerID v) \<noteq> None \<and>
     (ses_Bound v \<longrightarrow> (\<exists>p. wd_players W (ses_ConnID v) = Some p \<and>
        wd_names W (ses_PlayerID v) = Some (pv_Name (pl_view p)))))"

text \<open>Every name is that of a session.\<close>

definition named :: "Session set \<Rightarrow> World \<Rightarrow> bool" where
  "named S W \<longleftrightarrow> (\<forall>n name. wd_names W n = Some name \<longrightarrow> good_name name \<and> (\<exists>v \<in> S. ses_PlayerID v = n))"

text \<open>Every player in an arena has a session.\<close>

definition seated :: "Session set \<Rightarrow> World \<Rightarrow> bool" where
  "seated S W \<longleftrightarrow> (\<forall>k p. wd_players W k = Some p \<and> pl_roomID p \<noteq> 0 \<longrightarrow>
     (\<exists>v \<in> S. ses_Bound v \<and> ses_ConnID v = k))"

definition guests_ok :: "Session set \<Rightarrow> World \<Rightarrow> bool" where
  "guests_ok S W \<longleftrightarrow> uniq S \<and> owned S W \<and> named S W \<and> seated S W"

lemma guests_okD: "guests_ok S W \<Longrightarrow> uniq S" "guests_ok S W \<Longrightarrow> owned S W" "guests_ok S W \<Longrightarrow> named S W"
  "guests_ok S W \<Longrightarrow> seated S W"
  by (simp_all add: guests_ok_def)

lemma ownedD:
  assumes "owned S W" "v \<in> S"
  shows "ses_AccountID v = guestAccount (ses_PlayerID v)" "ses_PlayerID v \<le> wd_nextGuest W"
    "wd_names W (ses_PlayerID v) \<noteq> None"
    "ses_Bound v \<Longrightarrow> \<exists>p. wd_players W (ses_ConnID v) = Some p \<and> wd_names W (ses_PlayerID v) = Some (pv_Name (pl_view p))"
  using assms unfolding owned_def by blast+

lemma seatedD: "seated S W \<Longrightarrow> wd_players W k = Some p \<Longrightarrow> pl_roomID p \<noteq> 0 \<Longrightarrow> \<exists>v \<in> S. ses_Bound v \<and> ses_ConnID v = k"
  unfolding seated_def by blast

text \<open>
  A change of the players that renames nobody and seats only those who have a session.
\<close>

lemma guests_ok_players:
  assumes "guests_ok S W" "wd_names W' = wd_names W" "wd_nextGuest W' = wd_nextGuest W"
    and "\<And>k p. wd_players W k = Some p \<Longrightarrow>
           \<exists>p'. wd_players W' k = Some p' \<and> pv_Name (pl_view p') = pv_Name (pl_view p)"
    and "\<And>k p'. wd_players W' k = Some p' \<Longrightarrow> pl_roomID p' \<noteq> 0 \<Longrightarrow>
           (\<exists>p. wd_players W k = Some p \<and> pl_roomID p \<noteq> 0) \<or> (\<exists>v \<in> S. ses_Bound v \<and> ses_ConnID v = k)"
  shows "guests_ok S W'"
  unfolding guests_ok_def
proof (intro conjI)
  show "uniq S" by (rule guests_okD(1) [OF assms(1)])
  show "named S W'" using guests_okD(3) [OF assms(1)] by (simp add: named_def assms(2))
  show "owned S W'"
    unfolding owned_def
  proof (intro ballI conjI impI)
    fix v assume v: "v \<in> S"
    note o = ownedD [OF guests_okD(2) [OF assms(1)] v]
    show "ses_AccountID v = guestAccount (ses_PlayerID v)" "ses_PlayerID v \<le> wd_nextGuest W'"
      "wd_names W' (ses_PlayerID v) \<noteq> None" using o(1-3) assms(2,3) by simp_all
    assume "ses_Bound v"
    with o(4) obtain p where p: "wd_players W (ses_ConnID v) = Some p"
      "wd_names W (ses_PlayerID v) = Some (pv_Name (pl_view p))" by blast
    with assms(4) [OF p(1)] show "\<exists>p. wd_players W' (ses_ConnID v) = Some p \<and>
        wd_names W' (ses_PlayerID v) = Some (pv_Name (pl_view p))" by (auto simp: assms(2))
  qed
  show "seated S W'"
    unfolding seated_def using assms(5) seatedD [OF guests_okD(4) [OF assms(1)]] by blast
qed

lemma guests_ok_keeps:
  assumes "guests_ok S W" "keeps W W'"
  shows "guests_ok S W'"
proof (rule guests_ok_players [OF assms(1)])
  show "wd_names W' = wd_names W" "wd_nextGuest W' = wd_nextGuest W" using assms(2) by (simp_all add: keeps_def)
  show "\<exists>p'. wd_players W' k = Some p' \<and> pv_Name (pl_view p') = pv_Name (pl_view p)"
    if p: "wd_players W k = Some p" for k p
    using keeps_player [OF assms(2) p] by (auto simp: badge_def)
  show "(\<exists>p. wd_players W k = Some p \<and> pl_roomID p \<noteq> 0) \<or> (\<exists>v \<in> S. ses_Bound v \<and> ses_ConnID v = k)"
    if p': "wd_players W' k = Some p'" "pl_roomID p' \<noteq> 0" for k p'
  proof -
    have "k \<in> dom (wd_players W)" using keeps_dom [OF assms(2)] p'(1) by blast
    then obtain p where p: "wd_players W k = Some p" by blast
    with keeps_room(1) [OF assms(2) p p'(1)] p'(2) show ?thesis by auto
  qed
qed

lemma guests_ok_update:
  assumes "guests_ok S W" "wd_names W' = wd_names W" "wd_nextGuest W' = wd_nextGuest W"
    and "wd_players W' = (wd_players W)(k \<mapsto> p')" "wd_players W k = Some p"
    and "pv_Name (pl_view p') = pv_Name (pl_view p)"
    and "pl_roomID p' \<noteq> 0 \<Longrightarrow> pl_roomID p \<noteq> 0 \<or> (\<exists>v \<in> S. ses_Bound v \<and> ses_ConnID v = k)"
  shows "guests_ok S W'"
  by (rule guests_ok_players [OF assms(1-3)]) (use assms(4-7) in \<open>auto split: if_splits\<close>)

lemma guests_ok_left:
  "guests_ok S W \<Longrightarrow> wd_players W k = Some p \<Longrightarrow> guests_ok S (leftWorld k p W)"
  by (rule guests_ok_update [where k = k and p = p and p' = "outside p"]) (simp_all add: leftWorld_players)

text \<open>A session ends: its name goes with it, and its player sits in no arena.\<close>

lemma guests_ok_drop:
  assumes "guests_ok S W" "v \<in> S"
    and "\<And>p. ses_Bound v \<Longrightarrow> wd_players W (ses_ConnID v) = Some p \<Longrightarrow> pl_roomID p = 0"
    and "wd_names W' = (wd_names W)(ses_PlayerID v := None)" "wd_nextGuest W' = wd_nextGuest W"
    and "wd_players W' = wd_players W"
  shows "guests_ok (S - {v}) W'"
  unfolding guests_ok_def
proof (intro conjI)
  note g = guests_okD [OF assms(1)]
  show "uniq (S - {v})" by (rule uniq_subset [OF g(1)]) blast
  have other: "ses_PlayerID u \<noteq> ses_PlayerID v" if "u \<in> S - {v}" for u
    using g(1) that assms(2) unfolding uniq_def by blast
  show "owned (S - {v}) W'"
    using g(2) other by (simp add: owned_def assms(4-6))
  show "named (S - {v}) W'"
    unfolding named_def
  proof (intro allI impI)
    fix n name assume n: "wd_names W' n = Some name"
    then have "n \<noteq> ses_PlayerID v" "wd_names W n = Some name" by (auto simp: assms(4) split: if_splits)
    with g(3) show "good_name name \<and> (\<exists>v \<in> S - {v}. ses_PlayerID v = n)" unfolding named_def by blast
  qed
  show "seated (S - {v}) W'"
    unfolding seated_def
  proof (intro allI impI)
    fix k p assume kp: "wd_players W' k = Some p \<and> pl_roomID p \<noteq> 0"
    then obtain u where u: "u \<in> S" "ses_Bound u" "ses_ConnID u = k" using seatedD [OF g(4)] assms(6) by metis
    with assms(3) kp assms(6) have "u \<noteq> v" by auto
    with u show "\<exists>v \<in> S - {v}. ses_Bound v \<and> ses_ConnID v = k" by blast
  qed
qed

text \<open>A player without a session goes.\<close>

lemma guests_ok_gone:
  assumes "guests_ok S W" "\<forall>v \<in> S. ses_Bound v \<longrightarrow> ses_ConnID v \<noteq> k"
    and "wd_names W' = wd_names W" "wd_nextGuest W' = wd_nextGuest W" "wd_players W' = (wd_players W)(k := None)"
  shows "guests_ok S W'"
  using assms(1,2) unfolding guests_ok_def owned_def named_def seated_def assms(3-5) by auto


lemma guests_ok_bind:
  assumes "guests_ok S W" "v \<in> S" "ses_Bound v \<longrightarrow> ses_ConnID v = c"
    and "\<forall>u \<in> S. ses_Bound u \<and> ses_ConnID u = c \<longrightarrow> u = v" "wd_players W c = Some p"
    and "ses_PlayerID v' = ses_PlayerID v" "ses_AccountID v' = ses_AccountID v" "ses_Bound v'" "ses_ConnID v' = c"
    and "wd_names W' = wd_names W" "wd_nextGuest W' = wd_nextGuest W"
    and "wd_players W' = (wd_players W)(c \<mapsto> p')" "Some (pv_Name (pl_view p')) = wd_names W (ses_PlayerID v)"
    and "pl_roomID p' = pl_roomID p"
  shows "guests_ok (insert v' (S - {v})) W'"
  unfolding guests_ok_def
proof (intro conjI)
  note g = guests_okD [OF assms(1)]
  have other: "ses_PlayerID u \<noteq> ses_PlayerID v \<and> \<not> (ses_Bound u \<and> ses_ConnID u = c)" if "u \<in> S - {v}" for u
    using g(1) that assms(2,4) unfolding uniq_def by blast
  show "uniq (insert v' (S - {v}))"
    by (rule uniq_insert [OF uniq_subset [OF g(1)]]) (use other assms(6,9) in auto)
  show "owned (insert v' (S - {v})) W'"
    unfolding owned_def
  proof (intro ballI)
    fix u assume u: "u \<in> insert v' (S - {v})"
    show "ses_AccountID u = guestAccount (ses_PlayerID u) \<and> ses_PlayerID u \<le> wd_nextGuest W' \<and>
       wd_names W' (ses_PlayerID u) \<noteq> None \<and>
       (ses_Bound u \<longrightarrow> (\<exists>p. wd_players W' (ses_ConnID u) = Some p \<and>
          wd_names W' (ses_PlayerID u) = Some (pv_Name (pl_view p))))"
    proof (cases "u = v'")
      case True
      with ownedD [OF g(2) assms(2)] assms(6-13) show ?thesis by auto
    next
      case False
      with u have "u \<in> S - {v}" by blast
      with ownedD [OF g(2), of u] other [of u] assms(10-12) show ?thesis by auto
    qed
  qed
  show "named (insert v' (S - {v})) W'"
    unfolding named_def
  proof (intro allI impI)
    fix n name assume "wd_names W' n = Some name"
    with g(3) obtain u where u: "good_name name" "u \<in> S" "ses_PlayerID u = n"
      unfolding named_def assms(10) by blast
    then show "good_name name \<and> (\<exists>u \<in> insert v' (S - {v}). ses_PlayerID u = n)"
      using assms(6) by (cases "u = v") auto
  qed
  show "seated (insert v' (S - {v})) W'"
    unfolding seated_def
  proof (intro allI impI)
    fix k q assume q: "wd_players W' k = Some q \<and> pl_roomID q \<noteq> 0"
    show "\<exists>u \<in> insert v' (S - {v}). ses_Bound u \<and> ses_ConnID u = k"
    proof (cases "k = c")
      case False
      then obtain u where u: "u \<in> S" "ses_Bound u" "ses_ConnID u = k"
        using seatedD [OF g(4), of k q] q assms(12) by auto
      with assms(3) False have "u \<noteq> v" by auto
      with u show ?thesis by blast
    qed (use assms(8,9) in blast)
  qed
qed

lemma guests_ok_issue:
  assumes "guests_ok S W" "\<not> ses_Bound v" "ses_PlayerID v = n" "wd_nextGuest W < n"
    and "ses_AccountID v = guestAccount n" "good_name name"
    and "wd_names W' = (wd_names W)(n \<mapsto> name)" "wd_nextGuest W' = n" "wd_players W' = wd_players W"
  shows "guests_ok (insert v S) W'"
  unfolding guests_ok_def
proof (intro conjI)
  note g = guests_okD [OF assms(1)]
  have other: "ses_PlayerID u \<noteq> n \<and> ses_PlayerID u \<le> n" if "u \<in> S" for u
    using ownedD(2) [OF g(2) that] assms(4) by auto
  show "uniq (insert v S)"
    by (rule uniq_insert [OF g(1)]) (use other assms(2,3) in auto)
  show "owned (insert v S) W'"
    unfolding owned_def
  proof (intro ballI)
    fix u assume u: "u \<in> insert v S"
    show "ses_AccountID u = guestAccount (ses_PlayerID u) \<and> ses_PlayerID u \<le> wd_nextGuest W' \<and>
       wd_names W' (ses_PlayerID u) \<noteq> None \<and>
       (ses_Bound u \<longrightarrow> (\<exists>p. wd_players W' (ses_ConnID u) = Some p \<and>
          wd_names W' (ses_PlayerID u) = Some (pv_Name (pl_view p))))"
    proof (cases "u = v")
      case True
      then show ?thesis using assms(2,3,5,7,8) by simp
    next
      case False
      with u have "u \<in> S" by blast
      with ownedD [OF g(2), of u] other [of u] assms(7-9) show ?thesis by auto
    qed
  qed
  show "named (insert v S) W'"
    using g(3) assms(3,6,7) unfolding named_def by auto
  show "seated (insert v S) W'"
    using g(4) assms(9) unfolding seated_def by auto
qed

section \<open>The invariant\<close>

definition web_inv :: "fpu \<Rightarrow> World \<Rightarrow> bool" where
  "web_inv F W \<longleftrightarrow> core_ok F W \<and> session_inv (wd_sessions W) \<and>
     sm_accountPolicy (wd_sessions W) = RejectExisting \<and> guests_ok (live (wd_sessions W)) W"

lemma web_invD:
  "web_inv F W \<Longrightarrow> core_ok F W" "web_inv F W \<Longrightarrow> session_inv (wd_sessions W)"
  "web_inv F W \<Longrightarrow> sm_accountPolicy (wd_sessions W) = RejectExisting"
  "web_inv F W \<Longrightarrow> guests_ok (live (wd_sessions W)) W"
  by (simp_all add: web_inv_def)

lemma web_inv_keeps:
  "web_inv F W \<Longrightarrow> keeps W W' \<Longrightarrow> core_ok F W' \<Longrightarrow> web_inv F W'"
  using guests_ok_keeps [of "live (wd_sessions W)" W W'] by (simp add: web_inv_def keeps_def)

lemma web_inv_flags:
  "web_inv F W \<Longrightarrow> web_inv F (W\<lparr>wd_tick := t\<rparr>)" "web_inv F W \<Longrightarrow> web_inv F (W\<lparr>wd_running := r\<rparr>)"
  "web_inv F W \<Longrightarrow> web_inv F (W\<lparr>wd_closed := b\<rparr>)"
  using core_ok_same [of F W "W\<lparr>wd_tick := t\<rparr>"] core_ok_same [of F W "W\<lparr>wd_running := r\<rparr>"]
    core_ok_same [of F W "W\<lparr>wd_closed := b\<rparr>"]
  by (simp_all add: web_inv_def guests_ok_def owned_def named_def seated_def)

subsection \<open>Guests and connections\<close>

lemma web_inv_Guest:
  assumes "web_inv F W" "WorldGuest name random now W = (r, W')" "wd_nextGuest W < wd_nextGuest W + 1"
    and "\<And>token. createToken random = Inr token \<Longrightarrow> sm_byToken (wd_sessions W) token = None"
  shows "web_inv F W'"
proof -
  note inv = web_invD [OF assms(1)]
  let ?n = "wd_nextGuest W + 1" and ?m = "wd_sessions W" and ?a = "guestAccount (wd_nextGuest W + 1)"
  let ?good = "good_name (trimName name) \<and> \<not> wd_closed W \<and> Len ?m < 256"
  show ?thesis
  proof (cases ?good)
    case False
    then have "W' = W"
      using assms(2) by (auto simp: WorldGuest_def good_name_def Let_def not_less split: if_splits)
    with assms(1) show ?thesis by simp
  next
    case True
    obtain out m' where issue: "Issue ?m ?a ?n minutes30 random now = (out, m')" by fastforce
    have fresh: "ses_AccountID v \<noteq> ?a" if "v \<in> live ?m" for v
    proof
      assume "ses_AccountID v = ?a"
      then have "ses_PlayerID v = ?n"
        using ownedD(1) [OF guests_okD(2) [OF inv(4)] that] guestAccount_inj by simp
      with ownedD(2) [OF guests_okD(2) [OF inv(4)] that] assms(3) show False by simp
    qed
    show ?thesis
    proof (cases out)
      case (Inl err)
      then have W': "W' = W\<lparr>wd_nextGuest := ?n\<rparr>"
        using assms(2) True issue Issue_Inl [of ?m ?a ?n minutes30 random now err m']
        by (auto simp: WorldGuest_def good_name_def Let_def not_less split: if_splits)
      have "core_ok F W'" by (rule core_ok_same [OF inv(1)]) (simp_all add: W')
      moreover have "guests_ok (live ?m) W'"
        using inv(4) assms(3) by (auto simp: guests_ok_def owned_def named_def seated_def W' intro: order.trans)
      ultimately show ?thesis using inv(2,3) by (simp add: web_inv_def W')
    next
      case (Inr o2)
      obtain v replaced where o2: "o2 = (v, replaced)" by fastforce
      have W': "W' = W\<lparr>wd_nextGuest := ?n, wd_sessions := m', wd_names := (wd_names W)(ses_PlayerID v \<mapsto> trimName name)\<rparr>"
        using assms(2) True issue by (auto simp: WorldGuest_def good_name_def Let_def Inr o2 not_less split: if_splits)
      have none: "sm_byAccountID ?m ?a = None"
      proof (rule ccontr)
        assume "sm_byAccountID ?m ?a \<noteq> None"
        then obtain t u where "sm_byToken ?m t = Some u" "ses_AccountID u = ?a"
          using session_invD(6) [OF inv(2), of ?a] by blast
        with fresh [of u] show False by (simp add: ranI)
      qed
      have drop: "drop_account ?a ?m = ?m" by (simp add: drop_account_def none)
      obtain token where token: "createToken random = Inr token" "v = fresh_session token ?a ?n minutes30 now"
        "sm_byToken m' = (sm_byToken ?m)(token \<mapsto> v)"
        by (rule Issue_Inr [OF inv(2) issue [unfolded Inr o2]]) (simp add: drop)
      have live: "live m' = insert v (live ?m)"
        using assms(4) [OF token(1)] by (simp add: token(3) ran_map_upd)
      have "session_inv m'" by (rule session_inv_Issue [OF inv(2) issue assms(4)])
      moreover have "sm_accountPolicy m' = RejectExisting"
        using Issue_policy [OF inv(2) issue] inv(3) by simp
      moreover have "core_ok F W'" by (rule core_ok_same [OF inv(1)]) (simp_all add: W')
      moreover have "guests_ok (live m') W'"
        unfolding live
        by (rule guests_ok_issue [OF inv(4), where n = ?n and name = "trimName name"])
           (use True assms(3) in \<open>simp_all add: token(2) W'\<close>)
      ultimately show ?thesis by (simp add: web_inv_def W')
    qed
  qed
qed


lemma web_inv_onConnStart:
  assumes "web_inv F W" "wd_players W (ic_connID c) = None" "onConnStart c now W s = (W', s')"
  shows "web_inv F W'"
proof (cases "wd_closed W")
  case True
  with assms(1,3) show ?thesis by (simp add: onConnStart_def)
next
  case False
  note inv = web_invD [OF assms(1)]
  define p where "p = \<lparr> pl_view = \<lparr> pv_ID = ic_connID c, pv_Name = [], pv_X = Fin 0, pv_Y = Fin 0, pv_Score = 0,
      pv_Seq = 0, pv_Nearby = 0 \<rparr>, pl_conn = c, pl_roomID = 0, pl_dx = Fin 0, pl_dy = Fin 0, pl_inputAt = 0,
      pl_connectedAt = now \<rparr>"
  have p: "pl_roomID p = 0" "filed (ic_connID c) p" by (simp_all add: p_def filed_def)
  have W': "W' = set_player (ic_connID c) p W" using assms(3) False by (simp add: onConnStart_def p_def)
  have "inside W' i = inside W i" if "i \<noteq> 0" for i
    using inside_update [of W' W "ic_connID c" p i] p(1) that assms(2)
    by (simp add: W' inside_def fun_upd_idem_iff)
  moreover have "i \<noteq> 0" if "wd_arenas W i = Some a" for i a
    using arenas_okD(2) [OF core_okD(2) [OF inv(1)], of i] that by auto
  ultimately have "arenas_ok F W'"
    using core_okD(2) [OF inv(1)] by (auto simp: arenas_ok_def W')
  moreover have "players_filed F W'"
    by (rule players_filed_update [OF core_okD(1) [OF inv(1)], of _ "ic_connID c" p]) (use p in \<open>simp_all add: W'\<close>)
  moreover have "guests_ok (live (wd_sessions W)) W'"
    by (rule guests_ok_players [OF inv(4)]) (use p(1) assms(2) in \<open>auto simp: W' split: if_splits\<close>)
  ultimately show ?thesis using inv(2,3) by (simp add: web_inv_def core_ok_def W')
qed

lemma web_inv_left: "web_inv F W \<Longrightarrow> wd_players W k = Some p \<Longrightarrow> web_inv F (leftWorld k p W)"
  by (simp add: web_inv_def core_ok_left guests_ok_left)

text \<open>What remains when the connection \<open>c\<close> of nobody, or of a player outside the arenas, is forgotten.\<close>

lemma web_inv_forget:
  assumes "web_inv F W" "\<And>p. wd_players W c = Some p \<Longrightarrow> pl_roomID p = 0"
    and "LogoutByConnID (wd_sessions W) c = (r, m')"
    and "W' = W\<lparr>wd_players := (wd_players W)(c := None), wd_sessions := m',
      wd_names := (case r of Inl e \<Rightarrow> wd_names W | Inr v \<Rightarrow> (wd_names W)(ses_PlayerID (the v) := None))\<rparr>"
  shows "web_inv F W'"
proof -
  note inv = web_invD [OF assms(1)]
  have core: "core_ok F W'"
  proof (cases "wd_players W c")
    case None
    then have "(wd_players W)(c := None) = wd_players W" by (simp add: fun_upd_idem_iff)
    with core_ok_same [OF inv(1), of W'] show ?thesis by (simp add: assms(4))
  next
    case (Some p)
    show ?thesis by (rule core_ok_delete [OF inv(1) Some assms(2) [OF Some]]) (simp_all add: assms(4))
  qed
  have "session_inv m'" by (rule session_inv_LogoutByConnID [OF inv(2) assms(3)])
  moreover have "sm_accountPolicy m' = RejectExisting"
    using assms(3) inv(3) by (auto simp: LogoutByConnID_def split: option.splits)
  moreover have "guests_ok (live m') W'"
    using live_Logout [OF inv(2) assms(3)]
  proof
    assume "\<exists>v. r = Inr (Some v) \<and> v \<in> live (wd_sessions W) \<and> ses_Bound v \<and> ses_ConnID v = c \<and>
      live m' = live (wd_sessions W) - {v}"
    then obtain v where v: "r = Inr (Some v)" "v \<in> live (wd_sessions W)" "ses_Bound v" "ses_ConnID v = c"
      "live m' = live (wd_sessions W) - {v}" by blast
    let ?W = "W\<lparr>wd_names := (wd_names W)(ses_PlayerID v := None)\<rparr>"
    have "guests_ok (live m') ?W"
      unfolding v(5) by (rule guests_ok_drop [OF inv(4) v(2)]) (use assms(2) v(4) in simp_all)
    moreover have "\<forall>u \<in> live m'. ses_Bound u \<longrightarrow> ses_ConnID u \<noteq> c"
      using guests_okD(1) [OF inv(4)] v(2-5) unfolding uniq_def by blast
    ultimately show ?thesis
      by (rule guests_ok_gone [where k = c]) (simp_all add: assms(4) v(1))
  next
    assume "(\<exists>e. r = Inl e) \<and> m' = wd_sessions W \<and> (\<forall>v \<in> live (wd_sessions W). ses_Bound v \<longrightarrow> ses_ConnID v \<noteq> c)"
    then obtain e where e: "r = Inl e" "m' = wd_sessions W"
      "\<forall>v \<in> live (wd_sessions W). ses_Bound v \<longrightarrow> ses_ConnID v \<noteq> c" by blast
    show ?thesis
      unfolding e(2) by (rule guests_ok_gone [OF inv(4) e(3)]) (simp_all add: assms(4) e(1))
  qed
  ultimately show ?thesis using core by (simp add: web_inv_def assms(4))
qed

lemma onConnStop_world:
  assumes "players_filed F W" "LogoutByConnID (wd_sessions W) (ic_connID c) = (r, m')"
    and "W0 = (case wd_players W (ic_connID c) of None \<Rightarrow> W | Some p \<Rightarrow> leftWorld (ic_connID c) p W)"
  shows "fst (onConnStop E c W s) = W0\<lparr>wd_players := (wd_players W0)(ic_connID c := None), wd_sessions := m',
      wd_names := (case r of Inl e \<Rightarrow> wd_names W0 | Inr v \<Rightarrow> (wd_names W0)(ses_PlayerID (the v) := None))\<rparr>"
proof (cases "wd_players W (ic_connID c)")
  case None
  then have "(wd_players W)(ic_connID c := None) = wd_players W" by (simp add: fun_upd_idem_iff)
  then have "W\<lparr>wd_players := (wd_players W)(ic_connID c := None)\<rparr> = W" by simp
  then show ?thesis
    using None assms(2,3) by (cases r) (simp_all add: onConnStop_def)
next
  case (Some p)
  then have "pv_ID (pl_view p) = ic_connID c" using players_filedD(1) [OF assms(1)] by (simp add: filed_def)
  moreover obtain s1 where "worldLeave E (ic_connID c) W s = (leftWorld (ic_connID c) p W, s1)"
    using worldLeave_world [OF Some, of E s] by (cases "worldLeave E (ic_connID c) W s") simp
  ultimately show ?thesis
    using Some assms(2,3) by (cases r) (simp_all add: onConnStop_def Let_def)
qed

lemma web_inv_onConnStop:
  assumes "web_inv F W" "onConnStop E c W s = (W', s')"
  shows "web_inv F W'"
proof -
  obtain r m' where lo: "LogoutByConnID (wd_sessions W) (ic_connID c) = (r, m')" by fastforce
  define W0 where "W0 = (case wd_players W (ic_connID c) of None \<Rightarrow> W | Some p \<Rightarrow> leftWorld (ic_connID c) p W)"
  have inv0: "web_inv F W0"
    using assms(1) web_inv_left [OF assms(1)] by (simp add: W0_def split: option.split)
  have room: "pl_roomID p = 0" if "wd_players W0 (ic_connID c) = Some p" for p
    using that by (cases "wd_players W (ic_connID c)") (auto simp: W0_def leftWorld_players)
  have "wd_sessions W0 = wd_sessions W" by (simp add: W0_def split: option.split)
  then show ?thesis
    using web_inv_forget [OF inv0 room, of "ic_connID c" r m' W'] lo
      onConnStop_world [OF core_okD(1) [OF web_invD(1) [OF assms(1)]] lo W0_def, of E s] assms(2)
    by simp
qed


subsection \<open>Messages\<close>

lemma web_inv_filed: "web_inv F W \<Longrightarrow> wd_players W k = Some p \<Longrightarrow> filed k p"
  using players_filedD(1) [OF core_okD(1) [OF web_invD(1)]] .

lemma bound_session:
  assumes "session_inv m" "GetByConnID m k now = Inr v"
  shows "v \<in> live m" "ses_Bound v" "ses_ConnID v = k" "\<not> expired v now"
proof -
  obtain t where t: "sm_byConnID m k = Some t" "sm_byToken m t = Some v" "\<not> expired v now"
    using assms(2) by (auto simp: GetByConnID_def split: option.splits if_splits)
  with session_invD(8) [OF assms(1) t(1)] show "v \<in> live m" "ses_Bound v" "ses_ConnID v = k" "\<not> expired v now"
    by (auto simp: ranI)
qed

lemma handleAuthenticate_world:
  assumes "handleAuthenticate E data now1 now2 k p W s = (W', s')"
  obtains (refused) "W' = W"
  | (bound) token v m' where "decode (we_Token E) (we_EOF E) data = Some token" "length token = 48"
      "Bind (wd_sessions W) token (pv_ID (pl_view p)) now1 now2 = (Inr v, m')"
      "W' = set_player k (p\<lparr>pl_view := (pl_view p)\<lparr>pv_Name :=
              (case wd_names W (ses_PlayerID v) of None \<Rightarrow> [] | Some name \<Rightarrow> name)\<rparr>\<rparr>) (W\<lparr>wd_sessions := m'\<rparr>)"
proof (cases "decode (we_Token E) (we_EOF E) data")
  case None
  then show ?thesis using assms refused by (simp add: handleAuthenticate_def)
next
  case (Some token)
  obtain r m' where b: "Bind (wd_sessions W) token (pv_ID (pl_view p)) now1 now2 = (r, m')" by fastforce
  show ?thesis
  proof (cases "length token = 48")
    case False
    then show ?thesis using assms Some refused by (simp add: handleAuthenticate_def)
  next
    case True
    show ?thesis
    proof (cases r)
      case (Inl e)
      then have "W' = W" using assms Some True b Bind_Inl [OF b [unfolded Inl]] by (auto simp: handleAuthenticate_def)
      then show ?thesis by (rule refused)
    next
      case (Inr v)
      then show ?thesis
        using assms b by (intro bound [OF Some True]) (auto simp: handleAuthenticate_def Some True Let_def)
    qed
  qed
qed

lemma web_inv_authenticate:
  assumes "web_inv F W" "wd_players W k = Some p" "handleAuthenticate E data now1 now2 k p W s = (W', s')"
  shows "web_inv F W'"
  using assms(3)
proof (cases rule: handleAuthenticate_world)
  case (bound token v' m')
  note inv = web_invD [OF assms(1)]
  have k: "pv_ID (pl_view p) = k" using web_inv_filed [OF assms(1,2)] by (simp add: filed_def)
  obtain v where v: "v \<in> live (wd_sessions W)" "ses_Bound v \<longrightarrow> ses_ConnID v = k"
    "\<forall>u \<in> live (wd_sessions W). ses_Bound u \<and> ses_ConnID u = k \<longrightarrow> u = v"
    "ses_PlayerID v' = ses_PlayerID v" "ses_AccountID v' = ses_AccountID v" "ses_Bound v'" "ses_ConnID v' = k"
    "live m' = insert v' (live (wd_sessions W) - {v})"
    using live_Bind [OF inv(2) bound(3) [unfolded k]] by blast
  obtain name where name: "wd_names W (ses_PlayerID v) = Some name"
    using ownedD(3) [OF guests_okD(2) [OF inv(4)] v(1)] by blast
  let ?p = "p\<lparr>pl_view := (pl_view p)\<lparr>pv_Name := name\<rparr>\<rparr>"
  have W': "W' = set_player k ?p (W\<lparr>wd_sessions := m'\<rparr>)" using bound(4) name v(4) by simp
  have "core_ok F W'"
    by (rule core_ok_player [OF inv(1), of _ k ?p p]) (use assms(2) in \<open>simp_all add: W' place_def steer_ok_def\<close>)
  moreover have "guests_ok (live m') W'"
    unfolding v(8)
    by (rule guests_ok_bind [OF inv(4) v(1-3) assms(2) v(4-7), of W' ?p]) (simp_all add: W' name)
  moreover have "session_inv m'" by (rule session_inv_Bind [OF inv(2) bound(3)])
  moreover have "sm_accountPolicy m' = RejectExisting"
    using bound(3) inv(3) by (rule_tac Bind_Inr) auto
  ultimately show ?thesis by (simp add: web_inv_def W')
qed (use assms(1) in simp)

lemma handleJoin_world:
  assumes "handleJoin E data k p W s = Some (W', s')"
  obtains (refused) "W' = W"
  | (joined) i a room where "decode (we_RoomID E) (we_EOF E) data = Some i" "wd_arenas W i = Some a" "pl_roomID p \<noteq> i"
      "Join (Some (pl_conn p)) (ar_room a) = (None, room)"
      "W' = fst (enterArena E k i (set_arena i (a\<lparr>ar_room := room\<rparr>) W) s)"
proof (cases "decode (we_RoomID E) (we_EOF E) data")
  case None
  then show ?thesis using assms refused by (simp add: handleJoin_def)
next
  case (Some i)
  show ?thesis
  proof (cases "wd_arenas W i")
    case None
    then show ?thesis using assms Some refused by (simp add: handleJoin_def)
  next
    case a: (Some a)
    obtain err room where j: "Join (Some (pl_conn p)) (ar_room a) = (err, room)" by fastforce
    show ?thesis
    proof (cases "pl_roomID p = i \<or> err \<noteq> None")
      case True
      then have "W' = W"
        using assms Some a j
        by (cases "pl_roomID p = i") (auto simp: handleJoin_def Let_def Option.bind_eq_Some_conv)
      then show ?thesis by (rule refused)
    next
      case False
      then have "W' = fst (enterArena E k i (set_arena i (a\<lparr>ar_room := room\<rparr>) W) s)"
        using assms Some a j by (auto simp: handleJoin_def Let_def Option.bind_eq_Some_conv split: prod.splits)
      with joined [OF Some a] False j show ?thesis by auto
    qed
  qed
qed

lemma web_inv_join:
  assumes "web_inv (we_fpu E) W" "wd_players W k = Some p" "GetByConnID (wd_sessions W) k now = Inr v"
    and "handleJoin E data k p W s = Some (W', s')"
  shows "web_inv (we_fpu E) W'"
  using assms(4)
proof (cases rule: handleJoin_world)
  case (joined i a room)
  note inv = web_invD [OF assms(1)]
  note b = bound_session [OF inv(2) assms(3)]
  have core: "core_ok (we_fpu E) W'"
    unfolding joined(5) by (rule core_ok_enter [OF inv(1) assms(2) joined(2-4)])
  obtain W1 where W1: "fst (enterArena E k i (set_arena i (a\<lparr>ar_room := room\<rparr>) W) s) = W1"
    "wd_players W1 = (wd_players W)(k \<mapsto> arrived i p)" "wd_sessions W1 = wd_sessions W" "wd_names W1 = wd_names W"
    "wd_nextGuest W1 = wd_nextGuest W"
    by (rule enterArena_world [OF assms(2) joined(3), of E "a\<lparr>ar_room := room\<rparr>" s]) simp
  have "guests_ok (live (wd_sessions W)) W1"
    by (rule guests_ok_update [OF inv(4) W1(4,5,2) assms(2)]) (use b in auto)
  then show ?thesis using core inv(2,3) W1(1,3) joined(5) by (simp add: web_inv_def)
qed (use assms(1) in simp)

lemma handleInput_world:
  assumes "handleInput E data now k p W s = (W', s')"
  obtains (ignored) "W' = W"
  | (steered) dx dy seq where "decode (we_Input E) (we_EOF E) data = Some (dx, dy, seq)"
      "\<not> IsNaN dx" "\<not> IsNaN dy" "\<not> flt (Fin 1) (Abs dx)" "\<not> flt (Fin 1) (Abs dy)"
      "pl_roomID p \<noteq> 0" "pv_Seq (pl_view p) < seq"
      "W' = set_player k (p\<lparr>
         pl_dx := (if flt (Fin 1) (Hypot (we_fpu E) dx dy) then fdiv (we_fpu E) dx (Hypot (we_fpu E) dx dy) else dx),
         pl_dy := (if flt (Fin 1) (Hypot (we_fpu E) dx dy) then fdiv (we_fpu E) dy (Hypot (we_fpu E) dx dy) else dy),
         pl_view := (pl_view p)\<lparr>pv_Seq := seq\<rparr>, pl_inputAt := now\<rparr>) W"
proof (cases "decode (we_Input E) (we_EOF E) data")
  case None
  then show ?thesis using assms ignored by (simp add: handleInput_def)
next
  case (Some b)
  obtain dx dy seq where b: "b = (dx, dy, seq)" using prod_cases3 by blast
  let ?bad = "IsNaN dx \<or> IsNaN dy \<or> flt (Fin 1) (Abs dx) \<or> flt (Fin 1) (Abs dy) \<or> seq = 0 \<or> pl_roomID p = 0 \<or>
    seq \<le> pv_Seq (pl_view p)"
  show ?thesis
  proof (cases ?bad)
    case True
    then have "W' = W" using assms Some b by (auto simp: handleInput_def split: if_splits)
    then show ?thesis by (rule ignored)
  next
    case False
    then show ?thesis
      using assms Some b by (intro steered [of dx dy seq]) (auto simp: handleInput_def Let_def not_le split: if_splits)
  qed
qed

lemma steer_num:
  assumes "round_num F" "\<not> IsNaN d" "\<not> flt (Fin 1) (Abs d)"
  shows "(if flt (Fin 1) h then fdiv F d h else d) \<noteq> NaN" "\<exists>x. d = Fin x"
proof -
  show x: "\<exists>x. d = Fin x" using assms(2,3) by (cases d) (auto simp: IsNaN_def)
  with assms(1) show "(if flt (Fin 1) h then fdiv F d h else d) \<noteq> NaN" by (cases h) (auto simp: round_numD)
qed

text \<open>In exact arithmetic the direction of an accepted input is at most one long.\<close>

lemma steer_unit:
  assumes "exact_fpu F" "h = Hypot F (Fin x) (Fin y)"
  shows "\<exists>u v. (if flt (Fin 1) h then fdiv F (Fin x) h else Fin x) = Fin u \<and>
    (if flt (Fin 1) h then fdiv F (Fin y) h else Fin y) = Fin v \<and> u\<^sup>2 + v\<^sup>2 \<le> 1"
proof (cases "sqrt (x\<^sup>2 + y\<^sup>2) > 1")
  case True
  have pos: "x\<^sup>2 + y\<^sup>2 > 0" using True by (metis less_trans real_sqrt_gt_0_iff zero_less_one)
  have "(x / sqrt (x\<^sup>2 + y\<^sup>2))\<^sup>2 + (y / sqrt (x\<^sup>2 + y\<^sup>2))\<^sup>2 = 1"
    using pos by (auto simp: power_divide add_divide_distrib [symmetric])
  with True pos show ?thesis
    by (auto simp: assms(2) Hypot_exact [OF assms(1)] exact_round [OF assms(1)])
next
  case False
  then have "x\<^sup>2 + y\<^sup>2 \<le> 1" by (simp add: not_less)
  with False show ?thesis by (simp add: assms(2) Hypot_exact [OF assms(1)])
qed

lemma web_inv_input:
  assumes "web_inv (we_fpu E) W" "round_num (we_fpu E)" "wd_players W k = Some p"
    and "handleInput E data now k p W s = (W', s')"
  shows "web_inv (we_fpu E) W'"
  using assms(4)
proof (cases rule: handleInput_world)
  case (steered dx dy seq)
  note inv = web_invD [OF assms(1)]
  define p' where "p' = p\<lparr>
     pl_dx := (if flt (Fin 1) (Hypot (we_fpu E) dx dy) then fdiv (we_fpu E) dx (Hypot (we_fpu E) dx dy) else dx),
     pl_dy := (if flt (Fin 1) (Hypot (we_fpu E) dx dy) then fdiv (we_fpu E) dy (Hypot (we_fpu E) dx dy) else dy),
     pl_view := (pl_view p)\<lparr>pv_Seq := seq\<rparr>, pl_inputAt := now\<rparr>"
  have p': "pl_roomID p' = pl_roomID p" "pl_conn p' = pl_conn p" "place p' = place p"
    "pv_ID (pl_view p') = pv_ID (pl_view p)" "pv_Name (pl_view p') = pv_Name (pl_view p)"
    by (simp_all add: p'_def place_def)
  obtain x y where xy: "dx = Fin x" "dy = Fin y"
    using steer_num(2) [OF assms(2) steered(2,4)] steer_num(2) [OF assms(2) steered(3,5)] by blast
  have "pl_dx p' \<noteq> NaN" "pl_dy p' \<noteq> NaN"
    using steer_num(1) [OF assms(2) steered(2,4), of "Hypot (we_fpu E) dx dy"]
      steer_num(1) [OF assms(2) steered(3,5), of "Hypot (we_fpu E) dx dy"] by (simp_all add: p'_def)
  moreover have "\<exists>u v. pl_dx p' = Fin u \<and> pl_dy p' = Fin v \<and> u\<^sup>2 + v\<^sup>2 \<le> 1" if "exact_fpu (we_fpu E)"
    using steer_unit [OF that refl, of x y] by (simp add: p'_def xy split: if_splits)
  ultimately have steer: "steer_ok (we_fpu E) p'" by (simp add: steer_ok_def)
  have W': "W' = set_player k p' W" using steered(8) by (simp add: p'_def)
  have "core_ok (we_fpu E) W'"
    by (rule core_ok_player [OF inv(1) _ _ assms(3), where p' = p']) (simp_all add: W' p' steer)
  moreover have "guests_ok (live (wd_sessions W)) W'"
    by (rule guests_ok_update [OF inv(4) _ _ _ assms(3), where p' = p']) (simp_all add: W' p')
  ultimately show ?thesis using inv(2,3) by (simp add: web_inv_def W')
qed (use assms(1) in simp)

lemma handleLeave_world:
  assumes "wd_players W k = Some p" "handleLeave E data k p W s = (W', s')"
  shows "W' = W \<or> W' = leftWorld k p W"
proof (cases "decode (we_Empty E) (we_EOF E) data")
  case (Some u)
  obtain s1 where "worldLeave E k W s = (leftWorld k p W, s1)"
    using worldLeave_world [OF assms(1), of E s] by (cases "worldLeave E k W s") simp
  with assms(2) Some show ?thesis by (simp add: handleLeave_def)
qed (use assms(2) in \<open>simp add: handleLeave_def\<close>)

lemma web_inv_handle:
  assumes "web_inv (we_fpu E) W" "round_num (we_fpu E)"
    and "worldHandle E connID msgID data now1 now2 W s = Some (W', s')"
  shows "web_inv (we_fpu E) W'"
proof (cases "wd_players W connID")
  case None
  then show ?thesis using assms(1,3) by (simp add: worldHandle_def)
next
  case (Some p)
  have k: "pv_ID (pl_view p) = connID" using web_inv_filed [OF assms(1) Some] by (simp add: filed_def)
  consider "W' = W"
    | "handleAuthenticate E data now1 now2 connID p W s = (W', s')"
    | v where "GetByConnID (wd_sessions W) connID now1 = Inr v" "handleJoin E data connID p W s = Some (W', s')"
    | "handleInput E data now2 connID p W s = (W', s')"
    | "handleLeave E data connID p W s = (W', s')"
    | "handleHeartbeat E data p W s = (W', s')"
    using assms(3) Some k by (auto simp: worldHandle_def split: if_splits sum.splits)
  then show ?thesis
  proof cases
    case 2 then show ?thesis by (rule web_inv_authenticate [OF assms(1) Some])
  next
    case 3 then show ?thesis by (rule web_inv_join [OF assms(1) Some])
  next
    case 4 then show ?thesis by (rule web_inv_input [OF assms(1,2) Some])
  next
    case 5 then show ?thesis
      using handleLeave_world [OF Some 5] web_inv_left [OF assms(1) Some] assms(1) by auto
  next
    case 6 then show ?thesis using assms(1) by (auto simp: handleHeartbeat_def split: option.splits)
  qed (use assms(1) in simp)
qed


subsection \<open>The time step\<close>

text \<open>One expired session, without the event its player sends.\<close>

definition expireOne :: "Session \<Rightarrow> World \<Rightarrow> World" where
  "expireOne v W =
     (case wd_players W (ses_ConnID v) of
        Some p \<Rightarrow> if ses_Bound v then leftWorld (ses_ConnID v) p W else W
      | None \<Rightarrow> W)\<lparr>wd_names := (wd_names W)(ses_PlayerID v := None)\<rparr>"

lemma leftWorld_names:
  "leftWorld k p (W\<lparr>wd_names := f\<rparr>) = (leftWorld k p W)\<lparr>wd_names := f\<rparr>"
  by (simp add: leftWorld_def split: option.split)

lemma expireSessions_Cons:
  obtains s' where "expireSessions E (v # vs) (W, s) = expireSessions E vs (expireOne v W, s')"
proof (cases "ses_Bound v \<and> wd_players W (ses_ConnID v) \<noteq> None")
  case False
  then have "expireSessions E (v # vs) (W, s) = expireSessions E vs (expireOne v W, s)"
    by (cases "wd_players W (ses_ConnID v)") (simp_all add: expireOne_def Let_def)
  then show ?thesis by (rule that)
next
  case True
  then obtain p where p: "ses_Bound v" "wd_players W (ses_ConnID v) = Some p" by blast
  let ?W = "W\<lparr>wd_names := (wd_names W)(ses_PlayerID v := None)\<rparr>"
  obtain s1 where "worldLeave E (ses_ConnID v) ?W s = (leftWorld (ses_ConnID v) p ?W, s1)"
    using worldLeave_world [of ?W "ses_ConnID v" p E s] p(2) by (cases "worldLeave E (ses_ConnID v) ?W s") simp
  with p have "expireSessions E (v # vs) (W, s) = expireSessions E vs (expireOne v W, storeStop (pl_conn p) s1)"
    by (simp add: expireOne_def leftWorld_names)
  then show ?thesis by (rule that)
qed

definition same_clock :: "World \<Rightarrow> World \<Rightarrow> bool" where
  "same_clock W W' \<longleftrightarrow> wd_sessions W' = wd_sessions W \<and> wd_tick W' = wd_tick W \<and> wd_closed W' = wd_closed W \<and>
     wd_running W' = wd_running W"

lemma expireOne_ok:
  assumes "core_ok F W" "guests_ok (insert v S) W" "v \<notin> S"
  shows "core_ok F (expireOne v W)" "guests_ok S (expireOne v W)" "same_clock W (expireOne v W)"
proof -
  define W1 where "W1 = (case wd_players W (ses_ConnID v) of
      Some p \<Rightarrow> if ses_Bound v then leftWorld (ses_ConnID v) p W else W | None \<Rightarrow> W)"
  have e: "expireOne v W = W1\<lparr>wd_names := (wd_names W)(ses_PlayerID v := None)\<rparr>"
    unfolding expireOne_def W1_def ..
  have names: "wd_names W1 = wd_names W" by (simp add: W1_def split: option.split)
  show "same_clock W (expireOne v W)" by (simp add: e W1_def same_clock_def split: option.split)
  have "core_ok F W1" "guests_ok (insert v S) W1"
    using assms(1,2) core_ok_left [OF assms(1)] guests_ok_left [OF assms(2)]
    by (simp_all add: W1_def split: option.split)
  moreover have "pl_roomID q = 0" if "ses_Bound v" "wd_players W1 (ses_ConnID v) = Some q" for q
    using that by (auto simp: W1_def leftWorld_players split: option.splits)
  ultimately have "guests_ok (insert v S - {v}) (expireOne v W)" "core_ok F (expireOne v W)"
    using guests_ok_drop [of "insert v S" W1 v "expireOne v W"] core_ok_same [of F W1 "expireOne v W"]
    by (simp_all add: e names)
  then show "core_ok F (expireOne v W)" "guests_ok S (expireOne v W)"
    using assms(3) by (simp_all add: insert_Diff_if)
qed

lemma expireSessions_ok:
  "core_ok F W \<Longrightarrow> guests_ok (set vs \<union> S) W \<Longrightarrow> distinct vs \<Longrightarrow> set vs \<inter> S = {} \<Longrightarrow>
   expireSessions E vs (W, s) = (W', s') \<Longrightarrow> core_ok F W' \<and> guests_ok S W' \<and> same_clock W W'"
proof (induction vs arbitrary: W s)
  case Nil
  then show ?case by (simp add: same_clock_def)
next
  case (Cons v vs)
  obtain s1 where eq: "expireSessions E (v # vs) (W, s) = expireSessions E vs (expireOne v W, s1)"
    by (rule expireSessions_Cons)
  have "v \<notin> set vs \<union> S" using Cons.prems(3,4) by auto
  moreover have "guests_ok (insert v (set vs \<union> S)) W" using Cons.prems(2) by simp
  ultimately have one: "core_ok F (expireOne v W)" "guests_ok (set vs \<union> S) (expireOne v W)" "same_clock W (expireOne v W)"
    using expireOne_ok [OF Cons.prems(1)] by blast+
  have "core_ok F W' \<and> guests_ok S W' \<and> same_clock (expireOne v W) W'"
    by (rule Cons.IH [OF one(1,2)]) (use Cons.prems(3-5) eq in auto)
  with one(3) show ?case by (simp add: same_clock_def)
qed

text \<open>The stages of a time step.\<close>

lemma worldStep_stages:
  assumes "\<not> wd_closed W" "worldStep E order now W s = Some (W', s')"
  obtains gone m' W2 s2 W3 s3 where
    "RemoveExpired order now (wd_sessions W) = (gone, m')"
    "expireSessions E gone (W\<lparr>wd_tick := wd_tick W + 1, wd_sessions := m'\<rparr>, s) = (W2, s2)"
    "stepPlayers E now (tickOrder (wd_tick W2) (we_visit E (dom (wd_players W2)))) (W2, s2) = Some (W3, s3)"
    "stepArenas E now (we_visit E (dom (wd_arenas W3))) (W3, s3) = Some (W', s')"
proof -
  obtain gone m' where r: "RemoveExpired order now (wd_sessions W) = (gone, m')" by fastforce
  obtain W2 s2 where e: "expireSessions E gone (W\<lparr>wd_tick := wd_tick W + 1, wd_sessions := m'\<rparr>, s) = (W2, s2)" by fastforce
  from assms r e show ?thesis
    by (auto simp: worldStep_def Let_def Option.bind_eq_Some_conv intro!: that [OF r e])
qed

lemma expired_world:
  assumes "web_inv F W" "map_order (sm_byToken (wd_sessions W)) order"
    and "RemoveExpired order now (wd_sessions W) = (gone, m')"
    and "expireSessions E gone (W\<lparr>wd_tick := wd_tick W + 1, wd_sessions := m'\<rparr>, s) = (W2, s2)"
  shows "web_inv F W2"
proof -
  note inv = web_invD [OF assms(1)] and ex = live_RemoveExpired [OF web_invD(2) [OF assms(1)] assms(2,3)]
  let ?W = "W\<lparr>wd_tick := wd_tick W + 1, wd_sessions := m'\<rparr>"
  have "core_ok F ?W" by (rule core_ok_same [OF inv(1)]) simp_all
  moreover have "set gone \<union> live m' = live (wd_sessions W)" "set gone \<inter> live m' = {}" using ex(3,4) by auto
  moreover have "guests_ok (live (wd_sessions W)) ?W"
    using inv(4) by (simp add: guests_ok_def owned_def named_def seated_def)
  ultimately have W2: "core_ok F W2 \<and> guests_ok (live m') W2 \<and> same_clock ?W W2"
    using expireSessions_ok [of F ?W gone "live m'" E s W2 s2] ex(5) assms(4) by simp
  then have "wd_sessions W2 = m'" by (simp add: same_clock_def)
  then show ?thesis using W2 ex(1,2) inv(3) by (simp add: web_inv_def)
qed

lemma web_inv_step:
  assumes "web_inv (we_fpu E) W" "round_num (we_fpu E)" "visits (we_visit E)"
    and "map_order (sm_byToken (wd_sessions W)) order" "worldStep E order now W s = Some (W', s')"
  shows "web_inv (we_fpu E) W'"
proof (cases "wd_closed W")
  case True
  then show ?thesis using assms(1,5) by (simp add: worldStep_def)
next
  case False
  from False assms(5) obtain gone m' W2 s2 W3 s3 where
    r: "RemoveExpired order now (wd_sessions W) = (gone, m')"
    and e: "expireSessions E gone (W\<lparr>wd_tick := wd_tick W + 1, wd_sessions := m'\<rparr>, s) = (W2, s2)"
    and p: "stepPlayers E now (tickOrder (wd_tick W2) (we_visit E (dom (wd_players W2)))) (W2, s2) = Some (W3, s3)"
    and a: "stepArenas E now (we_visit E (dom (wd_arenas W3))) (W3, s3) = Some (W', s')"
    by (rule worldStep_stages)
  have inv2: "web_inv (we_fpu E) W2" by (rule expired_world [OF assms(1,4) r e])
  have "core_ok (we_fpu E) W3 \<and> keeps W2 W3"
    by (rule stepPlayers_ok [OF web_invD(1) [OF inv2] assms(2) _ p])
       (use assms(3) in \<open>simp add: tickOrder_set visits_def\<close>)
  moreover have "dom (wd_arenas W3) = {1, 2}"
    using calculation by (simp add: core_ok_def arenas_ok_def)
  moreover have "core_ok (we_fpu E) W' \<and> keeps W3 W'"
    by (rule stepArenas_ok [OF _ _ a]) (use calculation assms(3) in \<open>simp_all add: visits_def\<close>)
  ultimately show ?thesis using web_inv_keeps [OF inv2] keeps_trans by blast
qed

section \<open>The world as a step system\<close>

text \<open>
  The steps are the method calls, each on some store of connections and with some order of visiting
  the maps. A token is new, fewer than \<open>2 ^ 64\<close> guests have been counted, and the server starts
  a connection under an id that no connected player has.
\<close>

definition web_init :: "World \<Rightarrow> bool" where
  "web_init W \<longleftrightarrow> W = NewWorld"

inductive web_step :: "fpu \<Rightarrow> World \<Rightarrow> World \<Rightarrow> bool" for F :: fpu where
  step_guest: "\<lbrakk>\<And>token. createToken random = Inr token \<Longrightarrow> sm_byToken (wd_sessions W) token = None;
     wd_nextGuest W < wd_nextGuest W + 1; WorldGuest name random now W = (r, W')\<rbrakk> \<Longrightarrow> web_step F W W'"
| step_start: "\<lbrakk>wd_players W (ic_connID c) = None;
     onConnStart c now W (s :: unit conn_store) = (W', s')\<rbrakk> \<Longrightarrow> web_step F W W'"
| step_stop: "\<lbrakk>we_fpu E = F; onConnStop E c W (s :: unit conn_store) = (W', s')\<rbrakk> \<Longrightarrow> web_step F W W'"
| step_handle: "\<lbrakk>we_fpu E = F; visits (we_visit E);
     worldHandle E connID msgID data now1 now2 W (s :: unit conn_store) = Some (W', s')\<rbrakk> \<Longrightarrow> web_step F W W'"
| step_tick: "\<lbrakk>we_fpu E = F; visits (we_visit E); map_order (sm_byToken (wd_sessions W)) order; wd_running W;
     worldStep E order now W (s :: unit conn_store) = Some (W', s')\<rbrakk> \<Longrightarrow> web_step F W W'"
| step_run: "worldRun W = Some W' \<Longrightarrow> web_step F W W'"
| step_exit: "wd_running W \<Longrightarrow> web_step F W (worldRunExit W)"
| step_close: "worldClose E W (s :: unit conn_store) = (W', s') \<Longrightarrow> web_step F W W'"

lemma NewWorld_fields:
  "wd_players NewWorld = Map.empty" "wd_names NewWorld = Map.empty" "wd_nextGuest NewWorld = 0"
  "wd_sessions NewWorld = projr (New RejectExisting)" "wd_tick NewWorld = 0" "wd_closed NewWorld = False"
  "wd_running NewWorld = False"
  by (simp_all add: NewWorld_def newArena_def Let_def split: prod.split)

lemma NewWorld_arenas:
  "wd_arenas NewWorld = (\<lambda>i. if i \<in> {1, 2} then Some
     \<lparr> ar_room = (NewRoom i 8)\<lparr>rm_state := RoomStateRunning\<rparr>,
       ar_aoi = \<lparr> am_worldWidth = Fin 960, am_worldHeight = Fin 540, am_cellWidth = Fin 160,
         am_cellHeight = Fin 135, am_entities = Map.empty, am_cells = Map.empty \<rparr>,
       ar_crystals = startCrystals, ar_respawn = Map.empty \<rparr> else None)"
  by (auto simp: NewWorld_def newArena_def Let_def CreateRoom_def NewRoomManager_def on_room_def Start_def
      NewRoom_def NewAOIManager_def WorldWidth_def WorldHeight_def fun_eq_iff)

lemma web_inv_NewWorld: "web_inv F NewWorld"
proof -
  let ?am = "\<lparr> am_worldWidth = Fin 960, am_worldHeight = Fin 540, am_cellWidth = Fin 160,
         am_cellHeight = Fin 135, am_entities = Map.empty, am_cells = Map.empty \<rparr>"
  have New: "New RejectExisting = Inr (projr (New RejectExisting))" by (simp add: New_def)
  have "aoi_inv F ?am"
    by (rule aoi_inv_new [of "Fin 960" "Fin 540" "Fin 160" "Fin 135"]) (simp add: NewAOIManager_def)
  then have "arenas_ok F NewWorld"
    by (auto simp: arenas_ok_def NewWorld_arenas arena_ok_def room_agrees_def grid_agrees_def sizes_def
        inside_def NewWorld_fields room_ok_def NewRoom_def dom_def split: if_splits)
  moreover have "players_filed F NewWorld" by (simp add: players_filed_def NewWorld_fields)
  moreover have "sm_byToken (projr (New RejectExisting)) = Map.empty" "sm_accountPolicy (projr (New RejectExisting)) = RejectExisting"
    by (simp_all add: New_def)
  ultimately show ?thesis
    using session_inv_New [OF New]
    by (simp add: web_inv_def core_ok_def guests_ok_def uniq_def owned_def named_def seated_def NewWorld_fields)
qed

lemma web_inv_web_step:
  assumes "round_num F" "web_inv F W" "web_step F W W'"
  shows "web_inv F W'"
  using assms(3)
proof cases
  case (step_guest random name now r)
  then show ?thesis using web_inv_Guest [OF assms(2)] by blast
next
  case (step_start c now s s')
  then show ?thesis using web_inv_onConnStart [OF assms(2)] by blast
next
  case (step_stop E c s s')
  then show ?thesis using web_inv_onConnStop [OF assms(2)] by blast
next
  case (step_handle E connID msgID data now1 now2 s s')
  then show ?thesis using web_inv_handle [of E W] assms(1,2) by blast
next
  case (step_tick E order now s s')
  then show ?thesis using web_inv_step [of E W order now s W' s'] assms(1,2) by blast
next
  case step_run
  then show ?thesis using web_inv_flags(2) [OF assms(2)] by (auto simp: worldRun_def split: if_splits)
next
  case step_exit
  then show ?thesis using web_inv_flags(2) [OF assms(2)] by (simp add: worldRunExit_def)
next
  case (step_close E s s')
  then show ?thesis using web_inv_flags(3) [OF assms(2)] by (auto simp: worldClose_def)
qed

interpretation web: invariant_system web_init "web_step F" "\<lambda>W. round_num F \<longrightarrow> web_inv F W" for F
  by unfold_locales (auto simp: web_init_def web_inv_NewWorld intro: web_inv_web_step)

end
