(* ===== verification/WebTick.thy ===== *)
theory WebTick
  imports WebRun
begin

text \<open>
  The time step of the web arena in detail: it always returns, a player's turn, the length of a move, the
  phases of a tick, the ledger of the crystals and the content of a snapshot.
\<close>

section \<open>The grid never overflows\<close>

lemma arena_inner_grid:
  assumes "arena_ok F i a ins" "round_ok F"
  shows "inner_grid F (ar_aoi a)"
proof (rule inner_grid_finite [OF assms(2)])
  have "sizes (ar_aoi a) = (Fin 960, Fin 540, Fin 160, Fin 135)"
    using assms(1) by (simp add: arena_ok_def grid_agrees_def)
  then show "finite_grid (ar_aoi a)" by (simp add: finite_grid_def sizes_def)
qed

lemma arena_calls_return:
  assumes "arena_ok F i a ins" "round_ok F" "visits visit"
  shows "\<exists>r. GetNearbyEntityIDs visit k (ar_aoi a) = Some r" "\<exists>r am'. MoveEntity visit F k p (ar_aoi a) = Some (r, am')"
  using aoi_calls_return [OF assms(3) _ arena_inner_grid [OF assms(1,2)]] assms(1)
  by (simp_all add: arena_ok_def grid_agrees_def)

lemma snapshotPlayers_returns:
  "arena_ok (we_fpu E) i a ins \<Longrightarrow> round_ok (we_fpu E) \<Longrightarrow> visits (we_visit E) \<Longrightarrow>
   \<exists>views. snapshotPlayers E a W cs = Some views"
proof (induction cs)
  case (Cons c cs)
  then obtain views where "snapshotPlayers E a W cs = Some views" by blast
  moreover have "\<exists>r. GetNearbyEntityIDs (we_visit E) k (ar_aoi a) = Some r" for k
    by (rule arena_calls_return(1) [OF Cons.prems])
  ultimately show ?case
    by (cases "wd_players W (ic_connID c)") (auto simp: Option.bind_eq_Some_conv)
qed simp

lemma arenaBroadcast_returns:
  "arena_ok (we_fpu E) i a ins \<Longrightarrow> round_ok (we_fpu E) \<Longrightarrow> visits (we_visit E) \<Longrightarrow>
   \<exists>s'. arenaBroadcast E a W s = Some s'"
  using snapshotPlayers_returns [of E i a ins W "Members (we_visit E (dom (rm_members (ar_room a)))) (ar_room a)"]
  by (auto simp: arenaBroadcast_def snapshot_def)

lemma movePlayer_returns:
  assumes "core_ok (we_fpu E) W" "round_ok (we_fpu E)" "visits (we_visit E)"
    and "wd_players W k = Some p" "wd_arenas W (pl_roomID p) = Some a"
  shows "\<exists>W'. movePlayer E now k W = Some W'"
  using arena_calls_return(2) [OF arenas_okD(1) [OF core_okD(2) [OF assms(1)] assms(5)] assms(2,3)] assms(4,5)
  by (auto simp: movePlayer_def Let_def Option.bind_eq_Some_conv)

lemma stepPlayer_returns:
  assumes "core_ok (we_fpu E) W" "round_ok (we_fpu E)" "visits (we_visit E)" "wd_players W k = Some p"
  shows "\<exists>Ws. stepPlayer E now k (W, s) = Some Ws"
  using movePlayer_returns [OF assms(1-3), of k p _ now] assms(4)
  by (cases "wd_arenas W (pl_roomID p)") (auto simp: stepPlayer_def Let_def Option.bind_eq_Some_conv)

lemma stepPlayers_returns:
  assumes "round_num (we_fpu E)" "round_ok (we_fpu E)" "visits (we_visit E)"
  shows "core_ok (we_fpu E) W \<Longrightarrow> set ks \<subseteq> dom (wd_players W) \<Longrightarrow> \<exists>Ws. stepPlayers E now ks (W, s) = Some Ws"
proof (induction ks arbitrary: W s)
  case (Cons k ks)
  then obtain p where "wd_players W k = Some p" by auto
  then obtain W1 s1 where one: "stepPlayer E now k (W, s) = Some (W1, s1)"
    using stepPlayer_returns [OF Cons.prems(1) assms(2,3)] by fastforce
  have ok: "core_ok (we_fpu E) W1 \<and> keeps W W1"
    by (rule stepPlayer_ok [OF Cons.prems(1) assms(1) _ one]) (use Cons.prems(2) in auto)
  then have "set ks \<subseteq> dom (wd_players W1)" using keeps_dom [of W W1] Cons.prems(2) by auto
  with Cons.IH ok one show ?case by simp
qed simp

lemma stepArenas_returns:
  assumes "round_ok (we_fpu E)" "visits (we_visit E)"
  shows "core_ok (we_fpu E) W \<Longrightarrow> set is \<subseteq> {1, 2} \<Longrightarrow> \<exists>Ws. stepArenas E now is (W, s) = Some Ws"
proof (induction "is" arbitrary: W s)
  case (Cons i "is")
  then obtain a where a: "wd_arenas W i = Some a"
    using arenas_okD(2) [OF core_okD(2) [OF Cons.prems(1)], of i] by auto
  let ?W = "set_arena i (respawned now a) W"
  have ok: "core_ok (we_fpu E) ?W" by (rule core_ok_respawned [OF Cons.prems(1) a])
  have "arena_ok (we_fpu E) i (respawned now a) (inside ?W i)"
    by (rule arenas_okD(1) [OF core_okD(2) [OF ok]]) simp
  then obtain s1 where s1: "arenaBroadcast E (respawned now a) ?W s = Some s1"
    using arenaBroadcast_returns assms by blast
  have "\<exists>Ws. stepArenas E now is (?W, s) = Some Ws" "\<exists>Ws. stepArenas E now is (?W, s1) = Some Ws"
    using Cons.IH [OF ok, of s] Cons.IH [OF ok, of s1] Cons.prems(2) by simp_all
  then show ?case using a s1 by (simp add: respawned_def [symmetric] Let_def)
qed simp

lemma worldStep_returns:
  assumes "web_inv (we_fpu E) W" "round_num (we_fpu E)" "round_ok (we_fpu E)" "visits (we_visit E)"
    and "map_order (sm_byToken (wd_sessions W)) order"
  shows "\<exists>W' s'. worldStep E order now W s = Some (W', s')"
proof (cases "wd_closed W")
  case True
  then show ?thesis by (simp add: worldStep_def)
next
  case False
  note inv = web_invD [OF assms(1)]
  obtain gone m' where r: "RemoveExpired order now (wd_sessions W) = (gone, m')" by fastforce
  let ?W = "W\<lparr>wd_tick := wd_tick W + 1, wd_sessions := m'\<rparr>"
  obtain W2 s2 where e: "expireSessions E gone (?W, s) = (W2, s2)" by fastforce
  have ok2: "core_ok (we_fpu E) W2"
    using expired_world [OF assms(1,5) r e] web_invD(1) by blast
  have "set (tickOrder (wd_tick W2) (we_visit E (dom (wd_players W2)))) \<subseteq> dom (wd_players W2)"
    using assms(4) by (simp add: tickOrder_set visits_def)
  then obtain W3 s3 where p: "stepPlayers E now (tickOrder (wd_tick W2) (we_visit E (dom (wd_players W2)))) (W2, s2) = Some (W3, s3)"
    using stepPlayers_returns [OF assms(2-4) ok2, of _ now s2] by fastforce
  have ok3: "core_ok (we_fpu E) W3"
    using stepPlayers_ok [OF ok2 assms(2) _ p] assms(4) by (simp add: tickOrder_set visits_def)
  then have "dom (wd_arenas W3) = {1, 2}" by (simp add: core_ok_def arenas_ok_def)
  then have "set (we_visit E (dom (wd_arenas W3))) \<subseteq> {1, 2}" using assms(4) by (simp add: visits_def)
  then obtain W' s' where "stepArenas E now (we_visit E (dom (wd_arenas W3))) (W3, s3) = Some (W', s')"
    using stepArenas_returns [OF assms(3,4) ok3, of _ now s3] by fastforce
  with False r e p show ?thesis by (simp add: worldStep_def Let_def)
qed


section \<open>What a player's turn does\<close>

text \<open>A turn changes nothing, or moves the player (or not) and collects what is then in reach.\<close>

definition turn :: "fpu \<Rightarrow> gotime \<Rightarrow> u32 \<Rightarrow> player \<Rightarrow> arena \<Rightarrow> AOIManager \<Rightarrow> player \<Rightarrow> World \<Rightarrow> World \<Rightarrow> bool" where
  "turn F now k p a am p1 W W' \<longleftrightarrow>
     (let G = pickable F p1 a startCrystals
      in wd_players W' = (wd_players W)(k \<mapsto> score G p1) \<and>
         wd_arenas W' = (wd_arenas W)(pl_roomID p \<mapsto> hide (now + seconds5) G (a\<lparr>ar_aoi := am\<rparr>)))"

lemma pickable_aoi [simp]: "pickable F p (a\<lparr>ar_aoi := am\<rparr>) cs = pickable F p a cs"
  by (simp add: pickable_def)

lemma stepPlayer_effect:
  assumes "core_ok (we_fpu E) W" "wd_players W k = Some p" "stepPlayer E now k (W, s) = Some (W', s')"
  obtains (nothing) "W' = W"
  | (turn) a am p1 where "wd_arenas W (pl_roomID p) = Some a" "p1 = p \<or> p1 = moveTo (we_fpu E) p"
      "turn (we_fpu E) now k p a am p1 W W'"
  using assms(2,3)
proof (cases rule: stepPlayer_world)
  case (plays a W1)
  have crystals: "ar_crystals a = startCrystals"
    using arenas_okD(1) [OF core_okD(2) [OF assms(1)] plays(1)] by (simp add: arena_ok_def)
  from assms(2) plays(1,2) show ?thesis
  proof (cases rule: movePlayer_world)
    case stays
    have "turn (we_fpu E) now k p a (ar_aoi a) p W W'"
      using collect_world [OF assms(2) plays(1), of startCrystals E now s] startCrystals_distinct
      by (simp add: turn_def plays(3) crystals stays(2))
    with plays(1) turn show ?thesis by blast
  next
    case (moves r aoi)
    let ?p = "moveTo (we_fpu E) p"
    have "turn (we_fpu E) now k p a aoi ?p W W'"
      using collect_world [of W1 k ?p "a\<lparr>ar_aoi := aoi\<rparr>" startCrystals E now s] startCrystals_distinct
      by (simp add: turn_def plays(3) crystals moves(3))
    with plays(1) turn show ?thesis by blast
  qed
qed (use nothing in simp_all)

subsection \<open>Speed\<close>

text \<open>One player before and after the turns of a tick.\<close>

definition stepped :: "fpu \<Rightarrow> player \<Rightarrow> player \<Rightarrow> bool" where
  "stepped F p p' \<longleftrightarrow> place p' = place p \<or> place p' = place (moveTo F p)"

lemma stepPlayer_other:
  assumes "core_ok (we_fpu E) W" "wd_players W k = Some p" "stepPlayer E now k (W, s) = Some (W', s')"
  shows "j \<noteq> k \<Longrightarrow> wd_players W' j = wd_players W j" "\<exists>p'. wd_players W' k = Some p' \<and> stepped (we_fpu E) p p'"
proof -
  have "(j \<noteq> k \<longrightarrow> wd_players W' j = wd_players W j) \<and> (\<exists>p'. wd_players W' k = Some p' \<and> stepped (we_fpu E) p p')"
    using assms
  proof (cases rule: stepPlayer_effect)
    case nothing
    then show ?thesis using assms(2) by (simp add: stepped_def)
  next
    case (turn a am p1)
    then show ?thesis by (auto simp: turn_def Let_def stepped_def)
  qed
  then show "j \<noteq> k \<Longrightarrow> wd_players W' j = wd_players W j" "\<exists>p'. wd_players W' k = Some p' \<and> stepped (we_fpu E) p p'"
    by blast+
qed

lemma stepPlayers_stepped:
  assumes "round_num (we_fpu E)"
  shows "core_ok (we_fpu E) W \<Longrightarrow> set ks \<subseteq> dom (wd_players W) \<Longrightarrow> distinct ks \<Longrightarrow>
    stepPlayers E now ks (W, s) = Some (W', s') \<Longrightarrow> wd_players W j = Some p \<Longrightarrow>
    \<exists>p'. wd_players W' j = Some p' \<and> (if j \<in> set ks then stepped (we_fpu E) p p' else p' = p)"
proof (induction ks arbitrary: W s p)
  case (Cons k ks)
  obtain W1 s1 where one: "stepPlayer E now k (W, s) = Some (W1, s1)"
    and rest: "stepPlayers E now ks (W1, s1) = Some (W', s')"
    using Cons.prems(4) by (auto simp: Option.bind_eq_Some_conv)
  obtain q where q: "wd_players W k = Some q" using Cons.prems(2) by auto
  have ok: "core_ok (we_fpu E) W1" "keeps W W1"
    using stepPlayer_ok [OF Cons.prems(1) assms _ one] q by blast+
  have sub: "set ks \<subseteq> dom (wd_players W1)" using keeps_dom [OF ok(2)] Cons.prems(2) by auto
  note IH = Cons.IH [OF ok(1) sub _ rest]
  show ?case
  proof (cases "j = k")
    case True
    then obtain p1 where p1: "wd_players W1 j = Some p1" "stepped (we_fpu E) p p1"
      using stepPlayer_other(2) [OF Cons.prems(1) q one] q Cons.prems(5) by auto
    with IH [of p1] Cons.prems(3) True show ?thesis by auto
  next
    case False
    then have "wd_players W1 j = Some p"
      using stepPlayer_other(1) [OF Cons.prems(1) q one] Cons.prems(5) by simp
    with IH Cons.prems(3) False show ?thesis by auto
  qed
qed simp

text \<open>The clamp does not lengthen a step that starts inside the walls.\<close>

lemma clamp_step:
  assumes "lo \<le> (x :: real)" "x \<le> hi"
  shows "(max lo (min hi (x + d)) - x)\<^sup>2 \<le> d\<^sup>2"
proof -
  have "\<bar>max lo (min hi (x + d)) - x\<bar> \<le> \<bar>d\<bar>" using assms by (auto simp: max_def min_def)
  then show ?thesis by (rule abs_le_square_iff [THEN iffD1])
qed

lemma stepped_speed:
  assumes "exact_fpu F" "in_walls F p" "stepped F p p'"
  obtains x y x' y' where "place p = \<lparr> ps_X = Fin x, ps_Y = Fin y \<rparr>" "place p' = \<lparr> ps_X = Fin x', ps_Y = Fin y' \<rparr>"
    "(x' - x)\<^sup>2 + (y' - y)\<^sup>2 \<le> 9\<^sup>2"
proof -
  obtain x y u v where xy: "place p = \<lparr> ps_X = Fin x, ps_Y = Fin y \<rparr>" "24 \<le> x" "x \<le> 936" "24 \<le> y" "y \<le> 516"
    and uv: "pl_dx p = Fin u" "pl_dy p = Fin v" "u\<^sup>2 + v\<^sup>2 \<le> 1"
    using assms(1,2) by (auto simp: in_walls_def steer_ok_def)
  let ?x = "max 24 (min 936 (x + u * 180 / 20))" and ?y = "max 24 (min 516 (y + v * 180 / 20))"
  have "place (moveTo F p) = \<lparr> ps_X = Fin ?x, ps_Y = Fin ?y \<rparr>"
    using xy(1) uv assms(1)
    by (simp add: place_def moveTo_def advance_def clampX_def clampY_def TickRate_def WorldWidth_def WorldHeight_def
        exact_round clamp_Fin)
  moreover have "(?x - x)\<^sup>2 + (?y - y)\<^sup>2 \<le> (u * 180 / 20)\<^sup>2 + (v * 180 / 20)\<^sup>2"
    by (intro add_mono clamp_step xy)
  moreover have "(u * 180 / 20)\<^sup>2 + (v * 180 / 20)\<^sup>2 = 9\<^sup>2 * (u\<^sup>2 + v\<^sup>2)"
    by (simp add: power_mult_distrib)
  moreover have "9\<^sup>2 * (u\<^sup>2 + v\<^sup>2) \<le> 9\<^sup>2 * (1 :: real)" using uv(3) by (intro mult_left_mono) simp_all
  ultimately show ?thesis
    using assms(3) xy(1) that [of x y x y] that [of x y ?x ?y] by (auto simp: stepped_def)
qed


subsection \<open>The phases of a tick\<close>

definition crystal_clock :: "World \<Rightarrow> u32 \<Rightarrow> (int \<rightharpoonup> gotime) option" where
  "crystal_clock W i = map_option ar_respawn (wd_arenas W i)"

lemma leftWorld_clock: "crystal_clock (leftWorld k p W) = crystal_clock W"
  by (auto simp: crystal_clock_def leftWorld_arenas leftArena_def fun_eq_iff option.map_comp o_def)

lemma expireOne_effect:
  "crystal_clock (expireOne v W) = crystal_clock W"
  "wd_players W j = Some p \<Longrightarrow> wd_players (expireOne v W) j \<in> {Some p, Some (outside p)}"
  "wd_players W j = None \<Longrightarrow> wd_players (expireOne v W) j = None"
proof -
  have clock: "crystal_clock (W1\<lparr>wd_names := f\<rparr>) = crystal_clock W1" for W1 f
    by (rule ext) (simp add: crystal_clock_def)
  show "crystal_clock (expireOne v W) = crystal_clock W"
    by (simp add: expireOne_def clock leftWorld_clock split: option.split)
  show "wd_players W j = Some p \<Longrightarrow> wd_players (expireOne v W) j \<in> {Some p, Some (outside p)}"
    "wd_players W j = None \<Longrightarrow> wd_players (expireOne v W) j = None"
    by (auto simp: expireOne_def leftWorld_players split: option.split)
qed

lemma outside_outside [simp]: "outside (outside p) = outside p"
  by (simp add: outside_def)

lemma expireSessions_effect:
  "expireSessions E vs (W, s) = (W', s') \<Longrightarrow> crystal_clock W' = crystal_clock W \<and>
     (\<forall>p. wd_players W j = Some p \<longrightarrow> wd_players W' j \<in> {Some p, Some (outside p)}) \<and>
     (wd_players W j = None \<longrightarrow> wd_players W' j = None)"
proof (induction vs arbitrary: W s)
  case (Cons v vs)
  obtain s1 where eq: "expireSessions E (v # vs) (W, s) = expireSessions E vs (expireOne v W, s1)"
    by (rule expireSessions_Cons)
  note IH = Cons.IH [OF Cons.prems [unfolded eq]]
  show ?case
  proof (cases "wd_players W j")
    case None
    then show ?thesis using IH expireOne_effect(1) [of v W] expireOne_effect(3) [of W j v] by simp
  next
    case (Some p)
    then have "wd_players (expireOne v W) j \<in> {Some p, Some (outside p)}" by (rule expireOne_effect(2))
    then show ?thesis using Some IH expireOne_effect(1) [of v W] by auto
  qed
qed simp

lemma stepArenas_effect:
  "core_ok F W \<Longrightarrow> set is \<subseteq> {1, 2} \<Longrightarrow> distinct is \<Longrightarrow> stepArenas E now is (W, s) = Some (W', s') \<Longrightarrow>
   wd_players W' = wd_players W \<and>
   wd_arenas W' = (\<lambda>i. if i \<in> set is then map_option (respawned now) (wd_arenas W i) else wd_arenas W i)"
proof (induction "is" arbitrary: W s)
  case (Cons i "is")
  obtain a where a: "wd_arenas W i = Some a"
    using arenas_okD(2) [OF core_okD(2) [OF Cons.prems(1)], of i] Cons.prems(2) by auto
  from a Cons.prems(4) obtain s1 where st: "stepArenas E now is (set_arena i (respawned now a) W, s1) = Some (W', s')"
    by (rule stepArenas_Cons)
  have "set is \<subseteq> {1, 2}" "distinct is" "i \<notin> set is" using Cons.prems(2,3) by auto
  with Cons.IH [OF core_ok_respawned [OF Cons.prems(1) a] _ _ st] a show ?case by (auto simp: fun_eq_iff)
qed simp

subsection \<open>The ledger of an arena\<close>

definition points :: "World \<Rightarrow> u32 \<Rightarrow> int64" where
  "points W k = (case wd_players W k of None \<Rightarrow> 0 | Some p \<Rightarrow> pv_Score (pl_view p))"

definition members :: "World \<Rightarrow> u32 \<Rightarrow> u32 set" where
  "members W i = {k. inside W i k \<noteq> None}"

text \<open>The points won by the players of the arena \<open>i\<close> on the way from \<open>W\<close> to \<open>W'\<close>.\<close>

definition won :: "u32 \<Rightarrow> World \<Rightarrow> World \<Rightarrow> int64" where
  "won i W W' = (\<Sum>k \<in> members W' i. points W' k - points W k)"

definition hidden :: "World \<Rightarrow> u32 \<Rightarrow> int set" where
  "hidden W i = (case wd_arenas W i of None \<Rightarrow> {} | Some a \<Rightarrow> dom (ar_respawn a))"

definition taken :: "gotime \<Rightarrow> u32 \<Rightarrow> World \<Rightarrow> World \<Rightarrow> bool" where
  "taken now i W W' \<longleftrightarrow>
     hidden W i \<subseteq> hidden W' i \<and> finite (hidden W' i) \<and> won i W W' = of_nat (card (hidden W' i - hidden W i)) \<and>
     (\<forall>a a' c. wd_arenas W i = Some a \<longrightarrow> wd_arenas W' i = Some a' \<longrightarrow>
        ar_respawn a' c = (if c \<in> hidden W' i - hidden W i then Some (now + seconds5) else ar_respawn a c))"

lemma members_keeps:
  assumes "keeps W W'"
  shows "members W' i = members W i"
proof -
  have "inside W' i k \<noteq> None \<longleftrightarrow> inside W i k \<noteq> None" for k
  proof (cases "wd_players W k")
    case None
    then have "wd_players W' k = None" using keeps_dom [OF assms] by blast
    with None show ?thesis by (simp add: inside_def)
  next
    case (Some p)
    then obtain p' where "wd_players W' k = Some p'" "badge p' = badge p" using keeps_player [OF assms] by blast
    with Some show ?thesis by (simp add: inside_def badge_def)
  qed
  then show ?thesis by (simp add: members_def)
qed

lemma taken_trans:
  assumes "taken now i W W1" "taken now i W1 W2" "keeps W W1" "keeps W1 W2" "wd_arenas W1 i \<noteq> None"
  shows "taken now i W W2"
proof -
  have mem: "members W1 i = members W2 i" using members_keeps [OF assms(4)] by simp
  have sub: "hidden W i \<subseteq> hidden W1 i" "hidden W1 i \<subseteq> hidden W2 i" "finite (hidden W2 i)" "finite (hidden W1 i)"
    using assms(1,2) by (simp_all add: taken_def)
  have "won i W W2 = won i W W1 + won i W1 W2"
    by (simp add: won_def mem sum.distrib [symmetric])
  also have "\<dots> = of_nat (card (hidden W1 i - hidden W i) + card (hidden W2 i - hidden W1 i))"
    using assms(1,2) by (simp add: taken_def)
  also have "card (hidden W1 i - hidden W i) + card (hidden W2 i - hidden W1 i) = card (hidden W2 i - hidden W i)"
  proof -
    have "hidden W2 i - hidden W i = (hidden W1 i - hidden W i) \<union> (hidden W2 i - hidden W1 i)" using sub by auto
    moreover have "(hidden W1 i - hidden W i) \<inter> (hidden W2 i - hidden W1 i) = {}" by auto
    ultimately show ?thesis using sub by (simp add: card_Un_disjoint)
  qed
  finally have won: "won i W W2 = of_nat (card (hidden W2 i - hidden W i))" .
  moreover have "ar_respawn a2 c = (if c \<in> hidden W2 i - hidden W i then Some (now + seconds5) else ar_respawn a c)"
    if "wd_arenas W i = Some a" "wd_arenas W2 i = Some a2" for a a2 c
  proof -
    obtain a1 where a1: "wd_arenas W1 i = Some a1" using assms(5) by blast
    have "ar_respawn a2 c = (if c \<in> hidden W2 i - hidden W1 i then Some (now + seconds5) else ar_respawn a1 c)"
      "ar_respawn a1 c = (if c \<in> hidden W1 i - hidden W i then Some (now + seconds5) else ar_respawn a c)"
      using assms(1,2) that a1 by (simp_all add: taken_def)
    with sub show ?thesis by auto
  qed
  ultimately show ?thesis using sub by (auto simp: taken_def)
qed

lemma taken_refl: "finite (hidden W i) \<Longrightarrow> taken now i W W"
  by (simp add: taken_def won_def)

lemma hidden_finite:
  assumes "core_ok F W"
  shows "finite (hidden W i)"
proof (cases "wd_arenas W i")
  case (Some a)
  then have "dom (ar_respawn a) \<subseteq> cr_ID ` set startCrystals"
    using arenas_okD(1) [OF core_okD(2) [OF assms]] by (simp add: arena_ok_def)
  then show ?thesis using Some by (simp add: hidden_def finite_subset)
qed (simp add: hidden_def)


lemma won_delta:
  assumes "\<And>j. j \<noteq> k \<Longrightarrow> points W' j = points W j" "points W' k = points W k + d"
  shows "won i W W' = (if k \<in> members W' i then d else 0)"
proof -
  have "(\<Sum>j \<in> members W' i. points W' j - points W j) = (\<Sum>j \<in> members W' i. if j = k then d else 0)"
    using assms by (intro sum.cong) auto
  then show ?thesis by (simp add: won_def sum.delta)
qed

lemma pickable_new:
  "set (pickable F p a cs) \<subseteq> set cs" "cr_ID ` set (pickable F p a cs) \<inter> dom (ar_respawn a) = {}"
  "distinct (map cr_ID cs) \<Longrightarrow> card (cr_ID ` set (pickable F p a cs)) = length (pickable F p a cs)"
proof -
  show "set (pickable F p a cs) \<subseteq> set cs" "cr_ID ` set (pickable F p a cs) \<inter> dom (ar_respawn a) = {}"
    by (auto simp: pickable_def)
  show "card (cr_ID ` set (pickable F p a cs)) = length (pickable F p a cs)" if "distinct (map cr_ID cs)"
    using that distinct_card [of "map cr_ID (pickable F p a cs)"] by (simp add: pickable_def distinct_map_filter)
qed

lemma turn_taken:
  assumes "core_ok F W" "wd_players W k = Some p" "wd_arenas W (pl_roomID p) = Some a"
    and "p1 = p \<or> p1 = moveTo F p" "turn F now k p a am p1 W W'"
  shows "taken now i W W'"
proof -
  let ?G = "pickable F p1 a startCrystals" and ?r = "pl_roomID p"
  have W': "wd_players W' = (wd_players W)(k \<mapsto> score ?G p1)"
    "wd_arenas W' = (wd_arenas W)(?r \<mapsto> hide (now + seconds5) ?G (a\<lparr>ar_aoi := am\<rparr>))"
    using assms(5) by (simp_all add: turn_def Let_def)
  have room: "pl_roomID p1 = ?r" "pv_Score (pl_view p1) = pv_Score (pl_view p)" using assms(4) by auto
  have won: "won i W W' = (if k \<in> members W' i then of_nat (length ?G) else 0)"
    by (rule won_delta) (simp_all add: points_def W'(1) assms(2) room(2))
  have mem: "k \<in> members W' i \<longleftrightarrow> i = ?r" by (auto simp: members_def inside_def W'(1) room(1))
  note new = pickable_new(2) [of F p1 a startCrystals] pickable_new(3) [OF startCrystals_distinct, of F p1 a]
  have hid: "hidden W' i = (if i = ?r then hidden W i \<union> cr_ID ` set ?G else hidden W i)"
    using assms(3) by (auto simp: hidden_def W'(2) hide_def split: if_splits)
  have diff: "hidden W' i - hidden W i = (if i = ?r then cr_ID ` set ?G else {})"
    using hid new(1) assms(3) by (auto simp: hidden_def)
  have "ar_respawn b' c = (if c \<in> hidden W' i - hidden W i then Some (now + seconds5) else ar_respawn b c)"
    if "wd_arenas W i = Some b" "wd_arenas W' i = Some b'" for b b' c
    unfolding diff using that assms(3) by (auto simp: W'(2) hide_def split: if_splits)
  moreover have "won i W W' = of_nat (card (hidden W' i - hidden W i))"
    unfolding won mem diff by (simp add: new(2))
  moreover have "hidden W i \<subseteq> hidden W' i" "finite (hidden W' i)"
    using hid hidden_finite [OF assms(1), of i] by auto
  ultimately show ?thesis unfolding taken_def by blast
qed

lemma stepPlayers_taken:
  assumes "round_num (we_fpu E)" "i \<in> {1, 2}"
  shows "core_ok (we_fpu E) W \<Longrightarrow> set ks \<subseteq> dom (wd_players W) \<Longrightarrow>
    stepPlayers E now ks (W, s) = Some (W', s') \<Longrightarrow> taken now i W W'"
proof (induction ks arbitrary: W s)
  case Nil
  then show ?case by (simp add: taken_refl hidden_finite)
next
  case (Cons k ks)
  obtain W1 s1 where one: "stepPlayer E now k (W, s) = Some (W1, s1)"
    and rest: "stepPlayers E now ks (W1, s1) = Some (W', s')"
    using Cons.prems(3) by (auto simp: Option.bind_eq_Some_conv)
  obtain q where q: "wd_players W k = Some q" using Cons.prems(2) by auto
  have ok: "core_ok (we_fpu E) W1" "keeps W W1"
    using stepPlayer_ok [OF Cons.prems(1) assms(1) _ one] q by blast+
  have sub: "set ks \<subseteq> dom (wd_players W1)" using keeps_dom [OF ok(2)] Cons.prems(2) by auto
  have "taken now i W W1"
    using Cons.prems(1) q one
  proof (cases rule: stepPlayer_effect)
    case nothing
    then show ?thesis using taken_refl hidden_finite [OF Cons.prems(1)] by simp
  next
    case (turn a am p1)
    then show ?thesis using turn_taken [OF Cons.prems(1) q] by blast
  qed
  moreover have "keeps W1 W'" using stepPlayers_ok [OF ok(1) assms(1) sub rest] by blast
  moreover have "wd_arenas W1 i \<noteq> None" using arenas_okD(2) [OF core_okD(2) [OF ok(1)], of i] assms(2) by simp
  ultimately show ?case using taken_trans [OF _ Cons.IH [OF ok(1) sub rest] ok(2)] by blast
qed


section \<open>Snapshots\<close>

lemma neighbours_listed:
  assumes "arena_ok F i a ins" "round_ok F" "visits visit" "ins k = Some p"
  obtains e where "am_entities (ar_aoi a) k = Some e"
    "GetNearbyEntityIDs visit k (ar_aoi a) = Some (Inr (sorted_list_of_set (neighbours (ar_aoi a) k (ae_cell e))))"
proof -
  have inv: "aoi_inv F (ar_aoi a)" and grid: "grid_agrees F (ar_aoi a) ins"
    using assms(1) by (simp_all add: arena_ok_def grid_agrees_def)
  obtain e where e: "am_entities (ar_aoi a) k = Some e" using grid_entities [OF grid, of k] assms(4) by auto
  have "ae_id e = k" "inner_cell (ae_cell e)" "indexed (ar_aoi a)"
    using inv e arena_inner_grid [OF assms(1,2)] by (auto simp: aoi_inv_def placed_def inner_grid_def)
  then have "GetNearbyEntityIDs visit k (ar_aoi a) = Some (Inr (sorted_list_of_set (neighbours (ar_aoi a) k (ae_cell e))))"
    using e nearbyLocked_neighbours [OF assms(3), of "ar_aoi a" e] by (simp add: GetNearbyEntityIDs_def)
  with e show ?thesis by (rule that)
qed

text \<open>The players that \<open>k\<close> sees: those of its arena in the cells around its own.\<close>

definition sees :: "arena \<Rightarrow> u32 \<Rightarrow> u32 set" where
  "sees a k = (case am_entities (ar_aoi a) k of None \<Rightarrow> {} | Some e \<Rightarrow> neighbours (ar_aoi a) k (ae_cell e))"

definition shown :: "World \<Rightarrow> arena \<Rightarrow> u32 \<Rightarrow> PlayerView" where
  "shown W a k = (pl_view (the (wd_players W k)))\<lparr>pv_Nearby := card (sees a k)\<rparr>"

lemma snapshotPlayers_shown:
  assumes "arena_ok (we_fpu E) i a (inside W i)" "round_ok (we_fpu E)" "visits (we_visit E)" "players_filed F W"
  shows "(\<And>c. c \<in> set cs \<Longrightarrow> inside W i (ic_connID c) \<noteq> None) \<Longrightarrow>
    snapshotPlayers E a W cs = Some (map (\<lambda>c. shown W a (ic_connID c)) cs)"
proof (induction cs)
  case (Cons c cs)
  let ?k = "ic_connID c"
  obtain p where p: "inside W i ?k = Some p" "wd_players W ?k = Some p"
    using Cons.prems [of c] by (auto simp: inside_def split: option.splits if_splits)
  obtain e where e: "am_entities (ar_aoi a) ?k = Some e"
    "GetNearbyEntityIDs (we_visit E) ?k (ar_aoi a) = Some (Inr (sorted_list_of_set (neighbours (ar_aoi a) ?k (ae_cell e))))"
    by (rule neighbours_listed [OF assms(1-3) p(1)])
  have "pv_ID (pl_view p) = ?k" using players_filedD(1) [OF assms(4) p(2)] by (simp add: filed_def)
  with Cons p(2) e show ?case by (simp add: shown_def sees_def)
qed simp

lemma worldStep_phases:
  assumes "web_inv (we_fpu E) W" "round_num (we_fpu E)" "visits (we_visit E)"
    and "map_order (sm_byToken (wd_sessions W)) order" "\<not> wd_closed W" "worldStep E order now W s = Some (W', s')"
  obtains W2 W3 where "web_inv (we_fpu E) W2" "crystal_clock W2 = crystal_clock W"
    "\<forall>k p. wd_players W k = Some p \<longrightarrow> wd_players W2 k \<in> {Some p, Some (outside p)}"
    "\<forall>k. wd_players W k = None \<longrightarrow> wd_players W2 k = None"
    "core_ok (we_fpu E) W3" "keeps W2 W3" "\<forall>i \<in> {1, 2}. taken now i W2 W3"
    "\<forall>k p. wd_players W2 k = Some p \<longrightarrow> (\<exists>p'. wd_players W3 k = Some p' \<and> stepped (we_fpu E) p p')"
    "wd_players W' = wd_players W3" "wd_arenas W' = (\<lambda>i. map_option (respawned now) (wd_arenas W3 i))"
proof -
  from assms(5,6) obtain gone m' W2 s2 W3 s3 where
    r: "RemoveExpired order now (wd_sessions W) = (gone, m')"
    and e: "expireSessions E gone (W\<lparr>wd_tick := wd_tick W + 1, wd_sessions := m'\<rparr>, s) = (W2, s2)"
    and p: "stepPlayers E now (tickOrder (wd_tick W2) (we_visit E (dom (wd_players W2)))) (W2, s2) = Some (W3, s3)"
    and a: "stepArenas E now (we_visit E (dom (wd_arenas W3))) (W3, s3) = Some (W', s')"
    by (rule worldStep_stages)
  let ?ks = "tickOrder (wd_tick W2) (we_visit E (dom (wd_players W2)))"
  have inv2: "web_inv (we_fpu E) W2" by (rule expired_world [OF assms(1,4) r e])
  have ks: "set ?ks = dom (wd_players W2)" "distinct ?ks" using assms(3) by (simp_all add: tickOrder_set visits_def)
  have clock: "crystal_clock W2 = crystal_clock W"
    using expireSessions_effect [OF e] by (simp add: crystal_clock_def fun_eq_iff)
  have players: "\<forall>k p. wd_players W k = Some p \<longrightarrow> wd_players W2 k \<in> {Some p, Some (outside p)}"
    "\<forall>k. wd_players W k = None \<longrightarrow> wd_players W2 k = None"
    using expireSessions_effect [OF e] by simp_all
  have turns: "\<forall>i \<in> {1, 2}. taken now i W2 W3"
    using stepPlayers_taken [OF assms(2) _ web_invD(1) [OF inv2] _ p] ks(1) by simp
  have moves: "\<forall>k p. wd_players W2 k = Some p \<longrightarrow> (\<exists>p'. wd_players W3 k = Some p' \<and> stepped (we_fpu E) p p')"
    using stepPlayers_stepped [OF assms(2) web_invD(1) [OF inv2] _ ks(2) p] ks(1) by (metis domI order_refl)
  have ok3: "core_ok (we_fpu E) W3" "keeps W2 W3"
    using stepPlayers_ok [OF web_invD(1) [OF inv2] assms(2) _ p] ks by simp_all
  have dom3: "dom (wd_arenas W3) = {1, 2}" using ok3(1) by (simp add: core_ok_def arenas_ok_def)
  then have vis: "set (we_visit E (dom (wd_arenas W3))) = {1, 2}" "distinct (we_visit E (dom (wd_arenas W3)))"
    using assms(3) by (simp_all add: visits_def)
  have eff: "wd_players W' = wd_players W3"
    "wd_arenas W' = (\<lambda>i. if i \<in> {1, 2} then map_option (respawned now) (wd_arenas W3 i) else wd_arenas W3 i)"
    using stepArenas_effect [OF ok3(1) _ vis(2) a] vis(1) by simp_all
  have "wd_arenas W' = (\<lambda>i. map_option (respawned now) (wd_arenas W3 i))"
    using dom3 by (auto simp: eff(2) fun_eq_iff domIff)
  with that [OF inv2 clock players ok3 turns moves eff(1)] show ?thesis by blast
qed

section \<open>Joining returns\<close>

lemma handleJoin_returns:
  fixes s :: "'x conn_store"
  assumes "web_inv (we_fpu E) W" "round_ok (we_fpu E)" "visits (we_visit E)" "wd_players W k = Some p"
  shows "\<exists>W' s'. handleJoin E data k p W s = Some (W', s')"
proof (cases "decode (we_RoomID E) (we_EOF E) data")
  case (Some i)
  show ?thesis
  proof (cases "wd_arenas W i")
    case a: (Some a)
    note core = web_invD(1) [OF assms(1)]
    have ret: "\<exists>s'. arenaBroadcast E (the (wd_arenas W1 i)) W1 t = Some s'" if ok: "core_ok (we_fpu E) W1" for W1 and t :: "'x conn_store"
    proof -
      obtain b where b: "wd_arenas W1 i = Some b"
        using arenas_okD(2) [OF core_okD(2) [OF core], of i] arenas_okD(2) [OF core_okD(2) [OF ok], of i] a by auto
      from arenaBroadcast_returns [OF arenas_okD(1) [OF core_okD(2) [OF ok] b] assms(2,3)] b show ?thesis by simp
    qed
    obtain err room where j: "Join (Some (pl_conn p)) (ar_room a) = (err, room)" by fastforce
    show ?thesis
    proof (cases "pl_roomID p = i")
      case True
      then show ?thesis
        using Some a ret [OF core, of "jsonSend E (pl_conn p) MsgJoin (VRoom (pl_roomID (the (wd_players W k)))) s"]
        by (auto simp: handleJoin_def Let_def)
    next
      case False
      show ?thesis
      proof (cases err)
        case None
        obtain W1 s1 where e: "enterArena E k i (set_arena i (a\<lparr>ar_room := room\<rparr>) W) s = (W1, s1)" by fastforce
        then have "core_ok (we_fpu E) W1"
          using core_ok_enter [OF core assms(4) a False, of room s] j None by simp
        then obtain s2 where "arenaBroadcast E (the (wd_arenas W1 i)) W1
            (jsonSend E (pl_conn p) MsgJoin (VRoom (pl_roomID (the (wd_players W1 k)))) s1) = Some s2"
          using ret by blast
        with Some a False j None e show ?thesis by (simp add: handleJoin_def Let_def)
      qed (use Some a False j in \<open>simp add: handleJoin_def\<close>)
    qed
  qed (use Some in \<open>simp add: handleJoin_def\<close>)
qed (simp add: handleJoin_def)

end
