(* ===== verification/WebGame.thy ===== *)
theory WebGame
  imports WebTick
begin

text \<open>
  The properties of the web arena: who is where, who the guests are, that a time step always returns,
  that a crystal is collected once, how fast a player moves, and what a snapshot shows. They are applied to
  a run in which a guest called A connects with the id 7, authenticates and joins the first arena.
\<close>

section \<open>A run\<close>

definition demo_ticket :: string where
  "demo_ticket = hexEncode (replicate 24 0)"

definition demo_env :: web_env where
  "demo_env = \<lparr> we_config = DefaultConfig, we_fpu = demo_fpu, we_visit = sorted_list_of_set,
     we_Marshal = (\<lambda>v. Inr []), we_Token = (\<lambda>data. Some (demo_ticket, [])), we_RoomID = (\<lambda>data. Some (1, [])),
     we_Input = (\<lambda>data. Some ((Fin 1, Fin 0, 1), [])), we_Empty = (\<lambda>data. Some ((), [])),
     we_SentAt = (\<lambda>data. Some (Fin 0, [])), we_EOF = (\<lambda>rest. rest = []) \<rparr>"

definition demo_link :: iconn where
  "demo_link = \<lparr> ic_ref = 0, ic_connID = 7 \<rparr>"

abbreviation no_conns :: "unit conn_store" where "no_conns \<equiv> Map.empty"

definition demo_web1 :: World where
  "demo_web1 = snd (WorldGuest [65] (Inr (replicate 24 0)) 1 NewWorld)"

definition demo_web2 :: World where
  "demo_web2 = fst (onConnStart demo_link 1 demo_web1 no_conns)"

definition demo_web3 :: World where
  "demo_web3 = fst (the (worldHandle demo_env 7 MsgAuthenticate [0x7B] 2 2 demo_web2 no_conns))"

definition demo_web4 :: World where
  "demo_web4 = fst (the (worldHandle demo_env 7 MsgJoin [0x7B] 3 3 demo_web3 no_conns))"

lemma demo_fpu_laws: "round_num demo_fpu" "round_ok demo_fpu" "exact_fpu demo_fpu" "we_fpu demo_env = demo_fpu"
  "visits (we_visit demo_env)"
  using demo_round_ok demo_visits by (simp_all add: round_num_def exact_fpu_def demo_fpu_def demo_env_def)

lemma demo_trim: "TrimSpace [0x7B] = [0x7B]"
  by (simp add: TrimSpace_def trimFront.simps spaceBytes_def)

lemma demo_decode:
  "decode (we_Token demo_env) (we_EOF demo_env) [0x7B] = Some demo_ticket"
  "decode (we_RoomID demo_env) (we_EOF demo_env) [0x7B] = Some 1"
  by (simp_all add: decode_def demo_trim demo_env_def)

lemma demo_ticket_length: "length demo_ticket = 48"
  by (simp add: demo_ticket_def hexEncode_def length_concat sum_list_replicate)

definition demo_guest :: Session where
  "demo_guest = fresh_session demo_ticket (guestAccount 1) 1 minutes30 1"

lemma demo_web1_eq:
  "demo_web1 = NewWorld\<lparr>wd_nextGuest := 1, wd_sessions := put_session demo_guest (projr (New RejectExisting)),
     wd_names := [1 \<mapsto> [65]]\<rparr>"
proof -
  have trim: "trimName [65] = [65]" "\<not> list_ex (\<lambda>r. IsControl r \<or> IsFormat r) [65]"
    by (simp_all add: trimName_def IsSpace_def IsControl_def IsFormat_def in_ranges_def)
  have issue: "Issue (projr (New RejectExisting)) (guestAccount 1) 1 minutes30 (Inr (replicate 24 0)) 1 =
      (Inr (demo_guest, None), put_session demo_guest (projr (New RejectExisting)))"
    by (simp add: Issue_def New_def Let_def createToken_def put_session_def demo_guest_def fresh_session_def demo_ticket_def
        observeLegacyID_def guestAccount_def)
  have "Len (projr (New RejectExisting)) = 0" by (simp add: Len_def New_def)
  then show ?thesis
    using trim issue
    by (simp add: demo_web1_def WorldGuest_def Let_def NewWorld_fields demo_guest_def)
qed

lemma demo_web2_eq:
  "demo_web2 = set_player 7
     \<lparr> pl_view = \<lparr> pv_ID = 7, pv_Name = [], pv_X = Fin 0, pv_Y = Fin 0, pv_Score = 0, pv_Seq = 0, pv_Nearby = 0 \<rparr>,
       pl_conn = demo_link, pl_roomID = 0, pl_dx = Fin 0, pl_dy = Fin 0, pl_inputAt = 0, pl_connectedAt = 1 \<rparr> demo_web1"
  by (simp add: demo_web2_def onConnStart_def demo_web1_eq NewWorld_fields demo_link_def)

lemma demo_reach2: "reach web_init (web_step demo_fpu) demo_web2"
proof -
  have "reach web_init (web_step demo_fpu) NewWorld" by (rule reach_init) (simp add: web_init_def)
  moreover have "web_step demo_fpu NewWorld demo_web1"
    by (rule step_guest [where random = "Inr (replicate 24 0)" and name = "[65]" and now = 1])
       (simp_all add: NewWorld_fields New_def demo_web1_def prod_eq_iff)
  moreover have "web_step demo_fpu demo_web1 demo_web2"
    by (rule step_start [where c = demo_link and now = 1 and s = no_conns])
       (simp_all add: demo_web1_eq NewWorld_fields demo_web2_def prod_eq_iff)
  ultimately show ?thesis by (blast intro: reach_step)
qed


text \<open>The run goes on by any message that is handled.\<close>

lemma demo_handle:
  assumes "reach web_init (web_step demo_fpu) W"
    and "\<exists>Ws. worldHandle demo_env 7 msgID [0x7B] now now W no_conns = Some Ws"
  shows "reach web_init (web_step demo_fpu) (fst (the (worldHandle demo_env 7 msgID [0x7B] now now W no_conns)))"
proof -
  obtain W' s' where h: "worldHandle demo_env 7 msgID [0x7B] now now W no_conns = Some (W', s')"
    using assms(2) by auto
  have "web_step demo_fpu W W'" by (rule step_handle [OF demo_fpu_laws(4,5) h])
  then show ?thesis using assms(1) h reach_step by fastforce
qed

definition demo_bound :: Session where
  "demo_bound = demo_guest\<lparr>ses_ConnID := 7, ses_Bound := True, ses_UpdatedAt := 2\<rparr>"

definition demo_hero :: player where
  "demo_hero = \<lparr> pl_view = \<lparr> pv_ID = 7, pv_Name = [65], pv_X = Fin 0, pv_Y = Fin 0, pv_Score = 0, pv_Seq = 0,
       pv_Nearby = 0 \<rparr>,
     pl_conn = demo_link, pl_roomID = 0, pl_dx = Fin 0, pl_dy = Fin 0, pl_inputAt = 0, pl_connectedAt = 1 \<rparr>"

lemma demo_web3_step:
  "\<exists>s'. worldHandle demo_env 7 MsgAuthenticate [0x7B] 2 2 demo_web2 no_conns = Some (demo_web3, s')"
  "wd_players demo_web3 = [7 \<mapsto> demo_hero]" "wd_arenas demo_web3 = wd_arenas NewWorld"
  "wd_closed demo_web3 = False" "GetByConnID (wd_sessions demo_web3) 7 3 = Inr demo_bound"
  "sm_byToken (wd_sessions demo_web3) = [demo_ticket \<mapsto> demo_bound]"
proof -
  let ?m = "put_session demo_guest (projr (New RejectExisting))"
  let ?m3 = "?m\<lparr>sm_byToken := (sm_byToken ?m)(demo_ticket \<mapsto> demo_bound), sm_byConnID := (sm_byConnID ?m)(7 \<mapsto> demo_ticket)\<rparr>"
  have bind: "Bind ?m demo_ticket 7 2 2 = (Inr demo_bound, ?m3)"
    by (simp add: Bind_def put_session_def New_def demo_guest_def fresh_session_def expired_def demo_bound_def Let_def)
  have h: "worldHandle demo_env 7 MsgAuthenticate [0x7B] 2 2 demo_web2 no_conns =
      Some (set_player 7 demo_hero (demo_web2\<lparr>wd_sessions := ?m3\<rparr>),
        jsonSend demo_env demo_link MsgAuthenticate (VIdentity 7 [65]) no_conns)"
    using bind by (simp add: worldHandle_def demo_web2_eq demo_web1_eq NewWorld_fields handleAuthenticate_def
        demo_decode demo_ticket_length demo_bound_def demo_guest_def demo_hero_def Let_def)
  then have w3: "demo_web3 = set_player 7 demo_hero (demo_web2\<lparr>wd_sessions := ?m3\<rparr>)"
    by (simp add: demo_web3_def)
  show "\<exists>s'. worldHandle demo_env 7 MsgAuthenticate [0x7B] 2 2 demo_web2 no_conns = Some (demo_web3, s')"
    using h w3 by simp
  show "wd_players demo_web3 = [7 \<mapsto> demo_hero]" "wd_arenas demo_web3 = wd_arenas NewWorld" "wd_closed demo_web3 = False"
    by (simp_all add: w3 demo_web2_eq demo_web1_eq NewWorld_fields)
  show "GetByConnID (wd_sessions demo_web3) 7 3 = Inr demo_bound"
    by (simp add: w3 GetByConnID_def expired_def demo_bound_def demo_guest_def fresh_session_def)
  show "sm_byToken (wd_sessions demo_web3) = [demo_ticket \<mapsto> demo_bound]"
    by (simp add: w3 New_def demo_guest_def)
qed

lemma demo_reach3: "reach web_init (web_step demo_fpu) demo_web3"
  using demo_handle [OF demo_reach2, of MsgAuthenticate 2] demo_web3_step(1) by (auto simp: demo_web3_def)

lemma demo_web4_step:
  "reach web_init (web_step demo_fpu) demo_web4" "wd_players demo_web4 = [7 \<mapsto> arrived 1 demo_hero]"
  "\<exists>a. wd_arenas demo_web4 1 = Some a \<and> ar_respawn a = Map.empty" "wd_closed demo_web4 = False"
  "sm_byToken (wd_sessions demo_web4) = [demo_ticket \<mapsto> demo_bound]"
proof -
  have inv: "web_inv demo_fpu demo_web3" using web.reach_inv [OF demo_reach3] demo_fpu_laws(1) by blast
  have hero: "wd_players demo_web3 7 = Some demo_hero" "pl_roomID demo_hero = 0" "pv_ID (pl_view demo_hero) = 7"
    by (simp_all add: demo_web3_step(2) demo_hero_def)
  have eq: "worldHandle demo_env 7 MsgJoin [0x7B] 3 3 demo_web3 no_conns = handleJoin demo_env [0x7B] 7 demo_hero demo_web3 no_conns"
    by (simp add: worldHandle_def hero demo_web3_step(4,5))
  obtain W' s' where j: "handleJoin demo_env [0x7B] 7 demo_hero demo_web3 no_conns = Some (W', s')"
    using handleJoin_returns [of demo_env demo_web3 7 demo_hero "[0x7B]" no_conns] inv demo_fpu_laws hero(1) by auto
  then have W': "demo_web4 = W'" by (simp add: demo_web4_def eq)
  show "reach web_init (web_step demo_fpu) demo_web4"
    using demo_handle [OF demo_reach3, of MsgJoin 3] eq j by (simp add: demo_web4_def)
  obtain a where a: "wd_arenas demo_web3 1 = Some a" "ar_respawn a = Map.empty"
    by (simp add: demo_web3_step(3) NewWorld_arenas)
  obtain room where room: "Join (Some (pl_conn demo_hero)) (ar_room a) = (None, room)"
    using a(1) by (auto simp: demo_web3_step(3) NewWorld_arenas Join_def NewRoom_def demo_hero_def)
  have ne: "pl_roomID demo_hero \<noteq> 1" using hero(2) by simp
  have W1: "W' = fst (enterArena demo_env 7 1 (set_arena 1 (a\<lparr>ar_room := room\<rparr>) demo_web3) no_conns)"
    using j a(1) room ne by (auto simp: handleJoin_def demo_decode Let_def Option.bind_eq_Some_conv split: prod.splits)
  obtain W2 where W2: "fst (enterArena demo_env 7 1 (set_arena 1 (a\<lparr>ar_room := room\<rparr>) demo_web3) no_conns) = W2"
    "wd_players W2 = (wd_players demo_web3)(7 \<mapsto> arrived 1 demo_hero)"
    "wd_arenas W2 = (wd_arenas (leftWorld 7 demo_hero demo_web3))(1 \<mapsto> a\<lparr>ar_room := room,
       ar_aoi := snd (AddEntity (we_fpu demo_env) (pv_ID (pl_view demo_hero)) (place (arrived 1 demo_hero)) (ar_aoi a))\<rparr>)"
    "wd_sessions W2 = wd_sessions demo_web3" "wd_closed W2 = wd_closed demo_web3"
    by (rule enterArena_world [OF hero(1) ne, of demo_env "a\<lparr>ar_room := room\<rparr>" no_conns]) simp
  have "demo_web4 = W2" using W' W1 W2(1) by simp
  then show "wd_players demo_web4 = [7 \<mapsto> arrived 1 demo_hero]"
    "\<exists>a. wd_arenas demo_web4 1 = Some a \<and> ar_respawn a = Map.empty" "wd_closed demo_web4 = False"
    "sm_byToken (wd_sessions demo_web4) = [demo_ticket \<mapsto> demo_bound]"
    using W2 a(2) by (simp_all add: demo_web3_step)
qed

lemma demo_order: "map_order (sm_byToken (wd_sessions demo_web4)) [demo_ticket]"
  by (simp add: map_order_def demo_web4_step(5))

section \<open>Properties\<close>

text \<open>C11: in every state the world can reach, the room of an arena, its grid and the table of players agree:
  the members of the room are exactly the players that are in the arena, with their connections, the grid
  holds exactly these, each at its own position; there are at most eight of them and all stand inside the
  walls, whatever their input and the rounding of the arithmetic.\<close>
theorem web_arena_consistent:
  assumes "reach web_init (web_step F) W" "round_num F" "wd_arenas W i = Some a"
  shows "(\<forall>k c. rm_members (ar_room a) k = Some c \<longleftrightarrow>
       (\<exists>p. wd_players W k = Some p \<and> pl_roomID p = i \<and> pl_conn p = c)) \<and>
    (\<forall>k q. GetPosition k (ar_aoi a) = Inr q \<longleftrightarrow>
       (\<exists>p. wd_players W k = Some p \<and> pl_roomID p = i \<and> place p = q)) \<and>
    PlayerCount (ar_room a) \<le> 8 \<and>
    (\<forall>k p. wd_players W k = Some p \<and> pl_roomID p = i \<longrightarrow>
       (\<exists>x y. place p = \<lparr> ps_X = Fin x, ps_Y = Fin y \<rparr> \<and> 24 \<le> x \<and> x \<le> 936 \<and> 24 \<le> y \<and> y \<le> 516))"
proof (intro conjI allI)
  have inv: "web_inv F W" using web.reach_inv [OF assms(1)] assms(2) by blast
  note core = core_okD [OF web_invD(1) [OF inv]]
  have ok: "arena_ok F i a (inside W i)" by (rule arenas_okD(1) [OF core(2) assms(3)])
  have room: "rm_members (ar_room a) = (\<lambda>k. map_option pl_conn (inside W i k))" "room_ok (ar_room a)"
    "rm_MaxPlayers (ar_room a) = 8"
    using ok by (simp_all add: arena_ok_def room_agrees_def)
  have grid: "map_option ae_position (am_entities (ar_aoi a) k) = map_option place (inside W i k)" for k
    using ok unfolding arena_ok_def grid_agrees_def by metis
  have ins: "inside W i k = Some p \<longleftrightarrow> wd_players W k = Some p \<and> pl_roomID p = i" for k p
    by (auto simp: inside_def split: option.splits)
  show "rm_members (ar_room a) k = Some c \<longleftrightarrow> (\<exists>p. wd_players W k = Some p \<and> pl_roomID p = i \<and> pl_conn p = c)" for k c
    by (auto simp: room(1) ins)
  show "GetPosition k (ar_aoi a) = Inr q \<longleftrightarrow> (\<exists>p. wd_players W k = Some p \<and> pl_roomID p = i \<and> place p = q)" for k q
  proof -
    have "GetPosition k (ar_aoi a) = Inr q \<longleftrightarrow> map_option ae_position (am_entities (ar_aoi a) k) = Some q"
      by (auto simp: GetPosition_def split: option.splits)
    then show ?thesis by (auto simp: grid ins)
  qed
  show "PlayerCount (ar_room a) \<le> 8" using room(2,3) by (simp add: room_ok_def PlayerCount_def)
  show "wd_players W k = Some p \<and> pl_roomID p = i \<longrightarrow>
      (\<exists>x y. place p = \<lparr> ps_X = Fin x, ps_Y = Fin y \<rparr> \<and> 24 \<le> x \<and> x \<le> 936 \<and> 24 \<le> y \<and> y \<le> 516)" for k p
    using players_filedD(2) [OF core(1), of k p] arenas_okD(2) [OF core(2), of i] assms(3)
    by (auto simp: in_walls_def)
qed

text \<open>C12: whoever plays is an authenticated guest: in every reachable state a player in an arena has a session
  bound to its connection, under whose player id its name is registered; a bound session belongs to a
  connected player, so no session outlives its connection; the table of names holds exactly the players of
  the sessions, and only names of 1 to 16 runes without control or format characters.\<close>
theorem web_guests_accounted:
  assumes "reach web_init (web_step F) W" "round_num F"
  shows "(\<forall>k p. wd_players W k = Some p \<and> pl_roomID p \<noteq> 0 \<longrightarrow>
       (\<exists>t v. sm_byToken (wd_sessions W) t = Some v \<and> ses_Bound v \<and> ses_ConnID v = k \<and>
          wd_names W (ses_PlayerID v) = Some (pv_Name (pl_view p)))) \<and>
    (\<forall>t v. sm_byToken (wd_sessions W) t = Some v \<and> ses_Bound v \<longrightarrow> wd_players W (ses_ConnID v) \<noteq> None) \<and>
    dom (wd_names W) = ses_PlayerID ` ran (sm_byToken (wd_sessions W)) \<and>
    (\<forall>n name. wd_names W n = Some name \<longrightarrow>
       name \<noteq> [] \<and> length name \<le> 16 \<and> (\<forall>r \<in> set name. \<not> IsControl r \<and> \<not> IsFormat r))"
proof (intro conjI allI impI)
  have inv: "web_inv F W" using web.reach_inv [OF assms(1)] assms(2) by blast
  note g = guests_okD [OF web_invD(4) [OF inv]]
  show "\<exists>t v. sm_byToken (wd_sessions W) t = Some v \<and> ses_Bound v \<and> ses_ConnID v = k \<and>
      wd_names W (ses_PlayerID v) = Some (pv_Name (pl_view p))"
    if kp: "wd_players W k = Some p \<and> pl_roomID p \<noteq> 0" for k p
  proof -
    obtain v where v: "v \<in> live (wd_sessions W)" "ses_Bound v" "ses_ConnID v = k"
      using seatedD [OF g(4)] kp by blast
    then have "wd_names W (ses_PlayerID v) = Some (pv_Name (pl_view p))"
      using ownedD(4) [OF g(2) v(1,2)] kp by auto
    with v show ?thesis by (auto simp: ran_def)
  qed
  show "wd_players W (ses_ConnID v) \<noteq> None" if "sm_byToken (wd_sessions W) t = Some v \<and> ses_Bound v" for t v
    using ownedD(4) [OF g(2), of v] that by (auto simp: ranI)
  show "dom (wd_names W) = ses_PlayerID ` ran (sm_byToken (wd_sessions W))"
    using g(3) ownedD(3) [OF g(2)] unfolding named_def by blast
  show "name \<noteq> []" "length name \<le> 16" "\<forall>r \<in> set name. \<not> IsControl r \<and> \<not> IsFormat r"
    if "wd_names W n = Some name" for n name
    using g(3) that unfolding named_def good_name_def by (auto simp: list_ex_iff)
qed

text \<open>The time step and the handling of any message return from every reachable state, for every content of the
  connections and every order in which the maps are visited: the search for neighbours in the grid, the only loop
  that could run on, ends. The mutex of the world is not part of the model.\<close>
theorem web_calls_return:
  fixes s :: "'x conn_store"
  assumes "reach web_init (web_step (we_fpu E)) W" "round_num (we_fpu E)" "round_ok (we_fpu E)" "visits (we_visit E)"
    and "map_order (sm_byToken (wd_sessions W)) order"
  shows "(\<exists>W' s'. worldStep E order now W s = Some (W', s')) \<and>
    (\<exists>W' s'. worldHandle E connID msgID data now1 now2 W s = Some (W', s'))"
proof (intro conjI)
  have inv: "web_inv (we_fpu E) W" using web.reach_inv [OF assms(1)] assms(2) by blast
  show "\<exists>W' s'. worldStep E order now W s = Some (W', s')" by (rule worldStep_returns [OF inv assms(2-5)])
  have some: "\<exists>W' s'. Some Ws = Some (W', s')" for Ws :: "World \<times> 'x conn_store" by (cases Ws) simp
  show "\<exists>W' s'. worldHandle E connID msgID data now1 now2 W s = Some (W', s')"
    using handleJoin_returns [OF inv assms(3,4), of connID _ data s] some
    by (cases "wd_players W connID"; cases "GetByConnID (wd_sessions W) connID now1")
       (auto simp: worldHandle_def split: sum.split)
qed


text \<open>C13: a crystal is collected at most once and nobody scores for nothing: in a time step a crystal that is
  hidden stays hidden until its five seconds are over and is then free again; a crystal that gets hidden
  comes back five seconds after the step; and the points the players of an arena win in the step are
  exactly as many as crystals of this arena get hidden.\<close>
theorem web_crystals_collected_once:
  assumes "reach web_init (web_step (we_fpu E)) W" "round_num (we_fpu E)" "visits (we_visit E)"
    and "map_order (sm_byToken (wd_sessions W)) order" "\<not> wd_closed W" "worldStep E order now W s = Some (W', s')"
    and "wd_arenas W i = Some a"
  shows "\<exists>a'. wd_arenas W' i = Some a' \<and>
    (\<forall>c t. ar_respawn a c = Some t \<longrightarrow> ar_respawn a' c = (if now < t then Some t else None)) \<and>
    (\<forall>c t. ar_respawn a c = None \<and> ar_respawn a' c = Some t \<longrightarrow> t = now + seconds5) \<and>
    (\<Sum>k \<in> members W' i. points W' k - points W k) = of_nat (card {c. ar_respawn a c = None \<and> ar_respawn a' c \<noteq> None})"
proof -
  have inv: "web_inv (we_fpu E) W" using web.reach_inv [OF assms(1)] assms(2) by blast
  obtain W2 W3 where inv2: "web_inv (we_fpu E) W2" and clock: "crystal_clock W2 = crystal_clock W"
    and pl: "\<forall>k p. wd_players W k = Some p \<longrightarrow> wd_players W2 k \<in> {Some p, Some (outside p)}"
    "\<forall>k. wd_players W k = None \<longrightarrow> wd_players W2 k = None"
    and ok3: "core_ok (we_fpu E) W3" "keeps W2 W3" and turns: "\<forall>i \<in> {1, 2}. taken now i W2 W3" and W': "wd_players W' = wd_players W3"
    "wd_arenas W' = (\<lambda>i. map_option (respawned now) (wd_arenas W3 i))"
    by (rule worldStep_phases [OF inv assms(2-6)])
  have i: "i \<in> {1, 2}" using arenas_okD(2) [OF core_okD(2) [OF web_invD(1) [OF inv]], of i] assms(7) by auto
  obtain a2 where a2: "wd_arenas W2 i = Some a2" "ar_respawn a2 = ar_respawn a"
    using fun_cong [OF clock, of i] assms(7) by (auto simp: crystal_clock_def)
  obtain a3 where a3: "wd_arenas W3 i = Some a3"
    using arenas_okD(2) [OF core_okD(2) [OF ok3(1)], of i] i by auto
  have tk: "taken now i W2 W3" using turns i by blast
  let ?new = "hidden W3 i - hidden W2 i"
  have resp: "ar_respawn a3 c = (if c \<in> ?new then Some (now + seconds5) else ar_respawn a c)" for c
    using tk a2 a3 by (simp add: taken_def)
  have hid: "hidden W2 i = dom (ar_respawn a)" by (simp add: hidden_def a2)
  have a': "ar_respawn (respawned now a3) c = (case ar_respawn a3 c of None \<Rightarrow> None | Some t \<Rightarrow> if now < t then Some t else None)" for c
    by (simp add: respawned_def split: option.split)
  have new: "{c. ar_respawn a c = None \<and> ar_respawn (respawned now a3) c \<noteq> None} = ?new"
    using hid by (auto simp: a' resp domIff split: option.splits if_splits)
  have pts: "points W2 k = points W k" for k
  proof (cases "wd_players W k")
    case (Some p)
    then have "wd_players W2 k \<in> {Some p, Some (outside p)}" using pl(1) by blast
    then show ?thesis using Some by (auto simp: points_def)
  qed (use pl(2) in \<open>simp add: points_def\<close>)
  have "(\<Sum>k \<in> members W' i. points W' k - points W k) = won i W2 W3"
  proof -
    have "points W' k = points W3 k" "members W' i = members W3 i" for k
      by (simp_all add: points_def members_def inside_def W'(1))
    then show ?thesis by (simp add: won_def pts)
  qed
  then have "(\<Sum>k \<in> members W' i. points W' k - points W k) = of_nat (card ?new)"
    using tk by (simp add: taken_def)
  moreover have "ar_respawn (respawned now a3) c = (if now < t then Some t else None)" if "ar_respawn a c = Some t" for c t
    using that hid by (auto simp: a' resp)
  moreover have "t = now + seconds5" if "ar_respawn a c = None" "ar_respawn (respawned now a3) c = Some t" for c t
    using that by (auto simp: a' resp split: if_splits)
  ultimately show ?thesis
    unfolding new [symmetric] using a3 W'(2) by (intro exI [of _ "respawned now a3"]) auto
qed

text \<open>nobody is faster than 180 units per second: with exact arithmetic a player that is in an arena moves
  in one time step (a twentieth of a second) by at most 9 units, whatever it sent.\<close>
theorem web_speed_limit:
  assumes "reach web_init (web_step (we_fpu E)) W" "exact_fpu (we_fpu E)" "visits (we_visit E)"
    and "map_order (sm_byToken (wd_sessions W)) order" "worldStep E order now W s = Some (W', s')"
    and "wd_players W k = Some p" "wd_players W' k = Some p'" "pl_roomID p' \<noteq> 0"
  shows "\<exists>x y x' y'. place p = \<lparr> ps_X = Fin x, ps_Y = Fin y \<rparr> \<and> place p' = \<lparr> ps_X = Fin x', ps_Y = Fin y' \<rparr> \<and>
    (x' - x)\<^sup>2 + (y' - y)\<^sup>2 \<le> 9\<^sup>2"
proof -
  have num: "round_num (we_fpu E)" using assms(2) by (simp add: round_num_def exact_fpu_def)
  have inv: "web_inv (we_fpu E) W" using web.reach_inv [OF assms(1)] num by blast
  have "in_walls (we_fpu E) p \<and> stepped (we_fpu E) p p'"
  proof (cases "wd_closed W")
    case True
    then have "p' = p" using assms(5-7) by (simp add: worldStep_def)
    then show ?thesis
      using players_filedD(2) [OF core_okD(1) [OF web_invD(1) [OF inv]] assms(6)] assms(8) by (simp add: stepped_def)
  next
    case False
    obtain W2 W3 where inv2: "web_inv (we_fpu E) W2"
      and pl: "\<forall>k p. wd_players W k = Some p \<longrightarrow> wd_players W2 k \<in> {Some p, Some (outside p)}"
      and keep: "keeps W2 W3"
      and st: "\<forall>k p. wd_players W2 k = Some p \<longrightarrow> (\<exists>p'. wd_players W3 k = Some p' \<and> stepped (we_fpu E) p p')"
      and W': "wd_players W' = wd_players W3"
      by (rule worldStep_phases [OF inv num assms(3,4) False assms(5)])
    obtain p2 where p2: "wd_players W2 k = Some p2" "p2 = p \<or> p2 = outside p" using pl assms(6) by blast
    have room: "pl_roomID p' = pl_roomID p2" by (rule keeps_room(1) [OF keep p2(1)]) (use assms(7) W' in simp)
    then have eq: "p2 = p" using p2(2) assms(8) by auto
    have "stepped (we_fpu E) p p'"
      using st p2(1) assms(7) W' eq by fastforce
    then show ?thesis
      using players_filedD(2) [OF core_okD(1) [OF web_invD(1) [OF inv2]] p2(1)] room assms(8) eq by simp
  qed
  then show ?thesis using stepped_speed [OF assms(2), of p p'] by metis
qed

text \<open>C15: a snapshot of an arena shows exactly its players in ascending order of their ids, each with its current
  view and the number of players in the cells around it, and exactly the crystals that are not hidden.\<close>
theorem web_snapshot_exact:
  assumes "reach web_init (web_step (we_fpu E)) W" "round_num (we_fpu E)" "round_ok (we_fpu E)" "visits (we_visit E)"
    and "wd_arenas W i = Some a"
  shows "\<exists>sn. snapshot E a W = Some sn \<and> sn_Tick sn = wd_tick W \<and> sn_RoomID sn = i \<and>
    sn_Players sn = map (shown W a) (sorted_list_of_set {k. \<exists>p. wd_players W k = Some p \<and> pl_roomID p = i}) \<and>
    map pv_ID (sn_Players sn) = sorted_list_of_set {k. \<exists>p. wd_players W k = Some p \<and> pl_roomID p = i} \<and>
    set (sn_Crystals sn) = {c \<in> set startCrystals. ar_respawn a (cr_ID c) = None}"
proof -
  have inv: "web_inv (we_fpu E) W" using web.reach_inv [OF assms(1)] assms(2) by blast
  note core = core_okD [OF web_invD(1) [OF inv]]
  have ok: "arena_ok (we_fpu E) i a (inside W i)" by (rule arenas_okD(1) [OF core(2) assms(5)])
  let ?ids = "{k. \<exists>p. wd_players W k = Some p \<and> pl_roomID p = i}" and ?r = "ar_room a"
  have r: "room_ok ?r" "rm_ID ?r = i" "rm_members ?r = (\<lambda>k. map_option pl_conn (inside W i k))"
    using ok by (simp_all add: arena_ok_def room_agrees_def)
  have ids: "inside W i k \<noteq> None \<longleftrightarrow> k \<in> ?ids" for k by (auto simp: inside_def split: option.splits)
  then have dom: "dom (rm_members ?r) = ?ids" by (auto simp: r(3) dom_def)
  let ?ks = "we_visit E (dom (rm_members ?r))"
  have ks: "map_order (rm_members ?r) ?ks" using assms(4) by (simp add: map_order_def visits_def)
  have mem: "map ic_connID (Members ?ks ?r) = sort ?ks" by (rule Members_ids(1) [OF r(1) ks])
  have "sort ?ks = sorted_list_of_set ?ids"
    using ks sorted_list_of_set_sort_remdups [of ?ks] by (simp add: map_order_def distinct_remdups_id dom)
  with mem have ms: "map ic_connID (Members ?ks ?r) = sorted_list_of_set ?ids" by simp
  have fin: "finite ?ids" by (rule finite_subset [OF subset_UNIV]) simp
  have "inside W i (ic_connID c) \<noteq> None" if "c \<in> set (Members ?ks ?r)" for c
  proof -
    have "ic_connID c \<in> set (map ic_connID (Members ?ks ?r))" using that by simp
    then show ?thesis using fin ids unfolding ms by simp
  qed
  then have views: "snapshotPlayers E a W (Members ?ks ?r) = Some (map (shown W a) (sorted_list_of_set ?ids))"
    using snapshotPlayers_shown [OF ok assms(3,4) core(1), of "Members ?ks ?r"] ms [symmetric] by simp
  have "pv_ID (shown W a k) = k" if "k \<in> ?ids" for k
    using that players_filedD(1) [OF core(1)] by (auto simp: shown_def filed_def)
  then have "map (pv_ID \<circ> shown W a) (sorted_list_of_set ?ids) = map id (sorted_list_of_set ?ids)"
    using fin by (intro map_cong) auto
  then show ?thesis
    using views ok by (simp add: snapshot_def r(2) arena_ok_def)
qed

theorem web_arena_consistent_witness:
  "\<exists>a. wd_arenas demo_web4 1 = Some a \<and> rm_members (ar_room a) 7 = Some demo_link \<and>
     GetPosition 7 (ar_aoi a) = Inr \<lparr> ps_X = Fin 130, ps_Y = Fin 270 \<rparr> \<and> PlayerCount (ar_room a) \<le> 8"
proof -
  obtain a where a: "wd_arenas demo_web4 1 = Some a" using demo_web4_step(3) by blast
  have p: "wd_players demo_web4 7 = Some (arrived 1 demo_hero)" by (simp add: demo_web4_step(2))
  note agree = web_arena_consistent [OF demo_web4_step(1) demo_fpu_laws(1) a]
  have "rm_members (ar_room a) 7 = Some demo_link"
    using agree p by (auto simp: demo_hero_def)
  moreover have "GetPosition 7 (ar_aoi a) = Inr \<lparr> ps_X = Fin 130, ps_Y = Fin 270 \<rparr>"
    using agree p by auto
  ultimately show ?thesis using a agree by blast
qed

theorem web_guests_accounted_witness:
  "\<exists>t v. sm_byToken (wd_sessions demo_web4) t = Some v \<and> ses_Bound v \<and> ses_ConnID v = 7 \<and>
     wd_names demo_web4 (ses_PlayerID v) = Some [65]"
proof -
  have p: "wd_players demo_web4 7 = Some (arrived 1 demo_hero) \<and> pl_roomID (arrived 1 demo_hero) \<noteq> 0"
    by (simp add: demo_web4_step(2))
  have "pv_Name (pl_view (arrived 1 demo_hero)) = [65]" by (simp add: demo_hero_def)
  with conjunct1 [OF web_guests_accounted [OF demo_web4_step(1) demo_fpu_laws(1)]] p show ?thesis by metis
qed

theorem web_calls_return_witness:
  "(\<exists>W' s'. worldStep demo_env [demo_ticket] 4 demo_web4 no_conns = Some (W', s')) \<and>
   (\<exists>W' s'. worldHandle demo_env 7 MsgInput [0x7B] 4 4 demo_web4 no_conns = Some (W', s'))"
  using web_calls_return [of demo_env demo_web4 "[demo_ticket]" 4 no_conns 7 MsgInput "[0x7B]" 4 4]
    demo_web4_step(1) demo_fpu_laws demo_order by simp

lemma demo_tick: "\<exists>W' s'. worldStep demo_env [demo_ticket] 4 demo_web4 no_conns = Some (W', s')"
proof -
  have "web_inv demo_fpu demo_web4" using web.reach_inv [OF demo_web4_step(1)] demo_fpu_laws(1) by blast
  then show ?thesis using worldStep_returns [of demo_env demo_web4 "[demo_ticket]" 4 no_conns] demo_fpu_laws demo_order by simp
qed

theorem web_crystals_collected_once_witness:
  "\<exists>W' s' a a'. worldStep demo_env [demo_ticket] 4 demo_web4 no_conns = Some (W', s') \<and>
     wd_arenas demo_web4 1 = Some a \<and> wd_arenas W' 1 = Some a' \<and>
     (\<Sum>k \<in> members W' 1. points W' k - points demo_web4 k) =
        of_nat (card {c. ar_respawn a c = None \<and> ar_respawn a' c \<noteq> None})"
proof -
  obtain W' s' where st: "worldStep demo_env [demo_ticket] 4 demo_web4 no_conns = Some (W', s')" using demo_tick by blast
  obtain a where a: "wd_arenas demo_web4 1 = Some a" using demo_web4_step(3) by blast
  have r: "reach web_init (web_step (we_fpu demo_env)) demo_web4" "round_num (we_fpu demo_env)" "\<not> wd_closed demo_web4"
    using demo_web4_step(1,4) demo_fpu_laws by simp_all
  from web_crystals_collected_once [OF r(1,2) demo_fpu_laws(5) demo_order r(3) st a] st a show ?thesis by blast
qed

theorem web_snapshot_exact_witness:
  "\<exists>a sn. wd_arenas demo_web4 1 = Some a \<and> snapshot demo_env a demo_web4 = Some sn \<and>
     map pv_ID (sn_Players sn) = [7] \<and> set (sn_Crystals sn) = set startCrystals"
proof -
  obtain a where a: "wd_arenas demo_web4 1 = Some a" "ar_respawn a = Map.empty" using demo_web4_step(3) by blast
  have r: "reach web_init (web_step (we_fpu demo_env)) demo_web4" "round_num (we_fpu demo_env)" "round_ok (we_fpu demo_env)"
    using demo_web4_step(1) demo_fpu_laws by simp_all
  have "{k. \<exists>p. wd_players demo_web4 k = Some p \<and> pl_roomID p = 1} = {7}"
    by (auto simp: demo_web4_step(2) split: if_splits)
  with web_snapshot_exact [OF r demo_fpu_laws(5) a(1)] a show ?thesis by auto
qed

lemma demo_tick_player:
  assumes "worldStep demo_env [demo_ticket] 4 demo_web4 no_conns = Some (W', s')"
  shows "\<exists>p'. wd_players W' 7 = Some p' \<and> pl_roomID p' = 1"
proof -
  note laws = demo_fpu_laws(1-3) [folded demo_fpu_laws(4)] demo_fpu_laws(5)
  have inv: "web_inv (we_fpu demo_env) demo_web4"
    using web.reach_inv [OF demo_web4_step(1)] demo_fpu_laws(1,4) by simp
  have open4: "\<not> wd_closed demo_web4" by (simp add: demo_web4_step(4))
  from open4 assms obtain gone m' W2 s2 W3 s3 where
    r: "RemoveExpired [demo_ticket] 4 (wd_sessions demo_web4) = (gone, m')"
    and e: "expireSessions demo_env gone (demo_web4\<lparr>wd_tick := wd_tick demo_web4 + 1, wd_sessions := m'\<rparr>, no_conns) = (W2, s2)"
    and st: "stepPlayers demo_env 4 (tickOrder (wd_tick W2) (we_visit demo_env (dom (wd_players W2)))) (W2, s2) = Some (W3, s3)"
    and a: "stepArenas demo_env 4 (we_visit demo_env (dom (wd_arenas W3))) (W3, s3) = Some (W', s')"
    by (rule worldStep_stages)
  have "gone = []"
    using r by (simp add: RemoveExpired_def demo_web4_step(5) expired_def demo_bound_def demo_guest_def fresh_session_def)
  with e have W2: "wd_players W2 7 = Some (arrived 1 demo_hero)" by (auto simp: demo_web4_step(2))
  have inv2: "web_inv (we_fpu demo_env) W2" by (rule expired_world [OF inv demo_order r e])
  have ok3: "core_ok (we_fpu demo_env) W3 \<and> keeps W2 W3"
    by (rule stepPlayers_ok [OF web_invD(1) [OF inv2] laws(1) _ st]) (use laws(4) in \<open>simp add: tickOrder_set visits_def\<close>)
  then have "keeps W3 W'"
    using stepArenas_ok [OF _ _ a, of "we_fpu demo_env"] laws(4) by (simp add: core_ok_def arenas_ok_def visits_def)
  with ok3 have keep: "keeps W2 W'" using keeps_trans by blast
  from keeps_player [OF keep W2] show ?thesis by (auto simp: badge_def)
qed

theorem web_speed_limit_witness:
  "\<exists>W' s' p' x' y'. worldStep demo_env [demo_ticket] 4 demo_web4 no_conns = Some (W', s') \<and>
     wd_players W' 7 = Some p' \<and> place p' = \<lparr> ps_X = Fin x', ps_Y = Fin y' \<rparr> \<and> (x' - 130)\<^sup>2 + (y' - 270)\<^sup>2 \<le> 9\<^sup>2"
proof -
  obtain W' s' where st: "worldStep demo_env [demo_ticket] 4 demo_web4 no_conns = Some (W', s')" using demo_tick by blast
  obtain p' where p': "wd_players W' 7 = Some p'" "pl_roomID p' \<noteq> 0" using demo_tick_player [OF st] by auto
  have r: "reach web_init (web_step (we_fpu demo_env)) demo_web4" "exact_fpu (we_fpu demo_env)"
    "wd_players demo_web4 7 = Some (arrived 1 demo_hero)"
    using demo_web4_step(1,2) demo_fpu_laws by simp_all
  from web_speed_limit [OF r(1,2) demo_fpu_laws(5) demo_order st r(3) p'] st p'(1) show ?thesis by auto
qed

end
