(* ===== verification/UnityServer.thy ===== *)
theory UnityServer
  imports UnityWorld Room SessionManager
begin

text \<open>
  The server for Unity clients of \<open>examples/unityserver/server.go\<close>: the shared state (world, rooms,
  sessions, the counter of player ids), the six routers and the two connection hooks. The connections are the store
  of \<open>ConnStore\<close>; a handler runs from its first to its last call without another handler in between, also
  when the stop hook of its connection has run already. Console output is left out. An outer \<open>None\<close> is a call that does not return, as in \<open>UnityWorld\<close>.
\<close>

section \<open>Properties of connections\<close>

text \<open>The dynamic types of the values the server stores in a connection.\<close>

datatype prop_value = PropString string | PropU32 u32 | PropU64 u64

type_synonym unity_store = "prop_value conn_store"

definition storeGetProperty :: "string \<Rightarrow> iconn \<Rightarrow> 'p conn_store \<Rightarrow> 'p res" where
  "storeGetProperty key i s =
     (case conn_at s i of None \<Rightarrow> Inl (Panic ''nil pointer dereference'') | Some c \<Rightarrow> GetProperty key c)"

definition storeSetProperty :: "string \<Rightarrow> 'p \<Rightarrow> iconn \<Rightarrow> 'p conn_store \<Rightarrow> 'p conn_store" where
  "storeSetProperty key v i s =
     (case conn_at s i of None \<Rightarrow> s | Some c \<Rightarrow> s(ic_ref i \<mapsto> SetProperty key v c))"

definition storeRemoveProperty :: "string \<Rightarrow> iconn \<Rightarrow> 'p conn_store \<Rightarrow> 'p conn_store" where
  "storeRemoveProperty key i s =
     (case conn_at s i of None \<Rightarrow> s | Some c \<Rightarrow> s(ic_ref i \<mapsto> RemoveProperty key c))"

definition getRoomID :: "iconn \<Rightarrow> unity_store \<Rightarrow> u32" where
  "getRoomID connection s =
     (case storeGetProperty ''RoomID'' connection s of
        Inr (PropU32 roomID) \<Rightarrow> roomID
      | _ \<Rightarrow> 0)"

definition getPlayerID :: "iconn \<Rightarrow> unity_store \<Rightarrow> int32" where
  "getPlayerID connection s =
     (case storeGetProperty ''PlayerID'' connection s of
        Inr (PropU64 playerID) \<Rightarrow> ucast playerID
      | _ \<Rightarrow> 0)"

section \<open>The server\<close>

record UnityServer =
  us_World :: UnityWorld
  us_Rooms :: RoomManager
  us_Sessions :: Manager
  us_nextPlayerID :: u64

type_synonym unity_state = "UnityServer \<times> unity_store"

definition text_bytes :: "string \<Rightarrow> bytes" where
  "text_bytes msg = map of_char msg"

definition UnityMsgSyncPID :: u32 where "UnityMsgSyncPID = 1"
definition UnityMsgTalk :: u32 where "UnityMsgTalk = 2"
definition UnityMsgMove :: u32 where "UnityMsgMove = 3"
definition UnityMsgBroadCast :: u32 where "UnityMsgBroadCast = 200"
definition UnityMsgPlayerLeave :: u32 where "UnityMsgPlayerLeave = 201"
definition UnityMsgSyncPlayers :: u32 where "UnityMsgSyncPlayers = 202"
definition UnityMsgCreateRoom :: u32 where "UnityMsgCreateRoom = 203"
definition UnityMsgJoinRoom :: u32 where "UnityMsgJoinRoom = 204"
definition UnityMsgLeaveRoom :: u32 where "UnityMsgLeaveRoom = 205"
definition UnityMsgRoomEvent :: u32 where "UnityMsgRoomEvent = 206"

lemmas unity_msg_defs = UnityMsgSyncPID_def UnityMsgTalk_def UnityMsgMove_def UnityMsgBroadCast_def
  UnityMsgPlayerLeave_def UnityMsgSyncPlayers_def UnityMsgCreateRoom_def UnityMsgJoinRoom_def UnityMsgLeaveRoom_def
  UnityMsgRoomEvent_def

definition sendRoomResponse ::
  "Config \<Rightarrow> iconn \<Rightarrow> u32 \<Rightarrow> u32 \<Rightarrow> int32 \<Rightarrow> string \<Rightarrow> nat \<Rightarrow> unity_store \<Rightarrow> unity_store" where
  "sendRoomResponse g connection msgID roomID code message playerCount s =
     (case MarshalRoomResponse \<lparr> urs_RoomID = roomID, urs_Code = code, urs_Message = text_bytes message,
                                 urs_PlayerCount = of_nat playerCount \<rparr> of
        Inl err \<Rightarrow> s
      | Inr data \<Rightarrow> snd (storeSend g msgID data connection s))"

definition buildUnityBroadcast ::
  "int32 \<Rightarrow> int32 \<Rightarrow> bytes \<Rightarrow> UnityPosition option \<Rightarrow> int32 \<Rightarrow> bytes res" where
  "buildUnityBroadcast pid tp content position actionData =
     MarshalBroadCast \<lparr> ub_PID = pid, ub_TP = tp, ub_Content = content, ub_P = position, ub_ActionData = actionData \<rparr>"

text \<open>A method call on a room the manager handed out.\<close>

definition roomDo :: "nat \<Rightarrow> (Room \<Rightarrow> go_error option \<times> Room) \<Rightarrow> RoomManager \<Rightarrow> go_error option \<times> RoomManager" where
  "roomDo room f rg =
     (case rg_heap rg room of
        None \<Rightarrow> (Some (Panic ''nil pointer dereference''), rg)
      | Some r \<Rightarrow> (case f r of (err, r') \<Rightarrow> (err, rg\<lparr>rg_heap := (rg_heap rg)(room \<mapsto> r')\<rparr>)))"

definition roomCount :: "nat \<Rightarrow> RoomManager \<Rightarrow> nat" where
  "roomCount room rg = (case rg_heap rg room of None \<Rightarrow> 0 | Some r \<Rightarrow> PlayerCount r)"

definition roomIdentity :: "nat \<Rightarrow> RoomManager \<Rightarrow> u32" where
  "roomIdentity room rg = (case rg_heap rg room of None \<Rightarrow> 0 | Some r \<Rightarrow> rm_ID r)"

section \<open>Routers\<close>

text \<open>The chat; \<open>ks\<close> is the order in which the players of the world are visited.\<close>

definition UnityChatHandle :: "Config \<Rightarrow> u32 list \<Rightarrow> iconn \<Rightarrow> bytes \<Rightarrow> unity_state \<Rightarrow> unity_state" where
  "UnityChatHandle g ks connection data st =
     (case st of (U, s) \<Rightarrow>
       (case UnmarshalTalk data (Some \<lparr> ut_Content = [] \<rparr>) of
          (Some err, _) \<Rightarrow> (U, s)
        | (None, talk) \<Rightarrow>
            (case buildUnityBroadcast (ic_connID connection) 1 (ut_Content (the talk)) None 0 of
               Inl err \<Rightarrow> (U, s)
             | Inr message \<Rightarrow> (U, snd (WorldBroadcast g UnityMsgBroadCast message ks (Some (us_World U)) s)))))"

definition UnityCreateRoomHandle :: "Config \<Rightarrow> iconn \<Rightarrow> bytes \<Rightarrow> unity_state \<Rightarrow> unity_state" where
  "UnityCreateRoomHandle g connection data st =
     (case st of (U, s) \<Rightarrow>
       (case UnmarshalRoomRequest data (Some \<lparr> urq_RoomID = 0 \<rparr>) of
          (decodeErr, rq) \<Rightarrow>
            let roomID = urq_RoomID (the rq)
            in case decodeErr of
                 Some err \<Rightarrow> (U, sendRoomResponse g connection UnityMsgCreateRoom roomID (-1) (errorText err) 0 s)
               | None \<Rightarrow>
                   if roomID = 0
                   then (U, sendRoomResponse g connection UnityMsgCreateRoom roomID (-1) ''room id is empty'' 0 s)
                   else (case CreateRoom roomID 0 (us_Rooms U) of
                           (Inl err, rooms) \<Rightarrow>
                             (U\<lparr>us_Rooms := rooms\<rparr>,
                              sendRoomResponse g connection UnityMsgCreateRoom roomID (-1) (errorText err) 0 s)
                         | (Inr room, rooms) \<Rightarrow>
                             (U\<lparr>us_Rooms := rooms\<rparr>,
                              sendRoomResponse g connection UnityMsgCreateRoom (roomIdentity room rooms) 0 ''room created'' 0 s))))"

text \<open>The part of \<open>UnityJoinRoomRouter.Handle\<close> after \<open>room.Join\<close> has succeeded.\<close>

definition finishJoin :: "Config \<Rightarrow> iconn \<Rightarrow> u32 \<Rightarrow> nat \<Rightarrow> unity_state \<Rightarrow> unity_state" where
  "finishJoin g connection roomID room st =
     (case st of (U, s) \<Rightarrow>
       let joined = (\<lambda>rooms.
             (U\<lparr>us_Rooms := rooms\<rparr>,
              sendRoomResponse g connection UnityMsgJoinRoom (roomIdentity room rooms) 0 ''room joined'' (roomCount room rooms)
                (storeSetProperty ''RoomID'' (PropU32 roomID) connection s)));
           currentRoomID = getRoomID connection s
       in if currentRoomID \<noteq> 0 then
            (case GetRoom currentRoomID (us_Rooms U) of
               Inl currentErr \<Rightarrow> joined (us_Rooms U)
             | Inr currentRoom \<Rightarrow>
                 (case roomDo currentRoom (Leave (ic_connID connection)) (us_Rooms U) of
                    (Some leaveErr, rooms) \<Rightarrow>
                      (let rooms' = snd (roomDo room (Leave (ic_connID connection)) rooms)
                       in (U\<lparr>us_Rooms := rooms'\<rparr>,
                           sendRoomResponse g connection UnityMsgJoinRoom roomID (-1) (errorText leaveErr)
                             (roomCount room rooms') s))
                  | (None, rooms) \<Rightarrow> joined rooms))
          else joined (us_Rooms U))"

definition UnityJoinRoomHandle :: "Config \<Rightarrow> iconn \<Rightarrow> bytes \<Rightarrow> unity_state \<Rightarrow> unity_state" where
  "UnityJoinRoomHandle g connection data st =
     (case st of (U, s) \<Rightarrow>
       (case UnmarshalRoomRequest data (Some \<lparr> urq_RoomID = 0 \<rparr>) of
          (decodeErr, rq) \<Rightarrow>
            let roomID = urq_RoomID (the rq)
            in case decodeErr of
                 Some err \<Rightarrow> (U, sendRoomResponse g connection UnityMsgJoinRoom roomID (-1) (errorText err) 0 s)
               | None \<Rightarrow>
                   (case GetRoom roomID (us_Rooms U) of
                      Inl err \<Rightarrow> (U, sendRoomResponse g connection UnityMsgJoinRoom roomID (-1) (errorText err) 0 s)
                    | Inr room \<Rightarrow>
                        if getRoomID connection s \<noteq> 0 \<and> getRoomID connection s = roomID
                        then (U, sendRoomResponse g connection UnityMsgJoinRoom roomID (-1)
                                   ''connection already joined room'' (roomCount room (us_Rooms U)) s)
                        else (case roomDo room (Join (Some connection)) (us_Rooms U) of
                                (Some err, rooms) \<Rightarrow>
                                  (U\<lparr>us_Rooms := rooms\<rparr>,
                                   sendRoomResponse g connection UnityMsgJoinRoom roomID (-1) (errorText err)
                                     (roomCount room rooms) s)
                              | (None, rooms) \<Rightarrow> finishJoin g connection roomID room (U\<lparr>us_Rooms := rooms\<rparr>, s)))))"

definition UnityLeaveRoomHandle :: "Config \<Rightarrow> iconn \<Rightarrow> unity_state \<Rightarrow> unity_state" where
  "UnityLeaveRoomHandle g connection st =
     (case st of (U, s) \<Rightarrow>
       let roomID = getRoomID connection s
       in if roomID = 0
          then (U, sendRoomResponse g connection UnityMsgLeaveRoom 0 (-1) ''connection is not in room'' 0 s)
          else (case GetRoom roomID (us_Rooms U) of
                  Inl err \<Rightarrow>
                    (U, sendRoomResponse g connection UnityMsgLeaveRoom roomID (-1) (errorText err) 0
                          (storeRemoveProperty ''RoomID'' connection s))
                | Inr room \<Rightarrow>
                    (case roomDo room (Leave (ic_connID connection)) (us_Rooms U) of
                       (Some err, rooms) \<Rightarrow>
                         (U\<lparr>us_Rooms := rooms\<rparr>,
                          sendRoomResponse g connection UnityMsgLeaveRoom roomID (-1) (errorText err)
                            (roomCount room rooms) s)
                     | (None, rooms) \<Rightarrow>
                         (U\<lparr>us_Rooms := rooms\<rparr>,
                          sendRoomResponse g connection UnityMsgLeaveRoom roomID 0 ''room left'' (roomCount room rooms)
                            (storeRemoveProperty ''RoomID'' connection s)))))"

text \<open>The broadcast in a room; \<open>ks\<close> is the order in which its members are visited.\<close>

definition UnityRoomEventHandle :: "Config \<Rightarrow> u32 list \<Rightarrow> iconn \<Rightarrow> bytes \<Rightarrow> unity_state \<Rightarrow> unity_state" where
  "UnityRoomEventHandle g ks connection data st =
     (case st of (U, s) \<Rightarrow>
       let roomID = getRoomID connection s
       in if roomID = 0 then (U, s)
          else
            let playerID = getPlayerID connection s
            in (case UnmarshalRoomEvent data (Some \<lparr> ure_RoomID = 0, ure_PlayerID = 0, ure_Content = [] \<rparr>) of
                  (Some err, _) \<Rightarrow> (U, s)
                | (None, event) \<Rightarrow>
                    (case MarshalRoomEvent ((the event)\<lparr>ure_RoomID := roomID, ure_PlayerID := playerID\<rparr>) of
                       Inl err \<Rightarrow> (U, s)
                     | Inr eventData \<Rightarrow>
                         (case GetRoom roomID (us_Rooms U) of
                            Inl err \<Rightarrow> (U, s)
                          | Inr room \<Rightarrow>
                              (case rg_heap (us_Rooms U) room of
                                 None \<Rightarrow> (U, s)
                               | Some r \<Rightarrow> (U, snd (Broadcast g UnityMsgRoomEvent eventData ks r s)))))))"

text \<open>The two loops of a move: the players that came into sight, and those that went out of it.\<close>

fun sendEntered :: "Config \<Rightarrow> iconn \<Rightarrow> bytes \<Rightarrow> UnityWorldPlayer list \<Rightarrow> 'p conn_store \<Rightarrow> 'p conn_store" where
  "sendEntered g connection joinData [] s = s"
| "sendEntered g connection joinData (enteredPlayer # players) s =
     (let s1 = snd (storeSend g UnityMsgBroadCast joinData (uwp_Connection enteredPlayer) s);
          s2 = (case buildUnityBroadcast (uwp_PID enteredPlayer) 2 [] (Some (uwp_Position enteredPlayer))
                       (uwp_ActionData enteredPlayer) of
                  Inl encodeErr \<Rightarrow> s1
                | Inr enteredData \<Rightarrow> snd (storeSend g UnityMsgBroadCast enteredData connection s1))
      in sendEntered g connection joinData players s2)"

fun sendLeft :: "Config \<Rightarrow> iconn \<Rightarrow> int32 \<Rightarrow> UnityWorldPlayer list \<Rightarrow> 'p conn_store \<Rightarrow> 'p conn_store" where
  "sendLeft g connection mover [] s = s"
| "sendLeft g connection mover (leftPlayer # players) s =
     (let s1 = (case MarshalSyncPID \<lparr> usp_PID = uwp_PID leftPlayer \<rparr> of
                  Inl encodeErr \<Rightarrow> s
                | Inr leftData \<Rightarrow>
                    let moverData = (case MarshalSyncPID \<lparr> usp_PID = mover \<rparr> of Inl _ \<Rightarrow> [] | Inr d \<Rightarrow> d);
                        s0 = snd (storeSend g UnityMsgPlayerLeave moverData (uwp_Connection leftPlayer) s)
                    in snd (storeSend g UnityMsgPlayerLeave leftData connection s0))
      in sendLeft g connection mover players s1)"

definition UnityMoveHandle ::
  "Config \<Rightarrow> (u32 set \<Rightarrow> u32 list) \<Rightarrow> fpu \<Rightarrow> iconn \<Rightarrow> bytes \<Rightarrow> unity_state \<Rightarrow> unity_state option" where
  "UnityMoveHandle g visit F connection data st =
     (case st of (U, s) \<Rightarrow>
       (case UnmarshalPosition data (Some zeroPosition) of
          (Some err, _) \<Rightarrow> Some (U, s)
        | (None, position) \<Rightarrow>
            do {
              (r, world) \<leftarrow> UpdatePlayerWithVisibility visit F (ic_connID connection) (the position) 0 (Some (us_World U));
              let U1 = U\<lparr>us_World := the world\<rparr>;
              case r of
                Inl err \<Rightarrow> Some (U1, s)
              | Inr result \<Rightarrow>
                  let player = mr_Player result
                  in (case buildUnityBroadcast (uwp_PID player) 2 [] (Some (uwp_Position player)) (uwp_ActionData player) of
                        Inl err \<Rightarrow> Some (U1, s)
                      | Inr joinData \<Rightarrow>
                          let s1 = sendEntered g connection joinData (mr_Entered result) s;
                              s2 = sendLeft g connection (uwp_PID player) (mr_Left result) s1
                          in (case buildUnityBroadcast (uwp_PID player) 3 [] (Some (uwp_Position player))
                                     (uwp_ActionData player) of
                                Inl err \<Rightarrow> Some (U1, s2)
                              | Inr message \<Rightarrow>
                                  do {
                                    (errorsFound, s3) \<leftarrow> BroadcastVisible visit g (ic_connID connection)
                                       UnityMsgBroadCast message True (Some (us_World U1)) s2;
                                    Some (U1, s3)
                                  }))
            }))"

section \<open>Connection hooks\<close>

definition NewUnityServer :: "UnityServer res" where
  "NewUnityServer =
     (case New ReplaceExisting of
        Inl err \<Rightarrow> Inl (Panic (errorText err))
      | Inr sessions \<Rightarrow>
          (case NewUnityWorld of
             Inl err \<Rightarrow> Inl err
           | Inr world \<Rightarrow>
               (case CreateRoom 1 100 NewRoomManager of
                  (Inl err, rooms) \<Rightarrow> Inl (Panic (errorText err))
                | (Inr room, rooms) \<Rightarrow>
                    Inr \<lparr> us_World = world, us_Rooms = rooms, us_Sessions = sessions, us_nextPlayerID = 1000 \<rparr>)))"

definition oneDay :: duration where "oneDay = 24 * 3600 * 1000000000"

definition unityAccount :: "u32 \<Rightarrow> string" where
  "unityAccount connID = ''unity-conn-'' @ itoa (unat connID)"

text \<open>The last part of the start hook: the default room and the messages to the new player and those in its sight.\<close>

definition enterDefaultRoom :: "iconn \<Rightarrow> unity_state \<Rightarrow> unity_state" where
  "enterDefaultRoom connection st =
     (case st of (U, s) \<Rightarrow>
       (case GetRoom 1 (us_Rooms U) of
          Inl roomErr \<Rightarrow> (U, s)
        | Inr room \<Rightarrow>
            (case roomDo room (Join (Some connection)) (us_Rooms U) of
               (Some err, rooms) \<Rightarrow> (U\<lparr>us_Rooms := rooms\<rparr>, s)
             | (None, rooms) \<Rightarrow>
                 (U\<lparr>us_Rooms := rooms\<rparr>, storeSetProperty ''RoomID'' (PropU32 1) connection s))))"

definition marshalled :: "bytes res \<Rightarrow> bytes" where
  "marshalled r = (case r of Inl err \<Rightarrow> [] | Inr data \<Rightarrow> data)"

definition announcePlayer ::
  "Config \<Rightarrow> (u32 set \<Rightarrow> u32 list) \<Rightarrow> iconn \<Rightarrow> UnityWorldPlayer \<Rightarrow> UnityWorldPlayer list \<Rightarrow> unity_state
   \<Rightarrow> unity_state option" where
  "announcePlayer g visit connection player oldPlayers st =
     (case st of (U, s) \<Rightarrow>
       (case storeSend g UnityMsgSyncPID (marshalled (MarshalSyncPID \<lparr> usp_PID = uwp_PID player \<rparr>)) connection s of
          (Some err, s1) \<Rightarrow> Some (U, s1)
        | (None, s1) \<Rightarrow>
            let players = map (\<lambda>oldPlayer. \<lparr> upl_PID = uwp_PID oldPlayer, upl_P = uwp_Position oldPlayer \<rparr>) oldPlayers
            in (case storeSend g UnityMsgSyncPlayers (marshalled (MarshalSyncPlayers \<lparr> usps_Players = players \<rparr>)) connection s1 of
                  (Some err, s2) \<Rightarrow> Some (U, s2)
                | (None, s2) \<Rightarrow>
                    do {
                      (errorsFound, s3) \<leftarrow> BroadcastVisible visit g (uwp_ConnID player) UnityMsgBroadCast
                        (marshalled (buildUnityBroadcast (uwp_PID player) 2 [] (Some (uwp_Position player)) 0)) True
                        (Some (us_World U)) s2;
                      Some (U, s3)
                    })))"

text \<open>
  \<open>random\<close> and \<open>now\<close> are what \<open>Issue\<close> reads from the random source and the clock, \<open>now1\<close> and \<open>now2\<close> the
  clock readings of \<open>Bind\<close>.
\<close>

definition OnConnStart ::
  "Config \<Rightarrow> (u32 set \<Rightarrow> u32 list) \<Rightarrow> fpu \<Rightarrow> bytes res \<Rightarrow> gotime \<Rightarrow> gotime \<Rightarrow> gotime \<Rightarrow> iconn \<Rightarrow> unity_state
   \<Rightarrow> unity_state option" where
  "OnConnStart g visit F random now now1 now2 connection st =
     (case st of (U, s) \<Rightarrow>
       let playerID = us_nextPlayerID U + 1;
           U1 = U\<lparr>us_nextPlayerID := playerID\<rparr>
       in (case Issue (us_Sessions U1) (unityAccount (ic_connID connection)) playerID oneDay random now of
             (Inl err, sessions) \<Rightarrow> Some (U1\<lparr>us_Sessions := sessions\<rparr>, storeStop connection s)
           | (Inr (gameSession, replaced), sessions) \<Rightarrow>
               let s1 = storeSetProperty ''AccountID'' (PropString (ses_AccountID gameSession)) connection s
               in (case Bind sessions (ses_Token gameSession) (ic_connID connection) now1 now2 of
                     (Inl err, sessions1) \<Rightarrow>
                       Some (U1\<lparr>us_Sessions := snd (LogoutByToken sessions1 (ses_Token gameSession))\<rparr>,
                             storeStop connection s1)
                   | (Inr bound, sessions1) \<Rightarrow>
                       let U2 = U1\<lparr>us_Sessions := sessions1\<rparr>;
                           s2 = storeSetProperty ''SessionToken'' (PropString (ses_Token gameSession)) connection s1;
                           s3 = storeSetProperty ''PlayerID'' (PropU64 (ses_PlayerID gameSession)) connection s2
                       in do {
                            (r, world) \<leftarrow> AddPlayerWithPID visit F (Some connection) (ucast (ses_PlayerID gameSession))
                              (Some (us_World U2));
                            let U3 = U2\<lparr>us_World := the world\<rparr>;
                            case r of
                              Inl err \<Rightarrow> Some (U3, storeStop connection s3)
                            | Inr (player, oldPlayers) \<Rightarrow>
                                announcePlayer g visit connection player oldPlayers
                                  (enterDefaultRoom connection (U3, s3))
                          })))"

definition OnConnStop ::
  "Config \<Rightarrow> (u32 set \<Rightarrow> u32 list) \<Rightarrow> iconn \<Rightarrow> unity_state \<Rightarrow> unity_state option" where
  "OnConnStop g visit connection st =
     (case st of (U, s) \<Rightarrow>
       let roomID = getRoomID connection s;
           rooms = (if roomID \<noteq> 0
                    then (case GetRoom roomID (us_Rooms U) of
                            Inl err \<Rightarrow> us_Rooms U
                          | Inr room \<Rightarrow> snd (roomDo room (Leave (ic_connID connection)) (us_Rooms U)))
                    else us_Rooms U);
           U1 = U\<lparr>us_Rooms := rooms\<rparr>
       in do {
            (r, world) \<leftarrow> RemovePlayerWithVisibility visit (ic_connID connection) (Some (us_World U1));
            let U2 = U1\<lparr>us_World := the world\<rparr>;
            case r of
              Inl err \<Rightarrow>
                Some (U2\<lparr>us_Sessions := snd (LogoutByConnID (us_Sessions U2) (ic_connID connection))\<rparr>, s)
            | Inr (player, nearbyPlayers) \<Rightarrow>
                let pidData = marshalled (MarshalSyncPID \<lparr> usp_PID = uwp_PID player \<rparr>);
                    s1 = snd (sendPlayers g UnityMsgPlayerLeave pidData nearbyPlayers [] s)
                in Some (U2\<lparr>us_Sessions := snd (LogoutByConnID (us_Sessions U2) (ic_connID connection))\<rparr>, s1)
          })"

text \<open>The routers \<open>Run\<close> registers.\<close>

definition unityHandle ::
  "Config \<Rightarrow> (u32 set \<Rightarrow> u32 list) \<Rightarrow> fpu \<Rightarrow> u32 list \<Rightarrow> u32 \<Rightarrow> iconn \<Rightarrow> bytes \<Rightarrow> unity_state \<Rightarrow> unity_state option" where
  "unityHandle g visit F ks msgID connection data st =
     (if msgID = UnityMsgTalk then Some (UnityChatHandle g ks connection data st)
      else if msgID = UnityMsgMove then UnityMoveHandle g visit F connection data st
      else if msgID = UnityMsgCreateRoom then Some (UnityCreateRoomHandle g connection data st)
      else if msgID = UnityMsgJoinRoom then Some (UnityJoinRoomHandle g connection data st)
      else if msgID = UnityMsgLeaveRoom then Some (UnityLeaveRoomHandle g connection st)
      else if msgID = UnityMsgRoomEvent then Some (UnityRoomEventHandle g ks connection data st)
      else Some st)"

section \<open>What sending leaves alone\<close>

text \<open>The properties of the connections, as a view on the store. Sending and stopping do not change it.\<close>

definition props :: "'p conn_store \<Rightarrow> nat \<Rightarrow> (string \<rightharpoonup> 'p) option" where
  "props s ref = map_option cn_property (s ref)"

definition prop_at :: "'p conn_store \<Rightarrow> iconn \<Rightarrow> string \<Rightarrow> 'p option" where
  "prop_at s c key = Option.bind (props s (ic_ref c)) (\<lambda>m. m key)"

lemma SendBuffMsg_property: "SendBuffMsg g m d c = (err, c') \<Longrightarrow> cn_property c' = cn_property c"
  by (auto simp: SendBuffMsg_def offer_def split: if_splits sum.splits option.splits)

lemma props_storeSend [simp]: "props (snd (storeSend g m d i s)) = props s"
  using SendBuffMsg_property by (fastforce simp: props_def storeSend_def split: option.splits prod.splits)

lemma props_storeSend_eq: "storeSend g m d i s = (err, s') \<Longrightarrow> props s' = props s"
  using props_storeSend [of g m d i s] by simp

lemma props_storeStop [simp]: "props (storeStop i s) = props s"
  by (auto simp: props_def storeStop_def split: option.splits)

lemma props_sendPlayers [simp]: "props (snd (sendPlayers g m d ps errs s)) = props s"
proof (induction ps arbitrary: errs s)
  case (Cons p ps)
  obtain err s1 where s1: "storeSend g m d (uwp_Connection p) s = (err, s1)" by fastforce
  from Cons.IH [of _ s1] props_storeSend_eq [OF s1] show ?case by (cases err) (simp_all add: s1)
qed simp

lemma props_broadcastLoop [simp]: "props (snd (broadcastLoop g m d ex b cs errs s)) = props s"
proof (induction cs arbitrary: errs s)
  case (Cons c cs)
  obtain err s1 where s1: "storeSend g m d c s = (err, s1)" by fastforce
  from Cons.IH [of _ s1] Cons.IH [of _ s] props_storeSend_eq [OF s1] show ?case by (cases err; cases b) (simp_all add: s1)
qed simp

lemma props_sendEntered [simp]: "props (sendEntered g c d ps s) = props s"
  by (induction ps arbitrary: s) (auto simp: Let_def split: sum.splits)

lemma props_sendLeft [simp]: "props (sendLeft g c p ps s) = props s"
  by (induction ps arbitrary: s) (auto simp: Let_def split: sum.splits)

lemma props_sendRoomResponse [simp]: "props (sendRoomResponse g c m i code t n s) = props s"
  by (auto simp: sendRoomResponse_def split: sum.splits)

lemma props_BroadcastVisible:
  assumes "BroadcastVisible visit g k m d b w s = Some (errs, s')"
  shows "props s' = props s"
proof (cases w)
  case (Some x)
  then obtain ps where "sendPlayers g m d ps [] s = (errs, s')"
    using assms by (auto simp: BroadcastVisible_def Let_def Option.bind_eq_Some_conv)
  then show ?thesis using props_sendPlayers [of g m d ps "[]" s] by simp
qed (use assms in \<open>simp add: BroadcastVisible_def\<close>)

lemma prop_at_cong: "props s' = props s \<Longrightarrow> prop_at s' = prop_at s"
  by (simp add: prop_at_def fun_eq_iff)

lemma prop_at_set:
  "s (ic_ref i) \<noteq> None \<Longrightarrow> prop_at (storeSetProperty key v i s) c k
     = (if ic_ref c = ic_ref i \<and> k = key then Some v else prop_at s c k)"
  by (auto simp: prop_at_def props_def storeSetProperty_def SetProperty_def)

lemma prop_at_remove:
  "s (ic_ref i) \<noteq> None \<Longrightarrow> prop_at (storeRemoveProperty key i s) c k
     = (if ic_ref c = ic_ref i \<and> k = key then None else prop_at s c k)"
  by (auto simp: prop_at_def props_def storeRemoveProperty_def RemoveProperty_def)

text \<open>The connections of a store.\<close>

lemma props_None: "props s ref = None \<longleftrightarrow> s ref = None"
  by (simp add: props_def)

lemma dom_set [simp]: "dom (storeSetProperty key v i s) = dom s" "dom (storeRemoveProperty key i s) = dom s"
  by (auto simp: storeSetProperty_def storeRemoveProperty_def split: option.splits if_splits)

lemma dom_props: "props s' = props s \<Longrightarrow> dom s' = dom s"
  using props_None by (metis domIff subset_antisym subsetI)

lemma getRoomID_prop:
  "getRoomID c s = (case prop_at s c ''RoomID'' of Some (PropU32 r) \<Rightarrow> r | _ \<Rightarrow> 0)"
  by (auto simp: getRoomID_def storeGetProperty_def GetProperty_def prop_at_def props_def
      split: option.splits sum.splits)

section \<open>Rooms of the server\<close>

definition members_of :: "RoomManager \<Rightarrow> u32 \<Rightarrow> (u32 \<rightharpoonup> iconn)" where
  "members_of rg R = (case rg_rooms rg R of
     None \<Rightarrow> Map.empty
   | Some room \<Rightarrow> (case rg_heap rg room of None \<Rightarrow> Map.empty | Some r \<Rightarrow> rm_members r))"

lemma GetRoom_registered:
  assumes "room_inv rg" "GetRoom R rg = Inr room"
  obtains r where "rg_rooms rg R = Some room" "rg_heap rg room = Some r" "rm_ID r = R" "members_of rg R = rm_members r"
proof -
  have "rg_rooms rg R = Some room" using assms(2) by (simp add: GetRoom_def split: option.splits)
  with that room_inv_rooms [OF assms(1)] show ?thesis by (auto simp: members_of_def)
qed

text \<open>A call on a registered room changes that room only.\<close>

lemma roomDo_effect:
  assumes inv: "room_inv rg" and room: "rg_rooms rg R = Some room" "rg_heap rg room = Some r" and f: "f r = (err, r')"
    and ok: "room_ok r'" "rm_ID r' = rm_ID r"
  obtains rg' where "roomDo room f rg = (err, rg')" "room_inv rg'" "rg_rooms rg' = rg_rooms rg"
    "rg_heap rg' room = Some r'" "members_of rg' = (members_of rg)(R := rm_members r')"
    "\<And>x. x \<noteq> room \<Longrightarrow> rg_heap rg' x = rg_heap rg x"
proof -
  let ?rg' = "rg\<lparr>rg_heap := (rg_heap rg)(room \<mapsto> r')\<rparr>"
  have id: "rm_ID r = R" using room_inv_rooms [OF inv room(1)] room(2) by simp
  have "room_inv ?rg'"
    unfolding room_inv_def
  proof (intro conjI allI impI)
    fix x y assume "rg_heap ?rg' x = Some y"
    then show "room_ok y" "x < rg_next ?rg'"
      using ok room_inv_heap [OF inv] room(2) by (auto split: if_splits)
  next
    fix Q x assume "rg_rooms ?rg' Q = Some x"
    then show "\<exists>y. rg_heap ?rg' x = Some y \<and> rm_ID y = Q"
      using room_inv_rooms [OF inv, of Q x] room(2) ok(2) by auto
  qed
  moreover have "rg_rooms rg Q \<noteq> Some room" if "Q \<noteq> R" for Q
    using room_inv_rooms [OF inv, of Q room] room(2) id that by auto
  then have "members_of ?rg' = (members_of rg)(R := rm_members r')"
    using room(1) by (auto simp: fun_eq_iff members_of_def split: option.splits)
  moreover have "roomDo room f rg = (err, ?rg')" using room(2) f by (simp add: roomDo_def)
  ultimately show ?thesis using that [of ?rg'] by simp
qed

lemma CreateRoom_members:
  assumes "room_inv rg" "CreateRoom R n rg = (res, rg')"
  shows "room_inv rg' \<and> members_of rg' = members_of rg \<and> (R \<noteq> 0 \<longrightarrow> rg_rooms rg 0 = None \<longrightarrow> rg_rooms rg' 0 = None)"
proof -
  have inv': "room_inv rg'" using room_inv_Create [OF assms(1), of R n] assms(2) by simp
  have "rg_rooms rg Q \<noteq> Some (rg_next rg)" for Q
    using room_inv_rooms [OF assms(1), of Q "rg_next rg"] room_inv_heap [OF assms(1), of "rg_next rg"] by auto
  then have "members_of rg' = members_of rg" "R \<noteq> 0 \<longrightarrow> rg_rooms rg 0 = None \<longrightarrow> rg_rooms rg' 0 = None"
    using assms(2)
    by (auto simp: CreateRoom_def Let_def members_of_def NewRoom_def fun_eq_iff split: if_splits option.splits)
  with inv' show ?thesis by blast
qed

section \<open>The invariant\<close>

text \<open>
  \<open>L\<close> is the set of connections between their start hook and their stop hook. They are different objects with
  different ids.
\<close>

definition conns_live :: "iconn set \<Rightarrow> 'p conn_store \<Rightarrow> bool" where
  "conns_live L s \<longleftrightarrow> ic_ref ` L \<subseteq> dom s
     \<and> (\<forall>c \<in> L. \<forall>c' \<in> L. ic_connID c = ic_connID c' \<or> ic_ref c = ic_ref c' \<longrightarrow> c = c')"

text \<open>A connection is a member of the room its property names, and of no other.\<close>

definition rooms_ok :: "iconn set \<Rightarrow> RoomManager \<Rightarrow> unity_store \<Rightarrow> bool" where
  "rooms_ok L rg s \<longleftrightarrow> room_inv rg \<and> rg_rooms rg 0 = None
     \<and> (\<forall>R k c. members_of rg R k = Some c \<longleftrightarrow> c \<in> L \<and> ic_connID c = k \<and> R \<noteq> 0 \<and> getRoomID c s = R)"

lemma conns_live_dom: "conns_live L s \<Longrightarrow> dom s' = dom s \<Longrightarrow> conns_live L s'"
  by (simp add: conns_live_def)

lemma conns_live_at: "conns_live L s \<Longrightarrow> c \<in> L \<Longrightarrow> s (ic_ref c) \<noteq> None"
  by (auto simp: conns_live_def)

lemma conns_live_eq:
  "conns_live L s \<Longrightarrow> c \<in> L \<Longrightarrow> c' \<in> L \<Longrightarrow> ic_connID c = ic_connID c' \<or> ic_ref c = ic_ref c' \<Longrightarrow> c = c'"
  unfolding conns_live_def by blast

lemma rooms_okD:
  assumes "rooms_ok L rg s"
  shows "room_inv rg" "rg_rooms rg 0 = None"
    "members_of rg R k = Some c \<longleftrightarrow> c \<in> L \<and> ic_connID c = k \<and> R \<noteq> 0 \<and> getRoomID c s = R"
  using assms unfolding rooms_ok_def by blast+

lemma rooms_ok_cong:
  assumes "rooms_ok L rg s" "\<And>c. c \<in> L \<Longrightarrow> getRoomID c s' = getRoomID c s"
  shows "rooms_ok L rg s'"
  using assms unfolding rooms_ok_def by (metis (no_types))

lemma getRoomID_cong: "props s' = props s \<Longrightarrow> getRoomID c s' = getRoomID c s"
  using prop_at_cong [of s' s] by (simp add: getRoomID_prop)

text \<open>Moving one connection to the room \<open>Q\<close>, or to none when \<open>Q\<close> is 0.\<close>

lemma rooms_ok_set:
  assumes ok: "rooms_ok L rg s" and live: "conns_live L s" and c: "c \<in> L" and inv: "room_inv rg'" "rg_rooms rg' 0 = None"
    and mem: "\<And>R k. members_of rg' R k =
      (if k = ic_connID c then (if R = Q \<and> Q \<noteq> 0 then Some c else None) else members_of rg R k)"
    and room: "getRoomID c s' = Q" "\<And>c'. c' \<in> L \<Longrightarrow> c' \<noteq> c \<Longrightarrow> getRoomID c' s' = getRoomID c' s"
  shows "rooms_ok L rg' s'"
proof -
  have "members_of rg' R k = Some d \<longleftrightarrow> d \<in> L \<and> ic_connID d = k \<and> R \<noteq> 0 \<and> getRoomID d s' = R" for R k d
  proof (cases "k = ic_connID c")
    case True
    have "d \<in> L \<and> ic_connID d = k \<longleftrightarrow> d = c"
      using conns_live_eq [OF live c, of d] c unfolding True by metis
    then show ?thesis unfolding mem [of R k] using True room(1) c by (cases "R = Q") (simp_all, blast+)
  next
    case False
    have "getRoomID d s' = getRoomID d s" if "d \<in> L" "ic_connID d = k"
      using room(2) [OF that(1)] that(2) False by blast
    then have "d \<in> L \<and> ic_connID d = k \<and> R \<noteq> 0 \<and> getRoomID d s' = R
        \<longleftrightarrow> d \<in> L \<and> ic_connID d = k \<and> R \<noteq> 0 \<and> getRoomID d s = R" by metis
    then show ?thesis unfolding mem [of R k] using False rooms_okD(3) [OF ok, of R k d] by simp
  qed
  with inv show ?thesis unfolding rooms_ok_def by blast
qed

text \<open>Leaving the room one is in.\<close>

lemma leave_effect:
  assumes ok: "rooms_ok L rg s" and c: "c \<in> L" and R: "getRoomID c s = R" "R \<noteq> 0"
  obtains room rg' where "GetRoom R rg = Inr room" "roomDo room (Leave (ic_connID c)) rg = (None, rg')"
    "room_inv rg'" "rg_rooms rg' = rg_rooms rg"
    "members_of rg' = (members_of rg)(R := (members_of rg R)(ic_connID c := None))"
proof -
  have mem: "members_of rg R (ic_connID c) = Some c" using rooms_okD(3) [OF ok] c R by blast
  then obtain room r where room: "rg_rooms rg R = Some room" "rg_heap rg room = Some r"
      and r: "members_of rg R = rm_members r"
    by (auto simp: members_of_def split: option.splits)
  note inv = rooms_okD(1) [OF ok]
  let ?r' = "r\<lparr>rm_members := (rm_members r)(ic_connID c := None)\<rparr>"
  have f: "Leave (ic_connID c) r = (None, ?r')" using mem r by (simp add: Leave_def)
  have "room_ok ?r'" using room_ok_Leave [of r "ic_connID c"] room_inv_heap [OF inv room(2)] f by simp
  then obtain rg' where "roomDo room (Leave (ic_connID c)) rg = (None, rg')" "room_inv rg'" "rg_rooms rg' = rg_rooms rg"
      "members_of rg' = (members_of rg)(R := rm_members ?r')"
    using roomDo_effect [OF inv room, of "Leave (ic_connID c)", OF f] by auto
  with that room(1) r show ?thesis by (simp add: GetRoom_def)
qed

text \<open>Joining a registered room.\<close>

lemma join_effect:
  assumes ok: "rooms_ok L rg s" and Q: "GetRoom Q rg = Inr room"
  obtains (refused) err where "roomDo room (Join (Some c)) rg = (Some err, rg)"
  | (joined) rg' where "roomDo room (Join (Some c)) rg = (None, rg')" "room_inv rg'" "rg_rooms rg' = rg_rooms rg"
    "members_of rg Q (ic_connID c) = None"
    "members_of rg' = (members_of rg)(Q := (members_of rg Q)(ic_connID c \<mapsto> c))"
proof -
  note inv = rooms_okD(1) [OF ok]
  obtain r where r: "rg_rooms rg Q = Some room" "rg_heap rg room = Some r" "members_of rg Q = rm_members r"
    using GetRoom_registered [OF inv Q] by blast
  obtain err r' where f: "Join (Some c) r = (err, r')" by fastforce
  show ?thesis
  proof (cases err)
    case (Some e)
    then have "r' = r" using f by (auto simp: Join_def split: if_splits)
    then have "roomDo room (Join (Some c)) rg = (Some e, rg)"
      using r(2) f Some by (simp add: roomDo_def fun_upd_idem)
    then show ?thesis by (rule refused)
  next
    case None
    then have r': "r' = r\<lparr>rm_members := (rm_members r)(ic_connID c \<mapsto> c)\<rparr>" "rm_members r (ic_connID c) = None"
      using f by (auto simp: Join_def split: if_splits)
    have "room_ok r'" using room_ok_Join [of r "Some c"] room_inv_heap [OF inv r(2)] f by simp
    then obtain rg' where "roomDo room (Join (Some c)) rg = (None, rg')" "room_inv rg'" "rg_rooms rg' = rg_rooms rg"
        "members_of rg' = (members_of rg)(Q := rm_members r')"
      using roomDo_effect [OF inv r(1,2), of "Join (Some c)", OF f [unfolded None]] r' by auto
    then show ?thesis using joined r(3) r' by simp
  qed
qed

lemma getRoomID_set:
  "s (ic_ref c) \<noteq> None \<Longrightarrow> getRoomID c (storeSetProperty ''RoomID'' (PropU32 Q) c s) = Q"
  "s (ic_ref c) \<noteq> None \<Longrightarrow> getRoomID c (storeRemoveProperty ''RoomID'' c s) = 0"
  by (simp_all add: getRoomID_prop prop_at_set prop_at_remove)

lemma getRoomID_other:
  "s (ic_ref c) \<noteq> None \<Longrightarrow> ic_ref d \<noteq> ic_ref c \<Longrightarrow> getRoomID d (storeSetProperty key v c s) = getRoomID d s"
  "s (ic_ref c) \<noteq> None \<Longrightarrow> ic_ref d \<noteq> ic_ref c \<Longrightarrow> getRoomID d (storeRemoveProperty key c s) = getRoomID d s"
  by (simp_all add: getRoomID_prop prop_at_set prop_at_remove)

text \<open>What a room request does: nothing outside the rooms and the property \<open>RoomID\<close>.\<close>

definition room_only :: "unity_state \<Rightarrow> unity_state \<Rightarrow> bool" where
  "room_only st st' \<longleftrightarrow>
     us_World (fst st') = us_World (fst st) \<and> us_Sessions (fst st') = us_Sessions (fst st)
     \<and> us_nextPlayerID (fst st') = us_nextPlayerID (fst st) \<and> dom (snd st') = dom (snd st)
     \<and> (\<forall>c key. key \<noteq> ''RoomID'' \<longrightarrow> prop_at (snd st') c key = prop_at (snd st) c key)"

lemma room_only_props:
  "us_World U' = us_World U \<Longrightarrow> us_Sessions U' = us_Sessions U \<Longrightarrow> us_nextPlayerID U' = us_nextPlayerID U
   \<Longrightarrow> props s' = props s \<Longrightarrow> room_only (U, s) (U', s')"
  using prop_at_cong [of s' s] dom_props [of s' s] by (simp add: room_only_def)

lemma room_only_set:
  assumes "us_World U' = us_World U" "us_Sessions U' = us_Sessions U" "us_nextPlayerID U' = us_nextPlayerID U"
    and "s (ic_ref c) \<noteq> None" and s': "props s' = props (storeSetProperty ''RoomID'' v c s) \<or> props s' = props (storeRemoveProperty ''RoomID'' c s)"
  shows "room_only (U, s) (U', s')"
proof -
  consider "props s' = props (storeSetProperty ''RoomID'' v c s)" | "props s' = props (storeRemoveProperty ''RoomID'' c s)"
    using s' by blast
  then show ?thesis
  proof cases
    case 1
    from prop_at_cong [OF 1] dom_props [OF 1] show ?thesis
      using assms(1-4) by (simp add: room_only_def prop_at_set)
  next
    case 2
    from prop_at_cong [OF 2] dom_props [OF 2] show ?thesis
      using assms(1-4) by (simp add: room_only_def prop_at_remove)
  qed
qed

section \<open>Room requests\<close>

lemma rooms_ok_props: "rooms_ok L rg s \<Longrightarrow> props s' = props s \<Longrightarrow> rooms_ok L rg s'"
  by (rule rooms_ok_cong [of L rg s]) (auto intro: getRoomID_cong)

lemma create_room_ok:
  assumes ok: "rooms_ok L (us_Rooms U) s" and run: "UnityCreateRoomHandle g c data (U, s) = (U', s')"
  shows "rooms_ok L (us_Rooms U') s' \<and> room_only (U, s) (U', s') \<and> props s' = props s
    \<and> members_of (us_Rooms U') = members_of (us_Rooms U)"
proof -
  obtain err rq where dec: "decodeUnityFields data roomRequestField \<lparr> urq_RoomID = 0 \<rparr> = (err, rq)" by fastforce
  obtain res rooms where cr: "CreateRoom (urq_RoomID rq) 0 (us_Rooms U) = (res, rooms)" by fastforce
  have p: "props s' = props s"
    using run by (auto simp: UnityCreateRoomHandle_def dec cr Let_def split: option.splits if_splits sum.splits)
  have U': "U' = U \<or> (U' = U\<lparr>us_Rooms := rooms\<rparr> \<and> urq_RoomID rq \<noteq> 0)"
    using run by (auto simp: UnityCreateRoomHandle_def dec cr Let_def split: option.splits if_splits sum.splits)
  note cm = CreateRoom_members [OF rooms_okD(1) [OF ok] cr]
  have "rooms_ok L rooms s" if "urq_RoomID rq \<noteq> 0"
    using ok cm that unfolding rooms_ok_def by simp
  then have "rooms_ok L (us_Rooms U') s \<and> members_of (us_Rooms U') = members_of (us_Rooms U)"
    using U' ok cm by auto
  moreover have "us_World U' = us_World U" "us_Sessions U' = us_Sessions U" "us_nextPlayerID U' = us_nextPlayerID U"
    using U' by auto
  ultimately show ?thesis using rooms_ok_props [OF _ p] room_only_props p by blast
qed

text \<open>The successful end of a join.\<close>

lemma join_moves:
  assumes ok: "rooms_ok L rg s" and live: "conns_live L s" and c: "c \<in> L" and Q: "rg_rooms rg Q \<noteq> None" "Q \<noteq> getRoomID c s"
    and inv: "room_inv rg2" "rg_rooms rg2 = rg_rooms rg"
    and mem: "members_of rg2 = (\<lambda>R k. if k = ic_connID c then (if R = Q then Some c else None) else members_of rg R k)"
    and s': "props s' = props (storeSetProperty ''RoomID'' (PropU32 Q) c s)"
  shows "rooms_ok L rg2 s'"
proof (rule rooms_ok_set [OF ok live c inv(1)])
  have at: "s (ic_ref c) \<noteq> None" by (rule conns_live_at [OF live c])
  have "Q \<noteq> 0" using Q(1) rooms_okD(2) [OF ok] by auto
  then show "members_of rg2 R k =
      (if k = ic_connID c then (if R = Q \<and> Q \<noteq> 0 then Some c else None) else members_of rg R k)" for R k
    by (simp add: mem)
  show "rg_rooms rg2 0 = None" using inv(2) rooms_okD(2) [OF ok] by simp
  show "getRoomID c s' = Q" using getRoomID_cong [OF s'] getRoomID_set(1) [of s c Q] at by simp
  show "getRoomID d s' = getRoomID d s" if "d \<in> L" "d \<noteq> c" for d
    using getRoomID_cong [OF s', of d] getRoomID_other(1) [of s c d] at conns_live_eq [OF live that(1) c] that(2) by auto
qed

lemma member_only_there:
  assumes ok: "rooms_ok L rg s" and c: "c \<in> L" and live: "conns_live L s"
  shows "members_of rg R (ic_connID c) = (if R \<noteq> 0 \<and> R = getRoomID c s then Some c else None)"
proof (cases "members_of rg R (ic_connID c)")
  case None
  then show ?thesis using rooms_okD(3) [OF ok, of R "ic_connID c" c] c by auto
next
  case (Some d)
  with rooms_okD(3) [OF ok, of R "ic_connID c" d] have "d \<in> L" "ic_connID d = ic_connID c" "R \<noteq> 0" "getRoomID d s = R" by auto
  moreover from this have "d = c" using conns_live_eq [OF live] c by blast
  ultimately show ?thesis using Some by simp
qed

text \<open>
  A join that gets as far as \<open>room.Join\<close> and succeeds there leaves the old room, if there is one, without failure.
\<close>

lemma finishJoin_ok:
  assumes ok: "rooms_ok L rg0 s" and live: "conns_live L s" and c: "c \<in> L" and Q: "rg_rooms rg0 Q \<noteq> None" "Q \<noteq> getRoomID c s"
    and inv: "room_inv (us_Rooms U)" "rg_rooms (us_Rooms U) = rg_rooms rg0"
    and mem: "members_of (us_Rooms U) = (members_of rg0)(Q := (members_of rg0 Q)(ic_connID c \<mapsto> c))"
    and run: "finishJoin g c Q room (U, s) = (U', s')"
  shows "rooms_ok L (us_Rooms U') s' \<and> room_only (U, s) (U', s') \<and> getRoomID c s' = Q
    \<and> (\<forall>d \<in> L. d \<noteq> c \<longrightarrow> getRoomID d s' = getRoomID d s)"
proof -
  let ?R = "getRoomID c s" and ?k = "ic_connID c"
  have at: "s (ic_ref c) \<noteq> None" by (rule conns_live_at [OF live c])
  note only = member_only_there [OF ok c live]
  obtain rg2 where rg2: "room_inv rg2" "rg_rooms rg2 = rg_rooms rg0" "U' = U\<lparr>us_Rooms := rg2\<rparr>"
      "members_of rg2 = (\<lambda>R k. if k = ?k then (if R = Q then Some c else None) else members_of rg0 R k)"
      and s': "props s' = props (storeSetProperty ''RoomID'' (PropU32 Q) c s)"
  proof (cases "?R = 0")
    case True
    have "members_of (us_Rooms U) = (\<lambda>R k. if k = ?k then (if R = Q then Some c else None) else members_of rg0 R k)"
      using only True by (auto simp: mem fun_eq_iff)
    then show ?thesis
      using that [of "us_Rooms U"] inv run True by (auto simp: finishJoin_def Let_def)
  next
    case False
    have "members_of rg0 ?R ?k = Some c" using only False by simp
    then have memR: "members_of (us_Rooms U) ?R ?k = Some c" using Q(2) by (simp add: mem)
    then obtain old r where old: "rg_rooms (us_Rooms U) ?R = Some old" "rg_heap (us_Rooms U) old = Some r"
        and r: "members_of (us_Rooms U) ?R = rm_members r"
      by (auto simp: members_of_def split: option.splits)
    let ?r' = "r\<lparr>rm_members := (rm_members r)(?k := None)\<rparr>"
    have f: "Leave ?k r = (None, ?r')" using memR r by (simp add: Leave_def)
    have "room_ok ?r'" using room_ok_Leave [of r ?k] room_inv_heap [OF inv(1) old(2)] f by simp
    then obtain rg2 where lv: "roomDo old (Leave ?k) (us_Rooms U) = (None, rg2)" "room_inv rg2"
        "rg_rooms rg2 = rg_rooms (us_Rooms U)" "members_of rg2 = (members_of (us_Rooms U))(?R := rm_members ?r')"
      using roomDo_effect [OF inv(1) old, of "Leave ?k", OF f] by auto
    have "members_of rg2 = (\<lambda>R k. if k = ?k then (if R = Q then Some c else None) else members_of rg0 R k)"
      using only Q(2) lv(4) r by (auto simp: mem fun_eq_iff)
    moreover have "GetRoom ?R (us_Rooms U) = Inr old" using old(1) by (simp add: GetRoom_def)
    ultimately show ?thesis
      using that [of rg2] inv(2) lv(1-3) run False by (auto simp: finishJoin_def Let_def)
  qed
  have "rooms_ok L rg2 s'" by (rule join_moves [OF ok live c Q rg2(1,2,4) s'])
  moreover have "room_only (U, s) (U', s')" using rg2(3) at s' by (intro room_only_set [of _ _ s c]) auto
  moreover have "getRoomID c s' = Q" using getRoomID_cong [OF s'] getRoomID_set(1) [of s c Q] at by simp
  moreover have "getRoomID d s' = getRoomID d s" if "d \<in> L" "d \<noteq> c" for d
    using getRoomID_cong [OF s', of d] getRoomID_other(1) [of s c d] at conns_live_eq [OF live that(1) c] that(2) by auto
  ultimately show ?thesis using rg2(3) by simp
qed

lemma join_room_ok:
  assumes ok: "rooms_ok L (us_Rooms U) s" and live: "conns_live L s" and c: "c \<in> L"
    and run: "UnityJoinRoomHandle g c data (U, s) = (U', s')"
  shows "rooms_ok L (us_Rooms U') s' \<and> room_only (U, s) (U', s')
    \<and> (us_Rooms U' = us_Rooms U \<and> props s' = props s
       \<or> (\<exists>rq. UnmarshalRoomRequest data (Some \<lparr> urq_RoomID = 0 \<rparr>) = (None, Some rq) \<and> getRoomID c s' = urq_RoomID rq
            \<and> urq_RoomID rq \<noteq> 0 \<and> (\<forall>d \<in> L. d \<noteq> c \<longrightarrow> getRoomID d s' = getRoomID d s)))"
proof -
  obtain err rq1 where dec: "decodeUnityFields data roomRequestField \<lparr> urq_RoomID = 0 \<rparr> = (err, rq1)" by fastforce
  let ?Q = "urq_RoomID rq1"
  have same: ?thesis if "U' = U" "props s' = props s"
    using that rooms_ok_props [OF ok] room_only_props by simp
  show ?thesis
  proof (cases "err = None \<and> rg_rooms (us_Rooms U) ?Q \<noteq> None \<and> getRoomID c s \<noteq> ?Q")
    case False
    have "rg_rooms (us_Rooms U) ?Q = None \<or> ?Q \<noteq> 0" using rooms_okD(2) [OF ok] by auto
    with False run have "U' = U" "props s' = props s"
      by (auto simp: UnityJoinRoomHandle_def dec Let_def GetRoom_def split: option.splits if_splits)
    then show ?thesis by (rule same)
  next
    case True
    then obtain room where room: "GetRoom ?Q (us_Rooms U) = Inr room" by (auto simp: GetRoom_def)
    from ok room show ?thesis
    proof (cases rule: join_effect [where c = c])
      case (refused e)
      then have "U' = U" "props s' = props s"
        using run True room by (auto simp: UnityJoinRoomHandle_def dec Let_def)
      then show ?thesis by (rule same)
    next
      case (joined rg')
      have "finishJoin g c ?Q room (U\<lparr>us_Rooms := rg'\<rparr>, s) = (U', s')"
        using run True room joined(1) by (simp add: UnityJoinRoomHandle_def dec Let_def)
      from finishJoin_ok [OF ok live c _ _ _ _ _ this] True joined(2,3,5)
      have "rooms_ok L (us_Rooms U') s'" "room_only (U\<lparr>us_Rooms := rg'\<rparr>, s) (U', s')" "getRoomID c s' = ?Q"
        "\<forall>d \<in> L. d \<noteq> c \<longrightarrow> getRoomID d s' = getRoomID d s"
        by auto
      moreover have "?Q \<noteq> 0" using True rooms_okD(2) [OF ok] by auto
      ultimately show ?thesis using dec True by (simp add: room_only_def)
    qed
  qed
qed

lemma leave_room_ok:
  assumes ok: "rooms_ok L (us_Rooms U) s" and live: "conns_live L s" and c: "c \<in> L"
    and run: "UnityLeaveRoomHandle g c (U, s) = (U', s')"
  shows "rooms_ok L (us_Rooms U') s' \<and> room_only (U, s) (U', s') \<and> getRoomID c s' = 0"
proof (cases "getRoomID c s = 0")
  case True
  then have U': "U' = U" and p: "props s' = props s" using run by (auto simp: UnityLeaveRoomHandle_def Let_def)
  from rooms_ok_props [OF ok p] room_only_props [OF refl refl refl p, of U] getRoomID_cong [OF p, of c] True U'
  show ?thesis by simp
next
  case False
  have at: "s (ic_ref c) \<noteq> None" by (rule conns_live_at [OF live c])
  from leave_effect [OF ok c refl False] obtain room rg' where lv: "GetRoom (getRoomID c s) (us_Rooms U) = Inr room"
      "roomDo room (Leave (ic_connID c)) (us_Rooms U) = (None, rg')" "room_inv rg'" "rg_rooms rg' = rg_rooms (us_Rooms U)"
      "members_of rg' = (members_of (us_Rooms U))(getRoomID c s := (members_of (us_Rooms U) (getRoomID c s))(ic_connID c := None))" .
  then have U': "U' = U\<lparr>us_Rooms := rg'\<rparr>" and s': "props s' = props (storeRemoveProperty ''RoomID'' c s)"
    using run False by (auto simp: UnityLeaveRoomHandle_def Let_def)
  have zero: "getRoomID c s' = 0" using getRoomID_cong [OF s', of c] getRoomID_set(2) [of s c] at by simp
  have "rooms_ok L rg' s'"
  proof (rule rooms_ok_set [OF ok live c lv(3)])
    show "rg_rooms rg' 0 = None" using lv(4) rooms_okD(2) [OF ok] by simp
    show "members_of rg' R k = (if k = ic_connID c then (if R = 0 \<and> (0 :: u32) \<noteq> 0 then Some c else None)
        else members_of (us_Rooms U) R k)" for R k
      using member_only_there [OF ok c live, of R] by (auto simp: lv(5))
    show "getRoomID c s' = 0" by (rule zero)
    show "getRoomID d s' = getRoomID d s" if "d \<in> L" "d \<noteq> c" for d
      using getRoomID_cong [OF s', of d] getRoomID_other(2) [of s c d] at conns_live_eq [OF live that(1) c] that(2) by auto
  qed
  moreover have "room_only (U, s) (U', s')" using U' at s' by (intro room_only_set [of _ _ s c]) auto
  ultimately show ?thesis using U' zero by simp
qed

section \<open>Sessions and players\<close>

text \<open>Every session is bound to a live connection, under the account made from its id.\<close>

definition sessions_live :: "iconn set \<Rightarrow> Manager \<Rightarrow> bool" where
  "sessions_live L m \<longleftrightarrow> (\<forall>t v. sm_byToken m t = Some v \<longrightarrow>
     ses_Bound v \<and> ses_AccountID v = unityAccount (ses_ConnID v) \<and> (\<exists>c \<in> L. ic_connID c = ses_ConnID v))"

text \<open>
  Every player of the world belongs to a live connection, and its id is that of the session of the connection, which
  the connection carries as a property.
\<close>

definition players_live :: "iconn set \<Rightarrow> UnityWorld \<Rightarrow> Manager \<Rightarrow> unity_store \<Rightarrow> bool" where
  "players_live L w m s \<longleftrightarrow> (\<forall>k p. uw_players w k = Some p \<longrightarrow> uwp_Connection p \<in> L
     \<and> (\<exists>t v. sm_byToken m t = Some v \<and> ses_ConnID v = k \<and> uwp_PID p = ucast (ses_PlayerID v)
          \<and> prop_at s (uwp_Connection p) ''PlayerID'' = Some (PropU64 (ses_PlayerID v))))"

text \<open>
  \<open>L\<close> are the live connections, \<open>B\<close> all that were ever accepted, and \<open>A\<close> those whose rooms agree with their property:
  the live ones, and those that joined a room by a request handled after their stop hook.
\<close>

definition unity_ok :: "fpu \<Rightarrow> iconn set \<Rightarrow> iconn set \<Rightarrow> iconn set \<Rightarrow> unity_state \<Rightarrow> bool" where
  "unity_ok F L A B st \<longleftrightarrow> (case st of (U, s) \<Rightarrow>
     conns_live B s \<and> rooms_ok A (us_Rooms U) s \<and> world_inv F (us_World U) \<and> session_inv (us_Sessions U)
     \<and> sessions_live L (us_Sessions U) \<and> players_live L (us_World U) (us_Sessions U) s \<and> L \<subseteq> A \<and> A \<subseteq> B)"

definition unity_inv :: "fpu \<Rightarrow> iconn set \<times> iconn set \<times> unity_state \<Rightarrow> bool" where
  "unity_inv F st \<longleftrightarrow> (case st of (L, G, U, s) \<Rightarrow> \<exists>A. unity_ok F L A (L \<union> G) (U, s))"

lemma unity_okI:
  "conns_live B s \<Longrightarrow> rooms_ok A (us_Rooms U) s \<Longrightarrow> world_inv F (us_World U) \<Longrightarrow> session_inv (us_Sessions U)
   \<Longrightarrow> sessions_live L (us_Sessions U) \<Longrightarrow> players_live L (us_World U) (us_Sessions U) s \<Longrightarrow> L \<subseteq> A \<Longrightarrow> A \<subseteq> B
   \<Longrightarrow> unity_ok F L A B (U, s)"
  by (simp add: unity_ok_def)

lemma conns_live_subset: "conns_live B s \<Longrightarrow> A \<subseteq> B \<Longrightarrow> conns_live A s"
  unfolding conns_live_def by blast

lemma unity_okD:
  assumes "unity_ok F L A B (U, s)"
  shows "conns_live B s" "rooms_ok A (us_Rooms U) s" "world_inv F (us_World U)" "session_inv (us_Sessions U)"
    "sessions_live L (us_Sessions U)" "players_live L (us_World U) (us_Sessions U) s" "L \<subseteq> A" "A \<subseteq> B"
    "conns_live A s" "conns_live L s"
proof -
  show *: "conns_live B s" "rooms_ok A (us_Rooms U) s" "world_inv F (us_World U)" "session_inv (us_Sessions U)"
    "sessions_live L (us_Sessions U)" "players_live L (us_World U) (us_Sessions U) s" "L \<subseteq> A" "A \<subseteq> B"
    using assms by (simp_all add: unity_ok_def)
  show "conns_live A s" "conns_live L s" using conns_live_subset [OF *(1)] *(7,8) by auto
qed

lemma unity_inv_ok:
  assumes "unity_inv F (L, G, U, s)"
  obtains A where "unity_ok F L A (L \<union> G) (U, s)"
  using assms by (auto simp: unity_inv_def)

lemma unityAccount_inj: "unityAccount a = unityAccount b \<Longrightarrow> a = b"
  unfolding unityAccount_def by (auto dest!: itoa_inj intro: unsigned_word_eqI)

lemma Logout_gone:
  assumes inv: "session_inv m"
  shows "sm_byToken (snd (LogoutByConnID m k)) t
    = (case sm_byToken m t of None \<Rightarrow> None | Some v \<Rightarrow> if ses_Bound v \<and> ses_ConnID v = k then None else Some v)"
proof (cases "sm_byConnID m k")
  case None
  then show ?thesis using session_invD(5) [OF inv, of t] by (auto simp: LogoutByConnID_def split: option.splits)
next
  case (Some u)
  then obtain v where v: "sm_byToken m u = Some v" "ses_Bound v" "ses_ConnID v = k"
    using session_invD(8) [OF inv Some] by blast
  have "ses_Bound w \<and> ses_ConnID w = k \<longleftrightarrow> t = u" if "sm_byToken m t = Some w" for w
    using session_invD(5) [OF inv that] v that Some by auto
  then show ?thesis using Some by (auto simp: LogoutByConnID_def split: option.splits)
qed

lemma login_issue:
  assumes inv: "session_inv m" and free: "\<forall>t v. sm_byToken m t = Some v \<longrightarrow> ses_AccountID v \<noteq> a"
    and issue: "Issue m a p ttl random now = (Inr (gs, replaced), m')"
  obtains token where "createToken random = Inr token" "gs = fresh_session token a p ttl now"
    "sm_byToken m' = (sm_byToken m)(token \<mapsto> gs)"
proof -
  have drop: "sm_byToken (drop_account a m) = sm_byToken m"
    using free by (auto simp: fun_eq_iff drop_account_lookup [OF inv] split: option.splits)
  show ?thesis
    by (rule Issue_Inr [OF inv issue]) (rule that, simp_all add: drop)
qed

section \<open>Requests keep the invariant\<close>

lemma inv_room_grow:
  assumes inv: "unity_ok F L A B (U, s)" and ok: "rooms_ok A' (us_Rooms U') s'" and only: "room_only (U, s) (U', s')"
    and grow: "A \<subseteq> A'" "A' \<subseteq> B"
  shows "unity_ok F L A' B (U', s')"
proof -
  note I = unity_okD [OF inv]
  have eq: "us_World U' = us_World U" "us_Sessions U' = us_Sessions U" "dom s' = dom s"
    and p: "\<And>c. prop_at s' c ''PlayerID'' = prop_at s c ''PlayerID''"
    using only by (auto simp: room_only_def)
  have "L \<subseteq> A'" using I(7) grow(1) by blast
  then show ?thesis
    by (intro unity_okI) (use I ok grow conns_live_dom [OF I(1) eq(3)] in \<open>simp_all add: eq players_live_def p\<close>)
qed

lemma inv_room_only:
  assumes inv: "unity_ok F L A B (U, s)" and ok: "rooms_ok A (us_Rooms U') s'" and only: "room_only (U, s) (U', s')"
  shows "unity_ok F L A B (U', s')"
  by (rule inv_room_grow [OF inv ok only subset_refl unity_okD(8) [OF inv]])

lemma inv_props:
  assumes inv: "unity_ok F L A B (U, s)" and p: "props s' = props s"
  shows "unity_ok F L A B (U, s')"
  by (rule inv_room_only [OF inv rooms_ok_props [OF unity_okD(2) [OF inv] p] room_only_props [OF refl refl refl p]])

lemma chat_effect: "UnityChatHandle g ks c data (U, s) = (U', s') \<Longrightarrow> U' = U \<and> props s' = props s"
proof -
  assume run: "UnityChatHandle g ks c data (U, s) = (U', s')"
  obtain err t where dec: "decodeUnityFields data talkField \<lparr> ut_Content = [] \<rparr> = (err, t)" by fastforce
  show ?thesis
    using run
    by (auto simp: UnityChatHandle_def dec WorldBroadcast_def worldBroadcast_def split: option.splits sum.splits)
qed

lemma room_event_effect: "UnityRoomEventHandle g ks c data (U, s) = (U', s') \<Longrightarrow> U' = U \<and> props s' = props s"
proof -
  assume run: "UnityRoomEventHandle g ks c data (U, s) = (U', s')"
  obtain err e where dec: "decodeUnityFields data roomEventField \<lparr> ure_RoomID = 0, ure_PlayerID = 0, ure_Content = [] \<rparr> = (err, e)"
    by fastforce
  show ?thesis
    using run
    by (auto simp: UnityRoomEventHandle_def dec Let_def Broadcast_def broadcast_def
        split: option.splits sum.splits if_splits)
qed

text \<open>A move changes the position and the action of one player, and nothing else.\<close>

lemma move_effect:
  assumes "UnityMoveHandle g visit F c data (U, s) = Some (U', s')"
  shows "props s' = props s \<and> (U' = U \<or> (\<exists>r w pos. UpdatePlayerWithVisibility visit F (ic_connID c) pos 0 (Some (us_World U))
      = Some (r, Some w) \<and> U' = U\<lparr>us_World := w\<rparr>))"
proof -
  obtain err pos where dec: "decodeUnityFields data positionField zeroPosition = (err, pos)" by fastforce
  show ?thesis
  proof (cases err)
    case (Some e)
    then show ?thesis using assms by (simp add: UnityMoveHandle_def dec)
  next
    case None
    then obtain r w where up: "UpdatePlayerWithVisibility visit F (ic_connID c) pos 0 (Some (us_World U)) = Some (r, w)"
      using assms by (auto simp: UnityMoveHandle_def dec Option.bind_eq_Some_conv)
    then obtain w' where w: "w = Some w'" by (cases rule: UpdatePlayer_result) auto
    have "U' = U\<lparr>us_World := w'\<rparr> \<and> props s' = props s"
      using assms None up w
      by (auto simp: UnityMoveHandle_def dec Let_def Option.bind_eq_Some_conv dest!: props_BroadcastVisible
          split: sum.splits)
    then show ?thesis using up w by blast
  qed
qed

lemma update_players:
  assumes "UpdatePlayerWithVisibility visit F k pos a (Some w) = Some (r, Some w')" "uw_players w' j = Some p'"
  obtains p where "uw_players w j = Some p" "uwp_Connection p' = uwp_Connection p" "uwp_PID p' = uwp_PID p"
proof -
  from assms(1) have "\<exists>p. uw_players w j = Some p \<and> uwp_Connection p' = uwp_Connection p \<and> uwp_PID p' = uwp_PID p"
    by (cases rule: UpdatePlayer_result) (use assms(2) in \<open>auto split: if_splits\<close>)
  with that show ?thesis by blast
qed

lemma inv_move:
  assumes inv: "unity_ok F L A B (U, s)" and run: "UnityMoveHandle g visit F c data (U, s) = Some (U', s')"
  shows "unity_ok F L A B (U', s')"
proof -
  note I = unity_okD [OF inv]
  have p: "props s' = props s" using move_effect [OF run] by blast
  consider "U' = U" | r w pos where "UpdatePlayerWithVisibility visit F (ic_connID c) pos 0 (Some (us_World U)) = Some (r, Some w)"
      "U' = U\<lparr>us_World := w\<rparr>"
    using move_effect [OF run] by blast
  then show ?thesis
  proof cases
    case 1
    with inv_props [OF inv p] show ?thesis by simp
  next
    case (2 r w pos)
    have "world_inv F w" by (rule world_inv_update [OF I(3) 2(1)])
    moreover have "players_live L w (us_Sessions U) s"
      unfolding players_live_def
    proof (intro allI impI)
      fix k p' assume "uw_players w k = Some p'"
      from update_players [OF 2(1) this] obtain p where "uw_players (us_World U) k = Some p"
          "uwp_Connection p' = uwp_Connection p" "uwp_PID p' = uwp_PID p" .
      with I(6) show "uwp_Connection p' \<in> L \<and> (\<exists>t v. sm_byToken (us_Sessions U) t = Some v \<and> ses_ConnID v = k
          \<and> uwp_PID p' = ucast (ses_PlayerID v) \<and> prop_at s (uwp_Connection p') ''PlayerID'' = Some (PropU64 (ses_PlayerID v)))"
        unfolding players_live_def by simp
    qed
    ultimately have "unity_ok F L A B (U', s)"
      using I 2(2) by (intro unity_okI) simp_all
    then show ?thesis by (rule inv_props [OF _ p])
  qed
qed

text \<open>
  A request that is handled after the stop hook of its connection. When the connection was in a room then, the property
  still names it, but the connection is no member of it any more: leaving fails, and a join is taken back.
\<close>

lemma not_member:
  assumes ok: "rooms_ok A rg s" and live: "conns_live B s" and c: "c \<in> B" "c \<notin> A" "A \<subseteq> B"
  shows "members_of rg R (ic_connID c) = None"
proof (rule ccontr)
  assume "members_of rg R (ic_connID c) \<noteq> None"
  then obtain d where "members_of rg R (ic_connID c) = Some d" by auto
  then have "d \<in> A" "ic_connID d = ic_connID c" using rooms_okD(3) [OF ok, of R "ic_connID c" d] by simp_all
  then show False using conns_live_eq [OF live c(1), of d] c by auto
qed

lemma Leave_not_member:
  assumes inv: "room_inv rg" and R: "GetRoom R rg = Inr room" and no: "members_of rg R k = None"
  obtains err where "roomDo room (Leave k) rg = (Some err, rg)"
proof -
  from GetRoom_registered [OF inv R] obtain r where "rg_heap rg room = Some r" "members_of rg R = rm_members r" by blast
  then show ?thesis using that no by (simp add: roomDo_def Leave_def fun_upd_idem)
qed

lemma Leave_member:
  assumes inv: "room_inv rg" and R: "GetRoom R rg = Inr room" and yes: "members_of rg R k \<noteq> None"
  obtains rg' where "roomDo room (Leave k) rg = (None, rg')" "room_inv rg'" "rg_rooms rg' = rg_rooms rg"
    "members_of rg' = (members_of rg)(R := (members_of rg R)(k := None))"
proof -
  from GetRoom_registered [OF inv R] obtain r where r: "rg_rooms rg R = Some room" "rg_heap rg room = Some r"
      "members_of rg R = rm_members r" by blast
  let ?r' = "r\<lparr>rm_members := (rm_members r)(k := None)\<rparr>"
  have f: "Leave k r = (None, ?r')" using yes r(3) by (simp add: Leave_def)
  have "room_ok ?r'" using room_ok_Leave [of r k] room_inv_heap [OF inv r(2)] f by simp
  then obtain rg' where "roomDo room (Leave k) rg = (None, rg')" "room_inv rg'" "rg_rooms rg' = rg_rooms rg"
      "members_of rg' = (members_of rg)(R := rm_members ?r')"
    using roomDo_effect [OF inv r(1,2), of "Leave k", OF f] by auto
  with that r(3) show ?thesis by simp
qed

text \<open>A connection that is in no room joins one.\<close>

lemma rooms_ok_insert:
  assumes ok: "rooms_ok A rg s" and live: "conns_live B s" and c: "c \<in> B" "c \<notin> A" "A \<subseteq> B"
    and inv: "room_inv rg'" "rg_rooms rg' 0 = None" and Q: "Q \<noteq> 0"
    and mem: "members_of rg' = (members_of rg)(Q := (members_of rg Q)(ic_connID c \<mapsto> c))"
    and room: "getRoomID c s' = Q" "\<And>d. d \<in> A \<Longrightarrow> getRoomID d s' = getRoomID d s"
  shows "rooms_ok (insert c A) rg' s'"
proof -
  have "members_of rg' R k = Some d \<longleftrightarrow> d \<in> insert c A \<and> ic_connID d = k \<and> R \<noteq> 0 \<and> getRoomID d s' = R" for R k d
  proof (cases "R = Q \<and> k = ic_connID c")
    case True
    have "d \<in> insert c A \<and> ic_connID d = k \<longleftrightarrow> d = c"
    proof
      assume d: "d \<in> insert c A \<and> ic_connID d = k"
      then have "d \<in> B" using c(1,3) by auto
      from conns_live_eq [OF live c(1) this] d True show "d = c" by simp
    qed (use True in simp)
    moreover have "members_of rg' R k = Some d \<longleftrightarrow> d = c" using True by (auto simp: mem)
    ultimately show ?thesis using True Q room(1) by auto
  next
    case False
    then have old: "members_of rg' R k = members_of rg R k" by (auto simp: mem)
    show ?thesis
    proof (cases "d = c")
      case True
      have "members_of rg R k \<noteq> Some d" using rooms_okD(3) [OF ok, of R k d] c(2) True by simp
      moreover have "\<not> (ic_connID d = k \<and> getRoomID d s' = R)" using False room(1) True by auto
      ultimately show ?thesis unfolding old by blast
    next
      case other: False
      then have "d \<in> insert c A \<longleftrightarrow> d \<in> A" by simp
      then show ?thesis unfolding old rooms_okD(3) [OF ok, of R k d] using room(2) [of d] by auto
    qed
  qed
  then show ?thesis unfolding rooms_ok_def using inv by simp
qed

lemma late_join_ok:
  assumes ok: "rooms_ok A (us_Rooms U) s" and live: "conns_live B s" and c: "c \<in> B" "c \<notin> A" "A \<subseteq> B"
    and run: "UnityJoinRoomHandle g c data (U, s) = (U', s')"
  shows "room_only (U, s) (U', s') \<and> (rooms_ok A (us_Rooms U') s' \<or> rooms_ok (insert c A) (us_Rooms U') s')
    \<and> (getRoomID c s \<noteq> 0 \<longrightarrow> rg_rooms (us_Rooms U) (getRoomID c s) \<noteq> None \<longrightarrow> members_of (us_Rooms U') = members_of (us_Rooms U))"
proof -
  obtain err rq1 where dec: "decodeUnityFields data roomRequestField \<lparr> urq_RoomID = 0 \<rparr> = (err, rq1)" by fastforce
  let ?Q = "urq_RoomID rq1" and ?R = "getRoomID c s" and ?k = "ic_connID c"
  have at: "s (ic_ref c) \<noteq> None" by (rule conns_live_at [OF live c(1)])
  have same: ?thesis if "U' = U" "props s' = props s"
    using that rooms_ok_props [OF ok] room_only_props by simp
  show ?thesis
  proof (cases "err = None \<and> rg_rooms (us_Rooms U) ?Q \<noteq> None \<and> ?R \<noteq> ?Q")
    case False
    have "rg_rooms (us_Rooms U) ?Q = None \<or> ?Q \<noteq> 0" using rooms_okD(2) [OF ok] by auto
    with False run have "U' = U" "props s' = props s"
      by (auto simp: UnityJoinRoomHandle_def dec Let_def GetRoom_def split: option.splits if_splits)
    then show ?thesis by (rule same)
  next
    case True
    then obtain room where room: "GetRoom ?Q (us_Rooms U) = Inr room" by (auto simp: GetRoom_def)
    have Q: "?Q \<noteq> 0" using True rooms_okD(2) [OF ok] by auto
    from ok room show ?thesis
    proof (cases rule: join_effect [where c = c])
      case (refused e)
      then have "U' = U" "props s' = props s"
        using run True room by (auto simp: UnityJoinRoomHandle_def dec Let_def)
      then show ?thesis by (rule same)
    next
      case (joined rg')
      have fin: "finishJoin g c ?Q room (U\<lparr>us_Rooms := rg'\<rparr>, s) = (U', s')"
        using run True room joined(1) by (simp add: UnityJoinRoomHandle_def dec Let_def)
      have reg: "GetRoom X rg' = GetRoom X (us_Rooms U)" for X using joined(3) by (simp add: GetRoom_def)
      show ?thesis
      proof (cases "?R = 0 \<or> (\<exists>e. GetRoom ?R rg' = Inl e)")
        case True
        then have U': "U' = U\<lparr>us_Rooms := rg'\<rparr>" and s': "props s' = props (storeSetProperty ''RoomID'' (PropU32 ?Q) c s)"
          using fin by (auto simp: finishJoin_def Let_def split: if_splits)
        have "rooms_ok (insert c A) rg' s'"
        proof (rule rooms_ok_insert [OF ok live c joined(2) _ Q joined(5)])
          show "rg_rooms rg' 0 = None" using joined(3) rooms_okD(2) [OF ok] by simp
          show "getRoomID c s' = ?Q" using getRoomID_cong [OF s'] getRoomID_set(1) [of s c ?Q] at by simp
          show "getRoomID d s' = getRoomID d s" if "d \<in> A" for d
            using getRoomID_cong [OF s', of d] getRoomID_other(1) [of s c d] at conns_live_eq [OF live _ c(1), of d] c(2,3) that
            by auto
        qed
        moreover have "room_only (U, s) (U', s')" using U' at s' by (intro room_only_set [of _ _ s c]) auto
        moreover have "?R = 0 \<or> rg_rooms (us_Rooms U) ?R = None"
          using True joined(3) by (auto simp: GetRoom_def split: option.splits)
        ultimately show ?thesis using U' by auto
      next
        case False
        then obtain old where old: "GetRoom ?R rg' = Inr old" "?R \<noteq> 0" by (cases "GetRoom ?R rg'") auto
        have "members_of rg' ?R ?k = None" using not_member [OF ok live c] True by (simp add: joined(5))
        from Leave_not_member [OF joined(2) old(1) this] obtain e where e: "roomDo old (Leave ?k) rg' = (Some e, rg')" .
        have in_new: "members_of rg' ?Q ?k \<noteq> None" by (simp add: joined(5))
        from Leave_member [OF joined(2) reg [of ?Q, unfolded room] in_new] obtain rg2 where
            rg2: "roomDo room (Leave ?k) rg' = (None, rg2)" "room_inv rg2" "rg_rooms rg2 = rg_rooms rg'"
              "members_of rg2 = (members_of rg')(?Q := (members_of rg' ?Q)(?k := None))" .
        have U': "U' = U\<lparr>us_Rooms := rg2\<rparr>" and s': "props s' = props s"
          using fin old e rg2(1) by (auto simp: finishJoin_def Let_def)
        have mem: "members_of rg2 = members_of (us_Rooms U)"
          unfolding rg2(4) joined(5) using not_member [OF ok live c, of ?Q] by (auto simp: fun_eq_iff)
        then have "rooms_ok A rg2 s"
          using ok rg2(2,3) joined(3) unfolding rooms_ok_def by simp
        then have "rooms_ok A (us_Rooms U') s'" using rooms_ok_props [OF _ s'] U' by simp
        moreover have "room_only (U, s) (U', s')" using U' s' by (intro room_only_props) auto
        ultimately show ?thesis using mem U' by simp
      qed
    qed
  qed
qed

lemma late_leave_ok:
  assumes ok: "rooms_ok A (us_Rooms U) s" and live: "conns_live B s" and c: "c \<in> B" "c \<notin> A" "A \<subseteq> B"
    and run: "UnityLeaveRoomHandle g c (U, s) = (U', s')"
  shows "room_only (U, s) (U', s') \<and> rooms_ok A (us_Rooms U') s'"
proof -
  have at: "s (ic_ref c) \<noteq> None" by (rule conns_live_at [OF live c(1)])
  have same: ?thesis if "U' = U" "props s' = props s"
    using that rooms_ok_props [OF ok] room_only_props by simp
  consider "getRoomID c s = 0" | e where "getRoomID c s \<noteq> 0" "GetRoom (getRoomID c s) (us_Rooms U) = Inl e"
    | room where "getRoomID c s \<noteq> 0" "GetRoom (getRoomID c s) (us_Rooms U) = Inr room"
    by (cases "GetRoom (getRoomID c s) (us_Rooms U)") auto
  then show ?thesis
  proof cases
    case 1
    then show ?thesis using run by (intro same) (auto simp: UnityLeaveRoomHandle_def Let_def)
  next
    case (2 e)
    then have U': "U' = U" and s': "props s' = props (storeRemoveProperty ''RoomID'' c s)"
      using run by (auto simp: UnityLeaveRoomHandle_def Let_def)
    have "getRoomID d s' = getRoomID d s" if "d \<in> A" for d
      using getRoomID_cong [OF s', of d] getRoomID_other(2) [of s c d] at conns_live_eq [OF live _ c(1), of d] c(2,3) that
      by auto
    then have "rooms_ok A (us_Rooms U') s'" using rooms_ok_cong [OF ok] U' by simp
    moreover have "room_only (U, s) (U', s')" using U' at s' by (intro room_only_set [of _ _ s c]) auto
    ultimately show ?thesis by blast
  next
    case (3 room)
    from Leave_not_member [OF rooms_okD(1) [OF ok] 3(2) not_member [OF ok live c]] obtain e where
      "roomDo room (Leave (ic_connID c)) (us_Rooms U) = (Some e, us_Rooms U)" .
    with 3 show ?thesis using run by (intro same) (auto simp: UnityLeaveRoomHandle_def Let_def)
  qed
qed

lemma inv_request:
  assumes inv: "unity_ok F L A B (U, s)" and c: "c \<in> B" and run: "unityHandle g visit F ks msgID c data (U, s) = Some (U', s')"
  shows "\<exists>A'. A \<subseteq> A' \<and> unity_ok F L A' B (U', s')"
proof -
  note I = unity_okD [OF inv]
  from run consider "UnityChatHandle g ks c data (U, s) = (U', s')" | "UnityMoveHandle g visit F c data (U, s) = Some (U', s')"
    | "UnityCreateRoomHandle g c data (U, s) = (U', s')" | "UnityJoinRoomHandle g c data (U, s) = (U', s')"
    | "UnityLeaveRoomHandle g c (U, s) = (U', s')" | "UnityRoomEventHandle g ks c data (U, s) = (U', s')" | "(U', s') = (U, s)"
    unfolding unityHandle_def by (metis option.inject)
  then show ?thesis
  proof cases
    case 1
    from chat_effect [OF this] inv_props [OF inv, of s'] show ?thesis by auto
  next
    case 2
    then show ?thesis using inv_move [OF inv] by blast
  next
    case 3
    have "unity_ok F L A B (U', s')" using create_room_ok [OF I(2) 3] by (intro inv_room_only [OF inv]) simp_all
    then show ?thesis using subset_refl by blast
  next
    case 4
    show ?thesis
    proof (cases "c \<in> A")
      case True
      have "unity_ok F L A B (U', s')" using join_room_ok [OF I(2,9) True 4] by (intro inv_room_only [OF inv]) simp_all
      then show ?thesis using subset_refl by blast
    next
      case False
      have "insert c A \<subseteq> B" using c I(8) by blast
      have only: "room_only (U, s) (U', s')" and "rooms_ok A (us_Rooms U') s' \<or> rooms_ok (insert c A) (us_Rooms U') s'"
        using late_join_ok [OF I(2,1) c False I(8) 4] by simp_all
      then consider "unity_ok F L A B (U', s')" | "unity_ok F L (insert c A) B (U', s')"
        using inv_room_only [OF inv _ only] inv_room_grow [OF inv _ only subset_insertI \<open>insert c A \<subseteq> B\<close>] by (elim disjE) simp_all
      then show ?thesis by cases (rule exI, rule conjI, rule subset_refl subset_insertI, assumption)+
    qed
  next
    case 5
    show ?thesis
    proof (cases "c \<in> A")
      case True
      have "unity_ok F L A B (U', s')" using leave_room_ok [OF I(2,9) True 5] by (intro inv_room_only [OF inv]) simp_all
      then show ?thesis using subset_refl by blast
    next
      case False
      have "unity_ok F L A B (U', s')" using late_leave_ok [OF I(2,1) c False I(8) 5] by (intro inv_room_only [OF inv]) simp_all
      then show ?thesis using subset_refl by blast
    qed
  next
    case 6
    from room_event_effect [OF this] inv_props [OF inv, of s'] show ?thesis by auto
  next
    case 7
    with inv show ?thesis by blast
  qed
qed

section \<open>The start hook keeps the invariant\<close>

text \<open>A connection that has just been accepted: an object and an id of its own, without properties.\<close>

definition fresh_conn :: "iconn set \<Rightarrow> 'p conn_store \<Rightarrow> iconn \<Rightarrow> bool" where
  "fresh_conn L s c \<longleftrightarrow> (\<forall>c' \<in> L. ic_connID c' \<noteq> ic_connID c \<and> ic_ref c' \<noteq> ic_ref c)
     \<and> (\<exists>C. conn_at s c = Some C \<and> cn_property C = Map.empty)"

lemma inv_fields:
  assumes "unity_ok F L A B (U, s)" "us_World U' = us_World U" "us_Rooms U' = us_Rooms U" "us_Sessions U' = us_Sessions U"
  shows "unity_ok F L A B (U', s)"
  using assms by (simp add: unity_ok_def)

lemma inv_arrive:
  assumes inv: "unity_ok F L A B (U, s)" and new: "fresh_conn B s c"
  shows "unity_ok F (insert c L) (insert c A) (insert c B) (U, s)"
proof -
  note I = unity_okD [OF inv]
  have other: "\<And>c'. c' \<in> B \<Longrightarrow> ic_connID c' \<noteq> ic_connID c \<and> ic_ref c' \<noteq> ic_ref c" and at: "ic_ref c \<in> dom s"
    and room: "getRoomID c s = 0"
    using new by (auto simp: fresh_conn_def getRoomID_def storeGetProperty_def GetProperty_def)
  show ?thesis
  proof (rule unity_okI)
    show "conns_live (insert c B) s" using I(1) other at unfolding conns_live_def by fastforce
    show "rooms_ok (insert c A) (us_Rooms U) s" using I(2) room unfolding rooms_ok_def by auto
    show "sessions_live (insert c L) (us_Sessions U)" using I(5) unfolding sessions_live_def by blast
    show "players_live (insert c L) (us_World U) (us_Sessions U) s" using I(6) unfolding players_live_def by blast
  qed (use I in auto)
qed

lemma inv_set_property:
  assumes inv: "unity_ok F L A B (U, s)" and c: "c \<in> L" and key: "key \<noteq> ''RoomID''"
    and absent: "key = ''PlayerID'' \<Longrightarrow> uw_players (us_World U) (ic_connID c) = None"
  shows "unity_ok F L A B (U, storeSetProperty key v c s)"
proof -
  note I = unity_okD [OF inv]
  let ?s' = "storeSetProperty key v c s"
  have at: "s (ic_ref c) \<noteq> None" by (rule conns_live_at [OF I(10) c])
  have "getRoomID d ?s' = getRoomID d s" for d
    using prop_at_set [of s c key v d, OF at] key by (simp add: getRoomID_prop)
  then have rooms: "rooms_ok A (us_Rooms U) ?s'" by (intro rooms_ok_cong [OF I(2)])
  have "prop_at ?s' (uwp_Connection p) ''PlayerID'' = prop_at s (uwp_Connection p) ''PlayerID''"
    if p: "uw_players (us_World U) k = Some p" for k p
  proof -
    have "uwp_Connection p \<in> L" "ic_connID (uwp_Connection p) = k"
      using I(6) world_invD(2) [OF I(3)] p by (auto simp: players_live_def players_ok_def)
    then have "key \<noteq> ''PlayerID'' \<or> ic_ref (uwp_Connection p) \<noteq> ic_ref c"
      using absent p conns_live_eq [OF I(10) _ c] by fastforce
    then show ?thesis using prop_at_set [of s c key v, OF at] by auto
  qed
  then have "players_live L (us_World U) (us_Sessions U) ?s'" using I(6) unfolding players_live_def by simp
  then show ?thesis using I rooms conns_live_dom [OF I(1), of ?s'] by (intro unity_okI) simp_all
qed

lemma inv_same_tokens:
  assumes inv: "unity_ok F L A B (U, s)" and m: "session_inv m" "sm_byToken m = sm_byToken (us_Sessions U)"
  shows "unity_ok F L A B (U\<lparr>us_Sessions := m\<rparr>, s)"
  using unity_okD [OF inv] m by (intro unity_okI) (simp_all add: sessions_live_def players_live_def)

lemma inv_bound_session:
  assumes inv: "unity_ok F L A B (U, s)" and c: "c \<in> L" and m: "session_inv m" "sm_byToken m = (sm_byToken (us_Sessions U))(t \<mapsto> v)"
    and fresh: "sm_byToken (us_Sessions U) t = None"
    and v: "ses_Bound v" "ses_ConnID v = ic_connID c" "ses_AccountID v = unityAccount (ic_connID c)"
  shows "unity_ok F L A B (U\<lparr>us_Sessions := m\<rparr>, s)"
proof -
  note I = unity_okD [OF inv]
  have "sessions_live L m" using I(5) c v unfolding sessions_live_def m(2) by auto
  moreover have "players_live L (us_World U) m s"
    using I(6) fresh unfolding players_live_def m(2) by (metis fun_upd_other option.distinct(1))
  ultimately show ?thesis using I m(1) by (intro unity_okI) simp_all
qed

lemma inv_add_player:
  assumes inv: "unity_ok F L A B (U, s)" and c: "c \<in> L" and m: "sm_byToken (us_Sessions U) t = Some v" "ses_ConnID v = ic_connID c"
    and pid: "prop_at s c ''PlayerID'' = Some (PropU64 (ses_PlayerID v))"
    and add: "AddPlayerWithPID visit F (Some c) (ucast (ses_PlayerID v)) (Some (us_World U)) = Some (r, Some w)"
  shows "unity_ok F L A B (U\<lparr>us_World := w\<rparr>, s)"
proof -
  note I = unity_okD [OF inv]
  have "world_inv F w" by (rule world_inv_add [OF I(3) add])
  moreover from add have "players_live L w (us_Sessions U) s"
  proof (cases rule: AddPlayerWithPID_result)
    case (refused err)
    then show ?thesis using I(6) by simp
  next
    case (added conn aoi nearby w1 player)
    then show ?thesis using I(6) c m pid unfolding players_live_def by auto
  qed
  ultimately show ?thesis using I by (intro unity_okI) simp_all
qed

lemma inv_default_room:
  assumes inv: "unity_ok F L A B (U, s)" and c: "c \<in> L" "getRoomID c s = 0" and run: "enterDefaultRoom c (U, s) = (U', s')"
  shows "unity_ok F L A B (U', s') \<and> us_World U' = us_World U"
proof (cases "GetRoom 1 (us_Rooms U)")
  case (Inl e)
  then show ?thesis using run inv by (simp add: enterDefaultRoom_def)
next
  case (Inr room)
  note I = unity_okD [OF inv]
  have at: "s (ic_ref c) \<noteq> None" by (rule conns_live_at [OF I(10) c(1)])
  have cA: "c \<in> A" using I(7) c(1) by blast
  from I(2) Inr show ?thesis
  proof (cases rule: join_effect [where c = c])
    case (refused err)
    then show ?thesis using run inv Inr by (simp add: enterDefaultRoom_def)
  next
    case (joined rg')
    then have U': "U' = U\<lparr>us_Rooms := rg'\<rparr>" and s': "s' = storeSetProperty ''RoomID'' (PropU32 1) c s"
      using run Inr by (simp_all add: enterDefaultRoom_def)
    have "members_of rg' = (\<lambda>R k. if k = ic_connID c then (if R = 1 then Some c else None) else members_of (us_Rooms U) R k)"
      using member_only_there [OF I(2) cA I(9)] c(2) joined(5) by (auto simp: fun_eq_iff)
    moreover have "rg_rooms (us_Rooms U) 1 \<noteq> None" using Inr by (simp add: GetRoom_def split: option.splits)
    ultimately have "rooms_ok A rg' s'"
      using join_moves [OF I(2,9) cA, of 1 rg' s'] joined(2,3) c(2) s' by simp
    moreover have "room_only (U, s) (U', s')" using U' s' at by (intro room_only_set [of _ _ s c]) auto
    ultimately show ?thesis using inv_room_only [OF inv, of U' s'] U' by simp
  qed
qed

lemma announce_effect:
  assumes "announcePlayer g visit c player old (U, s) = Some (U', s')"
  shows "U' = U \<and> props s' = props s"
  using assms
  by (auto simp: announcePlayer_def Let_def Option.bind_eq_Some_conv dest!: props_storeSend_eq props_BroadcastVisible
      split: prod.splits option.splits)

lemma AddPlayer_world:
  "AddPlayerWithPID visit F connection pid (Some w) = Some (r, w') \<Longrightarrow> \<exists>w1. w' = Some w1"
  by (erule AddPlayerWithPID_result) auto

text \<open>The hook after the session is bound.\<close>

lemma inv_start_bound:
  assumes inv: "unity_ok F L A B (U, s)" and c: "c \<in> L" "getRoomID c s = 0"
    and absent: "uw_players (us_World U) (ic_connID c) = None"
    and m: "sm_byToken (us_Sessions U) t = Some v" "ses_ConnID v = ic_connID c"
    and s3: "s3 = storeSetProperty ''PlayerID'' (PropU64 (ses_PlayerID v)) c (storeSetProperty ''SessionToken'' a c s)"
    and add: "AddPlayerWithPID visit F (Some c) (ucast (ses_PlayerID v)) (Some (us_World U)) = Some (r, world)"
    and out: "case r of Inl err \<Rightarrow> (U', s') = (U\<lparr>us_World := the world\<rparr>, storeStop c s3)
      | Inr (player, old) \<Rightarrow> announcePlayer g visit c player old (enterDefaultRoom c (U\<lparr>us_World := the world\<rparr>, s3)) = Some (U', s')"
  shows "unity_ok F L A B (U', s')"
proof -
  obtain w where w: "world = Some w" using AddPlayer_world [OF add] by blast
  let ?s2 = "storeSetProperty ''SessionToken'' a c s"
  have at: "s (ic_ref c) \<noteq> None" by (rule conns_live_at [OF unity_okD(10) [OF inv] c(1)])
  have inv2: "unity_ok F L A B (U, ?s2)" by (rule inv_set_property [OF inv c(1)]) simp_all
  have inv3: "unity_ok F L A B (U, s3)" unfolding s3 by (rule inv_set_property [OF inv2 c(1)]) (simp_all add: absent)
  have at2: "?s2 (ic_ref c) \<noteq> None" by (rule conns_live_at [OF unity_okD(10) [OF inv2] c(1)])
  have pid: "prop_at s3 c ''PlayerID'' = Some (PropU64 (ses_PlayerID v))"
    unfolding s3 using prop_at_set [of ?s2 c "''PlayerID''" _ c "''PlayerID''", OF at2] by simp
  have room: "getRoomID c s3 = 0"
    using c(2) prop_at_set [of ?s2 c "''PlayerID''" _ c "''RoomID''", OF at2]
      prop_at_set [of s c "''SessionToken''" _ c "''RoomID''", OF at] by (simp add: getRoomID_prop s3)
  have inv4: "unity_ok F L A B (U\<lparr>us_World := w\<rparr>, s3)"
    by (rule inv_add_player [OF inv3 c(1) m pid add [unfolded w]])
  show ?thesis
  proof (cases r)
    case (Inl err)
    then have "U' = U\<lparr>us_World := w\<rparr>" "props s' = props s3" using out w by auto
    with inv_props [OF inv4, of s'] show ?thesis by simp
  next
    case (Inr po)
    obtain player old where po: "po = (player, old)" by fastforce
    obtain U5 s5 where d: "enterDefaultRoom c (U\<lparr>us_World := w\<rparr>, s3) = (U5, s5)" by fastforce
    have "unity_ok F L A B (U5, s5)" using inv_default_room [OF inv4 c(1) room d] by blast
    moreover have "announcePlayer g visit c player old (U5, s5) = Some (U', s')" using out Inr po d w by simp
    ultimately show ?thesis using announce_effect inv_props by metis
  qed
qed

lemma inv_start:
  assumes inv: "unity_ok F L A B (U, s)" and new: "fresh_conn B s c"
    and fresh: "\<And>token. createToken random = Inr token \<Longrightarrow> sm_byToken (us_Sessions U) token = None"
    and run: "OnConnStart g visit F random now now1 now2 c (U, s) = Some (U', s')"
  shows "unity_ok F (insert c L) (insert c A) (insert c B) (U', s')"
proof -
  note I = unity_okD [OF inv]
  let ?L = "insert c L" and ?A = "insert c A" and ?B = "insert c B" and ?m = "us_Sessions U" and ?n = "us_nextPlayerID U + 1" and ?a = "unityAccount (ic_connID c)"
  define U1 where "U1 = U\<lparr>us_nextPlayerID := ?n\<rparr>"
  have inv1: "unity_ok F ?L ?A ?B (U1, s)"
    by (rule inv_fields [OF inv_arrive [OF inv new]]) (simp_all add: U1_def)
  have m1: "us_Sessions U1 = ?m" "us_World U1 = us_World U" by (simp_all add: U1_def)
  have other: "ic_connID c' \<noteq> ic_connID c" if "c' \<in> L" for c'
    using new that I(7,8) unfolding fresh_conn_def by blast
  have free: "\<forall>t v. sm_byToken ?m t = Some v \<longrightarrow> ses_AccountID v \<noteq> ?a"
    using I(5) other unityAccount_inj unfolding sessions_live_def by metis
  have absent: "uw_players (us_World U) (ic_connID c) = None"
  proof (rule ccontr)
    assume "uw_players (us_World U) (ic_connID c) \<noteq> None"
    then obtain p where "uw_players (us_World U) (ic_connID c) = Some p" by auto
    then have "uwp_Connection p \<in> L" "ic_connID (uwp_Connection p) = ic_connID c"
      using I(6) world_invD(2) [OF I(3)] by (auto simp: players_live_def players_ok_def)
    with other show False by blast
  qed
  have room: "getRoomID c s = 0"
    using new by (auto simp: fresh_conn_def getRoomID_def storeGetProperty_def GetProperty_def)
  obtain out m' where issue: "Issue ?m ?a ?n oneDay random now = (out, m')" by fastforce
  show ?thesis
  proof (cases out)
    case (Inl err)
    then have "m' = ?m" using issue Issue_Inl by blast
    then have "U' = U1\<lparr>us_Sessions := ?m\<rparr>" "props s' = props s"
      using run issue Inl by (auto simp: OnConnStart_def Let_def U1_def)
    with inv_props [OF inv_same_tokens [OF inv1 I(4)], of s'] show ?thesis by (simp add: m1)
  next
    case (Inr gr)
    obtain gs replaced where gr: "gr = (gs, replaced)" by fastforce
    from login_issue [OF I(4) free issue [unfolded Inr gr]] obtain token where tok: "createToken random = Inr token"
        "gs = fresh_session token ?a ?n oneDay now" "sm_byToken m' = (sm_byToken ?m)(token \<mapsto> gs)" by blast
    have none: "sm_byToken ?m token = None" by (rule fresh [OF tok(1)])
    have mi: "session_inv m'" by (rule session_inv_Issue [OF I(4) issue fresh])
    let ?s1 = "storeSetProperty ''AccountID'' (PropString (ses_AccountID gs)) c s"
    have at: "s (ic_ref c) \<noteq> None" by (rule conns_live_at [OF unity_okD(10) [OF inv1]]) simp
    have inv1s: "unity_ok F ?L ?A ?B (U1, ?s1)" by (rule inv_set_property [OF inv1]) simp_all
    have room1: "getRoomID c ?s1 = 0"
      using room prop_at_set [of s c "''AccountID''" _ c "''RoomID''", OF at] by (simp add: getRoomID_prop)
    obtain b m2 where bind: "Bind m' token (ic_connID c) now1 now2 = (b, m2)" by fastforce
    have gst: "ses_Token gs = token" by (simp add: tok(2))
    show ?thesis
    proof (cases b)
      case (Inl err)
      then have m2: "m2 = m'" using bind Bind_Inl by blast
      let ?m3 = "snd (LogoutByToken m' token)"
      have "U' = U1\<lparr>us_Sessions := ?m3\<rparr>" "props s' = props ?s1"
        using run issue Inr gr bind Inl m2 gst by (auto simp: OnConnStart_def Let_def U1_def)
      moreover have "session_inv ?m3" using session_inv_LogoutByToken [OF mi] by (metis prod.collapse)
      moreover have "sm_byToken ?m3 = sm_byToken ?m"
        using tok(3) none by (auto simp: LogoutByToken_def fun_eq_iff)
      ultimately show ?thesis
        using inv_props [OF inv_same_tokens [OF inv1s, of ?m3], of s'] by (simp add: m1)
    next
      case (Inr bound)
      have "sm_byToken m' token = Some gs" using tok(3) by simp
      then have bv: "bound = gs\<lparr>ses_ConnID := ic_connID c, ses_Bound := True, ses_UpdatedAt := now2\<rparr>"
          "sm_byToken m2 = (sm_byToken m')(token \<mapsto> bound)"
        using Bind_Inr [OF bind [unfolded Inr]] by (metis Manager.select_convs(3) Manager.surjective Manager.update_convs(3) Manager.update_convs(6) option.inject)+
      have m2: "session_inv m2" "sm_byToken m2 = (sm_byToken ?m)(token \<mapsto> bound)"
        using session_inv_Bind [OF mi bind] bv(2) tok(3) by auto
      have inv2: "unity_ok F ?L ?A ?B (U1\<lparr>us_Sessions := m2\<rparr>, ?s1)"
        by (rule inv_bound_session [OF inv1s, of c m2 token bound]) (use m2 none bv(1) tok(2) in \<open>simp_all add: m1\<close>)
      have pid: "ses_PlayerID gs = ses_PlayerID bound" by (simp add: bv(1))
      obtain r world where add: "AddPlayerWithPID visit F (Some c) (ucast (ses_PlayerID bound)) (Some (us_World U)) = Some (r, world)"
        using run issue \<open>out = Inr gr\<close> gr bind Inr gst pid
        by (auto simp: OnConnStart_def Let_def Option.bind_eq_Some_conv)
      have "case r of Inl err \<Rightarrow> (U', s') = (U1\<lparr>us_Sessions := m2, us_World := the world\<rparr>,
            storeStop c (storeSetProperty ''PlayerID'' (PropU64 (ses_PlayerID bound)) c
              (storeSetProperty ''SessionToken'' (PropString token) c ?s1)))
        | Inr (player, old) \<Rightarrow> announcePlayer g visit c player old (enterDefaultRoom c (U1\<lparr>us_Sessions := m2, us_World := the world\<rparr>,
            storeSetProperty ''PlayerID'' (PropU64 (ses_PlayerID bound)) c
              (storeSetProperty ''SessionToken'' (PropString token) c ?s1))) = Some (U', s')"
        using run issue \<open>out = Inr gr\<close> gr bind Inr gst pid add
        by (auto simp: OnConnStart_def Let_def U1_def split: sum.splits)
      then show ?thesis
        using inv_start_bound [OF inv2 _ room1 _ _ _ refl, of token bound visit r world U' s' "PropString token" g]
          absent m2(2) bv(1) add by (simp add: m1)
    qed
  qed
qed

section \<open>The stop hook\<close>

lemma stop_rooms:
  assumes ok: "rooms_ok L rg s" and live: "conns_live L s" and c: "c \<in> L"
    and rooms: "rooms = (if getRoomID c s \<noteq> 0
       then (case GetRoom (getRoomID c s) rg of Inl err \<Rightarrow> rg
             | Inr room \<Rightarrow> snd (roomDo room (Leave (ic_connID c)) rg)) else rg)"
  shows "rooms_ok (L - {c}) rooms s"
    and "members_of rooms = (\<lambda>R k. if k = ic_connID c then None else members_of rg R k)"
    and "rg_rooms rooms = rg_rooms rg"
proof -
  note only = member_only_there [OF ok c live]
  have eff: "room_inv rooms \<and> rg_rooms rooms = rg_rooms rg
    \<and> members_of rooms = (\<lambda>R k. if k = ic_connID c then None else members_of rg R k)"
  proof (cases "getRoomID c s = 0")
    case True
    then show ?thesis using rooms rooms_okD(1) [OF ok] only by (auto simp: fun_eq_iff)
  next
    case False
    from leave_effect [OF ok c refl False] obtain room rg' where lv: "GetRoom (getRoomID c s) rg = Inr room"
      "roomDo room (Leave (ic_connID c)) rg = (None, rg')" "room_inv rg'" "rg_rooms rg' = rg_rooms rg"
      "members_of rg' = (members_of rg)(getRoomID c s := (members_of rg (getRoomID c s))(ic_connID c := None))" .
    then have "rooms = rg'" using rooms False by simp
    then show ?thesis using lv only by (auto simp: fun_eq_iff)
  qed
  then show mem: "members_of rooms = (\<lambda>R k. if k = ic_connID c then None else members_of rg R k)" by blast
  show "rg_rooms rooms = rg_rooms rg" using eff by blast
  have "members_of rooms R k = Some d \<longleftrightarrow> d \<in> L - {c} \<and> ic_connID d = k \<and> R \<noteq> 0 \<and> getRoomID d s = R" for R k d
  proof (cases "k = ic_connID c")
    case True
    have "\<not> (d \<in> L - {c} \<and> ic_connID d = k)" using conns_live_eq [OF live _ c, of d] True by blast
    then show ?thesis using True by (auto simp: mem)
  next
    case False
    then show ?thesis using rooms_okD(3) [OF ok, of R k d] by (auto simp: mem)
  qed
  then show "rooms_ok (L - {c}) rooms s" using eff rooms_okD(2) [OF ok] unfolding rooms_ok_def by simp
qed

lemma stop_result:
  assumes inv: "unity_ok F L A B (U, s)" and c: "c \<in> L" and run: "OnConnStop g visit c (U, s) = Some (U', s')"
  shows "rooms_ok (A - {c}) (us_Rooms U') s" "props s' = props s"
    "members_of (us_Rooms U') = (\<lambda>R k. if k = ic_connID c then None else members_of (us_Rooms U) R k)"
    "world_inv F (us_World U')" "uw_players (us_World U') = (uw_players (us_World U))(ic_connID c := None)"
    "us_Sessions U' = snd (LogoutByConnID (us_Sessions U) (ic_connID c))"
    "rg_rooms (us_Rooms U') = rg_rooms (us_Rooms U)"
proof -
  note I = unity_okD [OF inv]
  have cA: "c \<in> A" using I(7) c by blast
  define rooms where "rooms = (if getRoomID c s \<noteq> 0
       then (case GetRoom (getRoomID c s) (us_Rooms U) of Inl err \<Rightarrow> us_Rooms U
             | Inr room \<Rightarrow> snd (roomDo room (Leave (ic_connID c)) (us_Rooms U))) else us_Rooms U)"
  obtain r w where rm: "RemovePlayerWithVisibility visit (ic_connID c) (Some (us_World U)) = Some (r, w)"
    using run by (auto simp: OnConnStop_def Let_def Option.bind_eq_Some_conv)
  have pl: "\<exists>w'. w = Some w' \<and> uw_players w' = (uw_players (us_World U))(ic_connID c := None)"
    using rm world_invD(4) [OF I(3)] by (cases rule: RemovePlayer_result) (auto simp: fun_upd_idem)
  then obtain w' where w: "w = Some w'" "uw_players w' = (uw_players (us_World U))(ic_connID c := None)" by blast
  have out: "U' = U\<lparr>us_Rooms := rooms, us_World := w', us_Sessions := snd (LogoutByConnID (us_Sessions U) (ic_connID c))\<rparr>"
    "props s' = props s"
    using run rm w(1) unfolding OnConnStop_def Let_def prod.case rooms_def [symmetric]
    by (auto split: sum.splits)
  show "rooms_ok (A - {c}) (us_Rooms U') s" "members_of (us_Rooms U') = (\<lambda>R k. if k = ic_connID c then None else members_of (us_Rooms U) R k)"
    "rg_rooms (us_Rooms U') = rg_rooms (us_Rooms U)"
    using stop_rooms [OF I(2,9) cA rooms_def] out(1) by simp_all
  show "props s' = props s" by (rule out(2))
  show "world_inv F (us_World U')" using world_inv_remove [OF I(3) rm [unfolded w(1)]] out(1) by simp
  show "uw_players (us_World U') = (uw_players (us_World U))(ic_connID c := None)" using w(2) out(1) by simp
  show "us_Sessions U' = snd (LogoutByConnID (us_Sessions U) (ic_connID c))" using out(1) by simp
qed

lemma inv_stop:
  assumes inv: "unity_ok F L A B (U, s)" and c: "c \<in> L" and run: "OnConnStop g visit c (U, s) = Some (U', s')"
  shows "unity_ok F (L - {c}) (A - {c}) B (U', s')"
proof -
  note I = unity_okD [OF inv] and R = stop_result [OF inv c run]
  note gone = Logout_gone [OF I(4), of "ic_connID c"]
  have eq: "d = c" if "d \<in> L" "ic_connID d = ic_connID c" for d using conns_live_eq [OF I(10)] c that by blast
  have "unity_ok F (L - {c}) (A - {c}) B (U', s)"
  proof (rule unity_okI)
    show "session_inv (us_Sessions U')"
      unfolding R(6) using session_inv_LogoutByConnID [OF I(4)] by (metis prod.collapse)
    show "sessions_live (L - {c}) (us_Sessions U')"
      unfolding sessions_live_def
    proof (intro allI impI)
      fix t v assume "sm_byToken (us_Sessions U') t = Some v"
      then have v: "sm_byToken (us_Sessions U) t = Some v" "\<not> (ses_Bound v \<and> ses_ConnID v = ic_connID c)"
        using gone [of t] R(6) by (auto split: option.splits if_splits)
      then obtain d where "d \<in> L" "ic_connID d = ses_ConnID v" "ses_Bound v" "ses_AccountID v = unityAccount (ses_ConnID v)"
        using I(5) unfolding sessions_live_def by blast
      moreover from this v have "d \<noteq> c" by auto
      ultimately show "ses_Bound v \<and> ses_AccountID v = unityAccount (ses_ConnID v) \<and> (\<exists>d \<in> L - {c}. ic_connID d = ses_ConnID v)"
        by blast
    qed
    show "players_live (L - {c}) (us_World U') (us_Sessions U') s"
      unfolding players_live_def R(5)
    proof (intro allI impI)
      fix k p assume "((uw_players (us_World U))(ic_connID c := None)) k = Some p"
      then have k: "k \<noteq> ic_connID c" and p: "uw_players (us_World U) k = Some p" by (auto split: if_splits)
      from I(6) p obtain t v where tv: "uwp_Connection p \<in> L" "sm_byToken (us_Sessions U) t = Some v" "ses_ConnID v = k"
          "uwp_PID p = ucast (ses_PlayerID v)" "prop_at s (uwp_Connection p) ''PlayerID'' = Some (PropU64 (ses_PlayerID v))"
        unfolding players_live_def by blast
      moreover have "ic_connID (uwp_Connection p) = k" using world_invD(2) [OF I(3)] p by (simp add: players_ok_def)
      moreover have "sm_byToken (us_Sessions U') t = Some v" using gone [of t] tv(2,3) k R(6) by simp
      ultimately show "uwp_Connection p \<in> L - {c} \<and> (\<exists>t v. sm_byToken (us_Sessions U') t = Some v \<and> ses_ConnID v = k
          \<and> uwp_PID p = ucast (ses_PlayerID v) \<and> prop_at s (uwp_Connection p) ''PlayerID'' = Some (PropU64 (ses_PlayerID v)))"
        using k by auto
    qed
  qed (use R I(1,7,8) in auto)
  then show ?thesis by (rule inv_props [OF _ R(2)])
qed

section \<open>The server as a step system\<close>

text \<open>
  The state \<open>(L, G, U, s)\<close>: \<open>L\<close> are the connections between their start hook and their stop hook, \<open>G\<close> those
  whose stop hook has run. A step is a hook, a request, or something that happens to the connections alone (a
  writer sends, a connection stops) and leaves their properties as they are. The requests of a connection wait in a
  worker queue, so one may still be handled when the connection is in \<open>G\<close>; the connections of \<open>quiet\<close> have
  no request left that waits. Connection ids and tokens of random bytes are not used twice.
\<close>

definition unity_init :: "iconn set \<times> iconn set \<times> unity_state \<Rightarrow> bool" where
  "unity_init st \<longleftrightarrow> fst st = {} \<and> fst (snd st) = {} \<and> NewUnityServer = Inr (fst (snd (snd st)))"

inductive unity_step ::
  "Config \<Rightarrow> (u32 set \<Rightarrow> u32 list) \<Rightarrow> fpu \<Rightarrow> iconn set \<Rightarrow> iconn set \<times> iconn set \<times> unity_state
   \<Rightarrow> iconn set \<times> iconn set \<times> unity_state \<Rightarrow> bool"
  for g :: Config and visit :: "u32 set \<Rightarrow> u32 list" and F :: fpu and quiet :: "iconn set" where
  us_connect: "fresh_conn (L \<union> G) s c
    \<Longrightarrow> (\<And>token. createToken random = Inr token \<Longrightarrow> sm_byToken (us_Sessions U) token = None)
    \<Longrightarrow> OnConnStart g visit F random now now1 now2 c (U, s) = Some (U', s')
    \<Longrightarrow> unity_step g visit F quiet (L, G, U, s) (insert c L, G, U', s')"
| us_request: "c \<in> L \<union> G \<Longrightarrow> c \<notin> quiet \<Longrightarrow> unityHandle g visit F ks msgID c data (U, s) = Some (U', s')
    \<Longrightarrow> unity_step g visit F quiet (L, G, U, s) (L, G, U', s')"
| us_disconnect: "c \<in> L \<Longrightarrow> OnConnStop g visit c (U, s) = Some (U', s')
    \<Longrightarrow> unity_step g visit F quiet (L, G, U, s) (L - {c}, insert c G, U', s')"
| us_connections: "(\<And>ref. ref \<in> dom s \<Longrightarrow> props s' ref = props s ref)
    \<Longrightarrow> unity_step g visit F quiet (L, G, U, s) (L, G, U, s')"

lemma inv_connections:
  assumes inv: "unity_ok F L A B (U, s)" and same: "\<And>ref. ref \<in> dom s \<Longrightarrow> props s' ref = props s ref"
  shows "unity_ok F L A B (U, s')"
proof -
  note I = unity_okD [OF inv]
  have at: "ic_ref c \<in> dom s" if "c \<in> B" for c using I(1) that by (auto simp: conns_live_def)
  then have p: "prop_at s' c = prop_at s c" if "c \<in> B" for c
    using same [OF at [OF that]] by (simp add: prop_at_def fun_eq_iff)
  have "ic_ref c \<in> dom s'" if "c \<in> B" for c
    using same [OF at [OF that]] at [OF that] props_None by (metis domIff)
  then have "conns_live B s'" using I(1) unfolding conns_live_def by blast
  moreover have "getRoomID c s' = getRoomID c s" if "c \<in> A" for c
    using p [of c] that I(8) by (simp add: getRoomID_prop subsetD)
  then have "rooms_ok A (us_Rooms U) s'" using rooms_ok_cong [OF I(2)] by simp
  moreover have "c \<in> B" if "c \<in> L" for c using that I(7,8) by blast
  then have "players_live L (us_World U) (us_Sessions U) s'"
    using I(6) p unfolding players_live_def by simp
  ultimately show ?thesis using I by (intro unity_okI)
qed

lemma unity_inv_init: "unity_init st \<Longrightarrow> unity_inv F st"
proof -
  assume init: "unity_init st"
  obtain L G U s where st: "st = (L, G, U, s)" by (cases st) auto
  have L: "L = {}" "G = {}" and new: "NewUnityServer = Inr U" using init st by (simp_all add: unity_init_def)
  obtain m w rooms room where m: "New ReplaceExisting = Inr m" and w: "NewUnityWorld = Inr w"
      and rooms: "CreateRoom 1 100 NewRoomManager = (Inr room, rooms)"
      and U: "U = \<lparr> us_World = w, us_Rooms = rooms, us_Sessions = m, us_nextPlayerID = 1000 \<rparr>"
    using new by (auto simp: NewUnityServer_def split: sum.splits prod.splits)
  have w': "NewUnityWorldWithAOI (Fin 1000) (Fin 1000) (Fin 10) (Fin 10) = Inr w"
    using w by (auto simp: NewUnityWorld_def split: sum.splits)
  then have pl: "uw_players w = Map.empty" by (auto simp: NewUnityWorldWithAOI_def split: sum.splits)
  have tok: "sm_byToken m = Map.empty" using m by (auto simp: New_def split: if_splits)
  have base: "room_inv NewRoomManager" by (simp add: room_inv_def NewRoomManager_def)
  note cr = CreateRoom_members [OF base rooms]
  have none: "members_of NewRoomManager = (\<lambda>_. Map.empty)" "rg_rooms NewRoomManager 0 = None"
    by (simp_all add: members_of_def NewRoomManager_def fun_eq_iff)
  have "unity_ok F {} {} {} (U, s)"
  proof (rule unity_okI)
    show "rooms_ok {} (us_Rooms U) s" using cr none by (simp add: rooms_ok_def U)
    show "world_inv F (us_World U)" using world_inv_new [OF w'] U by simp
    show "session_inv (us_Sessions U)" using session_inv_New [OF m] U by simp
  qed (simp_all add: U pl tok conns_live_def sessions_live_def players_live_def)
  then show ?thesis unfolding st L unity_inv_def by auto
qed

lemma unity_inv_step:
  assumes inv: "unity_inv F st" and st: "unity_step g visit F quiet st st'"
  shows "unity_inv F st'"
  using st
proof (cases rule: unity_step.cases)
  case (us_connect L G s c random U now now1 now2 U' s')
  obtain A where "unity_ok F L A (L \<union> G) (U, s)" by (rule unity_inv_ok [OF inv [unfolded us_connect(1)]])
  from inv_start [OF this us_connect(3,4,5)] show ?thesis by (auto simp: us_connect(2) unity_inv_def)
next
  case (us_request c L G ks msgID data U s U' s')
  obtain A where "unity_ok F L A (L \<union> G) (U, s)" by (rule unity_inv_ok [OF inv [unfolded us_request(1)]])
  from inv_request [OF this us_request(3,5)] show ?thesis by (auto simp: us_request(2) unity_inv_def)
next
  case (us_disconnect c L U s U' s' G)
  obtain A where "unity_ok F L A (L \<union> G) (U, s)" by (rule unity_inv_ok [OF inv [unfolded us_disconnect(1)]])
  note stop = inv_stop [OF this us_disconnect(3,4)]
  have "L \<union> G = (L - {c}) \<union> insert c G" using us_disconnect(3) by blast
  with stop show ?thesis by (auto simp: us_disconnect(2) unity_inv_def)
next
  case (us_connections s s' L G U)
  obtain A where "unity_ok F L A (L \<union> G) (U, s)" by (rule unity_inv_ok [OF inv [unfolded us_connections(1)]])
  from inv_connections [OF this us_connections(3)] show ?thesis by (auto simp: us_connections(2) unity_inv_def)
qed

text \<open>The properties of a connection are written by its own hooks and requests only.\<close>

lemma props_other [simp]:
  "x \<noteq> ic_ref i \<Longrightarrow> props (storeSetProperty key v i s) x = props s x"
  "x \<noteq> ic_ref i \<Longrightarrow> props (storeRemoveProperty key i s) x = props s x"
  by (auto simp: props_def storeSetProperty_def storeRemoveProperty_def split: option.splits)

lemma finishJoin_other:
  "finishJoin g d Q room (U, s) = (U', s') \<Longrightarrow> x \<noteq> ic_ref d \<Longrightarrow> props s' x = props s x"
  by (auto simp: finishJoin_def Let_def split: if_splits sum.splits prod.splits option.splits)

lemma join_other:
  assumes "UnityJoinRoomHandle g d data (U, s) = (U', s')" "x \<noteq> ic_ref d"
  shows "props s' x = props s x"
proof -
  obtain err rq where dec: "decodeUnityFields data roomRequestField \<lparr> urq_RoomID = 0 \<rparr> = (err, rq)" by fastforce
  show ?thesis
    using assms finishJoin_other
    by (fastforce simp: UnityJoinRoomHandle_def dec Let_def split: if_splits sum.splits prod.splits option.splits)
qed

lemma leave_other:
  "UnityLeaveRoomHandle g d (U, s) = (U', s') \<Longrightarrow> x \<noteq> ic_ref d \<Longrightarrow> props s' x = props s x"
  by (auto simp: UnityLeaveRoomHandle_def Let_def split: if_splits sum.splits prod.splits option.splits)

lemma request_other:
  assumes "unityHandle g visit F ks msgID d data (U, s) = Some (U', s')" "x \<noteq> ic_ref d"
  shows "props s' x = props s x"
proof -
  obtain err rq where dec: "decodeUnityFields data roomRequestField \<lparr> urq_RoomID = 0 \<rparr> = (err, rq)" by fastforce
  have create: "props s' = props s" if "UnityCreateRoomHandle g d data (U, s) = (U', s')"
    using that by (auto simp: UnityCreateRoomHandle_def dec Let_def split: option.splits if_splits sum.splits prod.splits)
  from assms(1) consider "UnityChatHandle g ks d data (U, s) = (U', s')" | "UnityMoveHandle g visit F d data (U, s) = Some (U', s')"
    | "UnityCreateRoomHandle g d data (U, s) = (U', s')" | "UnityJoinRoomHandle g d data (U, s) = (U', s')"
    | "UnityLeaveRoomHandle g d (U, s) = (U', s')" | "UnityRoomEventHandle g ks d data (U, s) = (U', s')" | "(U', s') = (U, s)"
    unfolding unityHandle_def by (metis option.inject)
  then show ?thesis
    by cases (use chat_effect move_effect create join_other leave_other room_event_effect assms(2) in \<open>blast | metis | simp\<close>)+
qed

lemma default_room_other:
  "enterDefaultRoom d (U, s) = (U', s') \<Longrightarrow> x \<noteq> ic_ref d \<Longrightarrow> props s' x = props s x"
  by (auto simp: enterDefaultRoom_def split: sum.splits prod.splits option.splits)

lemma start_other:
  assumes "OnConnStart g visit F random now now1 now2 d (U, s) = Some (U', s')" "x \<noteq> ic_ref d"
  shows "props s' x = props s x"
proof -
  have announce: "props s' x = props s1 x"
    if "announcePlayer g visit d player old (enterDefaultRoom d (U1, s1)) = Some (U', s')" for player old U1 s1
  proof -
    obtain U2 s2 where "enterDefaultRoom d (U1, s1) = (U2, s2)" by fastforce
    with that announce_effect default_room_other [OF _ assms(2)] show ?thesis by metis
  qed
  obtain out m' where issue: "Issue (us_Sessions U) (unityAccount (ic_connID d)) (us_nextPlayerID U + 1) oneDay random now = (out, m')"
    by fastforce
  show ?thesis
  proof (cases out)
    case (Inl err)
    then show ?thesis using assms issue by (auto simp: OnConnStart_def Let_def)
  next
    case (Inr gr)
    obtain gs replaced where gr: "gr = (gs, replaced)" by fastforce
    obtain b m2 where bind: "Bind m' (ses_Token gs) (ic_connID d) now1 now2 = (b, m2)" by fastforce
    show ?thesis
    proof (cases b)
      case (Inl err)
      then show ?thesis using assms issue \<open>out = Inr gr\<close> gr bind by (auto simp: OnConnStart_def Let_def)
    next
      case (Inr bound)
      then obtain r world where add: "AddPlayerWithPID visit F (Some d) (ucast (ses_PlayerID gs)) (Some (us_World U)) = Some (r, world)"
        using assms(1) issue \<open>out = Inr gr\<close> gr bind by (auto simp: OnConnStart_def Let_def Option.bind_eq_Some_conv)
      note run = assms(1) issue \<open>out = Inr gr\<close> gr bind Inr add
      show ?thesis
      proof (cases r)
        case (Inl err)
        with run show ?thesis by (auto simp: OnConnStart_def Let_def assms(2))
      next
        case (Inr po)
        obtain player old where "po = (player, old)" by fastforce
        with run Inr show ?thesis by (auto simp: OnConnStart_def Let_def assms(2) dest!: announce)
      qed
    qed
  qed
qed

text \<open>A run in which a connection that is gone makes no request: it stays where it is.\<close>

lemma quiet_step:
  assumes ok: "unity_ok F L A (L \<union> G) (U, s)" and c: "c \<in> A" "c \<notin> L" "getRoomID c s = R"
    and st: "unity_step g visit F {c} (L, G, U, s) (L', G', U', s')"
  shows "\<exists>A'. unity_ok F L' A' (L' \<union> G') (U', s') \<and> c \<in> A' \<and> c \<notin> L' \<and> getRoomID c s' = R"
proof -
  note I = unity_okD [OF ok]
  have cB: "c \<in> L \<union> G" using c(1) I(8) by blast
  have room: "getRoomID c s' = R" if "props s' (ic_ref c) = props s (ic_ref c)"
    using that c(3) by (simp add: getRoomID_prop prop_at_def)
  from st show ?thesis
  proof (cases rule: unity_step.cases)
    case (us_connect d random now now1 now2)
    have d: "ic_ref c \<noteq> ic_ref d" "c \<noteq> d" using us_connect(3) cB by (auto simp: fresh_conn_def)
    have "unity_ok F L' (insert d A) (L' \<union> G') (U', s')"
      using inv_start [OF ok us_connect(3,4,5)] us_connect(1,2) by simp
    with d c us_connect(1) room [OF start_other [OF us_connect(5) d(1)]] show ?thesis by blast
  next
    case (us_request d ks msgID data)
    have d: "ic_ref c \<noteq> ic_ref d" using conns_live_eq [OF I(1) cB us_request(3)] us_request(4) by auto
    from inv_request [OF ok us_request(3,5)] obtain A' where "A \<subseteq> A'" "unity_ok F L A' (L \<union> G) (U', s')" by blast
    with c us_request(1,2) room [OF request_other [OF us_request(5) d]] show ?thesis by blast
  next
    case (us_disconnect d)
    have "L \<union> G = L' \<union> G'" "c \<noteq> d" using us_disconnect(1,2,3) c(2) by auto
    moreover have "props s' = props s" by (rule stop_result(2) [OF ok us_disconnect(3,4)])
    ultimately show ?thesis
      using inv_stop [OF ok us_disconnect(3,4)] us_disconnect(1) c room by (metis Diff_iff singletonD)
  next
    case us_connections
    have "ic_ref c \<in> dom s" using I(1) cB by (auto simp: conns_live_def)
    from room [OF us_connections(4) [OF this]] inv_connections [OF ok us_connections(4)] us_connections(1-3) c
    show ?thesis by blast
  qed
qed

lemma quiet_run:
  assumes "(unity_step g visit F {c})\<^sup>*\<^sup>* st st'" and "st = (L, G, U, s)" and "unity_ok F L A (L \<union> G) (U, s)"
    and "c \<in> A" "c \<notin> L" "getRoomID c s = R"
  shows "\<exists>L' G' U' s' A'. st' = (L', G', U', s') \<and> unity_ok F L' A' (L' \<union> G') (U', s') \<and> c \<in> A' \<and> c \<notin> L' \<and> getRoomID c s' = R"
  using assms(1)
proof (induction rule: rtranclp_induct)
  case base
  show ?case
    by (intro exI [of _ L] exI [of _ G] exI [of _ U] exI [of _ s] exI [of _ A] conjI) (rule assms(2-6))+
next
  case (step y z)
  then obtain L1 G1 U1 s1 A1 where y: "y = (L1, G1, U1, s1)" "unity_ok F L1 A1 (L1 \<union> G1) (U1, s1)"
      "c \<in> A1" "c \<notin> L1" "getRoomID c s1 = R" by blast
  obtain L' G' U' s' where z: "z = (L', G', U', s')" by (cases z) auto
  have "unity_step g visit F {c} (L1, G1, U1, s1) (L', G', U', s')" using step.hyps(2) unfolding y(1) z .
  from quiet_step [OF y(2-5) this] obtain A' where
    "unity_ok F L' A' (L' \<union> G') (U', s')" "c \<in> A'" "c \<notin> L'" "getRoomID c s' = R" by (elim exE conjE)
  with z show ?case
    by (intro exI [of _ L'] exI [of _ G'] exI [of _ U'] exI [of _ s'] exI [of _ A'] conjI)
qed

interpretation unity: invariant_system unity_init "unity_step g visit F quiet" "unity_inv F" for g visit F quiet
  using unity_inv_init unity_inv_step by unfold_locales

end
