(* ===== verification/UnityRun.thy ===== *)
theory UnityRun
  imports UnityServer
begin

text \<open>
  The properties of the server for Unity clients in its reachable states: who is in which room, whose players are in the
  world, what a disconnection leaves behind, whom a chat message names, and what happens to a request that is handled
  after the stop hook of its connection.
\<close>

section \<open>A run of the server\<close>

text \<open>One client connects with connection id 7, leaves the default room, and disconnects.\<close>

definition unity_demo_store :: unity_store where
  "unity_demo_store = [0 \<mapsto> newConnection DefaultConfig (\<lambda>x. x) 0 demo_socket 7 None]"

definition unity_demo_rooms :: "(u32 \<rightharpoonup> iconn) \<Rightarrow> RoomManager" where
  "unity_demo_rooms members = \<lparr> rg_rooms = [1 \<mapsto> 0], rg_heap = [0 \<mapsto> (NewRoom 1 100)\<lparr>rm_members := members\<rparr>], rg_next = 1 \<rparr>"

definition unity_demo_server :: UnityServer where
  "unity_demo_server = \<lparr> us_World = demo_world0, us_Rooms = unity_demo_rooms Map.empty,
     us_Sessions = projr (New ReplaceExisting), us_nextPlayerID = 1000 \<rparr>"

definition unity_demo_random :: bytes where "unity_demo_random = replicate 24 7"

abbreviation demo_unity_reach :: "iconn set \<times> iconn set \<times> unity_state \<Rightarrow> bool" where
  "demo_unity_reach \<equiv> reach unity_init (unity_step DefaultConfig sorted_list_of_set demo_fpu {})"

abbreviation demo_seven :: iconn where "demo_seven \<equiv> demo_iconn 0 7"

lemma unity_demo_new: "NewUnityServer = Inr unity_demo_server"
  by (simp add: NewUnityServer_def demo_world0_new CreateRoom_def NewRoomManager_def New_def RejectExisting_def
      ReplaceExisting_def unity_demo_server_def unity_demo_rooms_def NewRoom_def)

lemma announce_returns:
  assumes "nearbyPlayersLocked visit (uwp_ConnID player) (us_World U) = Some n"
  obtains s' where "announcePlayer g visit c player old (U, s) = Some (U, s')" "props s' = props s"
proof -
  have "\<exists>s'. announcePlayer g visit c player old (U, s) = Some (U, s')"
    using assms by (auto simp: announcePlayer_def Let_def BroadcastVisible_def split: prod.splits option.splits)
  with that announce_effect show ?thesis by blast
qed

lemma demo_issue:
  obtains m v where
    "Issue (us_Sessions unity_demo_server) (unityAccount 7) 1001 oneDay (Inr unity_demo_random) 1 = (Inr (v, None), m)"
    "ses_PlayerID v = 1001" "\<exists>b m'. Bind m (ses_Token v) 7 2 3 = (Inr b, m')"
proof -
  let ?m = "us_Sessions unity_demo_server" and ?t = "hexEncode unity_demo_random"
  let ?v = "fresh_session ?t (unityAccount 7) 1001 oneDay 1"
  have m: "New ReplaceExisting = Inr ?m"
    by (simp add: unity_demo_server_def New_def RejectExisting_def ReplaceExisting_def)
  note inv = session_inv_New [OF m]
  have empty: "sm_byToken ?m = Map.empty" "sm_byAccountID ?m = Map.empty" "sm_byConnID ?m = Map.empty" "sm_accountPolicy ?m = 1" "sm_legacy ?m = None"
    by (simp_all add: unity_demo_server_def New_def RejectExisting_def ReplaceExisting_def)
  have issue: "Issue ?m (unityAccount 7) 1001 oneDay (Inr unity_demo_random) 1 = (Inr (?v, None), put_session ?v ?m)"
    unfolding Issue_cases [OF inv]
    by (simp add: empty createToken_def session_of_account_def drop_account_def observeLegacyID_def put_session_def
        unityAccount_def oneDay_def RejectExisting_def)
  have "\<exists>b m'. Bind (put_session ?v ?m) (ses_Token ?v) 7 2 3 = (Inr b, m')"
    by (simp add: Bind_def Let_def put_session_def empty expired_def oneDay_def)
  then show ?thesis using that issue by simp
qed

lemma unity_reach_ok:
  assumes "reach unity_init (unity_step g visit F {}) (L, G, U, s)"
  obtains A where "unity_ok F L A (L \<union> G) (U, s)"
  using unity_inv_ok [OF unity.reach_inv [OF assms]] .

lemma demo_connected:
  obtains U s where "demo_unity_reach ({demo_seven}, {}, U, s)" "us_World U = demo_join 1001 demo_seven demo_world0"
    "us_Rooms U = unity_demo_rooms [7 \<mapsto> demo_seven]" "getRoomID demo_seven s = 1"
proof -
  let ?c = demo_seven and ?w = "demo_join 1001 demo_seven demo_world0" and ?visit = "sorted_list_of_set :: u32 set \<Rightarrow> u32 list"
  have start: "demo_unity_reach ({}, {}, unity_demo_server, unity_demo_store)"
    by (rule reach_init) (simp add: unity_init_def unity_demo_new)
  obtain m v where issue: "Issue (us_Sessions unity_demo_server) (unityAccount 7) 1001 oneDay (Inr unity_demo_random) 1 = (Inr (v, None), m)"
      "ses_PlayerID v = 1001" and "\<exists>b m'. Bind m (ses_Token v) 7 2 3 = (Inr b, m')"
    by (rule demo_issue)
  then obtain b m' where bind: "Bind m (ses_Token v) 7 2 3 = (Inr b, m')" by blast
  obtain A where okA: "unity_ok demo_fpu {} A ({} \<union> {}) (unity_demo_server, unity_demo_store)" by (rule unity_reach_ok [OF start])
  have inv0: "world_inv demo_fpu demo_world0" "inner_grid demo_fpu (uw_aoi demo_world0)"
    using unity_okD(3) [OF okA] inner_grid_finite [OF demo_round_ok demo_finite_grid]
    by (simp_all add: demo_world0_def unity_demo_server_def)
  obtain nearby where add: "AddPlayerWithPID ?visit demo_fpu (Some ?c) 1001 (Some demo_world0) = Some (Inr (demo_player 1001 ?c, nearby), Some ?w)"
      and inv1: "world_inv demo_fpu ?w" "inner_grid demo_fpu (uw_aoi ?w)"
    using AddPlayerWithPID_succeeds [OF demo_visits inv0, of ?c 1001] demo_origin_cell
    by (auto simp: demo_world0_def demo_origin demo_join_def demo_player_def)
  obtain n where near: "nearbyPlayersLocked ?visit 7 ?w = Some n"
    using nearbyPlayers_roster [OF demo_visits inv1] by blast
  define s3 where "s3 = storeSetProperty ''PlayerID'' (PropU64 1001) ?c (storeSetProperty ''SessionToken'' (PropString (ses_Token v)) ?c
      (storeSetProperty ''AccountID'' (PropString (ses_AccountID v)) ?c unity_demo_store))"
  define U3 where "U3 = unity_demo_server\<lparr>us_nextPlayerID := 1001, us_Sessions := m', us_World := ?w\<rparr>"
  define s4 where "s4 = storeSetProperty ''RoomID'' (PropU32 1) ?c s3"
  define U4 where "U4 = U3\<lparr>us_Rooms := unity_demo_rooms [7 \<mapsto> ?c]\<rparr>"
  have room: "enterDefaultRoom ?c (U3, s3) = (U4, s4)"
    by (simp add: enterDefaultRoom_def U3_def U4_def s4_def unity_demo_server_def unity_demo_rooms_def GetRoom_def
        roomDo_def Join_def NewRoom_def demo_iconn_def)
  have "nearbyPlayersLocked ?visit (uwp_ConnID (demo_player 1001 ?c)) (us_World U4) = Some n"
    using near by (simp add: U4_def U3_def demo_player_def demo_iconn_def)
  from announce_returns [OF this, of DefaultConfig ?c nearby s4] obtain s5 where
    ann: "announcePlayer DefaultConfig ?visit ?c (demo_player 1001 ?c) nearby (U4, s4) = Some (U4, s5)" "props s5 = props s4" .
  have run: "OnConnStart DefaultConfig ?visit demo_fpu (Inr unity_demo_random) 1 2 3 ?c (unity_demo_server, unity_demo_store) = Some (U4, s5)"
    using issue bind add room ann(1)
    by (simp add: OnConnStart_def demo_iconn_def unity_demo_server_def U3_def s3_def)
  have "fresh_conn ({} \<union> {}) unity_demo_store ?c"
    by (simp add: fresh_conn_def unity_demo_store_def demo_iconn_def newConnection_def DefaultConfig_def)
  moreover have "sm_byToken (us_Sessions unity_demo_server) t = None" for t
    by (simp add: unity_demo_server_def New_def RejectExisting_def ReplaceExisting_def)
  ultimately have "demo_unity_reach ({?c}, {}, U4, s5)"
    using reach_step [OF start us_connect [OF _ _ run]] by simp
  moreover have "s3 (ic_ref ?c) \<noteq> None"
    by (simp add: s3_def storeSetProperty_def unity_demo_store_def demo_iconn_def)
  then have "getRoomID ?c s5 = 1" using getRoomID_cong [OF ann(2), of ?c] getRoomID_set(1) [of s3 ?c 1] by (simp add: s4_def)
  ultimately show ?thesis using that [of U4 s5] by (simp add: U4_def U3_def)
qed

lemma demo_left:
  obtains U s where "demo_unity_reach ({demo_seven}, {}, U, s)" "us_World U = demo_join 1001 demo_seven demo_world0"
    "us_Rooms U = unity_demo_rooms Map.empty" "getRoomID demo_seven s = 0"
proof -
  let ?c = demo_seven
  obtain U s where st: "demo_unity_reach ({?c}, {}, U, s)" and w: "us_World U = demo_join 1001 ?c demo_world0"
    and rooms: "us_Rooms U = unity_demo_rooms [7 \<mapsto> ?c]" and room: "getRoomID ?c s = 1" by (rule demo_connected)
  obtain U' s' where run: "UnityLeaveRoomHandle DefaultConfig ?c (U, s) = (U', s')" by fastforce
  obtain A where "unity_ok demo_fpu {?c} A ({?c} \<union> {}) (U, s)" by (rule unity_reach_ok [OF st])
  note I = unity_okD [OF this]
  have cA: "?c \<in> A" using I(7) by simp
  have "unityHandle DefaultConfig sorted_list_of_set demo_fpu [] UnityMsgLeaveRoom ?c [] (U, s) = Some (U', s')"
    using run by (simp add: unityHandle_def unity_msg_defs)
  then have "demo_unity_reach ({?c}, {}, U', s')" by (intro reach_step [OF st us_request]) simp_all
  moreover have "us_World U' = us_World U" "getRoomID ?c s' = 0"
    using leave_room_ok [OF I(2,9) cA run] by (simp_all add: room_only_def)
  moreover have "us_Rooms U' = unity_demo_rooms Map.empty"
    using run room rooms by (auto simp: UnityLeaveRoomHandle_def Let_def GetRoom_def unity_demo_rooms_def roomDo_def
        Leave_def demo_iconn_def)
  ultimately show ?thesis using that w by simp
qed

lemma demo_stop:
  assumes st: "demo_unity_reach ({demo_seven}, {}, U, s)" and w: "us_World U = demo_join 1001 demo_seven demo_world0"
  obtains U' s' where "OnConnStop DefaultConfig sorted_list_of_set demo_seven (U, s) = Some (U', s')"
proof -
  have inv: "world_inv demo_fpu (us_World U)" by (rule unity_reach_ok [OF st]) (rule unity_okD(3))
  have "inner_grid demo_fpu (uw_aoi (us_World U))"
  proof (rule inner_grid_cellFor)
    show "inner_grid demo_fpu demo_grid" by (rule inner_grid_finite [OF demo_round_ok demo_finite_grid])
    show "cellFor demo_fpu p (uw_aoi (us_World U)) = cellFor demo_fpu p demo_grid" for p
      unfolding w using demo_origin_cell
      by (simp add: demo_join_def demo_world0_def demo_origin AddEntity_def demo_iconn_def)
  qed
  then obtain n where "nearbyPlayersLocked sorted_list_of_set (ic_connID demo_seven) (us_World U) = Some n"
    using nearbyPlayers_roster [OF demo_visits inv] by blast
  then have "\<exists>U' s'. OnConnStop DefaultConfig sorted_list_of_set demo_seven (U, s) = Some (U', s')"
    by (auto simp: OnConnStop_def Let_def RemovePlayerWithVisibility_def split: option.splits prod.splits)
  with that show ?thesis by blast
qed

section \<open>A join that comes late\<close>

lemma late_join_joins:
  assumes ok: "rooms_ok A (us_Rooms U) s" and live: "conns_live B s" and c: "c \<in> B" "c \<notin> A" "A \<subseteq> B"
    and zero: "getRoomID c s = 0"
    and "UnmarshalRoomRequest data (Some \<lparr> urq_RoomID = 0 \<rparr>) = (None, Some rq)"
    and room: "GetRoom (urq_RoomID rq) (us_Rooms U) = Inr room" "rg_heap (us_Rooms U) room = Some r"
    and "fst (Join (Some c) r) = None" and run: "UnityJoinRoomHandle g c data (U, s) = (U', s')"
  shows "rooms_ok (insert c A) (us_Rooms U') s' \<and> getRoomID c s' = urq_RoomID rq"
proof -
  obtain r' where f: "Join (Some c) r = (None, r')" using assms(10) by (cases "Join (Some c) r") simp
  have at: "s (ic_ref c) \<noteq> None" by (rule conns_live_at [OF live c(1)])
  have Q: "urq_RoomID rq \<noteq> 0"
    using room(1) rooms_okD(2) [OF ok] by (auto simp: GetRoom_def split: option.splits)
  from ok room(1) show ?thesis
  proof (cases rule: join_effect [where c = c])
    case (refused err)
    then show ?thesis using f room(2) by (simp add: roomDo_def)
  next
    case (joined rg')
    have dec: "apsnd Some (decodeUnityFields data roomRequestField \<lparr> urq_RoomID = 0 \<rparr>) = (None, Some rq)"
      using assms(7) by simp
    have U': "U' = U\<lparr>us_Rooms := rg'\<rparr>" and s': "props s' = props (storeSetProperty ''RoomID'' (PropU32 (urq_RoomID rq)) c s)"
      using run dec room(1) joined(1) zero Q by (auto simp: UnityJoinRoomHandle_def finishJoin_def Let_def)
    have new: "getRoomID c s' = urq_RoomID rq" using getRoomID_cong [OF s'] getRoomID_set(1) [of s c] at by simp
    have "rooms_ok (insert c A) rg' s'"
    proof (rule rooms_ok_insert [OF ok live c joined(2) _ Q joined(5) new])
      show "rg_rooms rg' 0 = None" using joined(3) rooms_okD(2) [OF ok] by simp
      show "getRoomID d s' = getRoomID d s" if "d \<in> A" for d
        using getRoomID_cong [OF s', of d] getRoomID_other(1) [of s c d] at conns_live_eq [OF live _ c(1), of d] c(2,3) that
        by auto
    qed
    with U' new show ?thesis by simp
  qed
qed

section \<open>Consistency\<close>

text \<open>C33: In every reachable state of the Unity server, also when requests are handled after the stop hook of their
  connection, a live connection is a member of the room its property \<open>RoomID\<close> names and of no other; whoever else
  is a member of a room is a connection that is gone, and a member of the room its property names only; every player
  of the world belongs to a live connection, carries the player id of the session bound to that connection, and the
  connection's property says the same; every session is bound to a live connection, so none is left of one
  that is gone.\<close>

theorem unity_server_consistent:
  assumes "reach unity_init (unity_step g visit F {}) (L, G, U, s)"
  shows "(\<forall>c \<in> L. \<forall>R. members_of (us_Rooms U) R (ic_connID c) = (if R \<noteq> 0 \<and> R = getRoomID c s then Some c else None))
    \<and> (\<forall>R k c. members_of (us_Rooms U) R k = Some c \<longrightarrow> c \<in> L \<union> G \<and> ic_connID c = k \<and> R \<noteq> 0 \<and> getRoomID c s = R)
    \<and> (\<forall>k p. GetPlayer k (Some (us_World U)) = Inr p \<longrightarrow> uwp_Connection p \<in> L \<and> ic_connID (uwp_Connection p) = k
         \<and> getPlayerID (uwp_Connection p) s = uwp_PID p
         \<and> (\<exists>v \<in> ran (sm_byToken (us_Sessions U)). ses_Bound v \<and> ses_ConnID v = k \<and> ucast (ses_PlayerID v) = uwp_PID p))
    \<and> (\<forall>v \<in> ran (sm_byToken (us_Sessions U)). ses_Bound v \<and> (\<exists>c \<in> L. ic_connID c = ses_ConnID v))"
proof -
  obtain A where "unity_ok F L A (L \<union> G) (U, s)" by (rule unity_reach_ok [OF assms])
  note I = unity_okD [OF this]
  have "uwp_Connection p \<in> L \<and> ic_connID (uwp_Connection p) = k \<and> getPlayerID (uwp_Connection p) s = uwp_PID p
         \<and> (\<exists>v \<in> ran (sm_byToken (us_Sessions U)). ses_Bound v \<and> ses_ConnID v = k \<and> ucast (ses_PlayerID v) = uwp_PID p)"
    if "GetPlayer k (Some (us_World U)) = Inr p" for k p
  proof -
    have p: "uw_players (us_World U) k = Some p" using that by (simp add: GetPlayer_def split: option.splits)
    then obtain t v where tv: "uwp_Connection p \<in> L" "sm_byToken (us_Sessions U) t = Some v" "ses_ConnID v = k"
        "uwp_PID p = ucast (ses_PlayerID v)" "prop_at s (uwp_Connection p) ''PlayerID'' = Some (PropU64 (ses_PlayerID v))"
      using I(6) unfolding players_live_def by blast
    moreover have "ses_Bound v" using I(5) tv(2) unfolding sessions_live_def by blast
    moreover have "getPlayerID (uwp_Connection p) s = ucast (ses_PlayerID v)"
      using tv(5) by (auto simp: getPlayerID_def storeGetProperty_def GetProperty_def prop_at_def props_def
          split: option.splits)
    moreover have "ic_connID (uwp_Connection p) = k" using world_invD(2) [OF I(3)] p by (simp add: players_ok_def)
    ultimately show ?thesis by (auto simp: ran_def)
  qed
  moreover have "ses_Bound v \<and> (\<exists>c \<in> L. ic_connID c = ses_ConnID v)" if "v \<in> ran (sm_byToken (us_Sessions U))" for v
    using I(5) that unfolding sessions_live_def ran_def by blast
  moreover have "members_of (us_Rooms U) R (ic_connID c) = (if R \<noteq> 0 \<and> R = getRoomID c s then Some c else None)"
    if "c \<in> L" for R c
    by (rule member_only_there [OF I(2) subsetD [OF I(7) that] I(9)])
  moreover have "c \<in> L \<union> G \<and> ic_connID c = k \<and> R \<noteq> 0 \<and> getRoomID c s = R" if "members_of (us_Rooms U) R k = Some c" for R k c
    using rooms_okD(3) [OF I(2), of R k c] that I(8) by auto
  ultimately show ?thesis by blast
qed

theorem unity_server_consistent_witness:
  "\<exists>(U :: UnityServer) s. members_of (us_Rooms U) 1 7 = Some demo_seven \<and> getRoomID demo_seven s = 1 \<and> getPlayerID demo_seven s = 1001"
proof -
  obtain U s where st: "demo_unity_reach ({demo_seven}, {}, U, s)" and w: "us_World U = demo_join 1001 demo_seven demo_world0"
    and room: "getRoomID demo_seven s = 1" by (rule demo_connected)
  have p: "GetPlayer 7 (Some (us_World U)) = Inr (demo_player 1001 demo_seven)"
    by (simp add: GetPlayer_def w demo_join_def demo_world0_def demo_iconn_def)
  have "members_of (us_Rooms U) 1 7 = Some demo_seven"
    using unity_server_consistent [OF st, THEN conjunct1, rule_format, of demo_seven 1] room by (simp add: demo_iconn_def)
  moreover have "getPlayerID demo_seven s = 1001"
    using unity_server_consistent [OF st, THEN conjunct2, THEN conjunct2, THEN conjunct1, rule_format, OF p] by (simp add: demo_player_def)
  ultimately show ?thesis using room by blast
qed

section \<open>Rooms\<close>

text \<open>a request to join a room either changes no membership at all, or it names a room and moves its
  connection there: afterwards the connection is a member of that room and of no other, and everybody else is where he was.\<close>

theorem unity_join_all_or_nothing:
  assumes "reach unity_init (unity_step g visit F {}) (L, G, U, s)" and "c \<in> L"
    and "UnityJoinRoomHandle g' c data (U, s) = (U', s')"
  shows "members_of (us_Rooms U') = members_of (us_Rooms U) \<and> getRoomID c s' = getRoomID c s
    \<or> (\<exists>rq. UnmarshalRoomRequest data (Some \<lparr> urq_RoomID = 0 \<rparr>) = (None, Some rq) \<and> getRoomID c s' = urq_RoomID rq
         \<and> members_of (us_Rooms U') = (\<lambda>R k. if k = ic_connID c then (if R = urq_RoomID rq then Some c else None)
              else members_of (us_Rooms U) R k))"
proof -
  obtain A where "unity_ok F L A (L \<union> G) (U, s)" by (rule unity_reach_ok [OF assms(1)])
  note I = unity_okD [OF this]
  have cA: "c \<in> A" using I(7) assms(2) by blast
  note J = join_room_ok [OF I(2,9) cA assms(3)]
  consider "us_Rooms U' = us_Rooms U" "props s' = props s"
    | rq where "UnmarshalRoomRequest data (Some \<lparr> urq_RoomID = 0 \<rparr>) = (None, Some rq)" "getRoomID c s' = urq_RoomID rq"
        "urq_RoomID rq \<noteq> 0" "\<forall>d \<in> A. d \<noteq> c \<longrightarrow> getRoomID d s' = getRoomID d s"
    using J by (elim conjE disjE exE) blast+
  then show ?thesis
  proof cases
    case 1
    then show ?thesis using getRoomID_cong [of s' s c] by simp
  next
    case (2 rq)
    have ok': "rooms_ok A (us_Rooms U') s'" and only: "room_only (U, s) (U', s')" using J by blast+
    have live': "conns_live A s'" using conns_live_dom [OF I(9), of s'] only by (simp add: room_only_def)
    have "members_of (us_Rooms U') R k = members_of (us_Rooms U) R k" if k: "k \<noteq> ic_connID c" for R k
    proof -
      have "members_of (us_Rooms U') R k = Some d \<longleftrightarrow> members_of (us_Rooms U) R k = Some d" for d
        using rooms_okD(3) [OF ok', of R k d] rooms_okD(3) [OF I(2), of R k d] 2(4) k by auto
      then show ?thesis by (metis option.exhaust)
    qed
    moreover have "members_of (us_Rooms U') R (ic_connID c) = (if R = urq_RoomID rq then Some c else None)" for R
      using member_only_there [OF ok' cA live', of R] 2(2,3) by auto
    ultimately show ?thesis using 2(1,2) by (auto simp: fun_eq_iff)
  qed
qed

theorem unity_join_all_or_nothing_witness:
  "\<exists>U s U' s'. UnityJoinRoomHandle DefaultConfig demo_seven [8, 1] (U, s) = (U', s') \<and> getRoomID demo_seven s = 0
    \<and> (members_of (us_Rooms U') = members_of (us_Rooms U) \<and> getRoomID demo_seven s' = 0
       \<or> getRoomID demo_seven s' = 1 \<and> members_of (us_Rooms U') 1 7 = Some demo_seven)"
proof -
  obtain U s where st: "demo_unity_reach ({demo_seven}, {}, U, s)" and room: "getRoomID demo_seven s = 0" by (rule demo_left)
  obtain U' s' where run: "UnityJoinRoomHandle DefaultConfig demo_seven [8, 1] (U, s) = (U', s')" by fastforce
  have dec: "UnmarshalRoomRequest [8, 1] (Some \<lparr> urq_RoomID = 0 \<rparr>) = (None, Some \<lparr> urq_RoomID = 1 \<rparr>)" by code_simp
  show ?thesis
    using unity_join_all_or_nothing [OF st _ run] run room unfolding dec by (fastforce simp: demo_iconn_def)
qed

section \<open>Disconnection\<close>

text \<open>C34: the stop hook of a connection leaves nothing of it behind: it is in no room, has no player in the world and no
  session; the rooms, players and sessions of all other connections are as before.\<close>

theorem unity_disconnect_clean:
  assumes "reach unity_init (unity_step g visit F {}) (L, G, U, s)" and "c \<in> L"
    and "OnConnStop g visit c (U, s) = Some (U', s')"
  shows "members_of (us_Rooms U') = (\<lambda>R k. if k = ic_connID c then None else members_of (us_Rooms U) R k)
    \<and> uw_players (us_World U') = (uw_players (us_World U))(ic_connID c := None)
    \<and> ran (sm_byToken (us_Sessions U')) = {v \<in> ran (sm_byToken (us_Sessions U)). ses_ConnID v \<noteq> ic_connID c}"
proof -
  obtain A where inv: "unity_ok F L A (L \<union> G) (U, s)" by (rule unity_reach_ok [OF assms(1)])
  note I = unity_okD [OF inv] and R = stop_result [OF inv assms(2,3)]
  have bound: "ses_Bound v" if "sm_byToken (us_Sessions U) t = Some v" for t v
    using I(5) that unfolding sessions_live_def by blast
  have "sm_byToken (us_Sessions U') t = Some v
      \<longleftrightarrow> sm_byToken (us_Sessions U) t = Some v \<and> ses_ConnID v \<noteq> ic_connID c" for t v
    unfolding R(6) Logout_gone [OF I(4)] using bound [of t] by (auto split: option.splits)
  then have "ran (sm_byToken (us_Sessions U')) = {v \<in> ran (sm_byToken (us_Sessions U)). ses_ConnID v \<noteq> ic_connID c}"
    by (auto simp: ran_def)
  with R(3,5) show ?thesis by blast
qed

theorem unity_disconnect_clean_witness:
  "\<exists>U s (U' :: UnityServer) s'. OnConnStop DefaultConfig sorted_list_of_set demo_seven (U, s) = Some (U', s')
    \<and> members_of (us_Rooms U) 1 7 = Some demo_seven \<and> members_of (us_Rooms U') 1 7 = None
    \<and> uw_players (us_World U) 7 \<noteq> None \<and> uw_players (us_World U') 7 = None"
proof -
  obtain U s where st: "demo_unity_reach ({demo_seven}, {}, U, s)" and w: "us_World U = demo_join 1001 demo_seven demo_world0"
    and rooms: "us_Rooms U = unity_demo_rooms [7 \<mapsto> demo_seven]" by (rule demo_connected)
  obtain U' s' where run: "OnConnStop DefaultConfig sorted_list_of_set demo_seven (U, s) = Some (U', s')"
    by (rule demo_stop [OF st w])
  have "members_of (us_Rooms U) 1 7 = Some demo_seven" "uw_players (us_World U) 7 \<noteq> None"
    by (simp_all add: rooms w members_of_def unity_demo_rooms_def demo_join_def demo_iconn_def)
  moreover have "members_of (us_Rooms U') 1 7 = None" "uw_players (us_World U') 7 = None"
    using unity_disconnect_clean [OF st _ run] by (simp_all add: demo_iconn_def)
  ultimately show ?thesis using run by blast
qed

text \<open>C35: a request that waits in a worker queue is handled also when the stop hook of its connection has run already. What a
  join request does then depends on where the connection was. When it was in a room, its property still names the
  room, and the join is refused or taken back: no membership changes. When it was in no room and the room takes it,
  the closed connection becomes a member of the room and stays one, whatever happens in the server, until another
  request of its own is handled: no hook removes it.\<close>

theorem unity_late_join_stays:
  assumes "reach unity_init (unity_step g visit F {}) (L, G, U, s)" and "c \<in> L"
    and "OnConnStop g visit c (U, s) = Some (U', s')"
    and "UnmarshalRoomRequest data (Some \<lparr> urq_RoomID = 0 \<rparr>) = (None, Some rq)"
    and "GetRoom (urq_RoomID rq) (us_Rooms U') = Inr room" and "rg_heap (us_Rooms U') room = Some r"
    and "fst (Join (Some c) r) = None" and "UnityJoinRoomHandle g c data (U', s') = (U'', s'')"
  shows "(getRoomID c s \<noteq> 0 \<longrightarrow> members_of (us_Rooms U'') = members_of (us_Rooms U')) \<and>
    (getRoomID c s = 0 \<longrightarrow>
       reach unity_init (unity_step g visit F {}) (L - {c}, insert c G, U'', s'') \<and>
       (\<forall>L3 G3 U3 s3. (unity_step g visit F {c})\<^sup>*\<^sup>* (L - {c}, insert c G, U'', s'') (L3, G3, U3, s3) \<longrightarrow>
          c \<notin> L3 \<and> members_of (us_Rooms U3) (urq_RoomID rq) (ic_connID c) = Some c))"
proof -
  obtain A where inv: "unity_ok F L A (L \<union> G) (U, s)" by (rule unity_reach_ok [OF assms(1)])
  note I = unity_okD [OF inv] and R = stop_result [OF inv assms(2,3)]
  let ?A = "A - {c}" and ?L = "L - {c}" and ?B = "L \<union> G" and ?Q = "urq_RoomID rq"
  have cA: "c \<in> A" "c \<in> ?B" "c \<notin> ?A" using I(7) assms(2) by auto
  have B: "?B = ?L \<union> insert c G" using assms(2) by blast
  have inv': "unity_ok F ?L ?A ?B (U', s')" by (rule inv_stop [OF inv assms(2,3)])
  note I' = unity_okD [OF inv']
  have same: "getRoomID c s' = getRoomID c s" using getRoomID_cong [OF R(2)] .
  note late = late_join_ok [OF I'(2,1) cA(2,3) I'(8) assms(8)]
  have "members_of (us_Rooms U'') = members_of (us_Rooms U')" if zero: "getRoomID c s \<noteq> 0"
  proof -
    have "members_of (us_Rooms U) (getRoomID c s) (ic_connID c) = Some c"
      using member_only_there [OF I(2) cA(1) I(9)] zero by simp
    then have "rg_rooms (us_Rooms U') (getRoomID c s') \<noteq> None"
      unfolding R(7) same by (auto simp: members_of_def split: option.splits)
    with late zero same show ?thesis by simp
  qed
  moreover have "reach unity_init (unity_step g visit F {}) (?L, insert c G, U'', s'') \<and>
       (\<forall>L3 G3 U3 s3. (unity_step g visit F {c})\<^sup>*\<^sup>* (?L, insert c G, U'', s'') (L3, G3, U3, s3) \<longrightarrow>
          c \<notin> L3 \<and> members_of (us_Rooms U3) ?Q (ic_connID c) = Some c)" if zero: "getRoomID c s = 0"
  proof (intro conjI allI impI)
    have stopped: "reach unity_init (unity_step g visit F {}) (?L, insert c G, U', s')"
      by (rule reach_step [OF assms(1) us_disconnect [OF assms(2,3)]])
    have "unityHandle g visit F [] UnityMsgJoinRoom c data (U', s') = Some (U'', s'')"
      using assms(8) by (simp add: unityHandle_def unity_msg_defs)
    then show "reach unity_init (unity_step g visit F {}) (?L, insert c G, U'', s'')"
      by (intro reach_step [OF stopped us_request]) simp_all
    have Q: "?Q \<noteq> 0" using assms(5) rooms_okD(2) [OF I'(2)] by (auto simp: GetRoom_def split: option.splits)
    have ok: "rooms_ok (insert c ?A) (us_Rooms U'') s''" and room: "getRoomID c s'' = ?Q"
      using late_join_joins [OF I'(2,1) cA(2,3) I'(8) _ assms(4,5,6,7,8)] same zero by auto
    have "room_only (U', s') (U'', s'')" using late by blast
    moreover have "insert c ?A \<subseteq> ?B" using cA(2) I'(8) by blast
    ultimately have "unity_ok F ?L (insert c ?A) ?B (U'', s'')"
      using inv_room_grow [OF inv' ok _ subset_insertI] by blast
    then have inv'': "unity_ok F ?L (insert c ?A) (?L \<union> insert c G) (U'', s'')" unfolding B .
    fix L3 G3 U3 s3 assume "(unity_step g visit F {c})\<^sup>*\<^sup>* (?L, insert c G, U'', s'') (L3, G3, U3, s3)"
    from quiet_run [OF this refl inv'' _ _ room] obtain A3 where
      end3: "unity_ok F L3 A3 (L3 \<union> G3) (U3, s3)" "c \<in> A3" "c \<notin> L3" "getRoomID c s3 = ?Q" by auto
    show "c \<notin> L3" by (rule end3(3))
    show "members_of (us_Rooms U3) ?Q (ic_connID c) = Some c"
      using rooms_okD(3) [OF unity_okD(2) [OF end3(1)], of ?Q "ic_connID c" c] end3(2,4) Q by simp
  qed
  ultimately show ?thesis by blast
qed

theorem unity_late_join_stays_witness:
  "\<exists>U s U' s' U'' s''. OnConnStop DefaultConfig sorted_list_of_set demo_seven (U, s) = Some (U', s')
    \<and> UnityJoinRoomHandle DefaultConfig demo_seven [8, 1] (U', s') = (U'', s'')
    \<and> members_of (us_Rooms U'') 1 7 = Some demo_seven"
proof -
  obtain U s where st: "demo_unity_reach ({demo_seven}, {}, U, s)" and w: "us_World U = demo_join 1001 demo_seven demo_world0"
    and rooms: "us_Rooms U = unity_demo_rooms Map.empty" and room: "getRoomID demo_seven s = 0" by (rule demo_left)
  obtain U' s' where run: "OnConnStop DefaultConfig sorted_list_of_set demo_seven (U, s) = Some (U', s')"
    by (rule demo_stop [OF st w])
  obtain U'' s'' where late: "UnityJoinRoomHandle DefaultConfig demo_seven [8, 1] (U', s') = (U'', s'')" by fastforce
  have dec: "UnmarshalRoomRequest [8, 1] (Some \<lparr> urq_RoomID = 0 \<rparr>) = (None, Some \<lparr> urq_RoomID = 1 \<rparr>)" by code_simp
  have "us_Rooms U' = us_Rooms U"
  proof -
    obtain r world where "RemovePlayerWithVisibility sorted_list_of_set (ic_connID demo_seven) (Some (us_World U)) = Some (r, world)"
      using run room by (auto simp: OnConnStop_def Let_def Option.bind_eq_Some_conv)
    then show ?thesis using run room by (cases r) (auto simp: OnConnStop_def Let_def)
  qed
  then have "GetRoom (urq_RoomID \<lparr> urq_RoomID = 1 \<rparr>) (us_Rooms U') = Inr 0"
      "rg_heap (us_Rooms U') 0 = Some (NewRoom 1 100)" "fst (Join (Some demo_seven) (NewRoom 1 100)) = None"
    by (simp_all add: rooms unity_demo_rooms_def GetRoom_def NewRoom_def Join_def)
  from unity_late_join_stays [OF st _ run dec this late] room
  have "\<forall>L3 G3 U3 s3. (unity_step DefaultConfig sorted_list_of_set demo_fpu {demo_seven})\<^sup>*\<^sup>*
      ({demo_seven} - {demo_seven}, insert demo_seven {}, U'', s'') (L3, G3, U3, s3) \<longrightarrow>
      members_of (us_Rooms U3) 1 7 = Some demo_seven" by (simp add: demo_iconn_def)
  then have "members_of (us_Rooms U'') 1 7 = Some demo_seven" by blast
  with run late show ?thesis by blast
qed

section \<open>Chat\<close>

text \<open>a chat message is announced under the connection id of its sender. The player of that connection is
  known to the clients under another number, the player id of its session, which the connection's property holds.\<close>

theorem unity_chat_names_connection:
  assumes "reach unity_init (unity_step g visit F {}) (L, G, U, s)" and "GetPlayer (ic_connID c) (Some (us_World U)) = Inr p"
    and "c = uwp_Connection p" and "UnmarshalTalk data (Some \<lparr> ut_Content = [] \<rparr>) = (None, Some talk)"
    and "length (ut_Content talk) < 2 ^ 63"
  shows "\<exists>message. UnityChatHandle g ks c data (U, s) = (U, snd (WorldBroadcast g UnityMsgBroadCast message ks (Some (us_World U)) s))
    \<and> UnmarshalBroadCast message (Some fresh_broadcast)
        = (None, Some \<lparr> ub_PID = ic_connID c, ub_TP = 1, ub_Content = ut_Content talk, ub_P = None, ub_ActionData = 0 \<rparr>)
    \<and> uwp_PID p = getPlayerID c s"
proof -
  obtain A where "unity_ok F L A (L \<union> G) (U, s)" by (rule unity_reach_ok [OF assms(1)])
  note I = unity_okD [OF this]
  let ?m = "\<lparr> ub_PID = ic_connID c, ub_TP = 1, ub_Content = ut_Content talk, ub_P = None, ub_ActionData = 0 \<rparr>"
  obtain message where msg: "MarshalBroadCast ?m = Inr message" by (simp add: MarshalBroadCast_def Let_def)
  have "apsnd Some (decodeUnityFields data talkField \<lparr> ut_Content = [] \<rparr>) = (None, Some talk)" using assms(4) by simp
  then have "UnityChatHandle g ks c data (U, s) = (U, snd (WorldBroadcast g UnityMsgBroadCast message ks (Some (us_World U)) s))"
    using msg by (simp add: UnityChatHandle_def buildUnityBroadcast_def)
  moreover have "UnmarshalBroadCast message (Some fresh_broadcast) = (None, Some ?m)"
    by (rule broadcast_decode [OF _ msg]) (use assms(5) in \<open>simp_all add: fresh_broadcast_def\<close>)
  moreover have "uwp_PID p = getPlayerID c s"
  proof -
    have "uw_players (us_World U) (ic_connID c) = Some p" using assms(2) by (simp add: GetPlayer_def split: option.splits)
    then obtain v where "prop_at s c ''PlayerID'' = Some (PropU64 v)" "uwp_PID p = ucast v"
      using I(6) assms(3) unfolding players_live_def by blast
    then show ?thesis
      by (auto simp: getPlayerID_def storeGetProperty_def GetProperty_def prop_at_def props_def split: option.splits)
  qed
  ultimately show ?thesis by blast
qed

theorem unity_chat_names_connection_witness:
  "\<exists>U s message. UnityChatHandle DefaultConfig [7] demo_seven [10, 1, 65] (U, s)
        = (U, snd (WorldBroadcast DefaultConfig UnityMsgBroadCast message [7] (Some (us_World U)) s))
    \<and> UnmarshalBroadCast message (Some fresh_broadcast)
        = (None, Some \<lparr> ub_PID = 7, ub_TP = 1, ub_Content = [65], ub_P = None, ub_ActionData = 0 \<rparr>)
    \<and> getPlayerID demo_seven s = 1001"
proof -
  obtain U s where st: "demo_unity_reach ({demo_seven}, {}, U, s)" and w: "us_World U = demo_join 1001 demo_seven demo_world0"
    by (rule demo_connected)
  have p: "GetPlayer (ic_connID demo_seven) (Some (us_World U)) = Inr (demo_player 1001 demo_seven)"
    "demo_seven = uwp_Connection (demo_player 1001 demo_seven)"
    by (simp_all add: GetPlayer_def w demo_join_def demo_world0_def demo_iconn_def demo_player_def)
  have dec: "UnmarshalTalk [10, 1, 65] (Some \<lparr> ut_Content = [] \<rparr>) = (None, Some \<lparr> ut_Content = [65] \<rparr>)" by code_simp
  from unity_chat_names_connection [OF st p dec, of "[7]"] show ?thesis
    by (auto simp: demo_iconn_def demo_player_def)
qed

end
