(* ===== verification/Bridge.thy ===== *)
theory Bridge
  imports DataPack StepSystem "HOL-Library.Sublist"
begin

text \<open>
  The WebSocket bridge of \<open>wsbridge/bridge.go\<close>: every WebSocket of a browser is tied to a TCP connection to
  one fixed Ginx server. The configuration check, the admission of a request, the two forwarding loops of a
  tunnel and the closing of the bridge are one step system. What the outside does is the nondeterminism of the steps: dialling
  and upgrading may fail, \<open>ws.ReadMessage\<close> returns any message or an error, writes may fail, deadlines may
  pass at any time, and a call on a closed socket fails.
\<close>

section \<open>Options\<close>

record Options =
  op_Upstream :: string
  op_MaxPacketSize :: u32
  op_MaxConnections :: int
  op_IdleTimeout :: duration
  op_WriteTimeout :: duration
  op_AllowedOrigins :: "string list"

text \<open>The result of \<open>url.Parse\<close>, which is an argument of the operations; \<open>ul_User\<close> tells whether there is one.\<close>

record URL =
  ul_Scheme :: string
  ul_Host :: string
  ul_User :: bool
  ul_Path :: string
  ul_RawQuery :: string
  ul_Fragment :: string

type_synonym url_parse = "string \<Rightarrow> URL res"

text \<open>\<open>net.SplitHostPort\<close>.\<close>

definition IndexByte :: "char \<Rightarrow> string \<Rightarrow> nat option" where
  "IndexByte c s = (if c \<in> set s then Some (length (takeWhile (\<lambda>x. x \<noteq> c) s)) else None)"

definition LastIndexByte :: "char \<Rightarrow> string \<Rightarrow> nat option" where
  "LastIndexByte c s =
     (if c \<in> set s then Some (length s - 1 - length (takeWhile (\<lambda>x. x \<noteq> c) (rev s))) else None)"

definition addrErr :: "string \<Rightarrow> string \<Rightarrow> go_error" where
  "addrErr addr why = Err (if addr = [] then why else ''address '' @ addr @ '': '' @ why)"

definition splitBrackets :: "string \<Rightarrow> nat \<Rightarrow> (string \<times> nat \<times> nat) res" where
  "splitBrackets hostport i =
     (if hd hostport = CHR ''['' then
        (case IndexByte (CHR '']'') hostport of
           None \<Rightarrow> Inl (addrErr hostport ''missing ']' in address'')
         | Some en \<Rightarrow>
             if en + 1 = length hostport then Inl (addrErr hostport ''missing port in address'')
             else if en + 1 = i then Inr (slice 1 en hostport, 1, en + 1)
             else if hostport ! (en + 1) = CHR '':'' then Inl (addrErr hostport ''too many colons in address'')
             else Inl (addrErr hostport ''missing port in address''))
      else if IndexByte (CHR '':'') (take i hostport) \<noteq> None
           then Inl (addrErr hostport ''too many colons in address'')
           else Inr (take i hostport, 0, 0))"

definition SplitHostPort :: "string \<Rightarrow> (string \<times> string) res" where
  "SplitHostPort hostport =
     (case LastIndexByte (CHR '':'') hostport of
        None \<Rightarrow> Inl (addrErr hostport ''missing port in address'')
      | Some i \<Rightarrow>
          (case splitBrackets hostport i of
             Inl err \<Rightarrow> Inl err
           | Inr (host, j, k) \<Rightarrow>
               if IndexByte (CHR ''['') (drop j hostport) \<noteq> None
               then Inl (addrErr hostport ''unexpected '[' in address'')
               else if IndexByte (CHR '']'') (drop k hostport) \<noteq> None
               then Inl (addrErr hostport ''unexpected ']' in address'')
               else Inr (host, drop (i + 1) hostport)))"

section \<open>The bridge\<close>

text \<open>
  A cancel function of the map \<open>active\<close> is the number of the tunnel it cancels. The wait group is a counter.
\<close>

record Bridge =
  br_options :: Options
  br_pack :: DataPack
  br_origins :: "string set"
  br_closed :: bool
  br_next :: u64
  br_active :: "u64 \<rightharpoonup> nat"
  br_wg :: int

definition second :: duration where "second = 1000000000"

definition withDefaults :: "Options \<Rightarrow> Options" where
  "withDefaults opt =
     (let o1 = (if op_MaxPacketSize opt = 0 then opt\<lparr>op_MaxPacketSize := push_bit 10 64\<rparr> else opt);
          o2 = (if op_MaxConnections o1 = 0 then o1\<lparr>op_MaxConnections := 64\<rparr> else o1);
          o3 = (if op_IdleTimeout o2 = 0 then o2\<lparr>op_IdleTimeout := 20 * second\<rparr> else o2)
      in if op_WriteTimeout o3 = 0 then o3\<lparr>op_WriteTimeout := 3 * second\<rparr> else o3)"

definition exactOrigin :: "url_parse \<Rightarrow> string \<Rightarrow> bool" where
  "exactOrigin parse v =
     (case parse v of
        Inl err \<Rightarrow> False
      | Inr u \<Rightarrow> (ul_Scheme u = ''http'' \<or> ul_Scheme u = ''https'') \<and> ul_Host u \<noteq> [] \<and> \<not> ul_User u
          \<and> ul_Path u = [] \<and> ul_RawQuery u = [] \<and> ul_Fragment u = [])"

fun collectOrigins :: "url_parse \<Rightarrow> string list \<Rightarrow> string set \<Rightarrow> string set res" where
  "collectOrigins parse [] origins = Inr origins"
| "collectOrigins parse (v # vs) origins =
     (if exactOrigin parse v then collectOrigins parse vs (insert v origins)
      else Inl (Err ''origins must be exact http(s) origins''))"

definition NewBridge :: "url_parse \<Rightarrow> Options \<Rightarrow> Bridge res" where
  "NewBridge parse options0 =
     (case SplitHostPort (op_Upstream options0) of
        Inl err \<Rightarrow> Inl (Err ''upstream must be a fixed host:port'')
      | Inr _ \<Rightarrow>
          (let options = withDefaults options0
           in if op_MaxPacketSize options > push_bit 20 16 \<or> op_MaxConnections options < 1
                 \<or> op_IdleTimeout options < 0 \<or> op_WriteTimeout options < 0
              then Inl (Err ''invalid bridge limits'')
              else (case collectOrigins parse (op_AllowedOrigins options) {} of
                      Inl err \<Rightarrow> Inl err
                    | Inr origins \<Rightarrow>
                        Inr \<lparr> br_options = options, br_pack = NewDataPackWithLimit (op_MaxPacketSize options),
                              br_origins = origins, br_closed = False, br_next = 0, br_active = Map.empty,
                              br_wg = 0 \<rparr>)))"

section \<open>Requests\<close>

text \<open>What the bridge reads of a request; \<open>hr_upgrade\<close> is the answer of \<open>websocket.IsWebSocketUpgrade\<close>.\<close>

record http_request =
  hr_Method :: string
  hr_upgrade :: bool
  hr_Origin :: "string list"
  hr_TLS :: bool
  hr_Host :: string

definition CheckOrigin :: "url_parse \<Rightarrow> string set \<Rightarrow> http_request \<Rightarrow> bool" where
  "CheckOrigin parse origins r =
     (if length (hr_Origin r) \<noteq> 1 then False
      else
        let origin = hr_Origin r ! 0
        in if origin \<in> origins then True
           else (case parse origin of
                   Inl err \<Rightarrow> False
                 | Inr u \<Rightarrow> ul_Scheme u = (if hr_TLS r then ''https'' else ''http'') \<and> ul_Host u = hr_Host r
                     \<and> \<not> ul_User u \<and> ul_Path u = [] \<and> ul_RawQuery u = [] \<and> ul_Fragment u = []))"

text \<open>
  The first part of \<open>ServeHTTP\<close>, up to the registration of tunnel number \<open>n\<close>: the status of a refusal or
  the id under which the tunnel is registered.
\<close>

definition ServeAdmit :: "url_parse \<Rightarrow> http_request \<Rightarrow> nat \<Rightarrow> Bridge \<Rightarrow> (nat + u64) \<times> Bridge" where
  "ServeAdmit parse r n b =
     (if hr_Method r \<noteq> ''GET'' \<or> \<not> hr_upgrade r then (Inl 400, b)
      else if \<not> CheckOrigin parse (br_origins b) r then (Inl 403, b)
      else if br_closed b \<or> int (map_len (br_active b)) \<ge> op_MaxConnections (br_options b) then (Inl 503, b)
      else
        let ident = br_next b
        in (Inr ident,
            b\<lparr>br_next := br_next b + 1, br_active := (br_active b)(ident \<mapsto> n), br_wg := br_wg b + 1\<rparr>))"

text \<open>The deferred removal of a tunnel.\<close>

definition ServeLeave :: "u64 \<Rightarrow> Bridge \<Rightarrow> Bridge" where
  "ServeLeave ident b = b\<lparr>br_active := (br_active b)(ident := None), br_wg := br_wg b - 1\<rparr>"

section \<open>Tunnels\<close>

text \<open>
  Where the handler of a request stands: it dials, upgrades, waits for a message of the browser, writes it to the
  server, has closed both sockets and waits for the downstream goroutine, runs its last deferred calls, has
  returned. The downstream goroutine reads a message of the server or writes it to the browser.
\<close>

datatype phase = Dialing | Upgrading | UpRead | UpWrite bytes | Draining | Leaving | Returned

datatype down = DownNone | DownRead | DownWrite bytes | DownDone

text \<open>The function given to \<open>context.AfterFunc\<close>: not registered or stopped, waiting, started.\<close>

datatype hook = HookOff | HookArmed | HookFired

text \<open>
  \<open>tn_upAll\<close>, \<open>tn_received\<close> and \<open>tn_sent\<close> are for the statements only: all bytes the server sends on the
  connection, the messages that \<open>ws.ReadMessage\<close> returned, and those that were written to the server completely.
\<close>

record tunnel =
  tn_id :: u64
  tn_phase :: phase
  tn_down :: down
  tn_cancelled :: bool
  tn_hook :: hook
  tn_upOpen :: bool
  tn_wsOpen :: bool
  tn_upIn :: reader
  tn_upOut :: bytes
  tn_wsOut :: "bytes list"
  tn_status :: "nat option"
  tn_closeCode :: "nat option"
  tn_upAll :: bytes
  tn_received :: "(int \<times> bytes) list"
  tn_sent :: "bytes list"

definition newTunnel :: "u64 \<Rightarrow> tunnel" where
  "newTunnel ident = \<lparr> tn_id = ident, tn_phase = Dialing, tn_down = DownNone, tn_cancelled = False,
     tn_hook = HookOff, tn_upOpen = False, tn_wsOpen = False, tn_upIn = \<lparr> rd_chunks = [], rd_err = io_EOF \<rparr>,
     tn_upOut = [], tn_wsOut = [], tn_status = None, tn_closeCode = None, tn_upAll = [], tn_received = [], tn_sent = [] \<rparr>"

text \<open>The result of \<open>DialContext\<close>: a connection, whose inbound stream is \<open>r\<close>, or an error.\<close>

definition dial :: "reader res \<Rightarrow> tunnel \<Rightarrow> tunnel" where
  "dial result t =
     (case result of
        Inl err \<Rightarrow> t\<lparr>tn_status := Some 502, tn_phase := Leaving\<rparr>
      | Inr r \<Rightarrow> t\<lparr>tn_upOpen := True, tn_upIn := r, tn_upAll := rd_bytes r, tn_phase := Upgrading\<rparr>)"

text \<open>The result of \<open>Upgrade\<close>; the \<open>AfterFunc\<close> is registered and the goroutine started on success.\<close>

definition upgrade :: "go_error option \<Rightarrow> tunnel \<Rightarrow> tunnel" where
  "upgrade result t =
     (case result of
        Some err \<Rightarrow> t\<lparr>tn_upOpen := False, tn_phase := Leaving\<rparr>
      | None \<Rightarrow> t\<lparr>tn_wsOpen := True, tn_hook := HookArmed, tn_down := DownRead, tn_phase := UpRead\<rparr>)"

definition leaveLoop :: "tunnel \<Rightarrow> tunnel" where
  "leaveLoop t = t\<lparr>tn_upOpen := False, tn_wsOpen := False, tn_phase := Draining\<rparr>"

definition BinaryMessage :: int where "BinaryMessage = 2"
definition ClosePolicyViolation :: nat where "ClosePolicyViolation = 1008"

text \<open>The check of a message of the browser: it is binary and exactly one packet.\<close>

definition onePacket :: "Config \<Rightarrow> DataPack \<Rightarrow> int \<Rightarrow> bytes \<Rightarrow> bool" where
  "onePacket g d kind data =
     (case ReadMessage g d (Some \<lparr> rd_chunks = [data], rd_err = io_EOF \<rparr>) of
        (packetRes, reader) \<Rightarrow>
          kind = BinaryMessage \<and> (case packetRes of Inl packetErr \<Rightarrow> False | Inr _ \<Rightarrow> True)
            \<and> (case reader of None \<Rightarrow> False | Some rd \<Rightarrow> length (rd_bytes rd) = 0))"

definition upReadStep :: "Config \<Rightarrow> DataPack \<Rightarrow> (int \<times> bytes) res \<Rightarrow> tunnel \<Rightarrow> tunnel" where
  "upReadStep g d result t =
     (case result of
        Inl err \<Rightarrow> leaveLoop t
      | Inr (kind, data) \<Rightarrow>
          let t1 = t\<lparr>tn_received := tn_received t @ [(kind, data)]\<rparr>
          in if \<not> onePacket g d kind data
             then leaveLoop (t1\<lparr>tn_closeCode := Some ClosePolicyViolation\<rparr>)
             else t1\<lparr>tn_phase := UpWrite data\<rparr>)"

text \<open>\<open>io.Copy\<close> of a byte slice is one \<open>Write\<close>, which took \<open>n\<close> bytes.\<close>

definition upWriteStep :: "bytes \<Rightarrow> nat \<times> go_error option \<Rightarrow> tunnel \<Rightarrow> tunnel" where
  "upWriteStep data result t =
     (case result of
        (n, Some err) \<Rightarrow> leaveLoop (t\<lparr>tn_upOut := tn_upOut t @ take n data\<rparr>)
      | (n, None) \<Rightarrow>
          t\<lparr>tn_upOut := tn_upOut t @ data, tn_sent := tn_sent t @ [data], tn_phase := UpRead\<rparr>)"

definition downExit :: "tunnel \<Rightarrow> tunnel" where
  "downExit t = t\<lparr>tn_wsOpen := False, tn_down := DownDone\<rparr>"

definition downReadStep :: "Config \<Rightarrow> DataPack \<Rightarrow> tunnel \<Rightarrow> tunnel" where
  "downReadStep g d t =
     (case ReadMessage g d (Some (tn_upIn t)) of
        (Inl err, r) \<Rightarrow> downExit t
      | (Inr msg, r) \<Rightarrow>
          (case Pack g d (Some msg) of
             Inl err \<Rightarrow> downExit t
           | Inr pkt \<Rightarrow> t\<lparr>tn_upIn := the r, tn_down := DownWrite pkt\<rparr>))"

definition downWriteStep :: "bytes \<Rightarrow> go_error option \<Rightarrow> tunnel \<Rightarrow> tunnel" where
  "downWriteStep pkt result t =
     (case result of
        Some err \<Rightarrow> downExit t
      | None \<Rightarrow> t\<lparr>tn_wsOut := tn_wsOut t @ [pkt], tn_down := DownRead\<rparr>)"

definition fireHook :: "tunnel \<Rightarrow> tunnel" where
  "fireHook t = t\<lparr>tn_hook := HookFired, tn_upOpen := False, tn_wsOpen := False\<rparr>"

text \<open>The goroutine has ended: the remaining deferred calls up to the removal.\<close>

definition drained :: "tunnel \<Rightarrow> tunnel" where
  "drained t = t\<lparr>tn_hook := (if tn_hook t = HookArmed then HookOff else tn_hook t),
     tn_wsOpen := False, tn_upOpen := False, tn_phase := Leaving\<rparr>"

text \<open>
  The steps of one tunnel. A closed socket yields only errors; any call may fail; \<open>Write\<close> reports an error when it
  takes fewer bytes than it was given, and none of them on a closed socket.
\<close>

inductive tunnel_step :: "Config \<Rightarrow> DataPack \<Rightarrow> tunnel \<Rightarrow> tunnel \<Rightarrow> bool" for g :: Config and d :: DataPack where
  step_dial: "tn_phase t = Dialing \<Longrightarrow> tunnel_step g d t (dial result t)"
| step_upgrade: "tn_phase t = Upgrading \<Longrightarrow> tunnel_step g d t (upgrade result t)"
| step_upRead: "tn_phase t = UpRead \<Longrightarrow> tn_wsOpen t \<or> (\<exists>err. result = Inl err)
    \<Longrightarrow> tunnel_step g d t (upReadStep g d result t)"
| step_upWrite: "tn_phase t = UpWrite data \<Longrightarrow> n \<le> length data \<Longrightarrow> n < length data \<longrightarrow> err \<noteq> None
    \<Longrightarrow> tn_upOpen t \<or> (n = 0 \<and> err \<noteq> None) \<Longrightarrow> tunnel_step g d t (upWriteStep data (n, err) t)"
| step_downRead: "tn_down t = DownRead \<Longrightarrow> tn_upOpen t \<Longrightarrow> tunnel_step g d t (downReadStep g d t)"
| step_downFail: "tn_down t = DownRead \<Longrightarrow> tunnel_step g d t (downExit t)"
| step_downWrite: "tn_down t = DownWrite pkt \<Longrightarrow> tn_wsOpen t \<or> err \<noteq> None
    \<Longrightarrow> tunnel_step g d t (downWriteStep pkt err t)"
| step_hook: "tn_hook t = HookArmed \<Longrightarrow> tn_cancelled t \<Longrightarrow> tunnel_step g d t (fireHook t)"
| step_drained: "tn_phase t = Draining \<Longrightarrow> tn_down t = DownDone \<Longrightarrow> tunnel_step g d t (drained t)"

section \<open>The system\<close>

text \<open>A call of \<open>Close\<close> waits for the wait group or has returned.\<close>

datatype closer = CloseWaiting | CloseReturned

record bridge_sys =
  bs_bridge :: Bridge
  bs_tunnels :: "tunnel list"
  bs_closers :: "closer list"

definition cancelTunnel :: "tunnel \<Rightarrow> tunnel" where
  "cancelTunnel t = t\<lparr>tn_cancelled := True\<rparr>"

text \<open>The critical section of \<open>Close\<close>: the flag, and the cancel functions of all registered tunnels.\<close>

definition BridgeClose :: "bridge_sys \<Rightarrow> bridge_sys" where
  "BridgeClose s =
     s\<lparr>bs_bridge := (bs_bridge s)\<lparr>br_closed := True\<rparr>,
       bs_tunnels := map (\<lambda>(i, t). if i \<in> ran (br_active (bs_bridge s)) then cancelTunnel t else t)
                       (enumerate 0 (bs_tunnels s)),
       bs_closers := bs_closers s @ [CloseWaiting]\<rparr>"

inductive bridge_step :: "Config \<Rightarrow> url_parse \<Rightarrow> bridge_sys \<Rightarrow> bridge_sys \<Rightarrow> bool"
  for g :: Config and parse :: url_parse where
  bs_admit: "ServeAdmit parse r (length (bs_tunnels s)) (bs_bridge s) = (Inr ident, b)
    \<Longrightarrow> bridge_step g parse s (s\<lparr>bs_bridge := b, bs_tunnels := bs_tunnels s @ [newTunnel ident]\<rparr>)"
| bs_tunnel: "i < length (bs_tunnels s) \<Longrightarrow> tunnel_step g (br_pack (bs_bridge s)) (bs_tunnels s ! i) t
    \<Longrightarrow> bridge_step g parse s (s\<lparr>bs_tunnels := (bs_tunnels s)[i := t]\<rparr>)"
| bs_cancel: "i < length (bs_tunnels s)
    \<Longrightarrow> bridge_step g parse s (s\<lparr>bs_tunnels := (bs_tunnels s)[i := cancelTunnel (bs_tunnels s ! i)]\<rparr>)"
| bs_leave: "i < length (bs_tunnels s) \<Longrightarrow> tn_phase (bs_tunnels s ! i) = Leaving
    \<Longrightarrow> bridge_step g parse s
          (s\<lparr>bs_bridge := ServeLeave (tn_id (bs_tunnels s ! i)) (bs_bridge s),
             bs_tunnels := (bs_tunnels s)[i := (bs_tunnels s ! i)\<lparr>tn_phase := Returned, tn_cancelled := True\<rparr>]\<rparr>)"
| bs_close: "bridge_step g parse s (BridgeClose s)"
| bs_closed: "j < length (bs_closers s) \<Longrightarrow> bs_closers s ! j = CloseWaiting \<Longrightarrow> br_wg (bs_bridge s) = 0
    \<Longrightarrow> bridge_step g parse s (s\<lparr>bs_closers := (bs_closers s)[j := CloseReturned]\<rparr>)"

definition bridge_init :: "url_parse \<Rightarrow> bridge_sys \<Rightarrow> bool" where
  "bridge_init parse s \<longleftrightarrow> (\<exists>options. NewBridge parse options = Inr (bs_bridge s))
     \<and> bs_tunnels s = [] \<and> bs_closers s = []"

section \<open>The invariant of a tunnel\<close>

text \<open>A packet the codec accepts.\<close>

definition ok_packet :: "Config \<Rightarrow> DataPack \<Rightarrow> bytes \<Rightarrow> bool" where
  "ok_packet g d p \<longleftrightarrow> (\<exists>m. framed m \<and> within_limit g d (msg_DataLen m) \<and> p = packet m)"

text \<open>Toward the server: whole packets, and at most a part of one more when the loop has ended.\<close>

definition up_ok :: "Config \<Rightarrow> DataPack \<Rightarrow> tunnel \<Rightarrow> bool" where
  "up_ok g d t \<longleftrightarrow> (\<forall>p \<in> set (tn_sent t). ok_packet g d p)
     \<and> (case tn_phase t of
          UpRead \<Rightarrow> tn_upOut t = concat (tn_sent t) \<and> map snd (tn_received t) = tn_sent t
        | UpWrite data \<Rightarrow> ok_packet g d data \<and> tn_upOut t = concat (tn_sent t)
            \<and> map snd (tn_received t) = tn_sent t @ [data]
        | _ \<Rightarrow> (\<exists>p rest. tn_upOut t = concat (tn_sent t) @ p \<and> map snd (tn_received t) = tn_sent t @ rest
            \<and> (p = [] \<and> length rest \<le> 1 \<or> (\<exists>q. rest = [q] \<and> ok_packet g d q \<and> prefix p q))))"

text \<open>Toward the browser: one packet per message, and together a prefix of what the server sent.\<close>

definition down_ok :: "Config \<Rightarrow> DataPack \<Rightarrow> tunnel \<Rightarrow> bool" where
  "down_ok g d t \<longleftrightarrow> (\<forall>p \<in> set (tn_wsOut t). ok_packet g d p)
     \<and> (case tn_down t of
          DownNone \<Rightarrow> tn_wsOut t = [] \<and> tn_upAll t = rd_bytes (tn_upIn t)
        | DownRead \<Rightarrow> tn_upAll t = concat (tn_wsOut t) @ rd_bytes (tn_upIn t)
        | DownWrite p \<Rightarrow> ok_packet g d p \<and> tn_upAll t = concat (tn_wsOut t) @ p @ rd_bytes (tn_upIn t)
        | DownDone \<Rightarrow> prefix (concat (tn_wsOut t)) (tn_upAll t))"

text \<open>The phases of the two goroutines, the sockets and the hook fit together.\<close>

definition phase_ok :: "tunnel \<Rightarrow> bool" where
  "phase_ok t \<longleftrightarrow>
     (case tn_phase t of
        Dialing \<Rightarrow> tn_down t = DownNone \<and> tn_hook t = HookOff \<and> \<not> tn_upOpen t \<and> \<not> tn_wsOpen t
          \<and> tn_upOut t = [] \<and> tn_sent t = [] \<and> tn_received t = []
      | Upgrading \<Rightarrow> tn_down t = DownNone \<and> tn_hook t = HookOff \<and> tn_upOpen t \<and> \<not> tn_wsOpen t
          \<and> tn_upOut t = [] \<and> tn_sent t = [] \<and> tn_received t = []
      | UpRead \<Rightarrow> tn_down t \<noteq> DownNone \<and> tn_hook t \<noteq> HookOff
      | UpWrite data \<Rightarrow> tn_down t \<noteq> DownNone \<and> tn_hook t \<noteq> HookOff
      | Draining \<Rightarrow> tn_down t \<noteq> DownNone \<and> \<not> tn_upOpen t \<and> \<not> tn_wsOpen t
      | _ \<Rightarrow> tn_down t \<in> {DownNone, DownDone} \<and> tn_hook t \<noteq> HookArmed \<and> \<not> tn_upOpen t \<and> \<not> tn_wsOpen t)
     \<and> (tn_hook t = HookFired \<longrightarrow> \<not> tn_upOpen t \<and> \<not> tn_wsOpen t)
     \<and> (tn_wsOpen t \<longrightarrow> tn_down t \<noteq> DownDone)"

definition tunnel_ok :: "Config \<Rightarrow> DataPack \<Rightarrow> tunnel \<Rightarrow> bool" where
  "tunnel_ok g d t \<longleftrightarrow> up_ok g d t \<and> down_ok g d t \<and> phase_ok t"

lemmas tunnel_ops = dial_def upgrade_def leaveLoop_def upReadStep_def upWriteStep_def downExit_def Let_def
  downWriteStep_def fireHook_def drained_def cancelTunnel_def newTunnel_def

lemma onePacket_iff: "onePacket g d kind data \<longleftrightarrow> kind = BinaryMessage \<and> ok_packet g d data"
proof -
  let ?r = "\<lparr> rd_chunks = [data], rd_err = io_EOF \<rparr>"
  have bytes: "rd_bytes ?r = data" by (simp add: rd_bytes_def)
  obtain res r' where rd: "ReadMessage g d (Some ?r) = (res, r')" by fastforce
  have "(\<exists>m q. res = Inr m \<and> r' = Some q \<and> rd_bytes q = []) \<longleftrightarrow> ok_packet g d data"
  proof
    assume "\<exists>m q. res = Inr m \<and> r' = Some q \<and> rd_bytes q = []"
    then obtain m q where "ReadMessage g d (Some ?r) = (Inr m, Some q)" "rd_bytes q = []"
      using rd by auto
    from ReadMessage_sound [OF this(1)] this(2) bytes show "ok_packet g d data"
      unfolding ok_packet_def by auto
  next
    assume "ok_packet g d data"
    then obtain m where "framed m" "within_limit g d (msg_DataLen m)" "rd_bytes ?r = packet m @ []"
      using bytes unfolding ok_packet_def by auto
    from ReadMessage_packet [OF this] rd show "\<exists>m q. res = Inr m \<and> r' = Some q \<and> rd_bytes q = []"
      by auto
  qed
  then show ?thesis
    unfolding onePacket_def rd by (auto split: sum.splits option.splits)
qed

lemma downReadStep_cases:
  obtains (exit) "downReadStep g d t = downExit t"
  | (got) m r where "ok_packet g d (packet m)" "rd_bytes (tn_upIn t) = packet m @ rd_bytes r"
      "downReadStep g d t = t\<lparr>tn_upIn := r, tn_down := DownWrite (packet m)\<rparr>"
proof -
  obtain res r' where rd: "ReadMessage g d (Some (tn_upIn t)) = (res, r')" by fastforce
  show ?thesis
  proof (cases res)
    case (Inl e)
    then show ?thesis using exit rd by (simp add: downReadStep_def)
  next
    case (Inr m)
    then obtain r where r: "r' = Some r"
      using rd by (auto simp: ReadMessage_def split: prod.splits sum.splits if_splits)
    from ReadMessage_sound rd Inr r
    have m: "framed m" "within_limit g d (msg_DataLen m)" "rd_bytes (tn_upIn t) = packet m @ rd_bytes r"
      by blast+
    then have "Pack g d (Some m) = Inr (packet m)" by (simp add: Pack_eq framed_def)
    then have "downReadStep g d t = t\<lparr>tn_upIn := r, tn_down := DownWrite (packet m)\<rparr>"
      by (simp add: downReadStep_def rd Inr r)
    with m got show ?thesis unfolding ok_packet_def by blast
  qed
qed

lemma up_ok_step:
  assumes "tunnel_ok g d t" "tunnel_step g d t t'"
  shows "up_ok g d t'"
proof -
  have u: "up_ok g d t" and p: "phase_ok t" using assms(1) by (auto simp: tunnel_ok_def)
  from assms(2) show ?thesis
  proof (cases rule: tunnel_step.cases)
    case (step_downRead)
    show ?thesis
      by (cases rule: downReadStep_cases [of g d t]) (use u step_downRead in \<open>simp_all add: up_ok_def downExit_def split: phase.splits\<close>)
  next
    case (step_upWrite data n err)
    then show ?thesis using u
      by (auto simp: up_ok_def tunnel_ops take_is_prefix split: option.splits)
  next
    case (step_upRead result)
    then show ?thesis using u
      by (auto simp: up_ok_def tunnel_ops onePacket_iff split: sum.splits)
  qed (use u p in \<open>auto simp: up_ok_def phase_ok_def tunnel_ops split: sum.splits option.splits phase.splits\<close>)
qed

lemma down_ok_step:
  assumes "tunnel_ok g d t" "tunnel_step g d t t'"
  shows "down_ok g d t'"
proof -
  have u: "down_ok g d t" and p: "phase_ok t" using assms(1) by (auto simp: tunnel_ok_def)
  from assms(2) show ?thesis
  proof (cases rule: tunnel_step.cases)
    case (step_downRead)
    show ?thesis
      by (cases rule: downReadStep_cases [of g d t])
        (use u step_downRead in \<open>auto simp: down_ok_def downExit_def\<close>)
  next
    case (step_downWrite pkt err)
    then show ?thesis using u
      by (auto simp: down_ok_def tunnel_ops split: option.splits)
  qed (use u p in \<open>auto simp: down_ok_def phase_ok_def tunnel_ops split: sum.splits option.splits down.splits\<close>)
qed

lemma phase_ok_step:
  assumes p: "phase_ok t" and st: "tunnel_step g d t t'"
  shows "phase_ok t'"
  using st
proof (cases rule: tunnel_step.cases)
  case (step_downRead)
  show ?thesis
    by (cases rule: downReadStep_cases [of g d t])
      (use p step_downRead in \<open>auto simp: phase_ok_def downExit_def split: phase.splits\<close>)
qed (use p in \<open>auto simp: phase_ok_def tunnel_ops split: sum.splits option.splits phase.splits\<close>)

lemma tunnel_ok_step: "tunnel_ok g d t \<Longrightarrow> tunnel_step g d t t' \<Longrightarrow> tunnel_ok g d t'"
  using up_ok_step down_ok_step phase_ok_step unfolding tunnel_ok_def by blast

lemma tunnel_ok_new: "tunnel_ok g d (newTunnel ident)"
  by (simp add: tunnel_ok_def up_ok_def down_ok_def phase_ok_def newTunnel_def rd_bytes_def)

lemma tunnel_ok_cancel [simp]: "tunnel_ok g d (cancelTunnel t) = tunnel_ok g d t"
  by (cases "tn_phase t"; cases "tn_down t")
    (simp_all add: tunnel_ok_def up_ok_def down_ok_def phase_ok_def cancelTunnel_def)

lemma tunnel_ok_leave:
  "tunnel_ok g d t \<Longrightarrow> tn_phase t = Leaving \<Longrightarrow> tunnel_ok g d (t\<lparr>tn_phase := Returned, tn_cancelled := True\<rparr>)"
  by (cases t, cases "tn_down t") (simp_all add: tunnel_ok_def up_ok_def down_ok_def phase_ok_def)

section \<open>The invariant of the bridge\<close>

definition serving :: "tunnel list \<Rightarrow> nat set" where
  "serving ts = {i. i < length ts \<and> tn_phase (ts ! i) \<noteq> Returned}"

text \<open>
  The registered tunnels are those that have not returned. \<open>next\<close> is a 64-bit counter: two tunnels could share
  an id after \<open>2^64\<close> requests, which is the bound of the statements below.
\<close>

definition registry_ok :: "bridge_sys \<Rightarrow> bool" where
  "registry_ok s \<longleftrightarrow>
     (let b = bs_bridge s; ts = bs_tunnels s in
        (\<forall>i < length ts. tn_id (ts ! i) = of_nat i) \<and> br_next b = of_nat (length ts)
        \<and> (\<forall>k i. br_active b k = Some i \<longleftrightarrow> k = of_nat i \<and> i \<in> serving ts)
        \<and> br_wg b = int (card (serving ts)) \<and> int (card (serving ts)) \<le> op_MaxConnections (br_options b))"

definition closing_ok :: "bridge_sys \<Rightarrow> bool" where
  "closing_ok s \<longleftrightarrow>
     (bs_closers s \<noteq> [] \<longrightarrow> br_closed (bs_bridge s))
     \<and> (br_closed (bs_bridge s) \<longrightarrow> (\<forall>t \<in> set (bs_tunnels s). tn_cancelled t))
     \<and> (CloseReturned \<in> set (bs_closers s) \<longrightarrow> serving (bs_tunnels s) = {})"

definition limits_ok :: "Bridge \<Rightarrow> bool" where
  "limits_ok b \<longleftrightarrow> 0 < op_MaxPacketSize (br_options b) \<and> op_MaxPacketSize (br_options b) \<le> 16777216
     \<and> 1 \<le> op_MaxConnections (br_options b) \<and> br_pack b = NewDataPackWithLimit (op_MaxPacketSize (br_options b))"

definition returned_cancelled :: "tunnel list \<Rightarrow> bool" where
  "returned_cancelled ts \<longleftrightarrow> (\<forall>t \<in> set ts. tn_phase t = Returned \<longrightarrow> tn_cancelled t)"

definition bridge_inv :: "Config \<Rightarrow> bridge_sys \<Rightarrow> bool" where
  "bridge_inv g s \<longleftrightarrow>
     limits_ok (bs_bridge s) \<and> (\<forall>t \<in> set (bs_tunnels s). tunnel_ok g (br_pack (bs_bridge s)) t)
     \<and> returned_cancelled (bs_tunnels s)
     \<and> (length (bs_tunnels s) \<le> 2 ^ 64 \<longrightarrow> registry_ok s \<and> closing_ok s)"

lemma newTunnel_fields [simp]: "tn_phase (newTunnel ident) = Dialing" "tn_id (newTunnel ident) = ident"
  by (simp_all add: newTunnel_def)

lemma limits_ok_cong:
  "br_pack b = br_pack b' \<Longrightarrow> br_options b = br_options b' \<Longrightarrow> limits_ok b = limits_ok b'"
  by (simp add: limits_ok_def)

lemma finite_serving [simp]: "finite (serving ts)"
  by (simp add: serving_def)

lemma serving_append: "serving (ts @ [t]) = (if tn_phase t = Returned then serving ts else insert (length ts) (serving ts))"
  by (auto simp: serving_def nth_append less_Suc_eq)

lemma serving_update:
  "i < length ts \<Longrightarrow> (tn_phase t = Returned \<longleftrightarrow> tn_phase (ts ! i) = Returned) \<Longrightarrow> serving (ts[i := t]) = serving ts"
  by (auto simp: serving_def nth_list_update)

lemma serving_return:
  "i < length ts \<Longrightarrow> tn_phase t = Returned \<Longrightarrow> serving (ts[i := t]) = serving ts - {i}"
  by (auto simp: serving_def nth_list_update)

lemma of_nat_inj64: "i < 2 ^ 64 \<Longrightarrow> j < 2 ^ 64 \<Longrightarrow> (of_nat i :: u64) = of_nat j \<Longrightarrow> i = j"
  by (simp add: word_of_nat_eq_iff take_bit_eq_mod)

lemma tunnel_step_frame:
  assumes "tunnel_ok g d t" "tunnel_step g d t t'"
  shows "tn_id t' = tn_id t" "tn_cancelled t' = tn_cancelled t" "tn_phase t \<noteq> Returned" "tn_phase t' \<noteq> Returned"
proof -
  have p: "phase_ok t" using assms(1) by (simp add: tunnel_ok_def)
  from assms(2) have "tn_id t' = tn_id t \<and> tn_cancelled t' = tn_cancelled t \<and> tn_phase t \<noteq> Returned \<and> tn_phase t' \<noteq> Returned"
  proof (cases rule: tunnel_step.cases)
    case step_downRead
    then show ?thesis
      by (cases rule: downReadStep_cases [of g d t]) (use p in \<open>auto simp: phase_ok_def downExit_def\<close>)
  qed (use p in \<open>auto simp: phase_ok_def tunnel_ops split: sum.splits option.splits\<close>)
  then show "tn_id t' = tn_id t" "tn_cancelled t' = tn_cancelled t" "tn_phase t \<noteq> Returned" "tn_phase t' \<noteq> Returned"
    by auto
qed

lemma registry_len:
  assumes "registry_ok s" "length (bs_tunnels s) \<le> 2 ^ 64"
  shows "map_len (br_active (bs_bridge s)) = card (serving (bs_tunnels s))"
proof -
  let ?a = "br_active (bs_bridge s)" and ?S = "serving (bs_tunnels s)"
  have act: "\<forall>k i. ?a k = Some i \<longleftrightarrow> k = of_nat i \<and> i \<in> ?S"
    using assms(1) unfolding registry_ok_def Let_def by blast
  then have "dom ?a = of_nat ` ?S" by auto
  moreover have "inj_on (of_nat :: nat \<Rightarrow> u64) ?S"
    using assms(2) by (intro inj_onI of_nat_inj64) (auto simp: serving_def)
  ultimately show ?thesis by (simp add: map_len_def card_image)
qed

lemma registry_admit:
  assumes inv: "registry_ok s" and len: "Suc (length (bs_tunnels s)) \<le> 2 ^ 64"
    and adm: "ServeAdmit parse r (length (bs_tunnels s)) (bs_bridge s) = (Inr ident, b)"
  shows "registry_ok (s\<lparr>bs_bridge := b, bs_tunnels := bs_tunnels s @ [newTunnel ident]\<rparr>)"
proof -
  let ?ts = "bs_tunnels s" and ?b = "bs_bridge s"
  have id: "ident = br_next ?b"
    and b: "b = ?b\<lparr>br_next := br_next ?b + 1, br_active := (br_active ?b)(ident \<mapsto> length ?ts), br_wg := br_wg ?b + 1\<rparr>"
    and room: "int (map_len (br_active ?b)) < op_MaxConnections (br_options ?b)"
    using adm by (auto simp: ServeAdmit_def Let_def split: if_splits)
  have room': "int (card (serving ?ts)) < op_MaxConnections (br_options ?b)"
    using room registry_len [OF inv] len by simp
  have ids: "\<forall>i < length ?ts. tn_id (?ts ! i) = of_nat i" and nxt: "br_next ?b = of_nat (length ?ts)"
    and act: "\<forall>k i. br_active ?b k = Some i \<longleftrightarrow> k = of_nat i \<and> i \<in> serving ?ts"
    and wg: "br_wg ?b = int (card (serving ?ts))"
    using inv unfolding registry_ok_def Let_def by blast+
  have fresh: "length ?ts \<notin> serving ?ts" by (simp add: serving_def)
  have other: "(of_nat i :: u64) \<noteq> of_nat (length ?ts)" if "i \<in> serving ?ts" for i
    using of_nat_inj64 [of i "length ?ts"] that len by (auto simp: serving_def)
  have act': "\<forall>k i. ((br_active ?b)(ident \<mapsto> length ?ts)) k = Some i \<longleftrightarrow> k = of_nat i \<and> i \<in> insert (length ?ts) (serving ?ts)"
    using act other fresh unfolding id nxt fun_upd_apply by (metis insert_iff option.inject)
  show ?thesis
    unfolding registry_ok_def Let_def
    using ids nxt wg room' fresh act'
    by (simp add: b serving_append nth_append less_Suc_eq id)
qed

lemma registry_tunnel:
  assumes inv: "registry_ok s" and i: "i < length (bs_tunnels s)"
    and t: "tn_id t = tn_id (bs_tunnels s ! i)" "tn_phase t = Returned \<longleftrightarrow> tn_phase (bs_tunnels s ! i) = Returned"
  shows "registry_ok (s\<lparr>bs_tunnels := (bs_tunnels s)[i := t]\<rparr>)"
  using inv i t unfolding registry_ok_def Let_def
  by (simp add: serving_update nth_list_update)

lemma registry_leave:
  assumes inv: "registry_ok s" and len: "length (bs_tunnels s) \<le> 2 ^ 64" and i: "i < length (bs_tunnels s)"
    and ph: "tn_phase (bs_tunnels s ! i) \<noteq> Returned" and t: "tn_id t = tn_id (bs_tunnels s ! i)" "tn_phase t = Returned"
  shows "registry_ok (s\<lparr>bs_bridge := ServeLeave (tn_id (bs_tunnels s ! i)) (bs_bridge s),
           bs_tunnels := (bs_tunnels s)[i := t]\<rparr>)"
proof -
  let ?ts = "bs_tunnels s" and ?b = "bs_bridge s"
  have ids: "\<forall>i < length ?ts. tn_id (?ts ! i) = of_nat i" and nxt: "br_next ?b = of_nat (length ?ts)"
    and act: "\<forall>k i. br_active ?b k = Some i \<longleftrightarrow> k = of_nat i \<and> i \<in> serving ?ts"
    and wg: "br_wg ?b = int (card (serving ?ts))" and cap: "int (card (serving ?ts)) \<le> op_MaxConnections (br_options ?b)"
    using inv unfolding registry_ok_def Let_def by blast+
  have mem: "i \<in> serving ?ts" using i ph by (simp add: serving_def)
  then have card: "card (serving ?ts - {i}) = card (serving ?ts) - 1" "0 < card (serving ?ts)"
    by (auto simp: card_gt_0_iff)
  have other: "j = i" if "j \<in> serving ?ts" "(of_nat j :: u64) = of_nat i" for j
    using of_nat_inj64 [of j i] that len i by (auto simp: serving_def)
  have "\<forall>k j. ((br_active ?b)(of_nat i := None)) k = Some j \<longleftrightarrow> k = of_nat j \<and> j \<in> serving ?ts - {i}"
    using act other by (auto simp: fun_upd_def)
  then show ?thesis
    unfolding registry_ok_def Let_def
    using ids nxt wg cap card i t
    by (simp add: ServeLeave_def serving_return nth_list_update)
qed

text \<open>\<open>Close\<close> cancels the registered tunnels; the others have returned and are cancelled already.\<close>

lemma BridgeClose_tunnels:
  "length (bs_tunnels (BridgeClose s)) = length (bs_tunnels s)"
  "i < length (bs_tunnels s) \<Longrightarrow>
     bs_tunnels (BridgeClose s) ! i
       = (if i \<in> ran (br_active (bs_bridge s)) then cancelTunnel (bs_tunnels s ! i) else bs_tunnels s ! i)"
  by (simp_all add: BridgeClose_def nth_enumerate_eq)

lemma cancelTunnel_fields [simp]:
  "tn_phase (cancelTunnel t) = tn_phase t" "tn_id (cancelTunnel t) = tn_id t" "tn_cancelled (cancelTunnel t)"
  by (simp_all add: cancelTunnel_def)

lemma serving_BridgeClose: "serving (bs_tunnels (BridgeClose s)) = serving (bs_tunnels s)"
  by (auto simp: serving_def BridgeClose_tunnels split: if_splits)

lemma registry_close:
  assumes "registry_ok s" shows "registry_ok (BridgeClose s)"
proof -
  have "br_active (bs_bridge (BridgeClose s)) = br_active (bs_bridge s)" "br_next (bs_bridge (BridgeClose s)) = br_next (bs_bridge s)"
    "br_wg (bs_bridge (BridgeClose s)) = br_wg (bs_bridge s)" "br_options (bs_bridge (BridgeClose s)) = br_options (bs_bridge s)"
    by (simp_all add: BridgeClose_def)
  with assms show ?thesis
    unfolding registry_ok_def Let_def serving_BridgeClose BridgeClose_tunnels(1)
    by (simp add: BridgeClose_tunnels)
qed

lemma closing_close:
  assumes reg: "registry_ok s" and cl: "closing_ok s" and rc: "returned_cancelled (bs_tunnels s)"
  shows "closing_ok (BridgeClose s)"
proof -
  have act: "\<forall>k i. br_active (bs_bridge s) k = Some i \<longleftrightarrow> k = of_nat i \<and> i \<in> serving (bs_tunnels s)"
    using reg unfolding registry_ok_def Let_def by blast
  have "tn_cancelled (bs_tunnels (BridgeClose s) ! i)" if i: "i < length (bs_tunnels s)" for i
  proof (cases "tn_phase (bs_tunnels s ! i) = Returned")
    case True
    with rc i have "tn_cancelled (bs_tunnels s ! i)" by (auto simp: returned_cancelled_def)
    with i show ?thesis by (simp add: BridgeClose_tunnels)
  next
    case False
    with i have "br_active (bs_bridge s) (of_nat i) = Some i" using act by (simp add: serving_def)
    with i show ?thesis by (auto simp: BridgeClose_tunnels ran_def)
  qed
  then have "\<forall>t \<in> set (bs_tunnels (BridgeClose s)). tn_cancelled t"
    by (auto simp: in_set_conv_nth BridgeClose_tunnels(1))
  with cl show ?thesis
    unfolding closing_ok_def serving_BridgeClose by (auto simp: BridgeClose_def)
qed

lemma returned_cancelled_update:
  "returned_cancelled ts \<Longrightarrow> (tn_phase t = Returned \<Longrightarrow> tn_cancelled t) \<Longrightarrow> returned_cancelled (ts[i := t])"
  unfolding returned_cancelled_def by (auto dest!: set_update_subset_insert [THEN subsetD])

lemma closing_update:
  assumes "closing_ok s" "i < length (bs_tunnels s)" "tn_cancelled (bs_tunnels s ! i) \<Longrightarrow> tn_cancelled t"
    "serving ((bs_tunnels s)[i := t]) \<subseteq> serving (bs_tunnels s)" "br_closed b = br_closed (bs_bridge s)"
  shows "closing_ok (s\<lparr>bs_bridge := b, bs_tunnels := (bs_tunnels s)[i := t]\<rparr>)"
proof -
  have "\<forall>t' \<in> set ((bs_tunnels s)[i := t]). tn_cancelled t'" if "\<forall>t \<in> set (bs_tunnels s). tn_cancelled t"
    using that assms(2,3) set_update_subset_insert [of "bs_tunnels s" i t] by auto
  then show ?thesis using assms(1,4,5) unfolding closing_ok_def by auto
qed

lemma tunnels_ok_update:
  "\<forall>t \<in> set ts. tunnel_ok g d t \<Longrightarrow> tunnel_ok g d t' \<Longrightarrow> \<forall>t \<in> set (ts[i := t']). tunnel_ok g d t"
  by (auto dest!: set_update_subset_insert [THEN subsetD])

text \<open>Every step that changes one tunnel.\<close>

lemma inv_tunnel:
  assumes inv: "bridge_inv g s" and i: "i < length (bs_tunnels s)" and t: "tunnel_ok g (br_pack (bs_bridge s)) t"
    and id: "tn_id t = tn_id (bs_tunnels s ! i)" and ph: "tn_phase t = Returned \<longleftrightarrow> tn_phase (bs_tunnels s ! i) = Returned"
    and ca: "tn_cancelled (bs_tunnels s ! i) \<Longrightarrow> tn_cancelled t"
  shows "bridge_inv g (s\<lparr>bs_tunnels := (bs_tunnels s)[i := t]\<rparr>)"
proof -
  have rc: "returned_cancelled ((bs_tunnels s)[i := t])"
    using inv i ph ca by (intro returned_cancelled_update) (auto simp: bridge_inv_def returned_cancelled_def)
  have "closing_ok (s\<lparr>bs_tunnels := (bs_tunnels s)[i := t]\<rparr>)" if "closing_ok s"
    using closing_update [OF that i ca, of "bs_bridge s"] serving_update [OF i ph] by simp
  moreover have "registry_ok (s\<lparr>bs_tunnels := (bs_tunnels s)[i := t]\<rparr>)" if "registry_ok s"
    by (rule registry_tunnel [OF that i id ph])
  ultimately show ?thesis
    using inv rc tunnels_ok_update [OF _ t, of "bs_tunnels s"] unfolding bridge_inv_def by simp
qed

lemma inv_leave:
  assumes inv: "bridge_inv g s" and i: "i < length (bs_tunnels s)" and ph: "tn_phase (bs_tunnels s ! i) = Leaving"
  shows "bridge_inv g (s\<lparr>bs_bridge := ServeLeave (tn_id (bs_tunnels s ! i)) (bs_bridge s),
           bs_tunnels := (bs_tunnels s)[i := (bs_tunnels s ! i)\<lparr>tn_phase := Returned, tn_cancelled := True\<rparr>]\<rparr>)"
    (is "bridge_inv g (s\<lparr>bs_bridge := ?b, bs_tunnels := (bs_tunnels s)[i := ?t]\<rparr>)")
proof -
  have b: "br_pack ?b = br_pack (bs_bridge s)" "br_options ?b = br_options (bs_bridge s)" "br_closed ?b = br_closed (bs_bridge s)"
    by (simp_all add: ServeLeave_def)
  have t: "tunnel_ok g (br_pack (bs_bridge s)) ?t"
    using inv i ph by (intro tunnel_ok_leave) (auto simp: bridge_inv_def)
  have rc: "returned_cancelled ((bs_tunnels s)[i := ?t])"
    using inv by (intro returned_cancelled_update) (auto simp: bridge_inv_def)
  have "registry_ok (s\<lparr>bs_bridge := ?b, bs_tunnels := (bs_tunnels s)[i := ?t]\<rparr>)"
    if "registry_ok s" "length (bs_tunnels s) \<le> 2 ^ 64"
    by (rule registry_leave [OF that i]) (simp_all add: ph)
  moreover have "closing_ok (s\<lparr>bs_bridge := ?b, bs_tunnels := (bs_tunnels s)[i := ?t]\<rparr>)" if "closing_ok s"
    by (rule closing_update [OF that i]) (auto simp: b serving_return [OF i])
  ultimately show ?thesis
    using inv rc tunnels_ok_update [OF _ t, of "bs_tunnels s" i] limits_ok_cong [OF b(1,2)] unfolding bridge_inv_def
    by (simp add: b)
qed

lemma inv_admit:
  assumes inv: "bridge_inv g s"
    and adm: "ServeAdmit parse r (length (bs_tunnels s)) (bs_bridge s) = (Inr ident, b)"
  shows "bridge_inv g (s\<lparr>bs_bridge := b, bs_tunnels := bs_tunnels s @ [newTunnel ident]\<rparr>)"
proof -
  have b: "br_pack b = br_pack (bs_bridge s)" "br_options b = br_options (bs_bridge s)" "\<not> br_closed b" "\<not> br_closed (bs_bridge s)"
    using adm by (auto simp: ServeAdmit_def Let_def split: if_splits)
  have "closing_ok (s\<lparr>bs_bridge := b, bs_tunnels := bs_tunnels s @ [newTunnel ident]\<rparr>)" if "closing_ok s"
    using that b by (auto simp: closing_ok_def)
  moreover have "returned_cancelled (bs_tunnels s @ [newTunnel ident])"
    using inv by (auto simp: bridge_inv_def returned_cancelled_def newTunnel_def)
  ultimately show ?thesis
    using inv registry_admit [OF _ _ adm] limits_ok_cong [OF b(1,2)] unfolding bridge_inv_def
    by (simp add: b(1) tunnel_ok_new)
qed

lemma inv_close:
  assumes inv: "bridge_inv g s" shows "bridge_inv g (BridgeClose s)"
proof -
  have each: "tunnel_ok g (br_pack (bs_bridge s)) t \<and> (tn_phase t = Returned \<longrightarrow> tn_cancelled t)"
    if "t \<in> set (bs_tunnels (BridgeClose s))" for t
  proof -
    from that obtain i where i: "i < length (bs_tunnels s)" "t = bs_tunnels (BridgeClose s) ! i"
      by (auto simp: in_set_conv_nth BridgeClose_tunnels(1))
    then have "bs_tunnels s ! i \<in> set (bs_tunnels s)" by simp
    then have "tunnel_ok g (br_pack (bs_bridge s)) (bs_tunnels s ! i)"
      "tn_phase (bs_tunnels s ! i) = Returned \<longrightarrow> tn_cancelled (bs_tunnels s ! i)"
      using inv unfolding bridge_inv_def returned_cancelled_def by blast+
    with i show ?thesis by (simp add: BridgeClose_tunnels)
  qed
  have "br_pack (bs_bridge (BridgeClose s)) = br_pack (bs_bridge s)"
    "br_options (bs_bridge (BridgeClose s)) = br_options (bs_bridge s)" by (simp_all add: BridgeClose_def)
  moreover have "returned_cancelled (bs_tunnels (BridgeClose s))"
    using each by (auto simp: returned_cancelled_def)
  ultimately show ?thesis
    using inv each registry_close closing_close limits_ok_cong [of "bs_bridge (BridgeClose s)" "bs_bridge s"]
    unfolding bridge_inv_def by (simp add: BridgeClose_tunnels(1))
qed

lemma inv_closed:
  assumes inv: "bridge_inv g s" and j: "j < length (bs_closers s)" and wg: "br_wg (bs_bridge s) = 0"
  shows "bridge_inv g (s\<lparr>bs_closers := (bs_closers s)[j := CloseReturned]\<rparr>)"
proof -
  have "serving (bs_tunnels s) = {}" if "registry_ok s"
    using that wg unfolding registry_ok_def Let_def by auto
  moreover have "registry_ok (s\<lparr>bs_closers := cs\<rparr>) = registry_ok s" for cs
    by (simp add: registry_ok_def)
  moreover have "closing_ok (s\<lparr>bs_closers := (bs_closers s)[j := CloseReturned]\<rparr>)"
    if "closing_ok s" "serving (bs_tunnels s) = {}"
    using that j unfolding closing_ok_def by (cases "bs_closers s") simp_all
  ultimately show ?thesis
    using inv unfolding bridge_inv_def by simp
qed

lemma withDefaults_positive: "0 < op_MaxPacketSize (withDefaults opt)"
  by (simp add: withDefaults_def Let_def word_gt_0)

lemma NewBridge_inv:
  assumes "bridge_init parse s" shows "bridge_inv g s"
proof -
  obtain options where new: "NewBridge parse options = Inr (bs_bridge s)" and s: "bs_tunnels s = []" "bs_closers s = []"
    using assms by (auto simp: bridge_init_def)
  obtain origins where "bs_bridge s = \<lparr> br_options = withDefaults options,
      br_pack = NewDataPackWithLimit (op_MaxPacketSize (withDefaults options)), br_origins = origins,
      br_closed = False, br_next = 0, br_active = Map.empty, br_wg = 0 \<rparr>"
    and lim: "op_MaxPacketSize (withDefaults options) \<le> 16777216" "1 \<le> op_MaxConnections (withDefaults options)"
    using new [symmetric] unfolding NewBridge_def by (auto simp: Let_def not_less split: sum.splits if_splits)
  then show ?thesis
    using s withDefaults_positive [of options]
    by (simp add: bridge_inv_def limits_ok_def registry_ok_def closing_ok_def serving_def returned_cancelled_def)
qed

lemma bridge_inv_step:
  assumes inv: "bridge_inv g s" and st: "bridge_step g parse s s'"
  shows "bridge_inv g s'"
  using st
proof (cases rule: bridge_step.cases)
  case (bs_tunnel i t)
  then have ok: "tunnel_ok g (br_pack (bs_bridge s)) (bs_tunnels s ! i)"
    using inv by (simp add: bridge_inv_def)
  show ?thesis
    unfolding bs_tunnel(1) using tunnel_step_frame [OF ok bs_tunnel(3)]
    by (intro inv_tunnel [OF inv bs_tunnel(2) tunnel_ok_step [OF ok bs_tunnel(3)]]) simp_all
next
  case (bs_cancel i)
  then have "tunnel_ok g (br_pack (bs_bridge s)) (cancelTunnel (bs_tunnels s ! i))"
    using inv by (simp add: bridge_inv_def)
  then show ?thesis
    unfolding bs_cancel(1) by (intro inv_tunnel [OF inv bs_cancel(2)]) simp_all
qed (use inv inv_admit inv_leave inv_close inv_closed in simp_all)

interpretation bridge: invariant_system "bridge_init parse" "bridge_step g parse" "bridge_inv g" for parse g
  using NewBridge_inv bridge_inv_step by unfold_locales

section \<open>Tunnels forward packets unchanged\<close>

lemma ok_packet_limit:
  assumes "limits_ok b"
  shows "ok_packet g (br_pack b) p \<longleftrightarrow>
    (\<exists>m. p = packet m \<and> length (msg_Data m) = unat (msg_DataLen m) \<and> msg_DataLen m \<le> op_MaxPacketSize (br_options b))"
proof -
  have "within_limit g (br_pack b) n \<longleftrightarrow> n \<le> op_MaxPacketSize (br_options b)" for n
    using assms by (auto simp: limits_ok_def within_limit_def NewDataPackWithLimit_def Let_def)
  then show ?thesis by (auto simp: ok_packet_def framed_def)
qed

lemma up_ok_prefix:
  assumes "up_ok g d t" shows "prefix (tn_upOut t) (concat (map snd (tn_received t)))"
proof -
  obtain p rest where "tn_upOut t = concat (tn_sent t) @ p" "map snd (tn_received t) = tn_sent t @ rest"
      "prefix p (concat rest)"
    using assms unfolding up_ok_def by (cases "tn_phase t") auto
  then show ?thesis by auto
qed

lemma down_ok_prefix: "down_ok g d t \<Longrightarrow> prefix (concat (tn_wsOut t)) (tn_upAll t)"
  unfolding down_ok_def by (cases "tn_down t") auto

lemma up_ok_pending:
  assumes "up_ok g d t" "tn_phase t = UpRead"
  shows "tn_upOut t = concat (map snd (tn_received t))" "\<forall>p \<in> set (tn_received t). ok_packet g d (snd p)"
proof -
  have up: "tn_upOut t = concat (tn_sent t)" "tn_sent t = map snd (tn_received t)" "\<forall>p \<in> set (tn_sent t). ok_packet g d p"
    using assms unfolding up_ok_def by auto
  show "tn_upOut t = concat (map snd (tn_received t))" using up(1) unfolding up(2) .
  show "\<forall>p \<in> set (tn_received t). ok_packet g d (snd p)" using up(3) unfolding up(2) by simp
qed

definition whole_packet :: "u32 \<Rightarrow> bytes \<Rightarrow> bool" where
  "whole_packet limit p \<longleftrightarrow>
     8 \<le> length p \<and> length p = 8 + unat (Uint32 (slice 0 4 p)) \<and> Uint32 (slice 0 4 p) \<le> limit"

lemma whole_packet_iff:
  "whole_packet limit p \<longleftrightarrow> (\<exists>m. p = packet m \<and> length (msg_Data m) = unat (msg_DataLen m) \<and> msg_DataLen m \<le> limit)"
proof
  assume w: "whole_packet limit p"
  let ?m = "\<lparr> msg_Id = Uint32 (slice 4 8 p), msg_Data = drop 8 p, msg_DataLen = Uint32 (slice 0 4 p) \<rparr>"
  have "take 8 p = PutUint32 (Uint32 (slice 0 4 (take 8 p))) @ PutUint32 (Uint32 (slice 4 8 (take 8 p)))"
    using w by (intro header_split) (simp add: whole_packet_def)
  moreover have "slice 0 4 (take 8 p) = slice 0 4 p" "slice 4 8 (take 8 p) = slice 4 8 p"
    by (simp_all add: slice_def drop_take min_def)
  ultimately have "take 8 p @ drop 8 p = packet ?m" by (simp add: packet_def)
  then have "p = packet ?m" by simp
  moreover have "length (msg_Data ?m) = unat (msg_DataLen ?m)" using w by (simp add: whole_packet_def)
  ultimately show "\<exists>m. p = packet m \<and> length (msg_Data m) = unat (msg_DataLen m) \<and> msg_DataLen m \<le> limit"
    using w unfolding whole_packet_def by (metis Message.select_convs(3))
next
  assume "\<exists>m. p = packet m \<and> length (msg_Data m) = unat (msg_DataLen m) \<and> msg_DataLen m \<le> limit"
  then obtain m where m: "p = packet m" "length (msg_Data m) = unat (msg_DataLen m)" "msg_DataLen m \<le> limit" by blast
  have "slice 0 4 (packet m) = PutUint32 (msg_DataLen m)" by (simp add: packet_def slice_def)
  with m show "whole_packet limit p" by (simp add: whole_packet_def)
qed

section \<open>Closing\<close>

lemma closed_stays:
  assumes "br_closed (bs_bridge s)" "bridge_step g parse s s'"
  shows "br_closed (bs_bridge s') \<and> length (bs_tunnels s') = length (bs_tunnels s)"
  using assms(2,1)
  by (cases rule: bridge_step.cases)
    (auto simp: ServeAdmit_def ServeLeave_def BridgeClose_def Let_def split: if_splits)

lemma closed_stays_run:
  assumes "(bridge_step g parse)\<^sup>*\<^sup>* s s'" "br_closed (bs_bridge s)"
  shows "br_closed (bs_bridge s') \<and> length (bs_tunnels s') = length (bs_tunnels s)"
  using assms by (induction rule: rtranclp_induct) (auto dest: closed_stays)

lemma returned_quiet:
  "tunnel_ok g d t \<Longrightarrow> tn_phase t = Returned \<Longrightarrow> \<not> tn_upOpen t \<and> \<not> tn_wsOpen t \<and> tn_down t \<in> {DownNone, DownDone}"
  by (simp add: tunnel_ok_def phase_ok_def)

text \<open>The work left in a tunnel.\<close>

definition work :: "tunnel \<Rightarrow> nat" where
  "work t =
     (case tn_phase t of Dialing \<Rightarrow> 20 | Upgrading \<Rightarrow> 15 | UpWrite data \<Rightarrow> 4 | UpRead \<Rightarrow> 3 | Draining \<Rightarrow> 2
        | Leaving \<Rightarrow> 1 | Returned \<Rightarrow> 0)
     + (case tn_down t of DownWrite p \<Rightarrow> 2 | DownRead \<Rightarrow> 1 | _ \<Rightarrow> 0)
     + (if tn_hook t = HookArmed then 1 else 0) + (if tn_upOpen t then 1 else 0) + (if tn_wsOpen t then 1 else 0)"

lemma work_decreases:
  assumes ok: "tunnel_ok g d t" and st: "tunnel_step g d t t'"
    and shut: "\<not> tn_upOpen t \<and> \<not> tn_wsOpen t \<or> tn_phase t \<in> {Dialing, Upgrading}"
  shows "work t' < work t"
proof -
  have p: "phase_ok t" using ok by (simp add: tunnel_ok_def)
  from st show ?thesis
    by (cases rule: tunnel_step.cases)
      (use p shut in \<open>auto simp: work_def phase_ok_def tunnel_ops split: sum.splits option.splits\<close>)
qed

text \<open>A cancelled tunnel whose handler has not returned can go on, and nearer to its end.\<close>

lemma cancelled_progress:
  assumes ok: "tunnel_ok g d t" and ca: "tn_cancelled t" and "tn_phase t \<noteq> Returned" "tn_phase t \<noteq> Leaving"
  shows "\<exists>t'. tunnel_step g d t t' \<and> work t' < work t"
proof -
  have p: "phase_ok t" using ok by (simp add: tunnel_ok_def)
  then have fired: "tn_hook t = HookFired \<longrightarrow> \<not> tn_upOpen t \<and> \<not> tn_wsOpen t"
    and off: "tn_hook t = HookOff \<longrightarrow> tn_phase t \<in> {Dialing, Upgrading, Draining}"
    and drain: "tn_phase t = Draining \<longrightarrow> \<not> tn_upOpen t \<and> \<not> tn_wsOpen t \<and> tn_down t \<noteq> DownNone"
    using assms(3,4) unfolding phase_ok_def by (cases "tn_phase t"; simp)+
  consider "tn_phase t = Dialing" | "tn_phase t = Upgrading" | "tn_hook t = HookArmed"
    | "\<not> tn_upOpen t" "\<not> tn_wsOpen t" "tn_phase t \<notin> {Dialing, Upgrading}"
    using fired off drain by (cases "tn_hook t") blast+
  then show ?thesis
  proof cases
    case 1
    then have st: "tunnel_step g d t (dial (Inl io_EOF) t)" by (rule step_dial)
    have "work (dial (Inl io_EOF) t) < work t" using 1 by (intro work_decreases [OF ok st]) simp
    with st show ?thesis by blast
  next
    case 2
    then have st: "tunnel_step g d t (upgrade None t)" by (rule step_upgrade)
    have "work (upgrade None t) < work t" using 2 by (intro work_decreases [OF ok st]) simp
    with st show ?thesis by blast
  next
    case 3
    then have "work (fireHook t) < work t" by (simp add: work_def fireHook_def)
    with step_hook [OF 3 ca] show ?thesis by blast
  next
    case 4
    have "\<exists>t'. tunnel_step g d t t'"
    proof (cases "tn_phase t")
      case UpRead
      then show ?thesis using step_upRead [of t "Inl io_EOF" g d] by auto
    next
      case (UpWrite data)
      then show ?thesis using step_upWrite [of t data 0 "Some io_EOF" g d] by auto
    next
      case Draining
      show ?thesis
      proof (cases "tn_down t")
        case DownNone
        then show ?thesis using drain Draining by simp
      next
        case DownRead
        then show ?thesis using step_downFail by blast
      next
        case (DownWrite pkt)
        then show ?thesis using step_downWrite [of t pkt "Some io_EOF" g d] by auto
      next
        case DownDone
        then show ?thesis using step_drained [OF Draining] by blast
      qed
    qed (use 4 assms(3,4) in simp_all)
    then obtain t' where "tunnel_step g d t t'" ..
    with work_decreases [OF ok] 4(1,2) show ?thesis by blast
  qed
qed

section \<open>A run of the bridge\<close>

text \<open>One browser connects, one packet travels in each direction, then the bridge is closed.\<close>

definition demo_parse :: url_parse where
  "demo_parse v = (if v = ''http://a'' then Inr \<lparr> ul_Scheme = ''http'', ul_Host = ''a'', ul_User = False, ul_Path = [],
     ul_RawQuery = [], ul_Fragment = [] \<rparr> else Inl (Err ''parse''))"

definition demo_options :: Options where
  "demo_options = \<lparr> op_Upstream = ''h:1'', op_MaxPacketSize = 16, op_MaxConnections = 1, op_IdleTimeout = 0,
     op_WriteTimeout = 0, op_AllowedOrigins = [] \<rparr>"

definition demo_bridge :: Bridge where
  "demo_bridge = \<lparr> br_options = withDefaults demo_options, br_pack = NewDataPackWithLimit 16, br_origins = {},
     br_closed = False, br_next = 0, br_active = Map.empty, br_wg = 0 \<rparr>"

definition demo_request :: http_request where
  "demo_request = \<lparr> hr_Method = ''GET'', hr_upgrade = True, hr_Origin = [''http://a''], hr_TLS = False, hr_Host = ''a'' \<rparr>"

definition demo_packet :: bytes where "demo_packet = [1, 0, 0, 0, 7, 0, 0, 0, 65]"

abbreviation demo_stream :: reader where "demo_stream \<equiv> \<lparr> rd_chunks = [demo_packet], rd_err = io_EOF \<rparr>"

definition demo_serving :: Bridge where
  "demo_serving = demo_bridge\<lparr>br_next := 1, br_active := [0 \<mapsto> 0], br_wg := 1\<rparr>"

definition demo_at :: "phase \<Rightarrow> down \<Rightarrow> bytes list \<Rightarrow> bytes list \<Rightarrow> bytes list \<Rightarrow> bytes list \<Rightarrow> tunnel" where
  "demo_at ph dn incoming received sent wsOut =
     \<lparr> tn_id = 0, tn_phase = ph, tn_down = dn, tn_cancelled = False, tn_hook = HookArmed, tn_upOpen = True,
       tn_wsOpen = True, tn_upIn = \<lparr> rd_chunks = incoming, rd_err = io_EOF \<rparr>, tn_upOut = concat sent,
       tn_wsOut = wsOut, tn_status = None, tn_closeCode = None, tn_upAll = demo_packet,
       tn_received = map (Pair 2) received, tn_sent = sent \<rparr>"

definition demo_tunnel :: tunnel where
  "demo_tunnel = demo_at UpRead DownRead [] [demo_packet] [demo_packet] [demo_packet]"

definition one :: "Bridge \<Rightarrow> tunnel \<Rightarrow> closer list \<Rightarrow> bridge_sys" where
  "one b t cs = \<lparr> bs_bridge = b, bs_tunnels = [t], bs_closers = cs \<rparr>"

abbreviation demo_reach :: "bridge_sys \<Rightarrow> bool" where
  "demo_reach \<equiv> reach (bridge_init demo_parse) (bridge_step DefaultConfig demo_parse)"

lemma NewBridge_demo: "NewBridge demo_parse demo_options = Inr demo_bridge"
proof -
  have "SplitHostPort ''h:1'' = Inr (''h'', ''1'')" by code_simp
  then show ?thesis
    by (simp add: NewBridge_def demo_options_def demo_bridge_def withDefaults_def second_def)
qed

lemma reach_one:
  assumes "demo_reach (one b t cs)" "tunnel_step DefaultConfig (br_pack b) t t'"
  shows "demo_reach (one b t' cs)"
  using reach_step [OF assms(1) bs_tunnel [of 0]] assms(2) by (simp add: one_def)

lemma demo_admitted: "demo_reach (one demo_serving (newTunnel 0) [])"
proof -
  let ?s = "\<lparr> bs_bridge = demo_bridge, bs_tunnels = [], bs_closers = [] \<rparr>"
  have start: "demo_reach ?s" using NewBridge_demo by (intro reach_init) (auto simp: bridge_init_def)
  have adm: "ServeAdmit demo_parse demo_request (length (bs_tunnels ?s)) (bs_bridge ?s) = (Inr 0, demo_serving)"
    by (simp add: ServeAdmit_def demo_request_def CheckOrigin_def demo_parse_def demo_serving_def demo_bridge_def
        demo_options_def withDefaults_def)
  show ?thesis using reach_step [OF start bs_admit [OF adm]] by (simp add: one_def)
qed

lemma demo_ok_packet: "ok_packet DefaultConfig (NewDataPackWithLimit 16) demo_packet"
  unfolding ok_packet_def
  by (rule exI [of _ "NewMsgPackage 7 [65]"])
    (simp add: framed_def within_limit_def NewDataPackWithLimit_def packet_def NewMsgPackage_def PutUint32_def demo_packet_def)

lemma demo_forwarded: "demo_reach (one demo_serving demo_tunnel [])"
proof -
  let ?d = "NewDataPackWithLimit 16" and ?g = DefaultConfig and ?p = "[demo_packet]"
  have pk: "br_pack demo_serving = ?d" by (simp add: demo_serving_def demo_bridge_def)
  have st: "demo_reach (one demo_serving t' [])"
    if "demo_reach (one demo_serving t [])" "tunnel_step ?g ?d t u" "u = t'" for t t' u
    using reach_one [of demo_serving t "[]" u] that by (simp add: pk)
  have "demo_reach (one demo_serving (dial (Inr demo_stream) (newTunnel 0)) [])" (is "demo_reach (one _ ?t1 _)")
    by (rule st [OF demo_admitted]) (rule step_dial, simp_all)
  then have "demo_reach (one demo_serving (demo_at UpRead DownRead ?p [] [] []) [])"
    by (rule st) (rule step_upgrade [where result = None],
      simp_all add: dial_def upgrade_def newTunnel_def demo_at_def rd_bytes_def)
  then have "demo_reach (one demo_serving (demo_at (UpWrite demo_packet) DownRead ?p ?p [] []) [])"
    using demo_ok_packet
    by (elim st) (rule step_upRead [where result = "Inr (2, demo_packet)"],
      simp_all add: demo_at_def upReadStep_def onePacket_iff BinaryMessage_def)
  then have "demo_reach (one demo_serving (demo_at UpRead DownRead ?p ?p ?p []) [])"
    by (rule st) (rule step_upWrite [where n = 9 and err = None],
      simp_all add: demo_at_def upWriteStep_def, simp_all add: demo_packet_def)
  moreover have "downReadStep ?g ?d (demo_at UpRead DownRead ?p ?p ?p []) = demo_at UpRead (DownWrite demo_packet) [] ?p ?p []"
  proof -
    have "ReadMessage ?g ?d (Some demo_stream) = (Inr (NewMsgPackage 7 [65]), Some (demo_stream\<lparr>rd_chunks := []\<rparr>))"
      by (simp add: ReadMessage_def ReadFull_def GetHeadLen_def Unpack_def message_defs NewDataPackWithLimit_def
          Uint32_def slice_def demo_packet_def)
    moreover have "Pack ?g ?d (Some (NewMsgPackage 7 [65])) = Inr demo_packet"
      by (simp add: Pack_def message_defs NewDataPackWithLimit_def PutUint32_def demo_packet_def)
    ultimately show ?thesis by (simp add: downReadStep_def demo_at_def)
  qed
  ultimately have "demo_reach (one demo_serving (demo_at UpRead (DownWrite demo_packet) [] ?p ?p []) [])"
    by (elim st) (rule step_downRead, simp_all add: demo_at_def)
  then show ?thesis
    unfolding demo_tunnel_def
    by (rule st) (rule step_downWrite [where err = None], simp_all add: demo_at_def downWriteStep_def)
qed

definition demo_closing :: Bridge where
  "demo_closing = demo_serving\<lparr>br_closed := True\<rparr>"

lemma demo_close: "demo_reach (one demo_closing (cancelTunnel demo_tunnel) [CloseWaiting])"
proof -
  have "BridgeClose (one demo_serving demo_tunnel []) = one demo_closing (cancelTunnel demo_tunnel) [CloseWaiting]"
    by (simp add: BridgeClose_def one_def demo_closing_def demo_serving_def ran_def)
  with reach_step [OF demo_forwarded bs_close] show ?thesis by simp
qed

definition demo_finished :: bridge_sys where
  "demo_finished = one (ServeLeave 0 demo_closing)
     (demo_tunnel\<lparr>tn_phase := Returned, tn_down := DownDone, tn_cancelled := True, tn_hook := HookFired,
        tn_upOpen := False, tn_wsOpen := False\<rparr>) [CloseReturned]"

lemma demo_close_returned: "demo_reach demo_finished"
proof -
  let ?d = "NewDataPackWithLimit 16" and ?g = DefaultConfig and ?t = "cancelTunnel demo_tunnel"
  have pk: "br_pack demo_closing = ?d" by (simp add: demo_closing_def demo_serving_def demo_bridge_def)
  note st = reach_one [where b = demo_closing and cs = "[CloseWaiting]", unfolded pk]
  note fields = cancelTunnel_def demo_tunnel_def demo_at_def fireHook_def downExit_def upReadStep_def leaveLoop_def drained_def
  have "demo_reach (one demo_closing (fireHook ?t) [CloseWaiting])" (is "demo_reach (one _ ?t1 _)")
    by (rule st [OF demo_close]) (rule step_hook, simp_all add: fields)
  then have "demo_reach (one demo_closing (downExit ?t1) [CloseWaiting])" (is "demo_reach (one _ ?t2 _)")
    by (rule st) (rule step_downFail, simp_all add: fields)
  then have "demo_reach (one demo_closing (upReadStep ?g ?d (Inl io_EOF) ?t2) [CloseWaiting])" (is "demo_reach (one _ ?t3 _)")
    by (rule st) (rule step_upRead, simp_all add: fields)
  then have "demo_reach (one demo_closing (drained ?t3) [CloseWaiting])" (is "demo_reach (one _ ?t4 _)")
    by (rule st) (rule step_drained, simp_all add: fields)
  from reach_step [OF this bs_leave [of 0]]
  have "demo_reach (one (ServeLeave 0 demo_closing) (?t4\<lparr>tn_phase := Returned, tn_cancelled := True\<rparr>) [CloseWaiting])"
    by (simp add: one_def fields)
  from reach_step [OF this bs_closed [of 0]] show ?thesis
    by (simp add: one_def fields demo_finished_def ServeLeave_def demo_closing_def demo_serving_def)
qed

section \<open>Properties\<close>

text \<open>C16: the bridge forwards packets unchanged. What a tunnel has written to the server is a prefix of the messages
  received from the browser, one after the other; while the handler waits for the browser, it is all of them,
  and each is one whole packet within the size limit. Every message written to the browser is one whole packet within the limit,
  and together they are a prefix of the bytes the server sent.\<close>

theorem bridge_tunnel_exact:
  assumes "reach (bridge_init parse) (bridge_step g parse) s" and "t \<in> set (bs_tunnels s)"
  shows "prefix (tn_upOut t) (concat (map snd (tn_received t)))
    \<and> (tn_phase t = UpRead \<longrightarrow> tn_upOut t = concat (map snd (tn_received t))
         \<and> (\<forall>p \<in> set (tn_received t). whole_packet (op_MaxPacketSize (br_options (bs_bridge s))) (snd p)))
    \<and> (\<forall>p \<in> set (tn_wsOut t). whole_packet (op_MaxPacketSize (br_options (bs_bridge s))) p)
    \<and> prefix (concat (tn_wsOut t)) (tn_upAll t)"
proof -
  have inv: "bridge_inv g s" using assms(1) by (rule bridge.reach_inv)
  then have lim: "limits_ok (bs_bridge s)" and ok: "tunnel_ok g (br_pack (bs_bridge s)) t"
    using assms(2) by (simp_all add: bridge_inv_def)
  note pk = ok_packet_limit [OF lim, of g, folded whole_packet_iff]
  have "up_ok g (br_pack (bs_bridge s)) t" and d: "down_ok g (br_pack (bs_bridge s)) t"
    using ok by (simp_all add: tunnel_ok_def)
  moreover have "\<forall>p \<in> set (tn_wsOut t). whole_packet (op_MaxPacketSize (br_options (bs_bridge s))) p"
    using d by (simp add: down_ok_def pk)
  ultimately show ?thesis
    using up_ok_prefix up_ok_pending down_ok_prefix unfolding pk [symmetric] by blast
qed

theorem bridge_tunnel_exact_witness:
  "tn_upOut demo_tunnel = [1, 0, 0, 0, 7, 0, 0, 0, 65] \<and> tn_received demo_tunnel \<noteq> []
    \<and> tn_upOut demo_tunnel = concat (map snd (tn_received demo_tunnel))
    \<and> whole_packet 16 [1, 0, 0, 0, 7, 0, 0, 0, 65] \<and> prefix (concat (tn_wsOut demo_tunnel)) (tn_upAll demo_tunnel)"
  using bridge_tunnel_exact [OF demo_forwarded, of demo_tunnel]
  by (simp add: one_def demo_tunnel_def demo_at_def demo_packet_def demo_serving_def demo_bridge_def demo_options_def withDefaults_def)

text \<open>C17: closing the bridge. At most \<open>MaxConnections\<close> tunnels exist at a time. When a call of \<open>Close\<close> has
  returned, every handler has returned, its sockets are closed and its goroutine has ended, and no request is
  admitted any more. (Ids of tunnels are unique for the first \<open>2^64\<close> requests.)\<close>

theorem bridge_close_complete:
  assumes "reach (bridge_init parse) (bridge_step g parse) s" and "length (bs_tunnels s) \<le> 2 ^ 64"
  shows "int (card {i. i < length (bs_tunnels s) \<and> tn_phase (bs_tunnels s ! i) \<noteq> Returned}) \<le> op_MaxConnections (br_options (bs_bridge s))
    \<and> (CloseReturned \<in> set (bs_closers s) \<longrightarrow>
         (\<forall>t \<in> set (bs_tunnels s). tn_phase t = Returned \<and> \<not> tn_upOpen t \<and> \<not> tn_wsOpen t \<and> tn_down t \<in> {DownNone, DownDone})
         \<and> (\<forall>s'. (bridge_step g parse)\<^sup>*\<^sup>* s s' \<longrightarrow> length (bs_tunnels s') = length (bs_tunnels s)))"
proof -
  have inv: "bridge_inv g s" using assms(1) by (rule bridge.reach_inv)
  then have reg: "registry_ok s" and cl: "closing_ok s" using assms(2) by (simp_all add: bridge_inv_def)
  have "int (card (serving (bs_tunnels s))) \<le> op_MaxConnections (br_options (bs_bridge s))"
    using reg unfolding registry_ok_def Let_def by blast
  moreover have "tn_phase t = Returned \<and> \<not> tn_upOpen t \<and> \<not> tn_wsOpen t \<and> tn_down t \<in> {DownNone, DownDone}"
    if "CloseReturned \<in> set (bs_closers s)" "t \<in> set (bs_tunnels s)" for t
  proof -
    have "serving (bs_tunnels s) = {}" using cl that(1) by (simp add: closing_ok_def)
    then have "tn_phase t = Returned" using that(2) by (auto simp: serving_def in_set_conv_nth)
    moreover have "tunnel_ok g (br_pack (bs_bridge s)) t" using inv that(2) by (simp add: bridge_inv_def)
    ultimately show ?thesis using returned_quiet by blast
  qed
  moreover have "length (bs_tunnels s') = length (bs_tunnels s)"
    if "CloseReturned \<in> set (bs_closers s)" "(bridge_step g parse)\<^sup>*\<^sup>* s s'" for s'
    using closed_stays_run [OF that(2)] that(1) cl by (auto simp: closing_ok_def)
  ultimately show ?thesis unfolding serving_def by blast
qed

theorem bridge_close_complete_witness:
  "CloseReturned \<in> set (bs_closers demo_finished) \<and> length (bs_tunnels demo_finished) = 1
    \<and> int (card {i. i < length (bs_tunnels demo_finished) \<and> tn_phase (bs_tunnels demo_finished ! i) \<noteq> Returned}) \<le> 1
    \<and> tn_phase (bs_tunnels demo_finished ! 0) = Returned"
  using bridge_close_complete [OF demo_close_returned]
  by (simp add: demo_finished_def one_def ServeLeave_def demo_closing_def demo_serving_def demo_bridge_def
      demo_options_def withDefaults_def)

text \<open>\<open>Close\<close> does not wait forever. Once the bridge is closed, every handler that has not returned can take a step
  that leaves it less to do, dialling and upgrading always do so, and after its sockets are closed every step does; a
  waiting \<open>Close\<close> can return as soon as all handlers have.\<close>

theorem bridge_close_releases:
  assumes "reach (bridge_init parse) (bridge_step g parse) s" and "length (bs_tunnels s) \<le> 2 ^ 64"
    and "br_closed (bs_bridge s)" and "i < length (bs_tunnels s)" and "tn_phase (bs_tunnels s ! i) \<noteq> Returned"
  shows "(\<exists>s'. bridge_step g parse s s' \<and> work (bs_tunnels s' ! i) < work (bs_tunnels s ! i))
    \<and> (\<forall>t'. tunnel_step g (br_pack (bs_bridge s)) (bs_tunnels s ! i) t'
          \<longrightarrow> \<not> tn_upOpen (bs_tunnels s ! i) \<and> \<not> tn_wsOpen (bs_tunnels s ! i) \<or> tn_phase (bs_tunnels s ! i) \<in> {Dialing, Upgrading}
          \<longrightarrow> work t' < work (bs_tunnels s ! i))"
proof -
  let ?t = "bs_tunnels s ! i"
  have inv: "bridge_inv g s" using assms(1) by (rule bridge.reach_inv)
  then have ok: "tunnel_ok g (br_pack (bs_bridge s)) ?t" and cl: "closing_ok s"
    using assms(2,4) by (simp_all add: bridge_inv_def)
  then have ca: "tn_cancelled ?t" using assms(3,4) by (simp add: closing_ok_def)
  have "\<exists>s'. bridge_step g parse s s' \<and> work (bs_tunnels s' ! i) < work ?t"
  proof (cases "tn_phase ?t = Leaving")
    case True
    then show ?thesis
      using bs_leave [OF assms(4) True, of g parse] assms(4) by (intro exI conjI) (auto simp: work_def)
  next
    case False
    from cancelled_progress [OF ok ca assms(5) False] obtain t' where
      "tunnel_step g (br_pack (bs_bridge s)) ?t t'" "work t' < work ?t" by blast
    then show ?thesis using bs_tunnel [OF assms(4), of g t' parse] assms(4) by (intro exI conjI) auto
  qed
  with work_decreases [OF ok] show ?thesis by blast
qed

theorem bridge_close_releases_witness:
  "\<exists>s'. bridge_step DefaultConfig demo_parse (one demo_closing (cancelTunnel demo_tunnel) [CloseWaiting]) s'
      \<and> work (bs_tunnels s' ! 0) < work (cancelTunnel demo_tunnel)"
  using bridge_close_releases [OF demo_close, of 0]
  by (simp add: one_def demo_closing_def demo_tunnel_def demo_at_def)

end
