(* ===== verification/Logger.thy ===== *)
theory Logger
  imports Prelude StepSystem
begin

text \<open>
  The logger of \<open>gcore/logger.go\<close>: levels, fields, child loggers and the writing of one JSON line per call.
  The JSON encoder, the clock and the outcome of a write are arguments. The last part interleaves the calls of
  several goroutines on a writer that takes a line in pieces: the lock belongs to a logger, not to the
  writer that a child shares with its parent.
\<close>

section \<open>Levels and fields\<close>

type_synonym LogLevel = u8

definition LogLevelDebug :: LogLevel where "LogLevelDebug = 0"
definition LogLevelInfo :: LogLevel where "LogLevelInfo = 1"
definition LogLevelWarn :: LogLevel where "LogLevelWarn = 2"
definition LogLevelError :: LogLevel where "LogLevelError = 3"

definition LogLevel_String :: "LogLevel \<Rightarrow> string" where
  "LogLevel_String ll =
     (if ll = LogLevelDebug then ''DEBUG''
      else if ll = LogLevelInfo then ''INFO''
      else if ll = LogLevelWarn then ''WARN''
      else if ll = LogLevelError then ''ERROR''
      else ''UNKNOWN'')"

record 'v LogField =
  lf_Key :: string
  lf_Value :: 'v

definition Field :: "string \<Rightarrow> 'v \<Rightarrow> 'v LogField" where
  "Field key v = \<lparr> lf_Key = key, lf_Value = v \<rparr>"

text \<open>A writer is a handle; \<open>Stdout\<close> is the handle 0. The field \<open>writeLock\<close> is the mutex itself, by its identity: the
  composite literal of \<open>NewLogger\<close> allocates a new one, which is the argument \<open>mutex\<close>.\<close>

record 'v Logger =
  lg_service :: string
  lg_output :: nat
  lg_minLevel :: "32 word"
  lg_writeLock :: nat
  lg_baseFields :: "string \<rightharpoonup> 'v"

record 'v logRecord =
  rec_Timestamp :: string
  rec_Level :: string
  rec_Service :: string
  rec_Message :: string
  rec_Fields :: "string \<rightharpoonup> 'v"

definition Stdout :: nat where "Stdout = 0"

definition SetLevel :: "LogLevel \<Rightarrow> 'v Logger \<Rightarrow> 'v Logger" where
  "SetLevel level l = l\<lparr>lg_minLevel := ucast level\<rparr>"

definition GetLevel :: "'v Logger \<Rightarrow> LogLevel" where
  "GetLevel l = ucast (lg_minLevel l)"

definition NewLogger :: "nat \<Rightarrow> string \<Rightarrow> nat option \<Rightarrow> 'v Logger" where
  "NewLogger mutex service output =
     (let output = (case output of None \<Rightarrow> Stdout | Some h \<Rightarrow> h)
      in \<lparr> lg_service = service, lg_output = output, lg_minLevel = ucast LogLevelInfo, lg_writeLock = mutex,
           lg_baseFields = Map.empty \<rparr>)"

definition DefaultLogger :: "'v Logger" where
  "DefaultLogger = NewLogger 0 ''ginx'' (Some Stdout)"

text \<open>The loop over the fields of a call: a field with an empty key is left out, a later one replaces an earlier one.\<close>

fun setFields :: "'v LogField list \<Rightarrow> (string \<rightharpoonup> 'v) \<Rightarrow> (string \<rightharpoonup> 'v)" where
  "setFields [] m = m"
| "setFields (field # args) m =
     setFields args (if lf_Key field \<noteq> '''' then m(lf_Key field \<mapsto> lf_Value field) else m)"

definition With :: "nat \<Rightarrow> 'v LogField list \<Rightarrow> 'v Logger \<Rightarrow> 'v Logger" where
  "With mutex args l =
     (let child = SetLevel (GetLevel l) (NewLogger mutex (lg_service l) (Some (lg_output l)))
      in child\<lparr>lg_baseFields := setFields args (lg_baseFields l ++ lg_baseFields child)\<rparr>)"

section \<open>Writing a line\<close>

text \<open>What a call meets: the encoder, the formatted time, and what the writer makes of the bytes.\<close>

record 'v log_env =
  le_Marshal :: "'v logRecord \<Rightarrow> bytes res"
  le_now :: string
  le_write :: "bytes \<Rightarrow> nat \<times> go_error option"

type_synonym outputs = "nat \<Rightarrow> bytes"

definition Log ::
  "'v log_env \<Rightarrow> LogLevel \<Rightarrow> string \<Rightarrow> 'v LogField list \<Rightarrow> 'v Logger \<Rightarrow> outputs \<Rightarrow> go_error option \<times> outputs" where
  "Log E level message args l out =
     (if level < GetLevel l then (None, out)
      else
        let allFields = setFields args (lg_baseFields l);
            rec = \<lparr> rec_Timestamp = le_now E, rec_Level = LogLevel_String level, rec_Service = lg_service l,
                    rec_Message = message, rec_Fields = allFields \<rparr>
        in (case le_Marshal E rec of
              Inl err \<Rightarrow> (Some err, out)
            | Inr data \<Rightarrow>
                let data = data @ [0x0A]
                in (case le_write E data of
                      (n, err) \<Rightarrow> (err, out(lg_output l := out (lg_output l) @ take n data)))))"

definition Debug :: "'v log_env \<Rightarrow> string \<Rightarrow> 'v LogField list \<Rightarrow> 'v Logger \<Rightarrow> outputs \<Rightarrow> go_error option \<times> outputs" where
  "Debug E message args = Log E LogLevelDebug message args"

definition Info :: "'v log_env \<Rightarrow> string \<Rightarrow> 'v LogField list \<Rightarrow> 'v Logger \<Rightarrow> outputs \<Rightarrow> go_error option \<times> outputs" where
  "Info E message args = Log E LogLevelInfo message args"

definition Warn :: "'v log_env \<Rightarrow> string \<Rightarrow> 'v LogField list \<Rightarrow> 'v Logger \<Rightarrow> outputs \<Rightarrow> go_error option \<times> outputs" where
  "Warn E message args = Log E LogLevelWarn message args"

definition Error :: "'v log_env \<Rightarrow> string \<Rightarrow> 'v LogField list \<Rightarrow> 'v Logger \<Rightarrow> outputs \<Rightarrow> go_error option \<times> outputs" where
  "Error E message args = Log E LogLevelError message args"

lemma GetLevel_SetLevel [simp]: "GetLevel (SetLevel level l) = level"
  by (simp add: GetLevel_def SetLevel_def ucast_up_ucast_id is_up)

lemma setFields_append [simp]: "setFields (xs @ ys) m = setFields ys (setFields xs m)"
  by (induction xs arbitrary: m) simp_all

text \<open>The value of a key: that of the last field with this key.\<close>

lemma setFields_lookup:
  "setFields args m k =
     (case find (\<lambda>f. lf_Key f = k \<and> k \<noteq> '''') (rev args) of Some f \<Rightarrow> Some (lf_Value f) | None \<Rightarrow> m k)"
proof (induction args rule: rev_induct)
  case (snoc f args)
  then show ?case by auto
qed simp

lemma With_fields [simp]:
  "GetLevel (With mutex args l) = GetLevel l" "lg_service (With mutex args l) = lg_service l"
  "lg_output (With mutex args l) = lg_output l" "lg_writeLock (With mutex args l) = mutex"
  "lg_baseFields (With mutex args l) = setFields args (lg_baseFields l)"
  by (simp_all add: With_def NewLogger_def SetLevel_def GetLevel_def ucast_up_ucast_id is_up)

lemma Log_With: "Log E level message args (With mutex given l) = Log E level message (given @ args) l"
  by (simp add: Log_def fun_eq_iff Let_def split: sum.split)

section \<open>Goroutines that log at the same time\<close>

text \<open>
  The end of \<open>Log\<close> for several goroutines: the goroutine \<open>t\<close>, whose logger is \<open>logger t\<close>, waits for the lock of this
  logger, hands its line to the writer of this logger, which takes it in pieces, and unlocks. \<open>ls_written\<close> lists
  the finished lines with their writer.
\<close>

datatype log_phase = Waiting bytes | Writing bytes bytes | Written

record log_sys =
  ls_out :: outputs
  ls_phase :: "nat \<Rightarrow> log_phase"
  ls_lock :: "nat \<Rightarrow> nat option"
  ls_written :: "(nat \<times> bytes) list"



definition whole_lines :: "log_sys \<Rightarrow> bytes" where
  "whole_lines s = concat (map snd (ls_written s))"

lemma whole_lines_simps [simp]:
  "whole_lines (s\<lparr>ls_phase := p, ls_lock := k\<rparr>) = whole_lines s"
  "whole_lines (s\<lparr>ls_out := out, ls_phase := p\<rparr>) = whole_lines s"
  "whole_lines (s\<lparr>ls_phase := p, ls_lock := k, ls_written := ls_written s @ [(h, line)]\<rparr>) = whole_lines s @ line"
  by (simp_all add: whole_lines_def)






section \<open>Properties\<close>

text \<open>C38: one call, one line. A call through a logger made by \<open>With\<close> is the call on its parent with the fields
  of both; below the minimal level it does nothing; otherwise one line is written to the logger's writer and to no
  other, the record in it has for every key the value given last, those of the call before those of the
  logger, and no empty key; a record that cannot be encoded is reported and leaves no trace.\<close>
theorem log_call_one_line:
  assumes "Log E level message args (With mutex given l) out = (err, out')" "le_write E = (\<lambda>d. (length d, None))"
    and "lg_baseFields l [] = None"
  shows "Log E level message (given @ args) l out = (err, out') \<and>
    (\<forall>h. h \<noteq> lg_output l \<longrightarrow> out' h = out h) \<and>
    (level < GetLevel l \<longrightarrow> err = None \<and> out' = out) \<and>
    (GetLevel l \<le> level \<longrightarrow> (\<exists>m. m [] = None \<and>
       (\<forall>k. k \<noteq> [] \<longrightarrow> m k = (case find (\<lambda>f. lf_Key f = k) (rev args @ rev given) of
          Some f \<Rightarrow> Some (lf_Value f) | None \<Rightarrow> lg_baseFields l k)) \<and>
       (case le_Marshal E \<lparr> rec_Timestamp = le_now E, rec_Level = LogLevel_String level, rec_Service = lg_service l,
            rec_Message = message, rec_Fields = m \<rparr> of
          Inl e \<Rightarrow> err = Some e \<and> out' = out
        | Inr data \<Rightarrow> err = None \<and> out' (lg_output l) = out (lg_output l) @ data @ [0x0A])))"
proof -
  let ?m = "setFields (given @ args) (lg_baseFields l)"
  have call: "Log E level message (given @ args) l out = (err, out')" using assms(1) by (simp only: Log_With)
  have "?m [] = None" using assms(3) by (simp only: setFields_lookup) (simp add: find_None_iff split: option.split)
  moreover have "?m k = (case find (\<lambda>f. lf_Key f = k) (rev args @ rev given) of
      Some f \<Rightarrow> Some (lf_Value f) | None \<Rightarrow> lg_baseFields l k)" if "k \<noteq> []" for k
    unfolding setFields_lookup using that by simp
  moreover have "case le_Marshal E \<lparr> rec_Timestamp = le_now E, rec_Level = LogLevel_String level, rec_Service = lg_service l,
      rec_Message = message, rec_Fields = ?m \<rparr> of
        Inl e \<Rightarrow> err = Some e \<and> out' = out
      | Inr data \<Rightarrow> err = None \<and> out' (lg_output l) = out (lg_output l) @ data @ [0x0A]" if "GetLevel l \<le> level"
  proof -
    have "\<not> level < GetLevel l" using that by (simp add: not_less)
    with call assms(2) show ?thesis by (auto simp: Log_def Let_def simp del: setFields_append split: sum.splits)
  qed
  moreover have "out' h = out h" if "h \<noteq> lg_output l" for h
    using call that by (auto simp: Log_def Let_def split: if_splits sum.splits prod.splits)
  moreover have "err = None \<and> out' = out" if "level < GetLevel l" using call that by (simp add: Log_def)
  ultimately show ?thesis using call by blast
qed




section \<open>Witnesses\<close>

definition demo_log :: "nat log_env" where
  "demo_log = \<lparr> le_Marshal = (\<lambda>r. if rec_Fields r ''k'' = Some 2 then Inr [0x7B, 0x7D] else Inl (Err ''unsupported'')),
     le_now = ''t'', le_write = (\<lambda>d. (length d, None)) \<rparr>"

theorem log_call_one_line_witness:
  "\<exists>out'. Log demo_log LogLevelWarn ''m'' [Field ''k'' 2] (With 1 [Field ''k'' 1] DefaultLogger) (\<lambda>h. []) = (None, out') \<and>
     out' Stdout = [0x7B, 0x7D, 0x0A] \<and> out' 1 = []"
proof -
  let ?rec = "\<lambda>m. \<lparr> rec_Timestamp = le_now demo_log, rec_Level = LogLevel_String LogLevelWarn,
      rec_Service = lg_service (DefaultLogger :: nat Logger), rec_Message = ''m'', rec_Fields = m \<rparr>"
  obtain err out' where run: "Log demo_log LogLevelWarn ''m'' [Field ''k'' 2] (With 1 [Field ''k'' 1] DefaultLogger) (\<lambda>h. []) = (err, out')"
    by fastforce
  have dflt: "lg_output (DefaultLogger :: nat Logger) = Stdout" "lg_baseFields (DefaultLogger :: nat Logger) [] = None"
    "GetLevel (DefaultLogger :: nat Logger) \<le> LogLevelWarn"
    by (simp_all add: DefaultLogger_def NewLogger_def GetLevel_def LogLevelWarn_def LogLevelInfo_def)
  have "le_write demo_log = (\<lambda>d. (length d, None))" by (simp add: demo_log_def)
  note line = log_call_one_line [OF run this dflt(2), unfolded dflt(1)]
  have other: "out' 1 = []" using line by (simp add: Stdout_def)
  obtain m where m: "\<forall>k. k \<noteq> [] \<longrightarrow> m k = (case find (\<lambda>f. lf_Key f = k) (rev [Field ''k'' 2] @ rev [Field ''k'' 1]) of
      Some f \<Rightarrow> Some (lf_Value f) | None \<Rightarrow> lg_baseFields (DefaultLogger :: nat Logger) k)"
    and res: "case le_Marshal demo_log (?rec m) of
      Inl e \<Rightarrow> err = Some e \<and> out' = (\<lambda>h. []) | Inr data \<Rightarrow> err = None \<and> out' Stdout = [] @ data @ [0x0A]"
    using line dflt(3) by blast
  have "m ''k'' = Some 2" using m by (simp add: Field_def)
  with res have "err = None" "out' Stdout = [0x7B, 0x7D, 0x0A]" by (simp_all add: demo_log_def)
  with run other show ?thesis by blast
qed


end
