(* ===== verification/Spec2Isabelle.thy ===== *)
theory Spec2Isabelle
  imports GameProtocol SessionManager UnityProtocol ConnManager Room ServerRun UnityWorld GameServe WebGame UnityRun Bridge Logger
begin

text \<open>
  A verification library for Ginx, a TCP server framework for games written in Go, and for the game
  servers that come with it.

  \<^bold>\<open>The program.\<close> The framework accepts TCP connections (\<open>gnet/server.go\<close>), registers them
  (\<open>gnet/connmanager.go\<close>), runs a reader and a writer for each (\<open>gnet/connection.go\<close>), frames messages
  (\<open>gnet/datapack.go\<close>, \<open>gnet/message.go\<close>) and hands requests to a pool of workers that run the routers of the
  application (\<open>gnet/msghandler.go\<close>). Beside it stand the parts an application combines: an area-of-interest
  grid, rooms and a message envelope (\<open>gcore\<close>), sessions (\<open>session\<close>), a rate limiter (\<open>limit\<close>), counters
  (\<open>metrics\<close>), player stores (\<open>persist\<close>) and a logger. Three applications use them: a service with accounts and
  progress behind TCP and HTTP (\<open>examples/gameapp\<close>, with \<open>examples/sqlitestore\<close>), a server for Unity clients
  (\<open>examples/unity\<close>, \<open>examples/unityserver\<close>) and a browser game (\<open>examples/webgame/server\<close>), whose clients come
  through a bridge from WebSocket to TCP (\<open>wsbridge\<close>).

  \<^bold>\<open>Theories and code.\<close>

  \<^item> Prelude: the machine types of Go, errors as values of a sum type, Go maps as partial functions, the
    little-endian codec of \<open>encoding/binary\<close>, decimal printing. StepSystem: reachable states and the locale
    \<open>invariant_system\<close>; every component with state is a step system and interprets it.

  \<^item> Config: \<open>utils/globalobj.go\<close> and \<open>gnet/config.go\<close>. Metrics: \<open>metrics/metrics.go\<close>, 64-bit counters
    that wrap. TokenBucket: \<open>limit/token_bucket.go\<close>; RateBound: how far rounding to float64
    bends its rate, with what IEEE 754 promises of rounding to the nearest as the hypothesis \<open>float64_rounding\<close>.

  \<^item> DataPack: \<open>gnet/message.go\<close> and \<open>gnet/datapack.go\<close>; a stream is a list of chunks that \<open>io.ReadFull\<close>
    collects. GameProtocol: the envelope of \<open>gcore/protocol.go\<close>.

  \<^item> Connection: \<open>gnet/connection.go\<close>. The senders, the writer and the calls of \<open>Stop\<close> are threads of one
    step relation; a queue of bounded length and a socket that accepts part of a write connect them. The reader is
    the sequential function \<open>StartReader\<close> over the inbound stream, whose deadlines, clock and calls of the
    message handler are arguments; it is no thread of that relation.
    ConnStore: the interface \<open>gface.IConnection\<close> as the other components use it, a store of connections with
    the locale \<open>buffered_sender\<close> as its contract.

  \<^item> ConnManager: \<open>gnet/connmanager.go\<close>. MsgHandle: \<open>gnet/msghandler.go\<close>, \<open>request.go\<close>, \<open>router.go\<close>;
    the worker pool with all interleavings of dispatchers, workers, the goroutines of requests handled directly,
    and the stop. The state logs the requests that entered a queue, all that were accepted, and all that were
    handled.

  \<^item> Server and ServerRun: \<open>gnet/server.go\<close>; the accept loop, the life of a connection between its hooks,
    the worker pool and the shutdown in one step relation, with the invariants that span them.

  \<^item> Room and AOI: \<open>gcore/room.go\<close> and \<open>gcore/aoi.go\<close>. SessionManager: \<open>session/session.go\<close> and
    \<open>session/legacy.go\<close>.

  \<^item> Persist: \<open>persist/memory.go\<close>, \<open>json_file.go\<close>, \<open>player.go\<close> on a file system whose calls may fail;
    the locale \<open>player_store\<close> states what a store promises, the memory store, the JSON file store and the
    store of SqliteStore (\<open>examples/sqlitestore/store.go\<close>) interpret it.

  \<^item> GameApp, GameService: \<open>examples/gameapp/service.go\<close>, its invariant and its properties. GameProgress:
    \<open>examples/gameapp/progress.go\<close> over the locale \<open>progress_store\<close>, interpreted on the SQLite store.

  \<^item> GameTcp, GameHttp, GameServe: \<open>examples/gameapp/tcp.go\<close>, \<open>http.go\<close> and \<open>runtime.go\<close>; the router in the
    message handler of the framework, the HTTP handlers behind the token bucket, and the whole application as
    one step system that refines the service (locale \<open>step_refinement\<close>); what a tick removes, what can end the life
    of a token, and the order of the deferred calls of \<open>Serve\<close>. GoBytes: white space in strings.

  \<^item> Logger: \<open>gcore/logger.go\<close>, also with several goroutines on one writer; a logger carries the identity of its
    mutex.

  \<^item> UnityProtocol: the Protobuf codec of \<open>examples/unity/protocol.go\<close>. UnityWorld:
    \<open>examples/unity/world.go\<close> over the grid and the store of connections. UnityServer, UnityRun:
    \<open>examples/unityserver/server.go\<close>, its routers and hooks, each run without another in between, and its
    properties. A request may be handled after the stop hook of its connection, as the queues of the worker pool allow.

  \<^item> Bridge: \<open>wsbridge/bridge.go\<close>; the handlers, both forwarding loops of every tunnel and \<open>Close\<close> as threads of
    one step relation.

  \<^item> GoMath, WebWorld, WebArena, WebRun, WebTick, WebGame: \<open>examples/webgame/server/world.go\<close> and
    \<open>protocol.go\<close>; the arithmetic, the operations, the invariants of arenas and of guests, the time step, and
    the properties.

  \<^bold>\<open>What is shown.\<close> Framing: what is packed is read back whatever the chunks; what happens at 4 GiB.
  Connection: the peer gets the queued messages in order, at most a prefix of them; a send tells whether its
  message was queued; Stop ends the stream and releases all senders; the reader delivers in order, whatever ends
  it. Pool: with workers, one connection's requests are handled in order and one at a time; without, each has a
  goroutine of its own; a stop waits until every accepted request is handled, and none is accepted after it; a panic
  of a router stays contained. Server: registry, gauge and wait group account for all connections, the registry until
  a shutdown clears it; the hooks bracket a connection's life; Shutdown is complete when it returns nil. Sessions: the lookups agree, binding
  never takes an identity away. Rooms, grid: broadcasts reach exactly the members, the nearby query equals its
  definition by distance, moves report the difference. Stores: the file store refines a table, except when
  the last rename fails; SQLite updates are atomic; the starter reward is given once. Logger: one call is one
  line, whole among the calls on one logger, but not between a logger and its child. Bridge: packets pass unchanged and
  in order, and \<open>Close\<close> is complete when it returns. Applications: every TCP request is answered once, a token
  obtained over HTTP is accepted until it expires or a step of the run takes it away, logins are limited up to the
  rounding of float64, a tick removes exactly what has expired, and leaving \<open>Serve\<close> closes the service, the server and
  the listener in this order; rooms,
  grids, sessions and player tables tell the same story in every reachable state; crystals are collected once;
  snapshots show what is there; time steps return.

  \<^bold>\<open>Arguments of the model.\<close> Code outside the repository appears as an argument with documented behaviour
  as a named hypothesis: JSON encoding and decoding, bcrypt, the printing and parsing of times, the SQL driver's
  failures, the file system, the clock, random bytes, the tables of Unicode, the order in which Go visits a map,
  the rounding of \<open>float64\<close> operations and the conversions that Go leaves to the implementation. The witnesses
  instantiate them by concrete functions.

  \<^bold>\<open>Bounds.\<close> Integers keep their width; wrap-around is part of the definitions. Where a theorem needs room, it
  says so: a grid of fewer than \<open>2^53\<close> cells per side, a gauge below \<open>2^63\<close>, fewer than \<open>2^64\<close> guests, ids of
  connections that are unique while connected. Loops are recursive functions with termination proofs; where a loop
  of the source might run on (the collection of neighbours, names, ticks) the model counts steps and
  a theorem shows that it returns.

  \<^bold>\<open>Not modelled.\<close> The mutexes of the components whose operations are single steps (sessions, rooms, the world of
  the browser game, the service): nothing is said about their release, and handlers of the Unity server do not
  interleave within one call. A fused multiply-add, which Go permits for float64. Process entry points, dialling, listening and flag parsing
  (\<open>examples/*/cmd\<close>, \<open>examples/gameserver\<close>, \<open>examples/gameclient\<close>, \<open>main\<close>): input and output
  around the modelled calls. The table of HTTP routes and the
  static files of the browser game (\<open>examples/webgame/server/http.go\<close>): their behaviour is that of the standard
  library. Opening the database file of the SQLite store. Of \<open>gnet/connection.go\<close>: the
  starting of the goroutines, the wrappers that make the context of a send from its timeout, and the addresses
  of the socket. Generated constants
  (\<open>examples/gameapp/protocol/protocol.gen.go\<close>), the interfaces of \<open>gface\<close>, which carry no code, and the parts
  in other languages (the browser client, the protocol generator, tests).
\<close>

end
